(* ===== verification/Prelude.thy ===== *)
theory Prelude
  imports Main "HOL-Library.Word" "HOL-Library.List_Lexorder" "HOL-Library.Char_ord"
    "HOL-Library.Product_Lexorder" "HOL-Library.Monad_Syntax"
begin

unbundle bit_operations_syntax

text \<open>
  Shared vocabulary of the development: bytes and byte strings as Python's \<open>bytes\<close>, the
  exceptions the sources raise, the error result they return, slicing and indexing with
  Python's out-of-range behaviour, big- and little-endian reads (\<open>struct.unpack_from\<close>,
  \<open>int.from_bytes\<close>) and decimal printing (\<open>str(int)\<close>), each with the generic lemmas the
  component theories use.
\<close>

section \<open>Types\<close>

type_synonym byte = "8 word"
type_synonym bytes = "byte list"

text \<open>
  The exceptions the modelled code raises or can meet. The string is the message of the
  \<open>raise\<close> statement. The constructors without a message are what the language raises by itself: a
  read out of range, a missing key, \<open>next(iter(\<dots>))\<close> of an empty container, a division by zero, an
  operand of the wrong type, a byte string that does not decode, an interrupt.
\<close>

datatype py_error =
    PacketDecodeError string
  | ValueError string
  | RuntimeError string
  | MalformedMQTT string
  | MQTTConnectLimit string
  | CaptureError string
  | PcapyUnavailable string
  | ServiceWatchdogError string
  | AuditRuntimeError string
  | AssertionError
  | IndexError
  | KeyError
  | StructError
  | StopIteration
  | ZeroDivisionError
  | TypeError
  | UnicodeDecodeError
  | KeyboardInterrupt
  | OSError string

type_synonym 'a result = "py_error + 'a"

named_theorems py_simps \<open>unfolding rules for the Python primitives\<close>
named_theorems bounds_intro \<open>range facts about decoded values\<close>

section \<open>Error results\<close>

definition bindE :: "'a result \<Rightarrow> ('a \<Rightarrow> 'b result) \<Rightarrow> 'b result" where
  "bindE m f = (case m of Inl e \<Rightarrow> Inl e | Inr x \<Rightarrow> f x)"

lemma bindE_simps [simp]:
  "bindE (Inl e) f = Inl e"
  "bindE (Inr x) f = f x"
  by (simp_all add: bindE_def)

lemma bindE_Inr_iff: "bindE m f = Inr y \<longleftrightarrow> (\<exists>x. m = Inr x \<and> f x = Inr y)"
  by (cases m) auto

lemma bindE_Inl_iff: "bindE m f = Inl e \<longleftrightarrow> m = Inl e \<or> (\<exists>x. m = Inr x \<and> f x = Inl e)"
  by (cases m) auto

lemma bindE_Inr_E [elim!]:
  assumes "bindE m f = Inr y" obtains x where "m = Inr x" "f x = Inr y"
  using assms by (auto simp: bindE_Inr_iff)

text \<open>
  \<open>raises_only P m\<close>: whatever \<open>m\<close> raises satisfies \<open>P\<close>. It is the contract that a caller
  with an \<open>except\<close> clause relies on.
\<close>

definition raises_only :: "(py_error \<Rightarrow> bool) \<Rightarrow> 'a result \<Rightarrow> bool" where
  "raises_only P m \<longleftrightarrow> (case m of Inl e \<Rightarrow> P e | Inr _ \<Rightarrow> True)"

lemma raises_only_simps [simp]:
  "raises_only P (Inl e) \<longleftrightarrow> P e"
  "raises_only P (Inr x)"
  by (simp_all add: raises_only_def)

lemma raises_only_bindE [intro]:
  "raises_only P m \<Longrightarrow> (\<And>x. m = Inr x \<Longrightarrow> raises_only P (f x)) \<Longrightarrow> raises_only P (bindE m f)"
  by (cases m) auto

lemma raises_only_if [intro]:
  "(b \<Longrightarrow> raises_only P x) \<Longrightarrow> (\<not> b \<Longrightarrow> raises_only P y) \<Longrightarrow> raises_only P (if b then x else y)"
  by simp

text \<open>\<open>type(exc).__name__\<close>.\<close>

fun error_name :: "py_error \<Rightarrow> string" where
  "error_name (PacketDecodeError _) = ''PacketDecodeError''"
| "error_name (ValueError _) = ''ValueError''"
| "error_name (RuntimeError _) = ''RuntimeError''"
| "error_name (MalformedMQTT _) = ''MalformedMQTT''"
| "error_name (MQTTConnectLimit _) = ''MQTTConnectLimit''"
| "error_name (CaptureError _) = ''CaptureError''"
| "error_name (PcapyUnavailable _) = ''PcapyUnavailable''"
| "error_name (ServiceWatchdogError _) = ''ServiceWatchdogError''"
| "error_name (AuditRuntimeError _) = ''AuditRuntimeError''"
| "error_name AssertionError = ''AssertionError''"
| "error_name IndexError = ''IndexError''"
| "error_name KeyError = ''KeyError''"
| "error_name StructError = ''error''"
| "error_name StopIteration = ''StopIteration''"
| "error_name ZeroDivisionError = ''ZeroDivisionError''"
| "error_name TypeError = ''TypeError''"
| "error_name UnicodeDecodeError = ''UnicodeDecodeError''"
| "error_name KeyboardInterrupt = ''KeyboardInterrupt''"
| "error_name (OSError _) = ''OSError''"

section \<open>Indexing and slicing\<close>

text \<open>\<open>xs[i]\<close> for a position that is not negative: \<open>IndexError\<close> past the end.\<close>

definition py_at :: "'a list \<Rightarrow> nat \<Rightarrow> 'a result" where
  "py_at xs i = (if i < length xs then Inr (xs ! i) else Inl IndexError)"

lemma py_at_Inr [simp]: "i < length xs \<Longrightarrow> py_at xs i = Inr (xs ! i)"
  by (simp add: py_at_def)

lemma py_at_Inr_iff: "py_at xs i = Inr x \<longleftrightarrow> i < length xs \<and> xs ! i = x"
  by (simp add: py_at_def)

text \<open>\<open>xs[a:b]\<close> for bounds that are not negative: both are clamped to the length.\<close>

definition py_slice :: "'a list \<Rightarrow> nat \<Rightarrow> nat \<Rightarrow> 'a list" where
  "py_slice xs a b = take (b - a) (drop a xs)"

lemma length_py_slice [simp]: "length (py_slice xs a b) = min b (length xs) - a"
  by (simp add: py_slice_def)

lemma nth_py_slice [simp]: "a + i < min b (length xs) \<Longrightarrow> py_slice xs a b ! i = xs ! (a + i)"
  by (cases "a \<le> length xs") (auto simp: py_slice_def)

lemma py_slice_full [simp]: "py_slice xs 0 (length xs) = xs"
  by (simp add: py_slice_def)

lemma py_slice_append_left: "b \<le> length xs \<Longrightarrow> py_slice (xs @ ys) a b = py_slice xs a b"
  by (cases "a \<le> length xs") (simp_all add: py_slice_def)

lemma py_slice_append_right: "length xs \<le> a \<Longrightarrow>
    py_slice (xs @ ys) a b = py_slice ys (a - length xs) (b - length xs)"
  by (simp add: py_slice_def)

lemma py_slice_slice: "py_slice (py_slice xs a b) c d = py_slice xs (a + c) (min b (a + d))"
proof (rule nth_equalityI)
  fix i assume "i < length (py_slice (py_slice xs a b) c d)"
  then have "c + i < min d (length (py_slice xs a b))" and "a + (c + i) < min b (length xs)"
    and "(a + c) + i < min (min b (a + d)) (length xs)" by auto
  then show "py_slice (py_slice xs a b) c d ! i = py_slice xs (a + c) (min b (a + d)) ! i"
    by (simp only: nth_py_slice) (simp add: add.assoc)
qed auto

lemma py_slice_join: "a \<le> b \<Longrightarrow> b \<le> c \<Longrightarrow> py_slice xs a b @ py_slice xs b c = py_slice xs a c"
proof -
  assume h: "a \<le> b" "b \<le> c"
  have "take (c - a) (drop a xs) = take (b - a) (drop a xs) @ take (c - b) (drop (b - a) (drop a xs))"
    using h take_add [of "b - a" "c - b" "drop a xs"] by simp
  then show ?thesis using h by (simp add: py_slice_def)
qed

lemma set_py_slice_subset: "set (py_slice xs a b) \<subseteq> set xs"
  by (auto simp: py_slice_def dest: in_set_takeD in_set_dropD)

section \<open>Endian reads\<close>

text \<open>\<open>int.from_bytes(bs, "big")\<close> and \<open>int.from_bytes(bs, "little")\<close>.\<close>

definition from_be :: "bytes \<Rightarrow> nat" where
  "from_be bs = foldl (\<lambda>acc b. acc * 256 + unat b) 0 bs"

definition from_le :: "bytes \<Rightarrow> nat" where
  "from_le bs = from_be (rev bs)"

lemma foldl_be: "foldl (\<lambda>acc b. acc * 256 + unat b) k bs = k * 256 ^ length bs + from_be bs"
proof (induction bs arbitrary: k)
  case Nil
  then show ?case by (simp add: from_be_def)
next
  case (Cons b bs)
  have "from_be (b # bs) = unat b * 256 ^ length bs + from_be bs"
    using Cons.IH [of "unat b"] by (simp add: from_be_def)
  moreover have "foldl (\<lambda>acc b. acc * 256 + unat b) (k * 256 + unat b) bs
      = (k * 256 + unat b) * 256 ^ length bs + from_be bs"
    by (rule Cons.IH)
  ultimately show ?case by (simp add: algebra_simps)
qed

lemma from_be_Nil [simp]: "from_be [] = 0"
  by (simp add: from_be_def)

lemma from_be_Cons: "from_be (b # bs) = unat b * 256 ^ length bs + from_be bs"
  using foldl_be [of "unat b" bs] by (simp add: from_be_def)

lemma from_be_append: "from_be (as @ bs) = from_be as * 256 ^ length bs + from_be bs"
  using foldl_be [of "from_be as" bs] by (simp add: from_be_def)

lemma unat_byte_less [simp]: "unat (b :: byte) < 256"
  using unsigned_less [of b, where ?'a = nat] by simp

lemma uint_byte_less [simp]: "uint (b :: byte) < 256"
  using unsigned_less [of b, where ?'a = int] by simp

lemma from_be_less: "from_be bs < 256 ^ length bs"
proof (induction bs)
  case (Cons b bs)
  have "unat b * 256 ^ length bs + from_be bs < unat b * 256 ^ length bs + 256 ^ length bs"
    using Cons.IH by simp
  also have "\<dots> = (unat b + 1) * 256 ^ length bs" by (simp add: algebra_simps)
  also have "\<dots> \<le> 256 * 256 ^ length bs"
    using unat_byte_less [of b] by (intro mult_right_mono) linarith+
  finally show ?case by (simp add: from_be_Cons)
qed simp

lemma from_be_bound [bounds_intro]: "length bs \<le> n \<Longrightarrow> from_be bs < 256 ^ n"
  using from_be_less [of bs] power_increasing [of "length bs" n "256::nat"] by linarith

text \<open>The encoder \<open>v.to_bytes(n, "big")\<close>, used to state round trips.\<close>

fun to_be :: "nat \<Rightarrow> nat \<Rightarrow> bytes" where
  "to_be 0 v = []"
| "to_be (Suc n) v = to_be n (v div 256) @ [of_nat (v mod 256)]"

lemma length_to_be [simp]: "length (to_be n v) = n"
  by (induction n arbitrary: v) auto

lemma unat_of_nat_byte [simp]: "v < 256 \<Longrightarrow> unat (of_nat v :: byte) = v"
  by (simp add: unat_of_nat take_bit_nat_eq_self)

lemma from_be_to_be: "v < 256 ^ n \<Longrightarrow> from_be (to_be n v) = v"
proof (induction n arbitrary: v)
  case (Suc n)
  then have "v div 256 < 256 ^ n" by (simp add: less_mult_imp_div_less)
  then show ?case using Suc.IH by (simp add: from_be_append from_be_Cons)
qed simp

section \<open>Searching\<close>

text \<open>\<open>data.find(needle, start)\<close> and \<open>data.find(needle, start, stop)\<close>; \<open>None\<close> is \<open>-1\<close>.\<close>

function find_from :: "bytes \<Rightarrow> bytes \<Rightarrow> nat \<Rightarrow> nat option" where
  "find_from d needle i =
     (if i + length needle > length d then None
      else if py_slice d i (i + length needle) = needle then Some i
      else find_from d needle (Suc i))"
  by pat_completeness auto
termination
  by (relation "measure (\<lambda>(d, needle, i). Suc (length d) - i)") auto

declare find_from.simps [simp del]

definition find_within :: "bytes \<Rightarrow> bytes \<Rightarrow> nat \<Rightarrow> nat \<Rightarrow> nat option" where
  "find_within d needle start stop = find_from (take stop d) needle start"

lemma find_from_Some:
  "find_from d needle i = Some j \<Longrightarrow>
     i \<le> j \<and> j + length needle \<le> length d \<and> py_slice d j (j + length needle) = needle"
proof (induction d needle i rule: find_from.induct)
  case (1 d needle i)
  then show ?case
    by (cases "i + length needle > length d"; cases "py_slice d i (i + length needle) = needle")
      (auto simp: find_from.simps [of d needle i])
qed

lemma find_from_least:
  "find_from d needle i = Some j \<Longrightarrow> i \<le> k \<Longrightarrow> k < j \<Longrightarrow> py_slice d k (k + length needle) \<noteq> needle"
proof (induction d needle i rule: find_from.induct)
  case (1 d needle i)
  show ?case
  proof (cases "k = i")
    case True
    with 1 show ?thesis by (auto simp: find_from.simps [of d needle i] split: if_splits)
  next
    case False
    with 1 show ?thesis by (auto simp: find_from.simps [of d needle i] split: if_splits)
  qed
qed

section \<open>Printing numbers\<close>

text \<open>\<open>str(n)\<close> for a number that is not negative, \<open>str(i)\<close> for any.\<close>

definition digit_char :: "nat \<Rightarrow> char" where
  "digit_char d = (''0123456789abcdef'') ! d"

fun str_nat :: "nat \<Rightarrow> string" where
  "str_nat n = (if n < 10 then [digit_char n] else str_nat (n div 10) @ [digit_char (n mod 10)])"

declare str_nat.simps [simp del]

definition str_int :: "int \<Rightarrow> string" where
  "str_int i = (if i < 0 then CHR ''-'' # str_nat (nat (- i)) else str_nat (nat i))"

fun hex_nat :: "nat \<Rightarrow> string" where
  "hex_nat n = (if n < 16 then [digit_char n] else hex_nat (n div 16) @ [digit_char (n mod 16)])"

declare hex_nat.simps [simp del]

text \<open>\<open>sep.join(parts)\<close>.\<close>

fun str_join :: "string \<Rightarrow> string list \<Rightarrow> string" where
  "str_join sep [] = []"
| "str_join sep [x] = x"
| "str_join sep (x # y # ys) = x @ sep @ str_join sep (y # ys)"

section \<open>Numbers\<close>

text \<open>\<open>xs[-1]\<close> of a list known not to be empty, and de-duplication in first-seen order
  (\<open>tuple(dict.fromkeys(xs))\<close>).\<close>

fun dedup_onto :: "'a list \<Rightarrow> 'a list \<Rightarrow> 'a list" where
  "dedup_onto acc [] = acc"
| "dedup_onto acc (x # xs) = dedup_onto (if x \<in> set acc then acc else acc @ [x]) xs"

definition from_keys :: "'a list \<Rightarrow> 'a list" where
  "from_keys xs = dedup_onto [] xs"

lemma set_dedup_onto [simp]: "set (dedup_onto acc xs) = set acc \<union> set xs"
  by (induction xs arbitrary: acc) auto

lemma distinct_dedup_onto: "distinct acc \<Longrightarrow> distinct (dedup_onto acc xs)"
  by (induction xs arbitrary: acc) auto

lemma dedup_onto_idem: "distinct (acc @ xs) \<Longrightarrow> dedup_onto acc xs = acc @ xs"
  by (induction xs arbitrary: acc) auto

lemma set_from_keys [simp]: "set (from_keys xs) = set xs"
  by (simp add: from_keys_def)

lemma distinct_from_keys [simp]: "distinct (from_keys xs)"
  by (simp add: from_keys_def distinct_dedup_onto)

lemma from_keys_distinct [simp]: "distinct xs \<Longrightarrow> from_keys xs = xs"
  using dedup_onto_idem [of "[]" xs] by (simp add: from_keys_def)

lemma from_keys_idem [simp]: "from_keys (from_keys xs) = from_keys xs"
  by simp

end
