(* ===== verification/Ordered_Dict.thy ===== *)
theory Ordered_Dict
  imports Prelude
begin

text \<open>
  Python's \<open>OrderedDict\<close> (and the insertion-ordered \<open>dict\<close>) as a list of key/value pairs with
  distinct keys, oldest first, with the operations the sources use on it: lookup, store, \<open>pop\<close>,
  \<open>move_to_end\<close>. The interfaces follow. \<open>counted_store\<close> (and \<open>nonneg_store\<close>) is what the byte, range, segment and
  provenance counters rely on: a per-entry weight whose total over the dictionary changes by the
  weight of the entry that is added, replaced or dropped. \<open>eviction_loop\<close> is the shape of every
  \<open>while over_limit: drop oldest\<close> loop.
\<close>

section \<open>Operations\<close>

type_synonym ('k, 'v) odict = "('k \<times> 'v) list"

definition od_get :: "('k, 'v) odict \<Rightarrow> 'k \<Rightarrow> 'v option" where
  "od_get d k = map_of d k"

definition od_keys :: "('k, 'v) odict \<Rightarrow> 'k list" where
  "od_keys d = map fst d"

definition od_pop :: "'k \<Rightarrow> ('k, 'v) odict \<Rightarrow> ('k, 'v) odict" where
  "od_pop k d = filter (\<lambda>e. fst e \<noteq> k) d"

fun od_put :: "'k \<Rightarrow> 'v \<Rightarrow> ('k, 'v) odict \<Rightarrow> ('k, 'v) odict" where
  "od_put k v [] = [(k, v)]"
| "od_put k v (e # d) = (if fst e = k then (k, v) # d else e # od_put k v d)"

definition od_move_to_end :: "'k \<Rightarrow> ('k, 'v) odict \<Rightarrow> ('k, 'v) odict" where
  "od_move_to_end k d = (case od_get d k of None \<Rightarrow> d | Some v \<Rightarrow> od_pop k d @ [(k, v)])"

definition od_ok :: "('k, 'v) odict \<Rightarrow> bool" where
  "od_ok d \<longleftrightarrow> distinct (map fst d)"

section \<open>Laws\<close>

lemma od_ok_Nil [simp]: "od_ok []"
  by (simp add: od_ok_def)

lemma od_get_Nil [simp]: "od_get [] k = None"
  by (simp add: od_get_def)

lemma od_get_in_set: "od_get d k = Some v \<Longrightarrow> (k, v) \<in> set d"
  by (simp add: od_get_def map_of_SomeD)

lemma od_get_iff: "od_ok d \<Longrightarrow> od_get d k = Some v \<longleftrightarrow> (k, v) \<in> set d"
  by (simp add: od_get_def od_ok_def)

lemma od_get_None_iff: "od_get d k = None \<longleftrightarrow> k \<notin> fst ` set d"
  by (simp add: od_get_def map_of_eq_None_iff)

lemma od_get_map_keys: "od_get (map (\<lambda>k. (k, f k)) keys) k = (if k \<in> set keys then Some (f k) else None)"
  by (simp add: od_get_def map_of_map_restrict restrict_map_def)

lemma od_get_put [simp]: "od_get (od_put k v d) k' = (if k' = k then Some v else od_get d k')"
  by (induction d) (auto simp: od_get_def)

lemma od_get_pop [simp]: "od_get (od_pop k d) k' = (if k' = k then None else od_get d k')"
  by (induction d) (auto simp: od_get_def od_pop_def)

lemma od_get_append: "od_get (d @ e) k = (case od_get d k of Some v \<Rightarrow> Some v | None \<Rightarrow> od_get e k)"
  by (induction d) (auto simp: od_get_def)

lemma od_get_move [simp]: "od_get (od_move_to_end k d) k' = od_get d k'"
  by (auto simp: od_move_to_end_def od_get_append split: option.splits) (auto simp: od_get_def)

lemma set_od_pop: "set (od_pop k d) = {e \<in> set d. fst e \<noteq> k}"
  by (auto simp: od_pop_def)

lemma set_od_pop_subset: "set (od_pop k d) \<subseteq> set d"
  by (auto simp: od_pop_def)

lemma keys_od_put: "fst ` set (od_put k v d) = insert k (fst ` set d)"
  by (induction d) auto

lemma set_od_put_subset: "set (od_put k v d) \<subseteq> insert (k, v) (set d)"
  by (induction d) auto

lemma od_ok_pop [simp, intro]: "od_ok d \<Longrightarrow> od_ok (od_pop k d)"
  by (simp add: od_ok_def od_pop_def distinct_map_filter)

lemma od_ok_put [simp, intro]: "od_ok d \<Longrightarrow> od_ok (od_put k v d)"
proof (induction d)
  case (Cons e d)
  have "fst e \<in> fst ` set (od_put k v d) \<longleftrightarrow> fst e = k \<or> fst e \<in> fst ` set d"
    by (simp only: keys_od_put insert_iff)
  with Cons show ?case by (auto simp: od_ok_def)
qed (simp add: od_ok_def)

lemma od_ok_snoc: "od_ok (d @ [(k, v)]) \<longleftrightarrow> od_ok d \<and> k \<notin> fst ` set d"
  by (auto simp: od_ok_def)

lemma od_ok_move [simp, intro]: "od_ok d \<Longrightarrow> od_ok (od_move_to_end k d)"
  by (auto simp: od_move_to_end_def od_ok_snoc set_od_pop split: option.splits)

lemma set_od_move: "od_ok d \<Longrightarrow> set (od_move_to_end k d) = set d"
  by (auto simp: od_move_to_end_def set_od_pop od_get_iff split: option.splits)
    (auto simp: od_ok_def dest: eq_key_imp_eq_value)

lemma set_od_get: "od_ok d \<Longrightarrow> od_get d k = Some v \<Longrightarrow> set d = insert (k, v) (set (od_pop k d))"
  by (auto simp: set_od_pop od_get_iff) (auto simp: od_ok_def dest: eq_key_imp_eq_value)

lemma od_put_same: "od_get d k = Some v \<Longrightarrow> od_put k v d = d"
  by (induction d) (auto simp: od_get_def split: if_splits)

lemma length_od_pop_less: "k \<in> fst ` set d \<Longrightarrow> length (od_pop k d) < length d"
  by (auto simp: od_pop_def intro!: length_filter_less)

lemma od_pop_absent: "od_get d k = None \<Longrightarrow> od_pop k d = d"
  by (auto simp: od_pop_def od_get_None_iff filter_id_conv)

lemma od_pop_pop [simp]: "od_pop k (od_pop k d) = od_pop k d"
  by (simp add: od_pop_def)

lemma od_pop_put [simp]: "od_pop k (od_put k v d) = od_pop k d"
  by (induction d) (auto simp: od_pop_def)

lemma od_pop_move [simp]: "od_pop k (od_move_to_end k d) = od_pop k d"
  by (auto simp: od_move_to_end_def split: option.splits) (auto simp: od_pop_def)

lemma od_put_put [simp]: "od_put k v (od_put k u d) = od_put k v d"
  by (induction d) auto

lemma set_od_put_pop: "od_ok d \<Longrightarrow> set (od_put k v d) = insert (k, v) (set (od_pop k d))"
  using set_od_get [of "od_put k v d" k v] by simp

lemma od_pop_head: "od_ok (e # d) \<Longrightarrow> od_pop (fst e) (e # d) = d"
  by (auto simp: od_pop_def od_ok_def filter_id_conv image_iff)

lemma od_put_absent: "od_get d k = None \<Longrightarrow> od_put k v d = d @ [(k, v)]"
  by (induction d) (auto simp: od_get_def split: if_splits)

lemma length_od_put: "length (od_put k v d) = (if od_get d k = None then Suc (length d) else length d)"
  by (induction d) (auto simp: od_get_def)

lemma length_od_move [simp]: "od_ok d \<Longrightarrow> length (od_move_to_end k d) = length d"
proof (cases "od_get d k")
  case (Some v)
  assume ok: "od_ok d"
  from Some have "k \<in> fst ` set d" by (auto dest!: od_get_in_set intro: rev_image_eqI)
  with ok have "length (filter (\<lambda>e. fst e = k) d) = 1"
  proof (induction d)
    case (Cons e d)
    then show ?case
      by (cases "fst e = k") (auto simp: od_ok_def filter_empty_conv image_iff)
  qed simp
  moreover have "length (od_pop k d) + length (filter (\<lambda>e. fst e = k) d) = length d"
    using sum_length_filter_compl [of "\<lambda>e. fst e = k" d] by (simp add: od_pop_def)
  ultimately show ?thesis using Some by (simp add: od_move_to_end_def)
qed (simp add: od_move_to_end_def)

lemma od_pop_permuted: "od_ok d \<Longrightarrow> od_get d k = Some v \<Longrightarrow> length (od_pop k d) = length d - 1"
  using length_od_move [of d k] by (auto simp: od_move_to_end_def)

section \<open>Totals over a dictionary\<close>

definition od_sum :: "('k \<Rightarrow> 'v \<Rightarrow> int) \<Rightarrow> ('k, 'v) odict \<Rightarrow> int" where
  "od_sum w d = (\<Sum>(k, v)\<leftarrow>d. w k v)"

lemma od_sum_Nil [simp]: "od_sum w [] = 0"
  by (simp add: od_sum_def)

lemma od_sum_Cons [simp]: "od_sum w (e # d) = w (fst e) (snd e) + od_sum w d"
  by (cases e) (simp add: od_sum_def)

lemma od_sum_append [simp]: "od_sum w (d @ e) = od_sum w d + od_sum w e"
  by (induction d) auto

lemma od_sum_pop:
  "od_ok d \<Longrightarrow> od_sum w (od_pop k d) = od_sum w d - (case od_get d k of None \<Rightarrow> 0 | Some v \<Rightarrow> w k v)"
proof (induction d)
  case (Cons e d)
  show ?case
  proof (cases "fst e = k")
    case True
    with Cons.prems show ?thesis
      using od_pop_head [of e d] by (cases e) (auto simp: od_get_def)
  next
    case False
    with Cons show ?thesis by (auto simp: od_pop_def od_get_def od_ok_def)
  qed
qed (simp add: od_pop_def)

lemma od_sum_put:
  "od_sum w (od_put k v d) = od_sum w d + w k v - (case od_get d k of None \<Rightarrow> 0 | Some u \<Rightarrow> w k u)"
  by (induction d) (auto simp: od_get_def)

lemma od_sum_move: "od_ok d \<Longrightarrow> od_sum w (od_move_to_end k d) = od_sum w d"
  by (auto simp: od_move_to_end_def od_sum_pop split: option.splits)

text \<open>A weight that is never negative: any single entry weighs at most the total.\<close>

lemma od_sum_nonneg: "(\<And>k v. (k, v) \<in> set d \<Longrightarrow> 0 \<le> w k v) \<Longrightarrow> 0 \<le> od_sum w d"
  by (induction d) auto

lemma od_sum_cong: "(\<And>k v. (k, v) \<in> set d \<Longrightarrow> w k v = w' k v) \<Longrightarrow> od_sum w d = od_sum w' d"
  by (induction d) auto

lemma od_sum_one: "od_sum (\<lambda>_ _. 1) d = int (length d)"
  by (induction d) auto

section \<open>Interface: a counter kept equal to the total weight of a store\<close>

locale counted_store =
  fixes store :: "'s \<Rightarrow> ('k, 'v) odict"
    and counter :: "'s \<Rightarrow> int"
    and weight :: "'k \<Rightarrow> 'v \<Rightarrow> int"
    and discard :: "'k \<Rightarrow> 's \<Rightarrow> 's"
  assumes store_discard: "store (discard k s) = od_pop k (store s)"
    and counter_discard:
      "counter (discard k s) = counter s - (case od_get (store s) k of None \<Rightarrow> 0 | Some v \<Rightarrow> weight k v)"
begin

definition exact :: "'s \<Rightarrow> bool" where
  "exact s \<longleftrightarrow> od_ok (store s) \<and> counter s = od_sum weight (store s)"

lemma exact_discard: "exact s \<Longrightarrow> exact (discard k s)"
  by (auto simp: exact_def store_discard counter_discard od_sum_pop)

lemma exact_empty: "exact s \<Longrightarrow> store s = [] \<Longrightarrow> counter s = 0"
  by (simp add: exact_def)

lemma exact_put:
  assumes "exact s" "store t = od_put k v (store s)"
    and "counter t = counter s + weight k v - (case od_get (store s) k of None \<Rightarrow> 0 | Some u \<Rightarrow> weight k u)"
  shows "exact t"
  using assms by (auto simp: exact_def od_sum_put)

lemma exact_move:
  assumes "exact s" "store t = od_move_to_end k (store s)" "counter t = counter s"
  shows "exact t"
  using assms by (simp add: exact_def od_sum_move)

lemma exact_frame: "exact s \<Longrightarrow> store t = store s \<Longrightarrow> counter t = counter s \<Longrightarrow> exact t"
  by (simp add: exact_def)

end

text \<open>With weights that cannot be negative, a single entry never outweighs the counter.\<close>

locale nonneg_store = counted_store +
  assumes weight_nonneg: "0 \<le> weight k v"
begin

lemma exact_nonneg: "exact s \<Longrightarrow> 0 \<le> counter s"
  by (simp add: exact_def od_sum_nonneg weight_nonneg)

lemma exact_entry_le: "exact s \<Longrightarrow> od_get (store s) k = Some v \<Longrightarrow> weight k v \<le> counter s"
  using exact_nonneg [OF exact_discard, of s k] by (simp add: counter_discard)

end

section \<open>Interface: evict the oldest entry until within the limits\<close>

locale eviction_loop =
  fixes entries :: "'s \<Rightarrow> ('k, 'v) odict"
    and over :: "'s \<Rightarrow> bool"
    and drop_oldest :: "'k \<Rightarrow> 's \<Rightarrow> 's"
    and loop :: "'s \<Rightarrow> 's result"
    and inv :: "'s \<Rightarrow> bool"
  assumes loop_unfold:
      "loop s = (if over s
                 then (case entries s of [] \<Rightarrow> Inl StopIteration | e # _ \<Rightarrow> loop (drop_oldest (fst e) s))
                 else Inr s)"
    and inv_drop: "inv s \<Longrightarrow> inv (drop_oldest k s)"
    and entries_drop: "inv s \<Longrightarrow> entries (drop_oldest k s) = od_pop k (entries s)"
    and inv_ok: "inv s \<Longrightarrow> od_ok (entries s)"
    and empty_within: "inv s \<Longrightarrow> entries s = [] \<Longrightarrow> \<not> over s"
begin

lemma loop_total:
  "inv s \<Longrightarrow> \<exists>t n. loop s = Inr t \<and> inv t \<and> \<not> over t \<and> entries t = drop n (entries s)"
proof (induction "length (entries s)" arbitrary: s rule: less_induct)
  case less
  show ?case
  proof (cases "over s")
    case False
    then have "loop s = Inr s" by (subst loop_unfold) simp
    with less.prems False show ?thesis by (metis drop0)
  next
    case True
    with less.prems obtain e d where ed: "entries s = e # d"
      by (cases "entries s") (auto dest: empty_within)
    let ?s = "drop_oldest (fst e) s"
    from ed inv_ok [OF less.prems] have es: "entries ?s = d"
      by (simp add: entries_drop less.prems od_pop_head)
    moreover have "inv ?s" using less.prems by (rule inv_drop)
    ultimately obtain t n where t: "loop ?s = Inr t" "inv t" "\<not> over t" "entries t = drop n d"
      using less.hyps [of ?s] ed by auto
    moreover from True ed have "loop s = loop ?s" by (subst loop_unfold) simp
    ultimately show ?thesis using ed by (intro exI [of _ t] exI [of _ "Suc n"]) simp
  qed
qed

text \<open>The loop never meets an empty store while over a limit, so \<open>next(iter(\<dots>))\<close> is safe.\<close>

lemma loop_no_stop_iteration: "inv s \<Longrightarrow> loop s \<noteq> Inl e"
  using loop_total by fastforce

lemma loop_Inr: "inv s \<Longrightarrow> loop s = Inr t \<Longrightarrow> inv t \<and> \<not> over t \<and> (\<exists>n. entries t = drop n (entries s))"
  using loop_total by fastforce

lemma loop_noop: "\<not> over s \<Longrightarrow> loop s = Inr s"
  by (subst loop_unfold) simp

end

end
