(* ===== verification/Byte_Ranges.thy ===== *)
theory Byte_Ranges
  imports Prelude
begin

text \<open>
  Positioned byte ranges, the common ground of the fragment and the TCP reassembler: what a range
  says about a position, when two ranges contradict each other on their overlap, and the interface
  \<open>segment_carving\<close> of the two routines that keep from a new range only the parts that no earlier
  range covers (\<open>_uncovered_byte_ranges\<close> and \<open>_tcp_uncovered_segments\<close>), with the laws both have.
\<close>

section \<open>What a range says about a position\<close>

definition seg_at :: "int \<Rightarrow> 'b list \<Rightarrow> int \<Rightarrow> 'b option" where
  "seg_at s d p = (if s \<le> p \<and> p < s + int (length d) then Some (d ! nat (p - s)) else None)"

lemma seg_at_eq_None: "seg_at s d p = None \<longleftrightarrow> p < s \<or> s + int (length d) \<le> p"
  by (auto simp: seg_at_def)

lemma seg_at_Nil [simp]: "seg_at s [] p = None"
  by (simp add: seg_at_def)

lemma seg_at_take: "seg_at s (take (nat k) d) p = (if p < s + k then seg_at s d p else None)"
  by (auto simp: seg_at_def)

lemma seg_at_drop:
  "0 \<le> k \<Longrightarrow> k \<le> int (length d) \<Longrightarrow>
   seg_at (s + k) (drop (nat k) d) p = (if s + k \<le> p then seg_at s d p else None)"
proof -
  assume k: "0 \<le> k" "k \<le> int (length d)"
  have "drop (nat k) d ! nat (p - (s + k)) = d ! nat (p - s)" if "s + k \<le> p" "p < s + int (length d)"
  proof -
    have "nat k + nat (p - (s + k)) = nat (p - s)" using k that by linarith
    then show ?thesis using k by (simp add: nth_drop)
  qed
  then show ?thesis using k by (auto simp: seg_at_def)
qed

lemma seg_at_append:
  "seg_at s (d @ e) p = (case seg_at s d p of Some b \<Rightarrow> Some b | None \<Rightarrow> seg_at (s + int (length d)) e p)"
proof -
  have "nat (p - s) - length d = nat (p - (s + int (length d)))" by linarith
  moreover have "nat (p - s) < length d \<longleftrightarrow> p < s + int (length d)" if "s \<le> p"
    using that by linarith
  ultimately show ?thesis by (simp add: seg_at_def nth_append)
qed

text \<open>The comparison the sources make on an overlap: cut both ranges to the common interval and
  compare.\<close>

definition overlap_conflict :: "int \<Rightarrow> 'b list \<Rightarrow> int \<Rightarrow> 'b list \<Rightarrow> bool" where
  "overlap_conflict s d s' d' \<longleftrightarrow>
     (let overlap_start = max s s'; overlap_end = min (s + int (length d)) (s' + int (length d')) in
      overlap_start < overlap_end
      \<and> py_slice d (nat (overlap_start - s)) (nat (overlap_end - s))
          \<noteq> py_slice d' (nat (overlap_start - s')) (nat (overlap_end - s')))"

lemma overlap_conflict_iff:
  "overlap_conflict s d s' d' \<longleftrightarrow>
     (\<exists>p a b. seg_at s d p = Some a \<and> seg_at s' d' p = Some b \<and> a \<noteq> b)"
proof -
  define os where "os = max s s'"
  define oe where "oe = min (s + int (length d)) (s' + int (length d'))"
  let ?x = "py_slice d (nat (os - s)) (nat (oe - s))"
  let ?y = "py_slice d' (nat (os - s')) (nat (oe - s'))"
  show ?thesis
  proof (cases "os < oe")
    case False
    then show ?thesis
      by (auto simp: overlap_conflict_def Let_def os_def oe_def seg_at_def split: if_splits)
  next
    case True
    have len: "length ?x = nat (oe - os)" "length ?y = nat (oe - os)"
      using True by (auto simp: os_def oe_def)
    have nth: "?x ! i = d ! nat (os + int i - s)" "?y ! i = d' ! nat (os + int i - s')"
      if "i < nat (oe - os)" for i
    proof -
      from that True have "nat (os - s) + i < min (nat (oe - s)) (length d)"
        "nat (os - s) + i = nat (os + int i - s)"
        "nat (os - s') + i < min (nat (oe - s')) (length d')"
        "nat (os - s') + i = nat (os + int i - s')"
        by (auto simp: os_def oe_def)
      then show "?x ! i = d ! nat (os + int i - s)" "?y ! i = d' ! nat (os + int i - s')"
        by (metis nth_py_slice)+
    qed
    have "?x \<noteq> ?y \<longleftrightarrow> (\<exists>i < nat (oe - os). ?x ! i \<noteq> ?y ! i)"
      using len by (metis nth_equalityI)
    also have "\<dots> \<longleftrightarrow> (\<exists>p. os \<le> p \<and> p < oe \<and> d ! nat (p - s) \<noteq> d' ! nat (p - s'))"
    proof
      assume "\<exists>i < nat (oe - os). ?x ! i \<noteq> ?y ! i"
      then obtain i where "i < nat (oe - os)" "?x ! i \<noteq> ?y ! i" by blast
      then show "\<exists>p. os \<le> p \<and> p < oe \<and> d ! nat (p - s) \<noteq> d' ! nat (p - s')"
        using nth [of i] by (intro exI [of _ "os + int i"]) auto
    next
      assume "\<exists>p. os \<le> p \<and> p < oe \<and> d ! nat (p - s) \<noteq> d' ! nat (p - s')"
      then obtain p where p: "os \<le> p" "p < oe" "d ! nat (p - s) \<noteq> d' ! nat (p - s')" by blast
      then show "\<exists>i < nat (oe - os). ?x ! i \<noteq> ?y ! i"
        using nth [of "nat (p - os)"] by (intro exI [of _ "nat (p - os)"]) auto
    qed
    also have "\<dots> \<longleftrightarrow> (\<exists>p a b. seg_at s d p = Some a \<and> seg_at s' d' p = Some b \<and> a \<noteq> b)"
      by (auto simp: seg_at_def os_def oe_def)
    finally show ?thesis
      using True by (simp add: overlap_conflict_def Let_def os_def oe_def)
  qed
qed

section \<open>Interface: carve out what is not covered yet\<close>

locale segment_carving =
  fixes seg_start :: "'r \<Rightarrow> int"
    and seg_data :: "'r \<Rightarrow> 'b list"
    and cut :: "'r \<Rightarrow> int \<Rightarrow> 'b list \<Rightarrow> 'r"
    and carve1 :: "'r \<Rightarrow> 'r \<Rightarrow> 'r list"
    and carve :: "'r list \<Rightarrow> 'r list \<Rightarrow> 'r list"
  assumes start_cut [simp]: "seg_start (cut r s d) = s"
    and data_cut [simp]: "seg_data (cut r s d) = d"
    and carve1_eq:
      "carve1 old piece =
         (if seg_start piece + int (length (seg_data piece)) \<le> seg_start old
             \<or> seg_start piece \<ge> seg_start old + int (length (seg_data old))
          then [piece]
          else (if seg_start piece < seg_start old
                then [cut piece (seg_start piece)
                        (take (nat (seg_start old - seg_start piece)) (seg_data piece))]
                else [])
             @ (if seg_start piece + int (length (seg_data piece))
                     > seg_start old + int (length (seg_data old))
                then [cut piece (seg_start old + int (length (seg_data old)))
                        (drop (nat (seg_start old + int (length (seg_data old)) - seg_start piece))
                           (seg_data piece))]
                else []))"
    and carve_Nil: "carve [] pieces = pieces"
    and carve_Cons:
      "carve (old # existing) pieces =
         (let remaining = concat (map (carve1 old) pieces) in
          if remaining = [] then [] else carve existing remaining)"
begin

abbreviation seg_end :: "'r \<Rightarrow> int" where
  "seg_end r \<equiv> seg_start r + int (length (seg_data r))"

abbreviation at :: "'r \<Rightarrow> int \<Rightarrow> 'b option" where
  "at r p \<equiv> seg_at (seg_start r) (seg_data r) p"

definition disjoint :: "'r \<Rightarrow> 'r \<Rightarrow> bool" where
  "disjoint x y \<longleftrightarrow> seg_end x \<le> seg_start y \<or> seg_end y \<le> seg_start x"

text \<open>Ranges in stream order that do not overlap.\<close>

definition chain :: "'r list \<Rightarrow> bool" where
  "chain rs \<longleftrightarrow> sorted_wrt (\<lambda>x y. seg_end x \<le> seg_start y) rs"

definition filled :: "'r list \<Rightarrow> bool" where
  "filled rs \<longleftrightarrow> (\<forall>r \<in> set rs. seg_data r \<noteq> [])"

lemma carve1_at:
  "(\<exists>x \<in> set (carve1 old piece). at x p = Some b) \<longleftrightarrow> at piece p = Some b \<and> at old p = None"
proof (cases "seg_end piece \<le> seg_start old \<or> seg_start piece \<ge> seg_end old")
  case True
  then show ?thesis by (auto simp: carve1_eq seg_at_def split: if_splits)
next
  case False
  have r: "seg_at (seg_end old) (drop (nat (seg_end old - seg_start piece)) (seg_data piece)) p
      = (if seg_end old \<le> p then at piece p else None)" if "seg_end piece > seg_end old"
    using False that seg_at_drop [of "seg_end old - seg_start piece" "seg_data piece" "seg_start piece" p]
    by simp
  have l: "seg_at (seg_start piece) (take (nat (seg_start old - seg_start piece)) (seg_data piece)) p
      = (if p < seg_start old then at piece p else None)"
    using seg_at_take [of "seg_start piece" "seg_start old - seg_start piece" "seg_data piece" p] by simp
  have "(\<exists>x \<in> set (carve1 old piece). at x p = Some b) \<longleftrightarrow>
      (seg_start piece < seg_start old \<and> p < seg_start old \<and> at piece p = Some b)
      \<or> (seg_end piece > seg_end old \<and> seg_end old \<le> p \<and> at piece p = Some b)"
    using False by (simp add: carve1_eq l r) (auto simp: l r split: if_splits)
  also have "\<dots> \<longleftrightarrow> at piece p = Some b \<and> at old p = None"
    by (auto simp: seg_at_def split: if_splits)
  finally show ?thesis .
qed

lemma carve_pieces_at:
  "(\<exists>x \<in> set (concat (map (carve1 old) ps)). at x p = Some b)
     \<longleftrightarrow> (\<exists>y \<in> set ps. at y p = Some b) \<and> at old p = None"
  using carve1_at by (auto 0 3)

theorem carve_at:
  "(\<exists>x \<in> set (carve existing ps). at x p = Some b)
     \<longleftrightarrow> (\<exists>y \<in> set ps. at y p = Some b) \<and> (\<forall>old \<in> set existing. at old p = None)"
proof (induction existing arbitrary: ps)
  case (Cons old existing)
  show ?case
  proof (cases "concat (map (carve1 old) ps) = []")
    case True
    have "\<not> ((\<exists>y \<in> set ps. at y p = Some b) \<and> at old p = None)"
      using carve_pieces_at [of old ps p b] unfolding True by simp
    moreover have "carve (old # existing) ps = []" unfolding carve_Cons True by simp
    ultimately show ?thesis by auto
  next
    case False
    then have "carve (old # existing) ps = carve existing (concat (map (carve1 old) ps))"
      by (simp only: carve_Cons Let_def if_False)
    then show ?thesis by (simp only: Cons.IH carve_pieces_at) auto
  qed
qed (simp add: carve_Nil)

lemma carve1_within:
  "x \<in> set (carve1 old piece) \<Longrightarrow>
     seg_start piece \<le> seg_start x \<and> seg_end x \<le> seg_end piece \<and>
     (seg_data piece \<noteq> [] \<longrightarrow> seg_data x \<noteq> [])"
  by (auto simp: carve1_eq split: if_splits)

lemma carve1_chain: "chain (carve1 old piece)"
  by (auto simp: chain_def carve1_eq)

lemma chain_append:
  "chain (xs @ ys) \<longleftrightarrow> chain xs \<and> chain ys \<and> (\<forall>x \<in> set xs. \<forall>y \<in> set ys. seg_end x \<le> seg_start y)"
  by (simp add: chain_def sorted_wrt_append)

lemma carve_pieces_chain: "chain ps \<Longrightarrow> chain (concat (map (carve1 old) ps))"
proof (induction ps)
  case (Cons p ps)
  have "seg_end x \<le> seg_start y"
    if "x \<in> set (carve1 old p)" "y \<in> set (concat (map (carve1 old) ps))" for x y
  proof -
    from that(2) obtain q where q: "q \<in> set ps" "y \<in> set (carve1 old q)" by auto
    have "seg_end p \<le> seg_start q" using Cons.prems q(1) by (simp add: chain_def)
    with carve1_within [OF that(1)] carve1_within [OF q(2)] show ?thesis by linarith
  qed
  with Cons show ?case by (auto simp: chain_append carve1_chain) (simp add: chain_def)
qed (simp add: chain_def)

lemma carve_pieces_filled: "filled ps \<Longrightarrow> filled (concat (map (carve1 old) ps))"
  by (auto simp: filled_def dest!: carve1_within)

lemma carve_chain: "chain ps \<Longrightarrow> chain (carve existing ps)"
  by (induction existing arbitrary: ps)
    (auto simp: carve_Nil carve_Cons Let_def carve_pieces_chain chain_def [of "[]"])

lemma carve_filled: "filled ps \<Longrightarrow> filled (carve existing ps)"
  by (induction existing arbitrary: ps)
    (auto simp: carve_Nil carve_Cons Let_def carve_pieces_filled filled_def [of "[]"])

lemma carve_within:
  "x \<in> set (carve existing ps) \<Longrightarrow> \<exists>y \<in> set ps. seg_start y \<le> seg_start x \<and> seg_end x \<le> seg_end y"
proof (induction existing arbitrary: ps)
  case (Cons old existing)
  then have "x \<in> set (carve existing (concat (map (carve1 old) ps)))"
    by (auto simp: carve_Cons Let_def split: if_splits)
  from Cons.IH [OF this] obtain y z where "z \<in> set ps" "y \<in> set (carve1 old z)"
    "seg_start y \<le> seg_start x" "seg_end x \<le> seg_end y" by auto
  then show ?case using carve1_within [of y old z] by (intro bexI [of _ z]) linarith+
qed (auto simp: carve_Nil)

lemma disjointI:
  assumes "seg_data x \<noteq> []" "seg_data y \<noteq> []" "\<And>p. at x p = None \<or> at y p = None"
  shows "disjoint x y"
proof -
  have "0 < length (seg_data x)" "0 < length (seg_data y)" using assms(1,2) by auto
  then show ?thesis
    using assms(3) [of "max (seg_start x) (seg_start y)"]
    by (auto simp: disjoint_def seg_at_eq_None max_def split: if_splits)
qed

lemma carve_disjoint:
  assumes "filled ps" "filled existing" "x \<in> set (carve existing ps)" "old \<in> set existing"
  shows "disjoint x old"
proof (rule disjointI)
  show "seg_data x \<noteq> []" using carve_filled [OF assms(1)] assms(3) by (auto simp: filled_def)
  show "seg_data old \<noteq> []" using assms(2,4) by (auto simp: filled_def)
  show "at x p = None \<or> at old p = None" for p
  proof (cases "at x p")
    case (Some b)
    with assms(3) have "\<exists>x \<in> set (carve existing ps). at x p = Some b" by blast
    then show ?thesis using assms(4) by (simp only: carve_at) blast
  qed simp
qed

subsection \<open>Sorting disjoint ranges by their start\<close>

lemma disjoint_sym: "disjoint x y = disjoint y x"
  by (auto simp: disjoint_def)

lemma chain_disjoint: "chain rs \<Longrightarrow> sorted_wrt disjoint rs"
  unfolding chain_def by (rule sorted_wrt_mono_rel) (auto simp: disjoint_def)

lemma insort_disjoint:
  "sorted_wrt disjoint (insort_key f x xs) \<longleftrightarrow> (\<forall>y \<in> set xs. disjoint x y) \<and> sorted_wrt disjoint xs"
  by (induction xs) (auto simp: set_insort_key disjoint_sym)

lemma sort_disjoint: "sorted_wrt disjoint (sort_key f xs) \<longleftrightarrow> sorted_wrt disjoint xs"
  by (induction xs) (auto simp: sort_key_simps insort_disjoint)

lemma sorted_disjoint_chain:
  "sorted (map seg_start rs) \<Longrightarrow> filled rs \<Longrightarrow> sorted_wrt disjoint rs \<Longrightarrow> chain rs"
proof (induction rs)
  case (Cons r rs)
  have "seg_end r \<le> seg_start y" if "y \<in> set rs" for y
  proof -
    have "disjoint r y" "seg_start r \<le> seg_start y" "seg_data y \<noteq> []" "seg_data r \<noteq> []"
      using Cons.prems that by (auto simp: filled_def)
    moreover from this(3) have "0 < length (seg_data y)" by simp
    ultimately show ?thesis by (auto simp: disjoint_def)
  qed
  with Cons show ?case by (auto simp: chain_def filled_def)
qed (simp add: chain_def)

text \<open>Extending a chain with carved pieces and sorting gives a chain again.\<close>

theorem insert_carved_chain:
  assumes "chain existing" "filled existing" "chain ps" "filled ps"
  shows "chain (sort_key seg_start (existing @ carve existing ps))"
    and "filled (sort_key seg_start (existing @ carve existing ps))"
proof -
  let ?rs = "existing @ carve existing ps"
  show f: "filled (sort_key seg_start ?rs)"
    using assms(2) carve_filled [OF assms(4)] by (auto simp: filled_def)
  have "disjoint x y" if "x \<in> set existing" "y \<in> set (carve existing ps)" for x y
    using carve_disjoint [OF assms(4,2) that(2,1)] by (simp only: disjoint_sym)
  then have "sorted_wrt disjoint ?rs"
    using assms by (simp add: sorted_wrt_append chain_disjoint carve_chain)
  then show "chain (sort_key seg_start ?rs)"
    using f by (intro sorted_disjoint_chain) (simp_all add: sort_disjoint)
qed

lemma chain_at_unique:
  assumes "chain rs" "r \<in> set rs" "r' \<in> set rs" "at r p = Some b" "at r' p = Some b'"
  shows "b = b'"
  using assms
proof (induction rs)
  case (Cons x rs)
  have *: "at y p = None" if "y \<in> set rs" "at x p \<noteq> None" for y
  proof -
    from Cons.prems(1) that(1) have "seg_end x \<le> seg_start y" by (simp add: chain_def)
    with that(2) show ?thesis by (auto simp: seg_at_eq_None)
  qed
  from Cons.prems(1) have "chain rs" by (simp add: chain_def)
  with Cons * show ?case by fastforce
qed simp

end

end
