(* ===== verification/Models.thy ===== *)
theory Models
  imports Prelude
begin

text \<open>
  The shared records of \<open>packet_audit/models.py\<close>: endpoints, the canonical bidirectional flow key,
  captured and parsed packets, provenance spans and stream chunks, with the address printing of the
  standard library's \<open>ipaddress\<close> module that fills the address fields. Python's unbounded integers
  are \<open>int\<close>, its tuples lists. Field names carry the class as a prefix.
\<close>

section \<open>Printing addresses\<close>

text \<open>\<open>str(ipaddress.IPv4Address(raw))\<close>; \<open>IPv4Address\<close> raises \<open>AddressValueError\<close>, a
  \<open>ValueError\<close>, when it is not given four bytes.\<close>

definition ipv4_str :: "bytes \<Rightarrow> string result" where
  "ipv4_str raw =
     (if length raw \<noteq> 4 then Inl (ValueError ''not an IPv4 address'')
      else Inr (str_join ''.'' (map (\<lambda>b. str_nat (unat b)) raw)))"

text \<open>\<open>str(ipaddress.IPv6Address(raw))\<close>: eight groups of lower-case hexadecimal digits with the
  first longest run of at least two zero groups compressed (\<open>_compress_hextets\<close>).\<close>

fun hextets :: "bytes \<Rightarrow> nat list" where
  "hextets (a # b # bs) = (unat a * 256 + unat b) # hextets bs"
| "hextets _ = []"

text \<open>Arguments: position, start and length of the current run, start and length of the best run.\<close>

fun best_zero_run :: "nat list \<Rightarrow> nat \<Rightarrow> nat \<Rightarrow> nat \<Rightarrow> nat \<Rightarrow> nat \<Rightarrow> nat \<times> nat" where
  "best_zero_run [] i cs cl bs bl = (bs, bl)"
| "best_zero_run (h # hs) i cs cl bs bl =
     (if h = 0 then
        (let cs' = (if cl = 0 then i else cs); cl' = Suc cl in
         if cl' > bl then best_zero_run hs (Suc i) cs' cl' cs' cl'
         else best_zero_run hs (Suc i) cs' cl' bs bl)
      else best_zero_run hs (Suc i) cs 0 bs bl)"

definition compress_hextets :: "nat list \<Rightarrow> string list" where
  "compress_hextets hs =
     (let (s, l) = best_zero_run hs 0 0 0 0 0; strs = map hex_nat hs in
      if l > 1 then
        (if s = 0 then [[]] else []) @ take s strs @ [[]] @ drop (s + l) strs
          @ (if s + l = length hs then [[]] else [])
      else strs)"

definition ipv6_str :: "bytes \<Rightarrow> string result" where
  "ipv6_str raw =
     (if length raw \<noteq> 16 then Inl (ValueError ''not an IPv6 address'')
      else Inr (str_join '':'' (compress_hextets (hextets raw))))"

section \<open>Endpoints and flow keys\<close>

record Endpoint =
  ep_address :: string
  ep_port :: int

definition ep_sort_key :: "Endpoint \<Rightarrow> string \<times> int" where
  "ep_sort_key e = (ep_address e, ep_port e)"

record FlowKey =
  fk_protocol :: int
  fk_endpoint_a :: Endpoint
  fk_endpoint_b :: Endpoint
  fk_interface :: string
  fk_vlan_ids :: "int list"

definition canonical ::
  "int \<Rightarrow> string \<Rightarrow> int \<Rightarrow> string \<Rightarrow> int \<Rightarrow> string \<Rightarrow> int list \<Rightarrow> FlowKey \<times> nat" where
  "canonical protocol src sport dst dport interface vlan_ids =
     (let left = \<lparr>ep_address = src, ep_port = sport\<rparr>;
          right = \<lparr>ep_address = dst, ep_port = dport\<rparr> in
      if ep_sort_key left \<le> ep_sort_key right
      then (\<lparr>fk_protocol = protocol, fk_endpoint_a = left, fk_endpoint_b = right,
             fk_interface = interface, fk_vlan_ids = vlan_ids\<rparr>, 0)
      else (\<lparr>fk_protocol = protocol, fk_endpoint_a = right, fk_endpoint_b = left,
             fk_interface = interface, fk_vlan_ids = vlan_ids\<rparr>, 1))"

text \<open>\<open>FlowKey.stable_text\<close>, the text that shards and names a flow.\<close>

definition stable_text :: "FlowKey \<Rightarrow> string" where
  "stable_text f =
     (let joined = str_join '','' (map str_int (fk_vlan_ids f));
          vlans = (if joined = [] then ''-'' else joined) in
      fk_interface f @ ''|'' @ vlans @ ''|'' @ str_int (fk_protocol f) @ ''|''
      @ ep_address (fk_endpoint_a f) @ '':'' @ str_int (ep_port (fk_endpoint_a f)) @ ''|''
      @ ep_address (fk_endpoint_b f) @ '':'' @ str_int (ep_port (fk_endpoint_b f)))"

section \<open>Packets\<close>

record CapturedPacket =
  cp_session_id :: string
  cp_packet_id :: int
  cp_timestamp_ns :: int
  cp_interface :: string
  cp_datalink :: int
  cp_captured_length :: int
  cp_wire_length :: int
  cp_raw :: bytes

record ParsedPacket =
  pp_session_id :: string
  pp_packet_id :: int
  pp_timestamp_ns :: int
  pp_interface :: string
  pp_captured_length :: int
  pp_wire_length :: int
  pp_ip_version :: int
  pp_src :: string
  pp_dst :: string
  pp_protocol :: int
  pp_vlan_ids :: "int list"
  pp_network_payload :: bytes
  pp_truncated :: bool
  pp_fragment_id :: "int option"
  pp_fragment_offset :: int
  pp_more_fragments :: bool
  pp_transport_parsed :: bool
  pp_sport :: int
  pp_dport :: int
  pp_tcp_seq :: int
  pp_tcp_ack :: int
  pp_tcp_flags :: int
  pp_transport_payload :: bytes
  pp_source_packet_ids :: "int list"

text \<open>\<open>ParsedPacket.flow\<close>.\<close>

definition packet_flow :: "ParsedPacket \<Rightarrow> FlowKey \<times> nat" where
  "packet_flow p =
     canonical (pp_protocol p) (pp_src p) (pp_sport p) (pp_dst p) (pp_dport p)
       (pp_interface p) (pp_vlan_ids p)"

text \<open>\<open>packet.source_packet_ids or (packet.packet_id,)\<close>, the captured packets a parsed packet
  stands for.\<close>

definition contributing_ids :: "ParsedPacket \<Rightarrow> int list" where
  "contributing_ids p = (if pp_source_packet_ids p = [] then [pp_packet_id p] else pp_source_packet_ids p)"

section \<open>Stream chunks\<close>

record ProvenanceSpan =
  ps_stream_start :: int
  ps_stream_end :: int
  ps_packet_ids :: "int list"
  ps_packet_ids_complete :: bool

datatype Completeness =
    Complete | Midstream | Gapped | Truncated | Encrypted | ParserError | Potential

record StreamChunk =
  sc_flow :: FlowKey
  sc_direction :: nat
  sc_stream_offset :: int
  sc_data :: bytes
  sc_packet_ids :: "int list"
  sc_first_timestamp_ns :: int
  sc_last_timestamp_ns :: int
  sc_connection_epoch :: int
  sc_completeness :: Completeness
  sc_provenance_spans :: "ProvenanceSpan list"

section \<open>Laws of the canonical key\<close>

lemma canonical_direction: "snd (canonical pr s sp d dp i v) \<in> {0, 1}"
  by (simp add: canonical_def Let_def)

lemma ep_sort_key_inject: "ep_sort_key e = ep_sort_key e' \<longleftrightarrow> e = e'"
  by (cases e; cases e') (simp add: ep_sort_key_def)

lemma canonical_ordered:
  "ep_sort_key (fk_endpoint_a (fst (canonical pr s sp d dp i v)))
     \<le> ep_sort_key (fk_endpoint_b (fst (canonical pr s sp d dp i v)))"
  by (simp add: canonical_def Let_def linear order_less_imp_le not_le)

lemma canonical_swap_key:
  "fst (canonical pr d dp s sp i v) = fst (canonical pr s sp d dp i v)"
proof -
  let ?l = "\<lparr>ep_address = s, ep_port = sp\<rparr>" and ?r = "\<lparr>ep_address = d, ep_port = dp\<rparr>"
  show ?thesis
  proof (cases "ep_sort_key ?l \<le> ep_sort_key ?r \<and> ep_sort_key ?r \<le> ep_sort_key ?l")
    case True
    then have "?l = ?r" using ep_sort_key_inject [of ?l ?r] by fastforce
    then show ?thesis by (simp add: canonical_def)
  next
    case False
    then show ?thesis using linear [of "ep_sort_key ?l" "ep_sort_key ?r"]
      by (auto simp: canonical_def Let_def)
  qed
qed

lemma canonical_swap_direction:
  "(s, sp) \<noteq> (d, dp) \<Longrightarrow> snd (canonical pr d dp s sp i v) = 1 - snd (canonical pr s sp d dp i v)"
proof -
  assume ne: "(s, sp) \<noteq> (d, dp)"
  let ?l = "\<lparr>ep_address = s, ep_port = sp\<rparr>" and ?r = "\<lparr>ep_address = d, ep_port = dp\<rparr>"
  have "ep_sort_key ?l \<noteq> ep_sort_key ?r" using ne by (simp add: ep_sort_key_def)
  then have "ep_sort_key ?l \<le> ep_sort_key ?r \<longleftrightarrow> \<not> ep_sort_key ?r \<le> ep_sort_key ?l"
    using linear [of "ep_sort_key ?l" "ep_sort_key ?r"] by auto
  then show ?thesis by (simp add: canonical_def Let_def)
qed

lemma canonical_source:
  "(if snd (canonical pr s sp d dp i v) = 0 then fk_endpoint_a (fst (canonical pr s sp d dp i v))
    else fk_endpoint_b (fst (canonical pr s sp d dp i v))) = \<lparr>ep_address = s, ep_port = sp\<rparr>"
  by (simp add: canonical_def Let_def)

end
