(* ===== verification/Packets.thy ===== *)
theory Packets
  imports Models
begin

text \<open>
  \<open>packet_audit/packets.py\<close>: link, IP, TCP and UDP decoding. Byte positions only grow from zero and
  are \<open>nat\<close>; every indexing expression of the source is \<open>py_at\<close>, which raises \<open>IndexError\<close> out of
  range, and every \<open>struct.unpack_from\<close> raises \<open>struct.error\<close> on a short buffer, so that the
  absence of both is a theorem (\<open>parse_packet_strict_raises_only\<close>) and not an assumption. Further
  theorems: the ranges of the decoded fields, the payloads as slices of the captured frame, and the
  round trip of a well-formed Ethernet/IPv4/TCP frame.
\<close>

section \<open>Constants\<close>

definition DLT_EN10MB :: int where "DLT_EN10MB = 1"
definition DLT_RAW :: int where "DLT_RAW = 12"
definition DLT_LINUX_SLL :: int where "DLT_LINUX_SLL = 113"
definition DLT_IPV4 :: int where "DLT_IPV4 = 228"
definition DLT_IPV6 :: int where "DLT_IPV6 = 229"
definition DLT_LINUX_SLL2 :: int where "DLT_LINUX_SLL2 = 276"

definition ETHERTYPE_IPV4 :: nat where "ETHERTYPE_IPV4 = 0x0800"
definition ETHERTYPE_IPV6 :: nat where "ETHERTYPE_IPV6 = 0x86DD"
definition VLAN_ETHERTYPES :: "nat list" where "VLAN_ETHERTYPES = [0x8100, 0x88A8, 0x9100, 0x9200]"

definition IPPROTO_TCP :: int where "IPPROTO_TCP = 6"
definition IPPROTO_UDP :: int where "IPPROTO_UDP = 17"
definition IPPROTO_FRAGMENT :: int where "IPPROTO_FRAGMENT = 44"

definition IPV6_EXTENSION_HEADERS :: "int list" where
  "IPV6_EXTENSION_HEADERS = [0, 43, 60, 135, 139, 140]"
definition MAX_VLAN_TAGS :: nat where "MAX_VLAN_TAGS = 8"
definition MAX_IPV6_EXTENSION_HEADERS :: nat where "MAX_IPV6_EXTENSION_HEADERS = 16"

lemmas packet_consts = DLT_EN10MB_def DLT_RAW_def DLT_LINUX_SLL_def DLT_IPV4_def DLT_IPV6_def
  DLT_LINUX_SLL2_def ETHERTYPE_IPV4_def ETHERTYPE_IPV6_def VLAN_ETHERTYPES_def IPPROTO_TCP_def
  IPPROTO_UDP_def IPPROTO_FRAGMENT_def IPV6_EXTENSION_HEADERS_def MAX_VLAN_TAGS_def
  MAX_IPV6_EXTENSION_HEADERS_def

section \<open>Field reads\<close>

text \<open>\<open>_u16\<close>: the position is not negative by its type.\<close>

definition u16 :: "bytes \<Rightarrow> nat \<Rightarrow> nat result" where
  "u16 d off =
     (if off + 2 > length d then Inl (PacketDecodeError ''two-byte field extends past captured data'')
      else Inr (from_be (py_slice d off (off + 2))))"

text \<open>\<open>struct.unpack_from("!I", d, off)[0]\<close>.\<close>

definition unpack_u32 :: "bytes \<Rightarrow> nat \<Rightarrow> nat result" where
  "unpack_u32 d off =
     (if off + 4 > length d then Inl StructError else Inr (from_be (py_slice d off (off + 4))))"

text \<open>\<open>d[off]\<close> as a number.\<close>

definition byte_at :: "bytes \<Rightarrow> nat \<Rightarrow> nat result" where
  "byte_at d off = bindE (py_at d off) (\<lambda>b. Inr (unat b))"

section \<open>Link layer\<close>

function strip_vlan_tags ::
  "bytes \<Rightarrow> nat \<Rightarrow> nat \<Rightarrow> int list \<Rightarrow> (nat \<times> bytes \<times> int list) result" where
  "strip_vlan_tags raw ether_type offset vlans =
     (if ether_type \<in> set VLAN_ETHERTYPES then
        (if length vlans \<ge> MAX_VLAN_TAGS then Inl (PacketDecodeError ''too many stacked VLAN tags'')
         else if offset + 4 > length raw then Inl (PacketDecodeError ''short VLAN header'')
         else bindE (u16 raw offset) (\<lambda>tci.
              bindE (u16 raw (offset + 2)) (\<lambda>ether_type'.
              strip_vlan_tags raw ether_type' (offset + 4) (vlans @ [int (tci AND 0x0FFF)]))))
      else Inr (ether_type, drop offset raw, vlans))"
  by pat_completeness auto
termination
  by (relation "measure (\<lambda>(raw, et, offset, vlans). length raw - offset)") auto

declare strip_vlan_tags.simps [simp del]

definition link_payload :: "bytes \<Rightarrow> int \<Rightarrow> (nat \<times> bytes \<times> int list) result" where
  "link_payload raw datalink =
     (if datalink = DLT_EN10MB then
        (if length raw < 14 then Inl (PacketDecodeError ''short Ethernet header'')
         else bindE (u16 raw 12) (\<lambda>ether_type. strip_vlan_tags raw ether_type 14 []))
      else if datalink = DLT_LINUX_SLL then
        (if length raw < 16 then Inl (PacketDecodeError ''short Linux SLL header'')
         else bindE (u16 raw 14) (\<lambda>ether_type. strip_vlan_tags raw ether_type 16 []))
      else if datalink = DLT_LINUX_SLL2 then
        (if length raw < 20 then Inl (PacketDecodeError ''short Linux SLL2 header'')
         else bindE (u16 raw 0) (\<lambda>ether_type. strip_vlan_tags raw ether_type 20 []))
      else if datalink = DLT_RAW then
        (if raw = [] then Inl (PacketDecodeError ''empty raw IP packet'')
         else bindE (byte_at raw 0) (\<lambda>b0.
           let version = drop_bit 4 b0 in
           if version = 4 then Inr (ETHERTYPE_IPV4, raw, [])
           else if version = 6 then Inr (ETHERTYPE_IPV6, raw, [])
           else Inl (PacketDecodeError ''raw packet is neither IPv4 nor IPv6'')))
      else if datalink = DLT_IPV4 then Inr (ETHERTYPE_IPV4, raw, [])
      else if datalink = DLT_IPV6 then Inr (ETHERTYPE_IPV6, raw, [])
      else Inl (PacketDecodeError (''unsupported libpcap datalink type '' @ str_int datalink)))"

section \<open>IPv4\<close>

text \<open>The constructor call of \<open>ParsedPacket\<close> with its defaulted fields.\<close>

definition parsed_packet ::
  "CapturedPacket \<Rightarrow> int \<Rightarrow> string \<Rightarrow> string \<Rightarrow> int \<Rightarrow> int list \<Rightarrow> bytes \<Rightarrow> bool \<Rightarrow> int option \<Rightarrow> int \<Rightarrow> bool
     \<Rightarrow> ParsedPacket" where
  "parsed_packet packet version src dst protocol vlan_ids payload truncated fid foff mf =
     \<lparr>pp_session_id = cp_session_id packet, pp_packet_id = cp_packet_id packet,
      pp_timestamp_ns = cp_timestamp_ns packet, pp_interface = cp_interface packet,
      pp_captured_length = cp_captured_length packet, pp_wire_length = cp_wire_length packet,
      pp_ip_version = version, pp_src = src, pp_dst = dst, pp_protocol = protocol,
      pp_vlan_ids = vlan_ids, pp_network_payload = payload, pp_truncated = truncated,
      pp_fragment_id = fid, pp_fragment_offset = foff, pp_more_fragments = mf,
      pp_transport_parsed = False, pp_sport = 0, pp_dport = 0, pp_tcp_seq = 0, pp_tcp_ack = 0,
      pp_tcp_flags = 0, pp_transport_payload = [], pp_source_packet_ids = []\<rparr>"

definition parse_ipv4 :: "CapturedPacket \<Rightarrow> bytes \<Rightarrow> int list \<Rightarrow> ParsedPacket result" where
  "parse_ipv4 packet network vlan_ids =
     (if length network < 20 then Inl (PacketDecodeError ''short IPv4 header'') else
      bindE (byte_at network 0) (\<lambda>b0.
      if drop_bit 4 b0 \<noteq> 4 then Inl (PacketDecodeError ''invalid IPv4 version'') else
      let ihl = (b0 AND 0x0F) * 4 in
      if ihl < 20 \<or> ihl > length network
      then Inl (PacketDecodeError ''invalid or truncated IPv4 header length'') else
      bindE (u16 network 2) (\<lambda>total_length.
      if total_length < ihl
      then Inl (PacketDecodeError ''IPv4 total length is shorter than its header'') else
      let available_length = min (length network) total_length;
          truncated = (length network < total_length
                       \<or> cp_captured_length packet < cp_wire_length packet) in
      bindE (u16 network 6) (\<lambda>flags_and_offset.
      let fragment_offset = (flags_and_offset AND 0x1FFF) * 8;
          more_fragments = (flags_and_offset AND 0x2000 \<noteq> 0);
          fragmented = (more_fragments \<or> fragment_offset \<noteq> 0) in
      bindE (ipv4_str (py_slice network 12 16)) (\<lambda>src.
      bindE (ipv4_str (py_slice network 16 20)) (\<lambda>dst.
      bindE (byte_at network 9) (\<lambda>protocol.
      bindE (if fragmented then bindE (u16 network 4) (\<lambda>i. Inr (Some (int i))) else Inr None)
        (\<lambda>fragment_id.
      Inr (parsed_packet packet 4 src dst (int protocol) vlan_ids
             (py_slice network ihl available_length) truncated
             fragment_id (int fragment_offset) more_fragments)))))))))"

section \<open>IPv6\<close>

text \<open>
  The bounded extension-header walk of \<open>_parse_ipv6\<close>: the first argument counts the iterations of
  \<open>for _ in range(_MAX_IPV6_EXTENSION_HEADERS)\<close> that are left, and running out is the loop's
  \<open>else\<close> branch. The result is the next header, the offset, and what a fragment header said.
\<close>

fun ipv6_walk ::
  "nat \<Rightarrow> bytes \<Rightarrow> nat \<Rightarrow> int \<Rightarrow> nat \<Rightarrow> (int \<times> nat \<times> int option \<times> int \<times> bool) result" where
  "ipv6_walk 0 network available_end next_header offset =
     Inl (PacketDecodeError ''too many IPv6 extension headers'')"
| "ipv6_walk (Suc n) network available_end next_header offset =
     (if next_header = IPPROTO_FRAGMENT then
        (if offset + 8 > available_end then Inl (PacketDecodeError ''short IPv6 fragment header'') else
         bindE (byte_at network offset) (\<lambda>fragment_next.
         bindE (u16 network (offset + 2)) (\<lambda>fragment_bits.
         bindE (unpack_u32 network (offset + 4)) (\<lambda>fragment_id.
         Inr (int fragment_next, offset + 8, Some (int fragment_id),
              int ((drop_bit 3 fragment_bits AND 0x1FFF) * 8), fragment_bits AND 0x0001 \<noteq> 0)))))
      else if next_header \<in> set IPV6_EXTENSION_HEADERS then
        (if offset + 2 > available_end then Inl (PacketDecodeError ''short IPv6 extension header'') else
         bindE (byte_at network offset) (\<lambda>following.
         bindE (byte_at network (offset + 1)) (\<lambda>len.
         let header_length = (len + 1) * 8 in
         if header_length < 8 \<or> offset + header_length > available_end
         then Inl (PacketDecodeError ''invalid IPv6 extension header length'')
         else ipv6_walk n network available_end (int following) (offset + header_length))))
      else if next_header = 51 then
        (if offset + 2 > available_end then Inl (PacketDecodeError ''short IPv6 authentication header'') else
         bindE (byte_at network offset) (\<lambda>following.
         bindE (byte_at network (offset + 1)) (\<lambda>len.
         let header_length = (len + 2) * 4 in
         if header_length < 8 \<or> offset + header_length > available_end
         then Inl (PacketDecodeError ''invalid IPv6 authentication header length'')
         else ipv6_walk n network available_end (int following) (offset + header_length))))
      else Inr (next_header, offset, None, 0, False))"

definition parse_ipv6 :: "CapturedPacket \<Rightarrow> bytes \<Rightarrow> int list \<Rightarrow> ParsedPacket result" where
  "parse_ipv6 packet network vlan_ids =
     (if length network < 40 then Inl (PacketDecodeError ''short IPv6 header'') else
      bindE (byte_at network 0) (\<lambda>b0.
      if drop_bit 4 b0 \<noteq> 6 then Inl (PacketDecodeError ''invalid IPv6 version'') else
      bindE (u16 network 4) (\<lambda>payload_length.
      let declared_end = (if payload_length \<noteq> 0 then 40 + payload_length else length network);
          available_end = min (length network) declared_end;
          truncated = ((payload_length \<noteq> 0 \<and> length network < declared_end)
                       \<or> cp_captured_length packet < cp_wire_length packet) in
      bindE (byte_at network 6) (\<lambda>next_header.
      bindE (ipv6_walk MAX_IPV6_EXTENSION_HEADERS network available_end (int next_header) 40)
        (\<lambda>(protocol, offset, fragment_id, fragment_offset, more_fragments).
      bindE (ipv6_str (py_slice network 8 24)) (\<lambda>src.
      bindE (ipv6_str (py_slice network 24 40)) (\<lambda>dst.
      Inr (parsed_packet packet 6 src dst protocol vlan_ids
             (py_slice network offset available_end) truncated
             fragment_id fragment_offset more_fragments))))))))"

text \<open>
  \<open>normalize_reassembled_ipv6\<close>. The walk answers \<open>None\<close> where the source returns the packet marked
  truncated; running out of iterations keeps the header reached so far (the loop has no \<open>else\<close>).
\<close>

fun normalize_walk :: "nat \<Rightarrow> bytes \<Rightarrow> int \<Rightarrow> nat \<Rightarrow> (int \<times> nat) option result" where
  "normalize_walk 0 payload next_header offset = Inr (Some (next_header, offset))"
| "normalize_walk (Suc n) payload next_header offset =
     (if next_header \<in> set IPV6_EXTENSION_HEADERS then
        (if offset + 2 > length payload then Inr None else
         bindE (byte_at payload offset) (\<lambda>following.
         bindE (byte_at payload (offset + 1)) (\<lambda>len.
         let hlen = (len + 1) * 8 in
         if hlen < 8 \<or> offset + hlen > length payload then Inr None
         else normalize_walk n payload (int following) (offset + hlen))))
      else if next_header = 51 then
        (if offset + 2 > length payload then Inr None else
         bindE (byte_at payload offset) (\<lambda>following.
         bindE (byte_at payload (offset + 1)) (\<lambda>len.
         let hlen = (len + 2) * 4 in
         if hlen < 8 \<or> offset + hlen > length payload then Inr None
         else normalize_walk n payload (int following) (offset + hlen))))
      else Inr (Some (next_header, offset)))"

definition normalize_reassembled_ipv6 :: "ParsedPacket \<Rightarrow> ParsedPacket result" where
  "normalize_reassembled_ipv6 p =
     (if pp_ip_version p \<noteq> 6 then Inr p else
      bindE (normalize_walk MAX_IPV6_EXTENSION_HEADERS (pp_network_payload p) (pp_protocol p) 0)
        (\<lambda>r. case r of
           None \<Rightarrow> Inr (p\<lparr>pp_truncated := True, pp_transport_parsed := False\<rparr>)
         | Some (next_header, offset) \<Rightarrow>
             Inr (p\<lparr>pp_protocol := next_header,
                    pp_network_payload := drop offset (pp_network_payload p)\<rparr>)))"

section \<open>TCP and UDP\<close>

definition short_transport :: "ParsedPacket \<Rightarrow> ParsedPacket" where
  "short_transport p = p\<lparr>pp_truncated := True, pp_transport_parsed := False\<rparr>"

definition parse_tcp :: "ParsedPacket \<Rightarrow> ParsedPacket result" where
  "parse_tcp p =
     (let payload = pp_network_payload p in
      if length payload < 20 then Inr (short_transport p) else
      bindE (byte_at payload 12) (\<lambda>b12.
      let data_offset = drop_bit 4 b12 * 4 in
      if data_offset < 20 \<or> data_offset > length payload then Inr (short_transport p) else
      bindE (u16 payload 0) (\<lambda>sport.
      bindE (u16 payload 2) (\<lambda>dport.
      bindE (unpack_u32 payload 4) (\<lambda>seq.
      bindE (unpack_u32 payload 8) (\<lambda>ack.
      bindE (byte_at payload 13) (\<lambda>flags.
      Inr (p\<lparr>pp_network_payload := [], pp_sport := int sport, pp_dport := int dport,
             pp_tcp_seq := int seq, pp_tcp_ack := int ack, pp_tcp_flags := int flags,
             pp_transport_payload := drop data_offset payload,
             pp_transport_parsed := True\<rparr>))))))))"

definition parse_udp :: "ParsedPacket \<Rightarrow> ParsedPacket result" where
  "parse_udp p =
     (let payload = pp_network_payload p in
      if length payload < 8 then Inr (short_transport p) else
      bindE (u16 payload 4) (\<lambda>udp_length.
      if \<not> (udp_length = 0 \<and> pp_ip_version p = 6) \<and> udp_length < 8
      then Inr (short_transport p) else
      let udp_end = (if udp_length = 0 \<and> pp_ip_version p = 6 then length payload
                     else min (length payload) udp_length) in
      bindE (u16 payload 0) (\<lambda>sport.
      bindE (u16 payload 2) (\<lambda>dport.
      Inr (p\<lparr>pp_network_payload := [], pp_sport := int sport, pp_dport := int dport,
             pp_transport_payload := py_slice payload 8 udp_end,
             pp_transport_parsed := True,
             pp_truncated := (pp_truncated p \<or> (udp_length \<noteq> 0 \<and> length payload < udp_length))\<rparr>)))))"

definition parse_transport :: "ParsedPacket \<Rightarrow> ParsedPacket result" where
  "parse_transport p =
     (if pp_fragment_offset p \<noteq> 0 \<or> pp_more_fragments p then Inr p
      else if pp_protocol p = IPPROTO_TCP then parse_tcp p
      else if pp_protocol p = IPPROTO_UDP then parse_udp p
      else Inr p)"

section \<open>Whole packets\<close>

definition parse_packet_strict :: "CapturedPacket \<Rightarrow> ParsedPacket option result" where
  "parse_packet_strict packet =
     bindE (link_payload (cp_raw packet) (cp_datalink packet)) (\<lambda>(ether_type, network, vlan_ids).
     if ether_type = ETHERTYPE_IPV4 then
       bindE (parse_ipv4 packet network vlan_ids) (\<lambda>parsed.
       bindE (parse_transport parsed) (\<lambda>q. Inr (Some q)))
     else if ether_type = ETHERTYPE_IPV6 then
       bindE (parse_ipv6 packet network vlan_ids) (\<lambda>parsed.
       bindE (parse_transport parsed) (\<lambda>q. Inr (Some q)))
     else Inr None)"

text \<open>\<open>parse_packet\<close> catches \<open>PacketDecodeError\<close>, \<open>struct.error\<close> and \<open>ValueError\<close> only.\<close>

definition parse_packet :: "CapturedPacket \<Rightarrow> ParsedPacket option result" where
  "parse_packet packet =
     (case parse_packet_strict packet of
        Inl (PacketDecodeError _) \<Rightarrow> Inr None
      | Inl StructError \<Rightarrow> Inr None
      | Inl (ValueError _) \<Rightarrow> Inr None
      | r \<Rightarrow> r)"

section \<open>Only decode errors are raised\<close>

definition is_decode_error :: "py_error \<Rightarrow> bool" where
  "is_decode_error e \<longleftrightarrow> (\<exists>msg. e = PacketDecodeError msg)"

lemma is_decode_error_simp [simp]: "is_decode_error (PacketDecodeError msg)"
  by (simp add: is_decode_error_def)

lemma u16_raises [intro!]: "raises_only is_decode_error (u16 d off)"
  by (simp add: u16_def)

lemma u16_Inr [simp]: "off + 2 \<le> length d \<Longrightarrow> u16 d off = Inr (from_be (py_slice d off (off + 2)))"
  by (simp add: u16_def)

lemma byte_at_Inr [simp]: "off < length d \<Longrightarrow> byte_at d off = Inr (unat (d ! off))"
  by (simp add: byte_at_def)

lemma unpack_u32_Inr [simp]:
  "off + 4 \<le> length d \<Longrightarrow> unpack_u32 d off = Inr (from_be (py_slice d off (off + 4)))"
  by (simp add: unpack_u32_def)

lemma ipv4_str_Inr [simp]: "length raw = 4 \<Longrightarrow>
    ipv4_str raw = Inr (str_join ''.'' (map (\<lambda>b. str_nat (unat b)) raw))"
  by (simp add: ipv4_str_def)

lemma ipv6_str_Inr [simp]: "length raw = 16 \<Longrightarrow>
    ipv6_str raw = Inr (str_join '':'' (compress_hextets (hextets raw)))"
  by (simp add: ipv6_str_def)

lemma strip_vlan_tags_raises: "raises_only is_decode_error (strip_vlan_tags raw et off vs)"
proof (induction raw et off vs rule: strip_vlan_tags.induct)
  case (1 raw et off vs)
  then show ?case
    by (subst strip_vlan_tags.simps) (auto intro!: raises_only_bindE)
qed

lemma link_payload_raises: "raises_only is_decode_error (link_payload raw dlt)"
  unfolding link_payload_def
  by (auto intro!: raises_only_bindE strip_vlan_tags_raises simp: Let_def)

lemma parse_ipv4_raises: "raises_only is_decode_error (parse_ipv4 packet network vs)"
proof (cases "length network < 20")
  case False
  then have "network \<noteq> []" by auto
  with False show ?thesis unfolding parse_ipv4_def by (auto simp: Let_def)
qed (simp add: parse_ipv4_def)

lemma ipv6_walk_raises:
  "e \<le> length network \<Longrightarrow> raises_only is_decode_error (ipv6_walk n network e nh off)"
  by (induction n arbitrary: nh off) (auto simp: Let_def)

lemma parse_ipv6_raises: "raises_only is_decode_error (parse_ipv6 packet network vs)"
proof (cases "length network < 40")
  case False
  then have "network \<noteq> []" by auto
  with False show ?thesis unfolding parse_ipv6_def
    by (auto simp: Let_def split_beta intro!: raises_only_bindE ipv6_walk_raises)
qed (simp add: parse_ipv6_def)

lemma parse_transport_total: "\<exists>q. parse_transport p = Inr q"
  unfolding parse_transport_def parse_tcp_def parse_udp_def by (auto simp: Let_def)

lemma normalize_walk_total: "\<exists>r. normalize_walk n payload nh off = Inr r"
  by (induction n arbitrary: nh off) (auto simp: Let_def)

lemma normalize_total: "\<exists>q. normalize_reassembled_ipv6 p = Inr q"
  using normalize_walk_total [of MAX_IPV6_EXTENSION_HEADERS "pp_network_payload p" "pp_protocol p" 0]
  by (auto simp: normalize_reassembled_ipv6_def split: option.splits prod.splits)

lemma parse_transport_raises: "raises_only P (parse_transport p)"
  using parse_transport_total [of p] by auto

lemma strict_raises_aux: "raises_only is_decode_error (parse_packet_strict packet)"
  unfolding parse_packet_strict_def
  by (auto intro!: raises_only_bindE link_payload_raises parse_ipv4_raises parse_ipv6_raises
      parse_transport_raises simp: split_beta)

section \<open>Ranges of the decoded fields\<close>

lemma and_low_mask: "(x::nat) AND (2 ^ k - 1) = x mod 2 ^ k"
  by (simp flip: take_bit_eq_mod add: take_bit_eq_mask mask_eq_exp_minus_1)

lemma and_0FFF: "(x::nat) AND 0xFFF = x mod 4096"
  using and_low_mask [of x 12] by simp

lemma and_1FFF: "(x::nat) AND 0x1FFF = x mod 8192"
  using and_low_mask [of x 13] by simp

lemma u16_less: "u16 d off = Inr v \<Longrightarrow> v < 65536"
  using from_be_bound [of "py_slice d off (off + 2)" 2] by (auto simp: u16_def split: if_splits)

lemma unpack_u32_less: "unpack_u32 d off = Inr v \<Longrightarrow> v < 4294967296"
  using from_be_bound [of "py_slice d off (off + 4)" 4]
  by (auto simp: unpack_u32_def split: if_splits)

lemma byte_at_less: "byte_at d off = Inr v \<Longrightarrow> v < 256"
  by (auto simp: byte_at_def)

lemmas read_bounds = u16_less unpack_u32_less byte_at_less

text \<open>What every value of \<open>ParsedPacket\<close> produced by the decoder satisfies.\<close>

definition wf_network :: "ParsedPacket \<Rightarrow> bool" where
  "wf_network p \<longleftrightarrow>
     pp_ip_version p \<in> {4, 6} \<and> 0 \<le> pp_protocol p \<and> pp_protocol p < 256
     \<and> length (pp_vlan_ids p) \<le> 8 \<and> (\<forall>v \<in> set (pp_vlan_ids p). 0 \<le> v \<and> v < 4096)
     \<and> 0 \<le> pp_fragment_offset p \<and> pp_fragment_offset p \<le> 65528 \<and> 8 dvd pp_fragment_offset p"

definition wf_transport :: "ParsedPacket \<Rightarrow> bool" where
  "wf_transport p \<longleftrightarrow>
     0 \<le> pp_sport p \<and> pp_sport p < 65536 \<and> 0 \<le> pp_dport p \<and> pp_dport p < 65536
     \<and> 0 \<le> pp_tcp_seq p \<and> pp_tcp_seq p < 2 ^ 32 \<and> 0 \<le> pp_tcp_ack p \<and> pp_tcp_ack p < 2 ^ 32
     \<and> 0 \<le> pp_tcp_flags p \<and> pp_tcp_flags p < 256
     \<and> (pp_transport_parsed p \<longrightarrow>
          pp_network_payload p = [] \<and> pp_fragment_offset p = 0 \<and> \<not> pp_more_fragments p
          \<and> pp_protocol p \<in> {6, 17})"

definition wf_parsed :: "ParsedPacket \<Rightarrow> bool" where
  "wf_parsed p \<longleftrightarrow> wf_network p \<and> wf_transport p"

lemma strip_vlan_tags_wf:
  "strip_vlan_tags raw et off vs = Inr (et', network, vs') \<Longrightarrow> length vs \<le> 8 \<Longrightarrow>
   \<forall>v \<in> set vs. 0 \<le> v \<and> v < 4096 \<Longrightarrow>
   length vs' \<le> 8 \<and> (\<forall>v \<in> set vs'. 0 \<le> v \<and> v < 4096) \<and> (\<exists>n. network = drop n raw)"
proof (induction raw et off vs rule: strip_vlan_tags.induct)
  case (1 raw et off vs)
  show ?case
  proof (cases "et \<in> set VLAN_ETHERTYPES")
    case False
    with "1.prems" show ?thesis by (auto simp: strip_vlan_tags.simps [of raw et])
  next
    case True
    with "1.prems"(1) obtain tci et2 where
      g: "\<not> MAX_VLAN_TAGS \<le> length vs" "\<not> length raw < off + 4"
         "u16 raw off = Inr tci" "u16 raw (off + 2) = Inr et2"
         "strip_vlan_tags raw et2 (off + 4) (vs @ [int (tci AND 0xFFF)]) = Inr (et', network, vs')"
      by (auto simp: strip_vlan_tags.simps [of raw et off vs] split: if_splits)
    from g(1) have "length (vs @ [int (tci AND 0xFFF)]) \<le> 8" by (simp add: MAX_VLAN_TAGS_def)
    moreover have "\<forall>v \<in> set (vs @ [int (tci AND 0xFFF)]). 0 \<le> v \<and> v < 4096"
      using "1.prems"(3) by (auto simp: and_0FFF simp flip: of_nat_less_iff)
    ultimately show ?thesis by (intro "1.IH" [OF True g(1,2) g(5)])
  qed
qed

lemma link_payload_wf:
  "link_payload raw dlt = Inr (et, network, vs) \<Longrightarrow>
   length vs \<le> 8 \<and> (\<forall>v \<in> set vs. 0 \<le> v \<and> v < 4096) \<and> (\<exists>n. network = drop n raw)"
  unfolding link_payload_def Let_def
  by (auto split: if_splits dest!: strip_vlan_tags_wf intro: exI [of _ 0])

text \<open>Every payload is a contiguous part of the captured frame.\<close>

definition part_of :: "bytes \<Rightarrow> bytes \<Rightarrow> bool" where
  "part_of xs ys \<longleftrightarrow> (\<exists>a b. xs = py_slice ys a b)"

lemma part_of_Nil [simp]: "part_of [] ys"
  by (auto simp: part_of_def py_slice_def intro: exI [of _ 0])

lemma part_of_slice [simp]: "part_of (py_slice ys a b) ys"
  by (auto simp: part_of_def)

lemma part_of_drop [simp]: "part_of (drop n ys) ys"
  unfolding part_of_def by (intro exI [of _ n] exI [of _ "length ys"]) (simp add: py_slice_def)

lemma part_of_trans: "part_of xs ys \<Longrightarrow> part_of ys zs \<Longrightarrow> part_of xs zs"
  unfolding part_of_def by (metis py_slice_slice)

lemma parse_ipv4_wf:
  assumes "parse_ipv4 packet network vs = Inr p"
    and "length vs \<le> 8" "\<forall>v \<in> set vs. 0 \<le> v \<and> v < 4096"
  shows "wf_network p \<and> wf_transport p \<and> \<not> pp_transport_parsed p
    \<and> part_of (pp_network_payload p) network \<and> pp_transport_payload p = []"
  using assms
  by (auto simp: parse_ipv4_def Let_def parsed_packet_def wf_network_def wf_transport_def and_1FFF
      split: if_splits dest!: read_bounds)

lemma ipv6_walk_wf:
  "ipv6_walk n network e nh off = Inr (nh', off', fid, fo, mf) \<Longrightarrow> 0 \<le> nh \<Longrightarrow> nh < 256 \<Longrightarrow>
   0 \<le> nh' \<and> nh' < 256 \<and> 0 \<le> fo \<and> fo \<le> 65528 \<and> 8 dvd fo"
proof (induction n arbitrary: nh off)
  case (Suc n)
  then show ?case
    by (auto simp: Let_def and_1FFF split: if_splits dest!: read_bounds dest: Suc.IH)
qed simp

lemmas ipv6_walk_byte = ipv6_walk_wf [OF _ uint_ge_0 uint_byte_less]

lemma parse_ipv6_wf:
  assumes "parse_ipv6 packet network vs = Inr p"
    and "length vs \<le> 8" "\<forall>v \<in> set vs. 0 \<le> v \<and> v < 4096"
  shows "wf_network p \<and> wf_transport p \<and> \<not> pp_transport_parsed p
    \<and> part_of (pp_network_payload p) network \<and> pp_transport_payload p = []"
proof -
  from assms(1) obtain nh e a off fid fo mf src dst tr where
    w: "ipv6_walk MAX_IPV6_EXTENSION_HEADERS network e (int nh) 40 = Inr (a, off, fid, fo, mf)"
    and nh: "byte_at network 6 = Inr nh"
    and p: "p = parsed_packet packet 6 src dst a vs (py_slice network off e) tr fid fo mf"
    unfolding parse_ipv6_def Let_def by (auto simp del: byte_at_Inr split: if_split_asm)
  from nh have "nh < 256" by (rule byte_at_less)
  with ipv6_walk_wf [OF w] assms(2,3) show ?thesis
    by (auto simp: p parsed_packet_def wf_network_def wf_transport_def)
qed

lemma parse_tcp_cases:
  assumes "parse_tcp p = Inr q"
  obtains "q = short_transport p"
  | n sport dport seq ack flags where "sport < 65536" "dport < 65536" "seq < 4294967296"
      "ack < 4294967296" "flags < 256"
      "q = p\<lparr>pp_network_payload := [], pp_sport := int sport, pp_dport := int dport,
             pp_tcp_seq := int seq, pp_tcp_ack := int ack, pp_tcp_flags := int flags,
             pp_transport_payload := drop n (pp_network_payload p), pp_transport_parsed := True\<rparr>"
  using assms unfolding parse_tcp_def Let_def
  by (auto simp del: byte_at_Inr u16_Inr unpack_u32_Inr split: if_split_asm dest!: read_bounds)

lemma parse_udp_cases:
  assumes "parse_udp p = Inr q"
  obtains "q = short_transport p"
  | n sport dport tr where "sport < 65536" "dport < 65536"
      "q = p\<lparr>pp_network_payload := [], pp_sport := int sport, pp_dport := int dport,
             pp_transport_payload := py_slice (pp_network_payload p) 8 n,
             pp_transport_parsed := True, pp_truncated := tr\<rparr>"
proof (cases "q = short_transport p")
  case False
  let ?P = "pp_network_payload p"
  from False assms obtain len sport dport where
    l: "u16 ?P 4 = Inr len" "u16 ?P 0 = Inr sport" "u16 ?P 2 = Inr dport" "(length ?P < 8) = False"
      "(\<not> (len = 0 \<and> pp_ip_version p = 6) \<and> len < 8) = False"
    by (auto simp: parse_udp_def Let_def simp del: u16_Inr split: if_split_asm)
  from l(2,3) have "sport < 65536" "dport < 65536" by (auto dest: u16_less simp del: u16_Inr)
  then show thesis using assms that(2)
    by (simp only: parse_udp_def Let_def l bindE_simps if_False sum.inject) blast
qed (use that in blast)

text \<open>The transport step keeps the network fields and exposes only bytes of the payload it was given.\<close>

definition transport_step_ok :: "ParsedPacket \<Rightarrow> ParsedPacket \<Rightarrow> bool" where
  "transport_step_ok p q \<longleftrightarrow> wf_parsed q
     \<and> part_of (pp_network_payload q) (pp_network_payload p)
     \<and> part_of (pp_transport_payload q) (pp_network_payload p)"

lemma part_of_refl [simp]: "part_of xs xs"
  using part_of_drop [of 0 xs] by simp

lemma transport_step_short:
  assumes "wf_network p" "wf_transport p" "pp_transport_payload p = []"
  shows "transport_step_ok p (short_transport p)"
  using assms by (simp add: transport_step_ok_def wf_parsed_def wf_network_def wf_transport_def
      short_transport_def)

lemma parse_tcp_ok:
  assumes q: "parse_tcp p = Inr q" and wf: "wf_network p" "wf_transport p"
    "pp_transport_payload p = []"
    and u: "pp_fragment_offset p = 0" "\<not> pp_more_fragments p" "pp_protocol p \<in> {6, 17}"
  shows "transport_step_ok p q"
proof (rule parse_tcp_cases [OF q])
  assume "q = short_transport p"
  then show ?thesis using transport_step_short [OF wf] by simp
next
  fix n sport dport seq ack flags :: nat
  assume b: "sport < 65536" "dport < 65536" "seq < 4294967296" "ack < 4294967296" "flags < 256"
    and q: "q = p\<lparr>pp_network_payload := [], pp_sport := int sport, pp_dport := int dport,
             pp_tcp_seq := int seq, pp_tcp_ack := int ack, pp_tcp_flags := int flags,
             pp_transport_payload := drop n (pp_network_payload p), pp_transport_parsed := True\<rparr>"
  from wf b u show ?thesis
    unfolding q transport_step_ok_def wf_parsed_def wf_network_def wf_transport_def by simp
qed

lemma parse_udp_ok:
  assumes q: "parse_udp p = Inr q" and wf: "wf_network p" "wf_transport p"
    "pp_transport_payload p = []"
    and u: "pp_fragment_offset p = 0" "\<not> pp_more_fragments p" "pp_protocol p \<in> {6, 17}"
  shows "transport_step_ok p q"
proof (rule parse_udp_cases [OF q])
  assume "q = short_transport p"
  then show ?thesis using transport_step_short [OF wf] by simp
next
  fix n sport dport :: nat and tr
  assume b: "sport < 65536" "dport < 65536"
    and q: "q = p\<lparr>pp_network_payload := [], pp_sport := int sport, pp_dport := int dport,
             pp_transport_payload := py_slice (pp_network_payload p) 8 n,
             pp_transport_parsed := True, pp_truncated := tr\<rparr>"
  from wf b u show ?thesis
    unfolding q transport_step_ok_def wf_parsed_def wf_network_def wf_transport_def by simp
qed

lemma parse_transport_ok:
  assumes q: "parse_transport p = Inr q" and wf: "wf_network p" "wf_transport p"
    "pp_transport_payload p = []"
  shows "transport_step_ok p q"
proof -
  have self: "transport_step_ok p p"
    using wf by (simp add: transport_step_ok_def wf_parsed_def)
  show ?thesis
  proof (cases "pp_fragment_offset p \<noteq> 0 \<or> pp_more_fragments p")
    case True
    with q self show ?thesis by (simp add: parse_transport_def)
  next
    case False
    with q self parse_tcp_ok [OF _ wf] parse_udp_ok [OF _ wf] show ?thesis
      by (auto simp: parse_transport_def packet_consts split: if_split_asm)
  qed
qed

lemma strict_wf_aux:
  assumes "parse_packet_strict packet = Inr (Some q)"
  shows "wf_parsed q \<and> part_of (pp_network_payload q) (cp_raw packet)
    \<and> part_of (pp_transport_payload q) (cp_raw packet)"
proof -
  from assms obtain et network vs where
    l: "link_payload (cp_raw packet) (cp_datalink packet) = Inr (et, network, vs)"
    by (auto simp: parse_packet_strict_def)
  from link_payload_wf [OF l] have vs: "length vs \<le> 8" "\<forall>v \<in> set vs. 0 \<le> v \<and> v < 4096"
    and n: "part_of network (cp_raw packet)" by auto
  have "?thesis" if "parse_ipv4 packet network vs = Inr p \<or> parse_ipv6 packet network vs = Inr p"
    and q: "parse_transport p = Inr q" for p
  proof -
    from that(1) parse_ipv4_wf [OF _ vs] parse_ipv6_wf [OF _ vs]
    have "wf_network p" "wf_transport p" "pp_transport_payload p = []"
      and pn: "part_of (pp_network_payload p) network" by blast+
    from parse_transport_ok [OF q this(1-3)] pn n show ?thesis
      unfolding transport_step_ok_def by (blast intro: part_of_trans)
  qed
  with assms l show ?thesis by (auto simp: parse_packet_strict_def split: if_splits)
qed

section \<open>Round trip of a well-formed frame\<close>

text \<open>An encoder for Ethernet frames with stacked 802.1Q tags, IPv4 without options and TCP without
  options.\<close>

definition outer_type :: "nat list \<Rightarrow> nat" where
  "outer_type tags = (if tags = [] then 0x0800 else 0x8100)"

fun vlan_bytes :: "nat list \<Rightarrow> bytes" where
  "vlan_bytes [] = []"
| "vlan_bytes (t # ts) = to_be 2 t @ to_be 2 (outer_type ts) @ vlan_bytes ts"

definition tcp_bytes ::
  "nat \<Rightarrow> nat \<Rightarrow> nat \<Rightarrow> nat \<Rightarrow> byte \<Rightarrow> bytes \<Rightarrow> bytes \<Rightarrow> bytes" where
  "tcp_bytes sport dport seq ack flags rest payload =
     to_be 2 sport @ to_be 2 dport @ to_be 4 seq @ to_be 4 ack @ [0x50, flags] @ rest @ payload"

definition ipv4_bytes ::
  "byte \<Rightarrow> bytes \<Rightarrow> byte \<Rightarrow> bytes \<Rightarrow> bytes \<Rightarrow> bytes \<Rightarrow> bytes \<Rightarrow> bytes" where
  "ipv4_bytes tos ident ttl ck sip dip body =
     [0x45, tos] @ to_be 2 (20 + length body) @ ident @ [0x40, 0, ttl, 6] @ ck @ sip @ dip @ body"

definition eth_bytes :: "bytes \<Rightarrow> nat list \<Rightarrow> bytes \<Rightarrow> bytes" where
  "eth_bytes macs tags network = macs @ to_be 2 (outer_type tags) @ vlan_bytes tags @ network"

lemma u16_at: "drop off d = to_be 2 v @ rest \<Longrightarrow> v < 65536 \<Longrightarrow> u16 d off = Inr v"
proof -
  assume d: "drop off d = to_be 2 v @ rest" and v: "v < 65536"
  from d have "length (drop off d) \<ge> 2" by (simp del: to_be.simps)
  moreover have "py_slice d off (off + 2) = to_be 2 v" by (simp add: py_slice_def d del: to_be.simps)
  ultimately show ?thesis using v by (simp add: from_be_to_be del: to_be.simps)
qed

lemma unpack_u32_at:
  "drop off d = to_be 4 v @ rest \<Longrightarrow> v < 4294967296 \<Longrightarrow> unpack_u32 d off = Inr v"
proof -
  assume d: "drop off d = to_be 4 v @ rest" and v: "v < 4294967296"
  from d have "length (drop off d) \<ge> 4" by (simp del: to_be.simps)
  moreover have "py_slice d off (off + 4) = to_be 4 v" by (simp add: py_slice_def d del: to_be.simps)
  ultimately show ?thesis using v by (simp add: from_be_to_be del: to_be.simps)
qed

lemma byte_at_at: "drop off d = b # rest \<Longrightarrow> byte_at d off = Inr (unat b)"
  by (metis byte_at_Inr drop_all list.distinct(1) list.sel(1) not_less hd_drop_conv_nth)

lemma strip_vlan_tags_encoded:
  assumes "drop off raw = vlan_bytes tags @ network" "length vs + length tags \<le> 8"
    "\<forall>t \<in> set tags. t < 65536"
  shows "strip_vlan_tags raw (outer_type tags) off vs
    = Inr (0x0800, network, vs @ map (\<lambda>t. int (t mod 4096)) tags)"
  using assms
proof (induction tags arbitrary: off vs)
  case Nil
  then show ?case
    by (subst strip_vlan_tags.simps) (simp add: outer_type_def packet_consts)
next
  case (Cons t ts)
  let ?rest = "vlan_bytes ts @ network"
  have d: "drop off raw = to_be 2 t @ to_be 2 (outer_type ts) @ ?rest"
    using Cons.prems by simp
  have d2: "drop (off + 2) raw = to_be 2 (outer_type ts) @ ?rest"
    using arg_cong [OF d, of "drop 2"] by (simp del: to_be.simps add: add.commute)
  have d4: "drop (off + 4) raw = ?rest"
    using arg_cong [OF d, of "drop 4"] by (simp del: to_be.simps add: add.commute)
  have l: "\<not> length raw < off + 4"
    using arg_cong [OF d, of length] by (simp del: to_be.simps)
  have u: "u16 raw off = Inr t" "u16 raw (off + 2) = Inr (outer_type ts)"
    using Cons.prems by (rule_tac u16_at [OF d], simp) (rule u16_at [OF d2], simp add: outer_type_def)
  have "strip_vlan_tags raw (outer_type ts) (off + 4) (vs @ [int (t AND 0xFFF)])
      = Inr (0x0800, network, (vs @ [int (t AND 0xFFF)]) @ map (\<lambda>t. int (t mod 4096)) ts)"
    using Cons.prems by (intro Cons.IH d4) auto
  moreover have "outer_type (t # ts) \<in> set VLAN_ETHERTYPES" "\<not> length vs \<ge> MAX_VLAN_TAGS"
    using Cons.prems by (auto simp: outer_type_def packet_consts)
  ultimately show ?case using l u
    by (subst strip_vlan_tags.simps) (simp add: and_0FFF del: u16_Inr)
qed

lemma link_payload_encoded:
  assumes "length macs = 12" "length tags \<le> 8" "\<forall>t \<in> set tags. t < 65536"
  shows "link_payload (eth_bytes macs tags network) DLT_EN10MB
    = Inr (0x0800, network, map (\<lambda>t. int (t mod 4096)) tags)"
proof -
  let ?raw = "eth_bytes macs tags network"
  have "u16 ?raw 12 = Inr (outer_type tags)"
    using assms(1) by (intro u16_at [of _ _ _ "vlan_bytes tags @ network"])
      (auto simp: eth_bytes_def outer_type_def simp del: to_be.simps)
  moreover have "strip_vlan_tags ?raw (outer_type tags) 14 []
      = Inr (0x0800, network, [] @ map (\<lambda>t. int (t mod 4096)) tags)"
    using assms by (intro strip_vlan_tags_encoded) (auto simp: eth_bytes_def simp del: to_be.simps)
  ultimately show ?thesis
    using assms(1) by (simp add: link_payload_def eth_bytes_def del: u16_Inr to_be.simps)
qed

abbreviation dotted :: "bytes \<Rightarrow> string" where
  "dotted ip \<equiv> str_join ''.'' (map (\<lambda>b. str_nat (unat b)) ip)"

lemma parse_ipv4_encoded:
  assumes "length ident = 2" "length ck = 2" "length sip = 4" "length dip = 4"
    "20 + length body < 65536" "cp_captured_length packet = cp_wire_length packet"
  shows "parse_ipv4 packet (ipv4_bytes tos ident ttl ck sip dip body) vs
    = Inr (parsed_packet packet 4 (dotted sip) (dotted dip) 6 vs body False None 0 False)"
proof -
  let ?n = "ipv4_bytes tos ident ttl ck sip dip body"
  have len: "length ?n = 20 + length body"
    using assms by (simp add: ipv4_bytes_def del: to_be.simps)
  have b0: "byte_at ?n 0 = Inr 0x45" and b9: "byte_at ?n 9 = Inr 6"
    using assms by (auto simp: ipv4_bytes_def byte_at_def py_at_def nth_append simp del: to_be.simps)
  have l: "u16 ?n 2 = Inr (20 + length body)"
    using assms by (intro u16_at) (auto simp: ipv4_bytes_def simp del: to_be.simps)
  have f: "u16 ?n 6 = Inr 0x4000"
  proof -
    have "py_slice ?n 6 8 = [0x40, 0]"
      using assms by (simp add: ipv4_bytes_def py_slice_def del: to_be.simps)
    then show ?thesis by (simp add: len from_be_Cons)
  qed
  have s: "py_slice ?n 12 16 = sip" "py_slice ?n 16 20 = dip" "py_slice ?n 20 (20 + length body) = body"
    using assms by (simp_all add: ipv4_bytes_def py_slice_def del: to_be.simps)
  show ?thesis
    using assms(3-6) unfolding parse_ipv4_def
    by (simp add: len b0 b9 l f s Let_def and_1FFF del: byte_at_Inr u16_Inr)
qed

lemma parse_tcp_encoded:
  assumes "length rest = 6" "sport < 65536" "dport < 65536" "seq < 4294967296" "ack < 4294967296"
    "pp_network_payload p = tcp_bytes sport dport seq ack flags rest payload"
  shows "parse_tcp p = Inr (p\<lparr>pp_network_payload := [], pp_sport := int sport,
      pp_dport := int dport, pp_tcp_seq := int seq, pp_tcp_ack := int ack,
      pp_tcp_flags := int (unat flags), pp_transport_payload := payload,
      pp_transport_parsed := True\<rparr>)"
proof -
  let ?t = "tcp_bytes sport dport seq ack flags rest payload"
  have len: "length ?t = 20 + length payload"
    using assms by (simp add: tcp_bytes_def del: to_be.simps)
  have b: "byte_at ?t 12 = Inr 0x50" "byte_at ?t 13 = Inr (unat flags)"
    by (simp_all add: tcp_bytes_def byte_at_def py_at_def nth_append del: to_be.simps)
  have u: "u16 ?t 0 = Inr sport" "u16 ?t 2 = Inr dport"
    using assms by (rule_tac u16_at, simp add: tcp_bytes_def del: to_be.simps, simp)+
  have s: "unpack_u32 ?t 4 = Inr seq" "unpack_u32 ?t 8 = Inr ack"
    using assms by (rule_tac unpack_u32_at, simp add: tcp_bytes_def del: to_be.simps, simp)+
  have d: "drop 20 ?t = payload" using assms by (simp add: tcp_bytes_def del: to_be.simps)
  show ?thesis unfolding parse_tcp_def assms(6)
    by (simp add: len b u s d Let_def del: byte_at_Inr u16_Inr unpack_u32_Inr)
qed

section \<open>Properties\<close>

text \<open>C34: whatever bytes are captured, on whatever link type, strict decoding returns a packet, or
  \<open>None\<close> for a frame that is not IP, or raises \<open>PacketDecodeError\<close>; it never reads outside the
  captured bytes (\<open>IndexError\<close>, \<open>struct.error\<close>), which the supervisor would treat as fatal. The
  lenient adapter therefore never raises.\<close>

theorem parse_packet_strict_raises_only:
  "raises_only is_decode_error (parse_packet_strict packet) \<and> (\<exists>r. parse_packet packet = Inr r)"
  using strict_raises_aux [of packet]
  by (auto simp: parse_packet_def is_decode_error_def raises_only_def split: sum.splits)

text \<open>C31: every decoded packet has its fields in range (at most eight 12-bit VLAN identifiers, a
  fragment offset that is a multiple of eight up to 65528, 16-bit ports, 32-bit sequence numbers, a
  transport layer only where there is no fragmentation), and both payloads are contiguous parts of
  the captured frame.\<close>

theorem parse_packet_strict_wf:
  assumes "parse_packet_strict packet = Inr (Some q)"
  shows "wf_parsed q \<and> part_of (pp_network_payload q) (cp_raw packet)
    \<and> part_of (pp_transport_payload q) (cp_raw packet)"
  using assms by (rule strict_wf_aux)

abbreviation sample_udp :: CapturedPacket where
  "sample_udp \<equiv>
     \<lparr>cp_session_id = ''s'', cp_packet_id = 1, cp_timestamp_ns = 5, cp_interface = ''eth0'',
      cp_datalink = 228, cp_captured_length = 30, cp_wire_length = 30,
      cp_raw = [0x45, 0, 0, 30, 0, 0, 0, 0, 64, 17, 0, 0, 10, 0, 0, 1, 10, 0, 0, 2,
                0, 53, 0, 99, 0, 10, 0, 0, 7, 8]\<rparr>"

theorem parse_packet_strict_wf_witness:
  "\<exists>q. parse_packet_strict sample_udp = Inr (Some q) \<and> wf_parsed q
     \<and> part_of (pp_network_payload q) (cp_raw sample_udp)
     \<and> part_of (pp_transport_payload q) (cp_raw sample_udp)"
proof -
  have "case parse_packet_strict sample_udp of Inr (Some q) \<Rightarrow> True | _ \<Rightarrow> False"
    by code_simp
  then have "\<exists>q. parse_packet_strict sample_udp = Inr (Some q)"
    by (auto split: sum.splits option.splits)
  then show ?thesis using parse_packet_strict_wf [of sample_udp] by blast
qed

text \<open>C14: a well-formed Ethernet frame with up to eight stacked VLAN tags carrying IPv4 and TCP without
  options decodes to exactly the addresses, ports, sequence numbers, flags, VLAN identifiers and
  payload it was built from, unfragmented and not truncated.\<close>

theorem parse_encoded_frame:
  assumes "length macs = 12" "length tags \<le> 8" "\<forall>t \<in> set tags. t < 65536"
    "length ident = 2" "length ck = 2" "length sip = 4" "length dip = 4" "length rest = 6"
    "sport < 65536" "dport < 65536" "seq < 4294967296" "ack < 4294967296"
    "40 + length payload < 65536"
    "cp_datalink packet = DLT_EN10MB" "cp_captured_length packet = cp_wire_length packet"
    "cp_raw packet = eth_bytes macs tags (ipv4_bytes tos ident ttl ck sip dip
       (tcp_bytes sport dport seq ack flags rest payload))"
  shows "parse_packet_strict packet = Inr (Some
    ((parsed_packet packet 4 (dotted sip) (dotted dip) 6 (map (\<lambda>t. int (t mod 4096)) tags)
        [] False None 0 False)
     \<lparr>pp_sport := int sport, pp_dport := int dport, pp_tcp_seq := int seq, pp_tcp_ack := int ack,
      pp_tcp_flags := int (unat flags), pp_transport_payload := payload,
      pp_transport_parsed := True\<rparr>))"
proof -
  let ?body = "tcp_bytes sport dport seq ack flags rest payload"
  let ?p = "parsed_packet packet 4 (dotted sip) (dotted dip) 6 (map (\<lambda>t. int (t mod 4096)) tags)
    ?body False None 0 False"
  have "length ?body = 20 + length payload"
    using assms by (simp add: tcp_bytes_def del: to_be.simps)
  with assms have "parse_ipv4 packet (ipv4_bytes tos ident ttl ck sip dip ?body)
      (map (\<lambda>t. int (t mod 4096)) tags) = Inr ?p"
    by (intro parse_ipv4_encoded) auto
  moreover have "parse_tcp ?p = Inr (?p\<lparr>pp_network_payload := [], pp_sport := int sport,
      pp_dport := int dport, pp_tcp_seq := int seq, pp_tcp_ack := int ack,
      pp_tcp_flags := int (unat flags), pp_transport_payload := payload,
      pp_transport_parsed := True\<rparr>)"
    using assms by (intro parse_tcp_encoded) (auto simp: parsed_packet_def)
  moreover have "parse_transport ?p = parse_tcp ?p"
    by (simp add: parse_transport_def parsed_packet_def packet_consts)
  ultimately show ?thesis
    using link_payload_encoded [OF assms(1-3)] assms(14,16)
    by (simp add: parse_packet_strict_def ETHERTYPE_IPV4_def) (simp add: parsed_packet_def)
qed

abbreviation sample_tcp :: CapturedPacket where
  "sample_tcp \<equiv>
     \<lparr>cp_session_id = ''s'', cp_packet_id = 1, cp_timestamp_ns = 5, cp_interface = ''eth0'',
      cp_datalink = DLT_EN10MB, cp_captured_length = 59, cp_wire_length = 59,
      cp_raw = eth_bytes (replicate 12 0) [5] (ipv4_bytes 0 [0, 0] 64 [0, 0] [10, 0, 0, 1]
        [10, 0, 0, 2] (tcp_bytes 80 1234 7 9 0x18 (replicate 6 0) [65]))\<rparr>"

theorem parse_encoded_frame_witness:
  "\<exists>q. parse_packet_strict sample_tcp = Inr (Some q) \<and> pp_sport q = 80 \<and> pp_vlan_ids q = [5]
     \<and> pp_transport_payload q = [65]"
  using parse_encoded_frame [of "replicate 12 0" "[5]" "[0, 0]" "[0, 0]" "[10, 0, 0, 1]"
        "[10, 0, 0, 2]" "replicate 6 0" 80 1234 7 9 "[65]" sample_tcp 0 64 "0x18"]
  by simp (simp add: parsed_packet_def)

end
