(* ===== verification/Fragments.thy ===== *)
theory Fragments
  imports Packets Ordered_Dict Byte_Ranges "HOL-Library.Multiset"
begin

text \<open>
  The IP-fragment reassembler of \<open>packet_audit/reassembly.py\<close> (\<open>FragmentReassembler\<close>): its state
  table with the byte, range and provenance budgets, the conflict rule, eviction, expiry and the
  assembly of a complete datagram. The monotonic clock is an argument. \<open>_merge_adjacent_byte_ranges\<close>
  mutates range objects that the caller still holds in \<open>additions\<close>; the model keeps that aliasing by
  tagging the objects, because the byte accounting reads their lengths after the merge.
\<close>

section \<open>Data\<close>

record FragmentKey =
  fg_session_id :: string
  fg_interface :: string
  fg_vlan_ids :: "int list"
  fg_ip_version :: int
  fg_src :: string
  fg_dst :: string
  fg_protocol :: int
  fg_fragment_id :: int

record ByteRange =
  br_start :: int
  br_data :: bytes

definition br_end :: "ByteRange \<Rightarrow> int" where
  "br_end r = br_start r + int (length (br_data r))"

record FragmentState =
  fs_first_fragment :: "ParsedPacket option"
  fs_ranges :: "ByteRange list"
  fs_final_end :: "int option"
  fs_last_seen_ns :: int
  fs_activity_ns :: int
  fs_first_seen_ns :: int
  fs_latest_packet_id :: int
  fs_truncated :: bool
  fs_buffered_bytes :: nat
  fs_source_packet_ids :: "int list"

record FragmentReassembler =
  fr_idle_ns :: int
  fr_max_datagrams :: int
  fr_max_datagram_bytes :: int
  fr_max_buffered_bytes :: int
  fr_max_ranges_per_datagram :: int
  fr_max_buffered_ranges :: int
  fr_max_buffered_provenance_entries :: int
  fr_states :: "(FragmentKey, FragmentState) odict"
  fr_buffered_bytes :: int
  fr_buffered_ranges :: int
  fr_buffered_provenance_entries :: int
  fr_peak_buffered_ranges :: int
  fr_peak_buffered_provenance_entries :: int
  fr_expired_datagrams :: int
  fr_evicted_datagrams :: int
  fr_overlap_conflicts :: int
  fr_malformed_fragments :: int

section \<open>Ranges\<close>

text \<open>One step of \<open>_uncovered_byte_ranges\<close>: what an existing range leaves of a piece.\<close>

definition carve_range :: "ByteRange \<Rightarrow> ByteRange \<Rightarrow> ByteRange list" where
  "carve_range old piece =
     (if br_end piece \<le> br_start old \<or> br_start piece \<ge> br_end old then [piece]
      else (if br_start piece < br_start old
            then [\<lparr>br_start = br_start piece,
                   br_data = take (nat (br_start old - br_start piece)) (br_data piece)\<rparr>] else [])
         @ (if br_end piece > br_end old
            then [\<lparr>br_start = br_end old,
                   br_data = drop (nat (br_end old - br_start piece)) (br_data piece)\<rparr>] else []))"

fun carve_ranges :: "ByteRange list \<Rightarrow> ByteRange list \<Rightarrow> ByteRange list" where
  "carve_ranges [] pieces = pieces"
| "carve_ranges (old # existing) pieces =
     (let remaining = concat (map (carve_range old) pieces) in
      if remaining = [] then [] else carve_ranges existing remaining)"

definition uncovered_byte_ranges :: "int \<Rightarrow> bytes \<Rightarrow> ByteRange list \<Rightarrow> ByteRange list" where
  "uncovered_byte_ranges start d existing =
     carve_ranges existing (if d = [] then [] else [\<lparr>br_start = start, br_data = d\<rparr>])"

text \<open>
  \<open>_merge_adjacent_byte_ranges\<close> on tagged range objects. The second component of the result are the
  objects whose bytes were appended to their predecessor; they keep their own bytes, while the
  predecessor object grows in place.
\<close>

type_synonym tagged_range = "bool \<times> ByteRange"

fun merge_loop :: "tagged_range \<Rightarrow> tagged_range list \<Rightarrow> tagged_range list \<times> tagged_range list" where
  "merge_loop previous [] = ([previous], [])"
| "merge_loop previous (item # rest) =
     (if br_end (snd previous) = br_start (snd item) then
        (let (merged, absorbed) =
               merge_loop (fst previous, (snd previous)\<lparr>br_data := br_data (snd previous) @ br_data (snd item)\<rparr>)
                 rest
         in (merged, item # absorbed))
      else (let (merged, absorbed) = merge_loop item rest in (previous # merged, absorbed)))"

definition merge_adjacent_byte_ranges :: "tagged_range list \<Rightarrow> tagged_range list \<times> tagged_range list" where
  "merge_adjacent_byte_ranges ranges =
     (if length ranges < 2 then (ranges, [])
      else case sort_key (\<lambda>item. br_start (snd item)) ranges of
             [] \<Rightarrow> ([], [])
           | first # rest \<Rightarrow> merge_loop first rest)"

definition has_conflicting_overlap :: "int \<Rightarrow> bytes \<Rightarrow> ByteRange list \<Rightarrow> bool" where
  "has_conflicting_overlap start d existing =
     list_ex (\<lambda>old. overlap_conflict start d (br_start old) (br_data old)) existing"

section \<open>The reassembler\<close>

text \<open>\<open>__init__\<close>; the first argument is \<open>config.fragment_idle_seconds\<close> when a configuration is
  given.\<close>

definition fragment_init ::
  "int option \<Rightarrow> int option \<Rightarrow> int option \<Rightarrow> int \<Rightarrow> int \<Rightarrow> int \<Rightarrow> int \<Rightarrow> int \<Rightarrow> int \<Rightarrow> int option
     \<Rightarrow> FragmentReassembler result" where
  "fragment_init config_idle idle_seconds timeout_seconds max_datagrams max_datagram_bytes
     max_buffered_bytes max_ranges_per_datagram max_buffered_ranges max_provenance max_bytes =
     (let idle = (case timeout_seconds of Some t \<Rightarrow> Some t | None \<Rightarrow> idle_seconds);
          buffered = (case max_bytes of Some m \<Rightarrow> m | None \<Rightarrow> max_buffered_bytes) in
      if max_datagrams < 1 \<or> max_datagram_bytes < 1 \<or> buffered < 1 \<or> max_ranges_per_datagram < 1
         \<or> max_buffered_ranges < 1 \<or> max_provenance < 1
      then Inl (ValueError ''fragment reassembly limits must be positive'')
      else Inr
        \<lparr>fr_idle_ns = (case idle of Some i \<Rightarrow> i | None \<Rightarrow>
                         (case config_idle of Some c \<Rightarrow> c | None \<Rightarrow> 30)) * 1000000000,
         fr_max_datagrams = max_datagrams, fr_max_datagram_bytes = max_datagram_bytes,
         fr_max_buffered_bytes = buffered, fr_max_ranges_per_datagram = max_ranges_per_datagram,
         fr_max_buffered_ranges = max_buffered_ranges,
         fr_max_buffered_provenance_entries = max_provenance,
         fr_states = [], fr_buffered_bytes = 0, fr_buffered_ranges = 0,
         fr_buffered_provenance_entries = 0, fr_peak_buffered_ranges = 0,
         fr_peak_buffered_provenance_entries = 0, fr_expired_datagrams = 0,
         fr_evicted_datagrams = 0, fr_overlap_conflicts = 0, fr_malformed_fragments = 0\<rparr>)"

definition fragment_key :: "ParsedPacket \<Rightarrow> FragmentKey result" where
  "fragment_key p =
     (case pp_fragment_id p of
        None \<Rightarrow> Inl AssertionError
      | Some i \<Rightarrow> Inr \<lparr>fg_session_id = pp_session_id p, fg_interface = pp_interface p,
          fg_vlan_ids = pp_vlan_ids p, fg_ip_version = pp_ip_version p, fg_src = pp_src p,
          fg_dst = pp_dst p, fg_protocol = pp_protocol p, fg_fragment_id = i\<rparr>)"

definition fragment_discard :: "FragmentKey \<Rightarrow> FragmentReassembler \<Rightarrow> FragmentReassembler" where
  "fragment_discard key r =
     (case od_get (fr_states r) key of
        None \<Rightarrow> r
      | Some st \<Rightarrow> r\<lparr>fr_states := od_pop key (fr_states r),
          fr_buffered_bytes := fr_buffered_bytes r - int (fs_buffered_bytes st),
          fr_buffered_ranges := fr_buffered_ranges r - int (length (fs_ranges st)),
          fr_buffered_provenance_entries :=
            fr_buffered_provenance_entries r - int (length (fs_source_packet_ids st))\<rparr>)"

definition fragment_over_limits :: "FragmentReassembler \<Rightarrow> bool" where
  "fragment_over_limits r \<longleftrightarrow>
     int (length (fr_states r)) > fr_max_datagrams r
     \<or> fr_buffered_bytes r > fr_max_buffered_bytes r
     \<or> fr_buffered_ranges r > fr_max_buffered_ranges r
     \<or> fr_buffered_provenance_entries r > fr_max_buffered_provenance_entries r"

definition fragment_evict_one :: "FragmentKey \<Rightarrow> FragmentReassembler \<Rightarrow> FragmentReassembler" where
  "fragment_evict_one key r =
     (let r' = fragment_discard key r in r'\<lparr>fr_evicted_datagrams := fr_evicted_datagrams r' + 1\<rparr>)"

lemma fragment_discard_states [simp]: "fr_states (fragment_discard key r) = od_pop key (fr_states r)"
  by (auto simp: fragment_discard_def od_pop_absent split: option.splits)

lemma fragment_evict_states [simp]: "fr_states (fragment_evict_one key r) = od_pop key (fr_states r)"
  by (simp add: fragment_evict_one_def Let_def)

text \<open>\<open>_evict_to_limits\<close>; \<open>next(iter(self._states))\<close> raises \<open>StopIteration\<close> on an empty table.\<close>

function fragment_evict_to_limits :: "FragmentReassembler \<Rightarrow> FragmentReassembler result" where
  "fragment_evict_to_limits r =
     (if fragment_over_limits r then
        (case fr_states r of
           [] \<Rightarrow> Inl StopIteration
         | e # _ \<Rightarrow> fragment_evict_to_limits (fragment_evict_one (fst e) r))
      else Inr r)"
  by pat_completeness auto
termination
  by (relation "measure (\<lambda>r. length (fr_states r))") (auto simp: od_pop_def le_imp_less_Suc)

declare fragment_evict_to_limits.simps [simp del]

text \<open>The outcome of the assembly loop at the end of \<open>process\<close>.\<close>

datatype assembly = Incomplete | PastEnd | Assembled bytes

fun assemble_ranges :: "int \<Rightarrow> ByteRange list \<Rightarrow> int \<Rightarrow> bytes \<Rightarrow> assembly" where
  "assemble_ranges final_end [] cursor acc =
     (if cursor \<noteq> final_end then Incomplete else Assembled acc)"
| "assemble_ranges final_end (item # items) cursor acc =
     (if br_start item \<noteq> cursor then Incomplete
      else if br_end item > final_end then PastEnd
      else if br_end item = final_end then Assembled (acc @ br_data item)
      else assemble_ranges final_end items (br_end item) (acc @ br_data item))"

text \<open>\<open>replace(base, \<dots>)\<close>: the datagram that stands for all its fragments.\<close>

definition fragment_completed :: "ParsedPacket \<Rightarrow> FragmentState \<Rightarrow> bytes \<Rightarrow> ParsedPacket" where
  "fragment_completed base st payload =
     base\<lparr>pp_packet_id := fs_latest_packet_id st, pp_timestamp_ns := fs_last_seen_ns st,
          pp_network_payload := payload, pp_truncated := False, pp_fragment_id := None,
          pp_fragment_offset := 0, pp_more_fragments := False, pp_transport_parsed := False,
          pp_sport := 0, pp_dport := 0, pp_tcp_seq := 0, pp_tcp_ack := 0, pp_tcp_flags := 0,
          pp_transport_payload := [], pp_source_packet_ids := fs_source_packet_ids st\<rparr>"

definition fragment_deliver :: "ParsedPacket \<Rightarrow> ParsedPacket result" where
  "fragment_deliver completed = bindE (normalize_reassembled_ipv6 completed) parse_transport"

definition fragment_new_state :: "int \<Rightarrow> ParsedPacket \<Rightarrow> FragmentState" where
  "fragment_new_state now p =
     \<lparr>fs_first_fragment = None, fs_ranges = [], fs_final_end = None,
      fs_last_seen_ns = pp_timestamp_ns p, fs_activity_ns = now, fs_first_seen_ns = pp_timestamp_ns p,
      fs_latest_packet_id = pp_packet_id p, fs_truncated = False, fs_buffered_bytes = 0,
      fs_source_packet_ids = []\<rparr>"

text \<open>The bookkeeping of one more fragment on its state: clocks, identifier, truncation, the first
  fragment.\<close>

definition fragment_touch :: "int \<Rightarrow> ParsedPacket \<Rightarrow> FragmentState \<Rightarrow> FragmentState" where
  "fragment_touch now p st =
     st\<lparr>fs_last_seen_ns := max (fs_last_seen_ns st) (pp_timestamp_ns p), fs_activity_ns := now,
        fs_latest_packet_id := max (fs_latest_packet_id st) (pp_packet_id p),
        fs_truncated := (fs_truncated st \<or> pp_truncated p),
        fs_first_fragment :=
          (if pp_fragment_offset p = 0 \<and> fs_first_fragment st = None then Some p
           else fs_first_fragment st)\<rparr>"

text \<open>
  Storing the uncovered parts: the new state and the bytes added to the accounting, which are the
  lengths of the addition objects \<^emph>\<open>after\<close> the merge.
\<close>

definition tagged_length :: "tagged_range list \<Rightarrow> nat" where
  "tagged_length ts = sum_list (map (\<lambda>t. length (br_data (snd t))) (filter fst ts))"

definition fragment_store ::
  "ParsedPacket \<Rightarrow> FragmentState \<Rightarrow> FragmentState \<times> nat" where
  "fragment_store p st =
     (let additions = uncovered_byte_ranges (pp_fragment_offset p) (pp_network_payload p) (fs_ranges st);
          ids = (if additions = [] then fs_source_packet_ids st
                 else dedup_onto (fs_source_packet_ids st) (contributing_ids p));
          (merged, absorbed) =
            merge_adjacent_byte_ranges (map (Pair False) (fs_ranges st) @ map (Pair True) additions);
          added = tagged_length (merged @ absorbed) in
      (st\<lparr>fs_source_packet_ids := ids, fs_ranges := map snd merged,
          fs_buffered_bytes := fs_buffered_bytes st + added\<rparr>, added))"

text \<open>The table after a fragment was stored: the counters follow the state, and the peaks the
  counters.\<close>

definition fragment_account ::
  "FragmentKey \<Rightarrow> FragmentState \<Rightarrow> FragmentState \<Rightarrow> nat \<Rightarrow> FragmentReassembler \<Rightarrow> FragmentReassembler" where
  "fragment_account key before after added r =
     (let ranges = fr_buffered_ranges r
            + (int (length (fs_ranges after)) - int (length (fs_ranges before)));
          prov = fr_buffered_provenance_entries r
            + (int (length (fs_source_packet_ids after)) - int (length (fs_source_packet_ids before))) in
      r\<lparr>fr_states := od_put key after (fr_states r),
        fr_buffered_ranges := ranges, fr_buffered_provenance_entries := prov,
        fr_peak_buffered_ranges := max (fr_peak_buffered_ranges r) ranges,
        fr_peak_buffered_provenance_entries := max (fr_peak_buffered_provenance_entries r) prov,
        fr_buffered_bytes := fr_buffered_bytes r + int added\<rparr>)"

text \<open>The end of \<open>process\<close>: deliver the datagram when its ranges are complete.\<close>

definition fragment_finish ::
  "FragmentKey \<Rightarrow> FragmentState \<Rightarrow> FragmentReassembler \<Rightarrow> (FragmentReassembler \<times> ParsedPacket option) result" where
  "fragment_finish key st r =
     (case (fs_first_fragment st, fs_final_end st) of
        (Some base, Some final_end) \<Rightarrow>
          (if fs_truncated st then Inr (r, None)
           else (case assemble_ranges final_end (fs_ranges st) 0 [] of
                   Incomplete \<Rightarrow> Inr (r, None)
                 | PastEnd \<Rightarrow>
                     Inr (fragment_discard key (r\<lparr>fr_overlap_conflicts := fr_overlap_conflicts r + 1\<rparr>), None)
                 | Assembled payload \<Rightarrow>
                     bindE (fragment_deliver (fragment_completed base st payload))
                       (\<lambda>q. Inr (fragment_discard key r, Some q))))
      | _ \<Rightarrow> Inr (r, None))"

text \<open>The state of the fragment's datagram, created or moved to the end of the table, with the
  bookkeeping of the new fragment.\<close>

definition fragment_open ::
  "FragmentKey \<Rightarrow> int \<Rightarrow> ParsedPacket \<Rightarrow> FragmentReassembler \<Rightarrow> FragmentState \<times> FragmentReassembler" where
  "fragment_open key now p r =
     (case od_get (fr_states r) key of
        None \<Rightarrow>
          (let st = fragment_touch now p (fragment_new_state now p) in
           (st, r\<lparr>fr_states := od_put key st (fr_states r)\<rparr>))
      | Some s \<Rightarrow>
          (let st = fragment_touch now p s in
           (st, r\<lparr>fr_states := od_put key st (od_move_to_end key (fr_states r))\<rparr>)))"

definition is_fragment :: "ParsedPacket \<Rightarrow> bool" where
  "is_fragment p \<longleftrightarrow>
     \<not> (pp_fragment_id p = None \<or> (pp_fragment_offset p = 0 \<and> \<not> pp_more_fragments p))"

definition malformed_fragment :: "FragmentReassembler \<Rightarrow> ParsedPacket \<Rightarrow> bool" where
  "malformed_fragment r p \<longleftrightarrow>
     pp_fragment_offset p < 0
     \<or> pp_fragment_offset p + int (length (pp_network_payload p)) > fr_max_datagram_bytes r
     \<or> (pp_more_fragments p
        \<and> (pp_network_payload p = [] \<or> int (length (pp_network_payload p)) mod 8 \<noteq> 0))"

definition fragment_process ::
  "FragmentReassembler \<Rightarrow> int \<Rightarrow> ParsedPacket \<Rightarrow> (FragmentReassembler \<times> ParsedPacket option) result" where
  "fragment_process r now p =
     (if \<not> is_fragment p then Inr (r, Some p)
      else if malformed_fragment r p then
        bindE (fragment_key p) (\<lambda>key.
          Inr (fragment_discard key (r\<lparr>fr_malformed_fragments := fr_malformed_fragments r + 1\<rparr>), None))
      else bindE (fragment_key p) (\<lambda>key.
        let (st1, r1) = fragment_open key now p r;
            final_end = pp_fragment_offset p + int (length (pp_network_payload p)) in
        if \<not> pp_more_fragments p \<and> fs_final_end st1 \<noteq> None \<and> fs_final_end st1 \<noteq> Some final_end
        then Inr (fragment_discard key (r1\<lparr>fr_overlap_conflicts := fr_overlap_conflicts r + 1\<rparr>), None)
        else
          let st2 = (if pp_more_fragments p then st1 else st1\<lparr>fs_final_end := Some final_end\<rparr>);
              r2 = r1\<lparr>fr_states := od_put key st2 (fr_states r1)\<rparr> in
          if has_conflicting_overlap (pp_fragment_offset p) (pp_network_payload p) (fs_ranges st2)
          then Inr (fragment_discard key (r2\<lparr>fr_overlap_conflicts := fr_overlap_conflicts r + 1\<rparr>), None)
          else
            let (st3, added) = fragment_store p st2;
                r3 = fragment_account key st2 st3 added r2 in
            if int (length (fs_ranges st3)) > fr_max_ranges_per_datagram r
            then Inr (fragment_evict_one key r3, None)
            else bindE (fragment_evict_to_limits r3) (\<lambda>r4.
              if od_get (fr_states r4) key = None then Inr (r4, None)
              else fragment_finish key st3 r4)))"

text \<open>
  \<open>expire\<close>: with an explicit capture clock every state is tested; with the monotonic clock the scan
  stops at the first state that is not stale (the table is in activity order).
\<close>

definition fragment_stale_keys :: "FragmentReassembler \<Rightarrow> int \<Rightarrow> bool \<Rightarrow> FragmentKey list" where
  "fragment_stale_keys r now explicit_capture_clock =
     map fst (if explicit_capture_clock
              then filter (\<lambda>e. now - fs_last_seen_ns (snd e) \<ge> fr_idle_ns r) (fr_states r)
              else takeWhile (\<lambda>e. \<not> now - fs_activity_ns (snd e) < fr_idle_ns r) (fr_states r))"

definition fragment_expire :: "FragmentReassembler \<Rightarrow> int \<Rightarrow> bool \<Rightarrow> FragmentReassembler \<times> nat" where
  "fragment_expire r now explicit_capture_clock =
     (let stale = fragment_stale_keys r now explicit_capture_clock;
          r' = fold fragment_discard stale r in
      (r'\<lparr>fr_expired_datagrams := fr_expired_datagrams r' + int (length stale)\<rparr>, length stale))"

section \<open>Laws of the ranges\<close>

interpretation fr: segment_carving br_start br_data "\<lambda>r s d. \<lparr>br_start = s, br_data = d\<rparr>" carve_range carve_ranges
  by unfold_locales (auto simp: carve_range_def br_end_def)

text \<open>Ranges that neither overlap nor touch: what \<open>_merge_adjacent_byte_ranges\<close> leaves.\<close>

definition separated :: "ByteRange list \<Rightarrow> bool" where
  "separated rs \<longleftrightarrow> sorted_wrt (\<lambda>x y. br_end x < br_start y) rs"

definition holds_byte :: "ByteRange list \<Rightarrow> int \<Rightarrow> byte \<Rightarrow> bool" where
  "holds_byte rs p b \<longleftrightarrow> (\<exists>x \<in> set rs. fr.at x p = Some b)"

definition range_bytes :: "ByteRange list \<Rightarrow> nat" where
  "range_bytes rs = sum_list (map (\<lambda>x. length (br_data x)) rs)"

lemma range_bytes_simps [simp]:
  "range_bytes [] = 0" "range_bytes (x # xs) = length (br_data x) + range_bytes xs"
  "range_bytes (xs @ ys) = range_bytes xs + range_bytes ys"
  by (simp_all add: range_bytes_def)

lemma holds_byte_simps [simp]:
  "\<not> holds_byte [] p b"
  "holds_byte (x # xs) p b \<longleftrightarrow> fr.at x p = Some b \<or> holds_byte xs p b"
  "holds_byte (xs @ ys) p b \<longleftrightarrow> holds_byte xs p b \<or> holds_byte ys p b"
  by (auto simp: holds_byte_def)

lemma separated_chain: "separated rs \<Longrightarrow> fr.chain rs"
  unfolding separated_def fr.chain_def by (rule sorted_wrt_mono_rel) (auto simp: br_end_def)

abbreviation join_range :: "ByteRange \<Rightarrow> ByteRange \<Rightarrow> ByteRange" where
  "join_range x y \<equiv> x\<lparr>br_data := br_data x @ br_data y\<rparr>"

lemma join_range_at:
  "br_end x = br_start y \<Longrightarrow> fr.at (join_range x y) p = Some b \<longleftrightarrow> fr.at x p = Some b \<or> fr.at y p = Some b"
  by (auto simp: seg_at_append br_end_def seg_at_eq_None split: option.splits)
    (auto simp: seg_at_def split: if_splits)

lemma merge_loop_facts:
  assumes "merge_loop previous rest = (merged, absorbed)"
    and "fr.chain (map snd (previous # rest))" "fr.filled (map snd (previous # rest))"
  shows "separated (map snd merged) \<and> fr.filled (map snd merged)
    \<and> (\<forall>x \<in> set (map snd merged). br_start (snd previous) \<le> br_start x)
    \<and> (\<forall>p b. holds_byte (map snd merged) p b \<longleftrightarrow> holds_byte (map snd (previous # rest)) p b)
    \<and> range_bytes (map snd merged) = range_bytes (map snd (previous # rest))
    \<and> length merged \<le> Suc (length rest)"
  using assms
proof (induction previous rest arbitrary: merged absorbed rule: merge_loop.induct)
  case (1 previous)
  then show ?case by (auto simp: separated_def)
next
  case (2 previous item rest)
  show ?case
  proof (cases "br_end (snd previous) = br_start (snd item)")
    case True
    let ?j = "join_range (snd previous) (snd item)"
    obtain m a where ma: "merge_loop (fst previous, ?j) rest = (m, a)" by fastforce
    have ch: "fr.chain (map snd ((fst previous, ?j) # rest))"
      using 2(4) True by (auto simp: fr.chain_def br_end_def)
    have fl: "fr.filled (map snd ((fst previous, ?j) # rest))"
      using 2(5) by (auto simp: fr.filled_def)
    have "merged = m" using 2(3) True ma by simp
    with 2(1) [OF True ma ch fl] show ?thesis
      using join_range_at [OF True] by auto
  next
    case False
    obtain m a where ma: "merge_loop item rest = (m, a)" by fastforce
    have ch: "fr.chain (map snd (item # rest))" and fl: "fr.filled (map snd (item # rest))"
      and le: "br_end (snd previous) \<le> br_start (snd item)"
      using 2(4,5) by (auto simp: fr.chain_def fr.filled_def br_end_def)
    have "merged = previous # m" using 2(3) False ma by simp
    moreover have "br_start (snd previous) \<le> br_end (snd previous)" by (simp add: br_end_def)
    moreover have "br_end (snd previous) < br_start (snd item)" using le False by simp
    moreover note IH = 2(2) [OF False ma ch fl]
    ultimately have "\<forall>x \<in> set (map snd m). br_end (snd previous) < br_start x" by fastforce
    then have "separated (map snd merged)"
      and "\<forall>x \<in> set (map snd merged). br_start (snd previous) \<le> br_start x"
      using IH \<open>merged = previous # m\<close> \<open>br_start (snd previous) \<le> br_end (snd previous)\<close>
      by (auto simp: separated_def intro: order_trans less_imp_le)
    then show ?thesis using IH 2(5) \<open>merged = previous # m\<close> by (auto simp: fr.filled_def)
  qed
qed

lemma map_snd_sort:
  "map snd (sort_key (\<lambda>t. br_start (snd t)) ts) = sort_key br_start (map snd (ts :: tagged_range list))"
proof (induction ts)
  case (Cons t ts)
  have "map snd (insort_key (\<lambda>t. br_start (snd t)) t xs) = insort_key br_start (snd t) (map snd xs)"
    for xs :: "tagged_range list"
    by (induction xs) auto
  with Cons show ?case by simp
qed simp

lemma holds_byte_set: "set xs = set ys \<Longrightarrow> holds_byte xs p b = holds_byte ys p b"
  by (simp add: holds_byte_def)

lemma range_bytes_mset: "mset xs = mset ys \<Longrightarrow> range_bytes xs = range_bytes ys"
  unfolding range_bytes_def by (metis mset_map sum_mset_sum_list)

lemma merge_adjacent_facts:
  assumes "merge_adjacent_byte_ranges ts = (merged, absorbed)"
    and "fr.chain (sort_key br_start (map snd ts))" "fr.filled (map snd ts)"
  shows "separated (map snd merged) \<and> fr.filled (map snd merged)
    \<and> (\<forall>p b. holds_byte (map snd merged) p b \<longleftrightarrow> holds_byte (map snd ts) p b)
    \<and> range_bytes (map snd merged) = range_bytes (map snd ts)
    \<and> length merged \<le> length ts"
proof (cases "length ts < 2")
  case True
  then show ?thesis using assms
    by (cases ts) (auto simp: merge_adjacent_byte_ranges_def separated_def)
next
  case False
  let ?s = "sort_key (\<lambda>item. br_start (snd item)) ts"
  obtain first rest where fr: "?s = first # rest"
    using False by (cases ?s) (auto dest: arg_cong [where f = length])
  have ms: "map snd (first # rest) = sort_key br_start (map snd ts)"
    using map_snd_sort [of ts] fr by simp
  have "merge_loop first rest = (merged, absorbed)"
    using assms(1) False fr by (simp add: merge_adjacent_byte_ranges_def)
  note facts = merge_loop_facts [OF this]
  have ch: "fr.chain (map snd (first # rest))" unfolding ms by (rule assms(2))
  have fl: "fr.filled (map snd (first # rest))" unfolding ms using assms(3) by (simp add: fr.filled_def)
  have hb: "holds_byte (map snd (first # rest)) p b \<longleftrightarrow> holds_byte (map snd ts) p b" for p b
    unfolding ms by (rule holds_byte_set) simp
  have rb: "range_bytes (map snd (first # rest)) = range_bytes (map snd ts)"
    unfolding ms by (rule range_bytes_mset) simp
  have len: "Suc (length rest) = length ts"
    using arg_cong [OF fr, of length] by simp
  show ?thesis using facts [OF ch fl] unfolding hb rb len by blast
qed

lemma tagged_length_simps [simp]:
  "tagged_length [] = 0"
  "tagged_length (t # ts) = (if fst t then length (br_data (snd t)) else 0) + tagged_length ts"
  "tagged_length (ts @ us) = tagged_length ts + tagged_length us"
  by (simp_all add: tagged_length_def)

lemma merge_loop_tagged:
  "merge_loop previous rest = (merged, absorbed) \<Longrightarrow>
     tagged_length (previous # rest) \<le> tagged_length (merged @ absorbed)
     \<and> tagged_length absorbed \<le> tagged_length rest"
  by (induction previous rest arbitrary: merged absorbed rule: merge_loop.induct)
    (fastforce split: if_splits prod.splits)+

lemma tagged_length_sort [simp]: "tagged_length (sort_key f ts) = tagged_length ts"
proof -
  have "tagged_length (insort_key f t us) = tagged_length (t # us)" for t us
    by (induction us) auto
  then show ?thesis by (induction ts) auto
qed

lemma tagged_length_le: "tagged_length ts \<le> range_bytes (map snd ts)"
  by (induction ts) auto

lemma merge_adjacent_tagged:
  assumes "merge_adjacent_byte_ranges ts = (merged, absorbed)"
  shows "tagged_length ts \<le> tagged_length (merged @ absorbed)"
    and "tagged_length absorbed \<le> tagged_length ts"
proof -
  have "tagged_length ts \<le> tagged_length (merged @ absorbed)
    \<and> tagged_length absorbed \<le> tagged_length ts"
  proof (cases "length ts < 2")
    case False
    then obtain first rest where fr: "sort_key (\<lambda>item. br_start (snd item)) ts = first # rest"
      by (cases "sort_key (\<lambda>item. br_start (snd item)) ts") (auto dest: arg_cong [where f = length])
    with False assms have "merge_loop first rest = (merged, absorbed)"
      by (simp add: merge_adjacent_byte_ranges_def)
    from merge_loop_tagged [OF this] arg_cong [OF fr, of tagged_length] show ?thesis
      by simp
  qed (use assms in \<open>auto simp: merge_adjacent_byte_ranges_def\<close>)
  then show "tagged_length ts \<le> tagged_length (merged @ absorbed)"
    and "tagged_length absorbed \<le> tagged_length ts" by auto
qed

lemma tagged_length_parts:
  "tagged_length (map (Pair False) xs @ map (Pair True) ys) = range_bytes ys"
proof -
  have "tagged_length (map (Pair False) xs) = 0" by (induction xs) auto
  moreover have "tagged_length (map (Pair True) ys) = range_bytes ys" by (induction ys) auto
  ultimately show ?thesis by simp
qed

abbreviation whole_range :: "int \<Rightarrow> bytes \<Rightarrow> ByteRange list" where
  "whole_range s d \<equiv> (if d = [] then [] else [\<lparr>br_start = s, br_data = d\<rparr>])"

lemma uncovered_byte:
  "holds_byte (uncovered_byte_ranges s d rs) p b
     \<longleftrightarrow> seg_at s d p = Some b \<and> (\<forall>c. \<not> holds_byte rs p c)"
proof -
  have "holds_byte (uncovered_byte_ranges s d rs) p b
      \<longleftrightarrow> holds_byte (whole_range s d) p b \<and> (\<forall>old \<in> set rs. fr.at old p = None)"
    unfolding holds_byte_def uncovered_byte_ranges_def by (rule fr.carve_at)
  moreover have "(\<forall>old \<in> set rs. fr.at old p = None) \<longleftrightarrow> (\<forall>c. \<not> holds_byte rs p c)"
    by (auto simp: holds_byte_def) (metis not_None_eq)
  moreover have "holds_byte (whole_range s d) p b \<longleftrightarrow> seg_at s d p = Some b" by auto
  ultimately show ?thesis by blast
qed

lemma whole_range_ok: "fr.chain (whole_range s d)" "fr.filled (whole_range s d)"
  by (auto simp: fr.chain_def fr.filled_def)

lemma uncovered_inserted:
  assumes "separated rs" "fr.filled rs"
  shows "fr.chain (sort_key br_start (rs @ uncovered_byte_ranges s d rs))"
    and "fr.filled (rs @ uncovered_byte_ranges s d rs)"
proof -
  note ic = fr.insert_carved_chain [OF separated_chain [OF assms(1)] assms(2) whole_range_ok [of d s]]
  show "fr.chain (sort_key br_start (rs @ uncovered_byte_ranges s d rs))"
    unfolding uncovered_byte_ranges_def by (rule ic(1))
  show "fr.filled (rs @ uncovered_byte_ranges s d rs)"
    using ic(2) unfolding uncovered_byte_ranges_def fr.filled_def by simp
qed

lemma fragment_store_facts:
  assumes "fragment_store p st = (st', added)" "separated (fs_ranges st)" "fr.filled (fs_ranges st)"
  shows "separated (fs_ranges st')" "fr.filled (fs_ranges st')"
    and "holds_byte (fs_ranges st') q b \<longleftrightarrow> holds_byte (fs_ranges st) q b
      \<or> (seg_at (pp_fragment_offset p) (pp_network_payload p) q = Some b
         \<and> (\<forall>c. \<not> holds_byte (fs_ranges st) q c))"
    and "range_bytes (fs_ranges st') \<le> range_bytes (fs_ranges st) + added"
    and "added \<le> 2 * range_bytes (fs_ranges st')"
    and "fs_buffered_bytes st' = fs_buffered_bytes st + added"
proof -
  let ?a = "uncovered_byte_ranges (pp_fragment_offset p) (pp_network_payload p) (fs_ranges st)"
  let ?ts = "map (Pair False) (fs_ranges st) @ map (Pair True) ?a"
  obtain merged absorbed where m: "merge_adjacent_byte_ranges ?ts = (merged, absorbed)" by fastforce
  then have st': "fs_ranges st' = map snd merged" and added: "added = tagged_length (merged @ absorbed)"
    and "fs_buffered_bytes st' = fs_buffered_bytes st + added"
    using assms(1) by (auto simp: fragment_store_def Let_def)
  then show "fs_buffered_bytes st' = fs_buffered_bytes st + added" by simp
  have snds: "map snd ?ts = fs_ranges st @ ?a" by (simp add: comp_def)
  note f = merge_adjacent_facts [OF m, unfolded snds, OF uncovered_inserted [OF assms(2,3)]]
  have bound: "tagged_length absorbed \<le> range_bytes ?a"
    using merge_adjacent_tagged(2) [OF m] by (simp only: tagged_length_parts)
  show "separated (fs_ranges st')" "fr.filled (fs_ranges st')" using f by (auto simp: st')
  show "holds_byte (fs_ranges st') q b \<longleftrightarrow> holds_byte (fs_ranges st) q b
      \<or> (seg_at (pp_fragment_offset p) (pp_network_payload p) q = Some b
         \<and> (\<forall>c. \<not> holds_byte (fs_ranges st) q c))"
    using f by (simp add: st' uncovered_byte)
  show "range_bytes (fs_ranges st') \<le> range_bytes (fs_ranges st) + added"
    using f merge_adjacent_tagged(1) [OF m] by (simp add: st' tagged_length_parts added del: tagged_length_simps)
  show "added \<le> 2 * range_bytes (fs_ranges st')"
    using f bound tagged_length_le [of merged] by (simp add: st' added)
qed

section \<open>The budgets\<close>

interpretation fb: nonneg_store fr_states fr_buffered_bytes "\<lambda>_ s. int (fs_buffered_bytes s)" fragment_discard
  by unfold_locales (auto simp: fragment_discard_def od_pop_absent split: option.splits)

interpretation fn: nonneg_store fr_states fr_buffered_ranges "\<lambda>_ s. int (length (fs_ranges s))" fragment_discard
  by unfold_locales (auto simp: fragment_discard_def od_pop_absent split: option.splits)

interpretation fp: nonneg_store fr_states fr_buffered_provenance_entries
    "\<lambda>_ s. int (length (fs_source_packet_ids s))" fragment_discard
  by unfold_locales (auto simp: fragment_discard_def od_pop_absent split: option.splits)

definition frag_exact :: "FragmentReassembler \<Rightarrow> bool" where
  "frag_exact r \<longleftrightarrow> fb.exact r \<and> fn.exact r \<and> fp.exact r"

type_synonym frag_limits = "int \<times> int \<times> int \<times> int \<times> int \<times> int \<times> int"

definition frag_limits_of :: "FragmentReassembler \<Rightarrow> frag_limits" where
  "frag_limits_of r = (fr_idle_ns r, fr_max_datagrams r, fr_max_datagram_bytes r, fr_max_buffered_bytes r,
     fr_max_ranges_per_datagram r, fr_max_buffered_ranges r, fr_max_buffered_provenance_entries r)"

definition limits_positive :: "FragmentReassembler \<Rightarrow> bool" where
  "limits_positive r \<longleftrightarrow> fr_max_datagrams r \<ge> 1 \<and> fr_max_datagram_bytes r \<ge> 1
     \<and> fr_max_buffered_bytes r \<ge> 1 \<and> fr_max_ranges_per_datagram r \<ge> 1
     \<and> fr_max_buffered_ranges r \<ge> 1 \<and> fr_max_buffered_provenance_entries r \<ge> 1"

text \<open>What a state promises: its ranges are apart, not empty, inside the datagram limit, and charged
  for at least the bytes they hold.\<close>

definition frag_state_ok :: "int \<Rightarrow> FragmentState \<Rightarrow> bool" where
  "frag_state_ok max_bytes s \<longleftrightarrow> separated (fs_ranges s) \<and> fr.filled (fs_ranges s)
     \<and> (\<forall>p b. holds_byte (fs_ranges s) p b \<longrightarrow> 0 \<le> p \<and> p < max_bytes)
     \<and> range_bytes (fs_ranges s) \<le> fs_buffered_bytes s \<and> distinct (fs_source_packet_ids s)"

definition frag_core :: "FragmentReassembler \<Rightarrow> bool" where
  "frag_core r \<longleftrightarrow> limits_positive r \<and> frag_exact r
     \<and> (\<forall>(k, s) \<in> set (fr_states r). frag_state_ok (fr_max_datagram_bytes r) s)"

definition frag_inv :: "FragmentReassembler \<Rightarrow> bool" where
  "frag_inv r \<longleftrightarrow> frag_core r \<and> \<not> fragment_over_limits r
     \<and> (\<forall>(k, s) \<in> set (fr_states r). int (length (fs_ranges s)) \<le> fr_max_ranges_per_datagram r)"

lemma discard_limits [simp]: "frag_limits_of (fragment_discard k r) = frag_limits_of r"
  by (auto simp: fragment_discard_def frag_limits_of_def split: option.splits)

lemma update_limits [simp]:
  "frag_limits_of (r\<lparr>fr_malformed_fragments := n\<rparr>) = frag_limits_of r"
  "frag_limits_of (r\<lparr>fr_overlap_conflicts := n\<rparr>) = frag_limits_of r"
  "frag_limits_of (r\<lparr>fr_evicted_datagrams := n\<rparr>) = frag_limits_of r"
  "frag_limits_of (r\<lparr>fr_expired_datagrams := n\<rparr>) = frag_limits_of r"
  by (simp_all add: frag_limits_of_def)

lemma evict_one_limits [simp]: "frag_limits_of (fragment_evict_one k r) = frag_limits_of r"
  using discard_limits [of k r] by (simp add: fragment_evict_one_def Let_def frag_limits_of_def)

lemma limits_positive_cong: "frag_limits_of r = frag_limits_of r' \<Longrightarrow> limits_positive r = limits_positive r'"
  by (simp add: frag_limits_of_def limits_positive_def)

lemma frag_exact_ok: "frag_exact r \<Longrightarrow> od_ok (fr_states r)"
  by (simp add: frag_exact_def fb.exact_def)

lemma frag_exact_discard: "frag_exact r \<Longrightarrow> frag_exact (fragment_discard k r)"
  by (simp add: frag_exact_def fb.exact_discard fn.exact_discard fp.exact_discard)

lemma frag_exact_frame:
  "frag_exact r \<Longrightarrow> fr_states r' = fr_states r \<Longrightarrow> fr_buffered_bytes r' = fr_buffered_bytes r \<Longrightarrow>
   fr_buffered_ranges r' = fr_buffered_ranges r \<Longrightarrow>
   fr_buffered_provenance_entries r' = fr_buffered_provenance_entries r \<Longrightarrow> frag_exact r'"
  by (simp add: frag_exact_def fb.exact_def fn.exact_def fp.exact_def)

lemma frag_exact_evict: "frag_exact r \<Longrightarrow> frag_exact (fragment_evict_one k r)"
  by (rule frag_exact_frame [OF frag_exact_discard]) (simp_all add: fragment_evict_one_def Let_def)

lemma frag_core_shrink:
  assumes "frag_core r" "frag_exact r'" "frag_limits_of r' = frag_limits_of r"
    "set (fr_states r') \<subseteq> set (fr_states r)"
  shows "frag_core r'"
  using assms limits_positive_cong [of r r'] by (auto simp: frag_core_def frag_limits_of_def)

lemma frag_core_discard: "frag_core r \<Longrightarrow> frag_core (fragment_discard k r)"
  by (rule frag_core_shrink) (auto simp: frag_core_def frag_exact_discard set_od_pop)

lemma frag_core_evict: "frag_core r \<Longrightarrow> frag_core (fragment_evict_one k r)"
  by (rule frag_core_shrink) (auto simp: frag_core_def frag_exact_evict set_od_pop)

text \<open>Exact counters are determined by the table, so a smaller table is never over the limits.\<close>

lemma over_limits_exact:
  assumes "frag_exact r"
  shows "fragment_over_limits r \<longleftrightarrow>
    int (length (fr_states r)) > fr_max_datagrams r
    \<or> od_sum (\<lambda>_ s. int (fs_buffered_bytes s)) (fr_states r) > fr_max_buffered_bytes r
    \<or> od_sum (\<lambda>_ s. int (length (fs_ranges s))) (fr_states r) > fr_max_buffered_ranges r
    \<or> od_sum (\<lambda>_ s. int (length (fs_source_packet_ids s))) (fr_states r) > fr_max_buffered_provenance_entries r"
  using assms by (simp add: fragment_over_limits_def frag_exact_def fb.exact_def fn.exact_def fp.exact_def)

lemma od_sum_pop_le: "od_ok d \<Longrightarrow> (\<And>k v. 0 \<le> w k v) \<Longrightarrow> od_sum w (od_pop k d) \<le> od_sum w d"
  by (auto simp: od_sum_pop split: option.splits)

lemma length_od_pop_le: "length (od_pop k d) \<le> length d"
  by (simp add: od_pop_def)

lemma within_after_pop:
  assumes "frag_exact r" "\<not> fragment_over_limits r" "frag_exact r'"
    "frag_limits_of r' = frag_limits_of r" "fr_states r' = od_pop k (fr_states r)"
  shows "\<not> fragment_over_limits r'"
proof -
  have "od_sum w (fr_states r') \<le> od_sum w (fr_states r)" if "\<And>k v. 0 \<le> w k v" for w
    unfolding assms(5) using that frag_exact_ok [OF assms(1)] by (rule od_sum_pop_le [rotated])
  from this [of "\<lambda>_ s. int (fs_buffered_bytes s)"] this [of "\<lambda>_ s. int (length (fs_ranges s))"]
    this [of "\<lambda>_ s. int (length (fs_source_packet_ids s))"]
  show ?thesis using assms(2,4) length_od_pop_le [of k "fr_states r"]
    unfolding over_limits_exact [OF assms(1)] over_limits_exact [OF assms(3)]
    by (auto simp: frag_limits_of_def assms(5))
qed

text \<open>Dropping one datagram keeps the invariant, whatever else was written to its state before.\<close>

lemma frag_inv_popped:
  assumes "frag_inv r" "frag_exact r'" "frag_limits_of r' = frag_limits_of r"
    "fr_states r' = od_pop k (fr_states r)"
  shows "frag_inv r'"
proof -
  have sub: "set (fr_states r') \<subseteq> set (fr_states r)" using assms(4) by (auto simp: set_od_pop)
  from assms(1) have "frag_core r" "frag_exact r" "\<not> fragment_over_limits r"
    by (auto simp: frag_inv_def frag_core_def)
  then have "frag_core r'" "\<not> fragment_over_limits r'"
    using frag_core_shrink [OF _ assms(2,3) sub] within_after_pop [OF _ _ assms(2,3,4)] by auto
  then show ?thesis using assms(1,3) sub by (auto simp: frag_inv_def frag_limits_of_def)
qed

interpretation fe: eviction_loop fr_states fragment_over_limits fragment_evict_one
    fragment_evict_to_limits frag_core
proof
  show "fragment_evict_to_limits s = (if fragment_over_limits s
      then (case fr_states s of [] \<Rightarrow> Inl StopIteration
            | e # _ \<Rightarrow> fragment_evict_to_limits (fragment_evict_one (fst e) s)) else Inr s)" for s
    by (rule fragment_evict_to_limits.simps)
  show "frag_core s \<Longrightarrow> fr_states s = [] \<Longrightarrow> \<not> fragment_over_limits s" for s
    by (auto simp: frag_core_def over_limits_exact limits_positive_def)
  show "frag_core s \<Longrightarrow> frag_core (fragment_evict_one k s)" for s k by (rule frag_core_evict)
qed (auto simp: frag_core_def frag_exact_ok)

lemma evict_to_limits_keeps:
  "fragment_evict_to_limits r = Inr r' \<Longrightarrow> frag_limits_of r' = frag_limits_of r"
proof (induction r arbitrary: r' rule: fragment_evict_to_limits.induct)
  case (1 r)
  then show ?case
    by (subst (asm) (2) fragment_evict_to_limits.simps) (auto split: if_split_asm list.splits)
qed

lemmas frag_exact_defs = frag_exact_def fb.exact_def fn.exact_def fp.exact_def

lemma fragment_touch_simps [simp]:
  "fs_ranges (fragment_touch now p s) = fs_ranges s"
  "fs_buffered_bytes (fragment_touch now p s) = fs_buffered_bytes s"
  "fs_source_packet_ids (fragment_touch now p s) = fs_source_packet_ids s"
  "fs_final_end (fragment_touch now p s) = fs_final_end s"
  by (simp_all add: fragment_touch_def)

lemma fragment_new_state_simps [simp]:
  "fs_ranges (fragment_new_state now p) = []" "fs_buffered_bytes (fragment_new_state now p) = 0"
  "fs_source_packet_ids (fragment_new_state now p) = []" "fs_final_end (fragment_new_state now p) = None"
  "fs_first_fragment (fragment_new_state now p) = None" "\<not> fs_truncated (fragment_new_state now p)"
  by (simp_all add: fragment_new_state_def)

text \<open>The table with the datagram's state rewritten, its budgets unchanged.\<close>

definition opened :: "FragmentKey \<Rightarrow> FragmentState \<Rightarrow> FragmentReassembler \<Rightarrow> FragmentReassembler \<Rightarrow> bool" where
  "opened key st r r1 \<longleftrightarrow> frag_exact r1 \<and> frag_limits_of r1 = frag_limits_of r
     \<and> od_get (fr_states r1) key = Some st
     \<and> od_pop key (fr_states r1) = od_pop key (fr_states r)
     \<and> frag_state_ok (fr_max_datagram_bytes r) st"

lemma frag_state_ok_new: "frag_state_ok m (fragment_touch now p (fragment_new_state now p))"
  by (simp add: frag_state_ok_def separated_def fr.filled_def)

lemma frag_state_ok_touch: "frag_state_ok m s \<Longrightarrow> frag_state_ok m (fragment_touch now p s)"
  by (simp add: frag_state_ok_def)

lemma fragment_open_opened:
  assumes "frag_core r" "fragment_open key now p r = (st, r1)"
  shows "opened key st r r1"
proof (cases "od_get (fr_states r) key")
  case None
  with assms show ?thesis
    by (auto simp: opened_def fragment_open_def Let_def frag_core_def frag_exact_defs od_sum_put
        frag_limits_of_def frag_state_ok_new)
next
  case (Some s)
  have ok: "od_ok (fr_states r)" using assms(1) by (simp add: frag_core_def frag_exact_ok)
  have "frag_state_ok (fr_max_datagram_bytes r) s"
    using assms(1) od_get_in_set [OF Some] by (auto simp: frag_core_def)
  with assms Some ok show ?thesis
    by (auto simp: opened_def fragment_open_def Let_def frag_core_def frag_exact_defs od_sum_put od_sum_move
        frag_limits_of_def frag_state_ok_touch)
qed

lemma opened_final_end:
  assumes "opened key st r r1"
  shows "opened key (st\<lparr>fs_final_end := e\<rparr>) r (r1\<lparr>fr_states := od_put key (st\<lparr>fs_final_end := e\<rparr>) (fr_states r1)\<rparr>)"
  using assms
  by (auto simp: opened_def frag_exact_defs od_sum_put frag_limits_of_def frag_state_ok_def)

lemma opened_states:
  "opened key st r r1 \<Longrightarrow> set (fr_states r1) = insert (key, st) (set (od_pop key (fr_states r)))"
  using set_od_get [of "fr_states r1" key st] by (auto simp: opened_def frag_exact_ok)

text \<open>Dropping the datagram after any such rewrite is dropping it from the table before.\<close>

lemma opened_discard_inv:
  assumes "frag_inv r" "opened key st r r1" "fr_states r2 = fr_states r1"
    "fr_buffered_bytes r2 = fr_buffered_bytes r1" "fr_buffered_ranges r2 = fr_buffered_ranges r1"
    "fr_buffered_provenance_entries r2 = fr_buffered_provenance_entries r1"
    "frag_limits_of r2 = frag_limits_of r1"
  shows "frag_inv (fragment_discard key r2)"
proof (rule frag_inv_popped [OF assms(1)])
  show "frag_exact (fragment_discard key r2)"
    using assms by (intro frag_exact_discard frag_exact_frame [of r1 r2]) (auto simp: opened_def)
qed (use assms in \<open>auto simp: opened_def\<close>)

lemma fragment_store_keeps:
  assumes "fragment_store p st = (st', added)"
  shows "fs_first_fragment st' = fs_first_fragment st" "fs_final_end st' = fs_final_end st"
    "fs_truncated st' = fs_truncated st"
    "distinct (fs_source_packet_ids st) \<Longrightarrow> distinct (fs_source_packet_ids st')"
  using assms by (auto simp: fragment_store_def Let_def distinct_dedup_onto split: prod.splits)

lemma fragment_store_ok:
  assumes "fragment_store p st = (st', added)" "frag_state_ok (fr_max_datagram_bytes r) st"
    "\<not> malformed_fragment r p"
  shows "frag_state_ok (fr_max_datagram_bytes r) st'"
proof -
  have s: "separated (fs_ranges st)" "fr.filled (fs_ranges st)" using assms(2) by (auto simp: frag_state_ok_def)
  note f = fragment_store_facts [OF assms(1) s]
  have "0 \<le> q \<and> q < fr_max_datagram_bytes r" if "holds_byte (fs_ranges st') q b" for q b
  proof -
    have "seg_at (pp_fragment_offset p) (pp_network_payload p) q = Some b \<longrightarrow> ?thesis"
      using assms(3) by (auto simp: malformed_fragment_def seg_at_def)
    with that show ?thesis using f(3) assms(2) by (auto simp: frag_state_ok_def)
  qed
  with f assms(1,2) show ?thesis
    by (auto simp: frag_state_ok_def fragment_store_keeps(4) simp del: f(3))
qed

lemma fragment_account_core:
  assumes "frag_core r" "opened key st r r2" "frag_state_ok (fr_max_datagram_bytes r) st'"
    "fs_buffered_bytes st' = fs_buffered_bytes st + added"
  shows "opened key st' r (fragment_account key st st' added r2)"
    and "frag_core (fragment_account key st st' added r2)"
proof -
  let ?r3 = "fragment_account key st st' added r2"
  show o: "opened key st' r ?r3"
    using assms by (auto simp: opened_def fragment_account_def Let_def frag_exact_defs od_sum_put
        frag_limits_of_def)
  show "frag_core ?r3"
    using assms(1,3) o opened_states [OF o] limits_positive_cong [of ?r3 r]
    by (auto simp: frag_core_def opened_def frag_limits_of_def set_od_pop)
qed

subsection \<open>One fragment\<close>

text \<open>The state of a datagram once the fragment is recorded, before any limit is checked.\<close>

definition frag_opened :: "int \<Rightarrow> ParsedPacket \<Rightarrow> FragmentState option \<Rightarrow> FragmentState" where
  "frag_opened now p e =
     (let st = fragment_touch now p (case e of None \<Rightarrow> fragment_new_state now p | Some s \<Rightarrow> s) in
      if pp_more_fragments p then st
      else st\<lparr>fs_final_end := Some (pp_fragment_offset p + int (length (pp_network_payload p)))\<rparr>)"

definition frag_next :: "int \<Rightarrow> ParsedPacket \<Rightarrow> FragmentState option \<Rightarrow> FragmentState" where
  "frag_next now p e = fst (fragment_store p (frag_opened now p e))"

text \<open>The two ambiguities that drop a datagram: a second, different end; different bytes at the same
  position.\<close>

definition frag_ambiguous :: "ParsedPacket \<Rightarrow> FragmentState option \<Rightarrow> bool" where
  "frag_ambiguous p e \<longleftrightarrow> (case e of None \<Rightarrow> False | Some s \<Rightarrow>
     (\<not> pp_more_fragments p \<and> fs_final_end s \<noteq> None
        \<and> fs_final_end s \<noteq> Some (pp_fragment_offset p + int (length (pp_network_payload p))))
     \<or> has_conflicting_overlap (pp_fragment_offset p) (pp_network_payload p) (fs_ranges s))"

lemma frag_opened_simps [simp]:
  "fs_ranges (frag_opened now p e) = (case e of None \<Rightarrow> [] | Some s \<Rightarrow> fs_ranges s)"
  by (simp add: frag_opened_def Let_def split: option.splits)

lemma has_conflicting_overlap_Nil [simp]: "\<not> has_conflicting_overlap s d []"
  by (simp add: has_conflicting_overlap_def)

lemma fragment_open_fst: "fst (fragment_open key now p r) =
    fragment_touch now p (case od_get (fr_states r) key of None \<Rightarrow> fragment_new_state now p | Some s \<Rightarrow> s)"
  by (simp add: fragment_open_def Let_def split: option.splits)

text \<open>What \<open>process\<close> does with a fragment that is well-formed and not ambiguous.\<close>

definition frag_continue ::
  "FragmentKey \<Rightarrow> FragmentReassembler \<Rightarrow> FragmentState \<Rightarrow> (FragmentReassembler \<times> ParsedPacket option) result" where
  "frag_continue key r3 st3 =
     (if int (length (fs_ranges st3)) > fr_max_ranges_per_datagram r3 then Inr (fragment_evict_one key r3, None)
      else bindE (fragment_evict_to_limits r3) (\<lambda>r4.
        if od_get (fr_states r4) key = None then Inr (r4, None) else fragment_finish key st3 r4))"

lemma fragment_process_cases:
  assumes inv: "frag_inv r" and frag: "is_fragment p" and key: "fragment_key p = Inr key"
  obtains
    (malformed) "malformed_fragment r p"
      "fragment_process r now p = Inr (fragment_discard key
         (r\<lparr>fr_malformed_fragments := fr_malformed_fragments r + 1\<rparr>), None)"
  | (ambiguous) st r2 where "\<not> malformed_fragment r p" "frag_ambiguous p (od_get (fr_states r) key)"
      "opened key st r r2"
      "fragment_process r now p = Inr (fragment_discard key
         (r2\<lparr>fr_overlap_conflicts := fr_overlap_conflicts r + 1\<rparr>), None)"
  | (stored) r3 where "\<not> malformed_fragment r p" "\<not> frag_ambiguous p (od_get (fr_states r) key)"
      "opened key (frag_next now p (od_get (fr_states r) key)) r r3" "frag_core r3"
      "fragment_process r now p = frag_continue key r3 (frag_next now p (od_get (fr_states r) key))"
proof (cases "malformed_fragment r p")
  case True
  then show ?thesis using malformed frag key by (simp add: fragment_process_def)
next
  case False
  have core: "frag_core r" using inv by (simp add: frag_inv_def)
  let ?e = "od_get (fr_states r) key"
  obtain st1 r1 where o: "fragment_open key now p r = (st1, r1)" by fastforce
  note op1 = fragment_open_opened [OF core o]
  define st2 where "st2 = frag_opened now p ?e"
  define r2 where "r2 = r1\<lparr>fr_states := od_put key st2 (fr_states r1)\<rparr>"
  have st1: "st1 = fragment_touch now p (case ?e of None \<Rightarrow> fragment_new_state now p | Some s \<Rightarrow> s)"
    using fragment_open_fst [of key now p r] o by simp
  have st2: "st2 = (if pp_more_fragments p then st1
      else st1\<lparr>fs_final_end := Some (pp_fragment_offset p + int (length (pp_network_payload p)))\<rparr>)"
    by (simp add: st2_def frag_opened_def st1 Let_def)
  have same: "st1\<lparr>fs_final_end := fs_final_end st1\<rparr> = st1" by simp
  have op2: "opened key st2 r r2"
    using opened_final_end [OF op1, of "fs_final_end st2"] by (auto simp: st2 r2_def split: if_splits)
  obtain st3 added where s3: "fragment_store p st2 = (st3, added)" by fastforce
  define r3 where "r3 = fragment_account key st2 st3 added r2"
  have st3: "st3 = frag_next now p ?e" using s3 by (simp add: frag_next_def st2_def)
  have ok2: "frag_state_ok (fr_max_datagram_bytes r) st2" using op2 by (simp add: opened_def)
  note ok3 = fragment_store_ok [OF s3 ok2 False]
  have b: "fs_buffered_bytes st3 = fs_buffered_bytes st2 + added"
    using fragment_store_facts(6) [OF s3] ok2 by (simp add: frag_state_ok_def)
  note acc = fragment_account_core [OF core op2 ok3 b, folded r3_def]
  have lim: "fr_max_ranges_per_datagram r3 = fr_max_ranges_per_datagram r"
    using acc(1) by (simp add: opened_def frag_limits_of_def)
  let ?fin = "pp_fragment_offset p + int (length (pp_network_payload p))"
  have ends: "fs_final_end st1 = (case ?e of None \<Rightarrow> None | Some s \<Rightarrow> fs_final_end s)"
    and rngs: "fs_ranges st2 = (case ?e of None \<Rightarrow> [] | Some s \<Rightarrow> fs_ranges s)"
    by (simp_all add: st1 st2_def split: option.splits)
  let ?c1 = "\<not> pp_more_fragments p \<and> fs_final_end st1 \<noteq> None \<and> fs_final_end st1 \<noteq> Some ?fin"
  let ?c2 = "has_conflicting_overlap (pp_fragment_offset p) (pp_network_payload p) (fs_ranges st2)"
  have amb: "frag_ambiguous p ?e \<longleftrightarrow> ?c1 \<or> ?c2"
    unfolding frag_ambiguous_def ends rngs by (auto split: option.splits)
  have eq: "fragment_process r now p =
      (if ?c1 then Inr (fragment_discard key (r1\<lparr>fr_overlap_conflicts := fr_overlap_conflicts r + 1\<rparr>), None)
       else if ?c2 then Inr (fragment_discard key (r2\<lparr>fr_overlap_conflicts := fr_overlap_conflicts r + 1\<rparr>), None)
       else frag_continue key r3 st3)"
    unfolding fragment_process_def frag_continue_def lim
    by (simp only: frag False key o st2 [symmetric] r2_def [symmetric] s3 r3_def [symmetric] Let_def
        bindE_simps prod.case simp_thms if_False if_True)
  show ?thesis
  proof (cases "?c1 \<or> ?c2")
    case True
    then show ?thesis using ambiguous [OF False _ op1] ambiguous [OF False _ op2] amb eq
      by (cases ?c1) (simp_all only: simp_thms if_False if_True)
  next
    case no: False
    then have n: "\<not> ?c1" "\<not> ?c2" by blast+
    have "fragment_process r now p = frag_continue key r3 st3"
      unfolding eq if_not_P [OF n(1)] if_not_P [OF n(2)] by (rule refl)
    then show ?thesis
      using stored [OF False _ acc(1) [unfolded st3] acc(2)] no unfolding amb st3 [symmetric] by blast
  qed
qed

lemma fragment_deliver_total: "\<exists>q. fragment_deliver c = Inr q"
  using normalize_total [of c] parse_transport_total by (auto simp: fragment_deliver_def)

text \<open>The datagram a complete state stands for.\<close>

definition frag_complete :: "FragmentState \<Rightarrow> ParsedPacket \<Rightarrow> bytes \<Rightarrow> bool" where
  "frag_complete st base payload \<longleftrightarrow> fs_first_fragment st = Some base \<and> \<not> fs_truncated st
     \<and> (\<exists>e. fs_final_end st = Some e \<and> assemble_ranges e (fs_ranges st) 0 [] = Assembled payload)"

lemma fragment_finish_cases:
  obtains (kept) "fragment_finish key st r = Inr (r, None)" "\<And>base payload. \<not> frag_complete st base payload"
  | (past_end) e where "fragment_finish key st r = Inr (fragment_discard key
        (r\<lparr>fr_overlap_conflicts := fr_overlap_conflicts r + 1\<rparr>), None)"
      "fs_final_end st = Some e" "assemble_ranges e (fs_ranges st) 0 [] = PastEnd"
  | (delivered) base payload q where "frag_complete st base payload"
      "fragment_deliver (fragment_completed base st payload) = Inr q"
      "fragment_finish key st r = Inr (fragment_discard key r, Some q)"
proof (cases "fs_first_fragment st = None \<or> fs_final_end st = None \<or> fs_truncated st")
  case True
  then show ?thesis
    using kept by (auto simp: fragment_finish_def frag_complete_def split: option.splits)
next
  case False
  then obtain base e where be: "fs_first_fragment st = Some base" "fs_final_end st = Some e"
    "\<not> fs_truncated st" by auto
  show ?thesis
  proof (cases "assemble_ranges e (fs_ranges st) 0 []")
    case (Assembled payload)
    obtain q where "fragment_deliver (fragment_completed base st payload) = Inr q"
      using fragment_deliver_total by blast
    with be Assembled show ?thesis
      by (intro delivered [of base payload q]) (auto simp: frag_complete_def fragment_finish_def)
  qed (use be kept past_end in \<open>auto simp: frag_complete_def fragment_finish_def\<close>)
qed

text \<open>One fragment, in full: \<open>process\<close> returns, keeps the invariant and the other datagrams, and what
  it keeps or delivers for this one is the recorded state.\<close>

lemma fragment_process_step:
  assumes inv: "frag_inv r" and frag: "is_fragment p" and key: "fragment_key p = Inr key"
  defines "e \<equiv> od_get (fr_states r) key"
  shows "\<exists>r' out. fragment_process r now p = Inr (r', out) \<and> frag_inv r' \<and> frag_limits_of r' = frag_limits_of r
    \<and> (\<forall>k s. k \<noteq> key \<longrightarrow> od_get (fr_states r') k = Some s \<longrightarrow> od_get (fr_states r) k = Some s)
    \<and> (\<forall>s. od_get (fr_states r') key = Some s \<longrightarrow> s = frag_next now p e)
    \<and> (out \<noteq> None \<or> od_get (fr_states r') key \<noteq> None \<longrightarrow> \<not> malformed_fragment r p \<and> \<not> frag_ambiguous p e)
    \<and> (\<forall>q. out = Some q \<longrightarrow> od_get (fr_states r') key = None \<and> (\<exists>base payload.
         frag_complete (frag_next now p e) base payload
         \<and> fragment_deliver (fragment_completed base (frag_next now p e) payload) = Inr q))"
  (is "\<exists>r' out. ?P r' out")
proof -
  have pop: "?P r' None"
    if "fragment_process r now p = Inr (r', None)" "frag_inv r'" "frag_limits_of r' = frag_limits_of r"
      "fr_states r' = od_pop key (fr_states r)" for r'
    using that by (auto simp: e_def split: if_splits)
  show ?thesis
  proof (cases rule: fragment_process_cases [OF inv frag key, of now])
    case 1
    let ?r = "fragment_discard key (r\<lparr>fr_malformed_fragments := fr_malformed_fragments r + 1\<rparr>)"
    have ex: "frag_exact r" using inv by (simp add: frag_inv_def frag_core_def)
    have lim: "frag_limits_of ?r = frag_limits_of r" by simp
    have "frag_inv ?r"
      by (rule frag_inv_popped [OF inv _ lim])
        (auto intro!: frag_exact_discard frag_exact_frame [OF ex])
    then have "?P ?r None" by (intro pop 1(2) lim) simp_all
    then show ?thesis by blast
  next
    case (2 st r2)
    let ?r = "fragment_discard key (r2\<lparr>fr_overlap_conflicts := fr_overlap_conflicts r + 1\<rparr>)"
    have lim: "frag_limits_of ?r = frag_limits_of r" using 2(3) by (simp add: opened_def)
    have "frag_inv ?r"
      by (rule opened_discard_inv [OF inv 2(3)]) simp_all
    then have "?P ?r None" using 2(3) by (intro pop 2(4) lim) (simp_all add: opened_def)
    then show ?thesis by blast
  next
    case (3 r3)
    let ?st = "frag_next now p e"
    have op: "opened key ?st r r3" and core: "frag_core r3" using 3(3,4) by (auto simp: e_def)
    then have lim3: "frag_limits_of r3 = frag_limits_of r" by (simp add: opened_def)
    show ?thesis
    proof (cases "int (length (fs_ranges ?st)) > fr_max_ranges_per_datagram r3")
      case True
      have "?P (fragment_evict_one key r3) None"
      proof (intro pop)
        show "frag_inv (fragment_evict_one key r3)"
          using op by (intro frag_inv_popped [OF inv]) (auto simp: opened_def frag_exact_evict)
      qed (use True 3(5) op in \<open>auto simp: frag_continue_def e_def opened_def\<close>)
      then show ?thesis by blast
    next
      case False
      obtain r4 n where r4: "fragment_evict_to_limits r3 = Inr r4" "frag_core r4"
        "\<not> fragment_over_limits r4" "fr_states r4 = drop n (fr_states r3)"
        using fe.loop_total [OF core] by blast
      have lim4: "frag_limits_of r4 = frag_limits_of r" using evict_to_limits_keeps [OF r4(1)] lim3 by simp
      have sub: "set (fr_states r4) \<subseteq> insert (key, ?st) (set (od_pop key (fr_states r)))"
        using set_drop_subset [of n "fr_states r3"] opened_states [OF op] r4(4) by auto
      have inv4: "frag_inv r4"
        using r4(2,3) sub inv False lim3 lim4 by (auto simp: frag_inv_def frag_limits_of_def set_od_pop)
      have ok4: "od_ok (fr_states r4)" using r4(2) by (simp add: frag_core_def frag_exact_ok)
      have okr: "od_ok (fr_states r)" using inv by (simp add: frag_inv_def frag_core_def frag_exact_ok)
      have others: "od_get (fr_states r4) k = Some s \<Longrightarrow> k \<noteq> key \<Longrightarrow> od_get (fr_states r) k = Some s"
        and this4: "od_get (fr_states r4) key = Some s \<Longrightarrow> s = ?st" for k s
        using sub ok4 okr by (auto simp: od_get_iff set_od_pop)
      note cont = 3(5) [folded e_def, unfolded frag_continue_def if_not_P [OF False] r4(1) bindE_simps]
      show ?thesis
      proof (cases "od_get (fr_states r4) key = None")
        case True
        then have "?P r4 None" using cont inv4 lim4 others by auto
        then show ?thesis by blast
      next
        case present: False
        note cont' = cont [unfolded if_not_P [OF present]]
        have dis: "frag_inv (fragment_discard key r5)" if "frag_exact r5" "fr_states r5 = fr_states r4"
          "frag_limits_of r5 = frag_limits_of r4" for r5
          using that by (intro frag_inv_popped [OF inv4]) (auto simp: frag_exact_discard)
        have ex4: "frag_exact r4" using r4(2) by (simp add: frag_core_def)
        show ?thesis
        proof (cases rule: fragment_finish_cases [of key ?st r4])
          case kept
          then have "?P r4 None" using kept cont' inv4 lim4 others this4 3(1,2) by (auto simp: e_def)
          then show ?thesis by blast
        next
          case (past_end _)
          let ?r = "r4\<lparr>fr_overlap_conflicts := fr_overlap_conflicts r4 + 1\<rparr>"
          have "frag_inv (fragment_discard key ?r)" by (intro dis frag_exact_frame [OF ex4]) simp_all
          then have "?P (fragment_discard key ?r) None" using past_end cont' lim4 others by (auto split: if_splits)
          then show ?thesis by blast
        next
          case (delivered base payload q)
          have "frag_inv (fragment_discard key r4)" by (intro dis ex4) simp_all
          then have "?P (fragment_discard key r4) (Some q)"
            using delivered cont' lim4 others \<open>\<not> malformed_fragment r p\<close> \<open>\<not> frag_ambiguous p _\<close>
            by (auto simp: e_def split: if_splits)
          then show ?thesis by blast
        qed
      qed
    qed
  qed
qed

section \<open>Runs\<close>

text \<open>A sequence of calls, with what each \<open>process\<close> returned. The numbers are the clocks.\<close>

datatype frag_op = FragProcess int ParsedPacket | FragExpire int bool

fun frag_exec ::
  "FragmentReassembler \<Rightarrow> frag_op list \<Rightarrow> (FragmentReassembler \<times> ParsedPacket option list) result" where
  "frag_exec r [] = Inr (r, [])"
| "frag_exec r (FragProcess now p # ops) =
     bindE (fragment_process r now p) (\<lambda>(r1, out).
     bindE (frag_exec r1 ops) (\<lambda>(r2, outs). Inr (r2, out # outs)))"
| "frag_exec r (FragExpire now explicit_clock # ops) = frag_exec (fst (fragment_expire r now explicit_clock)) ops"

fun fragments_of :: "frag_op list \<Rightarrow> ParsedPacket list" where
  "fragments_of [] = []"
| "fragments_of (FragProcess now p # ops) = p # fragments_of ops"
| "fragments_of (FragExpire now c # ops) = fragments_of ops"

lemma fold_discard:
  assumes "frag_inv r"
  shows "frag_inv (fold fragment_discard ks r) \<and> frag_limits_of (fold fragment_discard ks r) = frag_limits_of r
    \<and> (\<forall>k s. od_get (fr_states (fold fragment_discard ks r)) k = Some s \<longrightarrow> od_get (fr_states r) k = Some s)"
  using assms
proof (induction ks arbitrary: r)
  case (Cons k ks)
  have "frag_exact r" using Cons.prems by (simp add: frag_inv_def frag_core_def)
  then have "frag_inv (fragment_discard k r)"
    by (intro frag_inv_popped [OF Cons.prems]) (auto simp: frag_exact_discard)
  from Cons.IH [OF this] show ?case by (auto split: if_splits) (metis option.discI)
qed simp

lemma frag_inv_frame:
  "frag_inv r \<Longrightarrow> frag_inv (r\<lparr>fr_expired_datagrams := n\<rparr>)"
  by (simp add: frag_inv_def frag_core_def frag_exact_defs limits_positive_def fragment_over_limits_def)

lemma fragment_expire_facts:
  assumes "frag_inv r"
  shows "frag_inv (fst (fragment_expire r now c))"
    and "frag_limits_of (fst (fragment_expire r now c)) = frag_limits_of r"
    and "od_get (fr_states (fst (fragment_expire r now c))) k = Some s \<Longrightarrow> od_get (fr_states r) k = Some s"
  using fold_discard [OF assms] by (auto simp: fragment_expire_def Let_def frag_inv_frame)

lemma fragment_init_facts:
  assumes "fragment_init ci idl tm md mdb mbb mrd mbr mp mb = Inr r"
  shows "frag_inv r" "fr_states r = []"
proof -
  show n: "fr_states r = []" using assms by (auto simp: fragment_init_def Let_def split: if_splits)
  have c: "frag_core r" using assms
    by (auto simp: fragment_init_def Let_def frag_core_def frag_exact_defs limits_positive_def split: if_splits)
  then show "frag_inv r" using fe.empty_within [OF c n] n by (simp add: frag_inv_def)
qed

lemma fragment_key_fragment: "is_fragment p \<Longrightarrow> \<exists>key. fragment_key p = Inr key"
  by (auto simp: is_fragment_def fragment_key_def)

lemma fragment_process_passes: "\<not> is_fragment p \<Longrightarrow> fragment_process r now p = Inr (r, Some p)"
  by (simp add: fragment_process_def)

lemma fragment_process_total:
  assumes "frag_inv r"
  shows "\<exists>r' out. fragment_process r now p = Inr (r', out) \<and> frag_inv r' \<and> frag_limits_of r' = frag_limits_of r"
proof (cases "is_fragment p")
  case True
  then obtain key where "fragment_key p = Inr key" using fragment_key_fragment by blast
  from fragment_process_step [OF assms True this, of now] show ?thesis by blast
qed (use assms in \<open>simp add: fragment_process_passes\<close>)

lemma frag_exec_total:
  "frag_inv r \<Longrightarrow> \<exists>r' outs. frag_exec r ops = Inr (r', outs) \<and> frag_inv r' \<and> frag_limits_of r' = frag_limits_of r
     \<and> length outs = length (fragments_of ops)"
proof (induction ops arbitrary: r)
  case (Cons op ops)
  show ?case
  proof (cases op)
    case (FragProcess now p)
    obtain r1 out where 1: "fragment_process r now p = Inr (r1, out)" "frag_inv r1"
      "frag_limits_of r1 = frag_limits_of r"
      using fragment_process_total [OF Cons.prems] by blast
    from Cons.IH [OF 1(2)] 1 FragProcess show ?thesis by auto
  next
    case (FragExpire now c)
    with Cons.IH [OF fragment_expire_facts(1)] Cons.prems show ?thesis
      by (simp add: fragment_expire_facts(2))
  qed
qed simp

subsection \<open>Where the bytes of a state come from\<close>

definition fragment_for :: "FragmentKey \<Rightarrow> ParsedPacket \<Rightarrow> bool" where
  "fragment_for key f \<longleftrightarrow> is_fragment f \<and> fragment_key f = Inr key"

abbreviation frag_at :: "ParsedPacket \<Rightarrow> int \<Rightarrow> byte option" where
  "frag_at f p \<equiv> seg_at (pp_fragment_offset f) (pp_network_payload f) p"

abbreviation frag_end :: "ParsedPacket \<Rightarrow> int" where
  "frag_end f \<equiv> pp_fragment_offset f + int (length (pp_network_payload f))"

definition frag_from :: "ParsedPacket list \<Rightarrow> FragmentKey \<Rightarrow> FragmentState \<Rightarrow> bool" where
  "frag_from H key s \<longleftrightarrow>
     (\<forall>p b. holds_byte (fs_ranges s) p b \<longrightarrow> (\<exists>f \<in> set H. fragment_for key f \<and> frag_at f p = Some b))
     \<and> (\<forall>f. fs_first_fragment s = Some f \<longrightarrow> f \<in> set H \<and> fragment_for key f \<and> pp_fragment_offset f = 0)
     \<and> (\<forall>e. fs_final_end s = Some e \<longrightarrow>
          (\<exists>f \<in> set H. fragment_for key f \<and> \<not> pp_more_fragments f \<and> frag_end f = e))
     \<and> (\<forall>i \<in> set (fs_source_packet_ids s). \<exists>f \<in> set H. fragment_for key f \<and> i \<in> set (contributing_ids f))"

lemma frag_from_mono: "frag_from H key s \<Longrightarrow> set H \<subseteq> set H' \<Longrightarrow> frag_from H' key s"
  unfolding frag_from_def by (meson subsetD)

lemma frag_from_next:
  assumes ok: "\<And>s. e = Some s \<Longrightarrow> frag_state_ok m s \<and> frag_from H key s" and p: "fragment_for key p" "p \<in> set H"
  shows "frag_from H key (frag_next now p e)"
proof -
  obtain st' added where st: "fragment_store p (frag_opened now p e) = (st', added)" by fastforce
  then have n: "frag_next now p e = st'" by (simp add: frag_next_def)
  have s: "separated (fs_ranges (frag_opened now p e))" "fr.filled (fs_ranges (frag_opened now p e))"
    using ok by (auto simp: frag_state_ok_def separated_def fr.filled_def split: option.splits)
  have bytes: "\<exists>f \<in> set H. fragment_for key f \<and> frag_at f q = Some b"
    if h: "holds_byte (fs_ranges st') q b" for q b
  proof (cases "holds_byte (fs_ranges (frag_opened now p e)) q b")
    case True
    then show ?thesis using ok by (cases e) (auto simp: frag_from_def)
  next
    case False
    with h p fragment_store_facts(3) [OF st s, of q b] show ?thesis by blast
  qed
  have first: "f \<in> set H \<and> fragment_for key f \<and> pp_fragment_offset f = 0"
    if "fs_first_fragment st' = Some f" for f
    using that fragment_store_keeps(1) [OF st] ok p
    by (cases e) (auto simp: frag_opened_def fragment_touch_def Let_def frag_from_def split: if_splits)
  have final: "\<exists>f \<in> set H. fragment_for key f \<and> \<not> pp_more_fragments f \<and> frag_end f = x"
    if "fs_final_end st' = Some x" for x
    using that fragment_store_keeps(2) [OF st] ok p
    by (cases e) (auto simp: frag_opened_def Let_def frag_from_def split: if_splits)
  have ids: "\<exists>f \<in> set H. fragment_for key f \<and> i \<in> set (contributing_ids f)"
    if i: "i \<in> set (fs_source_packet_ids st')" for i
  proof -
    have "set (fs_source_packet_ids st') \<subseteq> set (fs_source_packet_ids (frag_opened now p e)) \<union> set (contributing_ids p)"
      using st by (auto simp: fragment_store_def Let_def split: prod.splits if_splits)
    moreover have "set (fs_source_packet_ids (frag_opened now p e)) = (case e of None \<Rightarrow> {} | Some s \<Rightarrow> set (fs_source_packet_ids s))"
      by (simp add: frag_opened_def Let_def split: option.splits)
    ultimately show ?thesis using i ok p by (cases e) (fastforce simp: frag_from_def)+
  qed
  show ?thesis unfolding n frag_from_def using bytes first final ids by blast
qed

lemma assemble_ranges_Assembled:
  "assemble_ranges e rs c acc = Assembled payload \<Longrightarrow>
     \<exists>d. payload = acc @ d \<and> c + int (length d) = e \<and> (\<forall>i < length d. holds_byte rs (c + int i) (d ! i))"
proof (induction e rs c acc rule: assemble_ranges.induct)
  case (1 e c acc)
  then show ?case by (auto split: if_splits)
next
  case (2 e item items c acc)
  let ?d = "br_data item"
  have start: "br_start item = c" using 2(2) by (auto split: if_splits)
  have head: "fr.at item (c + int i) = Some (?d ! i)" if "i < length ?d" for i
    using that start by (simp add: seg_at_def)
  show ?case
  proof (cases "br_end item = e")
    case True
    then have "payload = acc @ ?d" using 2(2) by (auto split: if_splits)
    then show ?thesis using True head start by (intro exI [of _ ?d]) (auto simp: br_end_def)
  next
    case False
    with 2(2) have "\<not> br_end item > e" "assemble_ranges e items (br_end item) (acc @ ?d) = Assembled payload"
      by (auto split: if_splits)
    with 2(1) start False obtain d where d: "payload = acc @ ?d @ d" "br_end item + int (length d) = e"
      "\<And>i. i < length d \<Longrightarrow> holds_byte items (br_end item + int i) (d ! i)" by auto
    have "holds_byte (item # items) (c + int i) ((?d @ d) ! i)" if "i < length (?d @ d)" for i
    proof (cases "i < length ?d")
      case True
      then show ?thesis using head by (simp add: nth_append)
    next
      case False
      then have "c + int i = br_end item + int (i - length ?d)" using start by (simp add: br_end_def)
      moreover have "holds_byte items (br_end item + int (i - length ?d)) (d ! (i - length ?d))"
        using False that by (intro d(3)) auto
      ultimately show ?thesis using False by (simp only: holds_byte_simps nth_append if_False simp_thms)
    qed
    then show ?thesis using d start by (intro exI [of _ "?d @ d"]) (auto simp: br_end_def)
  qed
qed

definition frag_run_inv :: "ParsedPacket list \<Rightarrow> FragmentReassembler \<Rightarrow> bool" where
  "frag_run_inv H r \<longleftrightarrow> frag_inv r \<and> (\<forall>k s. od_get (fr_states r) k = Some s \<longrightarrow> frag_from H k s)"

lemma frag_run_inv_state:
  "frag_run_inv H r \<Longrightarrow> od_get (fr_states r) k = Some s \<Longrightarrow>
     frag_state_ok (fr_max_datagram_bytes r) s \<and> frag_from H k s"
  by (auto simp: frag_run_inv_def frag_inv_def frag_core_def dest: od_get_in_set)

lemma frag_run_inv_mono: "frag_run_inv H r \<Longrightarrow> set H \<subseteq> set H' \<Longrightarrow> frag_run_inv H' r"
  by (auto simp: frag_run_inv_def intro: frag_from_mono)

lemma frag_run_inv_process:
  assumes "frag_run_inv H r" "fragment_process r now p = Inr (r', out)"
  shows "frag_run_inv (H @ [p]) r'"
proof (cases "is_fragment p")
  case False
  then show ?thesis using assms by (auto simp: fragment_process_passes intro: frag_run_inv_mono)
next
  case True
  then obtain key where key: "fragment_key p = Inr key" using fragment_key_fragment by blast
  have inv: "frag_inv r" using assms(1) by (simp add: frag_run_inv_def)
  note step = fragment_process_step [OF inv True key, of now, unfolded assms(2)]
  have next_from: "frag_from (H @ [p]) key (frag_next now p (od_get (fr_states r) key))"
    using frag_run_inv_state [OF frag_run_inv_mono [OF assms(1)], of "H @ [p]" key] True key
    by (intro frag_from_next [of _ "fr_max_datagram_bytes r"]) (auto simp: fragment_for_def)
  have "frag_from (H @ [p]) k s" if "od_get (fr_states r') k = Some s" for k s
  proof (cases "k = key")
    case True
    with that step next_from show ?thesis by auto
  next
    case False
    with that step have "od_get (fr_states r) k = Some s" by auto
    then have "frag_from H k s" using assms(1) by (simp add: frag_run_inv_def)
    then show ?thesis by (rule frag_from_mono) auto
  qed
  with step show ?thesis by (auto simp: frag_run_inv_def)
qed

lemma frag_run_inv_exec:
  "frag_run_inv H r \<Longrightarrow> frag_exec r ops = Inr (r', outs) \<Longrightarrow> frag_run_inv (H @ fragments_of ops) r'"
proof (induction r ops arbitrary: H r' outs rule: frag_exec.induct)
  case (2 r now p ops)
  then obtain r1 out outs1 where s: "fragment_process r now p = Inr (r1, out)" "frag_exec r1 ops = Inr (r', outs1)"
    by (auto split: prod.splits)
  from 2(1) [OF frag_run_inv_process [OF 2(2) s(1)] s(2)] show ?case by simp
next
  case (3 r now c ops)
  have "frag_run_inv H (fst (fragment_expire r now c))"
    using 3(2) fragment_expire_facts [of r now c] by (auto simp: frag_run_inv_def)
  from 3(1) [OF this] 3(3) show ?case by simp
qed simp

section \<open>Properties\<close>

text \<open>C28: a reassembler built by the constructor and driven by any sequence of fragments and expiry
  calls never raises (no \<open>StopIteration\<close> from the eviction loop, no failed assertion), and after each
  sequence its three counters are exactly the totals over the table, and every budget holds: datagrams,
  charged bytes (which are at least the bytes held), ranges in total and per datagram, provenance
  entries; each datagram's ranges are apart and inside the datagram limit.\<close>

theorem fragment_reassembler_bounded:
  assumes "fragment_init config_idle idle timeout max_datagrams max_datagram_bytes max_buffered_bytes
    max_ranges_per_datagram max_buffered_ranges max_provenance max_bytes = Inr r"
  shows "\<exists>r' outs. frag_exec r ops = Inr (r', outs) \<and> frag_limits_of r' = frag_limits_of r
    \<and> int (length (fr_states r')) \<le> fr_max_datagrams r'
    \<and> fr_buffered_bytes r' = od_sum (\<lambda>_ s. int (fs_buffered_bytes s)) (fr_states r')
    \<and> fr_buffered_bytes r' \<le> fr_max_buffered_bytes r'
    \<and> fr_buffered_ranges r' = od_sum (\<lambda>_ s. int (length (fs_ranges s))) (fr_states r')
    \<and> fr_buffered_ranges r' \<le> fr_max_buffered_ranges r'
    \<and> fr_buffered_provenance_entries r' = od_sum (\<lambda>_ s. int (length (fs_source_packet_ids s))) (fr_states r')
    \<and> fr_buffered_provenance_entries r' \<le> fr_max_buffered_provenance_entries r'
    \<and> (\<forall>(k, s) \<in> set (fr_states r'). frag_state_ok (fr_max_datagram_bytes r') s
         \<and> int (length (fs_ranges s)) \<le> fr_max_ranges_per_datagram r')"
proof -
  obtain r' outs where e: "frag_exec r ops = Inr (r', outs)" "frag_inv r'" "frag_limits_of r' = frag_limits_of r"
    using frag_exec_total [OF fragment_init_facts(1) [OF assms]] by blast
  then have "frag_exact r'" "\<not> fragment_over_limits r'" by (simp_all add: frag_inv_def frag_core_def)
  with e show ?thesis
    by (intro exI [of _ r'] exI [of _ outs])
      (auto simp: frag_exact_defs fragment_over_limits_def frag_inv_def frag_core_def)
qed

text \<open>A small reassembler and two fragments of a 16-byte datagram, used by the witnesses.\<close>

abbreviation small_init :: "FragmentReassembler result" where
  "small_init \<equiv> fragment_init None None None 4 64 64 4 8 8 None"

definition sample_fragment :: "int \<Rightarrow> int \<Rightarrow> bool \<Rightarrow> bytes \<Rightarrow> ParsedPacket" where
  "sample_fragment i off mf d =
     \<lparr>pp_session_id = ''s'', pp_packet_id = i, pp_timestamp_ns = i, pp_interface = ''eth0'',
      pp_captured_length = 40, pp_wire_length = 40, pp_ip_version = 4, pp_src = ''10.0.0.1'',
      pp_dst = ''10.0.0.2'', pp_protocol = 17, pp_vlan_ids = [], pp_network_payload = d,
      pp_truncated = False, pp_fragment_id = Some 7, pp_fragment_offset = off,
      pp_more_fragments = mf, pp_transport_parsed = False, pp_sport = 0, pp_dport = 0,
      pp_tcp_seq = 0, pp_tcp_ack = 0, pp_tcp_flags = 0, pp_transport_payload = [],
      pp_source_packet_ids = []\<rparr>"

definition small_reassembler :: FragmentReassembler where
  "small_reassembler =
     \<lparr>fr_idle_ns = 30000000000, fr_max_datagrams = 4, fr_max_datagram_bytes = 64,
      fr_max_buffered_bytes = 64, fr_max_ranges_per_datagram = 4, fr_max_buffered_ranges = 8,
      fr_max_buffered_provenance_entries = 8, fr_states = [], fr_buffered_bytes = 0,
      fr_buffered_ranges = 0, fr_buffered_provenance_entries = 0, fr_peak_buffered_ranges = 0,
      fr_peak_buffered_provenance_entries = 0, fr_expired_datagrams = 0, fr_evicted_datagrams = 0,
      fr_overlap_conflicts = 0, fr_malformed_fragments = 0\<rparr>"

lemma small_init: "small_init = Inr small_reassembler"
  by (simp add: fragment_init_def small_reassembler_def)

abbreviation fragment_one :: ParsedPacket where
  "fragment_one \<equiv> sample_fragment 1 0 True [0, 53, 0, 99, 0, 16, 0, 0]"
abbreviation fragment_two :: ParsedPacket where
  "fragment_two \<equiv> sample_fragment 2 8 False [1, 2, 3, 4, 5, 6, 7, 8]"

theorem fragment_reassembler_bounded_witness:
  "\<exists>r' outs. frag_exec small_reassembler [FragProcess 1 fragment_one] = Inr (r', outs)
     \<and> fr_buffered_bytes r' \<le> 64"
  using fragment_reassembler_bounded [OF small_init, of "[FragProcess 1 fragment_one]"]
  by (auto simp: frag_limits_of_def small_reassembler_def)

text \<open>C4: nothing is invented. Whatever was processed before, when a fragment makes \<open>process\<close> return a
  datagram, every byte of its payload was carried at exactly that position by a processed fragment of
  the same key (session, interface, VLANs, version, addresses, protocol, identification), its header
  fields come from such a fragment at offset 0, its length is where a last fragment ended, and every
  packet identifier it cites is one of those fragments' identifiers.\<close>

theorem fragment_delivery_sound:
  assumes "fragment_init config_idle idle timeout max_datagrams max_datagram_bytes max_buffered_bytes
      max_ranges_per_datagram max_buffered_ranges max_provenance max_bytes = Inr r0"
    and "frag_exec r0 ops = Inr (r, outs)" "fragment_for key p"
    and "fragment_process r now p = Inr (r', Some q)"
  defines "H \<equiv> fragments_of ops @ [p]"
  shows "\<exists>base st payload. fragment_deliver (fragment_completed base st payload) = Inr q
    \<and> base \<in> set H \<and> fragment_for key base \<and> pp_fragment_offset base = 0
    \<and> (\<forall>i < length payload. \<exists>f \<in> set H. fragment_for key f \<and> frag_at f (int i) = Some (payload ! i))
    \<and> (\<exists>f \<in> set H. fragment_for key f \<and> \<not> pp_more_fragments f \<and> frag_end f = int (length payload))
    \<and> (\<forall>i \<in> set (fs_source_packet_ids st). \<exists>f \<in> set H. fragment_for key f \<and> i \<in> set (contributing_ids f))"
proof -
  have run0: "frag_run_inv [] r0"
    using fragment_init_facts [OF assms(1)] by (simp add: frag_run_inv_def)
  have run: "frag_run_inv H r"
    using frag_run_inv_mono [OF frag_run_inv_exec [OF run0 assms(2)], of H] by (auto simp: H_def)
  have f: "is_fragment p" "fragment_key p = Inr key" using assms(3) by (auto simp: fragment_for_def)
  let ?st = "frag_next now p (od_get (fr_states r) key)"
  have inv: "frag_inv r" using run by (simp add: frag_run_inv_def)
  obtain base payload where d: "frag_complete ?st base payload"
    "fragment_deliver (fragment_completed base ?st payload) = Inr q"
    using fragment_process_step [OF inv f, of now] assms(4) by auto
  have origin: "frag_from H key ?st"
    using frag_run_inv_state [OF run, of key] assms(3)
    by (intro frag_from_next [of _ "fr_max_datagram_bytes r"]) (auto simp: H_def)
  from d(1) obtain e where e: "fs_final_end ?st = Some e" "fs_first_fragment ?st = Some base"
    "assemble_ranges e (fs_ranges ?st) 0 [] = Assembled payload"
    by (auto simp: frag_complete_def)
  from assemble_ranges_Assembled [OF e(3)] have a: "e = int (length payload)"
    "\<forall>i < length payload. holds_byte (fs_ranges ?st) (int i) (payload ! i)" by auto
  show ?thesis
    using origin d(2) e(1,2) a by (intro exI [of _ base] exI [of _ ?st] exI [of _ payload])
      (auto simp: frag_from_def)
qed

definition sample_key :: FragmentKey where
  "sample_key = \<lparr>fg_session_id = ''s'', fg_interface = ''eth0'', fg_vlan_ids = [], fg_ip_version = 4,
     fg_src = ''10.0.0.1'', fg_dst = ''10.0.0.2'', fg_protocol = 17, fg_fragment_id = 7\<rparr>"

theorem fragment_delivery_sound_witness:
  "\<exists>r q base st payload. frag_exec small_reassembler [FragProcess 1 fragment_one] = Inr (r, [None])
     \<and> fragment_deliver (fragment_completed base st payload) = Inr q
     \<and> base \<in> {fragment_one, fragment_two} \<and> pp_fragment_offset base = 0
     \<and> (\<exists>f \<in> {fragment_one, fragment_two}. frag_end f = int (length payload))"
proof -
  have "case frag_exec small_reassembler [FragProcess 1 fragment_one] of
      Inr (r, outs) \<Rightarrow> outs = [None] \<and> (case fragment_process r 2 fragment_two of Inr (r', Some q) \<Rightarrow> True | _ \<Rightarrow> False)
    | _ \<Rightarrow> False"
    by code_simp
  then obtain r r' q where r: "frag_exec small_reassembler [FragProcess 1 fragment_one] = Inr (r, [None])"
    "fragment_process r 2 fragment_two = Inr (r', Some q)"
    by (auto split: sum.splits option.splits prod.splits)
  have "fragment_for sample_key fragment_two"
    by (simp add: fragment_for_def is_fragment_def fragment_key_def sample_fragment_def sample_key_def)
  from fragment_delivery_sound [OF small_init r(1) this r(2)] r(1) show ?thesis by fastforce
qed

subsection \<open>A complete set of fragments\<close>

text \<open>A fragment cut from the payload \<open>P\<close>.\<close>

definition piece_of :: "bytes \<Rightarrow> ParsedPacket \<Rightarrow> bool" where
  "piece_of P f \<longleftrightarrow> 0 \<le> pp_fragment_offset f \<and> frag_end f \<le> int (length P)
     \<and> (\<forall>p b. frag_at f p = Some b \<longrightarrow> seg_at 0 P p = Some b)
     \<and> (\<not> pp_more_fragments f \<longrightarrow> frag_end f = int (length P)) \<and> \<not> pp_truncated f"

text \<open>The state after the fragments \<open>F\<close> of \<open>P\<close> were recorded.\<close>

definition gathers :: "bytes \<Rightarrow> ParsedPacket list \<Rightarrow> FragmentState option \<Rightarrow> bool" where
  "gathers P F e \<longleftrightarrow> (case e of None \<Rightarrow> F = [] | Some s \<Rightarrow>
     separated (fs_ranges s) \<and> fr.filled (fs_ranges s)
     \<and> (\<forall>p b. holds_byte (fs_ranges s) p b \<longrightarrow> seg_at 0 P p = Some b)
     \<and> (\<forall>p b. holds_byte (fs_ranges s) p b \<longleftrightarrow> (\<exists>f \<in> set F. frag_at f p = Some b))
     \<and> ((\<exists>f \<in> set F. pp_fragment_offset f = 0) \<longrightarrow> fs_first_fragment s \<noteq> None)
     \<and> (\<forall>f. fs_first_fragment s = Some f \<longrightarrow> f \<in> set F)
     \<and> fs_final_end s = (if \<exists>f \<in> set F. \<not> pp_more_fragments f then Some (int (length P)) else None)
     \<and> \<not> fs_truncated s
     \<and> fs_buffered_bytes s \<le> 2 * length P * length F
     \<and> length (fs_source_packet_ids s) \<le> sum_list (map (length \<circ> contributing_ids) F))"

lemma length_dedup_onto: "length (dedup_onto acc xs) \<le> length acc + length xs"
proof (induction xs arbitrary: acc)
  case (Cons x xs)
  from Cons.IH [of acc] Cons.IH [of "acc @ [x]"] show ?case by auto
qed simp

lemma range_bytes_le:
  "fr.chain rs \<Longrightarrow> (\<forall>x \<in> set rs. lo \<le> br_start x \<and> br_end x \<le> hi) \<Longrightarrow> lo \<le> hi \<Longrightarrow>
     int (range_bytes rs) \<le> hi - lo"
proof (induction rs arbitrary: lo)
  case (Cons x rs)
  have "\<forall>y \<in> set rs. br_end x \<le> br_start y \<and> br_end y \<le> hi"
    using Cons.prems by (auto simp: fr.chain_def br_end_def)
  moreover have "fr.chain rs" "br_end x \<le> hi" using Cons.prems by (auto simp: fr.chain_def)
  ultimately have "int (range_bytes rs) \<le> hi - br_end x" by (intro Cons.IH)
  moreover have "lo \<le> br_start x" using Cons.prems by simp
  ultimately show ?case by (simp add: br_end_def)
qed simp

text \<open>Ranges whose bytes all lie in \<open>P\<close> lie in \<open>P\<close>.\<close>

lemma range_inside:
  assumes "fr.filled rs" "\<And>p b. holds_byte rs p b \<Longrightarrow> seg_at 0 P p = Some b" "x \<in> set rs"
  shows "0 \<le> br_start x" "br_end x \<le> int (length P)"
proof -
  have ne: "br_data x \<noteq> []" using assms(1,3) by (simp add: fr.filled_def)
  have "holds_byte rs (br_start x) (br_data x ! 0)"
    unfolding holds_byte_def using assms(3) ne by (intro bexI [of _ x]) (auto simp: seg_at_def)
  then show "0 \<le> br_start x" using assms(2) by (fastforce simp: seg_at_def split: if_splits)
  have "holds_byte rs (br_end x - 1) (br_data x ! nat (br_end x - 1 - br_start x))"
    unfolding holds_byte_def using assms(3) ne by (intro bexI [of _ x]) (auto simp: seg_at_def br_end_def)
  then show "br_end x \<le> int (length P)" using assms(2) by (fastforce simp: seg_at_def split: if_splits)
qed

lemma gathers_next:
  assumes g: "gathers P F e" and p: "piece_of P p"
  shows "gathers P (F @ [p]) (Some (frag_next now p e))" and "\<not> frag_ambiguous p e"
proof -
  obtain st' added where st: "fragment_store p (frag_opened now p e) = (st', added)" by fastforce
  then have n: "frag_next now p e = st'" by (simp add: frag_next_def)
  let ?o = "frag_opened now p e"
  have s: "separated (fs_ranges ?o)" "fr.filled (fs_ranges ?o)"
    and old: "\<And>q b. holds_byte (fs_ranges ?o) q b \<Longrightarrow> seg_at 0 P q = Some b"
    and oldF: "\<And>q b. holds_byte (fs_ranges ?o) q b \<longleftrightarrow> (\<exists>f \<in> set F. frag_at f q = Some b)"
    using g by (auto simp: gathers_def separated_def fr.filled_def split: option.splits)
  have agree: "b = c" if "frag_at p q = Some b" "holds_byte (fs_ranges ?o) q c" for q b c
    using that old [of q c] p by (auto simp: piece_of_def)
  have bytes: "holds_byte (fs_ranges st') q b \<longleftrightarrow> (\<exists>f \<in> set (F @ [p]). frag_at f q = Some b)" for q b
    using fragment_store_facts(3) [OF st s, of q b] oldF [of q b] agree by auto
  have inP: "seg_at 0 P q = Some b" if "holds_byte (fs_ranges st') q b" for q b
    using that fragment_store_facts(3) [OF st s, of q b] old p by (auto simp: piece_of_def)
  have first: "(\<exists>f \<in> set (F @ [p]). pp_fragment_offset f = 0) \<longrightarrow> fs_first_fragment st' \<noteq> None"
    "\<forall>f. fs_first_fragment st' = Some f \<longrightarrow> f \<in> set (F @ [p])"
    using g fragment_store_keeps(1) [OF st]
    by (cases e; auto simp: gathers_def frag_opened_def fragment_touch_def Let_def split: if_splits)+
  have final: "fs_final_end st' = (if \<exists>f \<in> set (F @ [p]). \<not> pp_more_fragments f then Some (int (length P)) else None)"
    using g p fragment_store_keeps(2) [OF st]
    by (cases e) (auto simp: gathers_def frag_opened_def Let_def piece_of_def)
  have trunc: "\<not> fs_truncated st'"
    using g p fragment_store_keeps(3) [OF st]
    by (cases e) (auto simp: gathers_def frag_opened_def fragment_touch_def Let_def piece_of_def)
  have inside: "range_bytes (fs_ranges st') \<le> length P"
    using range_bytes_le [OF separated_chain [OF fragment_store_facts(1) [OF st s]], of 0 "int (length P)"]
      range_inside [OF fragment_store_facts(2) [OF st s] inP] by auto
  have "fs_buffered_bytes ?o \<le> 2 * length P * length F"
    using g by (auto simp: gathers_def frag_opened_def Let_def split: option.splits)
  then have buf: "fs_buffered_bytes st' \<le> 2 * length P * length (F @ [p])"
    using fragment_store_facts(5,6) [OF st s] inside by simp
  have "length (fs_source_packet_ids ?o) \<le> sum_list (map (length \<circ> contributing_ids) F)"
    using g by (auto simp: gathers_def frag_opened_def Let_def split: option.splits)
  then have ids: "length (fs_source_packet_ids st') \<le> sum_list (map (length \<circ> contributing_ids) (F @ [p]))"
    using st length_dedup_onto [of "fs_source_packet_ids ?o" "contributing_ids p"]
    by (auto simp: fragment_store_def Let_def split: prod.splits if_splits)
  show "gathers P (F @ [p]) (Some (frag_next now p e))"
    unfolding gathers_def n option.case
    using fragment_store_facts(1,2) [OF st s] inP bytes first final trunc buf ids by blast
  have "\<not> overlap_conflict (pp_fragment_offset p) (pp_network_payload p) (br_start x) (br_data x)"
    if "x \<in> set (fs_ranges ?o)" for x
  proof -
    have "holds_byte (fs_ranges ?o) q c" if "fr.at x q = Some c" for q c
      using that \<open>x \<in> set (fs_ranges ?o)\<close> by (auto simp: holds_byte_def)
    then show ?thesis unfolding overlap_conflict_iff using agree by blast
  qed
  then have "\<not> has_conflicting_overlap (pp_fragment_offset p) (pp_network_payload p) (fs_ranges ?o)"
    by (simp add: has_conflicting_overlap_def list_ex_iff)
  then show "\<not> frag_ambiguous p e"
    using g p by (cases e) (auto simp: frag_ambiguous_def gathers_def piece_of_def)
qed

text \<open>There are never more ranges than recorded fragments.\<close>

lemma gathers_count:
  assumes "gathers P F (Some s)"
  shows "length (fs_ranges s) \<le> length F"
proof -
  let ?rs = "fs_ranges s"
  have sep: "separated ?rs" and fl: "fr.filled ?rs"
    and bts: "\<And>p b. holds_byte ?rs p b \<longleftrightarrow> (\<exists>f \<in> set F. frag_at f p = Some b)"
    using assms by (auto simp: gathers_def)
  have start: "br_start x \<in> pp_fragment_offset ` set F" if x: "x \<in> set ?rs" for x
  proof (rule ccontr)
    assume no: "br_start x \<notin> pp_fragment_offset ` set F"
    have "br_data x \<noteq> []" using fl x by (simp add: fr.filled_def)
    then have "holds_byte ?rs (br_start x) (br_data x ! 0)"
      unfolding holds_byte_def using x by (intro bexI [of _ x]) (auto simp: seg_at_def)
    then obtain f where f: "f \<in> set F" "frag_at f (br_start x) = Some (br_data x ! 0)" using bts by blast
    moreover have "pp_fragment_offset f \<noteq> br_start x" using no f(1) by (metis image_eqI)
    ultimately have "frag_at f (br_start x - 1) \<noteq> None" by (auto simp: seg_at_def split: if_splits)
    then obtain c where "frag_at f (br_start x - 1) = Some c" by blast
    with f(1) bts obtain y where y: "y \<in> set ?rs" "fr.at y (br_start x - 1) = Some c"
      by (force simp: holds_byte_def)
    have "br_end y < br_start x \<or> br_end x < br_start y \<or> x = y"
      using sep x y(1) unfolding separated_def sorted_wrt_iff_nth_less
      by (metis in_set_conv_nth linorder_neqE_nat)
    then show False using y(2) by (auto simp: seg_at_def br_end_def split: if_splits)
  qed
  have "distinct (map br_start ?rs)"
  proof -
    have "sorted_wrt (<) (map br_start ?rs)"
      using sep unfolding separated_def sorted_wrt_map
      by (rule sorted_wrt_mono_rel [rotated]) (auto simp: br_end_def)
    then show ?thesis by (simp add: strict_sorted_iff)
  qed
  then have "length ?rs = card (br_start ` set ?rs)" by (metis distinct_card length_map set_map)
  also have "\<dots> \<le> card (pp_fragment_offset ` set F)" using start by (intro card_mono) auto
  also have "\<dots> \<le> length F" by (meson List.finite_set card_image_le card_length order_trans)
  finally show ?thesis .
qed

lemma gathers_complete:
  assumes g: "gathers P F (Some s)" and P: "P \<noteq> []"
    and cover: "\<And>p. 0 \<le> p \<Longrightarrow> p < int (length P) \<Longrightarrow> \<exists>f \<in> set F. frag_at f p \<noteq> None"
    and fst0: "\<exists>f \<in> set F. pp_fragment_offset f = 0" and last: "\<exists>f \<in> set F. \<not> pp_more_fragments f"
  shows "\<exists>base \<in> set F. frag_complete s base P"
proof -
  let ?rs = "fs_ranges s"
  have sep: "separated ?rs" and fl: "fr.filled ?rs"
    and inP: "\<And>p b. holds_byte ?rs p b \<Longrightarrow> seg_at 0 P p = Some b"
    and bts: "\<And>p b. holds_byte ?rs p b \<longleftrightarrow> (\<exists>f \<in> set F. frag_at f p = Some b)"
    using g by (auto simp: gathers_def)
  have cov: "\<exists>x \<in> set ?rs. fr.at x p \<noteq> None" if "0 \<le> p" "p < int (length P)" for p
    using cover [OF that] bts by (force simp: holds_byte_def)
  from cov [of 0] P obtain x where x: "x \<in> set ?rs" "fr.at x 0 \<noteq> None" by auto
  then have x0: "br_start x = 0" "br_end x \<le> int (length P)"
    using range_inside [OF fl inP x(1)] by (auto simp: seg_at_eq_None)
  have apart: "y = x \<or> br_end x < br_start y" if "y \<in> set ?rs" for y
  proof -
    have "br_end y < br_start x \<or> br_end x < br_start y \<or> x = y"
      using sep x(1) that unfolding separated_def sorted_wrt_iff_nth_less
      by (metis in_set_conv_nth linorder_neqE_nat)
    moreover have "0 \<le> br_end y" using range_inside(1) [OF fl inP that] by (simp add: br_end_def)
    ultimately show ?thesis using x0 by auto
  qed
  have xe: "br_end x = int (length P)"
  proof (rule ccontr)
    assume "br_end x \<noteq> int (length P)"
    then have "br_end x < int (length P)" "0 \<le> br_end x" using x0 by (auto simp: br_end_def)
    then obtain y where "y \<in> set ?rs" "fr.at y (br_end x) \<noteq> None" using cov by blast
    then show False using apart [of y] by (auto simp: seg_at_def br_end_def split: if_splits)
  qed
  have dx: "br_data x = P"
  proof (rule nth_equalityI)
    show "length (br_data x) = length P" using xe x0 by (simp add: br_end_def)
    fix i assume i: "i < length (br_data x)"
    then have "fr.at x (int i) = Some (br_data x ! i)" using x0 by (simp add: seg_at_def)
    then have "seg_at 0 P (int i) = Some (br_data x ! i)" using inP x(1) by (auto simp: holds_byte_def)
    then show "br_data x ! i = P ! i" by (auto simp: seg_at_def split: if_splits)
  qed
  have "\<exists>ys. ?rs = x # ys"
  proof (cases ?rs)
    case (Cons z zs)
    then have "z = x \<or> br_end z < br_start x" using x(1) sep by (auto simp: separated_def)
    then show ?thesis using apart [of z] Cons x0 by (auto simp: br_end_def)
  qed (use x in simp)
  then have "assemble_ranges (int (length P)) ?rs 0 [] = Assembled P" using x0 xe dx by auto
  then show ?thesis using g fst0 last by (auto simp: gathers_def frag_complete_def)
qed

lemma gathers_payload:
  assumes g: "gathers P F (Some s)" and c: "frag_complete s base payload"
  shows "payload = P \<and> base \<in> set F"
proof -
  from c obtain e where e: "fs_final_end s = Some e" "assemble_ranges e (fs_ranges s) 0 [] = Assembled payload"
    by (auto simp: frag_complete_def)
  have "e = int (length P)" using g e(1) by (auto simp: gathers_def split: if_splits)
  with assemble_ranges_Assembled [OF e(2)] have len: "length payload = length P"
    and b: "\<And>i. i < length P \<Longrightarrow> holds_byte (fs_ranges s) (int i) (payload ! i)" by auto
  have "payload ! i = P ! i" if "i < length P" for i
    using g b [OF that] that by (fastforce simp: gathers_def seg_at_def)
  then show ?thesis using g c len by (auto simp: gathers_def frag_complete_def intro: nth_equalityI)
qed

lemma assemble_not_past:
  "(\<And>x. x \<in> set rs \<Longrightarrow> br_end x \<le> e) \<Longrightarrow> assemble_ranges e rs c acc \<noteq> PastEnd"
  by (induction e rs c acc rule: assemble_ranges.induct) (auto, fastforce)

lemma od_singleton: "od_ok d \<Longrightarrow> set d = {e} \<Longrightarrow> d = [e]"
proof (cases d)
  case (Cons x xs)
  assume "od_ok d" "set d = {e}"
  with Cons show ?thesis by (cases xs) (auto simp: od_ok_def)
qed simp

abbreviation held :: "FragmentKey \<Rightarrow> FragmentState option \<Rightarrow> (FragmentKey, FragmentState) odict" where
  "held key e \<equiv> (case e of None \<Rightarrow> [] | Some s \<Rightarrow> [(key, s)])"

definition ample :: "FragmentReassembler \<Rightarrow> bytes \<Rightarrow> ParsedPacket list \<Rightarrow> bool" where
  "ample r P F \<longleftrightarrow> 2 * int (length P) * int (length F) \<le> fr_max_buffered_bytes r
     \<and> int (length F) \<le> fr_max_ranges_per_datagram r \<and> int (length F) \<le> fr_max_buffered_ranges r
     \<and> int (sum_list (map (length \<circ> contributing_ids) F)) \<le> fr_max_buffered_provenance_entries r"

lemma ample_mono: "ample r P (F @ G) \<Longrightarrow> ample r P F"
proof -
  assume a: "ample r P (F @ G)"
  have "2 * int (length P) * int (length F) \<le> 2 * int (length P) * int (length (F @ G))"
    by (intro mult_left_mono) auto
  with a show ?thesis by (auto simp: ample_def)
qed

lemma gather_step:
  fixes now :: int
  assumes inv: "frag_inv r" and held: "fr_states r = held key e" and g: "gathers P F e"
    and p: "piece_of P p" "fragment_for key p" "\<not> malformed_fragment r p"
    and ample: "ample r P (F @ [p])"
  defines "st \<equiv> frag_next now p e"
  shows "\<exists>r' out. fragment_process r now p = Inr (r', out) \<and> frag_inv r' \<and> frag_limits_of r' = frag_limits_of r
    \<and> (out = None \<and> fr_states r' = held key (Some st) \<and> (\<forall>base payload. \<not> frag_complete st base payload)
       \<or> (\<exists>q base. out = Some q \<and> base \<in> set (F @ [p]) \<and> fragment_deliver (fragment_completed base st P) = Inr q))"
proof -
  have frag: "is_fragment p" "fragment_key p = Inr key" using p(2) by (auto simp: fragment_for_def)
  have e: "od_get (fr_states r) key = e" by (simp add: held od_get_def split: option.splits)
  obtain r' out where r': "fragment_process r now p = Inr (r', out)" "frag_inv r'" "frag_limits_of r' = frag_limits_of r"
    using fragment_process_total [OF inv] by blast
  have gn: "gathers P (F @ [p]) (Some st)" "\<not> frag_ambiguous p e"
    unfolding st_def by (rule gathers_next [OF g p(1)])+
  obtain r3 where r3: "opened key st r r3" "fragment_process r now p = frag_continue key r3 st"
  proof (cases rule: fragment_process_cases [OF inv frag, of now])
    case 1
    then show ?thesis using p(3) by simp
  next
    case (2 st r2)
    then show ?thesis using gn(2) unfolding e by simp
  next
    case (3 r3)
    then show ?thesis using that unfolding e st_def by simp
  qed
  have ok: "frag_exact r3" "frag_limits_of r3 = frag_limits_of r" "od_get (fr_states r3) key = Some st"
    using r3(1) by (auto simp: opened_def)
  have pop: "od_pop key (held key e) = []" by (auto simp: od_pop_def split: option.splits)
  have s3: "fr_states r3 = [(key, st)]"
    using opened_states [OF r3(1)] frag_exact_ok [OF ok(1)] by (intro od_singleton) (auto simp: held pop)
  have amp: "ample r3 P (F @ [p])" using ample ok(2) by (simp add: ample_def frag_limits_of_def)
  have cnt: "length (fs_ranges st) \<le> length (F @ [p])" by (rule gathers_count [OF gn(1)])
  have bnd: "fs_buffered_bytes st \<le> 2 * length P * length (F @ [p])"
    "length (fs_source_packet_ids st) \<le> sum_list (map (length \<circ> contributing_ids) (F @ [p]))"
    using gn(1) by (auto simp: gathers_def)
  have "int (fs_buffered_bytes st) \<le> 2 * int (length P) * int (length (F @ [p]))"
    using bnd(1) by (metis of_nat_le_iff of_nat_mult of_nat_numeral)
  moreover have "fr_max_datagrams r3 \<ge> 1"
    using inv ok(2) by (simp add: frag_inv_def frag_core_def limits_positive_def frag_limits_of_def)
  ultimately have no: "\<not> fragment_over_limits r3"
    using amp cnt bnd(2) unfolding over_limits_exact [OF ok(1)] by (auto simp: ample_def s3)
  have within: "\<not> int (length (fs_ranges st)) > fr_max_ranges_per_datagram r3"
    using amp cnt by (auto simp: ample_def)
  have fin: "fragment_process r now p = fragment_finish key st r3"
    unfolding r3(2) frag_continue_def if_not_P [OF within] fe.loop_noop [OF no] bindE_simps
    using ok(3) by simp
  show ?thesis
  proof (cases rule: fragment_finish_cases [of key st r3])
    case kept
    then show ?thesis using r' fin s3 by auto
  next
    case (past_end x)
    have "assemble_ranges (int (length P)) (fs_ranges st) 0 [] \<noteq> PastEnd"
      using gn(1) range_inside(2) [of "fs_ranges st" P] by (intro assemble_not_past) (auto simp: gathers_def)
    then show ?thesis using past_end(2,3) gn(1) by (auto simp: gathers_def split: if_splits)
  next
    case (delivered base payload q)
    with gathers_payload [OF gn(1) delivered(1)] r' fin show ?thesis by auto
  qed
qed

lemma piece_not_malformed:
  assumes "piece_of P p" "int (length P) \<le> fr_max_datagram_bytes r"
    "pp_more_fragments p \<longrightarrow> pp_network_payload p \<noteq> [] \<and> length (pp_network_payload p) mod 8 = 0"
  shows "\<not> malformed_fragment r p"
proof -
  have "int (length (pp_network_payload p)) mod 8 = int (length (pp_network_payload p) mod 8)"
    by (simp add: of_nat_mod)
  then show ?thesis using assms by (auto simp: malformed_fragment_def piece_of_def)
qed

lemma gather_run:
  assumes "frag_inv r" "fr_states r = held key e" "gathers P F e"
    and "\<forall>s. e = Some s \<longrightarrow> (\<forall>base payload. \<not> frag_complete s base payload)"
    and "ample r P (F @ map snd G)" "int (length P) \<le> fr_max_datagram_bytes r" "P \<noteq> []"
    and "\<forall>(now, p) \<in> set G. piece_of P p \<and> fragment_for key p \<and>
      (pp_more_fragments p \<longrightarrow> pp_network_payload p \<noteq> [] \<and> length (pp_network_payload p) mod 8 = 0)"
    and "\<And>i. 0 \<le> i \<Longrightarrow> i < int (length P) \<Longrightarrow> \<exists>f \<in> set (F @ map snd G). frag_at f i \<noteq> None"
    and "\<exists>f \<in> set (F @ map snd G). pp_fragment_offset f = 0"
    and "\<exists>f \<in> set (F @ map snd G). \<not> pp_more_fragments f"
  shows "\<exists>r' outs q base st. frag_exec r (map (\<lambda>(now, p). FragProcess now p) G) = Inr (r', outs)
    \<and> Some q \<in> set outs \<and> base \<in> set (F @ map snd G) \<and> fragment_deliver (fragment_completed base st P) = Inr q"
  using assms
proof (induction G arbitrary: r e F)
  case Nil
  from Nil.prems(3,10) obtain s where "e = Some s" by (auto simp: gathers_def split: option.splits)
  with Nil.prems gathers_complete [of P F s] show ?case by auto
next
  case (Cons np G)
  obtain now p where np: "np = (now, p)" by fastforce
  have p: "piece_of P p" "fragment_for key p" "\<not> malformed_fragment r p"
    using Cons.prems(6,8) piece_not_malformed [of P p r] by (auto simp: np)
  have amp: "ample r P (F @ [p])" using Cons.prems(5) ample_mono [of r P "F @ [p]" "map snd G"] by (simp add: np)
  obtain r' out where s: "fragment_process r now p = Inr (r', out)" "frag_inv r'" "frag_limits_of r' = frag_limits_of r"
    and alt: "out = None \<and> fr_states r' = held key (Some (frag_next now p e))
        \<and> (\<forall>base payload. \<not> frag_complete (frag_next now p e) base payload)
      \<or> (\<exists>q base. out = Some q \<and> base \<in> set (F @ [p])
          \<and> fragment_deliver (fragment_completed base (frag_next now p e) P) = Inr q)"
    using gather_step [OF Cons.prems(1,2,3) p amp, of now] by metis
  from alt show ?case
  proof
    assume none: "out = None \<and> fr_states r' = held key (Some (frag_next now p e))
        \<and> (\<forall>base payload. \<not> frag_complete (frag_next now p e) base payload)"
    have "ample r' P ((F @ [p]) @ map snd G)" "int (length P) \<le> fr_max_datagram_bytes r'"
      using Cons.prems(5,6) s(3) by (auto simp: ample_def frag_limits_of_def np)
    with Cons.IH [OF s(2) _ gathers_next(1) [OF Cons.prems(3) p(1)], of now] none Cons.prems(7-11)
    have "\<exists>r'' outs q base st. frag_exec r' (map (\<lambda>(now, p). FragProcess now p) G) = Inr (r'', outs)
      \<and> Some q \<in> set outs \<and> base \<in> set ((F @ [p]) @ map snd G)
      \<and> fragment_deliver (fragment_completed base st P) = Inr q"
      by (simp add: np)
    then obtain r'' outs q base st where x: "frag_exec r' (map (\<lambda>(now, p). FragProcess now p) G) = Inr (r'', outs)"
      "Some q \<in> set outs" "base \<in> set ((F @ [p]) @ map snd G)"
      "fragment_deliver (fragment_completed base st P) = Inr q" by blast
    then have "frag_exec r (map (\<lambda>(now, p). FragProcess now p) (np # G)) = Inr (r'', out # outs)"
      using s(1) by (simp add: np)
    moreover have "base \<in> set (F @ map snd (np # G))" using x(3) by (auto simp: np)
    ultimately show ?thesis using x(2,4) by (metis list.set_intros(2))
  next
    assume "\<exists>q base. out = Some q \<and> base \<in> set (F @ [p])
      \<and> fragment_deliver (fragment_completed base (frag_next now p e) P) = Inr q"
    then obtain q base where q: "out = Some q" "base \<in> set (F @ [p])"
      "fragment_deliver (fragment_completed base (frag_next now p e) P) = Inr q" by blast
    obtain r'' outs where "frag_exec r' (map (\<lambda>(now, p). FragProcess now p) G) = Inr (r'', outs)"
      using frag_exec_total [OF s(2)] by blast
    then have "frag_exec r (map (\<lambda>(now, p). FragProcess now p) (np # G)) = Inr (r'', out # outs)"
      using s(1) by (simp add: np)
    moreover have "base \<in> set (F @ map snd (np # G))" using q(2) by (auto simp: np)
    ultimately show ?thesis using q(1,3) by (metis list.set_intros(1))
  qed
qed

text \<open>C11: delivery. A datagram cut into fragments of one key (in any order, overlapping or repeated as
  long as they agree with the payload, every fragment but the last a positive multiple of eight bytes)
  that together cover it, fed to a fresh reassembler whose budgets have room, is delivered: some call
  returns the datagram with exactly the original payload.\<close>

theorem fragment_delivery_complete:
  assumes "fragment_init config_idle idle timeout max_datagrams max_datagram_bytes max_buffered_bytes
      max_ranges_per_datagram max_buffered_ranges max_provenance max_bytes = Inr r"
    and "P \<noteq> []" "int (length P) \<le> fr_max_datagram_bytes r" "ample r P (map snd G)"
    and "\<forall>(now, p) \<in> set G. piece_of P p \<and> fragment_for key p \<and>
      (pp_more_fragments p \<longrightarrow> pp_network_payload p \<noteq> [] \<and> length (pp_network_payload p) mod 8 = 0)"
    and "\<forall>i \<in> {0 ..< int (length P)}. \<exists>f \<in> set (map snd G). frag_at f i \<noteq> None"
    and "\<exists>f \<in> set (map snd G). pp_fragment_offset f = 0"
    and "\<exists>f \<in> set (map snd G). \<not> pp_more_fragments f"
  shows "\<exists>r' outs q base st. frag_exec r (map (\<lambda>(now, p). FragProcess now p) G) = Inr (r', outs)
    \<and> Some q \<in> set outs \<and> base \<in> set (map snd G) \<and> fragment_deliver (fragment_completed base st P) = Inr q"
  using gather_run [OF fragment_init_facts(1) [OF assms(1)], of key None P "[]" G] assms(2-)
    fragment_init_facts(2) [OF assms(1)]
  by (auto simp: gathers_def)

abbreviation sample_datagram :: bytes where
  "sample_datagram \<equiv> [0, 53, 0, 99, 0, 16, 0, 0, 1, 2, 3, 4, 5, 6, 7, 8]"

theorem fragment_delivery_complete_witness:
  "\<exists>r' outs q base st. frag_exec small_reassembler [FragProcess 1 fragment_two, FragProcess 2 fragment_one] = Inr (r', outs)
     \<and> Some q \<in> set outs \<and> fragment_deliver (fragment_completed base st sample_datagram) = Inr q"
proof -
  let ?G = "[(1 :: int, fragment_two), (2, fragment_one)]"
  have i8: "i = 0 \<or> i = 1 \<or> i = 2 \<or> i = 3 \<or> i = 4 \<or> i = 5 \<or> i = 6 \<or> i = 7" if "0 \<le> i" "i < 8" for i :: int
    using that by linarith
  have s1: "seg_at 0 [0, 53, 0, 99, 0, 16, 0, 0] p = Some b \<Longrightarrow> seg_at 0 sample_datagram p = Some b" for p b
    using i8 [of p] by (auto simp: seg_at_def split: if_splits)
  have s2: "seg_at 8 [1, 2, 3, 4, 5, 6, 7, 8] p = Some b \<Longrightarrow> seg_at 0 sample_datagram p = Some b" for p b
    using i8 [of "p - 8"] by (auto simp: seg_at_def split: if_splits)
  have pieces: "piece_of sample_datagram fragment_one" "piece_of sample_datagram fragment_two"
    using s1 s2 by (simp_all add: piece_of_def sample_fragment_def)
  have keys: "fragment_for sample_key fragment_one" "fragment_for sample_key fragment_two"
    by (simp_all add: fragment_for_def is_fragment_def fragment_key_def sample_fragment_def sample_key_def)
  have cover: "\<forall>i \<in> {0 ..< int (length sample_datagram)}. \<exists>f \<in> set (map snd ?G). frag_at f i \<noteq> None"
    by (auto simp: seg_at_def sample_fragment_def)
  have "\<exists>r' outs q base st. frag_exec small_reassembler (map (\<lambda>(now, p). FragProcess now p) ?G) = Inr (r', outs)
    \<and> Some q \<in> set outs \<and> base \<in> set (map snd ?G)
    \<and> fragment_deliver (fragment_completed base st sample_datagram) = Inr q"
    by (rule fragment_delivery_complete [OF small_init _ _ _ _ cover, where key = sample_key])
      (simp_all add: pieces keys, simp_all add: small_reassembler_def ample_def sample_fragment_def contributing_ids_def)
  then show ?thesis unfolding list.map prod.case by blast
qed

text \<open>A defect of the byte accounting. When a fragment arrives before the one that precedes it,
  the merge grows the newly added range object in place before its length is charged, so the same bytes
  are charged twice: after the two fragments of 8 bytes above in reverse order, 16 bytes are held (were
  the datagram not complete) but 24 are charged.\<close>

theorem fragment_reorder_overcharges:
  "map_sum id (\<lambda>(r, outs). (fr_buffered_bytes r, map (\<lambda>(k, s). range_bytes (fs_ranges s)) (fr_states r)))
     (frag_exec small_reassembler [FragProcess 1 (sample_fragment 2 8 True [1, 2, 3, 4, 5, 6, 7, 8]),
        FragProcess 2 fragment_one]) = Inr (24, [16])"
  by code_simp

end
