(* ===== verification/Tcp_Reassembly.thy ===== *)
theory Tcp_Reassembly
  imports Packets Ordered_Dict Byte_Ranges "HOL-Library.Sublist"
begin

text \<open>
  The TCP stream reassembler of \<open>packet_audit/reassembly.py\<close> (\<open>TCPReassembler\<close>): sequence number
  unwrapping, out-of-order buffering with first-seen-wins overlaps, draining into stream chunks with
  their provenance, visible gaps when a limit forces a skip, flow eviction and expiry. Positions are
  unwrapped sequence numbers (Python integers). A loop of the source that has no evident bound is a
  \<open>partial_function (option)\<close>: \<open>None\<close> stands for a loop that does not end. The monotonic clock is an
  argument.
\<close>

section \<open>Data\<close>

record TcpSegment =
  sg_start :: int
  sg_data :: bytes
  sg_packet_ids :: "int list"
  sg_timestamp_ns :: int

definition sg_end :: "TcpSegment \<Rightarrow> int" where
  "sg_end s = sg_start s + int (length (sg_data s))"

record DirectionState =
  ds_connection_epoch :: int
  ds_next_seq :: "int option"
  ds_stream_offset :: int
  ds_midstream :: bool
  ds_had_gap :: bool
  ds_syn_seq :: "int option"
  ds_pending :: "TcpSegment list"
  ds_pending_bytes :: int
  ds_consumed_history_start :: "int option"
  ds_consumed_history :: bytes
  ds_peer_acked_seq :: "int option"
  ds_last_seen_ns :: int
  ds_closed :: bool

definition new_direction :: "int \<Rightarrow> DirectionState" where
  "new_direction epoch =
     \<lparr>ds_connection_epoch = epoch, ds_next_seq = None, ds_stream_offset = 0, ds_midstream = False,
      ds_had_gap = False, ds_syn_seq = None, ds_pending = [], ds_pending_bytes = 0,
      ds_consumed_history_start = None, ds_consumed_history = [], ds_peer_acked_seq = None,
      ds_last_seen_ns = 0, ds_closed = False\<rparr>"

record FlowState =
  fl_flow :: FlowKey
  fl_connection_epoch :: int
  fl_directions :: "DirectionState \<times> DirectionState"
  fl_last_seen_ns :: int
  fl_activity_ns :: int

text \<open>\<open>state.directions[i]\<close> and its in-place update.\<close>

definition fl_dir :: "FlowState \<Rightarrow> nat \<Rightarrow> DirectionState" where
  "fl_dir f i = (if i = 0 then fst (fl_directions f) else snd (fl_directions f))"

definition fl_set_dir :: "nat \<Rightarrow> DirectionState \<Rightarrow> FlowState \<Rightarrow> FlowState" where
  "fl_set_dir i d f =
     f\<lparr>fl_directions := (if i = 0 then (d, snd (fl_directions f)) else (fst (fl_directions f), d))\<rparr>"

type_synonym flow_id = "string \<times> FlowKey"

record TCPReassembler =
  tr_idle_ns :: int
  tr_max_flows :: int
  tr_max_out_of_order :: int
  tr_max_stream_bytes_per_direction :: int
  tr_max_pending_per_direction :: int
  tr_max_buffered_bytes :: int
  tr_max_buffered_segments :: int
  tr_consumed_history_bytes :: int
  tr_max_segments_per_direction :: int
  tr_flows :: "(flow_id, FlowState) odict"
  tr_next_connection_epoch :: int
  tr_buffered_bytes :: int
  tr_buffered_segments :: int
  tr_peak_buffered_segments :: int
  tr_evicted_flows :: int
  tr_budget_evicted_flows :: int
  tr_expired_flows :: int
  tr_retransmitted_bytes :: int
  tr_overlap_conflicts :: int
  tr_gap_bytes :: int

section \<open>Sequence numbers\<close>

definition SEQ_MODULUS :: int where "SEQ_MODULUS = 2 ^ 32"
definition SEQ_HALF :: int where "SEQ_HALF = 2 ^ 31"
definition TCP_FIN :: int where "TCP_FIN = 0x01"
definition TCP_SYN :: int where "TCP_SYN = 0x02"
definition TCP_RST :: int where "TCP_RST = 0x04"
definition TCP_ACK :: int where "TCP_ACK = 0x10"

lemmas tcp_consts = SEQ_MODULUS_def SEQ_HALF_def TCP_FIN_def TCP_SYN_def TCP_RST_def TCP_ACK_def

definition unwrap_sequence :: "int \<Rightarrow> int \<Rightarrow> int" where
  "unwrap_sequence sequence reference =
     (let candidate = (reference AND NOT 0xFFFFFFFF) OR (sequence AND 0xFFFFFFFF) in
      if candidate - reference > SEQ_HALF then candidate - SEQ_MODULUS
      else if reference - candidate > SEQ_HALF then candidate + SEQ_MODULUS
      else candidate)"

definition flag_set :: "ParsedPacket \<Rightarrow> int \<Rightarrow> bool" where
  "flag_set p bits \<longleftrightarrow> pp_tcp_flags p AND bits \<noteq> 0"

section \<open>Segments not covered yet\<close>

definition carve_segment :: "TcpSegment \<Rightarrow> TcpSegment \<Rightarrow> TcpSegment list" where
  "carve_segment old piece =
     (if sg_end piece \<le> sg_start old \<or> sg_start piece \<ge> sg_end old then [piece]
      else (if sg_start piece < sg_start old
            then [piece\<lparr>sg_data := take (nat (sg_start old - sg_start piece)) (sg_data piece)\<rparr>] else [])
         @ (if sg_end piece > sg_end old
            then [piece\<lparr>sg_start := sg_end old,
                        sg_data := drop (nat (sg_end old - sg_start piece)) (sg_data piece)\<rparr>] else []))"

fun carve_segments :: "TcpSegment list \<Rightarrow> TcpSegment list \<Rightarrow> TcpSegment list" where
  "carve_segments [] pieces = pieces"
| "carve_segments (old # existing) pieces =
     (let remaining = concat (map (carve_segment old) pieces) in
      if remaining = [] then [] else carve_segments existing remaining)"

definition tcp_uncovered_segments ::
  "int \<Rightarrow> bytes \<Rightarrow> int list \<Rightarrow> int \<Rightarrow> TcpSegment list \<Rightarrow> TcpSegment list" where
  "tcp_uncovered_segments start d packet_ids timestamp_ns existing =
     carve_segments existing
       (if d = [] then []
        else [\<lparr>sg_start = start, sg_data = d, sg_packet_ids = packet_ids, sg_timestamp_ns = timestamp_ns\<rparr>])"

section \<open>Construction\<close>

text \<open>
  \<open>__init__\<close> after the defaults are resolved: the arguments are the effective values of
  \<open>idle_seconds\<close>, \<open>max_flows\<close>, \<open>max_out_of_order\<close>, \<open>max_stream_bytes_per_direction\<close>,
  \<open>max_buffered_bytes\<close>, \<open>max_buffered_segments\<close>, \<open>consumed_history_bytes\<close>,
  \<open>max_segments_per_direction\<close> and \<open>epoch_namespace\<close>.
\<close>

definition tcp_init ::
  "int \<Rightarrow> int \<Rightarrow> int \<Rightarrow> int \<Rightarrow> int \<Rightarrow> int \<Rightarrow> int \<Rightarrow> int \<Rightarrow> int \<Rightarrow> TCPReassembler result" where
  "tcp_init idle_seconds max_flows max_out_of_order max_stream max_buffered_bytes max_buffered_segments
     consumed_history_bytes max_segments_per_direction epoch_namespace =
     (if idle_seconds * 1000000000 < 0 \<or> max_flows < 1 \<or> max_out_of_order < 1 \<or> max_stream < 1
         \<or> max_buffered_bytes < 1 \<or> max_buffered_segments < 1 \<or> consumed_history_bytes < 1
         \<or> max_segments_per_direction < 1
      then Inl (ValueError ''invalid TCP reassembly limits'')
      else if epoch_namespace < 0 then Inl (ValueError ''epoch_namespace cannot be negative'')
      else Inr
        \<lparr>tr_idle_ns = idle_seconds * 1000000000, tr_max_flows = max_flows,
         tr_max_out_of_order = max_out_of_order, tr_max_stream_bytes_per_direction = max_stream,
         tr_max_pending_per_direction = min max_out_of_order max_stream,
         tr_max_buffered_bytes = max_buffered_bytes, tr_max_buffered_segments = max_buffered_segments,
         tr_consumed_history_bytes = consumed_history_bytes,
         tr_max_segments_per_direction = max_segments_per_direction, tr_flows = [],
         tr_next_connection_epoch = push_bit 32 epoch_namespace OR 1, tr_buffered_bytes = 0,
         tr_buffered_segments = 0, tr_peak_buffered_segments = 0, tr_evicted_flows = 0,
         tr_budget_evicted_flows = 0, tr_expired_flows = 0, tr_retransmitted_bytes = 0,
         tr_overlap_conflicts = 0, tr_gap_bytes = 0\<rparr>)"

definition tcp_remove_flow :: "flow_id \<Rightarrow> TCPReassembler \<Rightarrow> TCPReassembler" where
  "tcp_remove_flow key t =
     (case od_get (tr_flows t) key of
        None \<Rightarrow> t
      | Some state \<Rightarrow>
          t\<lparr>tr_flows := od_pop key (tr_flows t),
            tr_buffered_bytes := tr_buffered_bytes t
              - (ds_pending_bytes (fl_dir state 0) + ds_pending_bytes (fl_dir state 1)),
            tr_buffered_segments := tr_buffered_segments t
              - (int (length (ds_pending (fl_dir state 0))) + int (length (ds_pending (fl_dir state 1))))\<rparr>)"

section \<open>Consumed history\<close>

definition remember_consumed :: "int \<Rightarrow> int \<Rightarrow> bytes \<Rightarrow> DirectionState \<Rightarrow> DirectionState" where
  "remember_consumed limit start d state =
     (if d = [] then state
      else
        let contiguous = (ds_consumed_history_start state \<noteq> None
              \<and> the (ds_consumed_history_start state) + int (length (ds_consumed_history state)) = start);
            history0 = (if contiguous then ds_consumed_history state else []);
            start0 = (if contiguous then ds_consumed_history_start state else Some start);
            history1 = history0 @ d;
            excess = int (length history1) - limit in
        if excess > 0
        then state\<lparr>ds_consumed_history := drop (nat excess) history1,
                   ds_consumed_history_start := map_option (\<lambda>s. s + excess) start0\<rparr>
        else state\<lparr>ds_consumed_history := history1, ds_consumed_history_start := start0\<rparr>)"

definition conflicts_with_consumed :: "DirectionState \<Rightarrow> int \<Rightarrow> bytes \<Rightarrow> bool" where
  "conflicts_with_consumed state start d =
     (case ds_consumed_history_start state of
        None \<Rightarrow> False
      | Some history_start \<Rightarrow>
          (if ds_consumed_history state = [] \<or> d = [] then False
           else overlap_conflict start d history_start (ds_consumed_history state)))"

section \<open>Draining\<close>

text \<open>The local lists of \<open>_drain\<close>.\<close>

record DrainAcc =
  da_parts :: "bytes list"
  da_packet_ids :: "int list"
  da_spans :: "ProvenanceSpan list"
  da_timestamps :: "int list"

definition append_span :: "ProvenanceSpan list \<Rightarrow> ProvenanceSpan \<Rightarrow> ProvenanceSpan list" where
  "append_span spans span =
     (if spans \<noteq> [] \<and> ps_stream_end (last spans) = ps_stream_start span
         \<and> ps_packet_ids (last spans) = ps_packet_ids span
         \<and> ps_packet_ids_complete (last spans) = ps_packet_ids_complete span
      then butlast spans @ [(last spans)\<lparr>ps_stream_end := ps_stream_end span\<rparr>]
      else spans @ [span])"

text \<open>A segment leaves the queue.\<close>

definition unqueue_self :: "TcpSegment \<Rightarrow> TCPReassembler \<Rightarrow> TCPReassembler" where
  "unqueue_self segment t =
     t\<lparr>tr_buffered_bytes := tr_buffered_bytes t - int (length (sg_data segment)),
       tr_buffered_segments := tr_buffered_segments t - 1\<rparr>"

definition unqueue_dir :: "TcpSegment \<Rightarrow> TcpSegment list \<Rightarrow> DirectionState \<Rightarrow> DirectionState" where
  "unqueue_dir segment rest state =
     state\<lparr>ds_pending := rest, ds_pending_bytes := ds_pending_bytes state - int (length (sg_data segment))\<rparr>"

definition count_retransmitted :: "int \<Rightarrow> TCPReassembler \<Rightarrow> TCPReassembler" where
  "count_retransmitted n t = t\<lparr>tr_retransmitted_bytes := tr_retransmitted_bytes t + n\<rparr>"

text \<open>The \<open>while\<close> loop of \<open>_drain\<close>; the first argument is \<open>state.next_seq\<close>, the second
  \<open>state.pending\<close>.\<close>

fun drain_loop ::
  "int \<Rightarrow> TcpSegment list \<Rightarrow> TCPReassembler \<Rightarrow> DirectionState \<Rightarrow> DrainAcc
     \<Rightarrow> TCPReassembler \<times> DirectionState \<times> DrainAcc" where
  "drain_loop next_seq [] t state acc = (t, state\<lparr>ds_next_seq := Some next_seq, ds_pending := []\<rparr>, acc)"
| "drain_loop next_seq (segment # rest) t state acc =
     (if sg_end segment \<le> next_seq then
        drain_loop next_seq rest
          (count_retransmitted (int (length (sg_data segment))) (unqueue_self segment t))
          (unqueue_dir segment rest state) acc
      else if sg_start segment > next_seq then
        (t, state\<lparr>ds_next_seq := Some next_seq, ds_pending := segment # rest\<rparr>, acc)
      else
        let trim = max 0 (next_seq - sg_start segment);
            t1 = (if trim \<noteq> 0 then count_retransmitted trim (unqueue_self segment t) else unqueue_self segment t);
            state1 = unqueue_dir segment rest state;
            new_data = drop (nat trim) (sg_data segment) in
        if new_data = [] then drain_loop next_seq rest t1 state1 acc
        else
          let n = int (length new_data);
              span = \<lparr>ps_stream_start = ds_stream_offset state1, ps_stream_end = ds_stream_offset state1 + n,
                      ps_packet_ids = sg_packet_ids segment, ps_packet_ids_complete = True\<rparr>;
              acc1 = \<lparr>da_parts = da_parts acc @ [new_data],
                      da_packet_ids = dedup_onto (da_packet_ids acc) (sg_packet_ids segment),
                      da_spans = append_span (da_spans acc) span,
                      da_timestamps = da_timestamps acc @ [sg_timestamp_ns segment]\<rparr>;
              state2 = remember_consumed (tr_consumed_history_bytes t1) next_seq new_data state1 in
          drain_loop (next_seq + n) rest t1
            (state2\<lparr>ds_stream_offset := ds_stream_offset state2 + n\<rparr>) acc1)"

definition tcp_drain ::
  "TCPReassembler \<Rightarrow> DirectionState \<Rightarrow> FlowKey \<Rightarrow> nat \<Rightarrow> bool
     \<Rightarrow> TCPReassembler \<times> DirectionState \<times> StreamChunk list" where
  "tcp_drain t state flow direction forced_gap =
     (case ds_next_seq state of
        None \<Rightarrow> (t, state, [])
      | Some next_seq \<Rightarrow>
          (if ds_pending state = [] then (t, state, [])
           else
             let start_offset = ds_stream_offset state;
                 (t1, state1, acc) = drain_loop next_seq (ds_pending state) t state
                   \<lparr>da_parts = [], da_packet_ids = [], da_spans = [], da_timestamps = []\<rparr> in
             if da_parts acc = [] then (t1, state1, [])
             else (t1, state1,
               [\<lparr>sc_flow = flow, sc_direction = direction, sc_stream_offset = start_offset,
                 sc_data = concat (da_parts acc), sc_packet_ids = da_packet_ids acc,
                 sc_first_timestamp_ns = Min (set (da_timestamps acc)),
                 sc_last_timestamp_ns = Max (set (da_timestamps acc)),
                 sc_connection_epoch = ds_connection_epoch state1,
                 sc_completeness = (if forced_gap \<or> ds_had_gap state1 then Gapped
                                    else if ds_midstream state1 then Midstream else Complete),
                 sc_provenance_spans = da_spans acc\<rparr>])))"

definition skip_to_next_segment ::
  "TCPReassembler \<Rightarrow> DirectionState \<Rightarrow> FlowKey \<Rightarrow> nat \<Rightarrow> TCPReassembler \<times> DirectionState \<times> StreamChunk list" where
  "skip_to_next_segment t state flow direction =
     (case (ds_next_seq state, ds_pending state) of
        (Some next_seq, first # _) \<Rightarrow>
          (if sg_start first > next_seq then
             let gap = sg_start first - next_seq in
             tcp_drain (t\<lparr>tr_gap_bytes := tr_gap_bytes t + gap\<rparr>)
               (state\<lparr>ds_next_seq := Some (sg_start first),
                      ds_stream_offset := ds_stream_offset state + gap, ds_had_gap := True\<rparr>)
               flow direction True
           else tcp_drain t state flow direction True)
      | _ \<Rightarrow> (t, state, []))"

text \<open>One round of \<open>_flush_direction\<close>, and the loop.\<close>

definition flush_round ::
  "TCPReassembler \<Rightarrow> DirectionState \<Rightarrow> FlowKey \<Rightarrow> nat \<Rightarrow> TCPReassembler \<times> DirectionState \<times> StreamChunk list" where
  "flush_round t state flow direction =
     (let (t1, state1, chunks1) = tcp_drain t state flow direction False in
      if ds_pending state1 \<noteq> [] \<and> length (ds_pending state1) = length (ds_pending state)
      then let (t2, state2, chunks2) = skip_to_next_segment t1 state1 flow direction in
           (t2, state2, chunks1 @ chunks2)
      else (t1, state1, chunks1))"

partial_function (option) flush_direction ::
  "TCPReassembler \<Rightarrow> DirectionState \<Rightarrow> FlowKey \<Rightarrow> nat \<Rightarrow> StreamChunk list
     \<Rightarrow> (TCPReassembler \<times> DirectionState \<times> StreamChunk list) option" where
  "flush_direction t state flow direction chunks =
     (if ds_pending state = [] then Some (t, state, chunks)
      else flush_direction (fst (flush_round t state flow direction))
             (fst (snd (flush_round t state flow direction))) flow direction
             (chunks @ snd (snd (flush_round t state flow direction))))"

text \<open>\<open>for direction, directional in enumerate(state.directions)\<close>: both directions are flushed and the
  state written back.\<close>

definition flush_flow ::
  "TCPReassembler \<Rightarrow> FlowState \<Rightarrow> FlowKey \<Rightarrow> (TCPReassembler \<times> FlowState \<times> StreamChunk list) option" where
  "flush_flow t state flow =
     do { (t1, d0, c0) \<leftarrow> flush_direction t (fl_dir state 0) flow 0 [];
          (t2, d1, c1) \<leftarrow> flush_direction t1 (fl_dir state 1) flow 1 [];
          Some (t2, fl_set_dir 1 d1 (fl_set_dir 0 d0 state), c0 @ c1) }"

definition flush_and_remove ::
  "flow_id \<Rightarrow> FlowState \<Rightarrow> FlowKey \<Rightarrow> TCPReassembler \<Rightarrow> (TCPReassembler \<times> StreamChunk list) option" where
  "flush_and_remove key state flow t =
     do { (t1, state1, chunks) \<leftarrow> flush_flow t state flow;
          Some (tcp_remove_flow key (t1\<lparr>tr_flows := od_put key state1 (tr_flows t1)\<rparr>), chunks) }"

section \<open>Eviction\<close>

definition evict_oldest :: "bool \<Rightarrow> TCPReassembler \<Rightarrow> (TCPReassembler \<times> StreamChunk list) option" where
  "evict_oldest budget t =
     (case tr_flows t of
        [] \<Rightarrow> Some (t, [])
      | (key, state) # _ \<Rightarrow>
          do { (t1, chunks) \<leftarrow> flush_and_remove key state (fl_flow state) t;
               Some (t1\<lparr>tr_evicted_flows := tr_evicted_flows t1 + 1,
                        tr_budget_evicted_flows := tr_budget_evicted_flows t1 + (if budget then 1 else 0)\<rparr>,
                     chunks) })"

text \<open>\<open>while len(self._flows) >= self.max_flows\<close>.\<close>

partial_function (option) evict_to_flow_limit ::
  "TCPReassembler \<Rightarrow> StreamChunk list \<Rightarrow> (TCPReassembler \<times> StreamChunk list) option" where
  "evict_to_flow_limit t chunks =
     (if int (length (tr_flows t)) \<ge> tr_max_flows t
      then do { (t1, c) \<leftarrow> evict_oldest False t; evict_to_flow_limit t1 (chunks @ c) }
      else Some (t, chunks))"

definition tcp_over_budget :: "TCPReassembler \<Rightarrow> bool" where
  "tcp_over_budget t \<longleftrightarrow> tr_buffered_bytes t > tr_max_buffered_bytes t
     \<or> tr_buffered_segments t > tr_max_buffered_segments t"

text \<open>\<open>while (over budget) and self._flows\<close>.\<close>

partial_function (option) evict_to_budget ::
  "TCPReassembler \<Rightarrow> StreamChunk list \<Rightarrow> (TCPReassembler \<times> StreamChunk list) option" where
  "evict_to_budget t chunks =
     (if tcp_over_budget t \<and> tr_flows t \<noteq> []
      then do { (t1, c) \<leftarrow> evict_oldest True t; evict_to_budget t1 (chunks @ c) }
      else Some (t, chunks))"

declare flush_direction.simps [code] evict_to_flow_limit.simps [code] evict_to_budget.simps [code]

section \<open>Processing a packet\<close>

text \<open>The loop that skips gaps while a direction holds too much.\<close>

definition direction_over :: "TCPReassembler \<Rightarrow> DirectionState \<Rightarrow> bool" where
  "direction_over t d \<longleftrightarrow> ds_pending_bytes d > tr_max_pending_per_direction t
     \<or> int (length (ds_pending d)) > tr_max_segments_per_direction t"

partial_function (option) force_skips ::
  "TCPReassembler \<Rightarrow> DirectionState \<Rightarrow> FlowKey \<Rightarrow> nat \<Rightarrow> StreamChunk list
     \<Rightarrow> (TCPReassembler \<times> DirectionState \<times> StreamChunk list) option" where
  "force_skips t d flow direction chunks =
     (if direction_over t d then
        (if snd (snd (skip_to_next_segment t d flow direction)) = []
         then Some (fst (skip_to_next_segment t d flow direction),
                    fst (snd (skip_to_next_segment t d flow direction)), chunks)
         else force_skips (fst (skip_to_next_segment t d flow direction))
                (fst (snd (skip_to_next_segment t d flow direction))) flow direction
                (chunks @ snd (snd (skip_to_next_segment t d flow direction))))
      else Some (t, d, chunks))"

declare force_skips.simps [code]

text \<open>The queueing of a payload that reaches past \<open>next_seq\<close>: trim, count conflicts with queued
  segments, keep what is new, sort, account, drain, force skips.\<close>

definition pending_conflicts :: "int \<Rightarrow> bytes \<Rightarrow> TcpSegment list \<Rightarrow> nat" where
  "pending_conflicts start payload pending =
     length (filter (\<lambda>old. overlap_conflict start payload (sg_start old) (sg_data old)) pending)"

definition segments_bytes :: "TcpSegment list \<Rightarrow> int" where
  "segments_bytes segs = int (sum_list (map (\<lambda>s. length (sg_data s)) segs))"

definition queue_payload ::
  "TCPReassembler \<Rightarrow> DirectionState \<Rightarrow> ParsedPacket \<Rightarrow> int \<Rightarrow> int \<Rightarrow> bytes
     \<Rightarrow> TCPReassembler \<times> DirectionState" where
  "queue_payload t d p next_seq start0 payload0 =
     (let trimmed = start0 < next_seq;
          trim = next_seq - start0;
          t1 = (if trimmed then count_retransmitted trim t else t);
          payload = (if trimmed then drop (nat trim) payload0 else payload0);
          start = (if trimmed then next_seq else start0);
          t2 = t1\<lparr>tr_overlap_conflicts := tr_overlap_conflicts t1
                     + int (pending_conflicts start payload (ds_pending d))\<rparr>;
          additions = tcp_uncovered_segments start payload (contributing_ids p) (pp_timestamp_ns p) (ds_pending d);
          added = segments_bytes additions;
          t3 = count_retransmitted (int (length payload) - added) t2;
          segs = tr_buffered_segments t3 + int (length additions) in
      (t3\<lparr>tr_buffered_bytes := tr_buffered_bytes t3 + added, tr_buffered_segments := segs,
          tr_peak_buffered_segments := max (tr_peak_buffered_segments t3) segs\<rparr>,
       d\<lparr>ds_pending := sort_key sg_start (ds_pending d @ additions),
         ds_pending_bytes := ds_pending_bytes d + added\<rparr>))"

text \<open>The flow of the packet: reset by a new SYN, refreshed, or created.\<close>

definition needs_reset :: "FlowState \<Rightarrow> nat \<Rightarrow> ParsedPacket \<Rightarrow> bool" where
  "needs_reset state direction p \<longleftrightarrow> flag_set p TCP_SYN \<and> \<not> flag_set p TCP_ACK
     \<and> (ds_syn_seq (fl_dir state direction) \<noteq> Some (pp_tcp_seq p) \<or> ds_closed (fl_dir state direction))"

definition tcp_open_flow ::
  "TCPReassembler \<Rightarrow> int \<Rightarrow> ParsedPacket \<Rightarrow> flow_id \<Rightarrow> FlowKey \<Rightarrow> nat
     \<Rightarrow> (TCPReassembler \<times> FlowState \<times> StreamChunk list) option" where
  "tcp_open_flow t now p key flow direction =
     do { (t1, existing, chunks) \<leftarrow>
            (case od_get (tr_flows t) key of
               None \<Rightarrow> Some (t, None, [])
             | Some state \<Rightarrow>
                 (if needs_reset state direction p
                  then do { (t1, c) \<leftarrow> flush_and_remove key state flow t; Some (t1, None, c) }
                  else Some (t, Some state, [])));
          case existing of
            Some state \<Rightarrow> Some (t1\<lparr>tr_flows := od_move_to_end key (tr_flows t1)\<rparr>, state, chunks)
          | None \<Rightarrow>
              do { (t2, chunks2) \<leftarrow> evict_to_flow_limit t1 chunks;
                   let epoch = tr_next_connection_epoch t2;
                       state = \<lparr>fl_flow = flow, fl_connection_epoch = epoch,
                                fl_directions = (new_direction epoch, new_direction epoch),
                                fl_last_seen_ns = pp_timestamp_ns p, fl_activity_ns = now\<rparr>;
                       t3 = t2\<lparr>tr_next_connection_epoch := epoch + 1,
                               tr_flows := od_put key state (tr_flows t2)\<rparr>
                   in Some (t3, state, chunks2) } }"

text \<open>Clocks, the peer's acknowledgement, and the first sequence number of the direction.\<close>

definition raw_payload_sequence :: "ParsedPacket \<Rightarrow> int" where
  "raw_payload_sequence p = (pp_tcp_seq p + (if flag_set p TCP_SYN then 1 else 0)) AND 0xFFFFFFFF"

definition note_ack :: "ParsedPacket \<Rightarrow> DirectionState \<Rightarrow> DirectionState" where
  "note_ack p opposite =
     (case ds_next_seq opposite of
        None \<Rightarrow> opposite
      | Some next_seq \<Rightarrow>
          (let peer_ack = unwrap_sequence (pp_tcp_ack p) next_seq in
           case ds_peer_acked_seq opposite of
             None \<Rightarrow> opposite\<lparr>ds_peer_acked_seq := Some peer_ack\<rparr>
           | Some a \<Rightarrow> (if peer_ack > a then opposite\<lparr>ds_peer_acked_seq := Some peer_ack\<rparr> else opposite)))"

definition synchronise :: "ParsedPacket \<Rightarrow> DirectionState \<Rightarrow> DirectionState" where
  "synchronise p d =
     (let d1 = (if ds_next_seq d = None then
                  (if flag_set p TCP_SYN then
                     d\<lparr>ds_syn_seq := Some (pp_tcp_seq p), ds_next_seq := Some (raw_payload_sequence p),
                       ds_midstream := False\<rparr>
                   else if pp_transport_payload p \<noteq> [] then
                     d\<lparr>ds_next_seq := Some (raw_payload_sequence p), ds_midstream := True\<rparr>
                   else d)
                else d) in
      if flag_set p TCP_SYN \<and> ds_syn_seq d1 = None then d1\<lparr>ds_syn_seq := Some (pp_tcp_seq p)\<rparr> else d1)"

definition tcp_touch :: "int \<Rightarrow> ParsedPacket \<Rightarrow> nat \<Rightarrow> FlowState \<Rightarrow> FlowState" where
  "tcp_touch now p direction state =
     (let state1 = state\<lparr>fl_last_seen_ns := max (fl_last_seen_ns state) (pp_timestamp_ns p),
                          fl_activity_ns := now\<rparr>;
          d = fl_dir state1 direction;
          state2 = fl_set_dir direction
            (d\<lparr>ds_last_seen_ns := max (ds_last_seen_ns d) (pp_timestamp_ns p)\<rparr>) state1;
          state3 = (if flag_set p TCP_ACK
                    then fl_set_dir (1 - direction) (note_ack p (fl_dir state2 (1 - direction))) state2
                    else state2) in
      fl_set_dir direction (synchronise p (fl_dir state3 direction)) state3)"

definition is_keepalive :: "ParsedPacket \<Rightarrow> DirectionState \<Rightarrow> int \<Rightarrow> int \<Rightarrow> bool" where
  "is_keepalive p d next_seq start \<longleftrightarrow>
     length (pp_transport_payload p) = 1 \<and> flag_set p TCP_ACK
     \<and> \<not> flag_set p (TCP_SYN OR TCP_FIN OR TCP_RST) \<and> start = next_seq - 1
     \<and> (case ds_peer_acked_seq d of None \<Rightarrow> False | Some a \<Rightarrow> a \<ge> next_seq)"

text \<open>What the payload does to its direction: nothing (a keepalive, which ends \<open>process\<close>), a counted
  retransmission, or queued bytes.\<close>

datatype payload_outcome =
    Keepalive
  | Ignored TCPReassembler
  | Queued TCPReassembler DirectionState "StreamChunk list"

definition accept_payload ::
  "TCPReassembler \<Rightarrow> DirectionState \<Rightarrow> ParsedPacket \<Rightarrow> FlowKey \<Rightarrow> nat \<Rightarrow> payload_outcome option" where
  "accept_payload t d p flow direction =
     (case ds_next_seq d of
        None \<Rightarrow> Some (Ignored t)
      | Some next_seq \<Rightarrow>
          (if pp_transport_payload p = [] then Some (Ignored t)
           else
             let payload = pp_transport_payload p;
                 start = unwrap_sequence (raw_payload_sequence p) next_seq in
             if is_keepalive p d next_seq start then Some Keepalive
             else
               let t1 = (if start < next_seq \<and> conflicts_with_consumed d start payload
                         then t\<lparr>tr_overlap_conflicts := tr_overlap_conflicts t + 1\<rparr> else t) in
               if start + int (length payload) \<le> next_seq
               then Some (Ignored (count_retransmitted (int (length payload)) t1))
               else
                 let (t2, d2) = queue_payload t1 d p next_seq start payload;
                     (t3, d3, chunks) = tcp_drain t2 d2 flow direction False in
                 do { (t4, d4, chunks4) \<leftarrow> force_skips t3 d3 flow direction chunks;
                      Some (Queued t4 d4 chunks4) }))"

text \<open>The end of \<open>process\<close>: FIN and RST flush and close; a closed flow is removed.\<close>

definition tcp_close ::
  "TCPReassembler \<Rightarrow> FlowState \<Rightarrow> ParsedPacket \<Rightarrow> flow_id \<Rightarrow> FlowKey \<Rightarrow> nat \<Rightarrow> StreamChunk list
     \<Rightarrow> (TCPReassembler \<times> StreamChunk list) option" where
  "tcp_close t state p key flow direction chunks =
     do { (t1, state1, chunks1) \<leftarrow>
            (if flag_set p (TCP_FIN OR TCP_RST) then
               do { (t1, d1, c1) \<leftarrow> flush_direction t (fl_dir state direction) flow direction chunks;
                    Some (t1, fl_set_dir direction (d1\<lparr>ds_closed := True\<rparr>) state, c1) }
             else Some (t, state, chunks));
          let t1' = t1\<lparr>tr_flows := od_put key state1 (tr_flows t1)\<rparr> in
          if flag_set p TCP_RST \<or> (ds_closed (fl_dir state1 0) \<and> ds_closed (fl_dir state1 1))
          then do { (t2, d2, c2) \<leftarrow> flush_direction t1' (fl_dir state1 (1 - direction)) flow (1 - direction) chunks1;
                    Some (tcp_remove_flow key
                      (t2\<lparr>tr_flows := od_put key (fl_set_dir (1 - direction) d2 state1) (tr_flows t2)\<rparr>), c2) }
          else Some (t1', chunks1) }"

definition tcp_process ::
  "TCPReassembler \<Rightarrow> int \<Rightarrow> ParsedPacket \<Rightarrow> (TCPReassembler \<times> StreamChunk list) option" where
  "tcp_process t now p =
     (if pp_protocol p \<noteq> IPPROTO_TCP \<or> \<not> pp_transport_parsed p then Some (t, [])
      else
        let (flow, direction) = packet_flow p; key = (pp_session_id p, flow) in
        do { (t1, state0, chunks) \<leftarrow> tcp_open_flow t now p key flow direction;
             let state1 = tcp_touch now p direction state0;
                 t2 = t1\<lparr>tr_flows := od_put key state1 (tr_flows t1)\<rparr> in
             do { outcome \<leftarrow> accept_payload t2 (fl_dir state1 direction) p flow direction;
                  case outcome of
                    Keepalive \<Rightarrow> Some (t2, chunks)
                  | Ignored t3 \<Rightarrow> tcp_close t3 state1 p key flow direction chunks
                  | Queued t3 d3 c3 \<Rightarrow>
                      (let state3 = fl_set_dir direction d3 state1;
                           t4 = t3\<lparr>tr_flows := od_put key state3 (tr_flows t3)\<rparr> in
                       do { (t5, chunks5) \<leftarrow> evict_to_budget t4 (chunks @ c3);
                            if od_get (tr_flows t5) key = None then Some (t5, chunks5)
                            else tcp_close t5 state3 p key flow direction chunks5 }) } })"

section \<open>Expiry and shutdown\<close>

definition tcp_stale_keys :: "TCPReassembler \<Rightarrow> int \<Rightarrow> bool \<Rightarrow> flow_id list" where
  "tcp_stale_keys t now explicit_capture_clock =
     map fst (if explicit_capture_clock
              then filter (\<lambda>e. now - fl_last_seen_ns (snd e) \<ge> tr_idle_ns t) (tr_flows t)
              else takeWhile (\<lambda>e. \<not> now - fl_activity_ns (snd e) < tr_idle_ns t) (tr_flows t))"

text \<open>Flush and remove the flows of a list of keys; a key that is not there raises \<open>KeyError\<close> in the
  source and ends the model's result too.\<close>

fun remove_flows ::
  "flow_id list \<Rightarrow> TCPReassembler \<Rightarrow> (TCPReassembler \<times> StreamChunk list) option result" where
  "remove_flows [] t = Inr (Some (t, []))"
| "remove_flows (key # keys) t =
     (case od_get (tr_flows t) key of
        None \<Rightarrow> Inl KeyError
      | Some state \<Rightarrow>
          (case flush_and_remove key state (fl_flow state) t of
             None \<Rightarrow> Inr None
           | Some (t1, c) \<Rightarrow> bindE (remove_flows keys t1) (\<lambda>r.
               Inr (map_option (\<lambda>(t2, c2). (t2, c @ c2)) r))))"

definition tcp_expire ::
  "TCPReassembler \<Rightarrow> int \<Rightarrow> bool \<Rightarrow> (TCPReassembler \<times> StreamChunk list) option result" where
  "tcp_expire t now explicit_capture_clock =
     (let stale = tcp_stale_keys t now explicit_capture_clock in
      bindE (remove_flows stale t) (\<lambda>r.
        Inr (map_option (\<lambda>(t1, c). (t1\<lparr>tr_expired_flows := tr_expired_flows t1 + int (length stale)\<rparr>, c)) r)))"

definition tcp_flush_all ::
  "TCPReassembler \<Rightarrow> Completeness option \<Rightarrow> (TCPReassembler \<times> StreamChunk list) option result" where
  "tcp_flush_all t completeness =
     bindE (remove_flows (map fst (tr_flows t)) t) (\<lambda>r.
       Inr (map_option (\<lambda>(t1, c). (t1, case completeness of None \<Rightarrow> c
              | Some k \<Rightarrow> map (\<lambda>ch. ch\<lparr>sc_completeness := k\<rparr>) c)) r))"

section \<open>Sequence numbers and segments\<close>

lemma unwrap_candidate:
  "(reference AND NOT 0xFFFFFFFF) OR (sequence AND 0xFFFFFFFF)
     = reference - reference mod SEQ_MODULUS + sequence mod SEQ_MODULUS" for reference sequence :: int
proof -
  have m: "(0xFFFFFFFF :: int) = mask 32" by (simp add: mask_eq_exp_minus_1)
  have low: "x AND 0xFFFFFFFF = x mod SEQ_MODULUS" for x :: int
    by (simp only: m take_bit_eq_mask [symmetric]) (simp add: take_bit_eq_mod SEQ_MODULUS_def)
  have "(reference AND 0xFFFFFFFF) + (reference AND NOT 0xFFFFFFFF)
      = (reference AND 0xFFFFFFFF) OR (reference AND NOT 0xFFFFFFFF)"
    by (rule disjunctive_add_eq_or) (simp only: m bit_eq_iff, auto simp: bit_simps)
  also have "\<dots> = reference" by (simp only: m bit_eq_iff) (auto simp: bit_simps)
  finally have hi: "reference AND NOT 0xFFFFFFFF = reference - reference mod SEQ_MODULUS"
    by (simp only: low)
  have "(reference AND NOT 0xFFFFFFFF) + (sequence AND 0xFFFFFFFF)
      = (reference AND NOT 0xFFFFFFFF) OR (sequence AND 0xFFFFFFFF)"
    by (rule disjunctive_add_eq_or) (simp only: m bit_eq_iff, auto simp: bit_simps)
  then show ?thesis by (simp only: hi low)
qed

lemma unwrap_congruent: "unwrap_sequence sequence reference mod SEQ_MODULUS = sequence mod SEQ_MODULUS"
proof -
  have "(reference - reference mod SEQ_MODULUS + sequence mod SEQ_MODULUS) mod SEQ_MODULUS = sequence mod SEQ_MODULUS"
    by (simp add: minus_mod_eq_mult_div)
  then show ?thesis
    unfolding unwrap_sequence_def Let_def unwrap_candidate by (simp add: SEQ_MODULUS_def)
qed

lemma unwrap_near: "\<bar>unwrap_sequence sequence reference - reference\<bar> \<le> SEQ_HALF"
proof -
  have "0 \<le> reference mod SEQ_MODULUS" "reference mod SEQ_MODULUS < SEQ_MODULUS"
    "0 \<le> sequence mod SEQ_MODULUS" "sequence mod SEQ_MODULUS < SEQ_MODULUS"
    by (simp_all add: SEQ_MODULUS_def)
  then show ?thesis
    unfolding unwrap_sequence_def Let_def unwrap_candidate SEQ_MODULUS_def SEQ_HALF_def by auto
qed

interpretation ts: segment_carving sg_start sg_data "\<lambda>r s d. r\<lparr>sg_start := s, sg_data := d\<rparr>" carve_segment carve_segments
  by unfold_locales (auto simp: carve_segment_def sg_end_def)

lemma sg_end_ts: "sg_end s = ts.seg_end s"
  by (simp add: sg_end_def)

lemma segments_bytes_simps [simp]:
  "segments_bytes [] = 0"
  "segments_bytes (s # ss) = int (length (sg_data s)) + segments_bytes ss"
  "segments_bytes (ss @ rs) = segments_bytes ss + segments_bytes rs"
  by (simp_all add: segments_bytes_def)

lemma segments_bytes_nonneg [simp]: "0 \<le> segments_bytes ss"
  by (simp add: segments_bytes_def)

lemma segments_bytes_sort [simp]: "segments_bytes (sort_key f ss) = segments_bytes ss"
proof -
  have "segments_bytes (insort_key f s rs) = segments_bytes (s # rs)" for s rs by (induction rs) auto
  then show ?thesis by (induction ss) auto
qed

section \<open>Frames\<close>

type_synonym tcp_limits = "int \<times> int \<times> int \<times> int \<times> int \<times> int \<times> int \<times> int \<times> int"

definition tcp_limits_of :: "TCPReassembler \<Rightarrow> tcp_limits" where
  "tcp_limits_of t = (tr_idle_ns t, tr_max_flows t, tr_max_out_of_order t, tr_max_stream_bytes_per_direction t,
     tr_max_pending_per_direction t, tr_max_buffered_bytes t, tr_max_buffered_segments t,
     tr_consumed_history_bytes t, tr_max_segments_per_direction t)"

text \<open>What no operation on a direction touches: the table, the limits, the epoch counter.\<close>

definition same_table :: "TCPReassembler \<Rightarrow> TCPReassembler \<Rightarrow> bool" where
  "same_table t t' \<longleftrightarrow> tr_flows t' = tr_flows t \<and> tcp_limits_of t' = tcp_limits_of t
     \<and> tr_next_connection_epoch t' = tr_next_connection_epoch t"

text \<open>The global counters move with the direction's queue.\<close>

definition acct :: "TCPReassembler \<Rightarrow> DirectionState \<Rightarrow> TCPReassembler \<Rightarrow> DirectionState \<Rightarrow> bool" where
  "acct t d t' d' \<longleftrightarrow> same_table t t'
     \<and> tr_buffered_bytes t' - ds_pending_bytes d' = tr_buffered_bytes t - ds_pending_bytes d
     \<and> tr_buffered_segments t' - int (length (ds_pending d'))
         = tr_buffered_segments t - int (length (ds_pending d))
     \<and> ds_connection_epoch d' = ds_connection_epoch d"

lemma same_table_refl [simp]: "same_table t t"
  by (simp add: same_table_def)

lemma acct_refl [simp]: "acct t d t d"
  by (simp add: acct_def)

lemma acct_trans: "acct t d t1 d1 \<Longrightarrow> acct t1 d1 t2 d2 \<Longrightarrow> acct t d t2 d2"
  by (simp add: acct_def same_table_def)

text \<open>The queue of a direction: disjoint segments in stream order, all at or after the next expected
  position, with an exact byte count; \<open>strict\<close> when nothing deliverable is left in it.\<close>

definition dir_queue :: "int \<Rightarrow> bool \<Rightarrow> DirectionState \<Rightarrow> bool" where
  "dir_queue limit strict d \<longleftrightarrow> ts.chain (ds_pending d) \<and> ts.filled (ds_pending d)
     \<and> ds_pending_bytes d = segments_bytes (ds_pending d)
     \<and> (ds_pending d \<noteq> [] \<longrightarrow> ds_next_seq d \<noteq> None)
     \<and> (\<forall>n. ds_next_seq d = Some n \<longrightarrow>
          (\<forall>s \<in> set (ds_pending d). n \<le> sg_start s \<and> (strict \<longrightarrow> n < sg_start s)))
     \<and> int (length (ds_consumed_history d)) \<le> limit"

lemma dir_queue_weaken: "dir_queue l True d \<Longrightarrow> dir_queue l b d"
  by (auto simp: dir_queue_def)

section \<open>Emission\<close>

fun tiles :: "ProvenanceSpan list \<Rightarrow> int \<Rightarrow> int \<Rightarrow> bool" where
  "tiles [] a b \<longleftrightarrow> a = b"
| "tiles (s # ss) a b \<longleftrightarrow> ps_stream_start s = a \<and> a < ps_stream_end s \<and> tiles ss (ps_stream_end s) b"

lemma tiles_append: "tiles (ss @ rs) a c \<longleftrightarrow> (\<exists>b. tiles ss a b \<and> tiles rs b c)"
  by (induction ss arbitrary: a) auto

lemma append_span_tiles:
  assumes "tiles spans a b" "ps_stream_start s = b" "b < ps_stream_end s"
  shows "tiles (append_span spans s) a (ps_stream_end s)"
proof (cases "spans = []")
  case False
  then obtain xs x where x: "spans = xs @ [x]" by (metis rev_exhaust)
  with assms show ?thesis by (auto simp: append_span_def tiles_append)
qed (use assms in \<open>auto simp: append_span_def\<close>)

definition span_ids :: "ProvenanceSpan list \<Rightarrow> int set" where
  "span_ids spans = (\<Union>s \<in> set spans. set (ps_packet_ids s))"

lemma append_span_ids: "span_ids (append_span spans s) = span_ids spans \<union> set (ps_packet_ids s)"
proof (cases "spans = []")
  case False
  then obtain xs x where x: "spans = xs @ [x]" by (metis rev_exhaust)
  then show ?thesis by (auto simp: append_span_def span_ids_def)
qed (auto simp: append_span_def span_ids_def)

definition sc_end :: "StreamChunk \<Rightarrow> int" where
  "sc_end c = sc_stream_offset c + int (length (sc_data c))"

text \<open>A well-formed chunk: bytes, and spans that tile them and cite exactly its packets.\<close>

definition chunk_ok :: "StreamChunk \<Rightarrow> bool" where
  "chunk_ok c \<longleftrightarrow> sc_data c \<noteq> [] \<and> tiles (sc_provenance_spans c) (sc_stream_offset c) (sc_end c)
     \<and> span_ids (sc_provenance_spans c) = set (sc_packet_ids c) \<and> distinct (sc_packet_ids c)
     \<and> sc_first_timestamp_ns c \<le> sc_last_timestamp_ns c"

fun chunk_chain :: "int \<Rightarrow> int \<Rightarrow> StreamChunk list \<Rightarrow> bool" where
  "chunk_chain a b [] \<longleftrightarrow> a \<le> b"
| "chunk_chain a b (c # cs) \<longleftrightarrow> a \<le> sc_stream_offset c \<and> chunk_chain (sc_end c) b cs"

lemma sc_end_ge: "sc_stream_offset c \<le> sc_end c"
  by (simp add: sc_end_def)

lemma chunk_chain_le: "chunk_chain a b cs \<Longrightarrow> a \<le> b"
  by (induction cs arbitrary: a) (auto, meson sc_end_ge order_trans)

lemma chunk_chain_mono: "chunk_chain a b cs \<Longrightarrow> a' \<le> a \<Longrightarrow> chunk_chain a' b cs"
  by (cases cs) auto

lemma chunk_chain_append: "chunk_chain a b cs \<Longrightarrow> chunk_chain b c ds \<Longrightarrow> chunk_chain a c (cs @ ds)"
  by (induction cs arbitrary: a) (auto intro: chunk_chain_mono)

lemma chunk_chain_within: "chunk_chain a b cs \<Longrightarrow> c \<in> set cs \<Longrightarrow> a \<le> sc_stream_offset c \<and> sc_end c \<le> b"
  by (induction cs arbitrary: a) (auto dest: chunk_chain_le, meson sc_end_ge order_trans)

lemma chunk_chain_sorted: "chunk_chain a b cs \<Longrightarrow> sorted_wrt (\<lambda>c c'. sc_end c \<le> sc_stream_offset c') cs"
  by (induction cs arbitrary: a) (auto dest: chunk_chain_within)

text \<open>What an operation on one direction does: the accounting, what stays queued, how far the stream
  moves, and the chunks it emits, whose bytes all come from the queue at their positions.\<close>

definition dir_step ::
  "FlowKey \<Rightarrow> nat \<Rightarrow> TCPReassembler \<Rightarrow> DirectionState \<Rightarrow> TCPReassembler \<Rightarrow> DirectionState
     \<Rightarrow> StreamChunk list \<Rightarrow> bool" where
  "dir_step flow i t d t' d' cs \<longleftrightarrow> acct t d t' d' \<and> suffix (ds_pending d') (ds_pending d)
     \<and> (case ds_next_seq d of
          None \<Rightarrow> cs = [] \<and> ds_next_seq d' = None \<and> ds_stream_offset d' = ds_stream_offset d
        | Some n \<Rightarrow> (\<exists>n'. ds_next_seq d' = Some n' \<and> ds_stream_offset d' - n' = ds_stream_offset d - n)
            \<and> (\<forall>c \<in> set cs. \<forall>k < length (sc_data c). \<exists>s \<in> set (ds_pending d).
                 ts.at s (n - ds_stream_offset d + sc_stream_offset c + int k) = Some (sc_data c ! k)))
     \<and> chunk_chain (ds_stream_offset d) (ds_stream_offset d') cs
     \<and> (\<forall>c \<in> set cs. chunk_ok c \<and> sc_flow c = flow \<and> sc_direction c = i
          \<and> sc_connection_epoch c = ds_connection_epoch d)"

lemma dir_step_refl [simp]: "dir_step flow i t d t d []"
  by (simp add: dir_step_def split: option.splits)

lemma dir_step_trans:
  assumes 1: "dir_step flow i t d t1 d1 cs" and 2: "dir_step flow i t1 d1 t2 d2 ds"
  shows "dir_step flow i t d t2 d2 (cs @ ds)"
proof -
  have a: "acct t d t2 d2" using 1 2 acct_trans by (auto simp: dir_step_def)
  have c: "chunk_chain (ds_stream_offset d) (ds_stream_offset d2) (cs @ ds)"
    using 1 2 chunk_chain_append by (auto simp: dir_step_def)
  have e: "ds_connection_epoch d1 = ds_connection_epoch d" using 1 by (simp add: dir_step_def acct_def)
  have suf: "suffix (ds_pending d2) (ds_pending d)"
    using 1 2 suffix_order.trans by (auto simp: dir_step_def)
  show ?thesis
  proof (cases "ds_next_seq d")
    case None
    then show ?thesis using 1 2 a suf by (auto simp: dir_step_def e)
  next
    case (Some n)
    then obtain n1 where n1: "ds_next_seq d1 = Some n1" "ds_stream_offset d1 - n1 = ds_stream_offset d - n"
      using 1 by (auto simp: dir_step_def)
    then obtain n2 where n2: "ds_next_seq d2 = Some n2" "ds_stream_offset d2 - n2 = ds_stream_offset d - n"
      using 2 by (auto simp: dir_step_def)
    have base: "n1 - ds_stream_offset d1 = n - ds_stream_offset d" using n1(2) by simp
    have sub: "set (ds_pending d1) \<subseteq> set (ds_pending d)"
      using 1 by (auto simp: dir_step_def dest: set_mono_suffix)
    have "\<exists>s \<in> set (ds_pending d). ts.at s (n - ds_stream_offset d + sc_stream_offset c + int k) = Some (sc_data c ! k)"
      if "c \<in> set (cs @ ds)" "k < length (sc_data c)" for c k
    proof (cases "c \<in> set cs")
      case True
      then show ?thesis using 1 Some that by (auto simp: dir_step_def)
    next
      case False
      then show ?thesis using 2 n1(1) that sub base by (fastforce simp: dir_step_def)
    qed
    then show ?thesis using 1 2 a c e Some n2 suf by (auto simp: dir_step_def)
  qed
qed

lemma remember_consumed_keeps [simp]:
  "ds_pending (remember_consumed l s x d) = ds_pending d"
  "ds_pending_bytes (remember_consumed l s x d) = ds_pending_bytes d"
  "ds_stream_offset (remember_consumed l s x d) = ds_stream_offset d"
  "ds_connection_epoch (remember_consumed l s x d) = ds_connection_epoch d"
  "ds_next_seq (remember_consumed l s x d) = ds_next_seq d"
  "ds_closed (remember_consumed l s x d) = ds_closed d"
  by (simp_all add: remember_consumed_def Let_def)

lemma remember_consumed_bound:
  "0 \<le> l \<Longrightarrow> int (length (ds_consumed_history d)) \<le> l \<Longrightarrow>
     int (length (ds_consumed_history (remember_consumed l s x d))) \<le> l"
  by (auto simp: remember_consumed_def Let_def)

text \<open>The drain loop, from any point of the queue.\<close>

definition acc_ok :: "int \<Rightarrow> int \<Rightarrow> DrainAcc \<Rightarrow> bool" where
  "acc_ok a b acc \<longleftrightarrow> tiles (da_spans acc) a b \<and> a + int (length (concat (da_parts acc))) = b
     \<and> span_ids (da_spans acc) = set (da_packet_ids acc) \<and> distinct (da_packet_ids acc)
     \<and> (da_parts acc = [] \<longleftrightarrow> da_timestamps acc = []) \<and> (\<forall>x \<in> set (da_parts acc). x \<noteq> [])"

definition queue_moves ::
  "TcpSegment list \<Rightarrow> TCPReassembler \<Rightarrow> DirectionState \<Rightarrow> TCPReassembler \<Rightarrow> DirectionState \<Rightarrow> bool" where
  "queue_moves pend t d t' d' \<longleftrightarrow> same_table t t' \<and> ds_connection_epoch d' = ds_connection_epoch d
    \<and> ds_closed d' = ds_closed d
    \<and> tr_buffered_bytes t' - ds_pending_bytes d' = tr_buffered_bytes t - ds_pending_bytes d
    \<and> tr_buffered_segments t' - int (length (ds_pending d')) = tr_buffered_segments t - int (length pend)
    \<and> ds_pending_bytes d' - segments_bytes (ds_pending d') = ds_pending_bytes d - segments_bytes pend
    \<and> (\<exists>k. ds_pending d' = drop k pend)
    \<and> (0 \<le> tr_consumed_history_bytes t \<and> int (length (ds_consumed_history d)) \<le> tr_consumed_history_bytes t
         \<longrightarrow> int (length (ds_consumed_history d')) \<le> tr_consumed_history_bytes t)"

definition stream_moves ::
  "int \<Rightarrow> TcpSegment list \<Rightarrow> DirectionState \<Rightarrow> DrainAcc \<Rightarrow> DirectionState \<Rightarrow> DrainAcc \<Rightarrow> bool" where
  "stream_moves n pend d acc d' acc' \<longleftrightarrow>
    (\<exists>n'. ds_next_seq d' = Some n' \<and> ds_stream_offset d' - n' = ds_stream_offset d - n
       \<and> (\<forall>s \<in> set (ds_pending d'). n' < sg_start s))
    \<and> (\<forall>a. acc_ok a (ds_stream_offset d) acc \<longrightarrow> acc_ok a (ds_stream_offset d') acc')
    \<and> (\<exists>ps. da_parts acc' = da_parts acc @ ps
         \<and> (\<forall>k < length (concat ps). \<exists>s \<in> set pend. ts.at s (n + int k) = Some (concat ps ! k)))"

lemma queue_moves_unqueue:
  assumes "queue_moves rest t1 d1 t' d'"
    and "t1 = unqueue_self seg t \<or> (\<exists>x. t1 = count_retransmitted x (unqueue_self seg t))"
    and "ds_connection_epoch d1 = ds_connection_epoch d" "ds_closed d1 = ds_closed d"
    "ds_pending_bytes d1 = ds_pending_bytes d - int (length (sg_data seg))"
    and "0 \<le> tr_consumed_history_bytes t \<and> int (length (ds_consumed_history d)) \<le> tr_consumed_history_bytes t
         \<longrightarrow> int (length (ds_consumed_history d1)) \<le> tr_consumed_history_bytes t"
  shows "queue_moves (seg # rest) t d t' d'"
proof -
  obtain k where "ds_pending d' = drop k rest" using assms(1) by (auto simp: queue_moves_def)
  then have "ds_pending d' = drop (Suc k) (seg # rest)" by simp
  then have k: "\<exists>k. ds_pending d' = drop k (seg # rest)" by blast
  have t1: "same_table t t1" "tr_buffered_bytes t1 = tr_buffered_bytes t - int (length (sg_data seg))"
    "tr_buffered_segments t1 = tr_buffered_segments t - 1" "tr_consumed_history_bytes t1 = tr_consumed_history_bytes t"
    using assms(2) by (auto simp: unqueue_self_def count_retransmitted_def same_table_def tcp_limits_of_def)
  then have "same_table t t'" using assms(1) by (simp add: queue_moves_def same_table_def)
  with assms(1,3-6) t1 k show ?thesis by (simp add: queue_moves_def)
qed

lemma stream_moves_skip:
  assumes "stream_moves n rest d1 acc d' acc'" "ds_stream_offset d1 = ds_stream_offset d"
  shows "stream_moves n (seg # rest) d acc d' acc'"
  using assms unfolding stream_moves_def by (metis list.set_intros(2))

lemma acc_ok_extend:
  assumes "acc_ok a b acc" "x \<noteq> []"
  shows "acc_ok a (b + int (length x))
    \<lparr>da_parts = da_parts acc @ [x], da_packet_ids = dedup_onto (da_packet_ids acc) ids,
     da_spans = append_span (da_spans acc)
       \<lparr>ps_stream_start = b, ps_stream_end = b + int (length x), ps_packet_ids = ids, ps_packet_ids_complete = True\<rparr>,
     da_timestamps = da_timestamps acc @ [ts]\<rparr>"
proof -
  let ?s = "\<lparr>ps_stream_start = b, ps_stream_end = b + int (length x), ps_packet_ids = ids, ps_packet_ids_complete = True\<rparr>"
  have "tiles (append_span (da_spans acc) ?s) a (ps_stream_end ?s)"
    using assms by (intro append_span_tiles) (auto simp: acc_ok_def)
  with assms show ?thesis by (auto simp: acc_ok_def append_span_ids distinct_dedup_onto)
qed

lemma stream_moves_take:
  assumes "stream_moves (n + int (length x)) rest d1
      \<lparr>da_parts = da_parts acc @ [x], da_packet_ids = dedup_onto (da_packet_ids acc) ids,
       da_spans = append_span (da_spans acc)
         \<lparr>ps_stream_start = ds_stream_offset d, ps_stream_end = ds_stream_offset d + int (length x),
          ps_packet_ids = ids, ps_packet_ids_complete = True\<rparr>,
       da_timestamps = da_timestamps acc @ [tm]\<rparr> d' acc'"
    and "ds_stream_offset d1 = ds_stream_offset d + int (length x)" "x \<noteq> []"
    and x: "\<And>k. k < length x \<Longrightarrow> ts.at seg (n + int k) = Some (x ! k)"
  shows "stream_moves n (seg # rest) d acc d' acc'"
proof -
  obtain ps where ps: "da_parts acc' = da_parts acc @ x # ps"
    "\<And>k. k < length (concat ps) \<Longrightarrow> \<exists>s \<in> set rest. ts.at s (n + int (length x) + int k) = Some (concat ps ! k)"
    using assms(1) by (auto simp: stream_moves_def)
  have "\<exists>s \<in> set (seg # rest). ts.at s (n + int k) = Some (concat (x # ps) ! k)"
    if k: "k < length (concat (x # ps))" for k
  proof (cases "k < length x")
    case True
    then show ?thesis using x by (simp add: nth_append)
  next
    case False
    then have "n + int (length x) + int (k - length x) = n + int k" "k - length x < length (concat ps)"
      using k by auto
    with ps(2) [of "k - length x"] False show ?thesis by (auto simp: nth_append)
  qed
  then have "\<exists>qs. da_parts acc' = da_parts acc @ qs
    \<and> (\<forall>k < length (concat qs). \<exists>s \<in> set (seg # rest). ts.at s (n + int k) = Some (concat qs ! k))"
    using ps(1) by blast
  moreover have "acc_ok a (ds_stream_offset d') acc'" if "acc_ok a (ds_stream_offset d) acc" for a
    using assms(1,2) acc_ok_extend [OF that assms(3)] by (auto simp: stream_moves_def)
  ultimately show ?thesis using assms(1,2) unfolding stream_moves_def by auto
qed

lemma drain_loop_facts:
  assumes "drain_loop n pend t d acc = (t', d', acc')" "ts.chain pend" "ts.filled pend"
  shows "queue_moves pend t d t' d' \<and> stream_moves n pend d acc d' acc'
    \<and> (pend \<noteq> [] \<and> sg_start (hd pend) \<le> n \<longrightarrow> length (ds_pending d') < length pend)
    \<and> length (ds_pending d') \<le> length pend"
  using assms
proof (induction n pend t d acc arbitrary: t' d' acc' rule: drain_loop.induct)
  case (1 n t d acc)
  then show ?case by (auto simp: queue_moves_def stream_moves_def)
next
  case (2 n seg rest t d acc)
  have ch: "ts.chain rest" "ts.filled rest" and ne: "sg_data seg \<noteq> []"
    using "2.prems"(2,3) by (auto simp: ts.chain_def ts.filled_def)
  have after: "\<forall>s \<in> set rest. sg_end seg \<le> sg_start s"
    using "2.prems"(2) by (auto simp: ts.chain_def sg_end_def)
  consider (old) "sg_end seg \<le> n" | (later) "\<not> sg_end seg \<le> n" "sg_start seg > n"
    | (now) "\<not> sg_end seg \<le> n" "\<not> sg_start seg > n" by blast
  then show ?case
  proof cases
    case old
    let ?t1 = "count_retransmitted (int (length (sg_data seg))) (unqueue_self seg t)"
    let ?d1 = "unqueue_dir seg rest d"
    have "drain_loop n rest ?t1 ?d1 acc = (t', d', acc')" using "2.prems"(1) old by simp
    from "2.IH"(1) [OF old this ch] have q: "queue_moves rest ?t1 ?d1 t' d'"
      "stream_moves n rest ?d1 acc d' acc'" "length (ds_pending d') \<le> length rest" by auto
    have "queue_moves (seg # rest) t d t' d'"
      by (rule queue_moves_unqueue [OF q(1)]) (auto simp: unqueue_dir_def)
    moreover have "stream_moves n (seg # rest) d acc d' acc'"
      by (rule stream_moves_skip [OF q(2)]) (simp add: unqueue_dir_def)
    ultimately show ?thesis using q(3) by simp
  next
    case later
    then have r: "t' = t" "acc' = acc" "d' = d\<lparr>ds_next_seq := Some n, ds_pending := seg # rest\<rparr>"
      using "2.prems"(1) by auto
    have "n < sg_start s" if "s \<in> set rest" for s
      using later after that by (fastforce simp: sg_end_def)
    then have "queue_moves (seg # rest) t d t' d'" "stream_moves n (seg # rest) d acc d' acc'"
      using later by (auto simp: r queue_moves_def stream_moves_def intro: exI [of _ "0 :: nat"])
    then show ?thesis using later r by auto
  next
    case now
    let ?trim = "max 0 (n - sg_start seg)"
    let ?x = "drop (nat ?trim) (sg_data seg)"
    let ?t1 = "if ?trim \<noteq> 0 then count_retransmitted ?trim (unqueue_self seg t) else unqueue_self seg t"
    let ?d1 = "unqueue_dir seg rest d"
    let ?d2 = "remember_consumed (tr_consumed_history_bytes ?t1) n ?x ?d1"
    let ?d3 = "?d2\<lparr>ds_stream_offset := ds_stream_offset ?d2 + int (length ?x)\<rparr>"
    let ?acc = "\<lparr>da_parts = da_parts acc @ [?x],
      da_packet_ids = dedup_onto (da_packet_ids acc) (sg_packet_ids seg),
      da_spans = append_span (da_spans acc)
        \<lparr>ps_stream_start = ds_stream_offset ?d1, ps_stream_end = ds_stream_offset ?d1 + int (length ?x),
         ps_packet_ids = sg_packet_ids seg, ps_packet_ids_complete = True\<rparr>,
      da_timestamps = da_timestamps acc @ [sg_timestamp_ns seg]\<rparr>"
    have x: "?x \<noteq> []" using now by (auto simp: sg_end_def)
    have at: "ts.at seg (n + int k) = Some (?x ! k)" if "k < length ?x" for k
    proof -
      have "nat (n + int k - sg_start seg) = nat ?trim + k" using now by auto
      then show ?thesis using now that by (auto simp: seg_at_def)
    qed
    have "drain_loop (n + int (length ?x)) rest ?t1 ?d3 ?acc = (t', d', acc')"
      using "2.prems"(1)
      unfolding drain_loop.simps(2) Let_def if_not_P [OF now(1)] if_not_P [OF now(2)] if_not_P [OF x] .
    from "2.IH"(3) [OF now refl refl refl refl x refl refl refl refl this ch]
    have q: "queue_moves rest ?t1 ?d3 t' d'" "stream_moves (n + int (length ?x)) rest ?d3 ?acc d' acc'"
      "length (ds_pending d') \<le> length rest" by auto
    have "queue_moves (seg # rest) t d t' d'"
    proof (rule queue_moves_unqueue [OF q(1)])
      have "tr_consumed_history_bytes ?t1 = tr_consumed_history_bytes t"
        by (simp add: count_retransmitted_def unqueue_self_def)
      then show "0 \<le> tr_consumed_history_bytes t \<and> int (length (ds_consumed_history d)) \<le> tr_consumed_history_bytes t
         \<longrightarrow> int (length (ds_consumed_history ?d3)) \<le> tr_consumed_history_bytes t"
        using remember_consumed_bound [of "tr_consumed_history_bytes t" ?d1 n ?x]
        by (simp add: unqueue_dir_def)
    qed (auto simp: unqueue_dir_def)
    moreover have "stream_moves n (seg # rest) d acc d' acc'"
      using q(2) x at by (intro stream_moves_take [of n ?x rest ?d3 acc "sg_packet_ids seg" d "sg_timestamp_ns seg"])
        (simp_all add: unqueue_dir_def)
    ultimately show ?thesis using q(3) by simp
  qed
qed

section \<open>Operations on one direction\<close>

definition history_limit_ok :: "TCPReassembler \<Rightarrow> bool" where
  "history_limit_ok t \<longleftrightarrow> 0 \<le> tr_consumed_history_bytes t"

abbreviation queue_ok :: "TCPReassembler \<Rightarrow> bool \<Rightarrow> DirectionState \<Rightarrow> bool" where
  "queue_ok t \<equiv> dir_queue (tr_consumed_history_bytes t)"

lemma same_table_history: "same_table t t' \<Longrightarrow> tr_consumed_history_bytes t' = tr_consumed_history_bytes t"
  by (simp add: same_table_def tcp_limits_of_def)

lemma dir_step_table: "dir_step flow i t d t' d' cs \<Longrightarrow> same_table t t'"
  by (simp add: dir_step_def acct_def)

lemma dir_step_history: "dir_step flow i t d t' d' cs \<Longrightarrow> tr_consumed_history_bytes t' = tr_consumed_history_bytes t"
  by (rule same_table_history [OF dir_step_table])

lemma chain_drop: "ts.chain xs \<Longrightarrow> ts.chain (drop k xs)"
  by (simp add: ts.chain_def sorted_wrt_drop)

lemma filled_drop: "ts.filled xs \<Longrightarrow> ts.filled (drop k xs)"
  by (auto simp: ts.filled_def dest: in_set_dropD)

lemma tcp_drain_step:
  assumes q: "queue_ok t b d" and h: "history_limit_ok t" and r: "tcp_drain t d flow i g = (t', d', cs)"
  shows "dir_step flow i t d t' d' cs" "queue_ok t True d'" "ds_closed d' = ds_closed d"
    "length (ds_pending d') \<le> length (ds_pending d)"
    "ds_pending d \<noteq> [] \<Longrightarrow> ds_next_seq d = Some n \<Longrightarrow> sg_start (hd (ds_pending d)) \<le> n \<Longrightarrow>
       length (ds_pending d') < length (ds_pending d)"
proof -
  have "dir_step flow i t d t' d' cs \<and> queue_ok t True d' \<and> ds_closed d' = ds_closed d
    \<and> length (ds_pending d') \<le> length (ds_pending d)
    \<and> (ds_pending d \<noteq> [] \<and> ds_next_seq d = Some n \<and> sg_start (hd (ds_pending d)) \<le> n \<longrightarrow>
       length (ds_pending d') < length (ds_pending d))"
  proof (cases "ds_next_seq d = None \<or> ds_pending d = []")
    case True
    then have "t' = t" "d' = d" "cs = []" "ds_pending d = []"
      using r q by (auto simp: tcp_drain_def dir_queue_def split: option.splits)
    then show ?thesis using q by (auto simp: dir_queue_def)
  next
    case False
    then obtain m where m: "ds_next_seq d = Some m" and ne: "ds_pending d \<noteq> []" by auto
    let ?e = "\<lparr>da_parts = [], da_packet_ids = [], da_spans = [], da_timestamps = []\<rparr>"
    obtain t1 d1 acc where l: "drain_loop m (ds_pending d) t d ?e = (t1, d1, acc)"
      by (metis prod_cases3)
    have td: "t' = t1" "d' = d1" using r m ne l by (auto simp: tcp_drain_def Let_def split: if_splits)
    have ch: "ts.chain (ds_pending d)" "ts.filled (ds_pending d)" using q by (auto simp: dir_queue_def)
    note f = drain_loop_facts [OF l ch]
    have e0: "acc_ok (ds_stream_offset d) (ds_stream_offset d) ?e" by (simp add: acc_ok_def span_ids_def)
    have qm: "queue_moves (ds_pending d) t d t1 d1"
      and sm: "stream_moves m (ds_pending d) d ?e d1 acc" using f by blast+
    from qm obtain k where k: "ds_pending d1 = drop k (ds_pending d)"
      unfolding queue_moves_def by blast
    from sm obtain n' where n': "ds_next_seq d1 = Some n'" "ds_stream_offset d1 - n' = ds_stream_offset d - m"
        "\<forall>s \<in> set (ds_pending d1). n' < sg_start s"
      unfolding stream_moves_def by blast
    have acc: "acc_ok (ds_stream_offset d) (ds_stream_offset d1) acc"
      using sm e0 unfolding stream_moves_def by blast
    have parts: "\<exists>s \<in> set (ds_pending d). ts.at s (m + int k) = Some (concat (da_parts acc) ! k)"
      if "k < length (concat (da_parts acc))" for k
      using sm that by (auto simp: stream_moves_def)
    have sub: "suffix (ds_pending d1) (ds_pending d)" unfolding k by (rule suffix_drop)
    have queue: "queue_ok t True d1"
      using qm q h n' k ch chain_drop [of "ds_pending d" k] filled_drop [of "ds_pending d" k]
      unfolding dir_queue_def queue_moves_def history_limit_ok_def by auto
    have a: "acct t d t1 d1" using qm by (simp add: acct_def queue_moves_def)
    have off: "ds_stream_offset d + int (length (concat (da_parts acc))) = ds_stream_offset d1"
      using acc by (simp add: acc_ok_def)
    have "dir_step flow i t d t1 d1 cs"
    proof (cases "da_parts acc = []")
      case True
      then have "cs = []" using r m ne l by (simp add: tcp_drain_def)
      then show ?thesis using a sub n' m off True by (simp add: dir_step_def)
    next
      case parts_ne: False
      define c where "c = hd cs"
      have c: "cs = [c]" "sc_stream_offset c = ds_stream_offset d"
        "sc_data c = concat (da_parts acc)" "sc_packet_ids c = da_packet_ids acc"
        "sc_provenance_spans c = da_spans acc" "sc_flow c = flow" "sc_direction c = i"
        "sc_connection_epoch c = ds_connection_epoch d1"
        "sc_first_timestamp_ns c = Min (set (da_timestamps acc))"
        "sc_last_timestamp_ns c = Max (set (da_timestamps acc))"
        using r m ne l parts_ne by (auto simp: tcp_drain_def c_def)
      have se: "sc_end c = ds_stream_offset d1" using off by (simp add: sc_end_def c)
      have "da_timestamps acc \<noteq> []" "concat (da_parts acc) \<noteq> []"
        using acc parts_ne by (auto simp: acc_ok_def)
      then have "chunk_ok c" using acc unfolding chunk_ok_def se by (auto simp: c acc_ok_def)
      then show ?thesis using a sub n' m c parts se
        by (simp add: dir_step_def acct_def algebra_simps)
    qed
    then show ?thesis using queue f td m ch qm by (auto simp: queue_moves_def)
  qed
  then show "dir_step flow i t d t' d' cs" "queue_ok t True d'" "ds_closed d' = ds_closed d"
    "length (ds_pending d') \<le> length (ds_pending d)"
    "ds_pending d \<noteq> [] \<Longrightarrow> ds_next_seq d = Some n \<Longrightarrow> sg_start (hd (ds_pending d)) \<le> n \<Longrightarrow>
       length (ds_pending d') < length (ds_pending d)" by blast+
qed

text \<open>An operation on a direction that keeps its queue in order and leaves nothing deliverable in it.\<close>

definition dir_op ::
  "FlowKey \<Rightarrow> nat \<Rightarrow> TCPReassembler \<Rightarrow> DirectionState \<Rightarrow> TCPReassembler \<times> DirectionState \<times> StreamChunk list \<Rightarrow> bool" where
  "dir_op flow i t d r \<longleftrightarrow> (case r of (t', d', cs) \<Rightarrow>
     dir_step flow i t d t' d' cs \<and> queue_ok t' True d' \<and> history_limit_ok t' \<and> ds_closed d' = ds_closed d
     \<and> length (ds_pending d') \<le> length (ds_pending d))"

lemma tcp_drain_op:
  "queue_ok t b d \<Longrightarrow> history_limit_ok t \<Longrightarrow> dir_op flow i t d (tcp_drain t d flow i g)"
  using tcp_drain_step [of t b d flow i g] dir_step_history
  by (fastforce simp: dir_op_def history_limit_ok_def split: prod.splits)

lemma dir_op_trans:
  assumes "dir_op flow i t d (t1, d1, cs)" "dir_op flow i t1 d1 (t2, d2, ds)"
  shows "dir_op flow i t d (t2, d2, cs @ ds)"
  using assms dir_step_trans by (fastforce simp: dir_op_def)

lemma skip_op:
  assumes q: "queue_ok t b d" and h: "history_limit_ok t"
  shows "dir_op flow i t d (skip_to_next_segment t d flow i)"
    and "ds_pending d \<noteq> [] \<Longrightarrow> length (ds_pending (fst (snd (skip_to_next_segment t d flow i)))) < length (ds_pending d)"
proof -
  have "dir_op flow i t d (skip_to_next_segment t d flow i)
    \<and> (ds_pending d \<noteq> [] \<longrightarrow> length (ds_pending (fst (snd (skip_to_next_segment t d flow i)))) < length (ds_pending d))"
  proof (cases "ds_pending d")
    case Nil
    have "dir_op flow i t d (t, d, [])" using q h Nil by (auto simp: dir_op_def dir_queue_def)
    then show ?thesis using Nil by (simp add: skip_to_next_segment_def split: option.splits)
  next
    case (Cons first rest)
    then obtain n where n: "ds_next_seq d = Some n" using q by (auto simp: dir_queue_def)
    have le: "n \<le> sg_start first" using q n Cons by (auto simp: dir_queue_def)
    show ?thesis
    proof (cases "sg_start first > n")
      case True
      define t1 where "t1 = t\<lparr>tr_gap_bytes := tr_gap_bytes t + (sg_start first - n)\<rparr>"
      define d1 where "d1 = d\<lparr>ds_next_seq := Some (sg_start first),
          ds_stream_offset := ds_stream_offset d + (sg_start first - n), ds_had_gap := True\<rparr>"
      have eq: "skip_to_next_segment t d flow i = tcp_drain t1 d1 flow i True"
        using n Cons True by (simp add: skip_to_next_segment_def t1_def d1_def Let_def)
      have step: "dir_step flow i t d t1 d1 []"
        using True n by (simp add: dir_step_def acct_def same_table_def tcp_limits_of_def t1_def d1_def)
      have "\<forall>s \<in> set rest. sg_start first \<le> sg_start s"
        using q Cons by (fastforce simp: dir_queue_def ts.chain_def)
      then have q1: "queue_ok t1 False d1" "history_limit_ok t1"
        using q h Cons by (auto simp: dir_queue_def history_limit_ok_def t1_def d1_def)
      obtain t2 d2 cs where r: "tcp_drain t1 d1 flow i True = (t2, d2, cs)" by (metis prod_cases3)
      note f = tcp_drain_step [OF q1 r]
      have "dir_step flow i t d t2 d2 ([] @ cs)" by (rule dir_step_trans [OF step f(1)])
      moreover have "length (ds_pending d2) < length (ds_pending d)"
        using f(5) [of "sg_start first"] Cons by (simp add: d1_def)
      ultimately show ?thesis
        using f(2,3) dir_step_history [OF f(1)] q1(2) unfolding eq r
        by (simp add: dir_op_def history_limit_ok_def) (simp add: d1_def)
    next
      case False
      then have eq: "skip_to_next_segment t d flow i = tcp_drain t d flow i True"
        using n Cons by (simp add: skip_to_next_segment_def)
      obtain t2 d2 cs where r: "tcp_drain t d flow i True = (t2, d2, cs)" by (metis prod_cases3)
      have "length (ds_pending d2) < length (ds_pending d)"
        using tcp_drain_step(5) [OF q h r _ n] Cons False by simp
      then show ?thesis using tcp_drain_op [OF q h, of flow i True] unfolding eq r by simp
    qed
  qed
  then show "dir_op flow i t d (skip_to_next_segment t d flow i)"
    and "ds_pending d \<noteq> [] \<Longrightarrow> length (ds_pending (fst (snd (skip_to_next_segment t d flow i)))) < length (ds_pending d)"
    by blast+
qed

lemma flush_round_op:
  assumes q: "queue_ok t b d" and h: "history_limit_ok t" and ne: "ds_pending d \<noteq> []"
  shows "dir_op flow i t d (flush_round t d flow i)"
    and "length (ds_pending (fst (snd (flush_round t d flow i)))) < length (ds_pending d)"
proof -
  obtain t1 d1 c1 where r1: "tcp_drain t d flow i False = (t1, d1, c1)" by (metis prod_cases3)
  have o1: "dir_op flow i t d (t1, d1, c1)" using tcp_drain_op [OF q h, of flow i False] r1 by simp
  then have q1: "queue_ok t1 True d1" "history_limit_ok t1" "length (ds_pending d1) \<le> length (ds_pending d)"
    by (auto simp: dir_op_def)
  obtain t2 d2 c2 where r2: "skip_to_next_segment t1 d1 flow i = (t2, d2, c2)" by (metis prod_cases3)
  note s = skip_op [OF q1(1,2), of flow i, unfolded r2]
  show "dir_op flow i t d (flush_round t d flow i)"
    using o1 dir_op_trans [OF o1 s(1)] by (auto simp: flush_round_def r1 r2)
  show "length (ds_pending (fst (snd (flush_round t d flow i)))) < length (ds_pending d)"
    using q1(3) s(2) ne by (auto simp: flush_round_def r1 r2)
qed

text \<open>Flushing a direction ends, and leaves its queue empty.\<close>

lemma flush_direction_total:
  "queue_ok t True d \<Longrightarrow> history_limit_ok t \<Longrightarrow>
   \<exists>t' d' cs. flush_direction t d flow i chunks = Some (t', d', chunks @ cs)
     \<and> dir_op flow i t d (t', d', cs) \<and> ds_pending d' = []"
proof (induction "length (ds_pending d)" arbitrary: t d chunks rule: less_induct)
  case less
  show ?case
  proof (cases "ds_pending d = []")
    case True
    then have "flush_direction t d flow i chunks = Some (t, d, chunks @ [])"
      by (subst flush_direction.simps) simp
    moreover have "dir_op flow i t d (t, d, [])" using less.prems by (simp add: dir_op_def)
    ultimately show ?thesis using True by blast
  next
    case False
    obtain t1 d1 c1 where r1: "flush_round t d flow i = (t1, d1, c1)" by (metis prod_cases3)
    note f = flush_round_op [OF less.prems False, of flow i, unfolded r1]
    have q1: "queue_ok t1 True d1" "history_limit_ok t1" using f(1) by (auto simp: dir_op_def)
    from less.hyps [OF _ q1, of "chunks @ c1"] f(2) obtain t2 d2 c2
      where r2: "flush_direction t1 d1 flow i (chunks @ c1) = Some (t2, d2, (chunks @ c1) @ c2)"
        "dir_op flow i t1 d1 (t2, d2, c2)" "ds_pending d2 = []" by auto
    have "flush_direction t d flow i chunks = Some (t2, d2, chunks @ (c1 @ c2))"
      using False r2(1) by (subst flush_direction.simps) (simp add: r1)
    then show ?thesis using dir_op_trans [OF f(1) r2(2)] r2(3) by blast
  qed
qed

lemma drain_loop_takes:
  assumes r: "drain_loop n (seg # rest) t d acc = (t', d', acc')" and ch: "ts.chain rest" "ts.filled rest"
    and now: "\<not> sg_end seg \<le> n" "\<not> sg_start seg > n"
  shows "da_parts acc' \<noteq> []"
proof -
  have x: "drop (nat (max 0 (n - sg_start seg))) (sg_data seg) \<noteq> []" using now by (auto simp: sg_end_def)
  note r' = r [unfolded drain_loop.simps(2) Let_def if_not_P [OF now(1)] if_not_P [OF now(2)] if_not_P [OF x]]
  from drain_loop_facts [OF r' ch] show ?thesis by (auto simp: stream_moves_def)
qed

lemma skip_emits:
  assumes q: "queue_ok t True d" and h: "history_limit_ok t" and ne: "ds_pending d \<noteq> []"
  shows "snd (snd (skip_to_next_segment t d flow i)) \<noteq> []"
proof -
  obtain seg rest where pend: "ds_pending d = seg # rest" using ne by (cases "ds_pending d") auto
  obtain n where n: "ds_next_seq d = Some n" using q ne by (auto simp: dir_queue_def)
  have gap: "sg_start seg > n" and ch: "ts.chain rest" "ts.filled rest" and end_gt: "\<not> sg_end seg \<le> sg_start seg"
    using q n pend by (auto simp: dir_queue_def ts.chain_def ts.filled_def sg_end_def)
  define t1 where "t1 = t\<lparr>tr_gap_bytes := tr_gap_bytes t + (sg_start seg - n)\<rparr>"
  define d1 where "d1 = d\<lparr>ds_next_seq := Some (sg_start seg),
      ds_stream_offset := ds_stream_offset d + (sg_start seg - n), ds_had_gap := True\<rparr>"
  obtain t2 d2 acc where r: "drain_loop (sg_start seg) (seg # rest) t1 d1
      \<lparr>da_parts = [], da_packet_ids = [], da_spans = [], da_timestamps = []\<rparr> = (t2, d2, acc)"
    by (metis prod_cases3)
  have "skip_to_next_segment t d flow i = tcp_drain t1 d1 flow i True"
    using n pend gap by (simp add: skip_to_next_segment_def t1_def d1_def Let_def)
  moreover have "snd (snd (tcp_drain t1 d1 flow i True)) \<noteq> []"
    using drain_loop_takes [OF r ch end_gt] unfolding tcp_drain_def
    by (simp add: d1_def pend r [unfolded d1_def] del: drain_loop.simps)
  ultimately show ?thesis by simp
qed

lemma force_skips_total:
  "queue_ok t True d \<Longrightarrow> history_limit_ok t \<Longrightarrow>
   \<exists>t' d' cs. force_skips t d flow i chunks = Some (t', d', chunks @ cs) \<and> dir_op flow i t d (t', d', cs)
     \<and> (1 \<le> tr_max_pending_per_direction t \<and> 1 \<le> tr_max_segments_per_direction t \<longrightarrow> \<not> direction_over t' d')"
proof (induction "length (ds_pending d)" arbitrary: t d chunks rule: less_induct)
  case less
  let ?s = "skip_to_next_segment t d flow i"
  obtain t1 d1 c1 where r1: "?s = (t1, d1, c1)" by (metis prod_cases3)
  note f = skip_op [OF less.prems, of flow i, unfolded r1]
  show ?case
  proof (cases "direction_over t d")
    case False
    then have "force_skips t d flow i chunks = Some (t, d, chunks @ [])" by (subst force_skips.simps) simp
    moreover have "dir_op flow i t d (t, d, [])" using less.prems by (simp add: dir_op_def)
    ultimately show ?thesis using False by blast
  next
    case True
    show ?thesis
    proof (cases "c1 = []")
      case empty: True
      then have "force_skips t d flow i chunks = Some (t1, d1, chunks @ [])"
        using True by (subst force_skips.simps) (simp add: r1)
      moreover have "\<not> (1 \<le> tr_max_pending_per_direction t \<and> 1 \<le> tr_max_segments_per_direction t)"
      proof (cases "ds_pending d = []")
        case True
        then show ?thesis using \<open>direction_over t d\<close> less.prems(1)
          by (auto simp: direction_over_def dir_queue_def)
      next
        case False
        then show ?thesis using skip_emits [OF less.prems False, of flow i] empty r1 by simp
      qed
      ultimately show ?thesis using f(1) empty by blast
    next
      case False
      then have eq: "force_skips t d flow i chunks = force_skips t1 d1 flow i (chunks @ c1)"
        using True by (subst force_skips.simps) (simp add: r1)
      have ne: "ds_pending d \<noteq> []"
        using r1 False by (auto simp: skip_to_next_segment_def split: option.splits)
      have q1: "queue_ok t1 True d1" "history_limit_ok t1" using f(1) by (auto simp: dir_op_def)
      have lim: "tr_max_pending_per_direction t1 = tr_max_pending_per_direction t"
        "tr_max_segments_per_direction t1 = tr_max_segments_per_direction t"
        using f(1) by (auto simp: dir_op_def dir_step_def acct_def same_table_def tcp_limits_of_def)
      from less.hyps [OF _ q1, of "chunks @ c1"] f(2) ne obtain t2 d2 c2
        where r2: "force_skips t1 d1 flow i (chunks @ c1) = Some (t2, d2, (chunks @ c1) @ c2)"
          "dir_op flow i t1 d1 (t2, d2, c2)"
          "1 \<le> tr_max_pending_per_direction t \<and> 1 \<le> tr_max_segments_per_direction t \<longrightarrow> \<not> direction_over t2 d2"
        by (auto simp: lim)
      then show ?thesis using eq dir_op_trans [OF f(1) r2(2)] by auto
    qed
  qed
qed

text \<open>Queueing a payload that reaches past the next expected position.\<close>

definition payload_at :: "ParsedPacket \<Rightarrow> int \<Rightarrow> byte \<Rightarrow> bool" where
  "payload_at p pos b \<longleftrightarrow> (\<exists>j < length (pp_transport_payload p). pp_transport_payload p ! j = b
     \<and> (raw_payload_sequence p + int j) mod SEQ_MODULUS = pos mod SEQ_MODULUS)"

lemma uncovered_segments_at:
  "(\<exists>x \<in> set (tcp_uncovered_segments s d ids tm rs). ts.at x p = Some b)
     \<longleftrightarrow> seg_at s d p = Some b \<and> (\<forall>old \<in> set rs. ts.at old p = None)"
  unfolding tcp_uncovered_segments_def ts.carve_at by auto

lemma queue_payload_facts:
  assumes q: "queue_ok t True d" and n: "ds_next_seq d = Some n"
    and past: "\<not> start + int (length payload) \<le> n"
    and r: "queue_payload t d p n start payload = (t', d')"
  shows "acct t d t' d'" "queue_ok t' False d'" "ds_closed d' = ds_closed d"
    "ds_next_seq d' = Some n" "ds_stream_offset d' = ds_stream_offset d"
    "s \<in> set (ds_pending d') \<Longrightarrow> ts.at s pos = Some b \<Longrightarrow>
       (\<exists>s' \<in> set (ds_pending d). ts.at s' pos = Some b) \<or> seg_at start payload pos = Some b"
proof -
  let ?trim = "start < n"
  define pl where "pl = (if ?trim then drop (nat (n - start)) payload else payload)"
  define st where "st = (if ?trim then n else start)"
  define adds where "adds = tcp_uncovered_segments st pl (contributing_ids p) (pp_timestamp_ns p) (ds_pending d)"
  have d': "d' = d\<lparr>ds_pending := sort_key sg_start (ds_pending d @ adds),
      ds_pending_bytes := ds_pending_bytes d + segments_bytes adds\<rparr>"
    using r by (simp add: queue_payload_def Let_def adds_def pl_def st_def split: if_splits)
  have t': "same_table t t'" "tr_buffered_bytes t' = tr_buffered_bytes t + segments_bytes adds"
    "tr_buffered_segments t' = tr_buffered_segments t + int (length adds)"
    using r by (auto simp: queue_payload_def Let_def adds_def pl_def st_def same_table_def tcp_limits_of_def
        count_retransmitted_def)
  show a: "acct t d t' d'" using t' by (simp add: acct_def d')
  show "ds_closed d' = ds_closed d" "ds_next_seq d' = Some n" "ds_stream_offset d' = ds_stream_offset d"
    by (simp_all add: d' n)
  have sub: "seg_at st pl q = Some b \<Longrightarrow> seg_at start payload q = Some b \<and> n \<le> q" for q b
  proof -
    assume h: "seg_at st pl q = Some b"
    show ?thesis
    proof (cases ?trim)
      case True
      have "seg_at (start + (n - start)) (drop (nat (n - start)) payload) q
          = (if start + (n - start) \<le> q then seg_at start payload q else None)"
        using True past by (intro seg_at_drop) auto
      then show ?thesis using h True by (auto simp: st_def pl_def split: if_splits)
    next
      case False
      then show ?thesis using h by (auto simp: st_def pl_def seg_at_def split: if_splits)
    qed
  qed
  let ?w = "if pl = [] then [] else [\<lparr>sg_start = st, sg_data = pl, sg_packet_ids = contributing_ids p,
      sg_timestamp_ns = pp_timestamp_ns p\<rparr>]"
  have w: "ts.chain ?w" "ts.filled ?w" by (auto simp: ts.chain_def ts.filled_def)
  have ok: "ts.chain (ds_pending d)" "ts.filled (ds_pending d)" using q by (auto simp: dir_queue_def)
  have adds: "adds = carve_segments (ds_pending d) ?w" by (simp add: adds_def tcp_uncovered_segments_def)
  have ins: "ts.chain (ds_pending d')" "ts.filled (ds_pending d')"
    using ts.insert_carved_chain [OF ok w] by (simp_all add: d' adds)
  have from_add: "seg_at start payload pos = Some b \<and> n \<le> pos" if "s \<in> set adds" "ts.at s pos = Some b" for s pos b
    using that uncovered_segments_at [of st pl "contributing_ids p" "pp_timestamp_ns p" "ds_pending d" pos b]
      sub [of pos b] by (auto simp: adds_def)
  have ge: "n \<le> sg_start s" if s: "s \<in> set (ds_pending d')" for s
  proof (cases "s \<in> set (ds_pending d)")
    case True
    then show ?thesis using q n by (auto simp: dir_queue_def)
  next
    case False
    then have "s \<in> set adds" using s by (auto simp: d')
    moreover have "ts.at s (sg_start s) = Some (sg_data s ! 0)"
      using ins(2) s by (auto simp: seg_at_def ts.filled_def)
    ultimately show ?thesis using from_add by blast
  qed
  show "queue_ok t' False d'"
    using q ins ge same_table_history [OF t'(1)] by (simp add: dir_queue_def d' n)
  show "(\<exists>s' \<in> set (ds_pending d). ts.at s' pos = Some b) \<or> seg_at start payload pos = Some b"
    if "s \<in> set (ds_pending d')" "ts.at s pos = Some b"
    using that from_add by (auto simp: d')
qed

section \<open>The table of flows\<close>

definition flow_bytes :: "FlowState \<Rightarrow> int" where
  "flow_bytes s = ds_pending_bytes (fl_dir s 0) + ds_pending_bytes (fl_dir s 1)"

definition flow_segments :: "FlowState \<Rightarrow> int" where
  "flow_segments s = int (length (ds_pending (fl_dir s 0))) + int (length (ds_pending (fl_dir s 1)))"

interpretation tb: counted_store tr_flows tr_buffered_bytes "\<lambda>_. flow_bytes" tcp_remove_flow
  by unfold_locales (auto simp: tcp_remove_flow_def flow_bytes_def od_pop_absent split: option.splits)

interpretation tn: nonneg_store tr_flows tr_buffered_segments "\<lambda>_. flow_segments" tcp_remove_flow
  by unfold_locales (auto simp: tcp_remove_flow_def flow_segments_def od_pop_absent split: option.splits)

definition tcp_exact :: "TCPReassembler \<Rightarrow> bool" where
  "tcp_exact t \<longleftrightarrow> tb.exact t \<and> tn.exact t"

lemmas tcp_exact_defs = tcp_exact_def tb.exact_def tn.exact_def

definition tcp_limits_positive :: "TCPReassembler \<Rightarrow> bool" where
  "tcp_limits_positive t \<longleftrightarrow> 0 \<le> tr_idle_ns t \<and> 1 \<le> tr_max_flows t \<and> 1 \<le> tr_max_pending_per_direction t
     \<and> 1 \<le> tr_max_buffered_bytes t \<and> 1 \<le> tr_max_buffered_segments t \<and> 1 \<le> tr_consumed_history_bytes t
     \<and> 1 \<le> tr_max_segments_per_direction t"

text \<open>
  What is known of a direction, relative to the chunks \<open>C\<close> emitted so far, the packets \<open>H\<close> processed so
  far, and the map \<open>B\<close> that gives, per connection epoch and direction, the sequence position of stream
  offset 0: the queue is in order and within its limits, nothing emitted lies at or after the stream
  offset, and every queued byte was carried at its position by a packet of the flow and direction.
\<close>

type_synonym seq_base = "int \<Rightarrow> nat \<Rightarrow> int"

definition carried :: "ParsedPacket list \<Rightarrow> FlowKey \<Rightarrow> nat \<Rightarrow> int \<Rightarrow> byte \<Rightarrow> bool" where
  "carried H flow i pos b \<longleftrightarrow> (\<exists>p \<in> set H. packet_flow p = (flow, i) \<and> payload_at p pos b)"

definition dir_inv ::
  "TCPReassembler \<Rightarrow> StreamChunk list \<Rightarrow> ParsedPacket list \<Rightarrow> seq_base \<Rightarrow> FlowKey \<Rightarrow> int \<Rightarrow> nat \<Rightarrow> DirectionState \<Rightarrow> bool" where
  "dir_inv t C H B flow epoch i d \<longleftrightarrow> queue_ok t True d \<and> \<not> direction_over t d
     \<and> ds_connection_epoch d = epoch
     \<and> (\<forall>c \<in> set C. sc_connection_epoch c = epoch \<and> sc_direction c = i \<longrightarrow>
          ds_next_seq d \<noteq> None \<and> sc_end c \<le> ds_stream_offset d)
     \<and> (ds_next_seq d = None \<longrightarrow> ds_stream_offset d = 0)
     \<and> (\<forall>n. ds_next_seq d = Some n \<longrightarrow> n - ds_stream_offset d = B epoch i)
     \<and> (\<forall>s \<in> set (ds_pending d). \<forall>pos b. ts.at s pos = Some b \<longrightarrow> carried H flow i pos b)"

definition flow_inv ::
  "TCPReassembler \<Rightarrow> StreamChunk list \<Rightarrow> ParsedPacket list \<Rightarrow> seq_base \<Rightarrow> FlowState \<Rightarrow> bool" where
  "flow_inv t C H B s \<longleftrightarrow> (\<forall>i < 2. dir_inv t C H B (fl_flow s) (fl_connection_epoch s) i (fl_dir s i))"

definition chunks_inv :: "StreamChunk list \<Rightarrow> ParsedPacket list \<Rightarrow> seq_base \<Rightarrow> int \<Rightarrow> bool" where
  "chunks_inv C H B next_epoch \<longleftrightarrow>
     sorted_wrt (\<lambda>c c'. sc_connection_epoch c = sc_connection_epoch c' \<and> sc_direction c = sc_direction c'
       \<longrightarrow> sc_end c \<le> sc_stream_offset c') C
     \<and> (\<forall>c \<in> set C. chunk_ok c \<and> sc_connection_epoch c < next_epoch
          \<and> (\<forall>k < length (sc_data c). carried H (sc_flow c) (sc_direction c)
               (B (sc_connection_epoch c) (sc_direction c) + sc_stream_offset c + int k) (sc_data c ! k)))"

definition table_inv :: "StreamChunk list \<Rightarrow> ParsedPacket list \<Rightarrow> seq_base \<Rightarrow> TCPReassembler \<Rightarrow> bool" where
  "table_inv C H B t \<longleftrightarrow> tcp_limits_positive t \<and> tcp_exact t \<and> chunks_inv C H B (tr_next_connection_epoch t)
     \<and> (\<forall>(k, s) \<in> set (tr_flows t). flow_inv t C H B s \<and> fl_connection_epoch s < tr_next_connection_epoch t
          \<and> fl_flow s = snd k)
     \<and> (\<forall>(k, s) \<in> set (tr_flows t). \<forall>(k', s') \<in> set (tr_flows t).
          fl_connection_epoch s = fl_connection_epoch s' \<longrightarrow> k = k')"

lemma flow_inv_limits:
  assumes "tcp_limits_of t = tcp_limits_of t'"
  shows "flow_inv t C H B s = flow_inv t' C H B s"
  using assms by (simp add: flow_inv_def dir_inv_def direction_over_def tcp_limits_of_def)

lemma limits_positive_eq: "tcp_limits_of t = tcp_limits_of t' \<Longrightarrow> tcp_limits_positive t = tcp_limits_positive t'"
  by (simp add: tcp_limits_positive_def tcp_limits_of_def)

lemma fl_dir_set [simp]: "i < 2 \<Longrightarrow> j < 2 \<Longrightarrow> fl_dir (fl_set_dir i d s) j = (if i = j then d else fl_dir s j)"
  by (auto simp: fl_dir_def fl_set_dir_def)

lemma fl_set_dir_simps [simp]:
  "fl_flow (fl_set_dir i d s) = fl_flow s" "fl_connection_epoch (fl_set_dir i d s) = fl_connection_epoch s"
  "fl_last_seen_ns (fl_set_dir i d s) = fl_last_seen_ns s" "fl_activity_ns (fl_set_dir i d s) = fl_activity_ns s"
  by (simp_all add: fl_set_dir_def)

lemma fl_set_dir_dir [simp]: "fl_set_dir i (fl_dir s i) s = s"
  by (simp add: fl_set_dir_def fl_dir_def)

text \<open>The table with a flow's working state written back.\<close>

definition store_flow :: "flow_id \<Rightarrow> FlowState \<Rightarrow> TCPReassembler \<Rightarrow> TCPReassembler" where
  "store_flow key s t = t\<lparr>tr_flows := od_put key s (tr_flows t)\<rparr>"

lemma store_flow_simps [simp]:
  "tr_flows (store_flow key s t) = od_put key s (tr_flows t)"
  "tcp_limits_of (store_flow key s t) = tcp_limits_of t"
  "tr_next_connection_epoch (store_flow key s t) = tr_next_connection_epoch t"
  "tr_buffered_bytes (store_flow key s t) = tr_buffered_bytes t"
  "tr_buffered_segments (store_flow key s t) = tr_buffered_segments t"
  "store_flow key s (store_flow key s' t) = store_flow key s t"
  by (simp_all add: store_flow_def tcp_limits_of_def)

lemma store_flow_same: "od_get (tr_flows t) key = Some s \<Longrightarrow> store_flow key s t = t"
  by (simp add: store_flow_def od_put_same)

text \<open>Replacing the state of one flow.\<close>

lemma table_inv_replace:
  assumes inv: "table_inv C H B (store_flow key s t)"
    and lim: "tcp_limits_of t' = tcp_limits_of t" and fl: "tr_flows t' = tr_flows t" and ok: "od_ok (tr_flows t)"
    and ep: "tr_next_connection_epoch t' = tr_next_connection_epoch t"
    and b: "tr_buffered_bytes t' = tr_buffered_bytes t + flow_bytes s' - flow_bytes s"
    and n: "tr_buffered_segments t' = tr_buffered_segments t + flow_segments s' - flow_segments s"
    and id: "fl_flow s' = fl_flow s" "fl_connection_epoch s' = fl_connection_epoch s"
    and new: "flow_inv t C' H B' s'" and ch: "chunks_inv C' H B' (tr_next_connection_epoch t)"
    and others: "\<And>k s2. (k, s2) \<in> set (od_pop key (tr_flows t)) \<Longrightarrow> fl_connection_epoch s2 \<noteq> fl_connection_epoch s
        \<Longrightarrow> flow_inv t C H B s2 \<Longrightarrow> flow_inv t C' H B' s2"
  shows "table_inv C' H B' (store_flow key s' t')"
proof -
  let ?d = "od_pop key (tr_flows t)"
  have old: "set (tr_flows (store_flow key s t)) = insert (key, s) (set ?d)"
    and now: "set (tr_flows (store_flow key s' t')) = insert (key, s') (set ?d)"
    using ok fl by (simp_all add: set_od_put_pop)
  have tl: "tcp_limits_of (store_flow key s' t') = tcp_limits_of t" using lim by simp
  have ex: "tcp_exact (store_flow key s t)" using inv by (simp add: table_inv_def)
  have F1: "tcp_exact (store_flow key s' t')"
    using ex b n fl ok by (simp add: tcp_exact_defs od_sum_put)
  have F2: "tcp_limits_positive (store_flow key s' t')"
    using inv limits_positive_eq [of "store_flow key s t" "store_flow key s' t'"] lim
    by (simp add: table_inv_def)
  have apart: "fl_connection_epoch s2 \<noteq> fl_connection_epoch s" if "(k, s2) \<in> set ?d" for k s2
  proof
    assume "fl_connection_epoch s2 = fl_connection_epoch s"
    then have "k = key" using inv that unfolding table_inv_def old by blast
    then show False using that by (simp add: set_od_pop)
  qed
  have keys: "k \<noteq> key" if "(k, s2) \<in> set ?d" for k s2 using that by (simp add: set_od_pop)
  have pers: "flow_inv t C H B s2 \<and> fl_connection_epoch s2 < tr_next_connection_epoch t \<and> fl_flow s2 = snd k"
    if "(k, s2) \<in> insert (key, s) (set ?d)" for k s2
  proof -
    have "flow_inv (store_flow key s t) C H B s2 \<and> fl_connection_epoch s2 < tr_next_connection_epoch (store_flow key s t)
      \<and> fl_flow s2 = snd k"
      using inv that unfolding table_inv_def old by blast
    then show ?thesis using flow_inv_limits [of "store_flow key s t" t] by simp
  qed
  have st: "flow_inv (store_flow key s' t') C' H B' s2 = flow_inv t C' H B' s2" for s2
    by (rule flow_inv_limits) (use tl in simp)
  have F3: "flow_inv t C' H B' s2 \<and> fl_connection_epoch s2 < tr_next_connection_epoch t \<and> fl_flow s2 = snd k"
    if "(k, s2) \<in> insert (key, s') (set ?d)" for k s2
  proof (cases "(k, s2) \<in> set ?d")
    case True
    then show ?thesis using pers [of k s2] others [OF True apart [OF True]] by blast
  next
    case False
    then have "k = key" "s2 = s'" using that by auto
    then show ?thesis using new id pers [of key s] by simp
  qed
  have F4: "k = k'"
    if "(k, s2) \<in> insert (key, s') (set ?d)" "(k', s3) \<in> insert (key, s') (set ?d)"
      "fl_connection_epoch s2 = fl_connection_epoch s3" for k s2 k' s3
  proof -
    have "k = k'" if "(k, s2) \<in> set ?d" "(k', s3) \<in> set ?d" "fl_connection_epoch s2 = fl_connection_epoch s3"
      using inv that unfolding table_inv_def old by blast
    then show ?thesis using that id(2) apart [of k s2] apart [of k' s3] by (metis insertE prod.inject)
  qed
  show ?thesis
    unfolding table_inv_def now st store_flow_simps(3) ep
  proof (intro conjI)
    show "\<forall>(k, s2) \<in> insert (key, s') (set ?d). flow_inv t C' H B' s2
        \<and> fl_connection_epoch s2 < tr_next_connection_epoch t \<and> fl_flow s2 = snd k"
      using F3 by blast
    show "\<forall>(k, s2) \<in> insert (key, s') (set ?d). \<forall>(k', s3) \<in> insert (key, s') (set ?d).
        fl_connection_epoch s2 = fl_connection_epoch s3 \<longrightarrow> k = k'"
      using F4 by blast
  qed (fact F1 F2 ch)+
qed

lemma dir_inv_more_chunks:
  assumes "dir_inv t C H B flow epoch i d"
    and "\<And>c. c \<in> set cs \<Longrightarrow> \<not> (sc_connection_epoch c = epoch \<and> sc_direction c = i)"
  shows "dir_inv t (C @ cs) H B flow epoch i d"
  using assms by (auto simp: dir_inv_def)

lemma flow_inv_more_chunks:
  assumes "flow_inv t C H B s" and "\<And>c. c \<in> set cs \<Longrightarrow> sc_connection_epoch c \<noteq> fl_connection_epoch s"
  shows "flow_inv t (C @ cs) H B s"
  using assms by (auto simp: flow_inv_def intro!: dir_inv_more_chunks)

lemma table_inv_flow:
  assumes "table_inv C H B (store_flow key s t)" "od_ok (tr_flows t)" "i < 2"
  shows "dir_inv t C H B (fl_flow s) (fl_connection_epoch s) i (fl_dir s i)"
    and "fl_connection_epoch s < tr_next_connection_epoch t" and "fl_flow s = snd key"
    and "chunks_inv C H B (tr_next_connection_epoch t)"
    and "tcp_limits_positive t" "history_limit_ok t"
proof -
  have "(key, s) \<in> set (tr_flows (store_flow key s t))" using assms(2) by (simp add: set_od_put_pop)
  then have f: "flow_inv (store_flow key s t) C H B s" "fl_connection_epoch s < tr_next_connection_epoch t"
    "fl_flow s = snd key"
    using assms(1) unfolding table_inv_def by auto
  show "dir_inv t C H B (fl_flow s) (fl_connection_epoch s) i (fl_dir s i)"
    using f(1) flow_inv_limits [of "store_flow key s t" t] assms(3) by (simp add: flow_inv_def)
  show "fl_connection_epoch s < tr_next_connection_epoch t" "fl_flow s = snd key" by fact+
  show "chunks_inv C H B (tr_next_connection_epoch t)" using assms(1) by (simp add: table_inv_def)
  show "tcp_limits_positive t"
    using assms(1) limits_positive_eq [of "store_flow key s t" t] by (simp add: table_inv_def)
  then show "history_limit_ok t" by (simp add: tcp_limits_positive_def history_limit_ok_def)
qed

lemma chunks_inv_append:
  assumes C: "chunks_inv C H B e" and step: "dir_step flow i t1 d1 t' d' cs"
    and old: "\<forall>c \<in> set C. sc_connection_epoch c = ds_connection_epoch d1 \<and> sc_direction c = i \<longrightarrow> sc_end c \<le> ds_stream_offset d1"
    and base: "\<forall>n. ds_next_seq d1 = Some n \<longrightarrow> n - ds_stream_offset d1 = B (ds_connection_epoch d1) i"
    and car: "\<forall>s \<in> set (ds_pending d1). \<forall>pos b. ts.at s pos = Some b \<longrightarrow> carried H flow i pos b"
    and ep: "ds_connection_epoch d1 < e"
  shows "chunks_inv (C @ cs) H B e"
proof -
  have cc: "chunk_chain (ds_stream_offset d1) (ds_stream_offset d') cs"
    and props: "\<forall>c \<in> set cs. chunk_ok c \<and> sc_flow c = flow \<and> sc_direction c = i
      \<and> sc_connection_epoch c = ds_connection_epoch d1"
    using step by (auto simp: dir_step_def)
  have "sorted_wrt (\<lambda>c c'. sc_connection_epoch c = sc_connection_epoch c' \<and> sc_direction c = sc_direction c'
      \<longrightarrow> sc_end c \<le> sc_stream_offset c') cs"
    by (rule sorted_wrt_mono_rel [OF _ chunk_chain_sorted [OF cc]]) simp
  moreover have "sc_end c \<le> sc_stream_offset c'"
    if "c \<in> set C" "c' \<in> set cs" "sc_connection_epoch c = sc_connection_epoch c'" "sc_direction c = sc_direction c'" for c c'
    using that old props chunk_chain_within [OF cc that(2)] by fastforce
  ultimately have sorted: "sorted_wrt (\<lambda>c c'. sc_connection_epoch c = sc_connection_epoch c'
      \<and> sc_direction c = sc_direction c' \<longrightarrow> sc_end c \<le> sc_stream_offset c') (C @ cs)"
    using C by (simp add: chunks_inv_def sorted_wrt_append)
  have "carried H (sc_flow c) (sc_direction c)
      (B (sc_connection_epoch c) (sc_direction c) + sc_stream_offset c + int k) (sc_data c ! k)"
    if c: "c \<in> set cs" "k < length (sc_data c)" for c k
  proof -
    obtain n where n: "ds_next_seq d1 = Some n" using step c by (cases "ds_next_seq d1") (auto simp: dir_step_def)
    have "\<exists>s \<in> set (ds_pending d1). ts.at s (n - ds_stream_offset d1 + sc_stream_offset c + int k) = Some (sc_data c ! k)"
      using step c n unfolding dir_step_def by simp
    then have "carried H flow i (n - ds_stream_offset d1 + sc_stream_offset c + int k) (sc_data c ! k)"
      using car by blast
    then show ?thesis using props c(1) base n by auto
  qed
  then show ?thesis using sorted C props ep unfolding chunks_inv_def by auto
qed

text \<open>An operation on one direction of a flow, possibly after new segments were queued.\<close>

lemma table_inv_dir_step:
  assumes inv: "table_inv C H B (store_flow key s t)" and ok: "od_ok (tr_flows t)" and i: "i < 2"
    and a1: "acct t (fl_dir s i) t1 d1" and n1: "ds_next_seq d1 = ds_next_seq (fl_dir s i)"
      "ds_stream_offset d1 = ds_stream_offset (fl_dir s i)"
    and car: "\<forall>x \<in> set (ds_pending d1). \<forall>pos b. ts.at x pos = Some b \<longrightarrow> carried H (fl_flow s) i pos b"
    and step: "dir_step (fl_flow s) i t1 d1 t' d' cs" and q: "queue_ok t' True d'" and no: "\<not> direction_over t' d'"
  shows "table_inv (C @ cs) H B (store_flow key (fl_set_dir i d' s) t')"
proof -
  let ?s = "fl_set_dir i d' s" and ?d = "fl_dir s i"
  note tf = table_inv_flow [OF inv ok]
  have a: "acct t ?d t' d'" using acct_trans [OF a1] step by (simp add: dir_step_def)
  have same: "tcp_limits_of t' = tcp_limits_of t" "tr_flows t' = tr_flows t"
    "tr_next_connection_epoch t' = tr_next_connection_epoch t"
    using a by (auto simp: acct_def same_table_def)
  have ep: "ds_connection_epoch ?d = fl_connection_epoch s" "ds_connection_epoch d1 = fl_connection_epoch s"
    "ds_connection_epoch d' = fl_connection_epoch s"
    using tf(1) [OF i] a1 a by (auto simp: dir_inv_def acct_def)
  have ch: "chunks_inv (C @ cs) H B (tr_next_connection_epoch t)"
    using tf(1,2,4) [OF i] by (intro chunks_inv_append [OF _ step _ _ car]) (auto simp: dir_inv_def n1 ep)
  have cs: "\<forall>c \<in> set cs. sc_direction c = i \<and> sc_connection_epoch c = fl_connection_epoch s \<and> sc_end c \<le> ds_stream_offset d'"
    using step ep(2) chunk_chain_within [of "ds_stream_offset d1" "ds_stream_offset d'" cs]
    by (auto simp: dir_step_def)
  have mono: "ds_stream_offset ?d \<le> ds_stream_offset d'"
    using step n1(2) chunk_chain_le by (fastforce simp: dir_step_def)
  have suf: "set (ds_pending d') \<subseteq> set (ds_pending d1)"
    using step by (auto simp: dir_step_def dest: set_mono_suffix)
  have nx: "ds_next_seq d' = None \<longleftrightarrow> ds_next_seq ?d = None"
    "ds_next_seq ?d = None \<Longrightarrow> cs = [] \<and> ds_stream_offset d' = ds_stream_offset ?d"
    "ds_next_seq ?d = Some n \<Longrightarrow> ds_next_seq d' = Some n' \<Longrightarrow> n' - ds_stream_offset d' = n - ds_stream_offset ?d" for n n'
    using step by (auto simp: dir_step_def n1 split: option.splits)
  have hist: "tr_consumed_history_bytes t' = tr_consumed_history_bytes t" "direction_over t d' = direction_over t' d'"
    using same(1) by (auto simp: tcp_limits_of_def direction_over_def)
  have di: "dir_inv t (C @ cs) H B (fl_flow s) (fl_connection_epoch s) i d'"
  proof -
    have "\<forall>n. ds_next_seq d' = Some n \<longrightarrow> n - ds_stream_offset d' = B (fl_connection_epoch s) i"
      using tf(1) [OF i] nx by (cases "ds_next_seq ?d") (auto simp: dir_inv_def)
    moreover have "\<forall>c \<in> set (C @ cs). sc_connection_epoch c = fl_connection_epoch s \<and> sc_direction c = i \<longrightarrow>
        ds_next_seq d' \<noteq> None \<and> sc_end c \<le> ds_stream_offset d'"
    proof (intro ballI impI)
      fix c assume c: "c \<in> set (C @ cs)" and e: "sc_connection_epoch c = fl_connection_epoch s \<and> sc_direction c = i"
      show "ds_next_seq d' \<noteq> None \<and> sc_end c \<le> ds_stream_offset d'"
      proof (cases "c \<in> set cs")
        case True
        then have "cs \<noteq> []" by auto
        then show ?thesis using nx(1,2) cs True by blast
      next
        case False
        then have "ds_next_seq ?d \<noteq> None \<and> sc_end c \<le> ds_stream_offset ?d"
          using tf(1) [OF i] c e unfolding dir_inv_def by simp
        then show ?thesis using nx(1) mono by simp
      qed
    qed
    moreover have "ds_next_seq d' = None \<longrightarrow> ds_stream_offset d' = 0"
      using tf(1) [OF i] nx by (auto simp: dir_inv_def)
    ultimately show ?thesis
      using q no car suf ep(3) hist unfolding dir_inv_def by auto
  qed
  have new: "flow_inv t (C @ cs) H B ?s"
    unfolding flow_inv_def
  proof (intro allI impI)
    fix j :: nat assume j: "j < 2"
    show "dir_inv t (C @ cs) H B (fl_flow ?s) (fl_connection_epoch ?s) j (fl_dir ?s j)"
      using di dir_inv_more_chunks [OF tf(1) [OF j], of cs] cs i j by (cases "j = i") auto
  qed
  have i01: "i = 0 \<or> i = 1" using i by auto
  show ?thesis
  proof (rule table_inv_replace [OF inv same(1,2) ok same(3) _ _ _ _ new ch])
    show "tr_buffered_bytes t' = tr_buffered_bytes t + flow_bytes ?s - flow_bytes s"
      "tr_buffered_segments t' = tr_buffered_segments t + flow_segments ?s - flow_segments s"
      using a i01 by (auto simp: flow_bytes_def flow_segments_def acct_def)
    show "flow_inv t (C @ cs) H B s2" if "fl_connection_epoch s2 \<noteq> fl_connection_epoch s" "flow_inv t C H B s2" for s2
      using that cs by (intro flow_inv_more_chunks) auto
  qed simp_all
qed

subsection \<open>Flushing and removing\<close>

lemma table_inv_ok: "table_inv C H B t \<Longrightarrow> od_ok (tr_flows t)"
  by (simp add: table_inv_def tcp_exact_defs)

lemma not_over_empty:
  "tcp_limits_positive t \<Longrightarrow> queue_ok t True d \<Longrightarrow> ds_pending d = [] \<Longrightarrow> \<not> direction_over t d"
  by (auto simp: direction_over_def dir_queue_def tcp_limits_positive_def)

lemma dir_inv_queue: "dir_inv t C H B flow e i d \<Longrightarrow> queue_ok t True d"
  by (simp add: dir_inv_def)

lemma dir_inv_carried:
  "dir_inv t C H B flow e i d \<Longrightarrow> \<forall>x \<in> set (ds_pending d). \<forall>pos b. ts.at x pos = Some b \<longrightarrow> carried H flow i pos b"
  by (simp add: dir_inv_def)

text \<open>Fewer bytes and segments buffered.\<close>

definition shrinks :: "TCPReassembler \<Rightarrow> TCPReassembler \<Rightarrow> bool" where
  "shrinks t t' \<longleftrightarrow> tr_buffered_bytes t' \<le> tr_buffered_bytes t \<and> tr_buffered_segments t' \<le> tr_buffered_segments t"

lemma shrinks_refl [simp]: "shrinks t t"
  by (simp add: shrinks_def)

lemma shrinks_trans: "shrinks t t1 \<Longrightarrow> shrinks t1 t2 \<Longrightarrow> shrinks t t2"
  by (simp add: shrinks_def)

lemma shrinks_flush:
  assumes "acct t d t' d'" "queue_ok t True d" "queue_ok t' True d'" "ds_pending d' = []"
  shows "shrinks t t'"
  using assms segments_bytes_nonneg [of "ds_pending d"] by (auto simp: acct_def shrinks_def dir_queue_def)

text \<open>Flushing one direction of the working state.\<close>

lemma flush_direction_inv:
  assumes inv: "table_inv C H B (store_flow key s t)" and ok: "od_ok (tr_flows t)" and i: "i < 2"
  shows "\<exists>t' d' cs. flush_direction t (fl_dir s i) (fl_flow s) i chunks = Some (t', d', chunks @ cs)
    \<and> table_inv (C @ cs) H B (store_flow key (fl_set_dir i d' s) t') \<and> same_table t t'
    \<and> acct t (fl_dir s i) t' d' \<and> ds_pending d' = [] \<and> ds_closed d' = ds_closed (fl_dir s i) \<and> shrinks t t'"
proof -
  note tf = table_inv_flow [OF inv ok i]
  note q = dir_inv_queue [OF tf(1)]
  obtain t' d' cs where r: "flush_direction t (fl_dir s i) (fl_flow s) i chunks = Some (t', d', chunks @ cs)"
    "dir_op (fl_flow s) i t (fl_dir s i) (t', d', cs)" "ds_pending d' = []"
    using flush_direction_total [OF q tf(6)] by blast
  then have st: "dir_step (fl_flow s) i t (fl_dir s i) t' d' cs" "queue_ok t' True d'" "ds_closed d' = ds_closed (fl_dir s i)"
    by (auto simp: dir_op_def)
  have tab: "same_table t t'" by (rule dir_step_table [OF st(1)])
  then have "tcp_limits_positive t'"
    using tf(5) limits_positive_eq [of t t'] by (simp add: same_table_def)
  then have "\<not> direction_over t' d'" using not_over_empty st(2) r(3) by blast
  then have "table_inv (C @ cs) H B (store_flow key (fl_set_dir i d' s) t')"
    by (intro table_inv_dir_step [OF inv ok i acct_refl refl refl dir_inv_carried [OF tf(1)] st(1,2)])
  moreover have "acct t (fl_dir s i) t' d'" using st(1) by (simp add: dir_step_def)
  moreover from shrinks_flush [OF this q st(2) r(3)] have "shrinks t t'" .
  ultimately show ?thesis using r(1,3) st(3) tab by blast
qed

lemma remove_flow_limits [simp]:
  "tcp_limits_of (tcp_remove_flow key t) = tcp_limits_of t"
  "tr_next_connection_epoch (tcp_remove_flow key t) = tr_next_connection_epoch t"
  by (auto simp: tcp_remove_flow_def tcp_limits_of_def split: option.splits)

lemma table_inv_subset:
  assumes "table_inv C H B t" "tcp_exact t'" "tcp_limits_of t' = tcp_limits_of t"
    "tr_next_connection_epoch t' = tr_next_connection_epoch t" "set (tr_flows t') \<subseteq> set (tr_flows t)"
  shows "table_inv C H B t'"
proof -
  have f: "flow_inv t' C H B s = flow_inv t C H B s" for s by (rule flow_inv_limits [OF assms(3)])
  have "tcp_limits_positive t'" using assms(1) limits_positive_eq [OF assms(3)] by (simp add: table_inv_def)
  then show ?thesis using assms unfolding table_inv_def f by (simp add: subset_eq) blast
qed

lemma table_inv_remove:
  assumes "table_inv C H B t"
  shows "table_inv C H B (tcp_remove_flow key t)"
proof (rule table_inv_subset [OF assms])
  show "tcp_exact (tcp_remove_flow key t)"
    using assms by (simp add: table_inv_def tcp_exact_def tb.exact_discard tn.exact_discard)
qed (auto simp: tb.store_discard set_od_pop)

lemma shrinks_remove:
  assumes "table_inv C H B t"
  shows "shrinks t (tcp_remove_flow key t)"
proof (cases "od_get (tr_flows t) key")
  case (Some s)
  then have "flow_inv t C H B s" using assms od_get_in_set [OF Some] by (auto simp: table_inv_def)
  then have q: "queue_ok t True (fl_dir s 0)" "queue_ok t True (fl_dir s 1)"
    by (auto simp: flow_inv_def dir_inv_def)
  have "0 \<le> flow_bytes s" using q by (simp add: flow_bytes_def dir_queue_def)
  moreover have "0 \<le> flow_segments s" by (simp add: flow_segments_def)
  ultimately show ?thesis
    using tb.counter_discard [of key t] tn.counter_discard [of key t] Some by (simp add: shrinks_def)
qed (simp add: tcp_remove_flow_def)

text \<open>The whole flow is flushed and its entry removed; the other flows are not touched.\<close>

lemma flush_and_remove_inv:
  assumes inv: "table_inv C H B (store_flow key s t)" and ok: "od_ok (tr_flows t)"
  shows "\<exists>t' cs. flush_and_remove key s (fl_flow s) t = Some (t', cs) \<and> table_inv (C @ cs) H B t'
    \<and> tr_flows t' = od_pop key (tr_flows t) \<and> tcp_limits_of t' = tcp_limits_of t
    \<and> tr_next_connection_epoch t' = tr_next_connection_epoch t \<and> shrinks t t'"
proof -
  obtain t1 d0 c0 where r1: "flush_direction t (fl_dir s 0) (fl_flow s) 0 [] = Some (t1, d0, c0)"
    and i1: "table_inv (C @ c0) H B (store_flow key (fl_set_dir 0 d0 s) t1)" and s1: "same_table t t1" and h1: "shrinks t t1"
    using flush_direction_inv [OF inv ok, of 0 "[]"] by auto
  let ?s1 = "fl_set_dir 0 d0 s"
  have ok1: "od_ok (tr_flows t1)" using s1 ok by (simp add: same_table_def)
  obtain t2 d1 c1 where r2: "flush_direction t1 (fl_dir ?s1 1) (fl_flow ?s1) 1 [] = Some (t2, d1, c1)"
    and i2: "table_inv ((C @ c0) @ c1) H B (store_flow key (fl_set_dir 1 d1 ?s1) t2)" and s2: "same_table t1 t2" and h2: "shrinks t1 t2"
    using flush_direction_inv [OF i1 ok1, of 1 "[]"] by auto
  let ?t = "tcp_remove_flow key (store_flow key (fl_set_dir 1 d1 ?s1) t2)"
  have "flush_and_remove key s (fl_flow s) t = Some (?t, c0 @ c1)"
    using r1 r2 by (simp add: flush_and_remove_def flush_flow_def store_flow_def)
  moreover have "table_inv (C @ (c0 @ c1)) H B ?t" using table_inv_remove [OF i2] by simp
  moreover have "tr_flows ?t = od_pop key (tr_flows t)" "tcp_limits_of ?t = tcp_limits_of t"
    "tr_next_connection_epoch ?t = tr_next_connection_epoch t"
    using s1 s2 by (auto simp: same_table_def tb.store_discard)
  moreover have "shrinks t ?t"
    using shrinks_trans [OF h1 h2] shrinks_remove [OF i2, of key] by (simp add: shrinks_def)
  ultimately show ?thesis by blast
qed

lemma table_inv_frame:
  assumes "table_inv C H B t" "same_table t t'" "tr_buffered_bytes t' = tr_buffered_bytes t"
    "tr_buffered_segments t' = tr_buffered_segments t"
  shows "table_inv C H B t'"
  using assms by (intro table_inv_subset [OF assms(1)]) (auto simp: same_table_def table_inv_def tcp_exact_defs)

section \<open>Eviction\<close>

lemma evict_oldest_inv:
  assumes inv: "table_inv C H B t" and ne: "tr_flows t = (key, s) # rest"
  shows "\<exists>t' cs. evict_oldest budget t = Some (t', cs) \<and> table_inv (C @ cs) H B t' \<and> tr_flows t' = rest
    \<and> tcp_limits_of t' = tcp_limits_of t \<and> tr_next_connection_epoch t' = tr_next_connection_epoch t \<and> shrinks t t'"
proof -
  have ok: "od_ok (tr_flows t)" by (rule table_inv_ok [OF inv])
  have "store_flow key s t = t" by (rule store_flow_same) (simp add: ne od_get_def)
  with inv have "table_inv C H B (store_flow key s t)" by simp
  from flush_and_remove_inv [OF this ok] obtain t1 cs
    where r: "flush_and_remove key s (fl_flow s) t = Some (t1, cs)" "table_inv (C @ cs) H B t1"
      "tr_flows t1 = od_pop key (tr_flows t)" "tcp_limits_of t1 = tcp_limits_of t"
      "tr_next_connection_epoch t1 = tr_next_connection_epoch t" "shrinks t t1" by blast
  let ?t = "t1\<lparr>tr_evicted_flows := tr_evicted_flows t1 + 1,
      tr_budget_evicted_flows := tr_budget_evicted_flows t1 + (if budget then 1 else 0)\<rparr>"
  have "evict_oldest budget t = Some (?t, cs)" using r(1) ne by (simp add: evict_oldest_def)
  moreover have "table_inv (C @ cs) H B ?t"
    by (rule table_inv_frame [OF r(2)]) (simp_all add: same_table_def tcp_limits_of_def)
  moreover have "tr_flows ?t = rest" using r(3) ok ne od_pop_head [of "(key, s)" rest] by simp
  ultimately show ?thesis using r(4-6) by (auto simp: tcp_limits_of_def shrinks_def)
qed

lemma evict_to_flow_limit_inv:
  "table_inv C H B t \<Longrightarrow> \<exists>t' cs. evict_to_flow_limit t chunks = Some (t', chunks @ cs) \<and> table_inv (C @ cs) H B t'
     \<and> int (length (tr_flows t')) < tr_max_flows t' \<and> suffix (tr_flows t') (tr_flows t)
     \<and> tcp_limits_of t' = tcp_limits_of t \<and> tr_next_connection_epoch t' = tr_next_connection_epoch t \<and> shrinks t t'"
proof (induction "length (tr_flows t)" arbitrary: t C chunks rule: less_induct)
  case less
  show ?case
  proof (cases "int (length (tr_flows t)) \<ge> tr_max_flows t")
    case False
    then have "evict_to_flow_limit t chunks = Some (t, chunks @ [])"
      by (subst evict_to_flow_limit.simps) simp
    then show ?thesis using False less.prems by (metis append_Nil2 linorder_not_le suffix_order.refl shrinks_refl)
  next
    case True
    then obtain key s rest where ne: "tr_flows t = (key, s) # rest"
      using less.prems by (cases "tr_flows t") (auto simp: table_inv_def tcp_limits_positive_def)
    obtain t1 c1 where r1: "evict_oldest False t = Some (t1, c1)" "table_inv (C @ c1) H B t1" "tr_flows t1 = rest"
      "tcp_limits_of t1 = tcp_limits_of t" "tr_next_connection_epoch t1 = tr_next_connection_epoch t" "shrinks t t1"
      using evict_oldest_inv [OF less.prems ne] by blast
    obtain t2 c2 where r2: "evict_to_flow_limit t1 (chunks @ c1) = Some (t2, (chunks @ c1) @ c2)"
      "table_inv ((C @ c1) @ c2) H B t2" "int (length (tr_flows t2)) < tr_max_flows t2"
      "suffix (tr_flows t2) (tr_flows t1)" "tcp_limits_of t2 = tcp_limits_of t1"
      "tr_next_connection_epoch t2 = tr_next_connection_epoch t1" "shrinks t1 t2"
      using less.hyps [OF _ r1(2), of "chunks @ c1"] ne r1(3) by auto
    have "evict_to_flow_limit t chunks = Some (t2, chunks @ (c1 @ c2))"
      using True r1(1) r2(1) by (subst evict_to_flow_limit.simps) simp
    moreover have "suffix (tr_flows t2) (tr_flows t)" using r2(4) r1(3) ne by (simp add: suffix_Cons)
    moreover have "shrinks t t2" by (rule shrinks_trans [OF r1(6) r2(7)])
    moreover have "table_inv (C @ (c1 @ c2)) H B t2" using r2(2) by simp
    moreover have "tcp_limits_of t2 = tcp_limits_of t" "tr_next_connection_epoch t2 = tr_next_connection_epoch t"
      using r1(4,5) r2(5,6) by simp_all
    ultimately show ?thesis using r2(3) by blast
  qed
qed

lemma evict_to_budget_inv:
  "table_inv C H B t \<Longrightarrow> \<exists>t' cs. evict_to_budget t chunks = Some (t', chunks @ cs) \<and> table_inv (C @ cs) H B t'
     \<and> \<not> tcp_over_budget t' \<and> suffix (tr_flows t') (tr_flows t)
     \<and> tcp_limits_of t' = tcp_limits_of t \<and> tr_next_connection_epoch t' = tr_next_connection_epoch t \<and> shrinks t t'"
proof (induction "length (tr_flows t)" arbitrary: t C chunks rule: less_induct)
  case less
  show ?case
  proof (cases "tcp_over_budget t \<and> tr_flows t \<noteq> []")
    case False
    then have "evict_to_budget t chunks = Some (t, chunks @ [])"
      by (subst evict_to_budget.simps) auto
    moreover have "\<not> tcp_over_budget t"
    proof (cases "tr_flows t = []")
      case True
      then show ?thesis using less.prems
        by (auto simp: table_inv_def tcp_exact_defs tcp_over_budget_def tcp_limits_positive_def)
    qed (use False in simp)
    ultimately show ?thesis using less.prems by (metis append_Nil2 suffix_order.refl shrinks_refl)
  next
    case True
    then obtain key s rest where ne: "tr_flows t = (key, s) # rest"
      by (cases "tr_flows t") auto
    obtain t1 c1 where r1: "evict_oldest True t = Some (t1, c1)" "table_inv (C @ c1) H B t1" "tr_flows t1 = rest"
      "tcp_limits_of t1 = tcp_limits_of t" "tr_next_connection_epoch t1 = tr_next_connection_epoch t" "shrinks t t1"
      using evict_oldest_inv [OF less.prems ne] by blast
    obtain t2 c2 where r2: "evict_to_budget t1 (chunks @ c1) = Some (t2, (chunks @ c1) @ c2)"
      "table_inv ((C @ c1) @ c2) H B t2" "\<not> tcp_over_budget t2"
      "suffix (tr_flows t2) (tr_flows t1)" "tcp_limits_of t2 = tcp_limits_of t1"
      "tr_next_connection_epoch t2 = tr_next_connection_epoch t1" "shrinks t1 t2"
      using less.hyps [OF _ r1(2), of "chunks @ c1"] ne r1(3) by auto
    have "evict_to_budget t chunks = Some (t2, chunks @ (c1 @ c2))"
      using True r1(1) r2(1) by (subst evict_to_budget.simps) simp
    moreover have "suffix (tr_flows t2) (tr_flows t)" using r2(4) r1(3) ne by (simp add: suffix_Cons)
    moreover have "shrinks t t2" by (rule shrinks_trans [OF r1(6) r2(7)])
    moreover have "table_inv (C @ (c1 @ c2)) H B t2" using r2(2) by simp
    moreover have "tcp_limits_of t2 = tcp_limits_of t" "tr_next_connection_epoch t2 = tr_next_connection_epoch t"
      using r1(4,5) r2(5,6) by simp_all
    ultimately show ?thesis using r2(3) by blast
  qed
qed

section \<open>One packet\<close>

text \<open>Updates that leave the queue and the stream position alone.\<close>

definition dir_similar :: "DirectionState \<Rightarrow> DirectionState \<Rightarrow> bool" where
  "dir_similar d d' \<longleftrightarrow> ds_connection_epoch d' = ds_connection_epoch d \<and> ds_next_seq d' = ds_next_seq d
     \<and> ds_stream_offset d' = ds_stream_offset d \<and> ds_pending d' = ds_pending d
     \<and> ds_pending_bytes d' = ds_pending_bytes d \<and> ds_consumed_history d' = ds_consumed_history d"

lemma dir_similar_inv: "dir_similar d d' \<Longrightarrow> dir_inv t C H B flow e i d \<Longrightarrow> dir_inv t C H B flow e i d'"
  by (simp add: dir_similar_def dir_inv_def dir_queue_def direction_over_def)

definition flow_similar :: "FlowState \<Rightarrow> FlowState \<Rightarrow> bool" where
  "flow_similar s s' \<longleftrightarrow> fl_flow s' = fl_flow s \<and> fl_connection_epoch s' = fl_connection_epoch s
     \<and> (\<forall>i < 2. dir_similar (fl_dir s i) (fl_dir s' i))"

lemma flow_similar_weights:
  "flow_similar s s' \<Longrightarrow> flow_bytes s' = flow_bytes s \<and> flow_segments s' = flow_segments s"
  by (auto simp: flow_similar_def dir_similar_def flow_bytes_def flow_segments_def)

lemma table_inv_similar:
  assumes inv: "table_inv C H B (store_flow key s t)" and ok: "od_ok (tr_flows t)" and sim: "flow_similar s s'"
  shows "table_inv C H B (store_flow key s' t)"
proof (rule table_inv_replace [OF inv refl refl ok refl])
  show "flow_inv t C H B s'"
    using table_inv_flow(1) [OF inv ok] sim dir_similar_inv by (fastforce simp: flow_inv_def flow_similar_def)
  show "chunks_inv C H B (tr_next_connection_epoch t)" using table_inv_flow(4) [OF inv ok, of 0] by simp
qed (use sim flow_similar_weights in \<open>auto simp: flow_similar_def\<close>)

lemma carried_mono: "carried H flow i pos b \<Longrightarrow> set H \<subseteq> set H' \<Longrightarrow> carried H' flow i pos b"
  by (auto simp: carried_def)

lemma table_inv_mono:
  assumes "table_inv C H B t" "set H \<subseteq> set H'"
  shows "table_inv C H' B t"
proof -
  have "flow_inv t C H B s \<Longrightarrow> flow_inv t C H' B s" for s
    using carried_mono [OF _ assms(2)] unfolding flow_inv_def dir_inv_def by blast
  moreover have "chunks_inv C H B e \<Longrightarrow> chunks_inv C H' B e" for e
    using carried_mono [OF _ assms(2)] unfolding chunks_inv_def by blast
  ultimately show ?thesis using assms(1) unfolding table_inv_def by blast
qed

text \<open>The first packet of a direction fixes where its stream begins.\<close>

lemma table_inv_synchronise:
  assumes inv: "table_inv C H B (store_flow key s t)" and ok: "od_ok (tr_flows t)" and i: "i < 2"
    and none: "ds_next_seq (fl_dir s i) = None" and some: "ds_next_seq d' = Some n"
    and sim: "dir_similar (fl_dir s i) (d'\<lparr>ds_next_seq := None\<rparr>)"
  shows "\<exists>B'. table_inv C H B' (store_flow key (fl_set_dir i d' s) t)"
proof -
  define B' where "B' = B(fl_connection_epoch s := (B (fl_connection_epoch s))(i := n))"
  note tf = table_inv_flow [OF inv ok]
  let ?d = "fl_dir s i" and ?s = "fl_set_dir i d' s"
  have di: "dir_inv t C H B (fl_flow s) (fl_connection_epoch s) i ?d" by (rule tf(1) [OF i])
  have fresh: "\<not> (sc_connection_epoch c = fl_connection_epoch s \<and> sc_direction c = i)" if "c \<in> set C" for c
    using di none that by (auto simp: dir_inv_def)
  have d': "ds_pending d' = []" "ds_stream_offset d' = 0" "ds_connection_epoch d' = fl_connection_epoch s"
    "queue_ok t True d'" "\<not> direction_over t d'"
    using di none sim some by (auto simp: dir_inv_def dir_similar_def dir_queue_def direction_over_def)
  have "dir_inv t C H B' (fl_flow s) (fl_connection_epoch s) i d'"
    using d' some fresh by (auto simp: dir_inv_def B'_def)
  moreover have "dir_inv t C H B' (fl_flow s) (fl_connection_epoch s) j (fl_dir s j)" if "j < 2" "j \<noteq> i" for j
    using tf(1) [OF that(1)] that(2) by (simp add: dir_inv_def B'_def)
  ultimately have new: "flow_inv t C H B' ?s" using i by (auto simp: flow_inv_def)
  have B'c: "B' (sc_connection_epoch c) (sc_direction c) = B (sc_connection_epoch c) (sc_direction c)" if "c \<in> set C" for c
    using fresh [OF that] by (auto simp: B'_def)
  have "chunks_inv C H B (tr_next_connection_epoch t)" by (rule tf(4) [OF i])
  then have ch: "chunks_inv C H B' (tr_next_connection_epoch t)" using B'c unfolding chunks_inv_def by simp
  have i01: "i = 0 \<or> i = 1" using i by auto
  have "table_inv C H B' (store_flow key ?s t)"
  proof (rule table_inv_replace [OF inv refl refl ok refl _ _ _ _ new ch])
    show "tr_buffered_bytes t = tr_buffered_bytes t + flow_bytes ?s - flow_bytes s"
      "tr_buffered_segments t = tr_buffered_segments t + flow_segments ?s - flow_segments s"
      using sim i01 by (auto simp: flow_bytes_def flow_segments_def dir_similar_def)
    show "flow_inv t C H B' s2" if "fl_connection_epoch s2 \<noteq> fl_connection_epoch s" "flow_inv t C H B s2" for s2
      using that by (simp add: flow_inv_def dir_inv_def B'_def)
  qed simp_all
  then show ?thesis by blast
qed

lemma note_ack_similar: "dir_similar d (note_ack p d)"
  by (auto simp: note_ack_def dir_similar_def Let_def split: option.splits)

lemma dir_similar_refl [simp]: "dir_similar d d"
  by (simp add: dir_similar_def)

lemma synchronise_cases:
  obtains "dir_similar d (synchronise p d)"
  | n where "ds_next_seq d = None" "ds_next_seq (synchronise p d) = Some n"
      "dir_similar d ((synchronise p d)\<lparr>ds_next_seq := None\<rparr>)"
proof -
  have "dir_similar d (synchronise p d) \<or> (ds_next_seq d = None \<and> (\<exists>n. ds_next_seq (synchronise p d) = Some n)
      \<and> dir_similar d ((synchronise p d)\<lparr>ds_next_seq := None\<rparr>))"
    by (cases "ds_next_seq d"; cases "flag_set p TCP_SYN"; cases "pp_transport_payload p = []")
      (simp_all add: synchronise_def dir_similar_def Let_def)
  then show ?thesis using that by blast
qed

lemma tcp_touch_inv:
  assumes inv: "table_inv C H B (store_flow key s t)" and ok: "od_ok (tr_flows t)" and i: "i < 2"
  shows "\<exists>B'. table_inv C H B' (store_flow key (tcp_touch now p i s) t)"
    and "fl_flow (tcp_touch now p i s) = fl_flow s"
proof -
  define s1 where "s1 = s\<lparr>fl_last_seen_ns := max (fl_last_seen_ns s) (pp_timestamp_ns p), fl_activity_ns := now\<rparr>"
  define s2 where "s2 = fl_set_dir i ((fl_dir s1 i)\<lparr>ds_last_seen_ns := max (ds_last_seen_ns (fl_dir s1 i)) (pp_timestamp_ns p)\<rparr>) s1"
  define s3 where "s3 = (if flag_set p TCP_ACK then fl_set_dir (1 - i) (note_ack p (fl_dir s2 (1 - i))) s2 else s2)"
  have touch: "tcp_touch now p i s = fl_set_dir i (synchronise p (fl_dir s3 i)) s3"
    by (simp add: tcp_touch_def Let_def s1_def s2_def s3_def)
  have d1: "fl_dir s1 j = fl_dir s j" for j by (simp add: s1_def fl_dir_def)
  have "flow_similar s s2"
    using i by (auto simp: flow_similar_def s2_def d1 dir_similar_def) (simp_all add: s1_def)
  moreover have "flow_similar s2 s3"
    using i note_ack_similar by (auto simp: flow_similar_def s3_def)
  ultimately have sim: "flow_similar s s3"
    by (auto simp: flow_similar_def dir_similar_def)
  then show "fl_flow (tcp_touch now p i s) = fl_flow s" by (simp add: touch flow_similar_def)
  have inv3: "table_inv C H B (store_flow key s3 t)" by (rule table_inv_similar [OF inv ok sim])
  show "\<exists>B'. table_inv C H B' (store_flow key (tcp_touch now p i s) t)"
  proof (cases rule: synchronise_cases [of "fl_dir s3 i" p])
    case 1
    then have "flow_similar s3 (tcp_touch now p i s)" using i by (auto simp: flow_similar_def touch)
    then show ?thesis using table_inv_similar [OF inv3 ok] by blast
  next
    case (2 n)
    then show ?thesis unfolding touch by (intro table_inv_synchronise [OF inv3 ok i])
  qed
qed

text \<open>Queued bytes come from the packet's payload.\<close>

lemma payload_at_segment:
  assumes "seg_at start (pp_transport_payload p) pos = Some b"
    "start mod SEQ_MODULUS = raw_payload_sequence p mod SEQ_MODULUS"
  shows "payload_at p pos b"
proof -
  let ?j = "nat (pos - start)"
  have j: "?j < length (pp_transport_payload p)" "pp_transport_payload p ! ?j = b" "start + int ?j = pos"
    using assms(1) by (auto simp: seg_at_def split: if_splits)
  have "(raw_payload_sequence p + int ?j) mod SEQ_MODULUS = (start + int ?j) mod SEQ_MODULUS"
    using assms(2) by (metis mod_add_left_eq)
  then have "(raw_payload_sequence p + int ?j) mod SEQ_MODULUS = pos mod SEQ_MODULUS" unfolding j(3) .
  then show ?thesis unfolding payload_at_def by (intro exI [of _ ?j] conjI j(1,2))
qed

lemma accept_payload_inv:
  assumes inv: "table_inv C H B (store_flow key s t)" and ok: "od_ok (tr_flows t)" and i: "i < 2"
    and p: "p \<in> set H" "packet_flow p = (fl_flow s, i)"
  shows "\<exists>out. accept_payload t (fl_dir s i) p (fl_flow s) i = Some out \<and> (case out of
      Keepalive \<Rightarrow> True
    | Ignored t' \<Rightarrow> same_table t t' \<and> tr_buffered_bytes t' = tr_buffered_bytes t
        \<and> tr_buffered_segments t' = tr_buffered_segments t
    | Queued t' d' cs \<Rightarrow> same_table t t' \<and> table_inv (C @ cs) H B (store_flow key (fl_set_dir i d' s) t'))"
proof (cases "ds_next_seq (fl_dir s i) = None \<or> pp_transport_payload p = []")
  case True
  then show ?thesis by (auto simp: accept_payload_def split: option.splits)
next
  case False
  let ?d = "fl_dir s i" and ?pl = "pp_transport_payload p"
  from False obtain n where n: "ds_next_seq ?d = Some n" and pl: "?pl \<noteq> []" by auto
  define start where "start = unwrap_sequence (raw_payload_sequence p) n"
  define t1 where "t1 = (if start < n \<and> conflicts_with_consumed ?d start ?pl
      then t\<lparr>tr_overlap_conflicts := tr_overlap_conflicts t + 1\<rparr> else t)"
  have t1: "same_table t t1" "tr_buffered_bytes t1 = tr_buffered_bytes t" "tr_buffered_segments t1 = tr_buffered_segments t"
    by (auto simp: t1_def same_table_def tcp_limits_of_def)
  consider (keep) "is_keepalive p ?d n start"
    | (old) "\<not> is_keepalive p ?d n start" "start + int (length ?pl) \<le> n"
    | (new) "\<not> is_keepalive p ?d n start" "\<not> start + int (length ?pl) \<le> n" by blast
  then show ?thesis
  proof cases
    case keep
    then show ?thesis using n pl by (auto simp: accept_payload_def Let_def start_def)
  next
    case old
    then have "accept_payload t ?d p (fl_flow s) i = Some (Ignored (count_retransmitted (int (length ?pl)) t1))"
      using n pl unfolding accept_payload_def by (simp add: Let_def start_def t1_def)
    then show ?thesis using t1 by (auto simp: count_retransmitted_def same_table_def tcp_limits_of_def)
  next
    case new
    note tf = table_inv_flow [OF inv ok i]
    have h1: "tr_consumed_history_bytes t1 = tr_consumed_history_bytes t" by (rule same_table_history [OF t1(1)])
    have q1: "queue_ok t1 True ?d" using dir_inv_queue [OF tf(1)] h1 by simp
    obtain t2 d2 where r2: "queue_payload t1 ?d p n start ?pl = (t2, d2)" by fastforce
    note f = queue_payload_facts [OF q1 n new(2) r2]
    have h2: "history_limit_ok t2"
      using tf(6) h1 same_table_history [of t1 t2] f(1) by (simp add: history_limit_ok_def acct_def)
    obtain t3 d3 c3 where r3: "tcp_drain t2 d2 (fl_flow s) i False = (t3, d3, c3)" by (metis prod_cases3)
    have o3: "dir_op (fl_flow s) i t2 d2 (t3, d3, c3)" using tcp_drain_op [OF f(2) h2] r3 by metis
    then have q3: "queue_ok t3 True d3" "history_limit_ok t3" by (auto simp: dir_op_def)
    obtain t4 d4 c4 where r4: "force_skips t3 d3 (fl_flow s) i c3 = Some (t4, d4, c3 @ c4)"
      "dir_op (fl_flow s) i t3 d3 (t4, d4, c4)"
      "1 \<le> tr_max_pending_per_direction t3 \<and> 1 \<le> tr_max_segments_per_direction t3 \<longrightarrow> \<not> direction_over t4 d4"
      using force_skips_total [OF q3] by blast
    have o4: "dir_op (fl_flow s) i t2 d2 (t4, d4, c3 @ c4)" by (rule dir_op_trans [OF o3 r4(2)])
    have tab: "same_table t t3"
      using t1(1) f(1) o3 by (auto simp: dir_op_def dir_step_def acct_def same_table_def)
    then have no: "\<not> direction_over t4 d4"
      using r4(3) tf(5) by (auto simp: same_table_def tcp_limits_of_def tcp_limits_positive_def)
    have a: "acct t ?d t2 d2" using f(1) t1 by (simp add: acct_def same_table_def)
    have "start mod SEQ_MODULUS = raw_payload_sequence p mod SEQ_MODULUS"
      by (simp add: start_def unwrap_congruent)
    then have car: "\<forall>x \<in> set (ds_pending d2). \<forall>pos b. ts.at x pos = Some b \<longrightarrow> carried H (fl_flow s) i pos b"
      using f(6) payload_at_segment [of start p] dir_inv_carried [OF tf(1)] p unfolding carried_def by blast
    have st: "dir_step (fl_flow s) i t2 d2 t4 d4 (c3 @ c4)" "queue_ok t4 True d4" using o4 by (auto simp: dir_op_def)
    have "table_inv (C @ c3 @ c4) H B (store_flow key (fl_set_dir i d4 s) t4)"
      by (rule table_inv_dir_step [OF inv ok i a _ f(5) car st no]) (simp add: f(4) n)
    moreover have "accept_payload t ?d p (fl_flow s) i = Some (Queued t4 d4 (c3 @ c4))"
      using n pl new r2 r3 r4(1) unfolding accept_payload_def by (simp add: Let_def start_def t1_def)
    moreover have "same_table t t4" using tab r4(2) by (auto simp: dir_op_def dir_step_def acct_def same_table_def)
    ultimately show ?thesis by auto
  qed
qed

lemma new_direction_inv:
  assumes "tcp_limits_positive t" "\<And>c. c \<in> set C \<Longrightarrow> sc_connection_epoch c < e"
  shows "dir_inv t C H B flow e i (new_direction e)"
proof -
  have "\<not> sc_connection_epoch c = e" if "c \<in> set C" for c using assms(2) [OF that] by simp
  then show ?thesis using assms(1)
    by (auto simp: dir_inv_def dir_queue_def new_direction_def direction_over_def tcp_limits_positive_def
        ts.chain_def ts.filled_def)
qed

lemma epoch_limits [simp]: "tcp_limits_of (t\<lparr>tr_next_connection_epoch := e\<rparr>) = tcp_limits_of t"
  by (simp add: tcp_limits_of_def)

lemma new_flow_inv:
  assumes inv: "table_inv C H B t" and none: "od_get (tr_flows t) key = None"
    and s: "fl_flow s = snd key" "fl_connection_epoch s = tr_next_connection_epoch t"
      "fl_directions s = (new_direction (tr_next_connection_epoch t), new_direction (tr_next_connection_epoch t))"
  shows "table_inv C H B (store_flow key s (t\<lparr>tr_next_connection_epoch := tr_next_connection_epoch t + 1\<rparr>))"
proof -
  let ?e = "tr_next_connection_epoch t"
  let ?t = "store_flow key s (t\<lparr>tr_next_connection_epoch := ?e + 1\<rparr>)"
  have lim: "tcp_limits_of ?t = tcp_limits_of t" by simp
  have pos: "tcp_limits_positive ?t" using inv limits_positive_eq [OF lim] by (simp add: table_inv_def)
  have ch: "chunks_inv C H B ?e" using inv by (simp add: table_inv_def)
  have dirs: "fl_dir s i = new_direction ?e" for i by (simp add: fl_dir_def s)
  have C: "sc_connection_epoch c < ?e" if "c \<in> set C" for c using ch that by (auto simp: chunks_inv_def)
  have flow: "flow_inv ?t C H B s"
    using new_direction_inv [OF pos C] by (simp add: flow_inv_def dirs s)
  have zero: "flow_bytes s = 0" "flow_segments s = 0"
    by (simp_all add: flow_bytes_def flow_segments_def dirs new_direction_def)
  have ok: "od_ok (tr_flows t)" by (rule table_inv_ok [OF inv])
  have ex: "tcp_exact ?t" using inv none zero by (simp add: table_inv_def tcp_exact_defs od_sum_put)
  have fl: "set (tr_flows ?t) = insert (key, s) (set (tr_flows t))"
    using set_od_put_pop [OF ok, of key s] none by (simp add: od_pop_absent)
  have ch': "chunks_inv C H B (?e + 1)" using ch by (auto simp: chunks_inv_def)
  have old: "flow_inv ?t C H B s2 \<and> fl_connection_epoch s2 < ?e \<and> fl_flow s2 = snd k" if "(k, s2) \<in> set (tr_flows t)" for k s2
    using inv that flow_inv_limits [OF lim] unfolding table_inv_def by blast
  have apart: "k = k'" if a: "(k, s2) \<in> insert (key, s) (set (tr_flows t))"
      "(k', s3) \<in> insert (key, s) (set (tr_flows t))" and e: "fl_connection_epoch s2 = fl_connection_epoch s3" for k s2 k' s3
  proof -
    have "k = k'" if "(k, s2) \<in> set (tr_flows t)" "(k', s3) \<in> set (tr_flows t)"
      using inv that e unfolding table_inv_def by blast
    then show ?thesis using a e s(2) old [of k s2] old [of k' s3] by (metis insertE less_irrefl prod.inject)
  qed
  show ?thesis
    unfolding table_inv_def fl
  proof (intro conjI)
    show "\<forall>(k, s2) \<in> insert (key, s) (set (tr_flows t)). flow_inv ?t C H B s2
        \<and> fl_connection_epoch s2 < tr_next_connection_epoch ?t \<and> fl_flow s2 = snd k"
      using old flow s by fastforce
    show "\<forall>(k, s2) \<in> insert (key, s) (set (tr_flows t)). \<forall>(k', s3) \<in> insert (key, s) (set (tr_flows t)).
        fl_connection_epoch s2 = fl_connection_epoch s3 \<longrightarrow> k = k'"
      using apart by blast
    show "chunks_inv C H B (tr_next_connection_epoch ?t)" using ch' by simp
  qed (fact pos ex)+
qed

text \<open>Opening the flow of a packet.\<close>

lemma tcp_open_flow_inv:
  assumes inv: "table_inv C H B t" and cnt: "int (length (tr_flows t)) \<le> tr_max_flows t" and key: "snd key = flow"
  shows "\<exists>t' s cs. tcp_open_flow t now p key flow i = Some (t', s, cs) \<and> table_inv (C @ cs) H B t'
    \<and> od_get (tr_flows t') key = Some s \<and> fl_flow s = flow \<and> tcp_limits_of t' = tcp_limits_of t
    \<and> int (length (tr_flows t')) \<le> tr_max_flows t' \<and> shrinks t t'"
proof -
  have ok: "od_ok (tr_flows t)" by (rule table_inv_ok [OF inv])
  let ?first = "case od_get (tr_flows t) key of
      None \<Rightarrow> Some (t, None, [])
    | Some state \<Rightarrow>
        (if needs_reset state i p
         then do { (t1, c) \<leftarrow> flush_and_remove key state flow t; Some (t1, None, c) }
         else Some (t, Some state, []))"
  show ?thesis
  proof (cases "\<exists>s. od_get (tr_flows t) key = Some s \<and> \<not> needs_reset s i p")
    case True
    then obtain s where s: "od_get (tr_flows t) key = Some s" "\<not> needs_reset s i p" by blast
    let ?t = "t\<lparr>tr_flows := od_move_to_end key (tr_flows t)\<rparr>"
    have "tcp_open_flow t now p key flow i = Some (?t, s, [])" using s by (simp add: tcp_open_flow_def)
    moreover have "table_inv (C @ []) H B ?t"
    proof (simp, rule table_inv_subset [OF inv])
      show "tcp_exact ?t" using inv ok by (simp add: table_inv_def tcp_exact_defs od_sum_move)
      show "set (tr_flows ?t) \<subseteq> set (tr_flows t)" using set_od_move [OF ok] by simp
    qed (simp_all add: tcp_limits_of_def)
    moreover have "fl_flow s = flow" using inv od_get_in_set [OF s(1)] key by (auto simp: table_inv_def)
    ultimately show ?thesis using s cnt ok by (simp add: tcp_limits_of_def shrinks_def)
  next
    case False
    have "\<exists>t1 c1. ?first = Some (t1, None, c1) \<and> table_inv (C @ c1) H B t1 \<and> od_get (tr_flows t1) key = None
        \<and> tcp_limits_of t1 = tcp_limits_of t \<and> shrinks t t1"
    proof (cases "od_get (tr_flows t) key")
      case None
      then show ?thesis using inv by (intro exI [of _ t] exI [of _ "[]"]) simp
    next
      case (Some s)
      then have nr: "needs_reset s i p" using False by blast
      have ff: "fl_flow s = flow" using inv od_get_in_set [OF Some] key by (auto simp: table_inv_def)
      have "table_inv C H B (store_flow key s t)" using inv store_flow_same [OF Some] by simp
      from flush_and_remove_inv [OF this ok] obtain t1 c1 where "flush_and_remove key s flow t = Some (t1, c1)"
        "table_inv (C @ c1) H B t1" "tr_flows t1 = od_pop key (tr_flows t)" "tcp_limits_of t1 = tcp_limits_of t"
        "shrinks t t1" by (auto simp: ff)
      then show ?thesis using Some nr by simp
    qed
    then obtain t1 c1 where first: "?first = Some (t1, None, c1)" and i1: "table_inv (C @ c1) H B t1"
      and n1: "od_get (tr_flows t1) key = None" and l1: "tcp_limits_of t1 = tcp_limits_of t" and h1: "shrinks t t1"
      by blast
    obtain t2 c2 where r2: "evict_to_flow_limit t1 c1 = Some (t2, c1 @ c2)" "table_inv ((C @ c1) @ c2) H B t2"
      "int (length (tr_flows t2)) < tr_max_flows t2" "suffix (tr_flows t2) (tr_flows t1)"
      "tcp_limits_of t2 = tcp_limits_of t1" "shrinks t1 t2"
      using evict_to_flow_limit_inv [OF i1] by blast
    have n2: "od_get (tr_flows t2) key = None"
      using n1 set_mono_suffix [OF r2(4)] by (auto simp: od_get_None_iff)
    define s where "s = \<lparr>fl_flow = flow, fl_connection_epoch = tr_next_connection_epoch t2,
      fl_directions = (new_direction (tr_next_connection_epoch t2), new_direction (tr_next_connection_epoch t2)),
      fl_last_seen_ns = pp_timestamp_ns p, fl_activity_ns = now\<rparr>"
    let ?t = "store_flow key s (t2\<lparr>tr_next_connection_epoch := tr_next_connection_epoch t2 + 1\<rparr>)"
    have "tcp_open_flow t now p key flow i = Some (?t, s, c1 @ c2)"
      unfolding tcp_open_flow_def first using r2(1) by (simp add: s_def store_flow_def Let_def)
    moreover have "table_inv (C @ (c1 @ c2)) H B ?t"
      using new_flow_inv [OF r2(2) n2, of s] by (simp add: s_def key)
    moreover have "int (length (tr_flows ?t)) \<le> tr_max_flows ?t"
      using r2(3) n2 by (simp add: length_od_put store_flow_def)
    moreover have "fl_flow s = flow" by (simp add: s_def)
    moreover have "tcp_limits_of ?t = tcp_limits_of t" using l1 r2(5) by simp
    moreover have "shrinks t ?t" using shrinks_trans [OF h1 r2(6)] by (simp add: shrinks_def)
    ultimately show ?thesis by (auto simp: store_flow_def)
  qed
qed

lemma flow_similar_close: "flow_similar (fl_set_dir i d s) (fl_set_dir i (d\<lparr>ds_closed := c\<rparr>) s)" if "i < 2"
  using that by (auto simp: flow_similar_def dir_similar_def)

lemma tcp_close_inv:
  assumes inv: "table_inv C H B (store_flow key s t)" and ok: "od_ok (tr_flows t)" and i: "i < 2"
  shows "\<exists>t' cs. tcp_close t s p key (fl_flow s) i chunks = Some (t', chunks @ cs) \<and> table_inv (C @ cs) H B t'
    \<and> tcp_limits_of t' = tcp_limits_of t \<and> length (tr_flows t') \<le> length (od_put key s (tr_flows t)) \<and> shrinks t t'"
proof -
  have "\<exists>t1 s1 c1. (if flag_set p (TCP_FIN OR TCP_RST) then
               do { (t1, d1, c1) \<leftarrow> flush_direction t (fl_dir s i) (fl_flow s) i chunks;
                    Some (t1, fl_set_dir i (d1\<lparr>ds_closed := True\<rparr>) s, c1) }
             else Some (t, s, chunks)) = Some (t1, s1, chunks @ c1)
      \<and> table_inv (C @ c1) H B (store_flow key s1 t1) \<and> same_table t t1 \<and> shrinks t t1 \<and> fl_flow s1 = fl_flow s"
  proof (cases "flag_set p (TCP_FIN OR TCP_RST)")
    case True
    obtain t1 d1 c1 where f: "flush_direction t (fl_dir s i) (fl_flow s) i chunks = Some (t1, d1, chunks @ c1)"
      "table_inv (C @ c1) H B (store_flow key (fl_set_dir i d1 s) t1)" "same_table t t1" "shrinks t t1"
      using flush_direction_inv [OF inv ok i, of chunks] by blast
    have "od_ok (tr_flows t1)" using ok f(3) by (simp add: same_table_def)
    then have "table_inv (C @ c1) H B (store_flow key (fl_set_dir i (d1\<lparr>ds_closed := True\<rparr>) s) t1)"
      by (rule table_inv_similar [OF f(2) _ flow_similar_close [OF i]])
    then show ?thesis using True f by auto
  next
    case False
    then show ?thesis using inv by (intro exI [of _ t] exI [of _ s] exI [of _ "[]"]) simp
  qed
  then obtain t1 s1 c1 where r1: "(if flag_set p (TCP_FIN OR TCP_RST) then
               do { (t1, d1, c1) \<leftarrow> flush_direction t (fl_dir s i) (fl_flow s) i chunks;
                    Some (t1, fl_set_dir i (d1\<lparr>ds_closed := True\<rparr>) s, c1) }
             else Some (t, s, chunks)) = Some (t1, s1, chunks @ c1)"
    and i1: "table_inv (C @ c1) H B (store_flow key s1 t1)" and s1: "same_table t t1" "shrinks t t1" "fl_flow s1 = fl_flow s"
    by blast
  let ?t1 = "store_flow key s1 t1"
  have ok1: "od_ok (tr_flows ?t1)" using ok s1(1) by (simp add: same_table_def)
  have len: "length (od_put key x (tr_flows t1)) = length (od_put key s (tr_flows t))" for x
    using s1(1) by (simp add: same_table_def length_od_put)
  show ?thesis
  proof (cases "flag_set p TCP_RST \<or> (ds_closed (fl_dir s1 0) \<and> ds_closed (fl_dir s1 1))")
    case False
    then have "tcp_close t s p key (fl_flow s) i chunks = Some (?t1, chunks @ c1)"
      unfolding tcp_close_def r1 by (auto simp: store_flow_def Let_def)
    then show ?thesis using i1 s1 len [of s1] by (auto simp: same_table_def shrinks_def)
  next
    case True
    have j: "1 - i < 2" by simp
    have i1': "table_inv (C @ c1) H B (store_flow key s1 ?t1)" using i1 by simp
    obtain t2 d2 c2 where r2: "flush_direction ?t1 (fl_dir s1 (1 - i)) (fl_flow s1) (1 - i) (chunks @ c1) = Some (t2, d2, (chunks @ c1) @ c2)"
      "table_inv ((C @ c1) @ c2) H B (store_flow key (fl_set_dir (1 - i) d2 s1) t2)" "same_table ?t1 t2" "shrinks ?t1 t2"
      using flush_direction_inv [OF i1' ok1 j, of "chunks @ c1"] by blast
    let ?t2 = "store_flow key (fl_set_dir (1 - i) d2 s1) t2"
    have "tcp_close t s p key (fl_flow s) i chunks = Some (tcp_remove_flow key ?t2, chunks @ (c1 @ c2))"
      using True r2(1) s1(3) unfolding tcp_close_def r1 by (simp add: store_flow_def Let_def)
    moreover have "table_inv (C @ (c1 @ c2)) H B (tcp_remove_flow key ?t2)"
      using table_inv_remove [OF r2(2)] by simp
    moreover have "shrinks t (tcp_remove_flow key ?t2)"
      using shrinks_remove [OF r2(2), of key] r2(4) s1(2) by (simp add: shrinks_def)
    moreover have "length (tr_flows (tcp_remove_flow key ?t2)) \<le> length (od_put key s (tr_flows t))"
      using r2(3) len [of s1] by (simp add: tb.store_discard same_table_def od_pop_def)
        (metis length_filter_le len)
    moreover have "tcp_limits_of (tcp_remove_flow key ?t2) = tcp_limits_of t"
      using r2(3) s1(1) by (simp add: same_table_def)
    ultimately show ?thesis by blast
  qed
qed

text \<open>The invariant of the reassembler between calls.\<close>

definition tcp_inv :: "StreamChunk list \<Rightarrow> ParsedPacket list \<Rightarrow> seq_base \<Rightarrow> TCPReassembler \<Rightarrow> bool" where
  "tcp_inv C H B t \<longleftrightarrow> table_inv C H B t \<and> int (length (tr_flows t)) \<le> tr_max_flows t \<and> \<not> tcp_over_budget t"

lemma tcp_inv_shrink:
  assumes "tcp_inv C H B t" "table_inv C' H' B' t'" "tcp_limits_of t' = tcp_limits_of t" "shrinks t t'"
    "length (tr_flows t') \<le> length (tr_flows t)"
  shows "tcp_inv C' H' B' t'"
  using assms by (auto simp: tcp_inv_def tcp_over_budget_def shrinks_def tcp_limits_of_def)

lemma od_put_present_length: "od_get d k \<noteq> None \<Longrightarrow> length (od_put k v d) = length d"
  by (simp add: length_od_put)

lemma packet_flow_direction: "packet_flow p = (flow, i) \<Longrightarrow> i < 2"
  using canonical_direction [of "pp_protocol p" "pp_src p" "pp_sport p" "pp_dst p" "pp_dport p" "pp_interface p" "pp_vlan_ids p"]
  by (auto simp: packet_flow_def)

lemma tcp_process_inv:
  assumes inv: "tcp_inv C H B t"
  shows "\<exists>t' cs B'. tcp_process t now p = Some (t', cs) \<and> tcp_inv (C @ cs) (H @ [p]) B' t'
    \<and> tcp_limits_of t' = tcp_limits_of t"
proof (cases "pp_protocol p \<noteq> IPPROTO_TCP \<or> \<not> pp_transport_parsed p")
  case True
  have "table_inv C (H @ [p]) B t" using inv table_inv_mono [of C H B t "H @ [p]"] by (auto simp: tcp_inv_def)
  with True inv show ?thesis by (intro exI [of _ t] exI [of _ "[]"] exI [of _ B]) (auto simp: tcp_process_def tcp_inv_def)
next
  case False
  obtain flow i where pf: "packet_flow p = (flow, i)" by fastforce
  have i: "i < 2" by (rule packet_flow_direction [OF pf])
  let ?H = "H @ [p]" and ?key = "(pp_session_id p, flow)"
  have tinv: "table_inv C ?H B t" and cnt: "int (length (tr_flows t)) \<le> tr_max_flows t"
    using inv table_inv_mono [of C H B t ?H] by (auto simp: tcp_inv_def)
  obtain t1 s0 c0 where o: "tcp_open_flow t now p ?key flow i = Some (t1, s0, c0)" "table_inv (C @ c0) ?H B t1"
    "od_get (tr_flows t1) ?key = Some s0" "fl_flow s0 = flow" "tcp_limits_of t1 = tcp_limits_of t"
    "int (length (tr_flows t1)) \<le> tr_max_flows t1" "shrinks t t1"
    using tcp_open_flow_inv [OF tinv cnt, of ?key flow now p i] by auto
  have ok1: "od_ok (tr_flows t1)" by (rule table_inv_ok [OF o(2)])
  define s1 where "s1 = tcp_touch now p i s0"
  define t2 where "t2 = store_flow ?key s1 t1"
  have st0: "table_inv (C @ c0) ?H B (store_flow ?key s0 t1)" using o(2) store_flow_same [OF o(3)] by simp
  obtain B' where i2: "table_inv (C @ c0) ?H B' t2"
    using tcp_touch_inv(1) [OF st0 ok1 i, of now p] by (auto simp: t2_def s1_def)
  have f1: "fl_flow s1 = flow" using tcp_touch_inv(2) [OF st0 ok1 i] o(4) by (simp add: s1_def)
  have ok2: "od_ok (tr_flows t2)" by (rule table_inv_ok [OF i2])
  have st2: "store_flow ?key s1 t2 = t2" by (simp add: t2_def)
  have pres: "od_get (tr_flows t2) ?key = Some s1" by (simp add: t2_def)
  have len2: "length (tr_flows t2) = length (tr_flows t1)"
    using o(3) by (simp add: t2_def od_put_present_length)
  have lim2: "tcp_limits_of t2 = tcp_limits_of t" using o(5) by (simp add: t2_def)
  have budget2: "\<not> tcp_over_budget t2"
    using inv o(7) lim2 by (auto simp: tcp_inv_def tcp_over_budget_def shrinks_def tcp_limits_of_def t2_def store_flow_def)
  have tcp2: "tcp_inv (C @ c0) ?H B' t2"
    using i2 budget2 len2 o(6) o(5) lim2 by (simp add: tcp_inv_def tcp_limits_of_def)
  have pH: "p \<in> set ?H" "packet_flow p = (fl_flow s1, i)" using pf f1 by auto
  have i2': "table_inv (C @ c0) ?H B' (store_flow ?key s1 t2)" using i2 st2 by simp
  obtain out where acc: "accept_payload t2 (fl_dir s1 i) p (fl_flow s1) i = Some out"
    and outc: "case out of Keepalive \<Rightarrow> True
      | Ignored t' \<Rightarrow> same_table t2 t' \<and> tr_buffered_bytes t' = tr_buffered_bytes t2
          \<and> tr_buffered_segments t' = tr_buffered_segments t2
      | Queued t' d' cs \<Rightarrow> same_table t2 t' \<and> table_inv ((C @ c0) @ cs) ?H B' (store_flow ?key (fl_set_dir i d' s1) t')"
    using accept_payload_inv [OF i2' ok2 i pH] by blast
  have proc: "tcp_process t now p = (case out of
        Keepalive \<Rightarrow> Some (t2, c0)
      | Ignored t3 \<Rightarrow> tcp_close t3 s1 p ?key flow i c0
      | Queued t3 d3 c3 \<Rightarrow>
          (let state3 = fl_set_dir i d3 s1; t4 = store_flow ?key state3 t3 in
           do { (t5, chunks5) \<leftarrow> evict_to_budget t4 (c0 @ c3);
                if od_get (tr_flows t5) ?key = None then Some (t5, chunks5)
                else tcp_close t5 state3 p ?key flow i chunks5 }))"
    using False pf o(1) acc f1 unfolding t2_def s1_def store_flow_def
    by (simp add: tcp_process_def Let_def cong: payload_outcome.case_cong)
  show ?thesis
  proof (cases out)
    case Keepalive
    then show ?thesis using proc tcp2 lim2 by auto
  next
    case (Ignored t3)
    then have t3: "same_table t2 t3" "tr_buffered_bytes t3 = tr_buffered_bytes t2" "tr_buffered_segments t3 = tr_buffered_segments t2"
      using outc by auto
    have "table_inv (C @ c0) ?H B' t3" by (rule table_inv_frame [OF i2 t3])
    moreover have g3: "od_get (tr_flows t3) ?key = Some s1" using pres t3(1) by (simp add: same_table_def)
    ultimately have i3: "table_inv (C @ c0) ?H B' (store_flow ?key s1 t3)" by (simp add: store_flow_same)
    have ok3: "od_ok (tr_flows t3)" using ok2 t3(1) by (simp add: same_table_def)
    obtain t4 c4 where r: "tcp_close t3 s1 p ?key (fl_flow s1) i c0 = Some (t4, c0 @ c4)" "table_inv ((C @ c0) @ c4) ?H B' t4"
      "tcp_limits_of t4 = tcp_limits_of t3" "length (tr_flows t4) \<le> length (od_put ?key s1 (tr_flows t3))" "shrinks t3 t4"
      using tcp_close_inv [OF i3 ok3 i] by blast
    have "tcp_inv ((C @ c0) @ c4) ?H B' t4"
      by (rule tcp_inv_shrink [OF tcp2 r(2)]) (use r t3 g3 in \<open>auto simp: same_table_def shrinks_def length_od_put\<close>)
    then show ?thesis using proc Ignored r(1,3) f1 t3(1) lim2
      by (intro exI [of _ t4] exI [of _ "c0 @ c4"] exI [of _ B']) (auto simp: same_table_def)
  next
    case (Queued t3 d3 c3)
    define s3 where "s3 = fl_set_dir i d3 s1"
    define t4 where "t4 = store_flow ?key s3 t3"
    have t3: "same_table t2 t3" and i4: "table_inv ((C @ c0) @ c3) ?H B' t4"
      using outc Queued by (auto simp: t4_def s3_def)
    obtain t5 c5 where r5: "evict_to_budget t4 (c0 @ c3) = Some (t5, (c0 @ c3) @ c5)" "table_inv (((C @ c0) @ c3) @ c5) ?H B' t5"
      "\<not> tcp_over_budget t5" "suffix (tr_flows t5) (tr_flows t4)" "tcp_limits_of t5 = tcp_limits_of t4"
      using evict_to_budget_inv [OF i4, of "c0 @ c3"] by blast
    have len4: "length (tr_flows t4) = length (tr_flows t2)"
      using pres t3 by (simp add: t4_def same_table_def od_put_present_length)
    have lim5: "tcp_limits_of t5 = tcp_limits_of t" using r5(5) t3 lim2 by (simp add: t4_def same_table_def)
    have tcp5: "tcp_inv (C @ (c0 @ c3 @ c5)) ?H B' t5"
      using r5(2,3) suffix_length_le [OF r5(4)] len4 len2 o(5,6) lim5 by (simp add: tcp_inv_def tcp_limits_of_def)
    show ?thesis
    proof (cases "od_get (tr_flows t5) ?key")
      case None
      then have "tcp_process t now p = Some (t5, c0 @ c3 @ c5)"
        using proc Queued r5(1) by (simp add: s3_def t4_def)
      then show ?thesis using tcp5 lim5 by blast
    next
      case (Some s')
      have ok5: "od_ok (tr_flows t5)" by (rule table_inv_ok [OF r5(2)])
      have ok4: "od_ok (tr_flows t4)" by (rule table_inv_ok [OF i4])
      have "(?key, s') \<in> set (tr_flows t4)" using od_get_in_set [OF Some] set_mono_suffix [OF r5(4)] by blast
      then have "od_get (tr_flows t4) ?key = Some s'" using od_get_iff [OF ok4] by blast
      then have s': "s' = s3" by (simp add: t4_def)
      have i5: "table_inv (C @ (c0 @ c3 @ c5)) ?H B' (store_flow ?key s3 t5)"
        using r5(2) store_flow_same [OF Some] s' by simp
      have ff: "fl_flow s3 = flow" using f1 by (simp add: s3_def)
      obtain t6 c6 where r6: "tcp_close t5 s3 p ?key (fl_flow s3) i (c0 @ c3 @ c5) = Some (t6, (c0 @ c3 @ c5) @ c6)"
        "table_inv ((C @ (c0 @ c3 @ c5)) @ c6) ?H B' t6" "tcp_limits_of t6 = tcp_limits_of t5"
        "length (tr_flows t6) \<le> length (od_put ?key s3 (tr_flows t5))" "shrinks t5 t6"
        using tcp_close_inv [OF i5 ok5 i, of p "c0 @ c3 @ c5"] by blast
      have "tcp_inv ((C @ (c0 @ c3 @ c5)) @ c6) ?H B' t6"
        by (rule tcp_inv_shrink [OF tcp5 r6(2,3,5)]) (use r6(4) Some in \<open>simp add: length_od_put\<close>)
      moreover have "tcp_process t now p = Some (t6, (c0 @ c3 @ c5) @ c6)"
        using proc Queued r5(1) r6(1) Some ff by (simp add: s3_def t4_def)
      ultimately show ?thesis using r6(3) lim5 by (intro exI [of _ t6]) auto
    qed
  qed
qed

section \<open>Runs\<close>

lemma remove_flows_inv:
  "table_inv C H B t \<Longrightarrow> distinct keys \<Longrightarrow> set keys \<subseteq> fst ` set (tr_flows t) \<Longrightarrow>
   \<exists>t' cs. remove_flows keys t = Inr (Some (t', cs)) \<and> table_inv (C @ cs) H B t'
     \<and> tr_flows t' = fold od_pop keys (tr_flows t) \<and> tcp_limits_of t' = tcp_limits_of t \<and> shrinks t t'"
proof (induction keys arbitrary: t C)
  case Nil
  then show ?case by (intro exI [of _ t] exI [of _ "[]"]) simp
next
  case (Cons key keys)
  have ok: "od_ok (tr_flows t)" by (rule table_inv_ok [OF Cons.prems(1)])
  obtain s where s: "od_get (tr_flows t) key = Some s"
    using Cons.prems(3) by (cases "od_get (tr_flows t) key") (auto simp: od_get_None_iff)
  have "table_inv C H B (store_flow key s t)" using Cons.prems(1) store_flow_same [OF s] by simp
  from flush_and_remove_inv [OF this ok] obtain t1 c1 where r1: "flush_and_remove key s (fl_flow s) t = Some (t1, c1)"
    "table_inv (C @ c1) H B t1" "tr_flows t1 = od_pop key (tr_flows t)" "tcp_limits_of t1 = tcp_limits_of t" "shrinks t t1"
    by blast
  have "set keys \<subseteq> fst ` set (tr_flows t1)"
  proof
    fix k assume k: "k \<in> set keys"
    then obtain e where "e \<in> set (tr_flows t)" "fst e = k" using Cons.prems(3) by auto
    moreover have "k \<noteq> key" using k Cons.prems(2) by auto
    ultimately show "k \<in> fst ` set (tr_flows t1)" unfolding r1(3) set_od_pop by blast
  qed
  with Cons.IH [OF r1(2)] Cons.prems(2) obtain t2 c2 where r2: "remove_flows keys t1 = Inr (Some (t2, c2))"
    "table_inv ((C @ c1) @ c2) H B t2" "tr_flows t2 = fold od_pop keys (tr_flows t1)"
    "tcp_limits_of t2 = tcp_limits_of t1" "shrinks t1 t2" by auto
  have "remove_flows (key # keys) t = Inr (Some (t2, c1 @ c2))" using s r1(1) r2(1) by simp
  then show ?case using r1(3-5) r2(2-5) shrinks_trans [OF r1(5) r2(5)] by auto
qed

lemma length_fold_pop: "length (fold od_pop keys d) \<le> length d"
proof (induction keys arbitrary: d)
  case (Cons k ks)
  have "length (od_pop k d) \<le> length d" by (simp add: od_pop_def)
  with Cons.IH [of "od_pop k d"] show ?case by simp
qed simp

lemma tcp_expire_inv:
  assumes inv: "tcp_inv C H B t"
  shows "\<exists>t' cs. tcp_expire t now c = Inr (Some (t', cs)) \<and> tcp_inv (C @ cs) H B t' \<and> tcp_limits_of t' = tcp_limits_of t"
proof -
  have tinv: "table_inv C H B t" using inv by (simp add: tcp_inv_def)
  have ok: "distinct (map fst (tr_flows t))" using table_inv_ok [OF tinv] by (simp add: od_ok_def)
  let ?stale = "tcp_stale_keys t now c"
  have "distinct ?stale"
  proof (cases c)
    case True
    then show ?thesis using ok by (simp add: tcp_stale_keys_def distinct_map_filter)
  next
    case False
    obtain n where "takeWhile (\<lambda>e. \<not> now - fl_activity_ns (snd e) < tr_idle_ns t) (tr_flows t) = take n (tr_flows t)"
      using takeWhile_eq_take by blast
    then show ?thesis using ok False by (simp add: tcp_stale_keys_def take_map [symmetric])
  qed
  moreover have "set ?stale \<subseteq> fst ` set (tr_flows t)"
    by (auto simp: tcp_stale_keys_def dest: set_takeWhileD)
  ultimately obtain t1 cs where r: "remove_flows ?stale t = Inr (Some (t1, cs))" "table_inv (C @ cs) H B t1"
    "tr_flows t1 = fold od_pop ?stale (tr_flows t)" "tcp_limits_of t1 = tcp_limits_of t" "shrinks t t1"
    using remove_flows_inv [OF tinv] by blast
  let ?t = "t1\<lparr>tr_expired_flows := tr_expired_flows t1 + int (length ?stale)\<rparr>"
  have "tcp_expire t now c = Inr (Some (?t, cs))" using r(1) by (simp add: tcp_expire_def Let_def)
  moreover have "tcp_limits_of ?t = tcp_limits_of t" using r(4) by (simp add: tcp_limits_of_def)
  moreover have "table_inv (C @ cs) H B ?t"
    by (rule table_inv_frame [OF r(2)]) (simp_all add: same_table_def tcp_limits_of_def)
  ultimately show ?thesis
    using tcp_inv_shrink [OF inv, of "C @ cs" H B ?t] r(5) length_fold_pop [of ?stale "tr_flows t"] r(3)
    by (auto simp: shrinks_def)
qed

text \<open>A sequence of calls. The outer result is the language's exceptions, \<open>None\<close> a call that does not
  return; the list collects the emitted chunks.\<close>

datatype tcp_op = TcpProcess int ParsedPacket | TcpExpire int bool

fun tcp_exec :: "TCPReassembler \<Rightarrow> tcp_op list \<Rightarrow> (TCPReassembler \<times> StreamChunk list) option result" where
  "tcp_exec t [] = Inr (Some (t, []))"
| "tcp_exec t (TcpProcess now p # ops) =
     (case tcp_process t now p of
        None \<Rightarrow> Inr None
      | Some (t1, c1) \<Rightarrow> bindE (tcp_exec t1 ops) (\<lambda>r. Inr (map_option (\<lambda>(t2, c2). (t2, c1 @ c2)) r)))"
| "tcp_exec t (TcpExpire now explicit_clock # ops) =
     bindE (tcp_expire t now explicit_clock) (\<lambda>r0.
       case r0 of
         None \<Rightarrow> Inr None
       | Some (t1, c1) \<Rightarrow> bindE (tcp_exec t1 ops) (\<lambda>r. Inr (map_option (\<lambda>(t2, c2). (t2, c1 @ c2)) r)))"

fun tcp_packets :: "tcp_op list \<Rightarrow> ParsedPacket list" where
  "tcp_packets [] = []"
| "tcp_packets (TcpProcess now p # ops) = p # tcp_packets ops"
| "tcp_packets (TcpExpire now c # ops) = tcp_packets ops"

lemma tcp_exec_inv:
  "tcp_inv C H B t \<Longrightarrow> \<exists>t' cs B'. tcp_exec t ops = Inr (Some (t', cs)) \<and> tcp_inv (C @ cs) (H @ tcp_packets ops) B' t'
     \<and> tcp_limits_of t' = tcp_limits_of t"
proof (induction t ops arbitrary: C H B rule: tcp_exec.induct)
  case (1 t)
  then show ?case by (intro exI [of _ t] exI [of _ "[]"] exI [of _ B]) simp
next
  case (2 t now p ops)
  obtain t1 c1 B1 where r1: "tcp_process t now p = Some (t1, c1)" "tcp_inv (C @ c1) (H @ [p]) B1 t1"
    "tcp_limits_of t1 = tcp_limits_of t"
    using tcp_process_inv [OF 2(2)] by blast
  obtain t2 c2 B2 where r2: "tcp_exec t1 ops = Inr (Some (t2, c2))"
    "tcp_inv ((C @ c1) @ c2) ((H @ [p]) @ tcp_packets ops) B2 t2" "tcp_limits_of t2 = tcp_limits_of t1"
    using 2(1) [OF r1(1) refl r1(2)] by blast
  show ?case using r1 r2 by (intro exI [of _ t2] exI [of _ "c1 @ c2"] exI [of _ B2]) simp
next
  case (3 t now c ops)
  obtain t1 c1 where r1: "tcp_expire t now c = Inr (Some (t1, c1))" "tcp_inv (C @ c1) H B t1"
    "tcp_limits_of t1 = tcp_limits_of t"
    using tcp_expire_inv [OF 3(2)] by blast
  obtain t2 c2 B2 where r2: "tcp_exec t1 ops = Inr (Some (t2, c2))"
    "tcp_inv ((C @ c1) @ c2) (H @ tcp_packets ops) B2 t2" "tcp_limits_of t2 = tcp_limits_of t1"
    using 3(1) [OF r1(2)] by blast
  show ?case using r1 r2 by (intro exI [of _ t2] exI [of _ "c1 @ c2"] exI [of _ B2]) simp
qed

lemma tcp_init_inv:
  assumes "tcp_init idle mf mo ms mb mbs ch mseg ns = Inr t"
  shows "tcp_inv [] [] B t"
  using assms
  by (auto simp: tcp_init_def tcp_inv_def table_inv_def tcp_limits_positive_def tcp_exact_defs chunks_inv_def
      tcp_over_budget_def split: if_splits)

section \<open>Properties\<close>

text \<open>Unwrapping maps a 32-bit sequence number to the position congruent to it modulo \<open>2 ^ 32\<close>
  within \<open>2 ^ 31\<close> of the reference, and it is the only such position strictly inside that window.\<close>

theorem unwrap_sequence_nearest:
  "unwrap_sequence sequence reference mod 2 ^ 32 = sequence mod 2 ^ 32
   \<and> \<bar>unwrap_sequence sequence reference - reference\<bar> \<le> 2 ^ 31
   \<and> (\<forall>y. y mod 2 ^ 32 = sequence mod 2 ^ 32 \<and> \<bar>y - reference\<bar> < 2 ^ 31 \<longrightarrow> y = unwrap_sequence sequence reference)"
proof (intro conjI allI impI)
  let ?u = "unwrap_sequence sequence reference"
  show c: "?u mod 2 ^ 32 = sequence mod 2 ^ 32" and n: "\<bar>?u - reference\<bar> \<le> 2 ^ 31"
    using unwrap_congruent [of sequence reference] unwrap_near [of sequence reference]
    by (simp_all add: SEQ_MODULUS_def SEQ_HALF_def)
  fix y assume y: "y mod 2 ^ 32 = sequence mod 2 ^ 32 \<and> \<bar>y - reference\<bar> < 2 ^ 31"
  then have "(y - ?u) mod 2 ^ 32 = 0" using c by (metis mod_eq_dvd_iff mod_0_imp_dvd dvd_imp_mod_0)
  then obtain k where "y - ?u = 2 ^ 32 * k" by (metis mod_0_imp_dvd dvdE)
  moreover have "\<bar>y - ?u\<bar> < 2 ^ 32" using y n by (simp add: abs_if split: if_splits)
  ultimately show "y = ?u" by (cases "k = 0") (auto simp: abs_mult)
qed

theorem unwrap_sequence_nearest_witness:
  "unwrap_sequence 5 0x1FFFFFFFE = 0x200000005"
proof -
  have "\<forall>y. y mod 2 ^ 32 = 5 mod 2 ^ 32 \<and> \<bar>y - 0x1FFFFFFFE\<bar> < 2 ^ 31 \<longrightarrow> y = unwrap_sequence 5 0x1FFFFFFFE"
    using unwrap_sequence_nearest [of 5 "0x1FFFFFFFE"] by blast
  from this [rule_format, of "0x200000005"] show ?thesis by simp
qed

text \<open>C13: a reassembler built by the constructor and driven by any sequence of packets and expiry calls
  always returns (every draining, flushing, skipping and eviction loop ends, no lookup fails); after each
  sequence the number of flows, the buffered bytes and the buffered segments are within their limits, the
  two counters are exactly the totals over the table, and every direction is within its own byte and
  segment limits with its queue in stream order, disjoint, and holding nothing that could already have
  been delivered.\<close>

theorem tcp_reassembler_bounded:
  assumes "tcp_init idle max_flows max_ooo max_stream max_bytes max_segments history max_dir_segments ns = Inr t"
  shows "\<exists>t' cs. tcp_exec t ops = Inr (Some (t', cs)) \<and> tcp_limits_of t' = tcp_limits_of t
    \<and> int (length (tr_flows t')) \<le> tr_max_flows t'
    \<and> tr_buffered_bytes t' = od_sum (\<lambda>_. flow_bytes) (tr_flows t') \<and> tr_buffered_bytes t' \<le> tr_max_buffered_bytes t'
    \<and> tr_buffered_segments t' = od_sum (\<lambda>_. flow_segments) (tr_flows t')
    \<and> tr_buffered_segments t' \<le> tr_max_buffered_segments t'
    \<and> (\<forall>(k, s) \<in> set (tr_flows t'). \<forall>i < 2. dir_queue (tr_consumed_history_bytes t') True (fl_dir s i)
         \<and> ds_pending_bytes (fl_dir s i) \<le> tr_max_pending_per_direction t'
         \<and> int (length (ds_pending (fl_dir s i))) \<le> tr_max_segments_per_direction t')"
proof -
  obtain t' cs B where e: "tcp_exec t ops = Inr (Some (t', cs))" "tcp_inv ([] @ cs) ([] @ tcp_packets ops) B t'"
    "tcp_limits_of t' = tcp_limits_of t"
    using tcp_exec_inv [OF tcp_init_inv [OF assms]] by blast
  have inv: "table_inv cs (tcp_packets ops) B t'" "int (length (tr_flows t')) \<le> tr_max_flows t'" "\<not> tcp_over_budget t'"
    using e(2) by (auto simp: tcp_inv_def)
  have ex: "tcp_exact t'" using inv(1) by (simp add: table_inv_def)
  have dirs: "\<forall>(k, s) \<in> set (tr_flows t'). \<forall>i < 2. dir_queue (tr_consumed_history_bytes t') True (fl_dir s i)
         \<and> ds_pending_bytes (fl_dir s i) \<le> tr_max_pending_per_direction t'
         \<and> int (length (ds_pending (fl_dir s i))) \<le> tr_max_segments_per_direction t'"
    using inv(1) unfolding table_inv_def flow_inv_def dir_inv_def direction_over_def by fastforce
  show ?thesis
    using e(1,3) inv(2,3) ex dirs by (intro exI [of _ t'] exI [of _ cs]) (auto simp: tcp_exact_defs tcp_over_budget_def)
qed

definition small_tcp :: TCPReassembler where
  "small_tcp =
     \<lparr>tr_idle_ns = 300000000000, tr_max_flows = 2, tr_max_out_of_order = 8,
      tr_max_stream_bytes_per_direction = 16, tr_max_pending_per_direction = 8,
      tr_max_buffered_bytes = 16, tr_max_buffered_segments = 4, tr_consumed_history_bytes = 8,
      tr_max_segments_per_direction = 4, tr_flows = [], tr_next_connection_epoch = 1,
      tr_buffered_bytes = 0, tr_buffered_segments = 0, tr_peak_buffered_segments = 0,
      tr_evicted_flows = 0, tr_budget_evicted_flows = 0, tr_expired_flows = 0,
      tr_retransmitted_bytes = 0, tr_overlap_conflicts = 0, tr_gap_bytes = 0\<rparr>"

lemma small_tcp_init: "tcp_init 300 2 8 16 16 4 8 4 0 = Inr small_tcp"
  by (simp add: tcp_init_def small_tcp_def)

definition sample_segment :: "int \<Rightarrow> int \<Rightarrow> int \<Rightarrow> bytes \<Rightarrow> ParsedPacket" where
  "sample_segment i seq flags d =
     \<lparr>pp_session_id = [], pp_packet_id = i, pp_timestamp_ns = i, pp_interface = [],
      pp_captured_length = 60, pp_wire_length = 60, pp_ip_version = 4, pp_src = ''a'',
      pp_dst = ''b'', pp_protocol = 6, pp_vlan_ids = [], pp_network_payload = [],
      pp_truncated = False, pp_fragment_id = None, pp_fragment_offset = 0,
      pp_more_fragments = False, pp_transport_parsed = True, pp_sport = 1000, pp_dport = 80,
      pp_tcp_seq = seq, pp_tcp_ack = 0, pp_tcp_flags = flags, pp_transport_payload = d,
      pp_source_packet_ids = []\<rparr>"

text \<open>A data segment of a connection whose beginning was not seen.\<close>

abbreviation sample_ops :: "tcp_op list" where
  "sample_ops \<equiv> [TcpProcess 1 (sample_segment 1 9 16 [65, 66])]"

theorem tcp_reassembler_bounded_witness:
  "\<exists>t' cs. tcp_exec small_tcp sample_ops = Inr (Some (t', cs)) \<and> tr_buffered_bytes t' \<le> 16"
  using tcp_reassembler_bounded [OF small_tcp_init, of sample_ops]
  by (auto simp: tcp_limits_of_def small_tcp_def)

text \<open>C10: each stream position is emitted at most once and in order: of two chunks of the same
  connection epoch and direction emitted during a run, the earlier one ends at or before the offset
  where the later one begins; no chunk is empty, and its provenance spans tile exactly its bytes and cite
  exactly the packets the chunk cites.\<close>

theorem tcp_chunks_in_order:
  assumes "tcp_init idle max_flows max_ooo max_stream max_bytes max_segments history max_dir_segments ns = Inr t"
    and "tcp_exec t ops = Inr (Some (t', cs))"
  shows "sorted_wrt (\<lambda>c c'. sc_connection_epoch c = sc_connection_epoch c' \<and> sc_direction c = sc_direction c'
      \<longrightarrow> sc_end c \<le> sc_stream_offset c') cs \<and> (\<forall>c \<in> set cs. chunk_ok c)"
proof -
  obtain B where "tcp_inv ([] @ cs) ([] @ tcp_packets ops) B t'"
    using tcp_exec_inv [OF tcp_init_inv [OF assms(1)], of ops] assms(2) by auto
  then show ?thesis by (auto simp: tcp_inv_def table_inv_def chunks_inv_def)
qed

lemma sample_ops_run:
  "case tcp_exec small_tcp sample_ops of Inr (Some (t', cs)) \<Rightarrow> map sc_data cs = [[65, 66]] | _ \<Rightarrow> False"
  by code_simp

theorem tcp_chunks_in_order_witness:
  "\<exists>t' cs. tcp_exec small_tcp sample_ops = Inr (Some (t', cs)) \<and> cs \<noteq> [] \<and> (\<forall>c \<in> set cs. chunk_ok c)"
proof -
  obtain t' cs where r: "tcp_exec small_tcp sample_ops = Inr (Some (t', cs))" "map sc_data cs = [[65, 66]]"
    using sample_ops_run by (auto split: sum.splits option.splits prod.splits)
  then have "cs \<noteq> []" by auto
  with r(1) tcp_chunks_in_order [OF small_tcp_init r(1)] show ?thesis by blast
qed

text \<open>C3: the emitted bytes are the bytes on the wire. For every run there is one sequence base per
  connection epoch and direction such that each emitted byte, at stream offset \<open>o\<close>, was carried by a
  processed packet of the same flow and direction at a sequence number congruent to base plus \<open>o\<close>
  modulo \<open>2 ^ 32\<close>; whatever the order, overlaps, retransmissions, gaps and evictions.\<close>

theorem tcp_chunks_sound:
  assumes "tcp_init idle max_flows max_ooo max_stream max_bytes max_segments history max_dir_segments ns = Inr t"
    and "tcp_exec t ops = Inr (Some (t', cs))"
  shows "\<exists>base. \<forall>c \<in> set cs. \<forall>k < length (sc_data c). \<exists>p \<in> set (tcp_packets ops).
    packet_flow p = (sc_flow c, sc_direction c) \<and> (\<exists>j < length (pp_transport_payload p).
      pp_transport_payload p ! j = sc_data c ! k
      \<and> (raw_payload_sequence p + int j) mod 2 ^ 32
          = (base (sc_connection_epoch c) (sc_direction c) + sc_stream_offset c + int k) mod 2 ^ 32)"
proof -
  obtain B where "tcp_inv ([] @ cs) ([] @ tcp_packets ops) B t'"
    using tcp_exec_inv [OF tcp_init_inv [OF assms(1)], of ops] assms(2) by auto
  then show ?thesis
    by (intro exI [of _ B])
      (auto simp: tcp_inv_def table_inv_def chunks_inv_def carried_def payload_at_def SEQ_MODULUS_def)
qed

theorem tcp_chunks_sound_witness:
  "\<exists>t' cs base. tcp_exec small_tcp sample_ops = Inr (Some (t', cs)) \<and> cs \<noteq> []
     \<and> (\<forall>c \<in> set cs. \<forall>k < length (sc_data c). \<exists>p \<in> set (tcp_packets sample_ops).
       packet_flow p = (sc_flow c, sc_direction c) \<and> (\<exists>j < length (pp_transport_payload p).
         pp_transport_payload p ! j = sc_data c ! k
         \<and> (raw_payload_sequence p + int j) mod 2 ^ 32
             = (base (sc_connection_epoch c) (sc_direction c) + sc_stream_offset c + int k) mod 2 ^ 32))"
proof -
  obtain t' cs where r: "tcp_exec small_tcp sample_ops = Inr (Some (t', cs))" "map sc_data cs = [[65, 66]]"
    using sample_ops_run by (auto split: sum.splits option.splits prod.splits)
  then have ne: "cs \<noteq> []" by auto
  obtain base where b: "\<forall>c \<in> set cs. \<forall>k < length (sc_data c). \<exists>p \<in> set (tcp_packets sample_ops).
       packet_flow p = (sc_flow c, sc_direction c) \<and> (\<exists>j < length (pp_transport_payload p).
         pp_transport_payload p ! j = sc_data c ! k
         \<and> (raw_payload_sequence p + int j) mod 2 ^ 32
             = (base (sc_connection_epoch c) (sc_direction c) + sc_stream_offset c + int k) mod 2 ^ 32)"
    using tcp_chunks_sound [OF small_tcp_init r(1)] ..
  show ?thesis by (rule exI [of _ t'], rule exI [of _ cs], rule exI [of _ base], intro conjI r(1) ne b)
qed

text \<open>A payload that starts exactly at the next expected position of a direction with nothing queued
  is delivered at once and whole: \<open>process\<close> emits one chunk with exactly these bytes at the stream
  offset, citing exactly the contributing packets, and the direction advances by its length.\<close>

theorem tcp_in_order_delivery:
  assumes "ds_next_seq d = Some n" "ds_pending d = []" "ds_pending_bytes d = 0"
    and "pp_transport_payload p \<noteq> []" "unwrap_sequence (raw_payload_sequence p) n = n"
    and "0 \<le> tr_max_pending_per_direction t" "0 \<le> tr_max_segments_per_direction t"
  shows "\<exists>t' d' c. accept_payload t d p flow i = Some (Queued t' d' [c]) \<and> sc_data c = pp_transport_payload p
    \<and> sc_flow c = flow \<and> sc_direction c = i \<and> sc_stream_offset c = ds_stream_offset d
    \<and> sc_packet_ids c = from_keys (contributing_ids p)
    \<and> ds_next_seq d' = Some (n + int (length (pp_transport_payload p)))
    \<and> ds_stream_offset d' = ds_stream_offset d + int (length (pp_transport_payload p))
    \<and> ds_pending d' = [] \<and> ds_pending_bytes d' = 0"
proof -
  let ?pl = "pp_transport_payload p"
  let ?seg = "\<lparr>sg_start = n, sg_data = ?pl, sg_packet_ids = contributing_ids p, sg_timestamp_ns = pp_timestamp_ns p\<rparr>"
  have keep: "\<not> is_keepalive p d n n" by (simp add: is_keepalive_def)
  have len: "\<not> n + int (length ?pl) \<le> n" using assms(4) by simp
  obtain t2 d2 where q: "queue_payload t d p n n ?pl = (t2, d2)" by fastforce
  have d2: "d2 = d\<lparr>ds_pending := [?seg], ds_pending_bytes := int (length ?pl)\<rparr>"
    and t2: "tcp_limits_of t2 = tcp_limits_of t"
    using q assms(2-4)
    by (auto simp: queue_payload_def Let_def tcp_uncovered_segments_def segments_bytes_def
        pending_conflicts_def count_retransmitted_def tcp_limits_of_def)
  obtain t3 d3 cs where dr: "tcp_drain t2 d2 flow i False = (t3, d3, cs)" by (metis prod_cases3)
  have e: "\<not> sg_end ?seg \<le> n" "\<not> sg_start ?seg > n" using assms(4) by (auto simp: sg_end_def)
  have r: "t3 = unqueue_self ?seg t2" "ds_pending d3 = []" "ds_pending_bytes d3 = 0"
    "ds_next_seq d3 = Some (n + int (length ?pl))" "ds_stream_offset d3 = ds_stream_offset d + int (length ?pl)"
    "\<exists>c. cs = [c] \<and> sc_data c = ?pl \<and> sc_flow c = flow \<and> sc_direction c = i \<and> sc_stream_offset c = ds_stream_offset d
       \<and> sc_packet_ids c = from_keys (contributing_ids p)"
    using dr assms(1,4) e
    by (auto simp: tcp_drain_def d2 Let_def unqueue_dir_def append_span_def from_keys_def)
  then have "\<not> direction_over t3 d3"
    using assms(6,7) t2 by (auto simp: direction_over_def unqueue_self_def tcp_limits_of_def)
  then have "force_skips t3 d3 flow i cs = Some (t3, d3, cs)" by (subst force_skips.simps) simp
  then have "accept_payload t d p flow i = Some (Queued t3 d3 cs)"
    using assms(1,4,5) keep len q dr by (simp add: accept_payload_def Let_def)
  with r show ?thesis by auto
qed

theorem tcp_in_order_delivery_witness:
  "\<exists>t' d' c. accept_payload small_tcp ((new_direction 1)\<lparr>ds_next_seq := Some 9\<rparr>) (sample_segment 1 9 16 [65, 66])
     \<lparr>fk_protocol = 6, fk_endpoint_a = \<lparr>ep_address = ''a'', ep_port = 1000\<rparr>,
      fk_endpoint_b = \<lparr>ep_address = ''b'', ep_port = 80\<rparr>, fk_interface = [], fk_vlan_ids = []\<rparr> 0
     = Some (Queued t' d' [c]) \<and> sc_data c = [65, 66] \<and> ds_next_seq d' = Some 11"
proof -
  have "raw_payload_sequence (sample_segment 1 9 16 [65, 66]) = 9"
    by (simp add: raw_payload_sequence_def flag_set_def sample_segment_def TCP_SYN_def)
  moreover have "unwrap_sequence 9 9 = 9" by (simp add: unwrap_sequence_def SEQ_HALF_def)
  ultimately show ?thesis
    using tcp_in_order_delivery [of "(new_direction 1)\<lparr>ds_next_seq := Some 9\<rparr>" 9 "sample_segment 1 9 16 [65, 66]" small_tcp
        "\<lparr>fk_protocol = 6, fk_endpoint_a = \<lparr>ep_address = ''a'', ep_port = 1000\<rparr>,
          fk_endpoint_b = \<lparr>ep_address = ''b'', ep_port = 80\<rparr>, fk_interface = [], fk_vlan_ids = []\<rparr>" 0]
    by (auto simp: new_direction_def sample_segment_def small_tcp_def)
qed

lemma fold_pop_subset: "set (fold od_pop keys d) \<subseteq> {e \<in> set d. fst e \<notin> set keys}"
proof (induction keys arbitrary: d)
  case (Cons k ks)
  from Cons.IH [of "od_pop k d"] show ?case by (auto simp: set_od_pop)
qed simp

lemma remove_all_inv:
  assumes "tcp_inv C H B t"
  shows "\<exists>t2 cs. remove_flows (map fst (tr_flows t)) t = Inr (Some (t2, cs)) \<and> tr_flows t2 = [] \<and> tcp_inv (C @ cs) H B t2
     \<and> tcp_limits_of t2 = tcp_limits_of t"
proof -
  have inv: "table_inv C H B t" using assms by (simp add: tcp_inv_def)
  have "distinct (map fst (tr_flows t))" using table_inv_ok [OF inv] by (simp add: od_ok_def)
  then obtain t2 cs where r: "remove_flows (map fst (tr_flows t)) t = Inr (Some (t2, cs))"
    "table_inv (C @ cs) H B t2" "tr_flows t2 = fold od_pop (map fst (tr_flows t)) (tr_flows t)"
    "tcp_limits_of t2 = tcp_limits_of t" "shrinks t t2"
    using remove_flows_inv [OF inv, of "map fst (tr_flows t)"] by auto
  have "set (tr_flows t2) \<subseteq> {e \<in> set (tr_flows t). fst e \<notin> set (map fst (tr_flows t))}"
    unfolding r(3) by (rule fold_pop_subset)
  then have none: "tr_flows t2 = []" by (cases "tr_flows t2") (auto simp: image_iff)
  then have "tcp_inv (C @ cs) H B t2" using tcp_inv_shrink [OF assms r(2,4,5)] by simp
  with r(1,4) none show ?thesis by blast
qed

lemma flush_all_inv:
  assumes "tcp_inv C H B t"
  shows "\<exists>t2 cs. tcp_flush_all t completeness = Inr (Some (t2, cs)) \<and> tr_flows t2 = [] \<and> (\<exists>C'. tcp_inv C' H B t2)
     \<and> tcp_limits_of t2 = tcp_limits_of t"
  using remove_all_inv [OF assms] by (auto simp: tcp_flush_all_def)

text \<open>C30: shutdown. After any run, \<open>flush_all\<close> returns, leaves no flow and nothing buffered, and what it
  emits continues the streams: the chunks of the run followed by those of the flush are still in order,
  each position at most once.\<close>

theorem tcp_flush_all_empties:
  assumes "tcp_init idle max_flows max_ooo max_stream max_bytes max_segments history max_dir_segments ns = Inr t"
    and "tcp_exec t ops = Inr (Some (t1, cs))"
  shows "\<exists>t2 cs2. tcp_flush_all t1 None = Inr (Some (t2, cs2)) \<and> tr_flows t2 = []
    \<and> tr_buffered_bytes t2 = 0 \<and> tr_buffered_segments t2 = 0
    \<and> sorted_wrt (\<lambda>c c'. sc_connection_epoch c = sc_connection_epoch c' \<and> sc_direction c = sc_direction c'
        \<longrightarrow> sc_end c \<le> sc_stream_offset c') (cs @ cs2)"
proof -
  obtain B where "tcp_inv ([] @ cs) ([] @ tcp_packets ops) B t1"
    using tcp_exec_inv [OF tcp_init_inv [OF assms(1)], of ops] assms(2) by auto
  then obtain t2 cs2 where r: "remove_flows (map fst (tr_flows t1)) t1 = Inr (Some (t2, cs2))" "tr_flows t2 = []"
    "tcp_inv (cs @ cs2) (tcp_packets ops) B t2" using remove_all_inv [of cs "tcp_packets ops" B t1] by auto
  then show ?thesis by (auto simp: tcp_flush_all_def tcp_inv_def table_inv_def tcp_exact_defs chunks_inv_def)
qed

theorem tcp_flush_all_empties_witness:
  "\<exists>t1 cs t2 cs2. tcp_exec small_tcp sample_ops = Inr (Some (t1, cs)) \<and> tcp_flush_all t1 None = Inr (Some (t2, cs2))
     \<and> tr_flows t2 = []"
proof -
  obtain t1 cs where r: "tcp_exec small_tcp sample_ops = Inr (Some (t1, cs))"
    using sample_ops_run by (auto split: sum.splits option.splits prod.splits)
  with tcp_flush_all_empties [OF small_tcp_init r] show ?thesis by blast
qed

end
