(* ===== verification/Forwarded_Duplicates.thy ===== *)
theory Forwarded_Duplicates
  imports Packets Ordered_Dict "HOL-Library.Multiset" "HOL-Library.Sublist"
begin

text \<open>
  The matcher of forwarded copies (\<open>packet_audit/forwarded_duplicates.py\<close>): which frames can take part
  (\<open>describe_forwarded_frame\<close>), the incremental checksum test, and \<open>ForwardedDuplicateSuppressor\<close> with
  its two-phase protocol: \<open>plan\<close> decides which packets of a batch to retain, \<open>commit\<close> (or
  \<open>commit_prior_skips_on_failure\<close>) updates the bounded table once the batch was admitted (or rejected).
  The age bound is given in whole nanoseconds. Reading the interface's address from \<open>/sys\<close> is not
  modelled: the local MAC is an argument.
\<close>

section \<open>Frames\<close>

datatype frame_role = Ingress | Egress

record ForwardedFrame =
  ff_role :: frame_role
  ff_key :: bytes
  ff_hop_limit :: nat
  ff_packet_id :: int
  ff_timestamp_ns :: int
  ff_ip_checksum :: "nat option"

text \<open>The VLAN loop: the EtherType and the position behind the tags, or \<open>None\<close>.\<close>

function skip_tags :: "bytes \<Rightarrow> nat \<Rightarrow> nat \<Rightarrow> nat \<Rightarrow> (nat \<times> nat) option" where
  "skip_tags raw ethertype offset tags =
     (if ethertype \<in> set VLAN_ETHERTYPES then
        (if tags \<ge> 8 \<or> length raw < offset + 4 then None
         else skip_tags raw (from_be (py_slice raw (offset + 2) (offset + 4))) (offset + 4) (tags + 1))
      else Some (ethertype, offset))"
  by pat_completeness auto
termination
  by (relation "measure (\<lambda>(raw, e, offset, tags). length raw - offset)") auto

declare skip_tags.simps [simp del]

text \<open>The datagram with hop count and checksum erased, the hop limit and the checksum.\<close>

definition describe_ipv4 :: "bytes \<Rightarrow> (bytes \<times> nat \<times> nat option) option" where
  "describe_ipv4 network =
     (if length network < 20 \<or> drop_bit 4 (unat (network ! 0)) \<noteq> 4 then None
      else
        let header_length = (unat (network ! 0) AND 15) * 4;
            total = from_be (py_slice network 2 4) in
        if header_length < 20 \<or> total < header_length \<or> total > length network then None
        else if unat (network ! 8) < 1 then None
        else Some ((take total network)[8 := 0, 10 := 0, 11 := 0], unat (network ! 8),
                   Some (from_be (py_slice network 10 12))))"

definition describe_ipv6 :: "bytes \<Rightarrow> (bytes \<times> nat \<times> nat option) option" where
  "describe_ipv6 network =
     (if length network < 40 \<or> drop_bit 4 (unat (network ! 0)) \<noteq> 6 then None
      else
        let payload_length = from_be (py_slice network 4 6) in
        if payload_length = 0 \<or> 40 + payload_length > length network then None
        else if unat (network ! 7) < 1 then None
        else Some ((take (40 + payload_length) network)[7 := 0], unat (network ! 7), None))"

definition frame_role_of :: "bytes \<Rightarrow> bytes \<Rightarrow> frame_role option" where
  "frame_role_of raw local_mac =
     (let dst_mac = take 6 raw; src_mac = py_slice raw 6 12 in
      if dst_mac = local_mac \<and> src_mac \<noteq> local_mac then Some Ingress
      else if src_mac = local_mac \<and> dst_mac \<noteq> local_mac \<and> \<not> odd (unat (dst_mac ! 0)) then Some Egress
      else None)"

definition describe_forwarded_frame ::
  "CapturedPacket \<Rightarrow> ParsedPacket \<Rightarrow> bytes \<Rightarrow> ForwardedFrame option" where
  "describe_forwarded_frame captured parsed local_mac =
     (if cp_datalink captured \<noteq> DLT_EN10MB \<or> cp_captured_length captured \<noteq> cp_wire_length captured
         \<or> pp_truncated parsed \<or> \<not> pp_transport_parsed parsed \<or> pp_fragment_id parsed \<noteq> None
         \<or> pp_protocol parsed \<notin> {6, 17} \<or> length local_mac \<noteq> 6
      then None
      else if length (cp_raw captured) < 14 then None
      else
        let raw = cp_raw captured in
        case frame_role_of raw local_mac of
          None \<Rightarrow> None
        | Some role \<Rightarrow>
            (case skip_tags raw (from_be (py_slice raw 12 14)) 14 0 of
               None \<Rightarrow> None
             | Some (ethertype, offset) \<Rightarrow>
                 (case (if ethertype = ETHERTYPE_IPV4 then describe_ipv4 (drop offset raw)
                        else if ethertype = ETHERTYPE_IPV6 then describe_ipv6 (drop offset raw)
                        else None) of
                    None \<Rightarrow> None
                  | Some (normalized, hop_limit, checksum) \<Rightarrow>
                      Some \<lparr>ff_role = role, ff_key = py_slice raw 12 offset @ normalized,
                            ff_hop_limit = hop_limit, ff_packet_id = cp_packet_id captured,
                            ff_timestamp_ns = cp_timestamp_ns captured, ff_ip_checksum = checksum\<rparr>)))"

definition checksum_matches :: "nat option \<Rightarrow> nat option \<Rightarrow> bool \<Rightarrow> bool" where
  "checksum_matches ingress egress decremented =
     (case (ingress, egress) of
        (Some i, Some e) \<Rightarrow>
          (if \<not> decremented then i = e
           else let total = i + 0x0100 in (total AND 0xFFFF) + drop_bit 16 total = e)
      | _ \<Rightarrow> ingress = None \<and> egress = None)"

section \<open>The suppressor\<close>

type_synonym match_key = "bytes \<times> nat"
type_synonym match_entry = "int \<times> int \<times> nat option"

record DuplicatePlan =
  dp_retained :: "ParsedPacket list"
  dp_pairs :: "(int \<times> int) list"
  dp_prior_pairs :: "(int \<times> int) list"
  dp_accepted_uses :: "(match_key, nat) odict"
  dp_ingress :: "(match_key, match_entry list) odict"
  dp_pressure :: bool

record Suppressor =
  su_max_bytes :: int
  su_max_entries :: int
  su_age_ns :: int
  su_accepted :: "(match_key, match_entry list) odict"
  su_key_bytes :: int
  su_next_expire_ns :: int
  su_expired :: int
  su_evicted :: int

definition MAX_INGRESS_COPIES_PER_KEY :: nat where "MAX_INGRESS_COPIES_PER_KEY = 8"

definition suppressor_init :: "bytes \<Rightarrow> int \<Rightarrow> int \<Rightarrow> int \<Rightarrow> Suppressor result" where
  "suppressor_init local_mac max_bytes max_entries max_age_ns =
     (if length local_mac \<noteq> 6 \<or> max_bytes \<le> 0 \<or> max_entries \<le> 0 \<or> max_age_ns \<le> 0
      then Inl (ValueError ''invalid forwarded duplicate suppression bounds'')
      else Inr \<lparr>su_max_bytes = max_bytes, su_max_entries = max_entries, su_age_ns = max_age_ns,
                su_accepted = [], su_key_bytes = 0, su_next_expire_ns = 0, su_expired = 0, su_evicted = 0\<rparr>)"

text \<open>\<open>_remove\<close>: \<open>pop\<close> without a default.\<close>

definition suppressor_remove :: "match_key \<Rightarrow> Suppressor \<Rightarrow> Suppressor result" where
  "suppressor_remove key s =
     (case od_get (su_accepted s) key of
        None \<Rightarrow> Inl KeyError
      | Some _ \<Rightarrow> Inr (s\<lparr>su_accepted := od_pop key (su_accepted s),
                         su_key_bytes := su_key_bytes s - int (length (fst key))\<rparr>))"

text \<open>The loop of \<open>_expire\<close> over a snapshot of the items.\<close>

fun expire_items :: "int \<Rightarrow> (match_key \<times> match_entry list) list \<Rightarrow> Suppressor \<Rightarrow> Suppressor result" where
  "expire_items now [] s = Inr s"
| "expire_items now ((key, ids) # items) s =
     (let kept = dropWhile (\<lambda>x. now - fst (snd x) > su_age_ns s) ids;
          s1 = s\<lparr>su_expired := su_expired s + int (length ids - length kept)\<rparr> in
      if kept = [] then bindE (suppressor_remove key s1) (expire_items now items)
      else expire_items now items (s1\<lparr>su_accepted := od_put key kept (su_accepted s1)\<rparr>))"

definition suppressor_expire :: "int \<Rightarrow> Suppressor \<Rightarrow> Suppressor result" where
  "suppressor_expire now s =
     (if now < su_next_expire_ns s then Inr s
      else expire_items now (su_accepted s)
             (s\<lparr>su_next_expire_ns := now + min 250000000 (su_age_ns s div 4)\<rparr>))"

text \<open>One candidate of an egress frame: an ingress of the same batch first, then one admitted before.\<close>

definition fresh_entry :: "Suppressor \<Rightarrow> ForwardedFrame \<Rightarrow> bool \<Rightarrow> match_entry \<Rightarrow> bool" where
  "fresh_entry s frame decremented e \<longleftrightarrow>
     0 \<le> ff_timestamp_ns frame - fst (snd e) \<and> ff_timestamp_ns frame - fst (snd e) \<le> su_age_ns s
     \<and> checksum_matches (snd (snd e)) (ff_ip_checksum frame) decremented"

definition try_candidate ::
  "Suppressor \<Rightarrow> ParsedPacket \<Rightarrow> ForwardedFrame \<Rightarrow> nat \<times> bool \<Rightarrow> DuplicatePlan \<Rightarrow> DuplicatePlan option" where
  "try_candidate s packet frame candidate plan =
     (let (ingress_hop, decremented) = candidate;
          key = (ff_key frame, ingress_hop);
          local_ids = (case od_get (dp_ingress plan) key of None \<Rightarrow> [] | Some l \<Rightarrow> l);
          admitted = (case od_get (su_accepted s) key of None \<Rightarrow> [] | Some l \<Rightarrow> l);
          used = (case od_get (dp_accepted_uses plan) key of None \<Rightarrow> 0 | Some n \<Rightarrow> n) in
      if local_ids \<noteq> [] \<and> fresh_entry s frame decremented (hd local_ids) then
        Some ((if dp_pressure plan
               then plan\<lparr>dp_pairs := dp_pairs plan @ [(pp_packet_id packet, fst (hd local_ids))]\<rparr>
               else plan\<lparr>dp_retained := dp_retained plan @ [packet]\<rparr>)
              \<lparr>dp_ingress := od_put key (tl local_ids) (dp_ingress plan)\<rparr>)
      else if admitted \<noteq> [] \<and> used < length admitted \<and> fresh_entry s frame decremented (admitted ! used) then
        Some ((if dp_pressure plan
               then plan\<lparr>dp_pairs := dp_pairs plan @ [(pp_packet_id packet, fst (admitted ! used))],
                         dp_prior_pairs := dp_prior_pairs plan @ [(pp_packet_id packet, fst (admitted ! used))]\<rparr>
               else plan\<lparr>dp_retained := dp_retained plan @ [packet]\<rparr>)
              \<lparr>dp_accepted_uses := od_put key (used + 1) (dp_accepted_uses plan)\<rparr>)
      else None)"

definition plan_packet ::
  "Suppressor \<Rightarrow> (int, ForwardedFrame) odict \<Rightarrow> ParsedPacket \<Rightarrow> DuplicatePlan \<Rightarrow> DuplicatePlan" where
  "plan_packet s frames packet plan =
     (case od_get frames (pp_packet_id packet) of
        None \<Rightarrow> plan\<lparr>dp_retained := dp_retained plan @ [packet]\<rparr>
      | Some frame \<Rightarrow>
          (case ff_role frame of
             Ingress \<Rightarrow>
               (let key = (ff_key frame, ff_hop_limit frame);
                    old = (case od_get (dp_ingress plan) key of None \<Rightarrow> [] | Some l \<Rightarrow> l) in
                plan\<lparr>dp_ingress := od_put key
                       (old @ [(pp_packet_id packet, ff_timestamp_ns frame, ff_ip_checksum frame)]) (dp_ingress plan),
                     dp_retained := dp_retained plan @ [packet]\<rparr>)
           | Egress \<Rightarrow>
               (case try_candidate s packet frame (ff_hop_limit frame + 1, True) plan of
                  Some plan' \<Rightarrow> plan'
                | None \<Rightarrow>
                    (case try_candidate s packet frame (ff_hop_limit frame, False) plan of
                       Some plan' \<Rightarrow> plan'
                     | None \<Rightarrow> plan\<lparr>dp_retained := dp_retained plan @ [packet]\<rparr>))))"

definition empty_plan :: "bool \<Rightarrow> DuplicatePlan" where
  "empty_plan pressure =
     \<lparr>dp_retained = [], dp_pairs = [], dp_prior_pairs = [], dp_accepted_uses = [], dp_ingress = [],
      dp_pressure = pressure\<rparr>"

definition latest_timestamp :: "ParsedPacket list \<Rightarrow> int" where
  "latest_timestamp packets = fold max (map pp_timestamp_ns (tl packets)) (pp_timestamp_ns (hd packets))"

definition suppressor_plan ::
  "Suppressor \<Rightarrow> ParsedPacket list \<Rightarrow> (int, ForwardedFrame) odict \<Rightarrow> bool \<Rightarrow> (Suppressor \<times> DuplicatePlan) result" where
  "suppressor_plan s packets frames pressure =
     bindE (if packets = [] then Inr s else suppressor_expire (latest_timestamp packets) s) (\<lambda>s1.
       Inr (s1, fold (plan_packet s1 frames) packets (empty_plan pressure)))"

text \<open>The use of entries admitted in earlier batches, shared by both commits.\<close>

fun consume_uses :: "string \<Rightarrow> (match_key \<times> nat) list \<Rightarrow> Suppressor \<Rightarrow> Suppressor result" where
  "consume_uses msg [] s = Inr s"
| "consume_uses msg ((key, n) # uses) s =
     (case od_get (su_accepted s) key of
        None \<Rightarrow> Inl (RuntimeError msg)
      | Some ids \<Rightarrow>
          (if length ids < n then Inl (RuntimeError msg)
           else
             let s1 = s\<lparr>su_accepted := od_put key (drop n ids) (su_accepted s)\<rparr> in
             if drop n ids \<noteq> []
             then consume_uses msg uses (s1\<lparr>su_accepted := od_move_to_end key (su_accepted s1)\<rparr>)
             else bindE (suppressor_remove key s1) (consume_uses msg uses)))"

definition commit_prior_skips_on_failure :: "DuplicatePlan \<Rightarrow> Suppressor \<Rightarrow> Suppressor result" where
  "commit_prior_skips_on_failure plan s =
     consume_uses ''forwarded duplicate cache changed before failure accounting'' (dp_accepted_uses plan) s"

definition remember_ingress :: "match_key \<times> match_entry list \<Rightarrow> Suppressor \<Rightarrow> Suppressor" where
  "remember_ingress item s =
     (let (key, packet_ids) = item in
      if packet_ids = [] \<or> int (length (fst key)) > su_max_bytes s then s
      else
        let (ids0, s1) = (case od_get (su_accepted s) key of
              None \<Rightarrow> ([], s\<lparr>su_accepted := od_put key [] (su_accepted s),
                             su_key_bytes := su_key_bytes s + int (length (fst key))\<rparr>)
            | Some ids \<Rightarrow> (ids, s\<lparr>su_accepted := od_move_to_end key (su_accepted s)\<rparr>));
            ids1 = ids0 @ packet_ids;
            surplus = length ids1 - MAX_INGRESS_COPIES_PER_KEY in
        s1\<lparr>su_accepted := od_put key (drop surplus ids1) (su_accepted s1),
           su_evicted := su_evicted s1 + int surplus\<rparr>)"

definition suppressor_over :: "Suppressor \<Rightarrow> bool" where
  "suppressor_over s \<longleftrightarrow> int (length (su_accepted s)) > su_max_entries s \<or> su_key_bytes s > su_max_bytes s"

text \<open>One round of the final eviction loop; the key is the oldest one, so \<open>_remove\<close> finds it.\<close>

definition suppressor_evict_one :: "match_key \<Rightarrow> Suppressor \<Rightarrow> Suppressor" where
  "suppressor_evict_one key s =
     (case od_get (su_accepted s) key of
        None \<Rightarrow> s
      | Some ids \<Rightarrow>
          s\<lparr>su_evicted := su_evicted s + int (length ids), su_accepted := od_pop key (su_accepted s),
            su_key_bytes := su_key_bytes s - int (length (fst key))\<rparr>)"

lemma suppressor_evict_states [simp]: "su_accepted (suppressor_evict_one key s) = od_pop key (su_accepted s)"
  by (auto simp: suppressor_evict_one_def od_pop_absent split: option.splits)

function suppressor_evict :: "Suppressor \<Rightarrow> Suppressor result" where
  "suppressor_evict s =
     (if suppressor_over s then
        (case su_accepted s of [] \<Rightarrow> Inl StopIteration | e # _ \<Rightarrow> suppressor_evict (suppressor_evict_one (fst e) s))
      else Inr s)"
  by pat_completeness auto
termination
  by (relation "measure (\<lambda>s. length (su_accepted s))") (auto simp: od_pop_def le_imp_less_Suc)

declare suppressor_evict.simps [simp del]

definition suppressor_commit :: "DuplicatePlan \<Rightarrow> Suppressor \<Rightarrow> Suppressor result" where
  "suppressor_commit plan s =
     bindE (consume_uses ''forwarded duplicate cache changed before commit'' (dp_accepted_uses plan) s) (\<lambda>s1.
       suppressor_evict (fold remember_ingress (dp_ingress plan) s1))"

section \<open>The checksum test against the Internet checksum\<close>

text \<open>
  The reference: the one's complement sum of the header words folds the carries back in, and the
  checksum is its complement. \<open>words\<close> is the sum of all header words but the checksum; decrementing
  the TTL takes \<open>0x0100\<close> from it.
\<close>

function ones_fold :: "nat \<Rightarrow> nat" where
  "ones_fold n = (if n < 65536 then n else ones_fold (n mod 65536 + n div 65536))"
  by pat_completeness auto
termination
proof (relation "measure id")
  fix n :: nat
  assume "\<not> n < 65536"
  then have "0 < n div 65536" by (simp add: div_greater_zero_iff)
  then have "n mod 65536 + n div 65536 < n" using mod_mult_div_eq [of n 65536] by linarith
  then show "(n mod 65536 + n div 65536, n) \<in> measure id" by simp
qed simp

declare ones_fold.simps [simp del]

definition header_checksum :: "nat \<Rightarrow> nat" where
  "header_checksum words = 65535 - ones_fold words"

lemma ones_fold_mod: "ones_fold n mod 65535 = n mod 65535"
proof (induction n rule: ones_fold.induct)
  case (1 n)
  define f where "f = n mod 65536 + n div 65536"
  have "n = f + n div 65536 * 65535" unfolding f_def using mod_mult_div_eq [of n 65536] by linarith
  then have f: "n mod 65535 = f mod 65535" using mod_mult_self1 [of f "n div 65536" 65535] by simp
  show ?case
  proof (cases "n < 65536")
    case True
    then show ?thesis by (subst ones_fold.simps) simp
  next
    case False
    then have "ones_fold n = ones_fold f" by (subst ones_fold.simps) (simp add: f_def)
    with 1 [OF False] f show ?thesis by (simp add: f_def)
  qed
qed

lemma ones_fold_range: "0 < n \<Longrightarrow> 0 < ones_fold n \<and> ones_fold n < 65536"
proof (induction n rule: ones_fold.induct)
  case (1 n)
  show ?case
  proof (cases "n < 65536")
    case True
    then show ?thesis using 1 by (subst (1 2) ones_fold.simps) auto
  next
    case False
    then have "0 < n mod 65536 + n div 65536" by (simp add: div_greater_zero_iff)
    with 1 False show ?thesis by (subst (1 2) ones_fold.simps) simp
  qed
qed

lemma ones_fold_closed:
  assumes "0 < n" shows "ones_fold n = (n - 1) mod 65535 + 1"
proof -
  obtain m where m: "ones_fold n = Suc m" "m < 65535"
    using ones_fold_range [OF assms] by (cases "ones_fold n") auto
  obtain k where k: "n = Suc k" using assms by (cases n) auto
  have "Suc m mod 65535 = Suc k mod 65535" using ones_fold_mod [of n] m k by simp
  then have "m mod 65535 = k mod 65535" by (auto simp: mod_Suc split: if_splits)
  with m k show ?thesis by simp
qed

lemma checksum_matches_decremented:
  "checksum_matches (Some i) (Some e) True \<longleftrightarrow> (i + 256) mod 65536 + (i + 256) div 65536 = e"
proof -
  have "(i + 256) AND 0xFFFF = (i + 256) mod 65536"
    using take_bit_eq_mask [of 16 "i + 256"] by (simp add: mask_eq_exp_minus_1 take_bit_eq_mod)
  then show ?thesis by (simp add: checksum_matches_def Let_def drop_bit_eq_div)
qed

lemma fold_carry:
  fixes c :: nat
  assumes "c < 65535"
  shows "(c + 256) mod 65536 + (c + 256) div 65536 = (if c < 65279 then c + 256 else c - 65279) \<longleftrightarrow> c \<noteq> 65279"
proof (cases "c + 256 < 65536")
  case True
  then have "(c + 256) mod 65536 = c + 256" "(c + 256) div 65536 = 0" by simp_all
  then show ?thesis using True by auto
next
  case False
  then obtain d where d: "c + 256 = 65536 + d" by (metis le_Suc_ex not_less)
  with assms have "(c + 256) mod 65536 = d" "(c + 256) div 65536 = 1" by simp_all
  then show ?thesis using d by auto
qed

lemma unwrap_carry:
  fixes p :: nat
  assumes "p < 65535"
  shows "p = (if 256 \<le> (p + 256) mod 65535 then (p + 256) mod 65535 - 256 else (p + 256) mod 65535 + 65279)"
proof (cases "p + 256 < 65535")
  case True
  then have "(p + 256) mod 65535 = p + 256" by simp
  then show ?thesis by simp
next
  case False
  then obtain d where d: "p + 256 = 65535 + d" by (metis le_Suc_ex not_less)
  with assms have "(p + 256) mod 65535 = d" "d < 256" by simp_all
  then show ?thesis using d by simp
qed



section \<open>What a plan does with a batch\<close>

text \<open>
  One packet has exactly four outcomes; every property of a plan is proved over them. \<open>Keep\<close>: no
  described frame, or an egress frame with no partner. \<open>Learn\<close>: an ingress frame. \<open>Same\<close>: an egress
  frame paired with an ingress of this batch. \<open>Prior\<close>: one paired with an entry of an earlier batch.
\<close>

definition take_partner :: "ParsedPacket \<Rightarrow> int \<Rightarrow> bool \<Rightarrow> DuplicatePlan \<Rightarrow> DuplicatePlan" where
  "take_partner packet i prior plan =
     (if dp_pressure plan
      then plan\<lparr>dp_pairs := dp_pairs plan @ [(pp_packet_id packet, i)],
                dp_prior_pairs := dp_prior_pairs plan @ (if prior then [(pp_packet_id packet, i)] else [])\<rparr>
      else plan\<lparr>dp_retained := dp_retained plan @ [packet]\<rparr>)"

definition entries_at :: "('k, 'v list) odict \<Rightarrow> 'k \<Rightarrow> 'v list" where
  "entries_at d k = (case od_get d k of None \<Rightarrow> [] | Some l \<Rightarrow> l)"

definition uses_at :: "('k, nat) odict \<Rightarrow> 'k \<Rightarrow> nat" where
  "uses_at d k = (case od_get d k of None \<Rightarrow> 0 | Some n \<Rightarrow> n)"

definition candidate_of :: "ForwardedFrame \<Rightarrow> nat \<Rightarrow> bool \<Rightarrow> bool" where
  "candidate_of frame hop decremented \<longleftrightarrow> hop = ff_hop_limit frame + (if decremented then 1 else 0)"

inductive plan_step ::
  "Suppressor \<Rightarrow> (int, ForwardedFrame) odict \<Rightarrow> ParsedPacket \<Rightarrow> DuplicatePlan \<Rightarrow> DuplicatePlan \<Rightarrow> bool"
  for s frames packet plan where
  Keep: "plan_step s frames packet plan (plan\<lparr>dp_retained := dp_retained plan @ [packet]\<rparr>)"
| Learn: "od_get frames (pp_packet_id packet) = Some frame \<Longrightarrow> ff_role frame = Ingress \<Longrightarrow>
    key = (ff_key frame, ff_hop_limit frame) \<Longrightarrow>
    plan_step s frames packet plan
      (plan\<lparr>dp_ingress := od_put key (entries_at (dp_ingress plan) key
               @ [(pp_packet_id packet, ff_timestamp_ns frame, ff_ip_checksum frame)]) (dp_ingress plan),
            dp_retained := dp_retained plan @ [packet]\<rparr>)"
| Same: "od_get frames (pp_packet_id packet) = Some frame \<Longrightarrow> ff_role frame = Egress \<Longrightarrow>
    candidate_of frame hop decremented \<Longrightarrow> key = (ff_key frame, hop) \<Longrightarrow>
    entries_at (dp_ingress plan) key = e # rest \<Longrightarrow> fresh_entry s frame decremented e \<Longrightarrow>
    plan_step s frames packet plan
      ((take_partner packet (fst e) False plan)\<lparr>dp_ingress := od_put key rest (dp_ingress plan)\<rparr>)"
| Prior: "od_get frames (pp_packet_id packet) = Some frame \<Longrightarrow> ff_role frame = Egress \<Longrightarrow>
    candidate_of frame hop decremented \<Longrightarrow> key = (ff_key frame, hop) \<Longrightarrow>
    n = uses_at (dp_accepted_uses plan) key \<Longrightarrow> n < length (entries_at (su_accepted s) key) \<Longrightarrow>
    e = entries_at (su_accepted s) key ! n \<Longrightarrow> fresh_entry s frame decremented e \<Longrightarrow>
    plan_step s frames packet plan
      ((take_partner packet (fst e) True plan)\<lparr>dp_accepted_uses := od_put key (n + 1) (dp_accepted_uses plan)\<rparr>)"

lemma try_candidate_step:
  assumes "try_candidate s packet frame (hop, decremented) plan = Some plan'"
    and f: "od_get frames (pp_packet_id packet) = Some frame" "ff_role frame = Egress"
    and c: "candidate_of frame hop decremented"
  shows "plan_step s frames packet plan plan'"
proof -
  let ?key = "(ff_key frame, hop)"
  let ?l = "entries_at (dp_ingress plan) ?key" and ?a = "entries_at (su_accepted s) ?key"
  let ?n = "uses_at (dp_accepted_uses plan) ?key"
  have tc: "try_candidate s packet frame (hop, decremented) plan =
     (if ?l \<noteq> [] \<and> fresh_entry s frame decremented (hd ?l)
      then Some ((take_partner packet (fst (hd ?l)) False plan)\<lparr>dp_ingress := od_put ?key (tl ?l) (dp_ingress plan)\<rparr>)
      else if ?a \<noteq> [] \<and> ?n < length ?a \<and> fresh_entry s frame decremented (?a ! ?n)
      then Some ((take_partner packet (fst (?a ! ?n)) True plan)\<lparr>dp_accepted_uses := od_put ?key (?n + 1) (dp_accepted_uses plan)\<rparr>)
      else None)"
    by (simp add: try_candidate_def entries_at_def uses_at_def take_partner_def Let_def)
  show ?thesis
  proof (cases "?l \<noteq> [] \<and> fresh_entry s frame decremented (hd ?l)")
    case True
    then have p: "plan' = (take_partner packet (fst (hd ?l)) False plan)\<lparr>dp_ingress := od_put ?key (tl ?l) (dp_ingress plan)\<rparr>"
      using assms(1) by (simp add: tc)
    show ?thesis unfolding p by (rule Same [OF f c refl]) (use True in simp_all)
  next
    case False
    then have p: "plan' = (take_partner packet (fst (?a ! ?n)) True plan)\<lparr>dp_accepted_uses := od_put ?key (?n + 1) (dp_accepted_uses plan)\<rparr>"
      and h: "?n < length ?a" "fresh_entry s frame decremented (?a ! ?n)"
      using assms(1) unfolding tc if_not_P [OF False] by (auto split: if_splits)
    show ?thesis unfolding p by (rule Prior [OF f c refl refl h(1) refl h(2)])
  qed
qed

lemma plan_packet_step: "plan_step s frames packet plan (plan_packet s frames packet plan)"
proof (cases "od_get frames (pp_packet_id packet)")
  case None
  then show ?thesis using Keep [of s frames packet plan] by (simp add: plan_packet_def)
next
  case (Some frame)
  show ?thesis
  proof (cases "ff_role frame")
    case Ingress
    from Learn [OF Some this refl, of s plan] Some Ingress show ?thesis
      by (simp add: plan_packet_def entries_at_def Let_def)
  next
    case Egress
    have c: "candidate_of frame (ff_hop_limit frame + 1) True" "candidate_of frame (ff_hop_limit frame) False"
      by (simp_all add: candidate_of_def)
    show ?thesis
      using try_candidate_step [OF _ Some Egress c(1)] try_candidate_step [OF _ Some Egress c(2)]
        Keep [of s frames packet plan] Some Egress
      by (auto simp: plan_packet_def split: option.splits)
  qed
qed

text \<open>The invariant rule for plans.\<close>

lemma plan_invariant:
  assumes "P [] (empty_plan pressure)"
    and step: "\<And>seen packet plan plan'. P seen plan \<Longrightarrow> packet \<in> set packets \<Longrightarrow>
      plan_step s frames packet plan plan' \<Longrightarrow> P (seen @ [packet]) plan'"
  shows "P packets (fold (plan_packet s frames) packets (empty_plan pressure))"
proof -
  have "set rest \<subseteq> set packets \<Longrightarrow> P seen plan \<Longrightarrow> P (seen @ rest) (fold (plan_packet s frames) rest plan)"
    for seen rest plan
  proof (induction rest arbitrary: seen plan)
    case (Cons packet rest)
    from step [OF Cons.prems(2) _ plan_packet_step] Cons.prems(1) Cons.IH [of "seen @ [packet]"]
    show ?case by simp
  qed simp
  from this [of packets "[]"] assms(1) show ?thesis by simp
qed

text \<open>The ids a table holds, the ids that uses consume, the ids of the ingress frames of a batch.\<close>

definition held_ids :: "(match_key, match_entry list) odict \<Rightarrow> int multiset" where
  "held_ids d = mset (map fst (concat (map snd d)))"

definition used_ids :: "(match_key, match_entry list) odict \<Rightarrow> (match_key, nat) odict \<Rightarrow> int multiset" where
  "used_ids acc uses = mset (concat (map (\<lambda>u. map fst (take (snd u) (entries_at acc (fst u)))) uses))"

definition ingress_frame :: "(int, ForwardedFrame) odict \<Rightarrow> ParsedPacket \<Rightarrow> bool" where
  "ingress_frame frames packet = (case od_get frames (pp_packet_id packet) of None \<Rightarrow> False | Some f \<Rightarrow> ff_role f = Ingress)"

definition batch_ids :: "(int, ForwardedFrame) odict \<Rightarrow> ParsedPacket list \<Rightarrow> int multiset" where
  "batch_ids frames packets = mset (map pp_packet_id (filter (ingress_frame frames) packets))"

lemma entries_at_put [simp]: "entries_at (od_put k v d) k' = (if k' = k then v else entries_at d k')"
  by (simp add: entries_at_def)

lemma entries_at_pop [simp]: "entries_at (od_pop k d) k' = (if k' = k then [] else entries_at d k')"
  by (simp add: entries_at_def)

lemma entries_at_move [simp]: "entries_at (od_move_to_end k d) k' = entries_at d k'"
  by (simp add: entries_at_def)

lemma entries_at_Cons: "entries_at (e # d) k = (if fst e = k then snd e else entries_at d k)"
  by (cases e) (simp add: entries_at_def od_get_def)

lemma uses_at_Cons: "uses_at (e # d) k = (if fst e = k then snd e else uses_at d k)"
  by (cases e) (simp add: uses_at_def od_get_def)

lemma held_ids_simps [simp]:
  "held_ids [] = {#}" "held_ids (e # d) = mset (map fst (snd e)) + held_ids d" "held_ids (d @ d') = held_ids d + held_ids d'"
  by (simp_all add: held_ids_def)

lemma held_ids_put: "held_ids (od_put k v d) + mset (map fst (entries_at d k)) = held_ids d + mset (map fst v)"
  by (induction d) (auto simp: entries_at_def od_get_def)

lemma held_ids_pop: "od_ok d \<Longrightarrow> held_ids (od_pop k d) + mset (map fst (entries_at d k)) = held_ids d"
proof (induction d)
  case (Cons e d)
  then have "fst e = k \<Longrightarrow> od_pop k (e # d) = d" using od_pop_head [of e d] by simp
  with Cons show ?case by (auto simp: entries_at_Cons od_ok_def od_pop_def)
qed (simp add: entries_at_def od_pop_def)

lemma held_ids_move: "od_ok d \<Longrightarrow> held_ids (od_move_to_end k d) = held_ids d"
  using held_ids_pop [of d k] by (auto simp: od_move_to_end_def entries_at_def split: option.splits)

lemma used_ids_simps [simp]:
  "used_ids acc [] = {#}"
  "used_ids acc (u # uses) = mset (map fst (take (snd u) (entries_at acc (fst u)))) + used_ids acc uses"
  by (simp_all add: used_ids_def)

lemma used_ids_put:
  "n = uses_at uses k \<Longrightarrow> n < length (entries_at acc k) \<Longrightarrow>
     used_ids acc (od_put k (n + 1) uses) = add_mset (fst (entries_at acc k ! n)) (used_ids acc uses)"
  by (induction uses) (auto simp: uses_at_Cons take_Suc_conv_app_nth split: if_splits, simp add: uses_at_def)

lemma used_ids_cong: "(\<And>k. k \<in> fst ` set uses \<Longrightarrow> entries_at acc k = entries_at acc' k) \<Longrightarrow> used_ids acc uses = used_ids acc' uses"
  by (induction uses) auto

lemma take_partner_fields [simp]:
  "dp_ingress (take_partner packet i prior plan) = dp_ingress plan"
  "dp_accepted_uses (take_partner packet i prior plan) = dp_accepted_uses plan"
  "dp_pressure (take_partner packet i prior plan) = dp_pressure plan"
  by (simp_all add: take_partner_def)

lemma empty_plan_fields [simp]:
  "dp_retained (empty_plan b) = []" "dp_pairs (empty_plan b) = []" "dp_prior_pairs (empty_plan b) = []"
  "dp_accepted_uses (empty_plan b) = []" "dp_ingress (empty_plan b) = []" "dp_pressure (empty_plan b) = b"
  by (simp_all add: empty_plan_def)

definition partitions :: "ParsedPacket list \<Rightarrow> DuplicatePlan \<Rightarrow> bool" where
  "partitions seen plan \<longleftrightarrow> subseq (dp_retained plan) seen \<and> subseq (dp_prior_pairs plan) (dp_pairs plan)
     \<and> mset (map pp_packet_id seen) = mset (map pp_packet_id (dp_retained plan)) + mset (map fst (dp_pairs plan))"

lemma partitions_step:
  assumes "partitions seen plan" "plan_step s frames packet plan plan'"
  shows "partitions (seen @ [packet]) plan'"
  using assms(2,1)
  by cases (auto simp: partitions_def take_partner_def intro: list_emb_append_mono subseq_rev_drop_many)

lemma fold_plan_fields:
  "dp_pressure (fold (plan_packet s frames) packets (empty_plan pressure)) = pressure"
  by (rule plan_invariant [where P = "\<lambda>_ plan. dp_pressure plan = pressure"])
    (auto elim!: plan_step.cases)

lemma fold_plan_partitions: "partitions packets (fold (plan_packet s frames) packets (empty_plan pressure))"
  by (rule plan_invariant [where P = partitions]) (auto intro: partitions_step, simp add: partitions_def)

definition relaxed :: "ParsedPacket list \<Rightarrow> DuplicatePlan \<Rightarrow> bool" where
  "relaxed seen plan \<longleftrightarrow> \<not> dp_pressure plan \<and> dp_retained plan = seen \<and> dp_pairs plan = []"

lemma relaxed_step: "relaxed seen plan \<Longrightarrow> plan_step s frames packet plan plan' \<Longrightarrow> relaxed (seen @ [packet]) plan'"
  by (erule plan_step.cases) (simp_all add: relaxed_def take_partner_def)

lemma fold_plan_relaxed: "relaxed packets (fold (plan_packet s frames) packets (empty_plan False))"
  by (rule plan_invariant [where P = relaxed]) (simp add: relaxed_def, rule relaxed_step)

text \<open>Each id of a pair is taken from the pool once.\<close>

definition pool_ok :: "Suppressor \<Rightarrow> (int, ForwardedFrame) odict \<Rightarrow> ParsedPacket list \<Rightarrow> DuplicatePlan \<Rightarrow> bool" where
  "pool_ok s frames seen plan \<longleftrightarrow> od_ok (dp_ingress plan) \<and> od_ok (dp_accepted_uses plan)
     \<and> (\<forall>(k, n) \<in> set (dp_accepted_uses plan). 0 < n \<and> n \<le> length (entries_at (su_accepted s) k))
     \<and> mset (map snd (dp_pairs plan)) + held_ids (dp_ingress plan)
         \<subseteq># used_ids (su_accepted s) (dp_accepted_uses plan) + batch_ids frames seen"

lemma batch_ids_snoc: "batch_ids frames (seen @ [p]) = batch_ids frames seen + (if ingress_frame frames p then {#pp_packet_id p#} else {#})"
  by (simp add: batch_ids_def)

lemma subset_drop_one: "add_mset x A = B \<Longrightarrow> P + B \<subseteq># C \<Longrightarrow> P + A \<subseteq># C"
  by (metis add_mset_add_single mset_subset_eq_add_left subset_mset.order_trans union_assoc)

lemma pool_ok_step:
  assumes "pool_ok s frames seen plan" "plan_step s frames packet plan plan'"
  shows "pool_ok s frames (seen @ [packet]) plan'"
  using assms(2)
proof cases
  case Keep
  with assms(1) show ?thesis
    by (auto simp: pool_ok_def batch_ids_snoc intro: subset_mset.order_trans)
next
  case (Learn frame key)
  with held_ids_put [of key "entries_at (dp_ingress plan) key @ [(pp_packet_id packet, ff_timestamp_ns frame, ff_ip_checksum frame)]" "dp_ingress plan"]
    assms(1) show ?thesis
    by (auto simp: pool_ok_def batch_ids_snoc ingress_frame_def)
next
  case (Same frame hop decremented key e rest)
  have h: "add_mset (fst e) (held_ids (od_put key rest (dp_ingress plan))) = held_ids (dp_ingress plan)"
    using held_ids_put [of key rest "dp_ingress plan"] Same by simp
  show ?thesis
  proof (cases "dp_pressure plan")
    case True
    with assms(1) Same h [symmetric] show ?thesis
      by (simp add: pool_ok_def batch_ids_snoc take_partner_def ingress_frame_def)
  next
    case False
    with assms(1) Same subset_drop_one [OF h] show ?thesis
      by (simp add: pool_ok_def batch_ids_snoc take_partner_def ingress_frame_def)
  qed
next
  case (Prior frame hop decremented key n e)
  then have u: "used_ids (su_accepted s) (od_put key (n + 1) (dp_accepted_uses plan))
      = add_mset (fst e) (used_ids (su_accepted s) (dp_accepted_uses plan))"
    using used_ids_put by blast
  let ?uses = "od_put key (n + 1) (dp_accepted_uses plan)"
  have B: "\<forall>(k, m) \<in> set ?uses. 0 < m \<and> m \<le> length (entries_at (su_accepted s) k)"
  proof (clarify, goal_cases)
    case (1 k1 k2 m)
    then have "((k1, k2), m) = (key, n + 1) \<or> ((k1, k2), m) \<in> set (dp_accepted_uses plan)"
      using set_od_put_subset by fastforce
    with assms(1) Prior(7) show ?case by (auto simp: pool_ok_def)
  qed
  have S: "mset (map snd (dp_pairs plan)) + held_ids (dp_ingress plan)
      \<subseteq># used_ids (su_accepted s) (dp_accepted_uses plan) + batch_ids frames seen"
    using assms(1) by (simp add: pool_ok_def)
  then have "mset (map snd (dp_pairs plan)) + held_ids (dp_ingress plan) \<subseteq># used_ids (su_accepted s) ?uses + batch_ids frames seen"
    unfolding u by (metis subset_mset.order_trans mset_subset_eq_add_right add_mset_add_single union_commute union_mset_add_mset_left)
  moreover from S have "add_mset (fst e) (mset (map snd (dp_pairs plan)) + held_ids (dp_ingress plan))
      \<subseteq># used_ids (su_accepted s) ?uses + batch_ids frames seen" unfolding u by simp
  ultimately show ?thesis using B assms(1) unfolding pool_ok_def Prior(1)
    by (simp add: batch_ids_snoc take_partner_def ingress_frame_def Prior(2,3))
qed

lemma fold_plan_pool: "pool_ok s frames packets (fold (plan_packet s frames) packets (empty_plan pressure))"
  by (rule plan_invariant [where P = "pool_ok s frames"])
    (auto intro: pool_ok_step, simp add: pool_ok_def batch_ids_def)

section \<open>The bounded table\<close>

interpretation sk: nonneg_store su_accepted su_key_bytes "\<lambda>k _. int (length (fst k))" suppressor_evict_one
  by unfold_locales (auto simp: suppressor_evict_one_def od_pop_absent split: option.splits)

definition suppressor_limits :: "Suppressor \<Rightarrow> int \<times> int \<times> int" where
  "suppressor_limits s = (su_max_bytes s, su_max_entries s, su_age_ns s)"

definition copies_ok :: "match_entry list \<Rightarrow> bool" where
  "copies_ok l \<longleftrightarrow> l \<noteq> [] \<and> length l \<le> MAX_INGRESS_COPIES_PER_KEY"

definition suppressor_core :: "Suppressor \<Rightarrow> bool" where
  "suppressor_core s \<longleftrightarrow> 0 < su_max_bytes s \<and> 0 < su_max_entries s \<and> sk.exact s
     \<and> (\<forall>v \<in> snd ` set (su_accepted s). copies_ok v)"

definition suppressor_ok :: "Suppressor \<Rightarrow> bool" where
  "suppressor_ok s \<longleftrightarrow> suppressor_core s \<and> \<not> suppressor_over s"

text \<open>Replacing the copies of a key by a suffix of them, the key going with the last one.\<close>

definition trim_entries :: "match_key \<Rightarrow> match_entry list \<Rightarrow> Suppressor \<Rightarrow> Suppressor" where
  "trim_entries key l s =
     (if l = [] then s\<lparr>su_accepted := od_pop key (su_accepted s), su_key_bytes := su_key_bytes s - int (length (fst key))\<rparr>
      else s\<lparr>su_accepted := od_put key l (su_accepted s)\<rparr>)"

definition table_shrinks :: "Suppressor \<Rightarrow> Suppressor \<Rightarrow> bool" where
  "table_shrinks s t \<longleftrightarrow> suppressor_limits t = suppressor_limits s \<and> held_ids (su_accepted t) \<subseteq># held_ids (su_accepted s)
     \<and> length (su_accepted t) \<le> length (su_accepted s) \<and> su_key_bytes t \<le> su_key_bytes s"

lemma table_shrinks_refl [simp]: "table_shrinks s s"
  by (simp add: table_shrinks_def)

lemma table_shrinks_trans: "table_shrinks s t \<Longrightarrow> table_shrinks t u \<Longrightarrow> table_shrinks s u"
  unfolding table_shrinks_def by (meson order_trans subset_mset.order_trans) auto

lemma core_ok: "suppressor_core s \<Longrightarrow> od_ok (su_accepted s)"
  by (simp add: suppressor_core_def sk.exact_def)

lemma core_copies: "suppressor_core s \<Longrightarrow> od_get (su_accepted s) key = Some ids \<Longrightarrow> copies_ok ids"
  by (force simp: suppressor_core_def dest: od_get_in_set)

lemma core_frame:
  "suppressor_core s \<Longrightarrow> su_accepted t = su_accepted s \<Longrightarrow> su_key_bytes t = su_key_bytes s \<Longrightarrow>
     suppressor_limits t = suppressor_limits s \<Longrightarrow> suppressor_core t"
  by (auto simp: suppressor_core_def sk.exact_def suppressor_limits_def)

lemma trim_entries_accepted:
  "su_accepted (trim_entries key l s) = (if l = [] then od_pop key (su_accepted s) else od_put key l (su_accepted s))"
  by (simp add: trim_entries_def)

lemma core_put:
  assumes "suppressor_core s" "od_get (su_accepted s) key = Some ids" "copies_ok l"
  shows "suppressor_core (s\<lparr>su_accepted := od_put key l (su_accepted s)\<rparr>)"
proof -
  have "sk.exact (s\<lparr>su_accepted := od_put key l (su_accepted s)\<rparr>)"
    by (rule sk.exact_put [of s _ key l]) (use assms in \<open>auto simp: suppressor_core_def\<close>)
  moreover have "\<forall>v \<in> snd ` set (od_put key l (su_accepted s)). copies_ok v"
    using set_od_put_subset [of key l "su_accepted s"] assms by (fastforce simp: suppressor_core_def)
  ultimately show ?thesis using assms(1) by (simp add: suppressor_core_def)
qed

lemma core_evict_one: "suppressor_core s \<Longrightarrow> suppressor_core (suppressor_evict_one key s)"
proof -
  assume c: "suppressor_core s"
  then have "sk.exact (suppressor_evict_one key s)" by (auto simp: suppressor_core_def intro: sk.exact_discard)
  moreover have "suppressor_limits (suppressor_evict_one key s) = suppressor_limits s"
    by (auto simp: suppressor_evict_one_def suppressor_limits_def split: option.splits)
  ultimately show ?thesis using c set_od_pop_subset [of key "su_accepted s"]
    by (fastforce simp: suppressor_core_def suppressor_limits_def)
qed

lemma core_trim:
  assumes "suppressor_core s" "od_get (su_accepted s) key = Some ids" "l = drop n ids"
  shows "suppressor_core (trim_entries key l s)"
proof (cases "l = []")
  case True
  with assms core_evict_one [OF assms(1), of key] show ?thesis
    by (auto simp: trim_entries_def suppressor_evict_one_def suppressor_limits_def intro: core_frame)
next
  case False
  have "copies_ok l" using core_copies [OF assms(1,2)] assms(3) False by (auto simp: copies_ok_def)
  with core_put [OF assms(1,2)] False show ?thesis by (simp add: trim_entries_def)
qed

lemma held_ids_trim:
  assumes "od_ok (su_accepted s)" "od_get (su_accepted s) key = Some ids" "l = drop n ids"
  shows "held_ids (su_accepted (trim_entries key l s)) + mset (map fst (take n ids)) = held_ids (su_accepted s)"
proof -
  have e: "entries_at (su_accepted s) key = ids" by (simp add: entries_at_def assms(2))
  have split: "mset (map fst ids) = mset (map fst (take n ids)) + mset (map fst l)"
    by (metis append_take_drop_id assms(3) map_append mset_append)
  show ?thesis
  proof (cases "l = []")
    case True
    with held_ids_pop [OF assms(1), of key] e split show ?thesis by (simp add: trim_entries_accepted)
  next
    case False
    with held_ids_put [of key l "su_accepted s"] e split show ?thesis by (auto simp: trim_entries_accepted)
  qed
qed

lemma table_shrinks_trim:
  assumes "od_ok (su_accepted s)" "od_get (su_accepted s) key = Some ids" "l = drop n ids"
  shows "table_shrinks s (trim_entries key l s)"
proof -
  have "held_ids (su_accepted (trim_entries key l s)) \<subseteq># held_ids (su_accepted s)"
    by (metis held_ids_trim [OF assms] mset_subset_eq_add_left)
  with assms show ?thesis
    by (auto simp: table_shrinks_def trim_entries_def suppressor_limits_def length_od_put od_pop_permuted)
qed

lemma remove_put_empty:
  "od_get (su_accepted s) key = Some ids \<Longrightarrow>
     suppressor_remove key (s\<lparr>su_accepted := od_put key [] (su_accepted s)\<rparr>) = Inr (trim_entries key [] s)"
  by (simp add: suppressor_remove_def trim_entries_def)

subsection \<open>Expiry\<close>

lemma dropWhile_drop: "\<exists>n. dropWhile P xs = drop n xs"
  by (metis dropWhile_eq_drop)

lemma expire_items_Cons:
  assumes "od_get (su_accepted s) key = Some ids"
  shows "\<exists>n x. expire_items now ((key, ids) # items) s
     = expire_items now items ((trim_entries key (drop n ids) s)\<lparr>su_expired := x\<rparr>)"
proof -
  obtain n where n: "dropWhile (\<lambda>x. now - fst (snd x) > su_age_ns s) ids = drop n ids"
    using dropWhile_drop by blast
  define kept where "kept = dropWhile (\<lambda>x. now - fst (snd x) > su_age_ns s) ids"
  let ?x = "su_expired s + int (length ids - length kept)"
  have "expire_items now ((key, ids) # items) s = expire_items now items ((trim_entries key kept s)\<lparr>su_expired := ?x\<rparr>)"
    unfolding expire_items.simps Let_def kept_def [symmetric]
    using assms by (cases s; cases "kept = []") (simp_all add: suppressor_remove_def trim_entries_def)
  then show ?thesis using n unfolding kept_def by metis
qed

lemma expire_items_total:
  assumes "suppressor_core s" "distinct (map fst items)" "\<forall>(k, l) \<in> set items. od_get (su_accepted s) k = Some l"
  shows "\<exists>t. expire_items now items s = Inr t \<and> suppressor_core t \<and> table_shrinks s t"
  using assms
proof (induction items arbitrary: s)
  case (Cons item items)
  obtain key ids where i: "item = (key, ids)" by (cases item)
  with Cons.prems have g: "od_get (su_accepted s) key = Some ids" by simp
  from expire_items_Cons [OF this, of now items] obtain n x where
    e: "expire_items now (item # items) s = expire_items now items ((trim_entries key (drop n ids) s)\<lparr>su_expired := x\<rparr>)"
    unfolding i by blast
  let ?s = "trim_entries key (drop n ids) s" and ?t = "(trim_entries key (drop n ids) s)\<lparr>su_expired := x\<rparr>"
  have c: "suppressor_core ?t"
    using core_trim [OF Cons.prems(1) g refl] by (rule core_frame) (simp_all add: suppressor_limits_def)
  have "table_shrinks s ?s" using core_ok [OF Cons.prems(1)] g by (rule table_shrinks_trim) simp
  then have sh: "table_shrinks s ?t" by (simp add: table_shrinks_def suppressor_limits_def)
  have "od_get (su_accepted ?t) k = Some l" if kl: "(k, l) \<in> set items" for k l
  proof -
    from kl Cons.prems(2) i have "k \<noteq> key" by force
    moreover from kl Cons.prems(3) have "od_get (su_accepted s) k = Some l" by auto
    ultimately show ?thesis by (simp add: trim_entries_def)
  qed
  then have "\<forall>(k, l) \<in> set items. od_get (su_accepted ?t) k = Some l" by blast
  with Cons.IH [OF c] Cons.prems(2) obtain t where "expire_items now items ?t = Inr t" "suppressor_core t" "table_shrinks ?t t"
    by auto
  with e sh show ?case by (metis table_shrinks_trans)
qed simp

lemma expire_total:
  assumes "suppressor_core s"
  shows "\<exists>t. suppressor_expire now s = Inr t \<and> suppressor_core t \<and> table_shrinks s t"
proof -
  let ?s = "s\<lparr>su_next_expire_ns := now + min 250000000 (su_age_ns s div 4)\<rparr>"
  have c: "suppressor_core ?s" using assms by (rule core_frame) (simp_all add: suppressor_limits_def)
  have "\<forall>(k, l) \<in> set (su_accepted s). od_get (su_accepted ?s) k = Some l"
    using core_ok [OF assms] by (auto simp: od_get_iff)
  with expire_items_total [OF c, of "su_accepted s" now] core_ok [OF assms] obtain t where
    "expire_items now (su_accepted s) ?s = Inr t" "suppressor_core t" "table_shrinks ?s t" by (auto simp: od_ok_def)
  then show ?thesis using assms by (auto simp: suppressor_expire_def table_shrinks_def suppressor_limits_def)
qed

subsection \<open>Commit\<close>

lemma core_move: "suppressor_core s \<Longrightarrow> suppressor_core (s\<lparr>su_accepted := od_move_to_end key (su_accepted s)\<rparr>)"
proof -
  assume c: "suppressor_core s"
  then have "sk.exact (s\<lparr>su_accepted := od_move_to_end key (su_accepted s)\<rparr>)"
    by (auto simp: suppressor_core_def intro: sk.exact_move)
  with c core_ok [OF c] show ?thesis by (simp add: suppressor_core_def set_od_move)
qed

text \<open>The state after one key of the uses: the suffix of its copies, moved to the end when one is left.\<close>

definition consume_key :: "match_key \<Rightarrow> nat \<Rightarrow> match_entry list \<Rightarrow> Suppressor \<Rightarrow> Suppressor" where
  "consume_key key n ids s =
     (if drop n ids = [] then trim_entries key [] s
      else (trim_entries key (drop n ids) s)\<lparr>su_accepted := od_move_to_end key (od_put key (drop n ids) (su_accepted s))\<rparr>)"

lemma consume_uses_Cons:
  "od_get (su_accepted s) key = Some ids \<Longrightarrow> n \<le> length ids \<Longrightarrow>
     consume_uses msg ((key, n) # uses) s = consume_uses msg uses (consume_key key n ids s)"
  by (cases "drop n ids = []") (simp_all add: Let_def remove_put_empty consume_key_def trim_entries_def)

lemma consume_key_keeps:
  assumes "suppressor_core s" "od_get (su_accepted s) key = Some ids"
  shows "suppressor_core (consume_key key n ids s)" "table_shrinks s (consume_key key n ids s)"
    "held_ids (su_accepted (consume_key key n ids s)) + mset (map fst (take n ids)) = held_ids (su_accepted s)"
    "k \<noteq> key \<Longrightarrow> od_get (su_accepted (consume_key key n ids s)) k = od_get (su_accepted s) k"
proof -
  let ?t = "trim_entries key (drop n ids) s"
  have ok: "od_ok (su_accepted s)" using assms(1) by (rule core_ok)
  have c: "suppressor_core ?t" using core_trim [OF assms refl] .
  have sh: "table_shrinks s ?t" using table_shrinks_trim [OF ok assms(2) refl] .
  have h: "held_ids (su_accepted ?t) + mset (map fst (take n ids)) = held_ids (su_accepted s)"
    using held_ids_trim [OF ok assms(2) refl] .
  show "k \<noteq> key \<Longrightarrow> od_get (su_accepted (consume_key key n ids s)) k = od_get (su_accepted s) k"
    by (simp add: consume_key_def trim_entries_def)
  have cases: "consume_key key n ids s = ?t \<or>
      consume_key key n ids s = ?t\<lparr>su_accepted := od_move_to_end key (su_accepted ?t)\<rparr>"
    by (simp add: consume_key_def trim_entries_def)
  have okt: "od_ok (su_accepted ?t)" using c by (rule core_ok)
  from cases c show "suppressor_core (consume_key key n ids s)" by (metis core_move)
  from cases h held_ids_move [OF okt, of key]
  show "held_ids (su_accepted (consume_key key n ids s)) + mset (map fst (take n ids)) = held_ids (su_accepted s)"
    by auto
  from cases sh held_ids_move [OF okt, of key] length_od_move [OF okt, of key]
  show "table_shrinks s (consume_key key n ids s)" by (auto simp: table_shrinks_def suppressor_limits_def)
qed

lemma consume_uses_total:
  assumes "suppressor_core s" "od_ok uses"
    and "\<forall>(k, n) \<in> set uses. 0 < n \<and> n \<le> length (entries_at (su_accepted s) k)"
  shows "\<exists>t. consume_uses msg uses s = Inr t \<and> suppressor_core t \<and> table_shrinks s t
     \<and> held_ids (su_accepted t) + used_ids (su_accepted s) uses = held_ids (su_accepted s)"
  using assms
proof (induction uses arbitrary: s)
  case (Cons u uses)
  obtain key n where u: "u = (key, n)" by (cases u)
  with Cons.prems(3) obtain ids where g: "od_get (su_accepted s) key = Some ids" and n: "n \<le> length ids"
    by (cases "od_get (su_accepted s) key") (auto simp: entries_at_def)
  let ?t = "consume_key key n ids s"
  note keeps = consume_key_keeps [OF Cons.prems(1) g, where n = n]
  have e: "entries_at (su_accepted ?t) k = entries_at (su_accepted s) k" if "k \<in> fst ` set uses" for k
  proof -
    from that Cons.prems(2) u have "k \<noteq> key" by (auto simp: od_ok_def)
    then show ?thesis by (simp add: entries_at_def keeps(4))
  qed
  have "0 < m \<and> m \<le> length (entries_at (su_accepted ?t) k)" if "(k, m) \<in> set uses" for k m
    using that Cons.prems(3) e [of k] by (force simp: rev_image_eqI)
  then have "\<forall>(k, m) \<in> set uses. 0 < m \<and> m \<le> length (entries_at (su_accepted ?t) k)" by blast
  with Cons.IH [of ?t] keeps(1) Cons.prems(2) obtain t where t: "consume_uses msg uses ?t = Inr t"
      "suppressor_core t" "table_shrinks ?t t"
      "held_ids (su_accepted t) + used_ids (su_accepted ?t) uses = held_ids (su_accepted ?t)"
    by (auto simp: od_ok_def)
  have "used_ids (su_accepted ?t) uses = used_ids (su_accepted s) uses" by (rule used_ids_cong) (rule e)
  moreover have "used_ids (su_accepted s) (u # uses) = mset (map fst (take n ids)) + used_ids (su_accepted s) uses"
    by (simp add: u entries_at_def g)
  ultimately have "held_ids (su_accepted t) + used_ids (su_accepted s) (u # uses) = held_ids (su_accepted s)"
    using t(4) keeps(3) by (metis union_assoc union_commute)
  moreover have "consume_uses msg (u # uses) s = Inr t" unfolding u consume_uses_Cons [OF g n] by (rule t(1))
  moreover have "table_shrinks s t" using keeps(2) t(3) by (rule table_shrinks_trans)
  ultimately show ?case using t(2) by blast
qed simp

lemma mset_swap:
  fixes A B C D E :: "'a multiset"
  assumes "A + B = C + D" "D \<subseteq># B + E" shows "A \<subseteq># C + E"
proof -
  have "C + D \<subseteq># C + (B + E)" using assms(2) by simp
  then have "A + B \<subseteq># (C + E) + B" unfolding assms(1) by (simp add: ac_simps)
  then show ?thesis by simp
qed

lemma remember_ingress_keeps:
  assumes "suppressor_core s"
  shows "suppressor_core (remember_ingress (key, l) s)"
    and "held_ids (su_accepted (remember_ingress (key, l) s)) \<subseteq># held_ids (su_accepted s) + mset (map fst l)"
    and "suppressor_limits (remember_ingress (key, l) s) = suppressor_limits s"
proof -
  let ?old = "entries_at (su_accepted s) key"
  let ?kept = "drop (length (?old @ l) - MAX_INGRESS_COPIES_PER_KEY) (?old @ l)"
  define acc where "acc = (if od_get (su_accepted s) key = None then su_accepted s else od_move_to_end key (su_accepted s))"
  define t where "t = remember_ingress (key, l) s"
  have ok: "od_ok (su_accepted s)" using assms by (rule core_ok)
  then have oka: "od_ok acc" by (simp add: acc_def)
  have ea: "entries_at acc key = ?old" by (simp add: acc_def)
  have ha: "held_ids acc = held_ids (su_accepted s)" using held_ids_move [OF ok] by (simp add: acc_def)
  consider "t = s" | "l \<noteq> []" "su_accepted t = od_put key ?kept acc" "suppressor_limits t = suppressor_limits s"
      "su_key_bytes t = su_key_bytes s + (if od_get (su_accepted s) key = None then int (length (fst key)) else 0)"
    by (cases "l = [] \<or> int (length (fst key)) > su_max_bytes s")
      (auto simp: t_def remember_ingress_def acc_def entries_at_def suppressor_limits_def Let_def split: option.splits)
  then show "suppressor_core (remember_ingress (key, l) s)"
    "held_ids (su_accepted (remember_ingress (key, l) s)) \<subseteq># held_ids (su_accepted s) + mset (map fst l)"
    "suppressor_limits (remember_ingress (key, l) s) = suppressor_limits s"
    unfolding t_def [symmetric] atomize_conj
  proof cases
    case 1
    with assms show "suppressor_core t \<and> held_ids (su_accepted t) \<subseteq># held_ids (su_accepted s) + mset (map fst l)
      \<and> suppressor_limits t = suppressor_limits s" by simp
  next
    case 2
    have "0 < length l" using 2(1) by simp
    then have k: "copies_ok ?kept"
      unfolding copies_ok_def MAX_INGRESS_COPIES_PER_KEY_def length_greater_0_conv [symmetric] length_drop length_append
      by linarith
    have "od_sum (\<lambda>k _. int (length (fst k))) acc = od_sum (\<lambda>k _. int (length (fst k))) (su_accepted s)"
      using od_sum_move [OF ok] by (simp add: acc_def)
    moreover have "od_get acc key = od_get (su_accepted s) key" by (simp add: acc_def)
    ultimately have "sk.exact t" using assms 2(2,4) oka
      by (auto simp: suppressor_core_def sk.exact_def od_sum_put split: option.splits)
    moreover have "\<forall>v \<in> snd ` set (od_put key ?kept acc). copies_ok v"
    proof -
      have "set acc = set (su_accepted s)" using set_od_move [OF ok] by (simp add: acc_def)
      with assms k set_od_put_subset [of key ?kept acc] show ?thesis by (fastforce simp: suppressor_core_def)
    qed
    ultimately have c: "suppressor_core t" using assms 2(2,3) by (simp add: suppressor_core_def suppressor_limits_def)
    have "held_ids (su_accepted t) + mset (map fst ?old) = held_ids (su_accepted s) + mset (map fst ?kept)"
      using held_ids_put [of key ?kept acc] 2(2) ea ha by simp
    moreover have "mset (map fst ?kept) \<subseteq># mset (map fst ?old) + mset (map fst l)"
      by (metis append_take_drop_id map_append mset_append mset_subset_eq_add_right)
    ultimately have "held_ids (su_accepted t) \<subseteq># held_ids (su_accepted s) + mset (map fst l)"
      by (rule mset_swap)
    with c 2(3) show "suppressor_core t \<and> held_ids (su_accepted t) \<subseteq># held_ids (su_accepted s) + mset (map fst l)
      \<and> suppressor_limits t = suppressor_limits s" by blast
  qed
qed

lemma remember_all_keeps:
  assumes "suppressor_core s"
  shows "suppressor_core (fold remember_ingress d s)
     \<and> held_ids (su_accepted (fold remember_ingress d s)) \<subseteq># held_ids (su_accepted s) + held_ids d
     \<and> suppressor_limits (fold remember_ingress d s) = suppressor_limits s"
  using assms
proof (induction d arbitrary: s)
  case (Cons e d)
  obtain key l where e: "e = (key, l)" by (cases e)
  note r = remember_ingress_keeps [OF Cons.prems, of key l]
  from Cons.IH [OF r(1)] r(2,3) show ?case unfolding e
    by (auto simp: ac_simps intro: subset_mset.order_trans)
qed simp

interpretation sv: eviction_loop su_accepted suppressor_over suppressor_evict_one suppressor_evict suppressor_core
proof
  show "suppressor_evict s = (if suppressor_over s
      then (case su_accepted s of [] \<Rightarrow> Inl StopIteration | e # _ \<Rightarrow> suppressor_evict (suppressor_evict_one (fst e) s))
      else Inr s)" for s by (rule suppressor_evict.simps)
  show "suppressor_core s \<Longrightarrow> su_accepted s = [] \<Longrightarrow> \<not> suppressor_over s" for s
    using sk.exact_empty [of s] by (auto simp: suppressor_core_def suppressor_over_def)
qed (auto intro: core_evict_one core_ok)

lemma held_ids_drop: "held_ids (drop n d) \<subseteq># held_ids d"
  by (metis append_take_drop_id held_ids_simps(3) mset_subset_eq_add_right)

definition prior_ok :: "Suppressor \<Rightarrow> DuplicatePlan \<Rightarrow> bool" where
  "prior_ok s plan \<longleftrightarrow> mset (map snd (dp_prior_pairs plan)) \<subseteq># used_ids (su_accepted s) (dp_accepted_uses plan)"

lemma prior_ok_step:
  assumes "prior_ok s plan" "plan_step s frames packet plan plan'"
  shows "prior_ok s plan'"
  using assms(2)
proof cases
  case (Prior frame hop decremented key n e)
  then have "used_ids (su_accepted s) (od_put key (n + 1) (dp_accepted_uses plan))
      = add_mset (fst e) (used_ids (su_accepted s) (dp_accepted_uses plan))"
    using used_ids_put by blast
  with assms(1) Prior(1) show ?thesis
    by (auto simp: prior_ok_def take_partner_def intro: subset_mset.order_trans)
qed (use assms(1) in \<open>simp_all add: prior_ok_def take_partner_def\<close>)

lemma fold_plan_prior: "prior_ok s (fold (plan_packet s frames) packets (empty_plan pressure))"
  by (rule plan_invariant [where P = "\<lambda>_. prior_ok s"]) (simp add: prior_ok_def, rule prior_ok_step)

subsection \<open>Batches\<close>

text \<open>
  A batch as the supervisor handles it: plan it, then \<open>commit\<close> when the retained packets were
  admitted, \<open>commit_prior_skips_on_failure\<close> when they were rejected. Of an admitted batch all pairs
  are skips, of a rejected one only the pairs with earlier batches.
\<close>

type_synonym match_batch = "ParsedPacket list \<times> (int, ForwardedFrame) odict \<times> bool \<times> bool"

definition suppressor_batch :: "match_batch \<Rightarrow> Suppressor \<Rightarrow> (Suppressor \<times> (int \<times> int) list) result" where
  "suppressor_batch b s = (case b of (packets, frames, pressure, admitted) \<Rightarrow>
     bindE (suppressor_plan s packets frames pressure) (\<lambda>(s1, plan).
       if admitted then bindE (suppressor_commit plan s1) (\<lambda>s2. Inr (s2, dp_pairs plan))
       else bindE (commit_prior_skips_on_failure plan s1) (\<lambda>s2. Inr (s2, dp_prior_pairs plan))))"

fun suppressor_run :: "match_batch list \<Rightarrow> Suppressor \<Rightarrow> (Suppressor \<times> (int \<times> int) list) result" where
  "suppressor_run [] s = Inr (s, [])"
| "suppressor_run (b # bs) s =
     bindE (suppressor_batch b s) (\<lambda>(s1, skips).
       bindE (suppressor_run bs s1) (\<lambda>(s2, more_skips). Inr (s2, skips @ more_skips)))"

definition admitted_ids :: "match_batch \<Rightarrow> int multiset" where
  "admitted_ids b = (case b of (packets, frames, pressure, admitted) \<Rightarrow>
     if admitted then batch_ids frames packets else {#})"

lemma mset_chain:
  fixes P :: "'a multiset"
  assumes "P + I \<subseteq># U + B" "T + U \<subseteq># H + I" "H \<subseteq># S" shows "P + T \<subseteq># S + B"
proof -
  have "count P x + count T x \<le> count S x + count B x" for x
    using assms [THEN mset_subset_eq_count, of x] by simp
  then show ?thesis by (simp add: subseteq_mset_def)
qed

lemma mset_chain2:
  fixes A :: "'a multiset"
  assumes "A + T \<subseteq># S + B" "C + U \<subseteq># T + D" shows "A + C + U \<subseteq># S + (B + D)"
proof -
  have "count A x + count C x + count U x \<le> count S x + (count B x + count D x)" for x
    using assms [THEN mset_subset_eq_count, of x] by simp
  then show ?thesis by (simp add: subseteq_mset_def)
qed

lemma plan_total:
  assumes "suppressor_ok s"
  shows "\<exists>s1. suppressor_plan s packets frames pressure
        = Inr (s1, fold (plan_packet s1 frames) packets (empty_plan pressure))
     \<and> suppressor_core s1 \<and> table_shrinks s s1"
proof (cases "packets = []")
  case False
  from assms expire_total obtain s1 where
    "suppressor_expire (latest_timestamp packets) s = Inr s1" "suppressor_core s1" "table_shrinks s s1"
    unfolding suppressor_ok_def by blast
  with False show ?thesis by (simp add: suppressor_plan_def)
qed (use assms in \<open>simp add: suppressor_plan_def suppressor_ok_def\<close>)

lemma table_shrinks_over: "table_shrinks s t \<Longrightarrow> \<not> suppressor_over s \<Longrightarrow> \<not> suppressor_over t"
  by (auto simp: table_shrinks_def suppressor_over_def suppressor_limits_def)

lemma evict_limits: "suppressor_evict s = Inr t \<Longrightarrow> suppressor_limits t = suppressor_limits s"
proof (induction s rule: suppressor_evict.induct)
  case (1 s)
  have "suppressor_limits (suppressor_evict_one k s) = suppressor_limits s" for k
    by (auto simp: suppressor_evict_one_def suppressor_limits_def split: option.splits)
  with 1 show ?case unfolding suppressor_evict.simps [of s] by (auto split: if_splits list.splits)
qed

lemma commit_keeps:
  assumes "suppressor_core s" "pool_ok s frames packets plan"
  shows "\<exists>t. suppressor_commit plan s = Inr t \<and> suppressor_ok t \<and> suppressor_limits t = suppressor_limits s
     \<and> held_ids (su_accepted t) + used_ids (su_accepted s) (dp_accepted_uses plan)
         \<subseteq># held_ids (su_accepted s) + held_ids (dp_ingress plan)"
proof -
  obtain t where t: "consume_uses ''forwarded duplicate cache changed before commit'' (dp_accepted_uses plan) s = Inr t"
      "suppressor_core t" "table_shrinks s t"
      "held_ids (su_accepted t) + used_ids (su_accepted s) (dp_accepted_uses plan) = held_ids (su_accepted s)"
    using consume_uses_total [OF assms(1), of "dp_accepted_uses plan"] assms(2) unfolding pool_ok_def by blast
  let ?u = "fold remember_ingress (dp_ingress plan) t"
  note u = remember_all_keeps [OF t(2), of "dp_ingress plan"]
  then obtain v n where v: "suppressor_evict ?u = Inr v" "suppressor_core v" "\<not> suppressor_over v"
      "su_accepted v = drop n (su_accepted ?u)" using sv.loop_total [of ?u] by blast
  have "held_ids (su_accepted v) \<subseteq># held_ids (su_accepted t) + held_ids (dp_ingress plan)"
    unfolding v(4) by (rule subset_mset.order_trans [OF held_ids_drop]) (use u in blast)
  then have "held_ids (su_accepted v) + used_ids (su_accepted s) (dp_accepted_uses plan)
      \<subseteq># held_ids (su_accepted s) + held_ids (dp_ingress plan)"
    unfolding t(4) [symmetric] by (simp add: ac_simps)
  moreover have "suppressor_limits v = suppressor_limits s"
    using evict_limits [OF v(1)] u t(3) by (simp add: table_shrinks_def)
  ultimately show ?thesis using t(1) v by (simp add: suppressor_commit_def suppressor_ok_def)
qed

lemma suppressor_batch_keeps:
  assumes "suppressor_ok s"
  shows "\<exists>t skips. suppressor_batch b s = Inr (t, skips) \<and> suppressor_ok t \<and> suppressor_limits t = suppressor_limits s
     \<and> mset (map snd skips) + held_ids (su_accepted t) \<subseteq># held_ids (su_accepted s) + admitted_ids b"
proof -
  obtain packets frames pressure admitted where b: "b = (packets, frames, pressure, admitted)" by (cases b)
  obtain s1 where s1: "suppressor_plan s packets frames pressure
        = Inr (s1, fold (plan_packet s1 frames) packets (empty_plan pressure))"
      "suppressor_core s1" "table_shrinks s s1" using plan_total [OF assms] by blast
  define plan where "plan = fold (plan_packet s1 frames) packets (empty_plan pressure)"
  have pool: "pool_ok s1 frames packets plan" and prior: "prior_ok s1 plan"
    unfolding plan_def by (rule fold_plan_pool, rule fold_plan_prior)
  have held: "held_ids (su_accepted s1) \<subseteq># held_ids (su_accepted s)" "suppressor_limits s1 = suppressor_limits s"
    using s1(3) by (simp_all add: table_shrinks_def)
  let ?used = "used_ids (su_accepted s1) (dp_accepted_uses plan)"
  show ?thesis
  proof (cases admitted)
    case True
    from commit_keeps [OF s1(2) pool] obtain t where t: "suppressor_commit plan s1 = Inr t" "suppressor_ok t"
      "suppressor_limits t = suppressor_limits s1"
      "held_ids (su_accepted t) + ?used \<subseteq># held_ids (su_accepted s1) + held_ids (dp_ingress plan)" by blast
    have "mset (map snd (dp_pairs plan)) + held_ids (dp_ingress plan) \<subseteq># ?used + batch_ids frames packets"
      using pool by (simp add: pool_ok_def)
    from mset_chain [OF this t(4) held(1)]
    have "mset (map snd (dp_pairs plan)) + held_ids (su_accepted t) \<subseteq># held_ids (su_accepted s) + admitted_ids b"
      using True b by (simp add: admitted_ids_def)
    moreover have "suppressor_batch b s = Inr (t, dp_pairs plan)"
      using s1(1) t(1) True b by (simp add: suppressor_batch_def plan_def)
    ultimately show ?thesis using t(2,3) held(2) by auto
  next
    case False
    obtain t where t: "commit_prior_skips_on_failure plan s1 = Inr t" "suppressor_core t" "table_shrinks s1 t"
      "held_ids (su_accepted t) + ?used = held_ids (su_accepted s1)"
      using consume_uses_total [OF s1(2), of "dp_accepted_uses plan"] pool
      unfolding pool_ok_def commit_prior_skips_on_failure_def by blast
    have "mset (map snd (dp_prior_pairs plan)) + held_ids (su_accepted t) \<subseteq># held_ids (su_accepted s1)"
      using prior unfolding t(4) [symmetric] prior_ok_def by (simp add: ac_simps)
    then have "mset (map snd (dp_prior_pairs plan)) + held_ids (su_accepted t) \<subseteq># held_ids (su_accepted s) + admitted_ids b"
      using held(1) False b by (auto simp: admitted_ids_def intro: subset_mset.order_trans)
    moreover have "suppressor_batch b s = Inr (t, dp_prior_pairs plan)"
      using s1(1) t(1) False b by (simp add: suppressor_batch_def plan_def)
    moreover have "suppressor_ok t" using assms s1(3) t(2,3) table_shrinks_over by (auto simp: suppressor_ok_def)
    ultimately show ?thesis using t(3) held(2) by (auto simp: table_shrinks_def)
  qed
qed

lemma suppressor_run_keeps:
  assumes "suppressor_ok s"
  shows "\<exists>t skips. suppressor_run bs s = Inr (t, skips) \<and> suppressor_ok t \<and> suppressor_limits t = suppressor_limits s
     \<and> mset (map snd skips) + held_ids (su_accepted t) \<subseteq># held_ids (su_accepted s) + (\<Sum>b\<leftarrow>bs. admitted_ids b)"
  using assms
proof (induction bs arbitrary: s)
  case (Cons b bs)
  from suppressor_batch_keeps [OF Cons.prems] obtain t skips where
    t: "suppressor_batch b s = Inr (t, skips)" "suppressor_ok t" "suppressor_limits t = suppressor_limits s"
      "mset (map snd skips) + held_ids (su_accepted t) \<subseteq># held_ids (su_accepted s) + admitted_ids b" by blast
  from Cons.IH [OF t(2)] obtain u skips' where
    u: "suppressor_run bs t = Inr (u, skips')" "suppressor_ok u" "suppressor_limits u = suppressor_limits t"
      "mset (map snd skips') + held_ids (su_accepted u) \<subseteq># held_ids (su_accepted t) + (\<Sum>b\<leftarrow>bs. admitted_ids b)" by blast
  have "mset (map snd (skips @ skips')) + held_ids (su_accepted u) \<subseteq># held_ids (su_accepted s) + (\<Sum>b\<leftarrow>b # bs. admitted_ids b)"
    using mset_chain2 [OF t(4) u(4)] by (simp add: ac_simps)
  with t u show ?case by auto
qed simp

section \<open>What equal keys mean\<close>

lemma skip_tags_mono: "skip_tags raw e pos t = Some (et, off) \<Longrightarrow> pos \<le> off \<and> (pos \<le> length raw \<longrightarrow> off \<le> length raw)"
proof (induction raw e pos t rule: skip_tags.induct)
  case (1 raw e pos t)
  from "1.prems" "1.IH" show ?case
    unfolding skip_tags.simps [of raw e pos t] by (auto split: if_splits)
qed

text \<open>The tags are read off the bytes they occupy.\<close>

lemma skip_tags_local:
  "skip_tags raw e pos t = Some (et, off) \<Longrightarrow> off \<le> length raw' \<Longrightarrow>
     py_slice raw' pos off = py_slice raw pos off \<Longrightarrow> skip_tags raw' e pos t = Some (et, off)"
proof (induction raw e pos t rule: skip_tags.induct)
  case (1 raw e pos t)
  show ?case
  proof (cases "e \<in> set VLAN_ETHERTYPES")
    case True
    with "1.prems"(1) have c: "\<not> (t \<ge> 8 \<or> length raw < pos + 4)"
      and n: "skip_tags raw (from_be (py_slice raw (pos + 2) (pos + 4))) (pos + 4) (t + 1) = Some (et, off)"
      by (auto simp: skip_tags.simps [of raw e pos t] split: if_splits)
    from skip_tags_mono [OF n] have le: "pos + 4 \<le> off" by simp
    have sub: "py_slice raw' (pos + i) (min off (pos + j)) = py_slice raw (pos + i) (min off (pos + j))" for i j
      using "1.prems"(3) by (metis py_slice_slice)
    have a: "py_slice raw' (pos + 2) (pos + 4) = py_slice raw (pos + 2) (pos + 4)"
      using sub [of 2 4] le by (simp add: min_absorb2)
    have b: "py_slice raw' (pos + 4) off = py_slice raw (pos + 4) off"
      using sub [of 4 "off - pos"] le by simp
    have "skip_tags raw' (from_be (py_slice raw (pos + 2) (pos + 4))) (pos + 4) (t + 1) = Some (et, off)"
      using "1.IH" [OF True c n "1.prems"(2) b] .
    with True c le "1.prems"(2) a show ?thesis by (simp add: skip_tags.simps [of raw' e pos t])
  next
    case False
    with "1.prems"(1) have "et = e" "off = pos" by (simp_all add: skip_tags.simps [of raw e pos t])
    with False show ?thesis by (simp add: skip_tags.simps [of raw' e pos t])
  qed
qed

definition ip_extent :: "nat \<Rightarrow> bytes \<Rightarrow> nat" where
  "ip_extent ethertype network =
     (if ethertype = ETHERTYPE_IPV4 then from_be (py_slice network 2 4) else 40 + from_be (py_slice network 4 6))"

definition erased :: "nat \<Rightarrow> nat set" where
  "erased ethertype = (if ethertype = ETHERTYPE_IPV4 then {8, 10, 11} else {7})"

text \<open>A described frame, opened.\<close>

lemma describe_forwarded_frameE:
  assumes "describe_forwarded_frame c p mac = Some f"
  obtains et off norm where
    "14 \<le> length (cp_raw c)"
    "skip_tags (cp_raw c) (from_be (py_slice (cp_raw c) 12 14)) 14 0 = Some (et, off)"
    "ff_key f = py_slice (cp_raw c) 12 off @ norm"
    "length norm = ip_extent et (drop off (cp_raw c))" "length norm \<le> length (cp_raw c) - off" "20 \<le> length norm"
    "\<And>i. i < length norm \<Longrightarrow> i \<notin> erased et \<Longrightarrow> norm ! i = cp_raw c ! (off + i)"
    "frame_role_of (cp_raw c) mac = Some (ff_role f)" "1 \<le> ff_hop_limit f"
    "et = ETHERTYPE_IPV4 \<or> et = ETHERTYPE_IPV6"
    "ff_packet_id f = cp_packet_id c" "ff_timestamp_ns f = cp_timestamp_ns c"
proof -
  have len: "14 \<le> length (cp_raw c)"
    using assms by (auto simp: describe_forwarded_frame_def split: if_splits)
  obtain role where role: "frame_role_of (cp_raw c) mac = Some role"
    using assms by (cases "frame_role_of (cp_raw c) mac") (auto simp: describe_forwarded_frame_def split: if_splits)
  obtain et off where tags: "skip_tags (cp_raw c) (from_be (py_slice (cp_raw c) 12 14)) 14 0 = Some (et, off)"
    using assms role by (cases "skip_tags (cp_raw c) (from_be (py_slice (cp_raw c) 12 14)) 14 0")
      (auto simp: describe_forwarded_frame_def split: if_splits)
  let ?ip = "if et = ETHERTYPE_IPV4 then describe_ipv4 (drop off (cp_raw c))
         else if et = ETHERTYPE_IPV6 then describe_ipv6 (drop off (cp_raw c)) else None"
  have "?ip \<noteq> None"
  proof
    assume none: "?ip = None"
    from assms show False unfolding describe_forwarded_frame_def Let_def role option.case tags prod.case none
      by (simp split: if_splits)
  qed
  then obtain norm hop ck where norm: "?ip = Some (norm, hop, ck)" by (metis option.exhaust prod_cases3)
  have f: "f = \<lparr>ff_role = role, ff_key = py_slice (cp_raw c) 12 off @ norm,
                ff_hop_limit = hop, ff_packet_id = cp_packet_id c,
                ff_timestamp_ns = cp_timestamp_ns c, ff_ip_checksum = ck\<rparr>"
    using assms len unfolding describe_forwarded_frame_def Let_def role option.case tags prod.case norm
    by (auto split: if_splits)
  have off: "off \<le> length (cp_raw c)" "14 \<le> off" using skip_tags_mono [OF tags] len by simp_all
  have "length norm = ip_extent et (drop off (cp_raw c)) \<and> length norm \<le> length (cp_raw c) - off \<and> 20 \<le> length norm
      \<and> 1 \<le> hop \<and> (\<forall>i < length norm. i \<notin> erased et \<longrightarrow> norm ! i = drop off (cp_raw c) ! i)"
    using norm
    by (auto simp: describe_ipv4_def describe_ipv6_def ip_extent_def erased_def Let_def nth_list_update split: if_splits)
  moreover have "et = ETHERTYPE_IPV4 \<or> et = ETHERTYPE_IPV6" using norm by (auto split: if_splits)
  ultimately show thesis using that [OF len tags, of norm] role off unfolding f by simp
qed

lemma same_key_offset:
  assumes "skip_tags raw (from_be (py_slice raw 12 14)) 14 0 = Some (et, off)" "14 \<le> length raw"
    and "skip_tags raw' (from_be (py_slice raw' 12 14)) 14 0 = Some (et', off')" "14 \<le> length raw'"
    and "py_slice raw 12 off @ norm = py_slice raw' 12 off' @ norm'"
  shows "et' = et \<and> off' = off"
proof -
  define common where "common = replicate 12 0 @ py_slice raw 12 off @ norm"
  have read: "skip_tags common (from_be (py_slice common 12 14)) 14 0 = Some (e, k)"
    if tags: "skip_tags r (from_be (py_slice r 12 14)) 14 0 = Some (e, k)" and len: "14 \<le> length r"
      and eq: "common = replicate 12 0 @ py_slice r 12 k @ n" for r e k n
  proof -
    have k: "14 \<le> k" "k \<le> length r" using skip_tags_mono [OF tags] len by simp_all
    have slice: "py_slice common 12 k = py_slice r 12 k"
      using k by (simp add: eq py_slice_append_right) (simp add: py_slice_def)
    have "py_slice common 12 14 = py_slice (py_slice common 12 k) 0 2"
      using k by (simp add: py_slice_slice min_absorb2)
    also have "\<dots> = py_slice r 12 14" using k by (simp only: slice) (simp add: py_slice_slice min_absorb2)
    finally have et: "py_slice common 12 14 = py_slice r 12 14" .
    have "py_slice common 14 k = py_slice (py_slice common 12 k) 2 (k - 12)" using k by (simp add: py_slice_slice)
    also have "\<dots> = py_slice r 14 k" using k by (simp only: slice) (simp add: py_slice_slice)
    finally have rest: "py_slice common 14 k = py_slice r 14 k" .
    have "k \<le> length common" using k by (simp add: eq)
    from skip_tags_local [OF tags this rest] show ?thesis by (simp only: et)
  qed
  have "skip_tags common (from_be (py_slice common 12 14)) 14 0 = Some (et, off)"
    by (rule read [OF assms(1,2)]) (simp add: common_def)
  moreover have "skip_tags common (from_be (py_slice common 12 14)) 14 0 = Some (et', off')"
    by (rule read [OF assms(3,4)]) (simp add: common_def assms(5))
  ultimately show ?thesis by simp
qed

text \<open>Two described frames with equal keys carry the same IP datagram: the same VLAN tags and EtherType,
  datagrams of the same length at the same offset, complete in both frames, and equal in every byte but the
  hop limit and, for IPv4, the two bytes of the header checksum.\<close>

theorem same_key_same_datagram:
  assumes "describe_forwarded_frame c p mac = Some f" "describe_forwarded_frame c' p' mac = Some f'"
    and "ff_key f = ff_key f'"
  shows "\<exists>et off n. 20 \<le> n \<and> off + n \<le> length (cp_raw c) \<and> off + n \<le> length (cp_raw c')
     \<and> n = ip_extent et (drop off (cp_raw c)) \<and> n = ip_extent et (drop off (cp_raw c'))
     \<and> py_slice (cp_raw c) 12 off = py_slice (cp_raw c') 12 off
     \<and> (\<forall>i < n. i \<notin> erased et \<longrightarrow> cp_raw c ! (off + i) = cp_raw c' ! (off + i))"
proof -
  obtain et off norm where d: "14 \<le> length (cp_raw c)"
    "skip_tags (cp_raw c) (from_be (py_slice (cp_raw c) 12 14)) 14 0 = Some (et, off)"
    "ff_key f = py_slice (cp_raw c) 12 off @ norm"
    "length norm = ip_extent et (drop off (cp_raw c))" "length norm \<le> length (cp_raw c) - off" "20 \<le> length norm"
    "\<And>i. i < length norm \<Longrightarrow> i \<notin> erased et \<Longrightarrow> norm ! i = cp_raw c ! (off + i)"
    using describe_forwarded_frameE [OF assms(1)] by metis
  obtain et' off' norm' where d': "14 \<le> length (cp_raw c')"
    "skip_tags (cp_raw c') (from_be (py_slice (cp_raw c') 12 14)) 14 0 = Some (et', off')"
    "ff_key f' = py_slice (cp_raw c') 12 off' @ norm'"
    "length norm' = ip_extent et' (drop off' (cp_raw c'))" "length norm' \<le> length (cp_raw c') - off'"
    "\<And>i. i < length norm' \<Longrightarrow> i \<notin> erased et' \<Longrightarrow> norm' ! i = cp_raw c' ! (off' + i)"
    using describe_forwarded_frameE [OF assms(2)] by metis
  have e: "et' = et" "off' = off" using same_key_offset [OF d(2,1) d'(2,1)] assms(3) d(3) d'(3) by auto
  have off: "off \<le> length (cp_raw c)" "off \<le> length (cp_raw c')"
    using skip_tags_mono [OF d(2)] skip_tags_mono [OF d'(2)] d(1) d'(1) e by simp_all
  have "length (py_slice (cp_raw c) 12 off) = length (py_slice (cp_raw c') 12 off)"
    using off by simp
  then have n: "py_slice (cp_raw c) 12 off = py_slice (cp_raw c') 12 off" "norm' = norm"
    using assms(3) d(3) d'(3) e by (auto simp: append_eq_append_conv)
  show ?thesis
    by (rule exI [of _ et], rule exI [of _ off], rule exI [of _ "length norm"])
      (use d(4-7) d'(4-6) e n off in auto)
qed

section \<open>Every skip has its evidence\<close>

definition seen_ingress :: "(int, ForwardedFrame) odict \<Rightarrow> ParsedPacket list \<Rightarrow> match_key \<Rightarrow> match_entry \<Rightarrow> bool" where
  "seen_ingress frames seen key e \<longleftrightarrow> fst e \<in> pp_packet_id ` set seen \<and> (\<exists>g. od_get frames (fst e) = Some g \<and> ff_role g = Ingress
     \<and> key = (ff_key g, ff_hop_limit g) \<and> snd e = (ff_timestamp_ns g, ff_ip_checksum g))"

definition justified_pair ::
  "Suppressor \<Rightarrow> (int, ForwardedFrame) odict \<Rightarrow> ParsedPacket list \<Rightarrow> int \<times> int \<Rightarrow> bool" where
  "justified_pair s frames seen pair \<longleftrightarrow>
     (\<exists>frame hop decremented e. od_get frames (fst pair) = Some frame \<and> ff_role frame = Egress \<and> fst e = snd pair
        \<and> candidate_of frame hop decremented \<and> fresh_entry s frame decremented e
        \<and> (e \<in> set (entries_at (su_accepted s) (ff_key frame, hop)) \<or> seen_ingress frames seen (ff_key frame, hop) e))"

definition evidence_ok :: "Suppressor \<Rightarrow> (int, ForwardedFrame) odict \<Rightarrow> ParsedPacket list \<Rightarrow> DuplicatePlan \<Rightarrow> bool" where
  "evidence_ok s frames seen plan \<longleftrightarrow>
     (\<forall>key. \<forall>e \<in> set (entries_at (dp_ingress plan) key). seen_ingress frames seen key e)
     \<and> (\<forall>pair \<in> set (dp_pairs plan). justified_pair s frames seen pair)"

lemma seen_ingress_mono: "seen_ingress frames seen key e \<Longrightarrow> seen_ingress frames (seen @ [p]) key e"
  by (auto simp: seen_ingress_def)

lemma justified_pair_mono: "justified_pair s frames seen pair \<Longrightarrow> justified_pair s frames (seen @ [p]) pair"
  unfolding justified_pair_def using seen_ingress_mono by metis

lemma take_partner_pairs: "set (dp_pairs (take_partner packet i prior plan)) \<subseteq> insert (pp_packet_id packet, i) (set (dp_pairs plan))"
  by (auto simp: take_partner_def)

lemma evidence_ok_step:
  assumes "evidence_ok s frames seen plan" "plan_step s frames packet plan plan'"
  shows "evidence_ok s frames (seen @ [packet]) plan'"
proof -
  have I: "\<And>key e. e \<in> set (entries_at (dp_ingress plan) key) \<Longrightarrow> seen_ingress frames (seen @ [packet]) key e"
    and P: "\<And>pair. pair \<in> set (dp_pairs plan) \<Longrightarrow> justified_pair s frames (seen @ [packet]) pair"
    using assms(1) seen_ingress_mono justified_pair_mono unfolding evidence_ok_def by blast+
  from assms(2) show ?thesis
  proof cases
    case Keep
    then show ?thesis using I P by (simp add: evidence_ok_def)
  next
    case (Learn frame key)
    have "seen_ingress frames (seen @ [packet]) key (pp_packet_id packet, ff_timestamp_ns frame, ff_ip_checksum frame)"
      unfolding seen_ingress_def using Learn by simp
    then show ?thesis using I P unfolding Learn(1) by (simp add: evidence_ok_def)
  next
    case (Same frame hop decremented key e rest)
    have e: "seen_ingress frames (seen @ [packet]) key e" using I Same(6) by simp
    have "justified_pair s frames (seen @ [packet]) (pp_packet_id packet, fst e)"
      unfolding justified_pair_def using Same e by (intro exI [of _ frame] exI [of _ hop] exI [of _ decremented] exI [of _ e]) simp
    moreover have "\<And>x. x \<in> set rest \<Longrightarrow> seen_ingress frames (seen @ [packet]) key x" using I Same(6) by simp
    ultimately show ?thesis using I P take_partner_pairs [of packet "fst e" False plan] unfolding Same(1) evidence_ok_def
      by auto
  next
    case (Prior frame hop decremented key n e)
    have "e \<in> set (entries_at (su_accepted s) (ff_key frame, hop))" using Prior by simp
    then have "justified_pair s frames (seen @ [packet]) (pp_packet_id packet, fst e)"
      unfolding justified_pair_def using Prior by (intro exI [of _ frame] exI [of _ hop] exI [of _ decremented] exI [of _ e]) simp
    then show ?thesis using I P take_partner_pairs [of packet "fst e" True plan] unfolding Prior(1) evidence_ok_def
      by auto
  qed
qed

lemma fold_plan_evidence: "evidence_ok s frames packets (fold (plan_packet s frames) packets (empty_plan pressure))"
  by (rule plan_invariant [where P = "evidence_ok s frames"])
    (simp add: evidence_ok_def entries_at_def, rule evidence_ok_step)

lemma plan_Inr:
  assumes "suppressor_plan s packets frames pressure = Inr (s1, plan)"
  shows "plan = fold (plan_packet s1 frames) packets (empty_plan pressure)"
  using assms by (auto simp: suppressor_plan_def)

section \<open>Properties\<close>

definition fwd_frame :: "frame_role \<Rightarrow> nat \<Rightarrow> int \<Rightarrow> nat \<Rightarrow> ForwardedFrame" where
  "fwd_frame role hop i ck = \<lparr>ff_role = role, ff_key = [8, 0, 69], ff_hop_limit = hop, ff_packet_id = i,
     ff_timestamp_ns = i, ff_ip_checksum = Some ck\<rparr>"

definition fwd_packet :: "int \<Rightarrow> ParsedPacket" where
  "fwd_packet i =
     \<lparr>pp_session_id = [], pp_packet_id = i, pp_timestamp_ns = i, pp_interface = [],
      pp_captured_length = 60, pp_wire_length = 60, pp_ip_version = 4, pp_src = ''a'',
      pp_dst = ''b'', pp_protocol = 17, pp_vlan_ids = [], pp_network_payload = [],
      pp_truncated = False, pp_fragment_id = None, pp_fragment_offset = 0,
      pp_more_fragments = False, pp_transport_parsed = True, pp_sport = 53, pp_dport = 53,
      pp_tcp_seq = 0, pp_tcp_ack = 0, pp_tcp_flags = 0, pp_transport_payload = [],
      pp_source_packet_ids = []\<rparr>"

definition fwd_suppressor :: Suppressor where
  "fwd_suppressor = \<lparr>su_max_bytes = 64, su_max_entries = 4, su_age_ns = 1000, su_accepted = [],
     su_key_bytes = 0, su_next_expire_ns = 0, su_expired = 0, su_evicted = 0\<rparr>"

lemma fwd_suppressor_init: "suppressor_init [2, 0, 0, 0, 0, 1] 64 4 1000 = Inr fwd_suppressor"
  by (simp add: suppressor_init_def fwd_suppressor_def)

definition fwd_frames :: "(int, ForwardedFrame) odict" where
  "fwd_frames = [(1, fwd_frame Ingress 64 1 7), (2, fwd_frame Egress 63 2 263), (3, fwd_frame Egress 63 3 263)]"

text \<open>A plan splits its batch: the retained packets are a subsequence of the batch, and every packet of
  the batch is either retained or the forwarded half of exactly one pair; the pairs with earlier batches are
  some of the pairs; without queue pressure every packet is retained and nothing is skipped.\<close>

theorem plan_partitions_batch:
  assumes "suppressor_plan s packets frames pressure = Inr (s1, plan)"
  shows "subseq (dp_retained plan) packets \<and> subseq (dp_prior_pairs plan) (dp_pairs plan)
     \<and> mset (map pp_packet_id packets) = mset (map pp_packet_id (dp_retained plan)) + mset (map fst (dp_pairs plan))
     \<and> (\<not> pressure \<longrightarrow> dp_retained plan = packets \<and> dp_pairs plan = [])"
  using fold_plan_partitions [of packets s1 frames pressure] fold_plan_relaxed [of packets s1 frames] plan_Inr [OF assms]
  by (auto simp: partitions_def relaxed_def)

lemma fwd_plan_run:
  "case suppressor_plan fwd_suppressor [fwd_packet 1, fwd_packet 2, fwd_packet 3] fwd_frames True of
     Inr (s1, plan) \<Rightarrow> map pp_packet_id (dp_retained plan) = [1, 3] \<and> dp_pairs plan = [(2, 1)]
   | Inl _ \<Rightarrow> False"
  by (simp add: suppressor_plan_def suppressor_expire_def latest_timestamp_def plan_packet_def try_candidate_def
      fresh_entry_def checksum_matches_def empty_plan_def fwd_suppressor_def fwd_frames_def fwd_frame_def fwd_packet_def
      od_get_def)

lemma fwd_plan_ex:
  obtains s1 plan where "suppressor_plan fwd_suppressor [fwd_packet 1, fwd_packet 2, fwd_packet 3] fwd_frames True = Inr (s1, plan)"
    "map pp_packet_id (dp_retained plan) = [1, 3]" "dp_pairs plan = [(2, 1)]"
  using fwd_plan_run by (auto split: sum.splits prod.splits)

theorem plan_partitions_batch_witness:
  "\<exists>s1 plan. suppressor_plan fwd_suppressor [fwd_packet 1, fwd_packet 2, fwd_packet 3] fwd_frames True = Inr (s1, plan)
     \<and> subseq (dp_retained plan) [fwd_packet 1, fwd_packet 2, fwd_packet 3] \<and> dp_pairs plan = [(2, 1)]"
  by (rule fwd_plan_ex) (metis plan_partitions_batch)



text \<open>C12: over any sequence of batches, admitted or rejected, from a new suppressor, planning and committing
  never raise, and the ingress ids of all the skips together with the ids still in the table are, counted with
  multiplicity, among the ingress frames of the admitted batches: an ingress frame justifies at most one skip
  ever, and one whose batch was rejected justifies none.\<close>

theorem suppressor_one_to_one:
  assumes "suppressor_init mac max_bytes max_entries age = Inr s"
  shows "\<exists>t skips. suppressor_run batches s = Inr (t, skips)
     \<and> mset (map snd skips) \<subseteq># (\<Sum>b\<leftarrow>batches. admitted_ids b)
     \<and> mset (map snd skips) + held_ids (su_accepted t) \<subseteq># (\<Sum>b\<leftarrow>batches. admitted_ids b)"
proof -
  have "suppressor_ok s" "held_ids (su_accepted s) = {#}" using assms
    by (auto simp: suppressor_init_def suppressor_ok_def suppressor_core_def suppressor_over_def sk.exact_def split: if_splits)
  with suppressor_run_keeps [of s batches] show ?thesis
    by (auto intro: subset_mset.order_trans [OF mset_subset_eq_add_left])
qed

theorem suppressor_one_to_one_witness:
  "\<exists>t skips. suppressor_run [([fwd_packet 1, fwd_packet 2], fwd_frames, True, True)] fwd_suppressor = Inr (t, skips)
     \<and> mset (map snd skips) \<subseteq># {#1#}"
  using suppressor_one_to_one [OF fwd_suppressor_init, of "[([fwd_packet 1, fwd_packet 2], fwd_frames, True, True)]"]
  by (auto simp: admitted_ids_def batch_ids_def ingress_frame_def fwd_frames_def fwd_frame_def fwd_packet_def od_get_def)

text \<open>Over any sequence of batches the table stays within its limits on keys and bytes, its byte counter
  is exactly the total length of the keys it holds, and every key has between one and eight copies.\<close>

theorem suppressor_bounded:
  assumes "suppressor_init mac max_bytes max_entries age = Inr s"
  shows "\<exists>t skips. suppressor_run batches s = Inr (t, skips) \<and> od_ok (su_accepted t)
     \<and> int (length (su_accepted t)) \<le> max_entries
     \<and> su_key_bytes t = (\<Sum>e\<leftarrow>su_accepted t. int (length (fst (fst e)))) \<and> su_key_bytes t \<le> max_bytes
     \<and> (\<forall>(key, copies) \<in> set (su_accepted t). copies \<noteq> [] \<and> length copies \<le> 8)"
proof -
  have s: "suppressor_ok s" "suppressor_limits s = (max_bytes, max_entries, age)" using assms
    by (auto simp: suppressor_init_def suppressor_ok_def suppressor_core_def suppressor_over_def sk.exact_def
        suppressor_limits_def split: if_splits)
  from suppressor_run_keeps [OF s(1), of batches] obtain t skips where
    t: "suppressor_run batches s = Inr (t, skips)" "suppressor_ok t" "suppressor_limits t = suppressor_limits s" by blast
  have "od_sum (\<lambda>k _. int (length (fst k))) d = (\<Sum>e\<leftarrow>d. int (length (fst (fst e))))" for d :: "(match_key, match_entry list) odict"
    by (induction d) auto
  moreover have "\<forall>(key, copies) \<in> set (su_accepted t). copies \<noteq> [] \<and> length copies \<le> 8"
    using t(2) by (force simp: suppressor_ok_def suppressor_core_def copies_ok_def MAX_INGRESS_COPIES_PER_KEY_def)
  ultimately show ?thesis using t s(2)
    by (auto simp: suppressor_ok_def suppressor_core_def suppressor_over_def sk.exact_def suppressor_limits_def)
qed

theorem suppressor_bounded_witness:
  "\<exists>t skips. suppressor_run [([fwd_packet 1, fwd_packet 2], fwd_frames, True, True)] fwd_suppressor = Inr (t, skips)
     \<and> length (su_accepted t) \<le> 4"
  using suppressor_bounded [OF fwd_suppressor_init, of "[([fwd_packet 1, fwd_packet 2], fwd_frames, True, True)]"] by fastforce

text \<open>An ingress frame and its forwarded copy.\<close>

definition fwd_raw :: "bytes \<Rightarrow> bytes \<Rightarrow> byte \<Rightarrow> byte \<Rightarrow> bytes" where
  "fwd_raw dst src ttl ck = dst @ src @ [8, 0, 69, 0, 0, 20, 0, 0, 0, 0, ttl, 17, ck, 0xD7, 10, 0, 0, 1, 10, 0, 0, 2]"

definition fwd_captured :: "int \<Rightarrow> bytes \<Rightarrow> CapturedPacket" where
  "fwd_captured i raw = \<lparr>cp_session_id = [], cp_packet_id = i, cp_timestamp_ns = i, cp_interface = [],
     cp_datalink = DLT_EN10MB, cp_captured_length = 34, cp_wire_length = 34, cp_raw = raw\<rparr>"

theorem same_key_same_datagram_witness:
  "\<exists>f f' (off::nat) (n::nat). describe_forwarded_frame (fwd_captured 1 (fwd_raw [2, 0, 0, 0, 0, 1] [2, 0, 0, 0, 0, 2] 2 0xA4))
       (fwd_packet 1) [2, 0, 0, 0, 0, 1] = Some f
     \<and> describe_forwarded_frame (fwd_captured 2 (fwd_raw [2, 0, 0, 0, 0, 3] [2, 0, 0, 0, 0, 1] 1 0xA5))
       (fwd_packet 2) [2, 0, 0, 0, 0, 1] = Some f' \<and> ff_role f = Ingress \<and> ff_role f' = Egress \<and> 20 \<le> n \<and> off + n \<le> 34"
proof -
  let ?d = "describe_forwarded_frame (fwd_captured 1 (fwd_raw [2, 0, 0, 0, 0, 1] [2, 0, 0, 0, 0, 2] 2 0xA4))
       (fwd_packet 1) [2, 0, 0, 0, 0, 1]"
  let ?e = "describe_forwarded_frame (fwd_captured 2 (fwd_raw [2, 0, 0, 0, 0, 3] [2, 0, 0, 0, 0, 1] 1 0xA5))
       (fwd_packet 2) [2, 0, 0, 0, 0, 1]"
  have "map_option ff_role ?d = Some Ingress \<and> map_option ff_role ?e = Some Egress \<and> map_option ff_key ?d = map_option ff_key ?e"
    by (simp add: describe_forwarded_frame_def fwd_captured_def fwd_raw_def fwd_packet_def frame_role_of_def
        skip_tags.simps VLAN_ETHERTYPES_def ETHERTYPE_IPV4_def describe_ipv4_def from_be_def py_slice_def drop_bit_eq_div Let_def)
  then obtain f f' where f: "?d = Some f" "?e = Some f'" "ff_role f = Ingress" "ff_role f' = Egress" "ff_key f = ff_key f'" by auto
  from same_key_same_datagram [OF f(1,2,5)] obtain off n :: nat where "20 \<le> n"
    "off + n \<le> length (cp_raw (fwd_captured 1 (fwd_raw [2, 0, 0, 0, 0, 1] [2, 0, 0, 0, 0, 2] 2 0xA4)))" by blast
  then have "20 \<le> n" "off + n \<le> 34" by (simp_all add: fwd_captured_def fwd_raw_def)
  with f show ?thesis by blast
qed

end
