(* ===== verification/Config.thy ===== *)
theory Config
  imports Prelude Ordered_Dict
begin

text \<open>
  \<open>AuditConfig\<close> (\<open>packet_audit/config.py\<close>): the dictionary a TOML file parses to, the section and
  key checks of \<open>from_toml\<close>, the dataclass defaults, and \<open>validate\<close>. A configuration object is its
  attributes in declaration order, each holding a dynamically typed value, because \<open>validate\<close> tests
  the types at run time. What the environment supplies is an argument: the parsed document
  (\<open>tomllib.loads\<close>), \<open>os.cpu_count\<close> and the resolution of a path against the file system
  (\<open>Path.resolve\<close>). Text is over the first 256 code points.
\<close>

section \<open>Values\<close>

datatype pyval =
    PyInt int
  | PyBool bool
  | PyFloat
  | PyDateTime
  | PyStr string
  | PyPath string
  | PyList "pyval list"
  | PyTuple "pyval list"
  | PyTable "(string \<times> pyval) list"

type_synonym toml_table = "(string, pyval) odict"
type_synonym AuditConfig = "(string, pyval) odict"

definition is_int :: "pyval \<Rightarrow> bool" where
  "is_int v = (case v of PyInt _ \<Rightarrow> True | _ \<Rightarrow> False)"

definition is_bool :: "pyval \<Rightarrow> bool" where
  "is_bool v = (case v of PyBool _ \<Rightarrow> True | _ \<Rightarrow> False)"

definition is_str :: "pyval \<Rightarrow> bool" where
  "is_str v = (case v of PyStr _ \<Rightarrow> True | _ \<Rightarrow> False)"

definition is_path :: "pyval \<Rightarrow> bool" where
  "is_path v = (case v of PyPath _ \<Rightarrow> True | _ \<Rightarrow> False)"

text \<open>\<open>repr\<close> of a string: single quotes unless only those occur in it, the usual escapes.\<close>

definition repr_char :: "char \<Rightarrow> char \<Rightarrow> string" where
  "repr_char quote c =
     (let n = of_char c :: nat in
      if c = quote \<or> n = 92 then [CHR 0x5C, c]
      else if n = 9 then [CHR 0x5C, CHR ''t'']
      else if n = 10 then [CHR 0x5C, CHR ''n'']
      else if n = 13 then [CHR 0x5C, CHR ''r'']
      else if n < 32 \<or> (127 \<le> n \<and> n \<le> 160) \<or> n = 173
        then [CHR 0x5C, CHR ''x'', digit_char (n div 16), digit_char (n mod 16)]
      else [c])"

definition py_repr :: "string \<Rightarrow> string" where
  "py_repr s =
     (let quote = (if CHR 0x27 \<in> set s \<and> CHR 0x22 \<notin> set s then CHR 0x22 else CHR 0x27) in
      [quote] @ concat (map (repr_char quote) s) @ [quote])"

text \<open>\<open>bool(s.strip())\<close>.\<close>

definition py_space :: "char \<Rightarrow> bool" where
  "py_space c = (let n = of_char c :: nat in (9 \<le> n \<and> n \<le> 13) \<or> (28 \<le> n \<and> n \<le> 32) \<or> n = 133 \<or> n = 160)"

definition strip_nonempty :: "string \<Rightarrow> bool" where
  "strip_nonempty s = list_ex (\<lambda>c. \<not> py_space c) s"

section \<open>Sections and defaults\<close>

definition CONFIG_SECTION_KEYS :: "(string \<times> string list) list" where
  "CONFIG_SECTION_KEYS =
     [(''capture'', [''interface'', ''bpf'', ''workers'', ''queue_size'', ''max_worker_queue_bytes'',
        ''snaplen'', ''capture_buffer_mb'', ''promiscuous'', ''read_timeout_ms'', ''capture_batch_size'',
        ''forwarded_duplicate_suppression'']),
      (''analysis'', [''flow_idle_seconds'', ''fragment_idle_seconds'', ''max_flows_per_worker'',
        ''max_stream_bytes_per_direction'', ''max_out_of_order_bytes_per_direction'',
        ''max_reassembly_bytes_per_worker'', ''detector_overlap_bytes'', ''max_detector_bytes_per_worker'',
        ''max_fragment_routes'', ''heartbeat_seconds'', ''generic_secret_scan'', ''credit_card_scan'',
        ''extra_sensitive_field_names'']),
      (''output'', [''output_jsonl'', ''operational_jsonl'', ''console_findings'', ''console_unredacted'']),
      (''raw_capture'', [''raw_capture_enabled'', ''raw_capture_dir'', ''raw_capture_file_mb'',
        ''raw_capture_files'', ''raw_capture_duration_seconds'', ''dumpcap_path'',
        ''stop_on_raw_capture_failure''])]"

definition section_names :: "string list" where
  "section_names = map fst CONFIG_SECTION_KEYS"

definition config_vlan_ethertypes :: "nat list" where
  "config_vlan_ethertypes = [0x8100, 0x88A8, 0x9100, 0x9200]"

text \<open>\<open>f"{n:04x}"\<close>.\<close>

definition hex4 :: "nat \<Rightarrow> string" where
  "hex4 n = (let h = hex_nat n in replicate (4 - length h) (CHR ''0'') @ h)"

definition DEFAULT_BPF :: string where
  "DEFAULT_BPF = ''ip or ip6 or '' @ str_join '' or ''
     (concat (map (\<lambda>offset. map (\<lambda>ethertype.
        ''link['' @ str_nat offset @ '':2] = 0x'' @ hex4 ethertype) config_vlan_ethertypes) [12, 14, 0]))"

definition default_workers :: "nat option \<Rightarrow> int" where
  "default_workers cpu_count =
     (let n = (case cpu_count of None \<Rightarrow> 2 | Some c \<Rightarrow> if c = 0 then 2 else int c) in max 1 (min 8 (n - 1)))"

definition default_config :: "nat option \<Rightarrow> AuditConfig" where
  "default_config cpu_count =
     [(''interface'', PyStr ''eth0''), (''bpf'', PyStr DEFAULT_BPF),
      (''workers'', PyInt (default_workers cpu_count)), (''queue_size'', PyInt 2048),
      (''max_worker_queue_bytes'', PyInt (128 * 1024 * 1024)), (''snaplen'', PyInt 262144),
      (''capture_buffer_mb'', PyInt 128), (''promiscuous'', PyBool True), (''read_timeout_ms'', PyInt 100),
      (''flow_idle_seconds'', PyInt 300), (''fragment_idle_seconds'', PyInt 30),
      (''max_flows_per_worker'', PyInt 20000), (''max_stream_bytes_per_direction'', PyInt (2 * 1024 * 1024)),
      (''max_out_of_order_bytes_per_direction'', PyInt (512 * 1024)),
      (''max_reassembly_bytes_per_worker'', PyInt (128 * 1024 * 1024)),
      (''detector_overlap_bytes'', PyInt (128 * 1024)),
      (''max_detector_bytes_per_worker'', PyInt (128 * 1024 * 1024)), (''max_fragment_routes'', PyInt 65536),
      (''heartbeat_seconds'', PyInt 10), (''output_jsonl'', PyPath ''./evidence/findings-unredacted.jsonl''),
      (''operational_jsonl'', PyPath ''./evidence/operations.jsonl''), (''console_findings'', PyBool False),
      (''console_unredacted'', PyBool False), (''raw_capture_enabled'', PyBool True),
      (''raw_capture_dir'', PyPath ''./evidence/pcap-ring''), (''raw_capture_file_mb'', PyInt 256),
      (''raw_capture_files'', PyInt 24), (''raw_capture_duration_seconds'', PyInt 300),
      (''dumpcap_path'', PyStr ''dumpcap''), (''stop_on_raw_capture_failure'', PyBool True),
      (''generic_secret_scan'', PyBool True), (''credit_card_scan'', PyBool True),
      (''capture_batch_size'', PyInt 128), (''forwarded_duplicate_suppression'', PyBool False),
      (''extra_sensitive_field_names'', PyTuple [])]"

section \<open>Validation\<close>

text \<open>An attribute; an absent one reads as a value that fails every check.\<close>

definition attr :: "AuditConfig \<Rightarrow> string \<Rightarrow> pyval" where
  "attr cfg name = (case od_get cfg name of None \<Rightarrow> PyFloat | Some v \<Rightarrow> v)"

text \<open>The number in an attribute; only read after the type checks passed.\<close>

definition num :: "AuditConfig \<Rightarrow> string \<Rightarrow> int" where
  "num cfg name = (case attr cfg name of PyInt i \<Rightarrow> i | _ \<Rightarrow> 0)"

definition text_of :: "pyval \<Rightarrow> string" where
  "text_of v = (case v of PyStr s \<Rightarrow> s | PyPath s \<Rightarrow> s | _ \<Rightarrow> [])"

definition integer_fields :: "string list" where
  "integer_fields =
     [''workers'', ''queue_size'', ''max_worker_queue_bytes'', ''snaplen'', ''capture_buffer_mb'',
      ''read_timeout_ms'', ''flow_idle_seconds'', ''fragment_idle_seconds'', ''max_flows_per_worker'',
      ''max_stream_bytes_per_direction'', ''max_out_of_order_bytes_per_direction'',
      ''max_reassembly_bytes_per_worker'', ''detector_overlap_bytes'', ''max_detector_bytes_per_worker'',
      ''max_fragment_routes'', ''heartbeat_seconds'', ''raw_capture_file_mb'', ''raw_capture_files'',
      ''raw_capture_duration_seconds'', ''capture_batch_size'']"

definition boolean_fields :: "string list" where
  "boolean_fields =
     [''promiscuous'', ''console_findings'', ''console_unredacted'', ''raw_capture_enabled'',
      ''stop_on_raw_capture_failure'', ''generic_secret_scan'', ''credit_card_scan'',
      ''forwarded_duplicate_suppression'']"

text \<open>A sequence of \<open>if \<dots>: raise ValueError(\<dots>)\<close>: the first condition that holds decides.\<close>

fun first_failure :: "(bool \<times> string) list \<Rightarrow> unit result" where
  "first_failure [] = Inr ()"
| "first_failure ((bad, msg) # checks) = (if bad then Inl (ValueError msg) else first_failure checks)"

definition type_checks :: "AuditConfig \<Rightarrow> (bool \<times> string) list" where
  "type_checks cfg =
     map (\<lambda>name. (\<not> is_int (attr cfg name), name @ '' must be an integer'')) integer_fields
     @ map (\<lambda>name. (\<not> is_bool (attr cfg name), name @ '' must be true or false'')) boolean_fields"

definition capture_checks :: "AuditConfig \<Rightarrow> (bool \<times> string) list" where
  "capture_checks cfg =
     [(\<not> is_str (attr cfg ''interface'') \<or> text_of (attr cfg ''interface'') = [], ''capture interface cannot be empty''),
      (\<not> is_str (attr cfg ''bpf''), ''bpf must be a string''),
      (\<not> (1 \<le> num cfg ''workers'' \<and> num cfg ''workers'' \<le> 64), ''workers must be between 1 and 64''),
      (\<not> (8 \<le> num cfg ''queue_size'' \<and> num cfg ''queue_size'' \<le> 4096), ''queue_size must be between 8 and 4096 batches''),
      (\<not> (1 * 1024 * 1024 \<le> num cfg ''max_worker_queue_bytes'' \<and> num cfg ''max_worker_queue_bytes'' \<le> 2 * 1024 * 1024 * 1024),
       ''max_worker_queue_bytes must be between 1048576 and 2147483648''),
      (\<not> (65535 \<le> num cfg ''snaplen'' \<and> num cfg ''snaplen'' \<le> 16 * 1024 * 1024), ''snaplen must be between 65535 and 16777216 bytes''),
      (\<not> (1 \<le> num cfg ''capture_buffer_mb'' \<and> num cfg ''capture_buffer_mb'' \<le> 16384), ''capture_buffer_mb must be between 1 and 16384''),
      (\<not> (1 \<le> num cfg ''read_timeout_ms'' \<and> num cfg ''read_timeout_ms'' \<le> 5000), ''read_timeout_ms must be between 1 and 5000''),
      (\<not> (1 \<le> num cfg ''capture_batch_size'' \<and> num cfg ''capture_batch_size'' \<le> 65536), ''capture_batch_size must be between 1 and 65536''),
      (num cfg ''max_worker_queue_bytes'' < num cfg ''snaplen'' * num cfg ''capture_batch_size'',
       ''max_worker_queue_bytes must hold one worst-case capture batch''),
      (num cfg ''workers'' * num cfg ''max_worker_queue_bytes'' > 2 * 1024 * 1024 * 1024,
       ''aggregate worker queue byte budget must not exceed 2147483648'')]"

definition analysis_checks :: "AuditConfig \<Rightarrow> (bool \<times> string) list" where
  "analysis_checks cfg =
     [(num cfg ''flow_idle_seconds'' \<le> 0, ''flow_idle_seconds must be positive''),
      (num cfg ''fragment_idle_seconds'' \<le> 0, ''fragment_idle_seconds must be positive''),
      (num cfg ''max_flows_per_worker'' < 1, ''max_flows_per_worker must be positive''),
      (num cfg ''max_stream_bytes_per_direction'' < 1, ''max_stream_bytes_per_direction must be positive''),
      (num cfg ''max_out_of_order_bytes_per_direction'' < 1, ''max_out_of_order_bytes_per_direction must be positive''),
      (num cfg ''max_reassembly_bytes_per_worker'' < num cfg ''max_out_of_order_bytes_per_direction'',
       ''max_reassembly_bytes_per_worker must cover one out-of-order direction''),
      (num cfg ''detector_overlap_bytes'' < 4096, ''detector_overlap_bytes must be at least 4096''),
      (num cfg ''max_stream_bytes_per_direction'' < num cfg ''detector_overlap_bytes'',
       ''stream cap must be at least as large as detector overlap''),
      (num cfg ''max_detector_bytes_per_worker'' < 2 * num cfg ''detector_overlap_bytes'',
       ''max_detector_bytes_per_worker must hold two detector overlap windows''),
      (\<not> (1024 \<le> num cfg ''max_fragment_routes'' \<and> num cfg ''max_fragment_routes'' \<le> 10000000),
       ''max_fragment_routes must be between 1024 and 10000000''),
      (num cfg ''heartbeat_seconds'' \<le> 0, ''heartbeat_seconds must be positive''),
      (num cfg ''read_timeout_ms'' > num cfg ''heartbeat_seconds'' * 1000, ''read_timeout_ms must not exceed the heartbeat interval'')]"

definition extra_names_ok :: "pyval \<Rightarrow> bool" where
  "extra_names_ok v =
     (case v of PyTuple vs \<Rightarrow> list_all (\<lambda>x. is_str x \<and> strip_nonempty (text_of x)) vs | _ \<Rightarrow> False)"

definition output_checks :: "(string \<Rightarrow> string) \<Rightarrow> AuditConfig \<Rightarrow> (bool \<times> string) list" where
  "output_checks resolve cfg =
     [(\<not> (is_path (attr cfg ''output_jsonl'') \<and> is_path (attr cfg ''operational_jsonl'') \<and> is_path (attr cfg ''raw_capture_dir'')),
       ''output and raw capture paths must be pathlib.Path values''),
      (resolve (text_of (attr cfg ''output_jsonl'')) = resolve (text_of (attr cfg ''operational_jsonl'')),
       ''findings and operational JSONL paths must be different''),
      (\<not> is_str (attr cfg ''dumpcap_path'') \<or> text_of (attr cfg ''dumpcap_path'') = [], ''dumpcap_path cannot be empty''),
      (num cfg ''raw_capture_file_mb'' < 1, ''raw_capture_file_mb must be positive''),
      (num cfg ''raw_capture_files'' < 1, ''raw_capture_files must be positive''),
      (num cfg ''raw_capture_duration_seconds'' < 1, ''raw_capture_duration_seconds must be positive''),
      (\<not> extra_names_ok (attr cfg ''extra_sensitive_field_names''),
       ''extra_sensitive_field_names must be a tuple of non-empty strings'')]"

definition validate :: "(string \<Rightarrow> string) \<Rightarrow> AuditConfig \<Rightarrow> unit result" where
  "validate resolve cfg =
     first_failure (type_checks cfg @ capture_checks cfg @ analysis_checks cfg @ output_checks resolve cfg)"

section \<open>Reading a document\<close>

definition check_sections :: "toml_table \<Rightarrow> unit result" where
  "check_sections raw =
     (let unknown = sort (filter (\<lambda>s. s \<notin> set section_names) (remdups (od_keys raw))) in
      if unknown \<noteq> []
      then Inl (ValueError (''unknown top-level configuration section(s): ''
                  @ str_join '', '' (map (\<lambda>n. ''['' @ n @ '']'') unknown)))
      else Inr ())"

fun read_sections :: "toml_table \<Rightarrow> string list \<Rightarrow> (string \<times> toml_table) list result" where
  "read_sections raw [] = Inr []"
| "read_sections raw (name # names) =
     (case od_get raw name of
        None \<Rightarrow> bindE (read_sections raw names) (\<lambda>rest. Inr ((name, []) # rest))
      | Some (PyTable t) \<Rightarrow> bindE (read_sections raw names) (\<lambda>rest. Inr ((name, t) # rest))
      | Some _ \<Rightarrow> Inl (ValueError (''configuration section ['' @ name @ ''] must be a table'')))"

definition locations :: "(string \<times> toml_table) list \<Rightarrow> string \<Rightarrow> string list" where
  "locations sections key = map fst (filter (\<lambda>s. key \<in> set (od_keys (snd s))) sections)"

definition check_duplicates :: "(string \<times> toml_table) list \<Rightarrow> unit result" where
  "check_duplicates sections =
     (let keys = from_keys (concat (map (\<lambda>s. od_keys (snd s)) sections));
          duplicate = sort (filter (\<lambda>k. length (locations sections k) > 1) keys) in
      if duplicate \<noteq> []
      then Inl (ValueError (''configuration key(s) appear in multiple sections: ''
                  @ str_join ''; '' (map (\<lambda>k. py_repr k @ '' in ''
                      @ str_join '', '' (map (\<lambda>n. ''['' @ n @ '']'') (sort (locations sections k)))) duplicate)))
      else Inr ())"

fun check_keys :: "(string \<times> string list) list \<Rightarrow> (string \<times> toml_table) list \<Rightarrow> unit result" where
  "check_keys [] sections = Inr ()"
| "check_keys ((name, allowed) # rest) sections =
     (let table = (case od_get sections name of None \<Rightarrow> [] | Some t \<Rightarrow> t);
          unknown = sort (filter (\<lambda>k. k \<notin> set allowed) (remdups (od_keys table))) in
      if unknown \<noteq> []
      then Inl (ValueError (''unknown configuration key(s) in ['' @ name @ '']: '' @ str_join '', '' (map py_repr unknown)))
      else check_keys rest sections)"

text \<open>\<open>flat.update(\<dots>)\<close>: store every item in turn.\<close>

definition od_update :: "('k, 'v) odict \<Rightarrow> ('k, 'v) odict \<Rightarrow> ('k, 'v) odict" where
  "od_update d items = fold (\<lambda>(k, v). od_put k v) items d"

definition flatten :: "(string \<times> toml_table) list \<Rightarrow> toml_table" where
  "flatten sections = fold (\<lambda>s flat. od_update flat (snd s)) sections []"

fun convert_paths :: "string list \<Rightarrow> toml_table \<Rightarrow> toml_table result" where
  "convert_paths [] flat = Inr flat"
| "convert_paths (key # keys) flat =
     (case od_get flat key of
        None \<Rightarrow> convert_paths keys flat
      | Some (PyStr s) \<Rightarrow> convert_paths keys (od_put key (PyPath s) flat)
      | Some _ \<Rightarrow> Inl (ValueError (key @ '' must be a TOML string path'')))"

definition convert_extra :: "toml_table \<Rightarrow> toml_table result" where
  "convert_extra flat =
     (case od_get flat ''extra_sensitive_field_names'' of
        None \<Rightarrow> Inr flat
      | Some (PyList vs) \<Rightarrow>
          (if list_all is_str vs then Inr (od_put ''extra_sensitive_field_names'' (PyTuple vs) flat)
           else Inl (ValueError ''extra_sensitive_field_names must be a TOML array of strings''))
      | Some _ \<Rightarrow> Inl (ValueError ''extra_sensitive_field_names must be a TOML array of strings''))"

definition path_fields :: "string list" where
  "path_fields = [''output_jsonl'', ''operational_jsonl'', ''raw_capture_dir'']"

text \<open>\<open>cls(**flat)\<close>: every attribute from the arguments, else its default.\<close>

definition construct_config :: "nat option \<Rightarrow> toml_table \<Rightarrow> AuditConfig" where
  "construct_config cpu_count flat =
     map (\<lambda>(name, default). (name, case od_get flat name of None \<Rightarrow> default | Some v \<Rightarrow> v)) (default_config cpu_count)"

definition from_toml :: "nat option \<Rightarrow> (string \<Rightarrow> string) \<Rightarrow> toml_table \<Rightarrow> AuditConfig result" where
  "from_toml cpu_count resolve raw =
     bindE (check_sections raw) (\<lambda>_.
     bindE (read_sections raw section_names) (\<lambda>sections.
     bindE (check_duplicates sections) (\<lambda>_.
     bindE (check_keys CONFIG_SECTION_KEYS sections) (\<lambda>_.
     bindE (convert_paths path_fields (flatten sections)) (\<lambda>flat.
     bindE (convert_extra flat) (\<lambda>flat'.
       let cfg = construct_config cpu_count flat' in
       bindE (validate resolve cfg) (\<lambda>_. Inr cfg)))))))"

section \<open>Validation\<close>

lemma first_failure_Inr_iff: "first_failure checks = Inr () \<longleftrightarrow> (\<forall>c \<in> set checks. \<not> fst c)"
  by (induction checks rule: first_failure.induct) auto

lemma first_failure_error: "first_failure checks = Inl e \<Longrightarrow> \<exists>msg. e = ValueError msg \<and> (True, msg) \<in> set checks"
  by (induction checks rule: first_failure.induct) (auto split: if_splits)

definition is_value_error :: "py_error \<Rightarrow> bool" where
  "is_value_error e = (case e of ValueError _ \<Rightarrow> True | _ \<Rightarrow> False)"

lemma raises_first_failure: "raises_only is_value_error (first_failure checks)"
  by (induction checks rule: first_failure.induct) (auto simp: is_value_error_def)

lemma validate_Inr_iff:
  "validate resolve cfg = Inr u \<longleftrightarrow>
     (\<forall>c \<in> set (type_checks cfg). \<not> fst c) \<and> (\<forall>c \<in> set (capture_checks cfg). \<not> fst c)
     \<and> (\<forall>c \<in> set (analysis_checks cfg). \<not> fst c) \<and> (\<forall>c \<in> set (output_checks resolve cfg). \<not> fst c)"
proof -
  have "validate resolve cfg = Inr u \<longleftrightarrow> validate resolve cfg = Inr ()" by (cases u) simp
  then show ?thesis unfolding validate_def first_failure_Inr_iff set_append by blast
qed

section \<open>Reading a document\<close>

definition table_of :: "toml_table \<Rightarrow> string \<Rightarrow> toml_table" where
  "table_of raw s = (case od_get raw s of Some (PyTable t) \<Rightarrow> t | _ \<Rightarrow> [])"

lemma read_sections_Inr:
  "read_sections raw names = Inr sections \<Longrightarrow> sections = map (\<lambda>s. (s, table_of raw s)) names"
  by (induction names arbitrary: sections)
    (auto simp: table_of_def split: option.splits pyval.splits)

lemma raises_read_sections: "raises_only is_value_error (read_sections raw names)"
  by (induction names) (auto simp: is_value_error_def split: option.splits pyval.splits)

lemma raises_check_keys: "raises_only is_value_error (check_keys allowed sections)"
  by (induction allowed sections rule: check_keys.induct) (auto simp: Let_def is_value_error_def)

lemma raises_convert_paths: "raises_only is_value_error (convert_paths keys flat)"
  by (induction keys flat rule: convert_paths.induct) (auto simp: is_value_error_def split: option.splits pyval.splits)

lemma raises_convert_extra: "raises_only is_value_error (convert_extra flat)"
  by (auto simp: convert_extra_def is_value_error_def split: option.splits pyval.splits)

lemma raises_checks:
  "raises_only is_value_error (check_sections raw)" "raises_only is_value_error (check_duplicates sections)"
  by (auto simp: check_sections_def check_duplicates_def Let_def is_value_error_def)

lemma sort_filter_Nil: "sort (filter P xs) = [] \<longleftrightarrow> (\<forall>x \<in> set xs. \<not> P x)"
  by (metis filter_empty_conv set_empty set_sort)

lemma check_sections_Inr: "check_sections raw = Inr u \<Longrightarrow> fst ` set raw \<subseteq> set section_names"
  by (auto simp: check_sections_def Let_def sort_filter_Nil od_keys_def split: if_splits)

lemma check_keys_Inr:
  "check_keys allowed sections = Inr u \<Longrightarrow> (s, keys) \<in> set allowed \<Longrightarrow> od_get sections s = Some t \<Longrightarrow>
     fst ` set t \<subseteq> set keys"
proof (induction allowed sections rule: check_keys.induct)
  case (2 name allow rest sections)
  then show ?case
    by (auto simp: Let_def sort_filter_Nil od_keys_def split: if_splits) blast
qed simp

lemma od_get_update:
  "od_ok items \<Longrightarrow> od_get (od_update d items) k = (case od_get items k of Some v \<Rightarrow> Some v | None \<Rightarrow> od_get d k)"
proof (induction items arbitrary: d)
  case (Cons e items)
  obtain k' v where e: "e = (k', v)" by (cases e)
  have ok: "od_ok items" using Cons.prems by (simp add: od_ok_def)
  have n: "od_get items k' = None" using Cons.prems e by (auto simp: od_ok_def od_get_None_iff)
  have "od_update d (e # items) = od_update (od_put k' v d) items" by (simp add: od_update_def e)
  moreover have "od_get (e # items) k = (if k = k' then Some v else od_get items k)" by (simp add: e od_get_def)
  ultimately show ?case using Cons.IH [OF ok] n by (auto split: option.splits)
qed (simp add: od_update_def)

definition toml_ok :: "toml_table \<Rightarrow> bool" where
  "toml_ok raw \<longleftrightarrow> od_ok raw \<and> (\<forall>s t. od_get raw s = Some (PyTable t) \<longrightarrow> od_ok t)"

definition owner :: "string \<Rightarrow> string option" where
  "owner key = map_option fst (find (\<lambda>s. key \<in> set (snd s)) CONFIG_SECTION_KEYS)"

definition toml_value :: "toml_table \<Rightarrow> string \<Rightarrow> pyval option" where
  "toml_value raw key = (case owner key of None \<Rightarrow> None | Some s \<Rightarrow> od_get (table_of raw s) key)"

lemma table_of_ok: "toml_ok raw \<Longrightarrow> od_ok (table_of raw s)"
  by (auto simp: toml_ok_def table_of_def split: option.splits pyval.splits)

text \<open>The keys of a section belong to it alone.\<close>

lemma owner_unique:
  "(s, keys) \<in> set CONFIG_SECTION_KEYS \<Longrightarrow> key \<in> set keys \<Longrightarrow> owner key = Some s"
  by (simp add: CONFIG_SECTION_KEYS_def owner_def) (elim disjE conjE; simp; elim disjE; simp)

lemma owner_Some: "owner key = Some s \<Longrightarrow> s \<in> set section_names"
  by (auto simp: owner_def section_names_def find_Some_iff) (metis fst_conv image_eqI nth_mem)

lemma flatten_get_list:
  assumes "\<And>s t. (s, t) \<in> set sections \<Longrightarrow> od_ok t \<and> (\<forall>k \<in> fst ` set t. owner k = Some s)" "distinct (map fst sections)"
  shows "od_get (fold (\<lambda>s flat. od_update flat (snd s)) sections d) key
     = (case owner key of None \<Rightarrow> od_get d key | Some s \<Rightarrow>
         (case od_get sections s of None \<Rightarrow> od_get d key | Some t \<Rightarrow>
           (case od_get t key of None \<Rightarrow> od_get d key | Some v \<Rightarrow> Some v)))"
  using assms
proof (induction sections arbitrary: d)
  case (Cons e sections)
  obtain s t where e: "e = (s, t)" by (cases e)
  have t: "od_ok t" "\<forall>k \<in> fst ` set t. owner k = Some s" using Cons.prems(1) e by auto
  have ns: "od_get sections s = None" using Cons.prems(2) e by (auto simp: od_get_None_iff)
  have get: "od_get (e # sections) s' = (if s' = s then Some t else od_get sections s')" for s' by (simp add: e od_get_def)
  have IH: "od_get (fold (\<lambda>s flat. od_update flat (snd s)) sections (od_update d t)) key
     = (case owner key of None \<Rightarrow> od_get (od_update d t) key | Some s \<Rightarrow>
         (case od_get sections s of None \<Rightarrow> od_get (od_update d t) key | Some t' \<Rightarrow>
           (case od_get t' key of None \<Rightarrow> od_get (od_update d t) key | Some v \<Rightarrow> Some v)))"
    by (rule Cons.IH) (use Cons.prems in auto)
  show ?case
  proof (cases "owner key = Some s")
    case True
    then show ?thesis using IH ns by (simp add: get [unfolded e] e od_get_update [OF t(1)] split: option.splits)
  next
    case False
    then have "od_get t key = None" using t(2) by (metis od_get_None_iff)
    then have "od_get (od_update d t) key = od_get d key" by (simp add: od_get_update [OF t(1)])
    then show ?thesis using IH False by (simp add: e get [unfolded e] split: option.splits)
  qed
qed (simp split: option.splits)

lemma section_names_distinct: "distinct section_names"
  by (simp add: section_names_def CONFIG_SECTION_KEYS_def)

lemma flatten_get:
  assumes "toml_ok raw" "check_keys CONFIG_SECTION_KEYS (map (\<lambda>s. (s, table_of raw s)) section_names) = Inr u"
  shows "od_get (flatten (map (\<lambda>s. (s, table_of raw s)) section_names)) key = toml_value raw key"
proof -
  let ?ss = "map (\<lambda>s. (s, table_of raw s)) section_names"
  have sec: "od_ok t \<and> (\<forall>k \<in> fst ` set t. owner k = Some s)" if st: "(s, t) \<in> set ?ss" for s t
  proof
    from st have t: "t = table_of raw s" "s \<in> set section_names" by auto
    then show "od_ok t" using table_of_ok [OF assms(1)] by simp
    from t(2) obtain keys where k: "(s, keys) \<in> set CONFIG_SECTION_KEYS" by (auto simp: section_names_def)
    have "od_get ?ss s = Some t" using t by (simp add: od_get_map_keys)
    from check_keys_Inr [OF assms(2) k this] owner_unique [OF k] show "\<forall>k \<in> fst ` set t. owner k = Some s" by blast
  qed
  have "distinct (map fst ?ss)" using section_names_distinct by (simp add: comp_def)
  from flatten_get_list [of ?ss "[]", OF sec this] show ?thesis
    unfolding flatten_def toml_value_def
    by (simp add: od_get_map_keys split: option.splits) (auto dest: owner_Some)
qed

text \<open>The two conversions, as one function of a key and its value.\<close>

definition converted :: "string \<Rightarrow> pyval \<Rightarrow> pyval" where
  "converted key v =
     (case v of PyStr s \<Rightarrow> if key \<in> set path_fields then PyPath s else v
      | PyList vs \<Rightarrow> if key = ''extra_sensitive_field_names'' then PyTuple vs else v
      | _ \<Rightarrow> v)"

lemma convert_paths_get:
  "convert_paths keys flat = Inr flat' \<Longrightarrow> distinct keys \<Longrightarrow>
     od_get flat' k = (if k \<in> set keys then map_option (\<lambda>v. PyPath (text_of v)) (od_get flat k) else od_get flat k)
     \<and> (k \<in> set keys \<longrightarrow> (\<forall>v. od_get flat k = Some v \<longrightarrow> is_str v))"
proof (induction keys arbitrary: flat)
  case (Cons key keys)
  show ?case
  proof (cases "od_get flat key")
    case None
    with Cons show ?thesis by auto
  next
    case (Some v)
    with Cons.prems(1) obtain s where s: "v = PyStr s" "convert_paths keys (od_put key (PyPath s) flat) = Inr flat'"
      by (auto split: pyval.splits)
    from Cons.IH [OF s(2)] Cons.prems(2) Some s(1) show ?thesis
      by (auto simp: text_of_def is_str_def split: if_splits)
  qed
qed simp

lemma convert_extra_get:
  "convert_extra flat = Inr flat' \<Longrightarrow>
     od_get flat' k = (if k = ''extra_sensitive_field_names'' then map_option (converted k) (od_get flat k) else od_get flat k)"
  by (auto simp: convert_extra_def converted_def split: option.splits pyval.splits if_splits)

lemma conversions_get:
  assumes "convert_paths path_fields flat = Inr flat'" "convert_extra flat' = Inr flat''"
  shows "od_get flat'' k = map_option (converted k) (od_get flat k)"
proof -
  have d: "distinct path_fields" "''extra_sensitive_field_names'' \<notin> set path_fields" by (simp_all add: path_fields_def)
  note p = convert_paths_get [OF assms(1) d(1), of k] and x = convert_extra_get [OF assms(2), of k]
  show ?thesis
  proof (cases "od_get flat k")
    case None
    then have "od_get flat' k = None" using p by simp
    then show ?thesis using x None by auto
  next
    case (Some v)
    show ?thesis
    proof (cases "k \<in> set path_fields")
      case True
      with p Some have "is_str v" by simp
      with True p x d(2) Some show ?thesis by (auto simp: converted_def is_str_def text_of_def split: pyval.splits)
    next
      case False
      with p x Some show ?thesis by (auto simp: converted_def split: pyval.splits)
    qed
  qed
qed

lemma from_tomlE:
  assumes "from_toml cpu_count resolve raw = Inr cfg"
  obtains flat flat' u where "fst ` set raw \<subseteq> set section_names"
    "check_keys CONFIG_SECTION_KEYS (map (\<lambda>s. (s, table_of raw s)) section_names) = Inr u"
    "convert_paths path_fields (flatten (map (\<lambda>s. (s, table_of raw s)) section_names)) = Inr flat"
    "convert_extra flat = Inr flat'" "cfg = construct_config cpu_count flat'" "validate resolve cfg = Inr ()"
  using assms unfolding from_toml_def
  by (elim bindE_Inr_E) (auto simp: Let_def dest!: read_sections_Inr check_sections_Inr)

text \<open>C37: what an accepted document gives: a configuration with exactly the declared attributes, that passed
  \<open>validate\<close>, in which an attribute holds the value the document stores under it in the one section that may
  hold it, with paths and the name list converted, and its default where the document is silent; and no section
  of the document holds a key that is not one of its own.\<close>

theorem from_toml_fields:
  assumes "toml_ok raw" "from_toml cpu_count resolve raw = Inr cfg"
  shows "map fst cfg = map fst (default_config cpu_count) \<and> validate resolve cfg = Inr ()
     \<and> (\<forall>name default. (name, default) \<in> set (default_config cpu_count) \<longrightarrow>
          (name, case toml_value raw name of None \<Rightarrow> default | Some v \<Rightarrow> converted name v) \<in> set cfg)
     \<and> (\<forall>s t. (s, PyTable t) \<in> set raw \<longrightarrow> (\<exists>keys. (s, keys) \<in> set CONFIG_SECTION_KEYS \<and> fst ` set t \<subseteq> set keys))"
proof -
  from assms(2) obtain flat flat' u where f: "fst ` set raw \<subseteq> set section_names"
    "check_keys CONFIG_SECTION_KEYS (map (\<lambda>s. (s, table_of raw s)) section_names) = Inr u"
    "convert_paths path_fields (flatten (map (\<lambda>s. (s, table_of raw s)) section_names)) = Inr flat"
    "convert_extra flat = Inr flat'" "cfg = construct_config cpu_count flat'" "validate resolve cfg = Inr ()"
    by (rule from_tomlE)
  have get: "od_get flat' k = map_option (converted k) (toml_value raw k)" for k
    using conversions_get [OF f(3,4)] flatten_get [OF assms(1) f(2)] by simp
  have "\<forall>name default. (name, default) \<in> set (default_config cpu_count) \<longrightarrow>
      (name, case toml_value raw name of None \<Rightarrow> default | Some v \<Rightarrow> converted name v) \<in> set cfg"
  proof (intro allI impI)
    fix name default assume "(name, default) \<in> set (default_config cpu_count)"
    then have "(name, case od_get flat' name of None \<Rightarrow> default | Some v \<Rightarrow> v) \<in> set cfg"
      unfolding f(5) construct_config_def by force
    then show "(name, case toml_value raw name of None \<Rightarrow> default | Some v \<Rightarrow> converted name v) \<in> set cfg"
      by (cases "toml_value raw name") (simp_all add: get)
  qed
  moreover have "\<exists>keys. (s, keys) \<in> set CONFIG_SECTION_KEYS \<and> fst ` set t \<subseteq> set keys" if st: "(s, PyTable t) \<in> set raw" for s t
  proof -
    have s: "s \<in> set section_names" using st f(1) by force
    then obtain keys where k: "(s, keys) \<in> set CONFIG_SECTION_KEYS" by (auto simp: section_names_def)
    have "od_get raw s = Some (PyTable t)" using st assms(1) by (simp add: toml_ok_def od_get_iff)
    then have "table_of raw s = t" by (simp add: table_of_def)
    with s have "od_get (map (\<lambda>s. (s, table_of raw s)) section_names) s = Some t" by (simp add: od_get_map_keys)
    from check_keys_Inr [OF f(2) k this] k show ?thesis by blast
  qed
  moreover have "map fst cfg = map fst (default_config cpu_count)" by (auto simp: f(5) construct_config_def)
  ultimately show ?thesis using f(6) by blast
qed

text \<open>A document is refused only by \<open>ValueError\<close>, whatever values of whatever types it holds.\<close>

theorem from_toml_raises_value_error:
  "from_toml cpu_count resolve raw = Inl e \<Longrightarrow> \<exists>msg. e = ValueError msg"
proof -
  have "raises_only is_value_error (from_toml cpu_count resolve raw)"
    unfolding from_toml_def Let_def validate_def
    by (intro raises_only_bindE raises_checks raises_read_sections raises_check_keys raises_convert_paths
        raises_convert_extra raises_first_failure) simp
  then show "from_toml cpu_count resolve raw = Inl e \<Longrightarrow> \<exists>msg. e = ValueError msg"
    by (cases e) (simp_all add: is_value_error_def)
qed

theorem from_toml_raises_value_error_witness:
  "\<exists>msg. Inl (ValueError msg) = from_toml None id [(''outptu'', PyTable [])]"
proof -
  have "case from_toml None id [(''outptu'', PyTable [])] of Inl _ \<Rightarrow> True | Inr _ \<Rightarrow> False"
    by (simp add: from_toml_def check_sections_def od_keys_def section_names_def CONFIG_SECTION_KEYS_def)
  then obtain e where e: "from_toml None id [(''outptu'', PyTable [])] = Inl e" by (auto split: sum.splits)
  from from_toml_raises_value_error [OF this] e show ?thesis by auto
qed

lemma default_workers_range: "1 \<le> default_workers cpu_count \<and> default_workers cpu_count \<le> 8"
  by (auto simp: default_workers_def Let_def)

lemma default_config_get: "(name, v) \<in> set (default_config c) \<Longrightarrow> od_get (default_config c) name = Some v"
  by (subst od_get_iff) (simp_all add: od_ok_def default_config_def)

lemma construct_config_get:
  "od_get (construct_config c flat) name
     = map_option (\<lambda>default. case od_get flat name of None \<Rightarrow> default | Some v \<Rightarrow> v) (od_get (default_config c) name)"
proof -
  have "od_get (map (\<lambda>(n, d). (n, f n d)) xs) name = map_option (f name) (od_get xs name)" for f xs
    by (induction xs) (auto simp: od_get_def)
  then show ?thesis by (simp add: construct_config_def)
qed

lemma toml_value_Nil [simp]: "toml_value [] name = None"
  by (simp add: toml_value_def table_of_def split: option.splits)

lemma default_ints [simp]:
  "od_get (default_config c) ''workers'' = Some (PyInt (default_workers c))"
  "od_get (default_config c) ''queue_size'' = Some (PyInt 2048)"
  "od_get (default_config c) ''max_worker_queue_bytes'' = Some (PyInt 134217728)"
  "od_get (default_config c) ''snaplen'' = Some (PyInt 262144)"
  "od_get (default_config c) ''capture_buffer_mb'' = Some (PyInt 128)"
  "od_get (default_config c) ''read_timeout_ms'' = Some (PyInt 100)"
  "od_get (default_config c) ''flow_idle_seconds'' = Some (PyInt 300)"
  "od_get (default_config c) ''fragment_idle_seconds'' = Some (PyInt 30)"
  "od_get (default_config c) ''max_flows_per_worker'' = Some (PyInt 20000)"
  "od_get (default_config c) ''max_stream_bytes_per_direction'' = Some (PyInt 2097152)"
  "od_get (default_config c) ''max_out_of_order_bytes_per_direction'' = Some (PyInt 524288)"
  "od_get (default_config c) ''max_reassembly_bytes_per_worker'' = Some (PyInt 134217728)"
  "od_get (default_config c) ''detector_overlap_bytes'' = Some (PyInt 131072)"
  "od_get (default_config c) ''max_detector_bytes_per_worker'' = Some (PyInt 134217728)"
  "od_get (default_config c) ''max_fragment_routes'' = Some (PyInt 65536)"
  "od_get (default_config c) ''heartbeat_seconds'' = Some (PyInt 10)"
  "od_get (default_config c) ''raw_capture_file_mb'' = Some (PyInt 256)"
  "od_get (default_config c) ''raw_capture_files'' = Some (PyInt 24)"
  "od_get (default_config c) ''raw_capture_duration_seconds'' = Some (PyInt 300)"
  "od_get (default_config c) ''capture_batch_size'' = Some (PyInt 128)"
  by (rule default_config_get, simp add: default_config_def)+

lemma default_others [simp]:
  "od_get (default_config c) ''interface'' = Some (PyStr ''eth0'')"
  "od_get (default_config c) ''bpf'' = Some (PyStr DEFAULT_BPF)"
  "od_get (default_config c) ''promiscuous'' = Some (PyBool True)"
  "od_get (default_config c) ''console_findings'' = Some (PyBool False)"
  "od_get (default_config c) ''console_unredacted'' = Some (PyBool False)"
  "od_get (default_config c) ''raw_capture_enabled'' = Some (PyBool True)"
  "od_get (default_config c) ''stop_on_raw_capture_failure'' = Some (PyBool True)"
  "od_get (default_config c) ''generic_secret_scan'' = Some (PyBool True)"
  "od_get (default_config c) ''credit_card_scan'' = Some (PyBool True)"
  "od_get (default_config c) ''forwarded_duplicate_suppression'' = Some (PyBool False)"
  "od_get (default_config c) ''output_jsonl'' = Some (PyPath ''./evidence/findings-unredacted.jsonl'')"
  "od_get (default_config c) ''operational_jsonl'' = Some (PyPath ''./evidence/operations.jsonl'')"
  "od_get (default_config c) ''raw_capture_dir'' = Some (PyPath ''./evidence/pcap-ring'')"
  "od_get (default_config c) ''dumpcap_path'' = Some (PyStr ''dumpcap'')"
  "od_get (default_config c) ''extra_sensitive_field_names'' = Some (PyTuple [])"
  by (rule default_config_get, simp add: default_config_def)+

lemma valid_by_groups:
  assumes "list_all (\<lambda>x. \<not> fst x) (type_checks cfg)" "list_all (\<lambda>x. \<not> fst x) (capture_checks cfg)"
    "list_all (\<lambda>x. \<not> fst x) (analysis_checks cfg)" "list_all (\<lambda>x. \<not> fst x) (output_checks resolve cfg)"
  shows "validate resolve cfg = Inr ()"
  using assms by (simp add: validate_Inr_iff list_all_iff)

lemmas check_defs = type_checks_def integer_fields_def boolean_fields_def capture_checks_def analysis_checks_def
  output_checks_def is_int_def is_bool_def is_str_def is_path_def text_of_def num_def attr_def extra_names_ok_def

lemma default_validates:
  assumes "resolve ''./evidence/findings-unredacted.jsonl'' \<noteq> resolve ''./evidence/operations.jsonl''"
  shows "validate resolve (default_config c) = Inr ()"
  by (rule valid_by_groups) (use assms default_workers_range [of c] in \<open>simp_all add: check_defs\<close>)

lemma from_toml_Nil: "from_toml c resolve [] = bindE (validate resolve (default_config c)) (\<lambda>_. Inr (default_config c))"
proof -
  have read: "read_sections [] names = Inr (map (\<lambda>s. (s, [])) names)" for names by (induction names) auto
  have keys: "check_keys allowed (map (\<lambda>s. (s, [])) section_names) = Inr ()" for allowed
    by (induction allowed) (auto simp: od_get_map_keys od_keys_def Let_def)
  have "check_sections [] = Inr ()" by (simp add: check_sections_def od_keys_def)
  moreover have "check_duplicates (map (\<lambda>s. (s, [])) names) = Inr ()" for names
    by (simp add: check_duplicates_def od_keys_def from_keys_def comp_def concat_eq_Nil_conv [THEN iffD2])
  moreover have "flatten (map (\<lambda>s. (s, [])) names) = []" for names
    unfolding flatten_def by (induction names) (simp_all add: od_update_def)
  ultimately show ?thesis
    by (simp add: from_toml_def read keys path_fields_def convert_extra_def construct_config_def Let_def)
qed

text \<open>An empty document gives the defaults on every machine, whatever its number of processors: they pass
  every check, provided only that the two default output paths resolve to different files.\<close>

theorem from_toml_defaults:
  assumes "resolve ''./evidence/findings-unredacted.jsonl'' \<noteq> resolve ''./evidence/operations.jsonl''"
  shows "from_toml cpu_count resolve [] = Inr (default_config cpu_count)"
  by (simp add: from_toml_Nil default_validates [OF assms])

theorem from_toml_defaults_witness: "from_toml (Some 64) id [] = Inr (default_config (Some 64))"
  by (rule from_toml_defaults) simp

definition sample_toml :: toml_table where
  "sample_toml = [(''output'', PyTable [(''output_jsonl'', PyStr ''a'')]), (''capture'', PyTable [(''workers'', PyInt 3)])]"

lemma sample_toml_ok: "toml_ok sample_toml"
  by (auto simp: toml_ok_def sample_toml_def od_ok_def od_get_def split: if_splits)

lemma sample_toml_runs:
  "from_toml c id sample_toml
     = Inr (construct_config c [(''workers'', PyInt 3), (''output_jsonl'', PyPath ''a'')])"
proof -
  let ?cfg = "construct_config c [(''workers'', PyInt 3), (''output_jsonl'', PyPath ''a'')]"
  have get: "od_get [(''workers'', PyInt 3), (''output_jsonl'', PyPath ''a'')] name
      = (if name = ''workers'' then Some (PyInt 3) else if name = ''output_jsonl'' then Some (PyPath ''a'') else None)" for name
    by (simp add: od_get_def)
  have v: "validate id ?cfg = Inr ()"
    by (rule valid_by_groups) (simp_all add: check_defs construct_config_get get)
  have "read_sections sample_toml section_names
      = Inr [(''capture'', [(''workers'', PyInt 3)]), (''analysis'', []), (''output'', [(''output_jsonl'', PyStr ''a'')]), (''raw_capture'', [])]"
    by (simp add: section_names_def CONFIG_SECTION_KEYS_def sample_toml_def od_get_def)
  moreover have "check_sections sample_toml = Inr ()"
    by (simp add: check_sections_def sample_toml_def od_keys_def section_names_def CONFIG_SECTION_KEYS_def)
  ultimately show ?thesis using v
    by (simp add: from_toml_def check_duplicates_def od_keys_def from_keys_def locations_def CONFIG_SECTION_KEYS_def
        od_get_def flatten_def od_update_def path_fields_def convert_extra_def)
qed

theorem from_toml_fields_witness:
  "\<exists>cfg. from_toml (Some 64) id sample_toml = Inr cfg \<and> (''workers'', PyInt 3) \<in> set cfg
     \<and> (''output_jsonl'', PyPath ''a'') \<in> set cfg"
proof -
  let ?cfg = "construct_config (Some 64) [(''workers'', PyInt 3), (''output_jsonl'', PyPath ''a'')]"
  note f = from_toml_fields [OF sample_toml_ok sample_toml_runs [of "Some 64"]]
  have "(''workers'', PyInt (default_workers (Some 64))) \<in> set (default_config (Some 64))"
    "(''output_jsonl'', PyPath ''./evidence/findings-unredacted.jsonl'') \<in> set (default_config (Some 64))"
    by (simp_all add: default_config_def)
  moreover have "toml_value sample_toml ''workers'' = Some (PyInt 3)" "toml_value sample_toml ''output_jsonl'' = Some (PyStr ''a'')"
    by (simp_all add: toml_value_def owner_def CONFIG_SECTION_KEYS_def table_of_def sample_toml_def od_get_def)
  ultimately have "(''workers'', PyInt 3) \<in> set ?cfg" "(''output_jsonl'', PyPath ''a'') \<in> set ?cfg"
    using f by (force simp: converted_def path_fields_def)+
  with sample_toml_runs show ?thesis by blast
qed

end
