(* ===== verification/Routing.thy ===== *)
theory Routing
  imports Models Ordered_Dict
begin

text \<open>
  Flow sharding of the supervisor (\<open>packet_audit/supervisor.py\<close>): the stable hash of a flow, the
  table that keeps the fragments of a datagram together, the table of flows that follow their first
  fragment, and the expiry of both. The 8-byte BLAKE2b digest, read as a big-endian number, is an
  argument; so is the monotonic clock, in nanoseconds.
\<close>

section \<open>Keys\<close>

definition stable_shard :: "(string \<Rightarrow> nat) \<Rightarrow> string \<Rightarrow> nat \<Rightarrow> nat result" where
  "stable_shard digest text workers =
     (if workers = 0 then Inl ZeroDivisionError else Inr (digest text mod workers))"

text \<open>\<open>f"{packet.fragment_id}"\<close> of an optional number.\<close>

definition str_opt_int :: "int option \<Rightarrow> string" where
  "str_opt_int o' = (case o' of None \<Rightarrow> ''None'' | Some i \<Rightarrow> str_int i)"

definition fragment_route_key :: "ParsedPacket \<Rightarrow> string" where
  "fragment_route_key packet =
     (let vlans = str_join '','' (map str_int (pp_vlan_ids packet)) in
      ''frag|'' @ pp_interface packet @ ''|'' @ vlans @ ''|'' @ str_int (pp_ip_version packet) @ ''|''
      @ pp_src packet @ ''|'' @ pp_dst packet @ ''|'' @ str_int (pp_protocol packet) @ ''|''
      @ str_opt_int (pp_fragment_id packet))"

definition fragment_flow_hint :: "ParsedPacket \<Rightarrow> string option" where
  "fragment_flow_hint packet =
     (if pp_fragment_offset packet \<noteq> 0 \<or> pp_protocol packet \<notin> {6, 17} then None
      else if length (pp_network_payload packet) < 4 then None
      else
        let sport = from_be (py_slice (pp_network_payload packet) 0 2);
            dport = from_be (py_slice (pp_network_payload packet) 2 4);
            (flow, _) = canonical (pp_protocol packet) (pp_src packet) (int sport) (pp_dst packet) (int dport)
                          (pp_interface packet) (pp_vlan_ids packet) in
        Some (stable_text flow))"

section \<open>The route tables\<close>

type_synonym routes = "(string, nat \<times> int) odict"

record Router =
  ro_workers :: nat
  ro_max_fragment_routes :: int
  ro_fragment_idle_ns :: int
  ro_flow_idle_ns :: int
  ro_fragment_routes :: routes
  ro_flow_route_overrides :: routes
  ro_fragment_route_evictions :: int
  ro_flow_route_override_evictions :: int
  ro_fragment_route_fallbacks :: int

definition router_init :: "nat \<Rightarrow> int \<Rightarrow> int \<Rightarrow> int \<Rightarrow> Router" where
  "router_init workers max_routes fragment_idle flow_idle =
     \<lparr>ro_workers = workers, ro_max_fragment_routes = max_routes, ro_fragment_idle_ns = fragment_idle,
      ro_flow_idle_ns = flow_idle, ro_fragment_routes = [], ro_flow_route_overrides = [],
      ro_fragment_route_evictions = 0, ro_flow_route_override_evictions = 0, ro_fragment_route_fallbacks = 0\<rparr>"

definition remember_flow_override :: "string \<Rightarrow> nat \<Rightarrow> int \<Rightarrow> Router \<Rightarrow> Router result" where
  "remember_flow_override flow_text shard now r =
     (let r1 = r\<lparr>ro_flow_route_overrides := od_pop flow_text (ro_flow_route_overrides r)\<rparr> in
      bindE (if int (length (ro_flow_route_overrides r1)) \<ge> ro_max_fragment_routes r1
             then (case ro_flow_route_overrides r1 of
                     [] \<Rightarrow> Inl StopIteration
                   | oldest # _ \<Rightarrow>
                       Inr (r1\<lparr>ro_flow_route_overrides := od_pop (fst oldest) (ro_flow_route_overrides r1),
                               ro_flow_route_override_evictions := ro_flow_route_override_evictions r1 + 1\<rparr>))
             else Inr r1) (\<lambda>r2.
        Inr (r2\<lparr>ro_flow_route_overrides := od_put flow_text (shard, now) (ro_flow_route_overrides r2)\<rparr>)))"

text \<open>\<open>if flow_hint:\<close> with the call it guards; an empty text counts as no hint.\<close>

definition remember_hint :: "string option \<Rightarrow> nat \<Rightarrow> int \<Rightarrow> Router \<Rightarrow> Router result" where
  "remember_hint hint shard now r =
     (case hint of None \<Rightarrow> Inr r | Some text \<Rightarrow> if text = [] then Inr r else remember_flow_override text shard now r)"

definition store_fragment_route :: "string \<Rightarrow> nat \<Rightarrow> int \<Rightarrow> Router \<Rightarrow> Router result" where
  "store_fragment_route key shard now r =
     bindE (if int (length (ro_fragment_routes r)) \<ge> ro_max_fragment_routes r
            then (case ro_fragment_routes r of
                    [] \<Rightarrow> Inl StopIteration
                  | oldest # _ \<Rightarrow>
                      Inr (r\<lparr>ro_fragment_routes := od_pop (fst oldest) (ro_fragment_routes r),
                             ro_fragment_route_evictions := ro_fragment_route_evictions r + 1\<rparr>))
            else Inr r) (\<lambda>r1.
       Inr (r1\<lparr>ro_fragment_routes := od_put key (shard, now) (ro_fragment_routes r1)\<rparr>))"

definition route_fragment :: "(string \<Rightarrow> nat) \<Rightarrow> int \<Rightarrow> ParsedPacket \<Rightarrow> Router \<Rightarrow> (Router \<times> nat) result" where
  "route_fragment digest now packet r =
     (let key = fragment_route_key packet;
          flow_hint = fragment_flow_hint packet;
          r1 = r\<lparr>ro_fragment_routes := od_pop key (ro_fragment_routes r)\<rparr> in
      case od_get (ro_fragment_routes r) key of
        Some existing \<Rightarrow>
          bindE (remember_hint flow_hint (fst existing) now
                   (r1\<lparr>ro_fragment_routes := od_put key (fst existing, now) (ro_fragment_routes r1)\<rparr>)) (\<lambda>r2.
            Inr (r2, fst existing))
      | None \<Rightarrow>
          bindE (case flow_hint of
                   Some text \<Rightarrow>
                     (if text \<noteq> []
                      then bindE (stable_shard digest text (ro_workers r1)) (\<lambda>shard.
                             bindE (remember_flow_override text shard now r1) (\<lambda>r2. Inr (r2, shard)))
                      else bindE (stable_shard digest key (ro_workers r1)) (\<lambda>shard.
                             Inr (r1\<lparr>ro_fragment_route_fallbacks := ro_fragment_route_fallbacks r1 + 1\<rparr>, shard)))
                 | None \<Rightarrow>
                     bindE (stable_shard digest key (ro_workers r1)) (\<lambda>shard.
                       Inr (r1\<lparr>ro_fragment_route_fallbacks := ro_fragment_route_fallbacks r1 + 1\<rparr>, shard))) (\<lambda>(r2, shard).
            bindE (store_fragment_route key shard now r2) (\<lambda>r3. Inr (r3, shard))))"

definition route_flow :: "(string \<Rightarrow> nat) \<Rightarrow> int \<Rightarrow> ParsedPacket \<Rightarrow> Router \<Rightarrow> (Router \<times> nat) result" where
  "route_flow digest now packet r =
     (let flow_text = stable_text (fst (packet_flow packet));
          r1 = r\<lparr>ro_flow_route_overrides := od_pop flow_text (ro_flow_route_overrides r)\<rparr> in
      case od_get (ro_flow_route_overrides r) flow_text of
        Some override \<Rightarrow>
          Inr (r1\<lparr>ro_flow_route_overrides := od_put flow_text (fst override, now) (ro_flow_route_overrides r1)\<rparr>, fst override)
      | None \<Rightarrow> bindE (stable_shard digest flow_text (ro_workers r1)) (\<lambda>shard. Inr (r1, shard)))"

definition route :: "(string \<Rightarrow> nat) \<Rightarrow> int \<Rightarrow> ParsedPacket \<Rightarrow> Router \<Rightarrow> (Router \<times> nat) result" where
  "route digest now packet r =
     (if pp_fragment_id packet \<noteq> None then route_fragment digest now packet r
      else route_flow digest now packet r)"

definition expire_fragment_routes :: "int \<Rightarrow> Router \<Rightarrow> Router" where
  "expire_fragment_routes now r =
     r\<lparr>ro_fragment_routes := filter (\<lambda>e. snd (snd e) \<ge> now - ro_fragment_idle_ns r) (ro_fragment_routes r),
       ro_flow_route_overrides := filter (\<lambda>e. snd (snd e) \<ge> now - ro_flow_idle_ns r) (ro_flow_route_overrides r)\<rparr>"

section \<open>Interface: a bounded table of routes\<close>

text \<open>
  Both tables promise the same: storing a key that is absent makes room by dropping the oldest entry
  when the table is full, counts that, appends the key, and leaves everything else of the state alone.
\<close>

definition make_room :: "int \<Rightarrow> routes \<Rightarrow> routes" where
  "make_room limit d = (if int (length d) \<ge> limit then tl d else d)"

definition table_ok :: "int \<Rightarrow> nat \<Rightarrow> routes \<Rightarrow> bool" where
  "table_ok limit workers d \<longleftrightarrow> od_ok d \<and> int (length d) \<le> limit \<and> (\<forall>e \<in> set d. fst (snd e) < workers)"

lemma od_get_single: "od_get [(k, v)] k' = (if k' = k then Some v else None)"
  by (simp add: od_get_def)

locale bounded_routes =
  fixes table :: "Router \<Rightarrow> routes"
    and evictions :: "Router \<Rightarrow> int"
    and rest :: "Router \<Rightarrow> 'rest"
    and store :: "string \<Rightarrow> nat \<Rightarrow> int \<Rightarrow> Router \<Rightarrow> Router result"
  assumes store_absent:
    "od_get (table s) key = None \<Longrightarrow> 0 < ro_max_fragment_routes s \<Longrightarrow> od_ok (table s) \<Longrightarrow>
       \<exists>t. store key shard now s = Inr t \<and> rest t = rest s
         \<and> table t = make_room (ro_max_fragment_routes s) (table s) @ [(key, shard, now)]
         \<and> evictions t = evictions s + (if int (length (table s)) \<ge> ro_max_fragment_routes s then 1 else 0)"
begin

lemma store_keeps:
  assumes "od_get (table s) key = None" "0 < ro_max_fragment_routes s"
    "table_ok (ro_max_fragment_routes s) workers (table s)" "shard < workers"
  obtains t where "store key shard now s = Inr t" "rest t = rest s" "evictions s \<le> evictions t"
    "table_ok (ro_max_fragment_routes s) workers (table t)" "od_get (table t) key = Some (shard, now)"
    "\<And>k. k \<noteq> key \<Longrightarrow> evictions t = evictions s \<Longrightarrow> od_get (table t) k = od_get (table s) k"
proof -
  have ok: "od_ok (table s)" using assms(3) by (simp add: table_ok_def)
  obtain t where t: "store key shard now s = Inr t" "rest t = rest s"
      "table t = make_room (ro_max_fragment_routes s) (table s) @ [(key, shard, now)]"
      "evictions t = evictions s + (if int (length (table s)) \<ge> ro_max_fragment_routes s then 1 else 0)"
    using store_absent [OF assms(1,2) ok] by blast
  have sub: "set (make_room l d) \<subseteq> set d" for l and d :: routes
    by (cases d) (auto simp: make_room_def)
  have okr: "od_ok (make_room l (table s))" for l
    using ok by (cases "table s") (auto simp: make_room_def od_ok_def)
  have "key \<notin> fst ` set (table s)" using assms(1) by (simp add: od_get_None_iff)
  then have nk: "key \<notin> fst ` set (make_room l (table s))" for l using sub by (meson image_mono subsetD)
  have "od_ok (table t)" using okr nk unfolding t(3) by (simp add: od_ok_snoc)
  moreover have "int (length (table t)) \<le> ro_max_fragment_routes s"
    using assms(2,3) unfolding t(3) table_ok_def by (auto simp: make_room_def)
  moreover have "\<forall>e \<in> set (table t). fst (snd e) < workers"
    using assms(3,4) sub [of "ro_max_fragment_routes s" "table s"] unfolding t(3) table_ok_def by auto
  ultimately have "table_ok (ro_max_fragment_routes s) workers (table t)" by (simp add: table_ok_def)
  moreover have "od_get (table t) key = Some (shard, now)"
    using nk unfolding t(3) by (simp add: od_get_append od_get_None_iff [THEN iffD2]) (simp add: od_get_def)
  moreover have "od_get (table t) k = od_get (table s) k" if "k \<noteq> key" "evictions t = evictions s" for k
    using that t(4) unfolding t(3) by (auto simp: make_room_def od_get_append od_get_single split: if_splits option.splits)
  ultimately show thesis using that t(1,2,4) by auto
qed

end

text \<open>What neither table's operations touch.\<close>

definition router_params :: "Router \<Rightarrow> nat \<times> int" where
  "router_params r = (ro_workers r, ro_max_fragment_routes r)"

interpretation fragment_table: bounded_routes ro_fragment_routes ro_fragment_route_evictions
    "\<lambda>r. (router_params r, ro_flow_route_overrides r, ro_flow_route_override_evictions r)" store_fragment_route
proof
  fix s :: Router and key shard now
  assume "od_get (ro_fragment_routes s) key = None" "0 < ro_max_fragment_routes s" "od_ok (ro_fragment_routes s)"
  then show "\<exists>t. store_fragment_route key shard now s = Inr t
      \<and> (router_params t, ro_flow_route_overrides t, ro_flow_route_override_evictions t)
        = (router_params s, ro_flow_route_overrides s, ro_flow_route_override_evictions s)
      \<and> ro_fragment_routes t = make_room (ro_max_fragment_routes s) (ro_fragment_routes s) @ [(key, shard, now)]
      \<and> ro_fragment_route_evictions t = ro_fragment_route_evictions s
          + (if int (length (ro_fragment_routes s)) \<ge> ro_max_fragment_routes s then 1 else 0)"
    by (cases "ro_fragment_routes s")
      (auto simp: store_fragment_route_def make_room_def router_params_def od_pop_head od_put_absent od_get_def split: if_splits)
qed

interpretation override_table: bounded_routes ro_flow_route_overrides ro_flow_route_override_evictions
    "\<lambda>r. (router_params r, ro_fragment_routes r, ro_fragment_route_evictions r)" remember_flow_override
proof
  fix s :: Router and key shard now
  assume a: "od_get (ro_flow_route_overrides s) key = None" "0 < ro_max_fragment_routes s" "od_ok (ro_flow_route_overrides s)"
  then show "\<exists>t. remember_flow_override key shard now s = Inr t
      \<and> (router_params t, ro_fragment_routes t, ro_fragment_route_evictions t)
        = (router_params s, ro_fragment_routes s, ro_fragment_route_evictions s)
      \<and> ro_flow_route_overrides t = make_room (ro_max_fragment_routes s) (ro_flow_route_overrides s) @ [(key, shard, now)]
      \<and> ro_flow_route_override_evictions t = ro_flow_route_override_evictions s
          + (if int (length (ro_flow_route_overrides s)) \<ge> ro_max_fragment_routes s then 1 else 0)"
    unfolding remember_flow_override_def Let_def od_pop_absent [OF a(1)]
    by (cases "ro_flow_route_overrides s")
      (auto simp: make_room_def router_params_def od_pop_head od_put_absent od_get_def split: if_splits)
qed

section \<open>Routing\<close>

definition router_ok :: "Router \<Rightarrow> bool" where
  "router_ok r \<longleftrightarrow> 0 < ro_workers r \<and> 0 < ro_max_fragment_routes r
     \<and> table_ok (ro_max_fragment_routes r) (ro_workers r) (ro_fragment_routes r)
     \<and> table_ok (ro_max_fragment_routes r) (ro_workers r) (ro_flow_route_overrides r)"

lemma table_ok_pop: "table_ok l w d \<Longrightarrow> table_ok l w (od_pop k d)"
proof -
  have "length (od_pop k d) \<le> length d" by (simp add: od_pop_def)
  then show "table_ok l w d \<Longrightarrow> table_ok l w (od_pop k d)" by (auto simp: table_ok_def set_od_pop)
qed

lemma length_od_pop_put:
  "od_ok d \<Longrightarrow> od_get d k = Some v \<Longrightarrow> length (od_put k u (od_pop k d)) = length d"
  by (cases d) (simp_all add: length_od_put od_pop_permuted)

lemma table_ok_refresh:
  assumes "table_ok l w d" "od_get d k = Some v"
  shows "table_ok l w (od_put k (fst v, now) (od_pop k d))" "fst v < w"
proof -
  show v: "fst v < w" using assms by (auto simp: table_ok_def dest!: od_get_in_set)
  have "\<forall>e \<in> set (od_put k (fst v, now) (od_pop k d)). fst (snd e) < w"
    using assms(1) v set_od_put_subset [of k "(fst v, now)" "od_pop k d"] set_od_pop_subset [of k d]
    unfolding table_ok_def by fastforce
  moreover have "length (od_put k (fst v, now) (od_pop k d)) = length d"
    using assms by (intro length_od_pop_put) (auto simp: table_ok_def)
  ultimately show "table_ok l w (od_put k (fst v, now) (od_pop k d))"
    using assms by (simp add: table_ok_def)
qed

text \<open>One call of the override store, whatever was there before.\<close>

lemma remember_pop:
  "remember_flow_override f shard now r
     = remember_flow_override f shard now (r\<lparr>ro_flow_route_overrides := od_pop f (ro_flow_route_overrides r)\<rparr>)"
  by (simp add: remember_flow_override_def)

lemma remember_keeps:
  assumes "router_ok r" "shard < ro_workers r"
  obtains t where "remember_flow_override f shard now r = Inr t" "router_ok t" "router_params t = router_params r"
    "ro_fragment_routes t = ro_fragment_routes r" "ro_fragment_route_evictions t = ro_fragment_route_evictions r"
    "ro_flow_route_override_evictions r \<le> ro_flow_route_override_evictions t"
    "od_get (ro_flow_route_overrides t) f = Some (shard, now)"
    "\<And>k. k \<noteq> f \<Longrightarrow> ro_flow_route_override_evictions t = ro_flow_route_override_evictions r \<Longrightarrow>
       od_get (ro_flow_route_overrides t) k = od_get (ro_flow_route_overrides r) k"
proof -
  let ?r = "r\<lparr>ro_flow_route_overrides := od_pop f (ro_flow_route_overrides r)\<rparr>"
  have ok: "table_ok (ro_max_fragment_routes ?r) (ro_workers r) (ro_flow_route_overrides ?r)"
    and pos: "0 < ro_max_fragment_routes ?r" and none: "od_get (ro_flow_route_overrides ?r) f = None"
    using assms(1) by (simp_all add: router_ok_def table_ok_pop)
  obtain t where t: "remember_flow_override f shard now ?r = Inr t"
    "(router_params t, ro_fragment_routes t, ro_fragment_route_evictions t)
       = (router_params ?r, ro_fragment_routes ?r, ro_fragment_route_evictions ?r)"
    "ro_flow_route_override_evictions ?r \<le> ro_flow_route_override_evictions t"
    "table_ok (ro_max_fragment_routes ?r) (ro_workers r) (ro_flow_route_overrides t)"
    "od_get (ro_flow_route_overrides t) f = Some (shard, now)"
    "\<And>k. k \<noteq> f \<Longrightarrow> ro_flow_route_override_evictions t = ro_flow_route_override_evictions ?r \<Longrightarrow>
       od_get (ro_flow_route_overrides t) k = od_get (ro_flow_route_overrides ?r) k"
    using override_table.store_keeps [OF none pos ok assms(2)] by metis
  show thesis
    by (rule that [of t]) (use t assms remember_pop [of f shard now r] in \<open>auto simp: router_ok_def router_params_def\<close>)
qed

lemma remember_hint_keeps:
  assumes "router_ok r" "shard < ro_workers r"
  obtains t where "remember_hint h shard now r = Inr t" "router_ok t" "router_params t = router_params r"
    "ro_fragment_routes t = ro_fragment_routes r" "ro_fragment_route_evictions t = ro_fragment_route_evictions r"
    "ro_flow_route_override_evictions r \<le> ro_flow_route_override_evictions t"
    "\<And>f. h = Some f \<Longrightarrow> f \<noteq> [] \<Longrightarrow> od_get (ro_flow_route_overrides t) f = Some (shard, now)"
    "\<And>k. h \<noteq> Some k \<Longrightarrow> ro_flow_route_override_evictions t = ro_flow_route_override_evictions r \<Longrightarrow>
       od_get (ro_flow_route_overrides t) k = od_get (ro_flow_route_overrides r) k"
proof (cases "h = None \<or> h = Some []")
  case True
  then have e: "remember_hint h shard now r = Inr r" by (auto simp: remember_hint_def)
  show thesis by (rule that [OF e assms(1)]) (use True in auto)
next
  case False
  then obtain f where f: "h = Some f" "f \<noteq> []" by auto
  show thesis
  proof (rule remember_keeps [OF assms, of f now])
    fix t
    assume t: "remember_flow_override f shard now r = Inr t" "router_ok t" "router_params t = router_params r"
      "ro_fragment_routes t = ro_fragment_routes r" "ro_fragment_route_evictions t = ro_fragment_route_evictions r"
      "ro_flow_route_override_evictions r \<le> ro_flow_route_override_evictions t"
      "od_get (ro_flow_route_overrides t) f = Some (shard, now)"
      "\<And>k. k \<noteq> f \<Longrightarrow> ro_flow_route_override_evictions t = ro_flow_route_override_evictions r \<Longrightarrow>
         od_get (ro_flow_route_overrides t) k = od_get (ro_flow_route_overrides r) k"
    show thesis by (rule that [of t]) (use t f in \<open>auto simp: remember_hint_def\<close>)
  qed
qed

text \<open>The effect of one call of \<open>_route\<close>, on every branch.\<close>

definition is_fragment :: "ParsedPacket \<Rightarrow> bool" where
  "is_fragment p \<longleftrightarrow> pp_fragment_id p \<noteq> None"

definition shard_at :: "routes \<Rightarrow> string \<Rightarrow> nat option" where
  "shard_at d k = map_option fst (od_get d k)"

definition flow_text :: "ParsedPacket \<Rightarrow> string" where
  "flow_text p = stable_text (fst (packet_flow p))"

definition routed :: "(string \<Rightarrow> nat) \<Rightarrow> ParsedPacket \<Rightarrow> Router \<Rightarrow> Router \<Rightarrow> nat \<Rightarrow> bool" where
  "routed digest p r r' s \<longleftrightarrow> router_ok r' \<and> router_params r' = router_params r \<and> s < ro_workers r
     \<and> ro_fragment_route_evictions r \<le> ro_fragment_route_evictions r'
     \<and> ro_flow_route_override_evictions r \<le> ro_flow_route_override_evictions r'
     \<and> (ro_fragment_route_evictions r' = ro_fragment_route_evictions r \<longrightarrow>
          (\<forall>k s0. shard_at (ro_fragment_routes r) k = Some s0 \<longrightarrow> shard_at (ro_fragment_routes r') k = Some s0))
     \<and> (ro_flow_route_override_evictions r' = ro_flow_route_override_evictions r \<longrightarrow>
          (\<forall>f s0. shard_at (ro_flow_route_overrides r) f = Some s0 \<longrightarrow> \<not> (is_fragment p \<and> fragment_flow_hint p = Some f) \<longrightarrow>
             shard_at (ro_flow_route_overrides r') f = Some s0))
     \<and> (if is_fragment p
        then shard_at (ro_fragment_routes r') (fragment_route_key p) = Some s
           \<and> (\<forall>s0. shard_at (ro_fragment_routes r) (fragment_route_key p) = Some s0 \<longrightarrow> s = s0)
           \<and> (\<forall>f. fragment_flow_hint p = Some f \<longrightarrow> f \<noteq> [] \<longrightarrow> shard_at (ro_flow_route_overrides r') f = Some s)
        else s = (case shard_at (ro_flow_route_overrides r) (flow_text p) of
                    Some s0 \<Rightarrow> s0 | None \<Rightarrow> digest (flow_text p) mod ro_workers r))"

lemma shard_at_simps [simp]:
  "shard_at (od_put k v d) k' = (if k' = k then Some (fst v) else shard_at d k')"
  "shard_at (od_pop k d) k' = (if k' = k then None else shard_at d k')"
  by (simp_all add: shard_at_def)

lemma route_flow_keeps:
  assumes "router_ok r" "\<not> is_fragment p"
  shows "\<exists>r' s. route digest now p r = Inr (r', s) \<and> routed digest p r r' s"
proof -
  let ?o = "od_get (ro_flow_route_overrides r) (flow_text p)"
  have fields: "0 < ro_workers r" "table_ok (ro_max_fragment_routes r) (ro_workers r) (ro_flow_route_overrides r)"
    using assms(1) by (simp_all add: router_ok_def)
  show ?thesis
  proof (cases ?o)
    case None
    let ?r = "r\<lparr>ro_flow_route_overrides := od_pop (flow_text p) (ro_flow_route_overrides r)\<rparr>"
    have e: "route digest now p r = Inr (?r, digest (flow_text p) mod ro_workers r)"
      using assms(2) None fields(1) by (simp add: route_def is_fragment_def route_flow_def flow_text_def stable_shard_def Let_def)
    have "routed digest p r ?r (digest (flow_text p) mod ro_workers r)"
      unfolding routed_def using assms None fields table_ok_pop
      by (auto simp: router_ok_def router_params_def shard_at_def [of _ "flow_text p"])
    with e show ?thesis by blast
  next
    case (Some v)
    let ?r = "r\<lparr>ro_flow_route_overrides := od_put (flow_text p) (fst v, now) (od_pop (flow_text p) (ro_flow_route_overrides r))\<rparr>"
    have e: "route digest now p r = Inr (?r, fst v)"
      using assms(2) Some by (simp add: route_def is_fragment_def route_flow_def flow_text_def Let_def)
    have "routed digest p r ?r (fst v)"
      unfolding routed_def using assms Some table_ok_refresh [OF fields(2) Some]
      by (auto simp: router_ok_def router_params_def shard_at_def [of _ "flow_text p"])
    with e show ?thesis by blast
  qed
qed

lemma route_fragment_known:
  assumes "router_ok r" "is_fragment p" "od_get (ro_fragment_routes r) (fragment_route_key p) = Some v"
  shows "\<exists>r' s. route digest now p r = Inr (r', s) \<and> routed digest p r r' s"
proof -
  let ?k = "fragment_route_key p"
  let ?r = "r\<lparr>ro_fragment_routes := od_put ?k (fst v, now) (od_pop ?k (ro_fragment_routes r))\<rparr>"
  have t: "table_ok (ro_max_fragment_routes r) (ro_workers r) (ro_fragment_routes r)" using assms(1) by (simp add: router_ok_def)
  have ok: "router_ok ?r" "fst v < ro_workers ?r" using assms(1) table_ok_refresh [OF t assms(3)] by (simp_all add: router_ok_def)
  obtain r' where r': "remember_hint (fragment_flow_hint p) (fst v) now ?r = Inr r'" "router_ok r'" "router_params r' = router_params ?r"
    "ro_fragment_routes r' = ro_fragment_routes ?r" "ro_fragment_route_evictions r' = ro_fragment_route_evictions ?r"
    "ro_flow_route_override_evictions ?r \<le> ro_flow_route_override_evictions r'"
    "\<And>f. fragment_flow_hint p = Some f \<Longrightarrow> f \<noteq> [] \<Longrightarrow> od_get (ro_flow_route_overrides r') f = Some (fst v, now)"
    "\<And>k. fragment_flow_hint p \<noteq> Some k \<Longrightarrow> ro_flow_route_override_evictions r' = ro_flow_route_override_evictions ?r \<Longrightarrow>
       od_get (ro_flow_route_overrides r') k = od_get (ro_flow_route_overrides ?r) k"
    using remember_hint_keeps [OF ok] by metis
  have e: "route digest now p r = Inr (r', fst v)"
    using assms(2,3) r'(1) by (simp add: route_def is_fragment_def route_fragment_def Let_def)
  have "routed digest p r r' (fst v)"
    unfolding routed_def using assms(2,3) ok(2) r'(2-8)
    by (auto simp: router_params_def shard_at_def [of "ro_fragment_routes r" ?k] shard_at_def [of "ro_flow_route_overrides r'"]
        shard_at_def [of "ro_flow_route_overrides r"])
  with e show ?thesis by blast
qed

text \<open>The shard of a datagram seen for the first time, with the state it is then stored in.\<close>

definition first_shard :: "(string \<Rightarrow> nat) \<Rightarrow> int \<Rightarrow> ParsedPacket \<Rightarrow> Router \<Rightarrow> (Router \<times> nat) result" where
  "first_shard digest now p r =
     (case fragment_flow_hint p of
        Some text \<Rightarrow>
          (if text \<noteq> []
           then bindE (stable_shard digest text (ro_workers r)) (\<lambda>shard.
                  bindE (remember_flow_override text shard now r) (\<lambda>r2. Inr (r2, shard)))
           else bindE (stable_shard digest (fragment_route_key p) (ro_workers r)) (\<lambda>shard.
                  Inr (r\<lparr>ro_fragment_route_fallbacks := ro_fragment_route_fallbacks r + 1\<rparr>, shard)))
      | None \<Rightarrow>
          bindE (stable_shard digest (fragment_route_key p) (ro_workers r)) (\<lambda>shard.
            Inr (r\<lparr>ro_fragment_route_fallbacks := ro_fragment_route_fallbacks r + 1\<rparr>, shard)))"

lemma first_shard_keeps:
  assumes "router_ok r"
  obtains t shard where "first_shard digest now p r = Inr (t, shard)" "shard < ro_workers r" "router_ok t"
    "router_params t = router_params r" "ro_fragment_routes t = ro_fragment_routes r"
    "ro_fragment_route_evictions t = ro_fragment_route_evictions r"
    "ro_flow_route_override_evictions r \<le> ro_flow_route_override_evictions t"
    "\<And>f. fragment_flow_hint p = Some f \<Longrightarrow> f \<noteq> [] \<Longrightarrow> od_get (ro_flow_route_overrides t) f = Some (shard, now)"
    "\<And>k. fragment_flow_hint p \<noteq> Some k \<Longrightarrow> ro_flow_route_override_evictions t = ro_flow_route_override_evictions r \<Longrightarrow>
       od_get (ro_flow_route_overrides t) k = od_get (ro_flow_route_overrides r) k"
proof (cases "fragment_flow_hint p = None \<or> fragment_flow_hint p = Some []")
  case True
  let ?t = "r\<lparr>ro_fragment_route_fallbacks := ro_fragment_route_fallbacks r + 1\<rparr>"
  have w: "0 < ro_workers r" using assms by (simp add: router_ok_def)
  then have e: "first_shard digest now p r = Inr (?t, digest (fragment_route_key p) mod ro_workers r)"
    using True by (auto simp: first_shard_def stable_shard_def)
  show thesis by (rule that [OF e]) (use True w assms in \<open>auto simp: router_ok_def router_params_def\<close>)
next
  case False
  then obtain f where f: "fragment_flow_hint p = Some f" "f \<noteq> []" by auto
  have w: "0 < ro_workers r" using assms by (simp add: router_ok_def)
  then have s: "digest f mod ro_workers r < ro_workers r" by simp
  show thesis
  proof (rule remember_keeps [OF assms s, of f now])
    fix t
    assume t: "remember_flow_override f (digest f mod ro_workers r) now r = Inr t" "router_ok t" "router_params t = router_params r"
      "ro_fragment_routes t = ro_fragment_routes r" "ro_fragment_route_evictions t = ro_fragment_route_evictions r"
      "ro_flow_route_override_evictions r \<le> ro_flow_route_override_evictions t"
      "od_get (ro_flow_route_overrides t) f = Some (digest f mod ro_workers r, now)"
      "\<And>k. k \<noteq> f \<Longrightarrow> ro_flow_route_override_evictions t = ro_flow_route_override_evictions r \<Longrightarrow>
         od_get (ro_flow_route_overrides t) k = od_get (ro_flow_route_overrides r) k"
    have e: "first_shard digest now p r = Inr (t, digest f mod ro_workers r)"
      using f w t(1) by (simp add: first_shard_def stable_shard_def)
    show thesis by (rule that [OF e s]) (use t f in auto)
  qed
qed

lemma route_fragment_new:
  assumes "router_ok r" "is_fragment p" "od_get (ro_fragment_routes r) (fragment_route_key p) = None"
  shows "\<exists>r' s. route digest now p r = Inr (r', s) \<and> routed digest p r r' s"
proof -
  let ?k = "fragment_route_key p"
  obtain t shard where t: "first_shard digest now p r = Inr (t, shard)" "shard < ro_workers r" "router_ok t"
    "router_params t = router_params r" "ro_fragment_routes t = ro_fragment_routes r"
    "ro_fragment_route_evictions t = ro_fragment_route_evictions r"
    "ro_flow_route_override_evictions r \<le> ro_flow_route_override_evictions t"
    "\<And>f. fragment_flow_hint p = Some f \<Longrightarrow> f \<noteq> [] \<Longrightarrow> od_get (ro_flow_route_overrides t) f = Some (shard, now)"
    "\<And>k. fragment_flow_hint p \<noteq> Some k \<Longrightarrow> ro_flow_route_override_evictions t = ro_flow_route_override_evictions r \<Longrightarrow>
       od_get (ro_flow_route_overrides t) k = od_get (ro_flow_route_overrides r) k"
    using first_shard_keeps [OF assms(1), of digest now p] by metis
  have pre: "od_get (ro_fragment_routes t) ?k = None" "0 < ro_max_fragment_routes t"
      "table_ok (ro_max_fragment_routes t) (ro_workers t) (ro_fragment_routes t)" "shard < ro_workers t"
    using assms(3) t(2-5) by (simp_all add: router_ok_def router_params_def)
  obtain u where u: "store_fragment_route ?k shard now t = Inr u"
    "(router_params u, ro_flow_route_overrides u, ro_flow_route_override_evictions u)
       = (router_params t, ro_flow_route_overrides t, ro_flow_route_override_evictions t)"
    "ro_fragment_route_evictions t \<le> ro_fragment_route_evictions u"
    "table_ok (ro_max_fragment_routes t) (ro_workers t) (ro_fragment_routes u)"
    "od_get (ro_fragment_routes u) ?k = Some (shard, now)"
    "\<And>k. k \<noteq> ?k \<Longrightarrow> ro_fragment_route_evictions u = ro_fragment_route_evictions t \<Longrightarrow>
       od_get (ro_fragment_routes u) k = od_get (ro_fragment_routes t) k"
    using fragment_table.store_keeps [OF pre, of now] by metis
  have pop: "r\<lparr>ro_fragment_routes := od_pop ?k (ro_fragment_routes r)\<rparr> = r" using assms(3) by (simp add: od_pop_absent)
  have e: "route digest now p r = Inr (u, shard)"
    using assms(2,3) t(1) u(1) by (simp add: route_def is_fragment_def route_fragment_def pop Let_def flip: first_shard_def)
  have ok: "router_ok u" using t(3) u(2,4) by (simp add: router_ok_def router_params_def)
  have frag: "shard_at (ro_fragment_routes u) k = Some s0"
    if "ro_fragment_route_evictions u = ro_fragment_route_evictions r" "shard_at (ro_fragment_routes r) k = Some s0" for k s0
    using that assms(3) t(5,6) u(6) by (cases "k = ?k") (auto simp: shard_at_def)
  have over: "shard_at (ro_flow_route_overrides u) f = Some s0"
    if "ro_flow_route_override_evictions u = ro_flow_route_override_evictions r" "shard_at (ro_flow_route_overrides r) f = Some s0"
      "fragment_flow_hint p \<noteq> Some f" for f s0
    using that t(9) u(2) by (auto simp: shard_at_def)
  have hint: "shard_at (ro_flow_route_overrides u) f = Some shard" if "fragment_flow_hint p = Some f" "f \<noteq> []" for f
    using that t(8) u(2) by (auto simp: shard_at_def)
  have "routed digest p r u shard"
    unfolding routed_def using ok frag over hint assms(2,3) t(2,4,6,7) u(2,3,5)
    by (auto simp: shard_at_def [of _ ?k])
  with e show ?thesis by blast
qed

lemma route_keeps:
  assumes "router_ok r"
  shows "\<exists>r' s. route digest now p r = Inr (r', s) \<and> routed digest p r r' s"
  using route_flow_keeps [OF assms] route_fragment_known [OF assms] route_fragment_new [OF assms]
  by (cases "is_fragment p"; cases "od_get (ro_fragment_routes r) (fragment_route_key p)") blast+

section \<open>Runs\<close>

datatype route_op = RoutePacket int ParsedPacket | ExpireRoutes int

fun route_run :: "(string \<Rightarrow> nat) \<Rightarrow> route_op list \<Rightarrow> Router \<Rightarrow> (Router \<times> (ParsedPacket \<times> nat) list) result" where
  "route_run digest [] r = Inr (r, [])"
| "route_run digest (RoutePacket now p # ops) r =
     bindE (route digest now p r) (\<lambda>(r1, s).
       bindE (route_run digest ops r1) (\<lambda>(r2, routed_packets). Inr (r2, (p, s) # routed_packets)))"
| "route_run digest (ExpireRoutes now # ops) r = route_run digest ops (expire_fragment_routes now r)"

fun no_expiry :: "route_op list \<Rightarrow> bool" where
  "no_expiry [] = True"
| "no_expiry (RoutePacket _ _ # ops) = no_expiry ops"
| "no_expiry (ExpireRoutes _ # ops) = False"

lemma table_ok_filter: "table_ok l w d \<Longrightarrow> table_ok l w (filter P d)"
proof -
  have "length (filter P d) \<le> length d" by simp
  then show "table_ok l w d \<Longrightarrow> table_ok l w (filter P d)"
    by (auto simp: table_ok_def od_ok_def distinct_map_filter intro: order_trans [of _ "int (length d)"])
qed

lemma expire_keeps: "router_ok r \<Longrightarrow> router_ok (expire_fragment_routes now r)"
  by (simp add: router_ok_def expire_fragment_routes_def table_ok_filter)

lemma route_Inr: "router_ok r \<Longrightarrow> route digest now p r = Inr (r', s) \<Longrightarrow> routed digest p r r' s"
  using route_keeps [of r digest now p] by auto

lemma route_run_total:
  "router_ok r \<Longrightarrow> \<exists>r' out. route_run digest ops r = Inr (r', out) \<and> router_ok r' \<and> router_params r' = router_params r
     \<and> (\<forall>(p, s) \<in> set out. s < ro_workers r)"
proof (induction digest ops r rule: route_run.induct)
  case (2 digest now p ops r)
  obtain r1 s where r1: "route digest now p r = Inr (r1, s)" "routed digest p r r1 s" using route_keeps [OF "2.prems"] by blast
  have ok: "router_ok r1" "router_params r1 = router_params r" "s < ro_workers r" using r1(2) unfolding routed_def by blast+
  from "2.IH" [OF ok(1)] obtain r' out where "route_run digest ops r1 = Inr (r', out)" "router_ok r'"
    "router_params r' = router_params r1" "\<forall>(p, s) \<in> set out. s < ro_workers r1" by blast
  with r1(1) ok show ?case by (auto simp: router_params_def)
next
  case (3 digest now ops r)
  from "3.IH" [OF expire_keeps [OF "3.prems"]] show ?case by (simp add: router_params_def expire_fragment_routes_def)
qed simp

lemma route_run_mono:
  "router_ok r \<Longrightarrow> route_run digest ops r = Inr (r', out) \<Longrightarrow>
     ro_fragment_route_evictions r \<le> ro_fragment_route_evictions r'
     \<and> ro_flow_route_override_evictions r \<le> ro_flow_route_override_evictions r'"
proof (induction digest ops r arbitrary: r' out rule: route_run.induct)
  case (2 digest now p ops r)
  obtain r1 s where r1: "route digest now p r = Inr (r1, s)" "routed digest p r r1 s" using route_keeps [OF "2.prems"(1)] by blast
  have ok: "router_ok r1" "ro_fragment_route_evictions r \<le> ro_fragment_route_evictions r1"
    "ro_flow_route_override_evictions r \<le> ro_flow_route_override_evictions r1" using r1(2) unfolding routed_def by blast+
  from "2.prems"(2) r1(1) obtain out' where "route_run digest ops r1 = Inr (r', out')" by auto
  from "2.IH" [OF ok(1) this] ok show ?case by auto
next
  case (3 digest now ops r)
  from "3.IH" [OF expire_keeps [OF "3.prems"(1)]] "3.prems"(2) show ?case by (simp add: expire_fragment_routes_def)
qed simp

text \<open>An entry that no eviction removes decides for the rest of the run.\<close>

lemma fragment_route_sticks:
  "router_ok r \<Longrightarrow> no_expiry ops \<Longrightarrow> route_run digest ops r = Inr (r', out) \<Longrightarrow>
     ro_fragment_route_evictions r' = ro_fragment_route_evictions r \<Longrightarrow>
     shard_at (ro_fragment_routes r) k = Some s \<Longrightarrow>
     (q, t) \<in> set out \<Longrightarrow> is_fragment q \<Longrightarrow> fragment_route_key q = k \<Longrightarrow> t = s"
proof (induction digest ops r arbitrary: r' out rule: route_run.induct)
  case (2 digest now p ops r)
  obtain r1 s1 where r1: "route digest now p r = Inr (r1, s1)" "routed digest p r r1 s1" using route_keeps [OF "2.prems"(1)] by blast
  from "2.prems"(3) r1(1) obtain out' where o: "route_run digest ops r1 = Inr (r', out')" "out = (p, s1) # out'" by auto
  have ok: "router_ok r1" "ro_fragment_route_evictions r \<le> ro_fragment_route_evictions r1" using r1(2) unfolding routed_def by blast+
  have ne: "no_expiry ops" using "2.prems"(2) by simp
  have same: "ro_fragment_route_evictions r1 = ro_fragment_route_evictions r"
    "ro_fragment_route_evictions r' = ro_fragment_route_evictions r1"
    using route_run_mono [OF ok(1) o(1)] ok(2) "2.prems"(4) by linarith+
  have keep: "shard_at (ro_fragment_routes r1) k = Some s" using r1(2) same(1) "2.prems"(5) unfolding routed_def by blast
  show ?case
  proof (cases "(q, t) \<in> set out'")
    case True
    from "2.IH" [OF ok(1) ne o(1) same(2) keep True] "2.prems"(7,8) show ?thesis by simp
  next
    case False
    with o(2) "2.prems"(6) have "q = p" "t = s1" by auto
    with r1(2) "2.prems"(5,7,8) show ?thesis unfolding routed_def by auto
  qed
qed simp_all

lemma override_sticks:
  "router_ok r \<Longrightarrow> no_expiry ops \<Longrightarrow> route_run digest ops r = Inr (r', out) \<Longrightarrow>
     ro_flow_route_override_evictions r' = ro_flow_route_override_evictions r \<Longrightarrow>
     shard_at (ro_flow_route_overrides r) f = Some s \<Longrightarrow>
     \<forall>(q, t) \<in> set out. is_fragment q \<longrightarrow> fragment_flow_hint q \<noteq> Some f \<Longrightarrow>
     (q, t) \<in> set out \<Longrightarrow> \<not> is_fragment q \<Longrightarrow> flow_text q = f \<Longrightarrow> t = s"
proof (induction digest ops r arbitrary: r' out rule: route_run.induct)
  case (2 digest now p ops r)
  obtain r1 s1 where r1: "route digest now p r = Inr (r1, s1)" "routed digest p r r1 s1" using route_keeps [OF "2.prems"(1)] by blast
  from "2.prems"(3) r1(1) obtain out' where o: "route_run digest ops r1 = Inr (r', out')" "out = (p, s1) # out'" by auto
  have ok: "router_ok r1" "ro_flow_route_override_evictions r \<le> ro_flow_route_override_evictions r1" using r1(2) unfolding routed_def by blast+
  have ne: "no_expiry ops" using "2.prems"(2) by simp
  have same: "ro_flow_route_override_evictions r1 = ro_flow_route_override_evictions r"
    "ro_flow_route_override_evictions r' = ro_flow_route_override_evictions r1"
    using route_run_mono [OF ok(1) o(1)] ok(2) "2.prems"(4) by linarith+
  have np: "\<not> (is_fragment p \<and> fragment_flow_hint p = Some f)" using "2.prems"(6) o(2) by auto
  then have keep: "shard_at (ro_flow_route_overrides r1) f = Some s" using r1(2) same(1) "2.prems"(5) unfolding routed_def by blast
  have rest: "\<forall>(q, t) \<in> set out'. is_fragment q \<longrightarrow> fragment_flow_hint q \<noteq> Some f" using "2.prems"(6) o(2) by auto
  show ?case
  proof (cases "(q, t) \<in> set out'")
    case True
    from "2.IH" [OF ok(1) ne o(1) same(2) keep rest True] "2.prems"(8,9) show ?thesis by simp
  next
    case False
    with o(2) "2.prems"(7) have "q = p" "t = s1" by auto
    with r1(2) "2.prems"(5,8,9) show ?thesis unfolding routed_def by auto
  qed
qed simp_all

section \<open>Properties\<close>

text \<open>Over any sequence of routing and expiry calls, from a supervisor with at least one worker and room
  for at least one route, \<open>_route\<close> never raises, every packet gets the number of an existing worker, both route
  tables hold at most \<open>max_fragment_routes\<close> entries with distinct keys, and every entry names an existing
  worker.\<close>

theorem routing_bounded:
  assumes "0 < workers" "0 < max_routes"
  shows "\<exists>r out. route_run digest ops (router_init workers max_routes fragment_idle flow_idle) = Inr (r, out)
     \<and> (\<forall>(p, s) \<in> set out. s < workers)
     \<and> od_ok (ro_fragment_routes r) \<and> int (length (ro_fragment_routes r)) \<le> max_routes
     \<and> od_ok (ro_flow_route_overrides r) \<and> int (length (ro_flow_route_overrides r)) \<le> max_routes
     \<and> (\<forall>e \<in> set (ro_fragment_routes r @ ro_flow_route_overrides r). fst (snd e) < workers)"
proof -
  let ?r = "router_init workers max_routes fragment_idle flow_idle"
  have "router_ok ?r" using assms by (simp add: router_ok_def router_init_def table_ok_def)
  from route_run_total [OF this, of digest ops] obtain r out where r: "route_run digest ops ?r = Inr (r, out)" "router_ok r"
    "router_params r = router_params ?r" "\<forall>(p, s) \<in> set out. s < ro_workers ?r" by blast
  moreover have "ro_workers r = workers" "ro_max_fragment_routes r = max_routes" "ro_workers ?r = workers"
    using r(3) by (simp_all add: router_params_def router_init_def)
  ultimately show ?thesis by (auto simp: router_ok_def table_ok_def)
qed

text \<open>C21: the fragments of a datagram stay together: two fragments with the same datagram key that are routed
  in a run during which no fragment route is evicted or expired go to the same worker, whichever comes first
  and whatever is routed between them.\<close>

theorem fragments_stay_together:
  assumes "router_ok r" "no_expiry ops" "route digest now p r = Inr (r1, s)" "is_fragment p"
    and "route_run digest ops r1 = Inr (r2, out)" "ro_fragment_route_evictions r2 = ro_fragment_route_evictions r1"
    and "(q, t) \<in> set out" "is_fragment q" "fragment_route_key q = fragment_route_key p"
  shows "t = s"
proof -
  have r1: "routed digest p r r1 s" using assms(1,3) by (rule route_Inr)
  then have "router_ok r1" "shard_at (ro_fragment_routes r1) (fragment_route_key p) = Some s"
    using assms(4) unfolding routed_def by auto
  from fragment_route_sticks [OF this(1) assms(2,5,6) this(2) assms(7-9)] show ?thesis .
qed

text \<open>A flow follows its first fragment: after a first fragment that shows its ports was routed, every
  unfragmented packet of that flow goes to the same worker, as long as the override is neither evicted nor
  expired nor replaced by another first fragment of the flow.\<close>

theorem flow_follows_first_fragment:
  assumes "router_ok r" "no_expiry ops" "route digest now p r = Inr (r1, s)" "is_fragment p"
    and "fragment_flow_hint p = Some (flow_text q)"
    and "route_run digest ops r1 = Inr (r2, out)" "ro_flow_route_override_evictions r2 = ro_flow_route_override_evictions r1"
    and "\<forall>(q', t') \<in> set out. is_fragment q' \<longrightarrow> fragment_flow_hint q' \<noteq> Some (flow_text q)"
    and "(q, t) \<in> set out" "\<not> is_fragment q"
  shows "t = s"
proof -
  have r1: "routed digest p r r1 s" using assms(1,3) by (rule route_Inr)
  have "flow_text q \<noteq> []" by (simp add: flow_text_def stable_text_def Let_def)
  then have "router_ok r1" "shard_at (ro_flow_route_overrides r1) (flow_text q) = Some s"
    using r1 assms(4,5) unfolding routed_def by auto
  from override_sticks [OF this(1) assms(2,6,7) this(2) assms(8-10) refl] show ?thesis .
qed


definition route_sample :: "int option \<Rightarrow> int \<Rightarrow> string \<Rightarrow> int \<Rightarrow> string \<Rightarrow> int \<Rightarrow> bytes \<Rightarrow> ParsedPacket" where
  "route_sample frag off src sport dst dport d =
     \<lparr>pp_session_id = [], pp_packet_id = 1, pp_timestamp_ns = 1, pp_interface = ''e'',
      pp_captured_length = 60, pp_wire_length = 60, pp_ip_version = 4, pp_src = src,
      pp_dst = dst, pp_protocol = 17, pp_vlan_ids = [], pp_network_payload = d,
      pp_truncated = False, pp_fragment_id = frag, pp_fragment_offset = off,
      pp_more_fragments = False, pp_transport_parsed = frag = None, pp_sport = sport, pp_dport = dport,
      pp_tcp_seq = 0, pp_tcp_ack = 0, pp_tcp_flags = 0, pp_transport_payload = [],
      pp_source_packet_ids = []\<rparr>"

abbreviation frag_head :: ParsedPacket where
  "frag_head \<equiv> route_sample (Some 7) 0 ''a'' 0 ''b'' 0 [0, 1, 0, 2]"

abbreviation frag_tail :: ParsedPacket where
  "frag_tail \<equiv> route_sample (Some 7) 8 ''a'' 0 ''b'' 0 [9]"

abbreviation whole_there :: ParsedPacket where
  "whole_there \<equiv> route_sample None 0 ''a'' 1 ''b'' 2 []"

abbreviation whole_back :: ParsedPacket where
  "whole_back \<equiv> route_sample None 0 ''b'' 2 ''a'' 1 []"

abbreviation small_router :: Router where
  "small_router \<equiv> router_init 3 4 30 300"

lemma small_router_ok: "router_ok small_router"
  by (simp add: router_ok_def router_init_def table_ok_def)

lemma head_hint: "fragment_flow_hint frag_head = Some (flow_text whole_there)"
  by (simp add: fragment_flow_hint_def route_sample_def flow_text_def packet_flow_def py_slice_def from_be_def Let_def case_prod_unfold)

lemma head_key: "fragment_route_key frag_head = fragment_route_key frag_tail"
  by (simp add: fragment_route_key_def route_sample_def)

abbreviation route_sample_shard :: nat where
  "route_sample_shard \<equiv> length (flow_text whole_there) mod 3"

abbreviation route_sample_router :: "int \<Rightarrow> int \<Rightarrow> Router" where
  "route_sample_router t t' \<equiv> small_router\<lparr>ro_flow_route_overrides := [(flow_text whole_there, route_sample_shard, t)],
     ro_fragment_routes := [(fragment_route_key frag_head, route_sample_shard, t')]\<rparr>"

lemma head_routed: "route length 1 frag_head small_router = Inr (route_sample_router 1 1, route_sample_shard)"
proof -
  have "flow_text whole_there \<noteq> []" by (simp add: flow_text_def stable_text_def Let_def)
  moreover have "pp_fragment_id frag_head \<noteq> None" by (simp add: route_sample_def)
  ultimately show ?thesis
    by (simp add: route_def route_fragment_def head_hint stable_shard_def remember_flow_override_def
      store_fragment_route_def router_init_def Let_def od_pop_def)
qed

lemma tail_routed: "route length 2 frag_tail (route_sample_router 1 1) = Inr (route_sample_router 1 2, route_sample_shard)"
proof -
  have "fragment_flow_hint frag_tail = None" "pp_fragment_id frag_tail \<noteq> None"
    by (simp_all add: fragment_flow_hint_def route_sample_def)
  then show ?thesis
    by (simp add: route_def route_fragment_def remember_hint_def router_init_def Let_def od_pop_def od_get_single flip: head_key)
qed

lemma whole_routed: "route length 3 whole_there (route_sample_router 1 2) = Inr (route_sample_router 3 2, route_sample_shard)"
proof -
  have "pp_fragment_id whole_there = None" by (simp add: route_sample_def)
  then show ?thesis
    by (simp add: route_def route_flow_def router_init_def Let_def od_pop_def od_get_single flip: flow_text_def)
qed

theorem routing_bounded_witness:
  "\<exists>r out. route_run length [RoutePacket 1 frag_head] small_router = Inr (r, out) \<and> (\<forall>(p, s) \<in> set out. s < 3)"
  using routing_bounded [of 3 4 length "[RoutePacket 1 frag_head]" 30 300] by auto

abbreviation route_sample_ops :: "route_op list" where
  "route_sample_ops \<equiv> [RoutePacket 2 frag_tail, RoutePacket 3 whole_there]"

lemma route_sample_run:
  "route_run length route_sample_ops (route_sample_router 1 1)
     = Inr (route_sample_router 3 2, [(frag_tail, route_sample_shard), (whole_there, route_sample_shard)])"
  by (simp add: tail_routed whole_routed del: head_key)

lemma route_kinds: "is_fragment frag_head" "is_fragment frag_tail" "\<not> is_fragment whole_there" "\<not> is_fragment whole_back"
  by (simp_all add: is_fragment_def route_sample_def)

theorem fragments_stay_together_witness:
  "\<exists>r out. route_run length route_sample_ops (route_sample_router 1 1) = Inr (r, out) \<and> (\<forall>t. (frag_tail, t) \<in> set out \<longrightarrow> t = route_sample_shard)"
proof (intro exI conjI allI impI)
  fix t assume t: "(frag_tail, t) \<in> set [(frag_tail, route_sample_shard), (whole_there, route_sample_shard)]"
  have ev: "ro_fragment_route_evictions (route_sample_router 3 2) = ro_fragment_route_evictions (route_sample_router 1 1)" by simp
  have ne: "no_expiry route_sample_ops" by simp
  show "t = route_sample_shard"
    by (rule fragments_stay_together [OF small_router_ok ne head_routed route_kinds(1) route_sample_run ev t route_kinds(2) head_key [symmetric]])
qed (rule route_sample_run)

theorem flow_follows_first_fragment_witness:
  "\<exists>r out. route_run length route_sample_ops (route_sample_router 1 1) = Inr (r, out) \<and> (\<forall>t. (whole_there, t) \<in> set out \<longrightarrow> t = route_sample_shard)"
proof (intro exI conjI allI impI)
  fix t assume t: "(whole_there, t) \<in> set [(frag_tail, route_sample_shard), (whole_there, route_sample_shard)]"
  have "fragment_flow_hint frag_tail = None" by (simp add: fragment_flow_hint_def route_sample_def)
  then have hints: "\<forall>(q', t') \<in> set [(frag_tail, route_sample_shard), (whole_there, route_sample_shard)].
      is_fragment q' \<longrightarrow> fragment_flow_hint q' \<noteq> Some (flow_text whole_there)"
    using route_kinds(3) by auto
  have ev: "ro_flow_route_override_evictions (route_sample_router 3 2) = ro_flow_route_override_evictions (route_sample_router 1 1)" by simp
  have ne: "no_expiry route_sample_ops" by simp
  show "t = route_sample_shard"
    by (rule flow_follows_first_fragment [OF small_router_ok ne head_routed route_kinds(1) head_hint route_sample_run ev hints t route_kinds(3)])
qed (rule route_sample_run)


end
