(* ===== verification/Dispatch.thy ===== *)
theory Dispatch
  imports Forwarded_Duplicates Routing
begin

text \<open>
  Admission of packets to the worker queues: \<open>AuditSupervisor._dispatch_batch\<close> with its byte
  reservation, its telemetry and the worker's \<open>_release_reserved_queue_units\<close>, and the packet loop of
  \<open>AuditSupervisor.run\<close> that parses, routes and dispatches one capture batch
  (\<open>packet_audit/supervisor.py\<close>, \<open>packet_audit/worker.py\<close>). What other processes decide is an argument
  of each call: how many batches the worker finished in the meantime, whether a queue accepted an item,
  the outcome of \<open>_check_children\<close>, a stop request. A call whose list of such events ends while it still
  waits has the value \<open>None\<close>.
\<close>

section \<open>State\<close>

text \<open>The shared counters of one worker, and the batches it was handed and has not finished.\<close>

record ShardState =
  sh_bytes :: int
  sh_bytes_peak :: int
  sh_batches :: int
  sh_batches_peak :: int
  sh_queue :: "(ParsedPacket list \<times> int) list"

record queue_drop =
  qd_first_packet_id :: int
  qd_last_packet_id :: int
  qd_packet_count :: nat
  qd_captured_bytes :: int
  qd_worker_id :: nat
  qd_drop_reason :: string

text \<open>The operational events of the supervisor: those of this part with their fields, the others by name.\<close>

datatype op_event =
    AnalysisQueueDrop queue_drop
  | CaptureParseErrorEvent int py_error
  | CaptureParserFatal int py_error
  | SupervisorEvent string

record Dispatcher =
  dx_max_worker_queue_bytes :: int
  dx_queue_size :: int
  dx_offline :: bool
  dx_shards :: "ShardState list"
  dx_suppressor :: "Suppressor option"
  dx_dispatched_packets :: int
  dx_suppressed_packets :: int
  dx_suppressed_bytes :: int
  dx_userspace_queue_drops :: int
  dx_slot_dropped_packets :: int
  dx_byte_budget_dropped_packets :: int
  dx_byte_budget_dropped_bytes :: int
  dx_operational_queue_drops :: int
  dx_operations :: "op_event list"

definition new_shard :: ShardState where
  "new_shard = \<lparr>sh_bytes = 0, sh_bytes_peak = 0, sh_batches = 0, sh_batches_peak = 0, sh_queue = []\<rparr>"

definition dispatcher_init :: "nat \<Rightarrow> int \<Rightarrow> int \<Rightarrow> bool \<Rightarrow> Suppressor option \<Rightarrow> Dispatcher" where
  "dispatcher_init workers max_bytes queue_size offline suppressor =
     \<lparr>dx_max_worker_queue_bytes = max_bytes, dx_queue_size = queue_size, dx_offline = offline,
      dx_shards = replicate workers new_shard, dx_suppressor = suppressor, dx_dispatched_packets = 0,
      dx_suppressed_packets = 0, dx_suppressed_bytes = 0, dx_userspace_queue_drops = 0,
      dx_slot_dropped_packets = 0, dx_byte_budget_dropped_packets = 0, dx_byte_budget_dropped_bytes = 0,
      dx_operational_queue_drops = 0, dx_operations = []\<rparr>"

definition shard_of :: "Dispatcher \<Rightarrow> nat \<Rightarrow> ShardState" where
  "shard_of d shard = dx_shards d ! shard"

definition update_shard :: "nat \<Rightarrow> (ShardState \<Rightarrow> ShardState) \<Rightarrow> Dispatcher \<Rightarrow> Dispatcher" where
  "update_shard shard f d = d\<lparr>dx_shards := (dx_shards d)[shard := f (shard_of d shard)]\<rparr>"

section \<open>The worker gives units back\<close>

definition release_reserved_queue_units :: "int \<Rightarrow> int \<Rightarrow> int" where
  "release_reserved_queue_units counter reserved_units =
     (if reserved_units \<le> 0 then counter else max 0 (counter - reserved_units))"

text \<open>The worker finishes its oldest batch: the \<open>finally\<close> clause of its packet loop.\<close>

definition finish_batch :: "ShardState \<Rightarrow> ShardState" where
  "finish_batch c =
     (case sh_queue c of
        [] \<Rightarrow> c
      | (packets, reserved) # rest \<Rightarrow>
          c\<lparr>sh_bytes := release_reserved_queue_units (sh_bytes c) (max 0 reserved),
            sh_batches := release_reserved_queue_units (sh_batches c) 1, sh_queue := rest\<rparr>)"

definition finish_batches :: "nat \<Rightarrow> ShardState \<Rightarrow> ShardState" where
  "finish_batches n c = (finish_batch ^^ n) c"

section \<open>Reservation\<close>

definition captured_bytes :: "ParsedPacket list \<Rightarrow> int" where
  "captured_bytes packets = sum_list (map (\<lambda>p. max 0 (pp_captured_length p)) packets)"

text \<open>Between two attempts: batches the worker finished, the outcome of \<open>_check_children\<close>, a stop request.\<close>

type_synonym wait = "nat \<times> unit result \<times> bool"

definition try_reserve :: "int \<Rightarrow> int \<Rightarrow> ShardState \<Rightarrow> ShardState \<times> bool" where
  "try_reserve max_bytes batch_bytes c =
     (let next_bytes = sh_bytes c + batch_bytes in
      if next_bytes > max_bytes then (c, False)
      else (c\<lparr>sh_bytes := next_bytes, sh_bytes_peak := max (sh_bytes_peak c) next_bytes\<rparr>, True))"

fun reserve :: "int \<Rightarrow> int \<Rightarrow> bool \<Rightarrow> wait list \<Rightarrow> ShardState \<Rightarrow> (ShardState \<times> bool result) option" where
  "reserve max_bytes batch_bytes offline waits c =
     (let (c1, reserved) = try_reserve max_bytes batch_bytes c in
      if reserved \<or> \<not> offline \<or> batch_bytes > max_bytes then Some (c1, Inr reserved)
      else
        (case waits of
           [] \<Rightarrow> None
         | (finished, check, stop) # rest \<Rightarrow>
             (case check of
                Inl e \<Rightarrow> Some (finish_batches finished c1, Inl e)
              | Inr _ \<Rightarrow>
                  if stop
                  then Some (finish_batches finished c1,
                             Inl (AuditRuntimeError ''offline replay stopped while waiting for worker capacity''))
                  else reserve max_bytes batch_bytes offline rest (finish_batches finished c1))))"

declare reserve.simps [simp del]

text \<open>The outcomes of successive attempts to put an item on the queue; \<open>True\<close>: it was put.\<close>

datatype put_event = PutAccepted | PutFull "unit result" bool

fun put_offline :: "put_event list \<Rightarrow> bool result option" where
  "put_offline [] = None"
| "put_offline (PutAccepted # _) = Some (Inr True)"
| "put_offline (PutFull check stop # events) =
     (case check of
        Inl e \<Rightarrow> Some (Inl e)
      | Inr _ \<Rightarrow>
          if stop then Some (Inl (AuditRuntimeError ''offline replay stopped while waiting for worker queue''))
          else put_offline events)"

definition put_live :: "put_event list \<Rightarrow> bool result option" where
  "put_live events =
     (case events of [] \<Rightarrow> None | PutAccepted # _ \<Rightarrow> Some (Inr True) | PutFull _ _ # _ \<Rightarrow> Some (Inr False))"

section \<open>Drops\<close>

text \<open>\<open>_operation\<close> with a queue that is full or not.\<close>

definition operation :: "bool \<Rightarrow> op_event \<Rightarrow> Dispatcher \<Rightarrow> Dispatcher" where
  "operation full event d =
     (if full then d\<lparr>dx_operational_queue_drops := dx_operational_queue_drops d + 1\<rparr>
      else d\<lparr>dx_operations := dx_operations d @ [event]\<rparr>)"

text \<open>The inner function \<open>failed_admission_packets\<close>: the packets that are drops, and their bytes.\<close>

definition failed_admission_packets ::
  "DuplicatePlan option \<Rightarrow> ParsedPacket list \<Rightarrow> Dispatcher \<Rightarrow> (Dispatcher \<times> ParsedPacket list \<times> int) result" where
  "failed_admission_packets plan original d =
     (case (plan, dx_suppressor d) of
        (Some p, Some s) \<Rightarrow>
          bindE (commit_prior_skips_on_failure p s) (\<lambda>s'.
            let d1 = d\<lparr>dx_suppressor := Some s'\<rparr>;
                prior_ids = from_keys (map fst (dp_prior_pairs p));
                skipped_bytes = captured_bytes (filter (\<lambda>q. pp_packet_id q \<in> set prior_ids) original) in
            if dp_prior_pairs p = [] then Inr (d1, original, captured_bytes original)
            else Inr (d1\<lparr>dx_suppressed_packets := dx_suppressed_packets d1 + int (length prior_ids),
                         dx_suppressed_bytes := dx_suppressed_bytes d1 + skipped_bytes\<rparr>,
                      filter (\<lambda>q. pp_packet_id q \<notin> set prior_ids) original,
                      captured_bytes original - skipped_bytes))
      | _ \<Rightarrow> Inr (d, original, captured_bytes original))"

definition drop_record :: "nat \<Rightarrow> string \<Rightarrow> ParsedPacket list \<Rightarrow> int \<Rightarrow> queue_drop result" where
  "drop_record shard reason dropped dropped_bytes =
     (case dropped of
        [] \<Rightarrow> Inl IndexError
      | p # _ \<Rightarrow> Inr \<lparr>qd_first_packet_id = pp_packet_id p, qd_last_packet_id = pp_packet_id (last dropped),
                      qd_packet_count = length dropped, qd_captured_bytes = dropped_bytes, qd_worker_id = shard,
                      qd_drop_reason = reason\<rparr>)"

definition drop_for_bytes ::
  "nat \<Rightarrow> DuplicatePlan option \<Rightarrow> ParsedPacket list \<Rightarrow> bool \<Rightarrow> Dispatcher \<Rightarrow> Dispatcher \<times> unit result" where
  "drop_for_bytes shard plan original full d =
     (case failed_admission_packets plan original d of
        Inl e \<Rightarrow> (d, Inl e)
      | Inr (d1, dropped, dropped_bytes) \<Rightarrow>
          let d2 = d1\<lparr>dx_userspace_queue_drops := dx_userspace_queue_drops d1 + int (length dropped),
                      dx_byte_budget_dropped_packets := dx_byte_budget_dropped_packets d1 + int (length dropped),
                      dx_byte_budget_dropped_bytes := dx_byte_budget_dropped_bytes d1 + dropped_bytes\<rparr> in
          (case drop_record shard ''worker_queue_byte_budget'' dropped dropped_bytes of
             Inl e \<Rightarrow> (d2, Inl e)
           | Inr record \<Rightarrow> (operation full (AnalysisQueueDrop record) d2, Inr ())))"

definition drop_for_slots ::
  "nat \<Rightarrow> DuplicatePlan option \<Rightarrow> ParsedPacket list \<Rightarrow> bool \<Rightarrow> Dispatcher \<Rightarrow> Dispatcher \<times> unit result" where
  "drop_for_slots shard plan original full d =
     (case failed_admission_packets plan original d of
        Inl e \<Rightarrow> (d, Inl e)
      | Inr (d1, dropped, dropped_bytes) \<Rightarrow>
          let d2 = d1\<lparr>dx_userspace_queue_drops := dx_userspace_queue_drops d1 + int (length dropped),
                      dx_slot_dropped_packets := dx_slot_dropped_packets d1 + int (length dropped)\<rparr> in
          (case drop_record shard ''worker_queue_slots'' dropped dropped_bytes of
             Inl e \<Rightarrow> (d2, Inl e)
           | Inr record \<Rightarrow> (operation full (AnalysisQueueDrop record) d2, Inr ())))"

section \<open>Dispatch\<close>

record dispatch_env =
  de_finished :: nat
  de_waits :: "wait list"
  de_puts :: "put_event list"
  de_telemetry_full :: bool

definition give_back :: "int \<Rightarrow> ShardState \<Rightarrow> ShardState" where
  "give_back batch_bytes c =
     c\<lparr>sh_bytes := max 0 (sh_bytes c - batch_bytes), sh_batches := max 0 (sh_batches c - 1)\<rparr>"

definition count_batch :: "ShardState \<Rightarrow> ShardState" where
  "count_batch c =
     c\<lparr>sh_batches := sh_batches c + 1, sh_batches_peak := max (sh_batches_peak c) (sh_batches c + 1)\<rparr>"

text \<open>Commit of the plan with its counters, as both successful exits do it.\<close>

definition commit_plan :: "DuplicatePlan option \<Rightarrow> int \<Rightarrow> Dispatcher \<Rightarrow> Dispatcher \<times> unit result" where
  "commit_plan plan skipped_bytes d =
     (case (plan, dx_suppressor d) of
        (Some p, Some s) \<Rightarrow>
          (case suppressor_commit p s of
             Inl e \<Rightarrow> (d, Inl e)
           | Inr s' \<Rightarrow>
               (d\<lparr>dx_suppressor := Some s', dx_suppressed_packets := dx_suppressed_packets d + int (length (dp_pairs p)),
                  dx_suppressed_bytes := dx_suppressed_bytes d + skipped_bytes\<rparr>, Inr ()))
      | _ \<Rightarrow> (d, Inr ()))"

text \<open>From the reservation to the end of \<open>_dispatch_batch\<close>.\<close>

definition admit ::
  "nat \<Rightarrow> ParsedPacket list \<Rightarrow> ParsedPacket list \<Rightarrow> DuplicatePlan option \<Rightarrow> dispatch_env \<Rightarrow> Dispatcher
     \<Rightarrow> (Dispatcher \<times> unit result) option" where
  "admit shard original packets plan env d =
     (let batch_bytes = captured_bytes packets;
          d0 = update_shard shard (finish_batches (de_finished env)) d in
      case reserve (dx_max_worker_queue_bytes d) batch_bytes (dx_offline d) (de_waits env) (shard_of d0 shard) of
        None \<Rightarrow> None
      | Some (c, Inl e) \<Rightarrow> Some (update_shard shard (\<lambda>_. c) d0, Inl e)
      | Some (c, Inr False) \<Rightarrow>
          Some (drop_for_bytes shard plan original (de_telemetry_full env) (update_shard shard (\<lambda>_. c) d0))
      | Some (c, Inr True) \<Rightarrow>
          (let d1 = update_shard shard (\<lambda>_. count_batch c) d0 in
           case (if dx_offline d then put_offline (de_puts env) else put_live (de_puts env)) of
             None \<Rightarrow> None
           | Some (Inl e) \<Rightarrow> Some (update_shard shard (give_back batch_bytes) d1, Inl e)
           | Some (Inr False) \<Rightarrow>
               Some (drop_for_slots shard plan original (de_telemetry_full env)
                       (update_shard shard (give_back batch_bytes) d1))
           | Some (Inr True) \<Rightarrow>
               (let d2 = (update_shard shard (\<lambda>c. c\<lparr>sh_queue := sh_queue c @ [(packets, batch_bytes)]\<rparr>) d1)
                           \<lparr>dx_dispatched_packets := dx_dispatched_packets d1 + int (length packets)\<rparr> in
                case commit_plan plan (captured_bytes original - batch_bytes) d2 of
                  (d3, Inr _) \<Rightarrow> Some (d3, Inr ())
                | (d3, Inl e) \<Rightarrow> Some (update_shard shard (give_back batch_bytes) d3, Inl e))))"

definition dispatch_pressure :: "Dispatcher \<Rightarrow> nat \<Rightarrow> ParsedPacket list \<Rightarrow> bool" where
  "dispatch_pressure d shard packets \<longleftrightarrow>
     sh_bytes (shard_of d shard) + captured_bytes packets \<ge> max 1048576 (dx_max_worker_queue_bytes d div 20)
     \<or> sh_batches (shard_of d shard) \<ge> max 1 (dx_queue_size d div 20)"

definition dispatch_batch ::
  "nat \<Rightarrow> ParsedPacket list \<Rightarrow> (int, ForwardedFrame) odict \<Rightarrow> dispatch_env \<Rightarrow> Dispatcher
     \<Rightarrow> (Dispatcher \<times> unit result) option" where
  "dispatch_batch shard packets frames env d =
     (if packets = [] then Some (d, Inr ())
      else
        (case dx_suppressor d of
           None \<Rightarrow> admit shard packets packets None env d
         | Some s \<Rightarrow>
             (case suppressor_plan s packets frames (dispatch_pressure d shard packets) of
                Inl e \<Rightarrow> Some (d, Inl e)
              | Inr (s1, plan) \<Rightarrow>
                  let d1 = d\<lparr>dx_suppressor := Some s1\<rparr> in
                  if dp_retained plan = [] then Some (commit_plan (Some plan) (captured_bytes packets) d1)
                  else admit shard packets (dp_retained plan) (Some plan) env d1)))"

section \<open>One capture batch\<close>

record CaptureState =
  cs_router :: Router
  cs_dispatcher :: Dispatcher
  cs_captured_packets :: int
  cs_capture_parse_errors :: int
  cs_capture_ignored_packets :: int

text \<open>What a batch collects: the packets pending for each worker and the described frames.\<close>

record PendingBatch =
  pb_pending :: "ParsedPacket list list"
  pb_frames :: "(int, ForwardedFrame) odict"

text \<open>The clock at a packet, whether its telemetry event finds the queue full, and the packet.\<close>

type_synonym capture_input = "int \<times> bool \<times> CapturedPacket"

definition capture_packet ::
  "(string \<Rightarrow> nat) \<Rightarrow> bytes \<Rightarrow> capture_input \<Rightarrow> CaptureState \<times> PendingBatch
     \<Rightarrow> (CaptureState \<times> PendingBatch) \<times> unit result" where
  "capture_packet digest local_mac input st =
     (let (now, full, captured) = input;
          (cs, pb) = st;
          cs1 = cs\<lparr>cs_captured_packets := cs_captured_packets cs + 1\<rparr> in
      case parse_packet_strict captured of
        Inl (PacketDecodeError m) \<Rightarrow>
          ((cs1\<lparr>cs_capture_parse_errors := cs_capture_parse_errors cs1 + 1,
                cs_dispatcher := operation full
                  (CaptureParseErrorEvent (cp_packet_id captured) (PacketDecodeError m)) (cs_dispatcher cs1)\<rparr>, pb), Inr ())
      | Inl e \<Rightarrow>
          ((cs1\<lparr>cs_dispatcher := operation full (CaptureParserFatal (cp_packet_id captured) e) (cs_dispatcher cs1)\<rparr>, pb), Inl e)
      | Inr None \<Rightarrow> ((cs1\<lparr>cs_capture_ignored_packets := cs_capture_ignored_packets cs1 + 1\<rparr>, pb), Inr ())
      | Inr (Some parsed) \<Rightarrow>
          (case route digest now parsed (cs_router cs1) of
             Inl e \<Rightarrow> ((cs1, pb), Inl e)
           | Inr (router, shard) \<Rightarrow>
               let pb1 = pb\<lparr>pb_pending := (pb_pending pb)[shard := pb_pending pb ! shard @ [parsed]]\<rparr>;
                   frame = (if dx_suppressor (cs_dispatcher cs1) = None then None
                            else describe_forwarded_frame captured parsed local_mac) in
               ((cs1\<lparr>cs_router := router\<rparr>,
                 case frame of None \<Rightarrow> pb1 | Some f \<Rightarrow> pb1\<lparr>pb_frames := od_put (pp_packet_id parsed) f (pb_frames pb1)\<rparr>),
                Inr ())))"

fun capture_packets ::
  "(string \<Rightarrow> nat) \<Rightarrow> bytes \<Rightarrow> capture_input list \<Rightarrow> CaptureState \<times> PendingBatch
     \<Rightarrow> (CaptureState \<times> PendingBatch) \<times> unit result" where
  "capture_packets digest local_mac [] st = (st, Inr ())"
| "capture_packets digest local_mac (input # inputs) st =
     (case capture_packet digest local_mac input st of
        (st1, Inl e) \<Rightarrow> (st1, Inl e)
      | (st1, Inr _) \<Rightarrow> capture_packets digest local_mac inputs st1)"

text \<open>\<open>for shard, packets in enumerate(pending)\<close>, from a shard on.\<close>

fun dispatch_pending ::
  "nat \<Rightarrow> ParsedPacket list list \<Rightarrow> (int, ForwardedFrame) odict \<Rightarrow> (nat \<Rightarrow> dispatch_env) \<Rightarrow> Dispatcher
     \<Rightarrow> (Dispatcher \<times> unit result) option" where
  "dispatch_pending shard [] frames env d = Some (d, Inr ())"
| "dispatch_pending shard (packets # pending) frames env d =
     (case dispatch_batch shard packets frames (env shard) d of
        None \<Rightarrow> None
      | Some (d1, Inl e) \<Rightarrow> Some (d1, Inl e)
      | Some (d1, Inr _) \<Rightarrow> dispatch_pending (Suc shard) pending frames env d1)"

definition capture_round ::
  "(string \<Rightarrow> nat) \<Rightarrow> bytes \<Rightarrow> capture_input list \<Rightarrow> (nat \<Rightarrow> dispatch_env) \<Rightarrow> CaptureState
     \<Rightarrow> (CaptureState \<times> unit result) option" where
  "capture_round digest local_mac inputs env cs =
     (let pb0 = \<lparr>pb_pending = replicate (ro_workers (cs_router cs)) [], pb_frames = []\<rparr> in
      case capture_packets digest local_mac inputs (cs, pb0) of
        ((cs1, pb), Inl e) \<Rightarrow> Some (cs1, Inl e)
      | ((cs1, pb), Inr _) \<Rightarrow>
          (case dispatch_pending 0 (pb_pending pb) (pb_frames pb) env (cs_dispatcher cs1) of
             None \<Rightarrow> None
           | Some (d, r) \<Rightarrow> Some (cs1\<lparr>cs_dispatcher := d\<rparr>, r)))"

section \<open>Counters of a shard\<close>

definition queue_bytes :: "(ParsedPacket list \<times> int) list \<Rightarrow> int" where
  "queue_bytes q = sum_list (map snd q)"

text \<open>The counters stand for the unfinished batches plus what is being reserved.\<close>

definition shard_inv :: "int \<Rightarrow> int \<Rightarrow> int \<Rightarrow> ShardState \<Rightarrow> bool" where
  "shard_inv max_bytes extra n c \<longleftrightarrow> (\<forall>b \<in> set (sh_queue c). 0 \<le> snd b)
     \<and> sh_bytes c = queue_bytes (sh_queue c) + extra \<and> sh_batches c = int (length (sh_queue c)) + n
     \<and> sh_bytes c \<le> sh_bytes_peak c \<and> sh_bytes_peak c \<le> max_bytes \<and> sh_batches c \<le> sh_batches_peak c"

lemma queue_bytes_simps [simp]:
  "queue_bytes [] = 0" "queue_bytes (b # q) = snd b + queue_bytes q" "queue_bytes (q @ q') = queue_bytes q + queue_bytes q'"
  by (simp_all add: queue_bytes_def)

lemma queue_bytes_nonneg: "\<forall>b \<in> set q. 0 \<le> snd b \<Longrightarrow> 0 \<le> queue_bytes q"
  by (induction q) auto

lemma captured_bytes_nonneg: "0 \<le> captured_bytes packets"
  by (induction packets) (auto simp: captured_bytes_def)

lemma finish_batch_inv: "shard_inv m 0 0 c \<Longrightarrow> shard_inv m 0 0 (finish_batch c)"
  using queue_bytes_nonneg [of "tl (sh_queue c)"]
  by (cases "sh_queue c") (auto simp: shard_inv_def finish_batch_def release_reserved_queue_units_def)

lemma finish_batches_inv: "shard_inv m 0 0 c \<Longrightarrow> shard_inv m 0 0 (finish_batches n c)"
  unfolding finish_batches_def by (induction n) (auto intro: finish_batch_inv)

lemma reserve_inv:
  assumes "reserve m b offline waits c = Some (c', r)" "shard_inv m 0 0 c" "0 \<le> b"
  shows "case r of Inr True \<Rightarrow> shard_inv m b 0 c' | _ \<Rightarrow> shard_inv m 0 0 c'"
  using assms
proof (induction waits arbitrary: c)
  case Nil
  then show ?case
    by (auto simp: reserve.simps [of _ _ _ "[]"] try_reserve_def Let_def shard_inv_def split: if_splits)
next
  case (Cons w waits)
  obtain n check stop where w: "w = (n, check, stop)" by (cases w)
  show ?case
  proof (cases "sh_bytes c + b > m \<and> offline \<and> \<not> b > m")
    case False
    with Cons.prems show ?thesis
      by (auto simp: reserve.simps [of _ _ _ "w # waits"] try_reserve_def Let_def shard_inv_def split: if_splits)
  next
    case True
    have f: "shard_inv m 0 0 (finish_batches n c)" using Cons.prems(2) by (rule finish_batches_inv)
    from True Cons.prems(1) w have "reserve m b offline waits (finish_batches n c) = Some (c', r)
        \<or> (c' = finish_batches n c \<and> (\<exists>e. r = Inl e))"
      unfolding w reserve.simps [of _ _ _ "(n, check, stop) # waits"]
      by (auto simp: try_reserve_def Let_def split: sum.splits if_splits)
    then show ?thesis using Cons.IH [OF _ f Cons.prems(3)] f by auto
  qed
qed

lemma reserve_live: "\<exists>c' ok. reserve m b False waits c = Some (c', Inr ok)"
  by (simp add: reserve.simps split: prod.split)

lemma count_give_back: "shard_inv m b 0 c \<Longrightarrow> 0 \<le> b \<Longrightarrow> shard_inv m 0 0 (give_back b (count_batch c))"
  using queue_bytes_nonneg [of "sh_queue c"] by (auto simp: shard_inv_def give_back_def count_batch_def)

lemma count_queue: "shard_inv m b 0 c \<Longrightarrow> 0 \<le> b \<Longrightarrow>
    shard_inv m 0 0 ((count_batch c)\<lparr>sh_queue := sh_queue (count_batch c) @ [(packets, b)]\<rparr>)"
  by (auto simp: shard_inv_def count_batch_def)

section \<open>The dispatcher\<close>

definition dispatcher_ok :: "Dispatcher \<Rightarrow> bool" where
  "dispatcher_ok d \<longleftrightarrow> (\<forall>c \<in> set (dx_shards d). shard_inv (dx_max_worker_queue_bytes d) 0 0 c)
     \<and> (\<forall>s. dx_suppressor d = Some s \<longrightarrow> suppressor_ok s)"

definition accounted :: "Dispatcher \<Rightarrow> int" where
  "accounted d = dx_dispatched_packets d + dx_suppressed_packets d + dx_userspace_queue_drops d"

definition dispatch_params :: "Dispatcher \<Rightarrow> int \<times> int \<times> bool \<times> nat \<times> bool" where
  "dispatch_params d = (dx_max_worker_queue_bytes d, dx_queue_size d, dx_offline d, length (dx_shards d),
     dx_suppressor d = None)"

lemma update_shard_fields [simp]:
  "dx_max_worker_queue_bytes (update_shard i f d) = dx_max_worker_queue_bytes d"
  "dx_queue_size (update_shard i f d) = dx_queue_size d"
  "dx_offline (update_shard i f d) = dx_offline d" "dx_suppressor (update_shard i f d) = dx_suppressor d"
  "length (dx_shards (update_shard i f d)) = length (dx_shards d)"
  "dx_dispatched_packets (update_shard i f d) = dx_dispatched_packets d"
  "dx_suppressed_packets (update_shard i f d) = dx_suppressed_packets d"
  "dx_userspace_queue_drops (update_shard i f d) = dx_userspace_queue_drops d"
  by (simp_all add: update_shard_def)

lemma shard_of_update [simp]: "i < length (dx_shards d) \<Longrightarrow> shard_of (update_shard i f d) i = f (shard_of d i)"
  by (simp add: shard_of_def update_shard_def)

lemma update_update [simp]: "i < length (dx_shards d) \<Longrightarrow> update_shard i f (update_shard i g d) = update_shard i (\<lambda>c. f (g c)) d"
  by (simp add: update_shard_def shard_of_def)

lemma dispatcher_ok_update:
  "dispatcher_ok d \<Longrightarrow> i < length (dx_shards d) \<Longrightarrow> shard_inv (dx_max_worker_queue_bytes d) 0 0 (f (shard_of d i)) \<Longrightarrow>
     dispatcher_ok (update_shard i f d)"
  by (auto simp: dispatcher_ok_def update_shard_def dest!: set_update_subset_insert [THEN subsetD])

lemma dispatcher_ok_frame:
  "dispatcher_ok d \<Longrightarrow> dx_shards t = dx_shards d \<Longrightarrow> dx_max_worker_queue_bytes t = dx_max_worker_queue_bytes d \<Longrightarrow>
     (\<And>s. dx_suppressor t = Some s \<Longrightarrow> suppressor_ok s) \<Longrightarrow> dispatcher_ok t"
  by (simp add: dispatcher_ok_def)

text \<open>What a plan of a batch promises the dispatcher.\<close>

definition plan_good :: "ParsedPacket list \<Rightarrow> DuplicatePlan option \<Rightarrow> Suppressor option \<Rightarrow> bool" where
  "plan_good original plan suppressor \<longleftrightarrow>
     (case (plan, suppressor) of
        (None, None) \<Rightarrow> True
      | (Some p, Some s) \<Rightarrow> suppressor_ok s \<and> (\<exists>frames. pool_ok s frames original p) \<and> partitions original p
      | _ \<Rightarrow> False)"

lemma length_filter_ids:
  assumes "distinct (map f xs)" "distinct ids" "set ids \<subseteq> f ` set xs"
  shows "length (filter (\<lambda>x. f x \<in> set ids) xs) = length ids"
proof -
  let ?ys = "filter (\<lambda>x. f x \<in> set ids) xs"
  have "distinct (map f ?ys)" using assms(1) by (rule distinct_map_filter)
  moreover have "set (map f ?ys) = set ids" using assms(3) by auto
  ultimately show ?thesis using assms(2) by (metis distinct_card length_map)
qed

lemma subseq_set: "subseq xs ys \<Longrightarrow> set xs \<subseteq> set ys"
  by (auto elim: list_emb_set)

lemma distinct_subseq: "subseq xs ys \<Longrightarrow> distinct ys \<Longrightarrow> distinct xs"
  by (induction rule: list_emb.induct) (auto dest: subseq_set)

lemma partition_ids:
  assumes "partitions original p" "distinct (map pp_packet_id original)"
  shows "distinct (map fst (dp_prior_pairs p))" "set (map fst (dp_prior_pairs p)) \<subseteq> pp_packet_id ` set original"
    "set (map pp_packet_id (dp_retained p)) \<inter> set (map fst (dp_prior_pairs p)) = {}"
    "length original = length (dp_retained p) + length (dp_pairs p)" "set (dp_retained p) \<subseteq> set original"
proof -
  have m: "mset (map pp_packet_id original) = mset (map pp_packet_id (dp_retained p) @ map fst (dp_pairs p))"
    and sub: "subseq (dp_prior_pairs p) (dp_pairs p)" "subseq (dp_retained p) original"
    using assms(1) by (auto simp: partitions_def)
  have d: "distinct (map pp_packet_id (dp_retained p) @ map fst (dp_pairs p))"
    using assms(2) mset_eq_imp_distinct_iff [OF m] by blast
  have st: "set (map pp_packet_id original) = set (map pp_packet_id (dp_retained p) @ map fst (dp_pairs p))"
    using m by (rule mset_eq_setD)
  have sf: "subseq (map fst (dp_prior_pairs p)) (map fst (dp_pairs p))" using sub(1) by (rule subseq_map)
  show "distinct (map fst (dp_prior_pairs p))" using d sf by (auto intro: distinct_subseq)
  have ss: "set (map fst (dp_prior_pairs p)) \<subseteq> set (map fst (dp_pairs p))" using sf by (rule subseq_set)
  show "set (map fst (dp_prior_pairs p)) \<subseteq> pp_packet_id ` set original" using ss st by auto
  show "set (map pp_packet_id (dp_retained p)) \<inter> set (map fst (dp_prior_pairs p)) = {}" using d ss by auto
  show "length original = length (dp_retained p) + length (dp_pairs p)" using mset_eq_length [OF m] by simp
  show "set (dp_retained p) \<subseteq> set original" using sub(2) by (rule subseq_set)
qed

lemma captured_bytes_split:
  "captured_bytes (filter P xs) + captured_bytes (filter (\<lambda>x. \<not> P x) xs) = captured_bytes xs"
  by (induction xs) (auto simp: captured_bytes_def)

text \<open>A failed admission: every packet of the batch is a drop or a skip, and the drops are not empty.\<close>

lemma failed_admission_total:
  assumes "dispatcher_ok d" "plan_good original plan (dx_suppressor d)" "distinct (map pp_packet_id original)"
    and "original \<noteq> []" "\<And>p. plan = Some p \<Longrightarrow> dp_retained p \<noteq> []"
  shows "\<exists>t dropped. failed_admission_packets plan original d = Inr (t, dropped, captured_bytes dropped)
     \<and> dispatcher_ok t \<and> dispatch_params t = dispatch_params d \<and> dx_shards t = dx_shards d \<and> dropped \<noteq> []
     \<and> dx_dispatched_packets t = dx_dispatched_packets d \<and> dx_userspace_queue_drops t = dx_userspace_queue_drops d
     \<and> dx_suppressed_packets t + int (length dropped) = dx_suppressed_packets d + int (length original)"
proof (cases plan)
  case None
  then have "failed_admission_packets plan original d = Inr (d, original, captured_bytes original)"
    by (simp add: failed_admission_packets_def)
  with assms(1,4) show ?thesis by auto
next
  case (Some p)
  with assms(2) obtain s frames where s: "dx_suppressor d = Some s" "suppressor_ok s" "pool_ok s frames original p" "partitions original p"
    by (auto simp: plan_good_def split: option.splits)
  obtain s' where s': "commit_prior_skips_on_failure p s = Inr s'" "suppressor_core s'" "table_shrinks s s'"
    using consume_uses_total [of s "dp_accepted_uses p"] s(2,3)
    unfolding pool_ok_def suppressor_ok_def commit_prior_skips_on_failure_def by blast
  then have ok': "suppressor_ok s'" using s(2) table_shrinks_over by (auto simp: suppressor_ok_def)
  define ids where "ids = map fst (dp_prior_pairs p)"
  note part = partition_ids [OF s(4) assms(3), folded ids_def]
  let ?d = "d\<lparr>dx_suppressor := Some s'\<rparr>"
  show ?thesis
  proof (cases "dp_prior_pairs p = []")
    case True
    have "failed_admission_packets plan original d = Inr (?d, original, captured_bytes original)"
      using Some s(1) s'(1) True by (simp add: failed_admission_packets_def)
    moreover have "dispatcher_ok ?d" using assms(1) ok' by (auto intro: dispatcher_ok_frame)
    ultimately show ?thesis using assms(4) s(1) by (auto simp: dispatch_params_def)
  next
    case False
    let ?skip = "filter (\<lambda>q. pp_packet_id q \<in> set ids) original" and ?drop = "filter (\<lambda>q. pp_packet_id q \<notin> set ids) original"
    let ?t = "?d\<lparr>dx_suppressed_packets := dx_suppressed_packets d + int (length ids),
        dx_suppressed_bytes := dx_suppressed_bytes d + captured_bytes ?skip\<rparr>"
    have "captured_bytes original - captured_bytes ?skip = captured_bytes ?drop"
      using captured_bytes_split [of "\<lambda>q. pp_packet_id q \<in> set ids" original] by linarith
    then have e: "failed_admission_packets plan original d = Inr (?t, ?drop, captured_bytes ?drop)"
      using Some s(1) s'(1) False part(1) by (simp add: failed_admission_packets_def Let_def flip: ids_def)
    have "length ?skip = length ids" by (rule length_filter_ids [OF assms(3) part(1,2)])
    then have n: "length ids + length ?drop = length original"
      using sum_length_filter_compl [of "\<lambda>q. pp_packet_id q \<in> set ids" original] by simp
    obtain q where q: "q \<in> set (dp_retained p)" using assms(5) Some by (cases "dp_retained p") auto
    then have "q \<in> set ?drop" using part(3,5) by auto
    then have "?drop \<noteq> []" by (auto simp: filter_empty_conv)
    moreover have "dispatcher_ok ?t" using assms(1) ok' by (auto intro: dispatcher_ok_frame)
    ultimately show ?thesis using e n s(1)
      by (intro exI [of _ ?t] exI [of _ ?drop]) (auto simp: dispatch_params_def)
  qed
qed

lemma operation_fields [simp]:
  "dx_shards (operation full r d) = dx_shards d" "dx_suppressor (operation full r d) = dx_suppressor d"
  "dx_max_worker_queue_bytes (operation full r d) = dx_max_worker_queue_bytes d"
  "dispatch_params (operation full r d) = dispatch_params d" "accounted (operation full r d) = accounted d"
  by (simp_all add: operation_def dispatch_params_def accounted_def)

text \<open>Both ways of dropping a batch account for all of it.\<close>

lemma drop_accounts:
  assumes "dispatcher_ok d" "plan_good original plan (dx_suppressor d)" "distinct (map pp_packet_id original)"
    and "original \<noteq> []" "\<And>p. plan = Some p \<Longrightarrow> dp_retained p \<noteq> []"
    and "discard = drop_for_bytes \<or> discard = drop_for_slots"
  shows "\<exists>t. discard shard plan original full d = (t, Inr ()) \<and> dispatcher_ok t \<and> dispatch_params t = dispatch_params d
     \<and> accounted t = accounted d + int (length original)"
proof -
  obtain t dropped where t: "failed_admission_packets plan original d = Inr (t, dropped, captured_bytes dropped)"
     "dispatcher_ok t" "dispatch_params t = dispatch_params d" "dropped \<noteq> []"
     "dx_dispatched_packets t = dx_dispatched_packets d" "dx_userspace_queue_drops t = dx_userspace_queue_drops d"
     "dx_suppressed_packets t + int (length dropped) = dx_suppressed_packets d + int (length original)"
    using failed_admission_total [OF assms(1-5)] by blast
  obtain q qs where q: "dropped = q # qs" using t(4) by (cases dropped) auto
  have sup: "\<And>s. dx_suppressor t = Some s \<Longrightarrow> suppressor_ok s" using t(2) by (simp add: dispatcher_ok_def)
  have acc: "accounted t + int (length dropped) = accounted d + int (length original)"
    using t(5-7) by (simp add: accounted_def)
  from assms(6) show ?thesis
  proof
    assume "discard = drop_for_bytes"
    then show ?thesis using t(1-3) q sup acc
      by (auto simp: drop_for_bytes_def drop_record_def Let_def intro!: dispatcher_ok_frame [OF t(2)])
        (auto simp: dispatch_params_def accounted_def)
  next
    assume "discard = drop_for_slots"
    then show ?thesis using t(1-3) q sup acc
      by (auto simp: drop_for_slots_def drop_record_def Let_def intro!: dispatcher_ok_frame [OF t(2)])
        (auto simp: dispatch_params_def accounted_def)
  qed
qed

definition plan_skips :: "DuplicatePlan option \<Rightarrow> nat" where
  "plan_skips plan = (case plan of None \<Rightarrow> 0 | Some p \<Rightarrow> length (dp_pairs p))"

lemma commit_plan_total:
  assumes "dispatcher_ok d" "plan_good original plan (dx_suppressor d)"
  shows "\<exists>t. commit_plan plan skipped d = (t, Inr ()) \<and> dispatcher_ok t \<and> dispatch_params t = dispatch_params d
     \<and> accounted t = accounted d + int (plan_skips plan)"
proof (cases plan)
  case None
  with assms show ?thesis by (simp add: commit_plan_def plan_skips_def)
next
  case (Some p)
  with assms(2) obtain s frames where s: "dx_suppressor d = Some s" "suppressor_ok s" "pool_ok s frames original p"
    by (auto simp: plan_good_def split: option.splits)
  obtain s' where s': "suppressor_commit p s = Inr s'" "suppressor_ok s'"
    using commit_keeps [OF _ s(3)] s(2) unfolding suppressor_ok_def by blast
  let ?t = "d\<lparr>dx_suppressor := Some s', dx_suppressed_packets := dx_suppressed_packets d + int (length (dp_pairs p)),
                  dx_suppressed_bytes := dx_suppressed_bytes d + skipped\<rparr>"
  have "dispatcher_ok ?t" using assms(1) s'(2) by (auto intro: dispatcher_ok_frame)
  with Some s(1) s'(1) show ?thesis
    by (simp add: commit_plan_def plan_skips_def dispatch_params_def accounted_def)
qed

lemma update_shard_params [simp]: "dispatch_params (update_shard i f d) = dispatch_params d"
  "accounted (update_shard i f d) = accounted d"
  by (simp_all add: dispatch_params_def accounted_def)

text \<open>The two outcomes of a put.\<close>

lemma put_cases:
  assumes "(if offline then put_offline events else put_live events) = Some r"
  shows "(\<exists>b. r = Inr b) \<or> offline \<and> (\<exists>e. r = Inl e)"
  using assms by (cases r) (auto simp: put_live_def split: if_splits list.splits put_event.splits)

definition plan_retained :: "ParsedPacket list \<Rightarrow> DuplicatePlan option \<Rightarrow> ParsedPacket list" where
  "plan_retained original plan = (case plan of None \<Rightarrow> original | Some p \<Rightarrow> dp_retained p)"

lemma plan_counts:
  "plan_good original plan s \<Longrightarrow> distinct (map pp_packet_id original) \<Longrightarrow>
     length (plan_retained original plan) + plan_skips plan = length original"
  using partition_ids(4) [of original "the plan"]
  by (cases plan) (auto simp: plan_retained_def plan_skips_def plan_good_def split: option.splits)

definition admit_good :: "Dispatcher \<Rightarrow> nat \<Rightarrow> ParsedPacket list \<Rightarrow> DuplicatePlan option \<Rightarrow> bool" where
  "admit_good d shard original plan \<longleftrightarrow> dispatcher_ok d \<and> shard < length (dx_shards d)
     \<and> plan_good original plan (dx_suppressor d) \<and> distinct (map pp_packet_id original)
     \<and> original \<noteq> [] \<and> plan_retained original plan \<noteq> []"

definition admit_result :: "Dispatcher \<Rightarrow> ParsedPacket list \<Rightarrow> Dispatcher \<Rightarrow> unit result \<Rightarrow> bool" where
  "admit_result d original t r \<longleftrightarrow> dispatcher_ok t \<and> dispatch_params t = dispatch_params d
     \<and> (r = Inr () \<longrightarrow> accounted t = accounted d + int (length original))
     \<and> (\<not> dx_offline d \<longrightarrow> r = Inr ())"

lemma shard_of_inv: "dispatcher_ok d \<Longrightarrow> i < length (dx_shards d) \<Longrightarrow> shard_inv (dx_max_worker_queue_bytes d) 0 0 (shard_of d i)"
  by (simp add: dispatcher_ok_def shard_of_def)

lemma admitted_batch:
  assumes "admit_good d shard original plan" "packets = plan_retained original plan"
    and "shard_inv (dx_max_worker_queue_bytes d) (captured_bytes packets) 0 c"
    and d2: "d2 = (update_shard shard (\<lambda>_. (count_batch c)\<lparr>sh_queue := sh_queue (count_batch c) @ [(packets, captured_bytes packets)]\<rparr>) d)
       \<lparr>dx_dispatched_packets := dx_dispatched_packets d + int (length packets)\<rparr>"
  shows "\<exists>t. commit_plan plan skipped d2 = (t, Inr ()) \<and> admit_result d original t (Inr ())"
proof -
  let ?c = "(count_batch c)\<lparr>sh_queue := sh_queue (count_batch c) @ [(packets, captured_bytes packets)]\<rparr>"
  have good: "dispatcher_ok d" "shard < length (dx_shards d)" "plan_good original plan (dx_suppressor d)"
    "distinct (map pp_packet_id original)" using assms(1) by (simp_all add: admit_good_def)
  have "dispatcher_ok (update_shard shard (\<lambda>_. ?c) d)"
    by (rule dispatcher_ok_update [OF good(1,2)]) (rule count_queue [OF assms(3) captured_bytes_nonneg])
  then have ok: "dispatcher_ok d2" unfolding d2 by (rule dispatcher_ok_frame) (use good(1) in \<open>auto simp: dispatcher_ok_def\<close>)
  have p2: "dispatch_params d2 = dispatch_params d" "accounted d2 = accounted d + int (length packets)" "dx_suppressor d2 = dx_suppressor d"
    unfolding d2 by (simp_all add: dispatch_params_def accounted_def)
  have "plan_good original plan (dx_suppressor d2)" using good(3) p2(3) by simp
  from commit_plan_total [OF ok this] obtain t where t: "commit_plan plan skipped d2 = (t, Inr ())" "dispatcher_ok t"
    "dispatch_params t = dispatch_params d2" "accounted t = accounted d2 + int (plan_skips plan)" by blast
  with p2 plan_counts [OF good(3,4)] assms(2) show ?thesis by (auto simp: admit_result_def)
qed

lemma dropped_batch:
  assumes "admit_good d shard original plan" "shard_inv (dx_max_worker_queue_bytes d) 0 0 c"
    and "discard = drop_for_bytes \<or> discard = drop_for_slots"
  shows "\<exists>t. discard shard plan original full (update_shard shard (\<lambda>_. c) d) = (t, Inr ()) \<and> admit_result d original t (Inr ())"
proof -
  have good: "dispatcher_ok d" "shard < length (dx_shards d)" "plan_good original plan (dx_suppressor d)"
    "distinct (map pp_packet_id original)" "original \<noteq> []" "\<And>p. plan = Some p \<Longrightarrow> dp_retained p \<noteq> []"
    using assms(1) by (auto simp: admit_good_def plan_retained_def)
  have "dispatcher_ok (update_shard shard (\<lambda>_. c) d)" by (rule dispatcher_ok_update [OF good(1,2)]) (rule assms(2))
  from drop_accounts [OF this _ good(4-6) assms(3)] good(3) show ?thesis by (auto simp: admit_result_def)
qed

lemma admit_sound:
  assumes g: "admit_good d shard original plan"
    and a: "admit shard original (plan_retained original plan) plan env d = Some (t, r)"
  shows "admit_result d original t r"
proof -
  let ?packets = "plan_retained original plan" and ?m = "dx_max_worker_queue_bytes d"
  let ?b = "captured_bytes ?packets" and ?d0 = "update_shard shard (finish_batches (de_finished env)) d"
  have good: "dispatcher_ok d" "shard < length (dx_shards d)" using g by (simp_all add: admit_good_def)
  have upd: "update_shard shard (\<lambda>_. c) ?d0 = update_shard shard (\<lambda>_. c) d" for c using good(2) by simp
  have inv0: "shard_inv ?m 0 0 (shard_of ?d0 shard)"
    using shard_of_inv [OF good] good(2) by (simp add: finish_batches_inv)
  have okc: "dispatcher_ok (update_shard shard (\<lambda>_. c) d)" if "shard_inv ?m 0 0 c" for c
    by (rule dispatcher_ok_update [OF good]) (rule that)
  obtain c res where res: "reserve ?m ?b (dx_offline d) (de_waits env) (shard_of ?d0 shard) = Some (c, res)"
    using a by (auto simp: admit_def Let_def split: option.splits)
  note ri = reserve_inv [OF res inv0 captured_bytes_nonneg]
  have live: "\<not> dx_offline d \<Longrightarrow> \<exists>ok. res = Inr ok" using res reserve_live [of ?m ?b "de_waits env" "shard_of ?d0 shard"] by auto
  consider (err) e where "res = Inl e" | (no) "res = Inr False" | (yes) "res = Inr True" by (cases res) auto
  then show ?thesis
  proof cases
    case err
    then have e: "t = update_shard shard (\<lambda>_. c) d" "r = Inl e" using a res upd by (simp_all add: admit_def)
    have "shard_inv ?m 0 0 c" using ri err by simp
    with okc e live err show ?thesis by (auto simp: admit_result_def)
  next
    case no
    then have e: "(t, r) = drop_for_bytes shard plan original (de_telemetry_full env) (update_shard shard (\<lambda>_. c) d)"
      using a res upd by (simp add: admit_def)
    have "shard_inv ?m 0 0 c" using ri no by simp
    from dropped_batch [OF g this, of drop_for_bytes "de_telemetry_full env"] e show ?thesis by auto
  next
    case yes
    have rc: "shard_inv ?m ?b 0 c" using ri yes by simp
    let ?put = "if dx_offline d then put_offline (de_puts env) else put_live (de_puts env)"
    let ?d1 = "update_shard shard (\<lambda>_. count_batch c) d"
    obtain pr where pr: "?put = Some pr" using a res yes by (cases ?put) (auto simp: admit_def Let_def)
    have gb: "shard_inv ?m 0 0 (give_back ?b (count_batch c))" by (rule count_give_back [OF rc captured_bytes_nonneg])
    have updg: "update_shard shard (give_back ?b) ?d1 = update_shard shard (\<lambda>_. give_back ?b (count_batch c)) d"
      using good(2) by simp
    consider (e) e where "pr = Inl e" "dx_offline d" | (full) "pr = Inr False" | (ok) "pr = Inr True"
      using put_cases [OF pr] by (cases pr) auto
    then show ?thesis
    proof cases
      case e
      then have "t = update_shard shard (\<lambda>_. give_back ?b (count_batch c)) d" "r = Inl e"
        using a res yes pr upd updg by (simp_all add: admit_def Let_def)
      with okc [OF gb] e(2) show ?thesis by (auto simp: admit_result_def)
    next
      case full
      then have "(t, r) = drop_for_slots shard plan original (de_telemetry_full env)
          (update_shard shard (\<lambda>_. give_back ?b (count_batch c)) d)"
        using a res yes pr upd updg by (simp add: admit_def Let_def)
      with dropped_batch [OF g gb, of drop_for_slots "de_telemetry_full env"] show ?thesis by auto
    next
      case ok
      let ?q = "\<lambda>c. c\<lparr>sh_queue := sh_queue c @ [(?packets, ?b)]\<rparr>"
      have updq: "update_shard shard ?q ?d1 = update_shard shard (\<lambda>_. ?q (count_batch c)) d" using good(2) by simp
      let ?d2 = "(update_shard shard (\<lambda>_. ?q (count_batch c)) d)
         \<lparr>dx_dispatched_packets := dx_dispatched_packets d + int (length ?packets)\<rparr>"
      obtain t' where t': "commit_plan plan (captured_bytes original - ?b) ?d2 = (t', Inr ())" "admit_result d original t' (Inr ())"
        using admitted_batch [OF g refl rc refl] by blast
      then have "t = t'" "r = Inr ()" using a res yes pr ok upd updq by (simp_all add: admit_def Let_def)
      with t'(2) show ?thesis by simp
    qed
  qed
qed

lemma plan_promises:
  assumes "suppressor_ok s" "suppressor_plan s packets frames pressure = Inr (s1, plan)"
  shows "plan_good packets (Some plan) (Some s1)"
proof -
  from plan_total [OF assms(1), of packets frames pressure] assms(2)
  have s1: "suppressor_core s1" "table_shrinks s s1" and p: "plan = fold (plan_packet s1 frames) packets (empty_plan pressure)" by auto
  have "suppressor_ok s1" using s1 assms(1) table_shrinks_over by (auto simp: suppressor_ok_def)
  moreover have "pool_ok s1 frames packets plan" unfolding p by (rule fold_plan_pool)
  moreover have "partitions packets plan" unfolding p by (rule fold_plan_partitions)
  ultimately show ?thesis by (auto simp: plan_good_def)
qed

lemma dispatch_batch_sound:
  assumes "dispatcher_ok d" "shard < length (dx_shards d)" "distinct (map pp_packet_id packets)"
    and "dispatch_batch shard packets frames env d = Some (t, r)"
  shows "admit_result d packets t r"
proof (cases "packets = []")
  case True
  with assms show ?thesis by (simp add: dispatch_batch_def admit_result_def)
next
  case ne: False
  show ?thesis
  proof (cases "dx_suppressor d")
    case None
    have g: "admit_good d shard packets None"
      using assms(1-3) ne None by (simp add: admit_good_def plan_good_def plan_retained_def)
    from admit_sound [OF g, of env t r] assms(4) ne None show ?thesis by (simp add: dispatch_batch_def plan_retained_def)
  next
    case (Some s)
    have s: "suppressor_ok s" using assms(1) Some by (simp add: dispatcher_ok_def)
    let ?pr = "dispatch_pressure d shard packets"
    obtain s1 plan where p: "suppressor_plan s packets frames ?pr = Inr (s1, plan)"
      using plan_total [OF s, of packets frames ?pr] by blast
    note good = plan_promises [OF s p]
    let ?d = "d\<lparr>dx_suppressor := Some s1\<rparr>"
    have ok: "dispatcher_ok ?d" using assms(1) by (rule dispatcher_ok_frame) (use good in \<open>auto simp: plan_good_def\<close>)
    have same: "dispatch_params ?d = dispatch_params d" "accounted ?d = accounted d" using Some by (simp_all add: dispatch_params_def accounted_def)
    have res: "admit_result ?d packets t' r' \<Longrightarrow> admit_result d packets t' r'" for t' r'
      unfolding admit_result_def using same by simp
    have gd: "plan_good packets (Some plan) (dx_suppressor ?d)" using good by simp
    show ?thesis
    proof (cases "dp_retained plan = []")
      case True
      from commit_plan_total [OF ok gd, of "captured_bytes packets"] obtain t' where
        t': "commit_plan (Some plan) (captured_bytes packets) ?d = (t', Inr ())" "dispatcher_ok t'"
          "dispatch_params t' = dispatch_params ?d" "accounted t' = accounted ?d + int (plan_skips (Some plan))" by blast
      have "plan_skips (Some plan) = length packets"
        using plan_counts [OF good assms(3)] True by (simp add: plan_retained_def)
      then have "admit_result ?d packets t' (Inr ())" using t' by (simp add: admit_result_def)
      moreover have "t = t'" "r = Inr ()" using assms(4) ne Some p True t'(1) by (simp_all add: dispatch_batch_def)
      ultimately show ?thesis using res by simp
    next
      case False
      have g: "admit_good ?d shard packets (Some plan)"
        using ok assms(2,3) ne gd False by (simp add: admit_good_def plan_retained_def)
      have "admit shard packets (plan_retained packets (Some plan)) (Some plan) env ?d = Some (t, r)"
        using assms(4) ne Some p False by (simp add: dispatch_batch_def plan_retained_def)
      from res [OF admit_sound [OF g this]] show ?thesis .
    qed
  qed
qed

lemma dispatch_batch_live:
  assumes "dispatcher_ok d" "shard < length (dx_shards d)" "distinct (map pp_packet_id packets)"
    and "\<not> dx_offline d" "de_puts env \<noteq> []"
  shows "\<exists>t. dispatch_batch shard packets frames env d = Some (t, Inr ())"
proof -
  have admit: "\<exists>t r. admit shard original ps plan env d' = Some (t, r)" if "\<not> dx_offline d'" for original ps plan d'
  proof -
    obtain c ok where "reserve (dx_max_worker_queue_bytes d') (captured_bytes ps) False (de_waits env)
        (shard_of (update_shard shard (finish_batches (de_finished env)) d') shard) = Some (c, Inr ok)"
      using reserve_live by blast
    moreover obtain b where "put_live (de_puts env) = Some (Inr b)"
      using assms(5) by (cases "de_puts env"; cases "hd (de_puts env)") (auto simp: put_live_def)
    ultimately show ?thesis using that
      by (cases ok; cases b) (auto simp: admit_def Let_def split: prod.split sum.split)
  qed
  have "\<exists>t r. dispatch_batch shard packets frames env d = Some (t, r)"
  proof (cases "packets = []")
    case True
    then show ?thesis by (simp add: dispatch_batch_def)
  next
    case False
    show ?thesis
    proof (cases "dx_suppressor d")
      case None
      with False admit [OF assms(4)] show ?thesis by (simp add: dispatch_batch_def)
    next
      case (Some s)
      then have "suppressor_ok s" using assms(1) by (simp add: dispatcher_ok_def)
      then obtain s1 plan where "suppressor_plan s packets frames (dispatch_pressure d shard packets) = Inr (s1, plan)"
        using plan_total by blast
      with False Some admit [of "d\<lparr>dx_suppressor := Some s1\<rparr>"] assms(4) show ?thesis
        by (simp add: dispatch_batch_def Let_def)
    qed
  qed
  then obtain t r where t: "dispatch_batch shard packets frames env d = Some (t, r)" by blast
  from dispatch_batch_sound [OF assms(1-3) t] assms(4) t show ?thesis by (auto simp: admit_result_def)
qed

section \<open>Capture rounds\<close>

text \<open>Decoding keeps the identity of the captured packet.\<close>

definition packet_ident :: "ParsedPacket \<Rightarrow> int \<times> int" where
  "packet_ident p = (pp_packet_id p, pp_captured_length p)"

lemma parse_transport_ident:
  assumes "parse_transport p = Inr q" shows "packet_ident q = packet_ident p"
proof -
  have "packet_ident q = packet_ident p" if "parse_tcp p = Inr q"
    using that unfolding parse_tcp_def Let_def
    by (auto simp: packet_ident_def short_transport_def split: if_splits)
  moreover have "packet_ident q = packet_ident p" if "parse_udp p = Inr q"
    using that unfolding parse_udp_def Let_def
    by (auto simp: packet_ident_def short_transport_def split: if_splits)
  ultimately show ?thesis using assms by (auto simp: parse_transport_def split: if_splits)
qed

lemma parse_packet_strict_ident:
  assumes "parse_packet_strict c = Inr (Some q)"
  shows "packet_ident q = (cp_packet_id c, cp_captured_length c)"
proof -
  have v4: "packet_ident p = (cp_packet_id c, cp_captured_length c)" if "parse_ipv4 c network vs = Inr p" for network vs p
    using that unfolding parse_ipv4_def Let_def
    by (auto simp: packet_ident_def parsed_packet_def split: if_splits)
  have v6: "packet_ident p = (cp_packet_id c, cp_captured_length c)" if "parse_ipv6 c network vs = Inr p" for network vs p
    using that unfolding parse_ipv6_def Let_def
    by (auto simp: packet_ident_def parsed_packet_def split: if_splits)
  from assms show ?thesis
    by (auto simp: parse_packet_strict_def v4 v6 dest!: parse_transport_ident split: if_splits)
qed

definition capture_ok :: "CaptureState \<Rightarrow> bool" where
  "capture_ok cs \<longleftrightarrow> router_ok (cs_router cs) \<and> dispatcher_ok (cs_dispatcher cs)
     \<and> length (dx_shards (cs_dispatcher cs)) = ro_workers (cs_router cs)"

definition unaccounted :: "CaptureState \<Rightarrow> int" where
  "unaccounted cs = cs_captured_packets cs
     - (accounted (cs_dispatcher cs) + cs_capture_parse_errors cs + cs_capture_ignored_packets cs)"

definition pending_ids :: "ParsedPacket list list \<Rightarrow> int list" where
  "pending_ids pending = map pp_packet_id (concat pending)"

text \<open>A batch being sorted: nothing is lost, and the pending packets carry the ids of packets already seen.\<close>

definition sorting :: "CaptureState \<Rightarrow> int list \<Rightarrow> CaptureState \<times> PendingBatch \<Rightarrow> bool" where
  "sorting cs0 seen st \<longleftrightarrow> capture_ok (fst st) \<and> ro_workers (cs_router (fst st)) = ro_workers (cs_router cs0)
     \<and> dispatch_params (cs_dispatcher (fst st)) = dispatch_params (cs_dispatcher cs0)
     \<and> length (pb_pending (snd st)) = ro_workers (cs_router cs0)
     \<and> unaccounted (fst st) = unaccounted cs0 + int (length (concat (pb_pending (snd st))))
     \<and> mset (pending_ids (pb_pending (snd st))) \<subseteq># mset seen"

lemma concat_snoc_mset:
  "i < length xss \<Longrightarrow> mset (concat (xss[i := xss ! i @ [x]])) = add_mset x (mset (concat xss))"
proof (induction xss arbitrary: i)
  case (Cons xs xss)
  then show ?case by (cases i) auto
qed simp

lemma pending_snoc:
  assumes "i < length xss"
  shows "mset (pending_ids (xss[i := xss ! i @ [p]])) = add_mset (pp_packet_id p) (mset (pending_ids xss))"
    and "length (concat (xss[i := xss ! i @ [p]])) = Suc (length (concat xss))"
proof -
  note m = concat_snoc_mset [OF assms, of p]
  show "mset (pending_ids (xss[i := xss ! i @ [p]])) = add_mset (pp_packet_id p) (mset (pending_ids xss))"
    using m by (simp add: pending_ids_def)
  show "length (concat (xss[i := xss ! i @ [p]])) = Suc (length (concat xss))"
    using m by (metis size_mset size_add_mset)
qed

lemma capture_packet_sorting:
  assumes "sorting cs0 seen st"
  shows "\<exists>st'. capture_packet digest mac (now, full, c) st = (st', Inr ()) \<and> sorting cs0 (seen @ [cp_packet_id c]) st'"
proof -
  obtain cs pb where st: "st = (cs, pb)" by (cases st)
  have s: "capture_ok cs" "ro_workers (cs_router cs) = ro_workers (cs_router cs0)"
     "dispatch_params (cs_dispatcher cs) = dispatch_params (cs_dispatcher cs0)"
     "length (pb_pending pb) = ro_workers (cs_router cs0)"
     "unaccounted cs = unaccounted cs0 + int (length (concat (pb_pending pb)))"
     "mset (pending_ids (pb_pending pb)) \<subseteq># mset seen" using assms st by (simp_all add: sorting_def)
  have grow: "mset (pending_ids (pb_pending pb)) \<subseteq># mset (seen @ [cp_packet_id c])"
    using s(6) by (simp add: subset_mset.order_trans [OF s(6)])
  have op: "dispatcher_ok (operation full e (cs_dispatcher cs))" for e
    by (rule dispatcher_ok_frame) (use s(1) in \<open>auto simp: capture_ok_def dispatcher_ok_def\<close>)
  consider (bad) m where "parse_packet_strict c = Inl (PacketDecodeError m)" | (none) "parse_packet_strict c = Inr None"
    | (some) q where "parse_packet_strict c = Inr (Some q)"
  proof (cases "parse_packet_strict c")
    case (Inl e)
    with strict_raises_aux [of c] show thesis by (cases e) (auto simp: is_decode_error_def intro: that)
  next
    case (Inr r)
    then show thesis by (cases r) (auto intro: that)
  qed
  then show ?thesis
  proof cases
    case bad
    with s op grow st show ?thesis by (auto simp: capture_packet_def sorting_def capture_ok_def unaccounted_def)
  next
    case none
    with s grow st show ?thesis by (auto simp: capture_packet_def sorting_def capture_ok_def unaccounted_def)
  next
    case some
    have ok: "router_ok (cs_router cs)" using s(1) by (simp add: capture_ok_def)
    obtain r shard where r: "route digest now q (cs_router cs) = Inr (r, shard)" "routed digest q (cs_router cs) r shard"
      using route_keeps [OF ok] by blast
    then have rr: "router_ok r" "ro_workers r = ro_workers (cs_router cs)" "shard < ro_workers (cs_router cs)"
      unfolding routed_def by (auto simp: router_params_def)
    let ?p = "(pb_pending pb)[shard := pb_pending pb ! shard @ [q]]"
    have i: "shard < length (pb_pending pb)" using rr(3) s(2,4) by simp
    have id: "pp_packet_id q = cp_packet_id c" using parse_packet_strict_ident [OF some] by (simp add: packet_ident_def)
    have m: "mset (pending_ids ?p) \<subseteq># mset (seen @ [cp_packet_id c])"
      using s(6) unfolding pending_snoc(1) [OF i] id by simp
    define pb' where "pb' = (case (if dx_suppressor (cs_dispatcher cs) = None then None else describe_forwarded_frame c q mac) of
        None \<Rightarrow> pb\<lparr>pb_pending := ?p\<rparr>
      | Some f \<Rightarrow> pb\<lparr>pb_pending := ?p, pb_frames := od_put (pp_packet_id q) f (pb_frames pb)\<rparr>)"
    have pb': "pb_pending pb' = ?p"
      "capture_packet digest mac (now, full, c) st
         = ((cs\<lparr>cs_captured_packets := cs_captured_packets cs + 1, cs_router := r\<rparr>, pb'), Inr ())"
      using some r(1) st by (auto simp: capture_packet_def Let_def pb'_def split: option.split)
    have "sorting cs0 (seen @ [cp_packet_id c]) (cs\<lparr>cs_captured_packets := cs_captured_packets cs + 1, cs_router := r\<rparr>, pb')"
      using s rr m pb'(1) pending_snoc(2) [OF i, of q] by (simp add: sorting_def capture_ok_def unaccounted_def)
    with pb'(2) show ?thesis by blast
  qed
qed

lemma capture_packets_sorting:
  assumes "sorting cs0 seen st"
  shows "\<exists>st'. capture_packets digest mac inputs st = (st', Inr ())
     \<and> sorting cs0 (seen @ map (\<lambda>(now, full, c). cp_packet_id c) inputs) st'"
  using assms
proof (induction inputs arbitrary: seen st)
  case (Cons input inputs)
  obtain now full c where i: "input = (now, full, c)" by (cases input)
  from capture_packet_sorting [OF Cons.prems, of digest mac now full c] obtain st' where
    st': "capture_packet digest mac input st = (st', Inr ())" "sorting cs0 (seen @ [cp_packet_id c]) st'" unfolding i by blast
  from Cons.IH [OF st'(2)] st'(1) show ?case by (simp add: i)
qed simp

lemma dispatch_pending_live:
  assumes "dispatcher_ok d" "shard + length pending = length (dx_shards d)" "distinct (pending_ids pending)"
    and "\<not> dx_offline d" "\<forall>i. de_puts (env i) \<noteq> []"
  shows "\<exists>t. dispatch_pending shard pending frames env d = Some (t, Inr ()) \<and> dispatcher_ok t
     \<and> dispatch_params t = dispatch_params d \<and> accounted t = accounted d + int (length (concat pending))"
  using assms
proof (induction pending arbitrary: shard d)
  case (Cons packets pending)
  have sh: "shard < length (dx_shards d)" and di: "distinct (map pp_packet_id packets)" "distinct (pending_ids pending)"
    using Cons.prems(2,3) by (auto simp: pending_ids_def)
  obtain t where t: "dispatch_batch shard packets frames (env shard) d = Some (t, Inr ())"
    using dispatch_batch_live [OF Cons.prems(1) sh di(1) Cons.prems(4)] Cons.prems(5) by blast
  have r: "dispatcher_ok t" "dispatch_params t = dispatch_params d" "accounted t = accounted d + int (length packets)"
    using dispatch_batch_sound [OF Cons.prems(1) sh di(1) t] by (simp_all add: admit_result_def)
  have "Suc shard + length pending = length (dx_shards t)" "\<not> dx_offline t" using r(2) Cons.prems(2,4) by (simp_all add: dispatch_params_def)
  from Cons.IH [OF r(1) this(1) di(2) this(2) Cons.prems(5)] t r show ?case by auto
qed simp

lemma distinct_submset:
  assumes "mset xs \<subseteq># mset ys" "distinct ys" shows "distinct xs"
  unfolding distinct_count_atmost_1
proof
  fix a
  have "count (mset xs) a \<le> count (mset ys) a" using assms(1) by (rule mset_subset_eq_count)
  moreover have "count (mset ys) a \<le> 1" using assms(2) by (simp add: distinct_count_atmost_1)
  ultimately have le: "count (mset xs) a \<le> 1" by linarith
  show "count (mset xs) a = (if a \<in> set xs then 1 else 0)"
  proof (cases "a \<in> set xs")
    case True
    then have "0 < count (mset xs) a" by simp
    with le True show ?thesis by (simp only: if_True)
  qed (simp add: count_eq_zero_iff)
qed

lemma capture_round_live:
  assumes "capture_ok cs" "\<not> dx_offline (cs_dispatcher cs)" "\<forall>i. de_puts (env i) \<noteq> []"
    and "distinct (map (\<lambda>(now, full, c). cp_packet_id c) inputs)"
  shows "\<exists>cs'. capture_round digest mac inputs env cs = Some (cs', Inr ()) \<and> capture_ok cs'
     \<and> \<not> dx_offline (cs_dispatcher cs') \<and> unaccounted cs' = unaccounted cs
     \<and> dispatch_params (cs_dispatcher cs') = dispatch_params (cs_dispatcher cs)"
proof -
  let ?pb = "\<lparr>pb_pending = replicate (ro_workers (cs_router cs)) [], pb_frames = []\<rparr>"
  have "concat (replicate n []) = ([] :: ParsedPacket list)" for n by (induction n) auto
  then have "sorting cs [] (cs, ?pb)" using assms(1) by (simp add: sorting_def pending_ids_def)
  from capture_packets_sorting [OF this, of digest mac inputs] obtain cs1 pb where
    s: "capture_packets digest mac inputs (cs, ?pb) = ((cs1, pb), Inr ())"
      "sorting cs (map (\<lambda>(now, full, c). cp_packet_id c) inputs) (cs1, pb)" by force
  have c1: "capture_ok cs1" "dispatch_params (cs_dispatcher cs1) = dispatch_params (cs_dispatcher cs)"
    "length (pb_pending pb) = ro_workers (cs_router cs)" "ro_workers (cs_router cs1) = ro_workers (cs_router cs)"
    "unaccounted cs1 = unaccounted cs + int (length (concat (pb_pending pb)))"
    "mset (pending_ids (pb_pending pb)) \<subseteq># mset (map (\<lambda>(now, full, c). cp_packet_id c) inputs)"
    using s(2) by (simp_all add: sorting_def)
  have di: "distinct (pending_ids (pb_pending pb))"
    using c1(6) assms(4) by (rule distinct_submset)
  have pre: "dispatcher_ok (cs_dispatcher cs1)" "0 + length (pb_pending pb) = length (dx_shards (cs_dispatcher cs1))"
    "\<not> dx_offline (cs_dispatcher cs1)" using c1 assms(2) by (simp_all add: capture_ok_def dispatch_params_def)
  obtain t where t: "dispatch_pending 0 (pb_pending pb) (pb_frames pb) env (cs_dispatcher cs1) = Some (t, Inr ())"
    "dispatcher_ok t" "dispatch_params t = dispatch_params (cs_dispatcher cs1)"
    "accounted t = accounted (cs_dispatcher cs1) + int (length (concat (pb_pending pb)))"
    using dispatch_pending_live [OF pre(1,2) di pre(3) assms(3)] by blast
  let ?cs = "cs1\<lparr>cs_dispatcher := t\<rparr>"
  have "capture_round digest mac inputs env cs = Some (?cs, Inr ())" using s(1) t(1) by (simp add: capture_round_def)
  moreover have "capture_ok ?cs" "\<not> dx_offline t" "unaccounted ?cs = unaccounted cs"
    "dispatch_params t = dispatch_params (cs_dispatcher cs)"
    using c1 t pre(3) by (simp_all add: capture_ok_def dispatch_params_def unaccounted_def)
  ultimately show ?thesis by auto
qed

section \<open>Properties\<close>

text \<open>The capture loop: rounds, each with an optional expiry of the routes at its end.\<close>

type_synonym capture_round_input = "capture_input list \<times> (nat \<Rightarrow> dispatch_env) \<times> int option"

fun capture_run ::
  "(string \<Rightarrow> nat) \<Rightarrow> bytes \<Rightarrow> capture_round_input list \<Rightarrow> CaptureState \<Rightarrow> (CaptureState \<times> unit result) option" where
  "capture_run digest local_mac [] cs = Some (cs, Inr ())"
| "capture_run digest local_mac ((inputs, env, expiry) # rounds) cs =
     (case capture_round digest local_mac inputs env cs of
        None \<Rightarrow> None
      | Some (cs1, Inl e) \<Rightarrow> Some (cs1, Inl e)
      | Some (cs1, Inr _) \<Rightarrow>
          capture_run digest local_mac rounds
            (case expiry of None \<Rightarrow> cs1 | Some now \<Rightarrow> cs1\<lparr>cs_router := expire_fragment_routes now (cs_router cs1)\<rparr>))"

definition capture_init :: "Router \<Rightarrow> Dispatcher \<Rightarrow> CaptureState" where
  "capture_init router dispatcher =
     \<lparr>cs_router = router, cs_dispatcher = dispatcher, cs_captured_packets = 0, cs_capture_parse_errors = 0,
      cs_capture_ignored_packets = 0\<rparr>"

definition live_rounds :: "capture_round_input list \<Rightarrow> bool" where
  "live_rounds rounds \<longleftrightarrow> (\<forall>(inputs, env, expiry) \<in> set rounds.
     distinct (map (\<lambda>(now, full, c). cp_packet_id c) inputs) \<and> (\<forall>i. de_puts (env i) \<noteq> []))"

lemma capture_run_live:
  assumes "capture_ok cs" "\<not> dx_offline (cs_dispatcher cs)" "live_rounds rounds"
  shows "\<exists>cs'. capture_run digest mac rounds cs = Some (cs', Inr ()) \<and> capture_ok cs'
     \<and> unaccounted cs' = unaccounted cs \<and> dispatch_params (cs_dispatcher cs') = dispatch_params (cs_dispatcher cs)"
  using assms
proof (induction rounds arbitrary: cs)
  case (Cons round rounds)
  obtain inputs env expiry where r: "round = (inputs, env, expiry)" by (cases round)
  have l: "distinct (map (\<lambda>(now, full, c). cp_packet_id c) inputs)" "\<forall>i. de_puts (env i) \<noteq> []" "live_rounds rounds"
    using Cons.prems(3) r by (auto simp: live_rounds_def)
  from capture_round_live [OF Cons.prems(1,2) l(2,1), of digest mac] obtain cs1 where
    c1: "capture_round digest mac inputs env cs = Some (cs1, Inr ())" "capture_ok cs1" "\<not> dx_offline (cs_dispatcher cs1)"
      "unaccounted cs1 = unaccounted cs" "dispatch_params (cs_dispatcher cs1) = dispatch_params (cs_dispatcher cs)" by blast
  let ?cs = "case expiry of None \<Rightarrow> cs1 | Some now \<Rightarrow> cs1\<lparr>cs_router := expire_fragment_routes now (cs_router cs1)\<rparr>"
  have "ro_workers (expire_fragment_routes now r) = ro_workers r" for now r by (simp add: expire_fragment_routes_def)
  then have "capture_ok ?cs" "\<not> dx_offline (cs_dispatcher ?cs)" "unaccounted ?cs = unaccounted cs1"
    "cs_dispatcher ?cs = cs_dispatcher cs1"
    using c1(2,3) expire_keeps by (auto simp: capture_ok_def unaccounted_def split: option.split)
  with Cons.IH [OF this(1,2) l(3)] c1 r show ?case by auto
qed simp

lemma capture_init_ok:
  assumes "0 < workers" "0 < max_routes" "0 \<le> max_bytes"
    and "suppressor = None \<or> (\<exists>s mac' b n age. suppressor = Some s \<and> suppressor_init mac' b n age = Inr s)"
    and cs: "cs = capture_init (router_init workers max_routes fi ti) (dispatcher_init workers max_bytes queue_size False suppressor)"
  shows "capture_ok cs" "\<not> dx_offline (cs_dispatcher cs)" "unaccounted cs = 0"
proof -
  have "suppressor_init mac' b n age = Inr s \<Longrightarrow> suppressor_ok s" for mac' b n age s
    by (auto simp: suppressor_init_def suppressor_ok_def suppressor_core_def suppressor_over_def sk.exact_def split: if_splits)
  then have "dispatcher_ok (dispatcher_init workers max_bytes queue_size False suppressor)"
    using assms(3,4) by (auto simp: dispatcher_ok_def dispatcher_init_def new_shard_def shard_inv_def)
  moreover have "router_ok (router_init workers max_routes fi ti)"
    using assms(1,2) by (simp add: router_ok_def router_init_def table_ok_def)
  ultimately show "capture_ok cs" by (simp add: cs capture_ok_def capture_init_def dispatcher_init_def router_init_def)
  show "\<not> dx_offline (cs_dispatcher cs)" by (simp add: cs capture_init_def dispatcher_init_def)
  show "unaccounted cs = 0" by (simp add: cs unaccounted_def accounted_def capture_init_def dispatcher_init_def)
qed

text \<open>C9: no captured packet is lost silently. In a live session, over any sequence of capture batches with
  distinct packet ids, any route expiries, any behaviour of the workers and any full queue, the capture loop
  raises nothing, and the number of packets captured is always the number dispatched plus suppressed as
  forwarded copies plus dropped at a full queue plus rejected by the decoder plus ignored: the accounting test at
  the end of a session finds no mismatch.\<close>

theorem capture_accounting:
  assumes "0 < workers" "0 < max_routes" "0 \<le> max_bytes"
    and "suppressor = None \<or> (\<exists>s mac' b n age. suppressor = Some s \<and> suppressor_init mac' b n age = Inr s)"
    and "live_rounds rounds"
  shows "\<exists>cs. capture_run digest mac rounds (capture_init (router_init workers max_routes fi ti)
           (dispatcher_init workers max_bytes queue_size False suppressor)) = Some (cs, Inr ())
     \<and> cs_captured_packets cs = dx_dispatched_packets (cs_dispatcher cs) + dx_suppressed_packets (cs_dispatcher cs)
         + dx_userspace_queue_drops (cs_dispatcher cs) + cs_capture_parse_errors cs + cs_capture_ignored_packets cs"
proof -
  note init = capture_init_ok [OF assms(1-4) refl, of fi ti queue_size]
  obtain cs where "capture_run digest mac rounds (capture_init (router_init workers max_routes fi ti)
      (dispatcher_init workers max_bytes queue_size False suppressor)) = Some (cs, Inr ())" "unaccounted cs = 0"
    using capture_run_live [OF init(1,2) assms(5), of digest mac] init(3) by auto
  then show ?thesis by (auto simp: unaccounted_def accounted_def)
qed

definition sample_env :: dispatch_env where
  "sample_env = \<lparr>de_finished = 0, de_waits = [], de_puts = [PutFull (Inr ()) False], de_telemetry_full = False\<rparr>"

theorem capture_accounting_witness:
  "\<exists>cs. capture_run length [] [([(1, False, sample_udp)], (\<lambda>_. sample_env), Some 2)]
       (capture_init (router_init 2 4 30 300) (dispatcher_init 2 1048576 8 False None)) = Some (cs, Inr ())
     \<and> cs_captured_packets cs = dx_dispatched_packets (cs_dispatcher cs) + dx_suppressed_packets (cs_dispatcher cs)
         + dx_userspace_queue_drops (cs_dispatcher cs) + cs_capture_parse_errors cs + cs_capture_ignored_packets cs"
  by (rule capture_accounting) (simp_all add: live_rounds_def sample_env_def)

text \<open>One call of \<open>_dispatch_batch\<close>, live or offline, whatever the worker, the queue and the children do,
  for a batch with distinct ids: the byte counter of every worker is exactly the total of its unfinished
  batches and at most \<open>max_worker_queue_bytes\<close>, its batch counter is exactly their number (a reservation whose
  put fails is given back); when the call returns it has accounted for every packet of the batch as dispatched,
  suppressed or dropped; and in a live session it never raises.\<close>

theorem dispatch_batch_accounts:
  assumes "dispatcher_ok d" "shard < length (dx_shards d)" "distinct (map pp_packet_id packets)"
    and "dispatch_batch shard packets frames env d = Some (t, r)"
  shows "(\<forall>c \<in> set (dx_shards t). sh_bytes c = (\<Sum>b\<leftarrow>sh_queue c. snd b) \<and> sh_bytes c \<le> dx_max_worker_queue_bytes d
        \<and> sh_batches c = int (length (sh_queue c)))
     \<and> (r = Inr () \<longrightarrow> dx_dispatched_packets t + dx_suppressed_packets t + dx_userspace_queue_drops t
          = dx_dispatched_packets d + dx_suppressed_packets d + dx_userspace_queue_drops d + int (length packets))
     \<and> (\<not> dx_offline d \<longrightarrow> r = Inr ())"
  using dispatch_batch_sound [OF assms]
  by (auto simp: admit_result_def dispatcher_ok_def shard_inv_def queue_bytes_def dispatch_params_def accounted_def)

theorem dispatch_batch_accounts_witness:
  "\<exists>t. dispatch_batch 0 [fwd_packet 1] [] sample_env (dispatcher_init 2 1048576 8 False None) = Some (t, Inr ())
     \<and> dx_dispatched_packets t + dx_suppressed_packets t + dx_userspace_queue_drops t = 1"
proof -
  let ?d = "dispatcher_init 2 1048576 8 False None"
  have ok: "dispatcher_ok ?d" by (simp add: dispatcher_ok_def dispatcher_init_def new_shard_def shard_inv_def)
  have len: "0 < length (dx_shards ?d)" by (simp add: dispatcher_init_def)
  have di: "distinct (map pp_packet_id [fwd_packet 1])" by simp
  have "\<not> dx_offline ?d" "de_puts sample_env \<noteq> []" by (simp_all add: dispatcher_init_def sample_env_def)
  then obtain t where t: "dispatch_batch 0 [fwd_packet 1] [] sample_env ?d = Some (t, Inr ())"
    using dispatch_batch_live [OF ok len di] by blast
  with dispatch_batch_accounts [OF ok len di t] show ?thesis by (simp add: dispatcher_init_def)
qed

end
