(* ===== verification/Utf8.thy ===== *)
theory Utf8
  imports Prelude
begin

text \<open>
  The language's strict UTF-8 codec, which the protocol parsers use to turn bytes into text. Text is the list
  of its code points.
\<close>

type_synonym code_points = "nat list"

definition continuation :: "byte \<Rightarrow> bool" where
  "continuation b \<longleftrightarrow> 0x80 \<le> unat b \<and> unat b \<le> 0xBF"

text \<open>Overlong forms, surrogates and code points above \<open>0x10FFFF\<close> are errors.\<close>

fun utf8_decode :: "bytes \<Rightarrow> code_points option" where
  "utf8_decode [] = Some []"
| "utf8_decode (a # bs) =
     (let n = unat a in
      if n < 0x80 then map_option (Cons n) (utf8_decode bs)
      else if 0xC2 \<le> n \<and> n \<le> 0xDF then
        (case bs of
           b # rest \<Rightarrow>
             if continuation b
             then map_option (Cons ((n - 0xC0) * 64 + (unat b - 0x80))) (utf8_decode rest) else None
         | _ \<Rightarrow> None)
      else if 0xE0 \<le> n \<and> n \<le> 0xEF then
        (case bs of
           b # c # rest \<Rightarrow>
             let v = (n - 0xE0) * 4096 + (unat b - 0x80) * 64 + (unat c - 0x80) in
             if continuation b \<and> continuation c \<and> 0x800 \<le> v \<and> \<not> (0xD800 \<le> v \<and> v \<le> 0xDFFF)
             then map_option (Cons v) (utf8_decode rest) else None
         | _ \<Rightarrow> None)
      else if 0xF0 \<le> n \<and> n \<le> 0xF4 then
        (case bs of
           b # c # d # rest \<Rightarrow>
             let v = (n - 0xF0) * 262144 + (unat b - 0x80) * 4096 + (unat c - 0x80) * 64 + (unat d - 0x80) in
             if continuation b \<and> continuation c \<and> continuation d \<and> 0x10000 \<le> v \<and> v \<le> 0x10FFFF
             then map_option (Cons v) (utf8_decode rest) else None
         | _ \<Rightarrow> None)
      else None)"

end
