(* ===== verification/Mqtt.thy ===== *)
theory Mqtt
  imports Utf8
begin

text \<open>
  The MQTT 3.1.1/5.0 CONNECT parser (\<open>packet_audit/mqtt.py\<close>): variable byte integers,
  length-prefixed fields, property sections and the whole CONNECT packet, with every
  \<open>MalformedMQTT\<close> and \<open>MQTTConnectLimit\<close> it raises.
\<close>

section \<open>Data\<close>

definition MAX_CONNECT_BYTES :: nat where "MAX_CONNECT_BYTES = 128 * 1024"

record MQTTConnect =
  mc_version :: nat
  mc_frame_end :: nat
  mc_client_id :: code_points
  mc_username :: "code_points option"
  mc_password :: "bytes option"
  mc_credential_start :: "nat option"
  mc_credential_end :: "nat option"
  mc_authentication_method :: "code_points option"
  mc_authentication_data :: "bytes option"
  mc_authentication_method_span :: "(nat \<times> nat) option"
  mc_authentication_data_span :: "(nat \<times> nat) option"

record Properties =
  mp_end :: nat
  mp_authentication_method :: "code_points option"
  mp_authentication_data :: "bytes option"
  mp_authentication_method_span :: "(nat \<times> nat) option"
  mp_authentication_data_span :: "(nat \<times> nat) option"

datatype property_kind = KU32 | KU16 | KBool | KPair | KString | KBinary

definition CONNECT_PROPERTIES :: "(nat \<times> property_kind) list" where
  "CONNECT_PROPERTIES =
     [(0x11, KU32), (0x21, KU16), (0x27, KU32), (0x22, KU16), (0x19, KBool), (0x17, KBool), (0x26, KPair),
      (0x15, KString), (0x16, KBinary)]"

definition WILL_PROPERTIES :: "(nat \<times> property_kind) list" where
  "WILL_PROPERTIES =
     [(0x18, KU32), (0x01, KBool), (0x02, KU32), (0x03, KString), (0x08, KString), (0x09, KBinary), (0x26, KPair)]"

definition malformed :: "string \<Rightarrow> 'a result" where
  "malformed msg = Inl (MalformedMQTT msg)"

section \<open>Variable byte integers and fields\<close>

text \<open>The loop over the widths 1 to 4; \<open>None\<close> inside the result is the early \<open>return None\<close>.\<close>

fun varint_loop :: "bytes \<Rightarrow> nat \<Rightarrow> nat list \<Rightarrow> nat \<Rightarrow> nat \<Rightarrow> nat \<Rightarrow> (nat \<times> nat) option result" where
  "varint_loop data stop [] pos value multiplier = malformed ''variable byte integer exceeds four bytes''"
| "varint_loop data stop (width # widths) pos value multiplier =
     (if pos \<ge> stop then Inr None
      else
        bindE (py_at data pos) (\<lambda>b.
        let octet = unat b; value' = value + (octet AND 0x7F) * multiplier in
        if octet < 0x80 then
          (if width > 1 \<and> value' < 128 ^ (width - 1) then malformed ''non-minimal variable byte integer''
           else Inr (Some (value', pos + 1)))
        else varint_loop data stop widths (pos + 1) value' (multiplier * 128)))"

definition varint :: "bytes \<Rightarrow> nat \<Rightarrow> nat \<Rightarrow> (nat \<times> nat) option result" where
  "varint data pos stop = varint_loop data stop [1, 2, 3, 4] pos 0 1"

definition mqtt_field :: "bytes \<Rightarrow> nat \<Rightarrow> nat \<Rightarrow> bool \<Rightarrow> (bytes \<times> code_points option \<times> nat \<times> nat) result" where
  "mqtt_field data pos stop utf8 =
     (if pos + 2 > stop then malformed ''missing length-prefixed field''
      else
        let len = from_be (py_slice data pos (pos + 2)); start = pos + 2; after = start + len in
        if after > stop then malformed ''field exceeds declared section''
        else
          let raw = py_slice data start after in
          if \<not> utf8 then Inr (raw, None, start, after)
          else
            (case utf8_decode raw of
               None \<Rightarrow> malformed ''invalid UTF-8 string''
             | Some decoded \<Rightarrow>
                 if 0 \<in> set decoded then malformed ''null in UTF-8 string''
                 else Inr (raw, Some decoded, start, after)))"

lemma mqtt_field_after:
  "mqtt_field data pos stop utf8 = Inr (raw, decoded, start, after) \<Longrightarrow> pos + 2 \<le> after \<and> after \<le> stop \<and> start = pos + 2"
  by (auto simp: mqtt_field_def malformed_def Let_def split: if_splits option.splits)

section \<open>Properties\<close>

record property_state =
  ms_seen :: "nat list"
  ms_method :: "code_points option"
  ms_data :: "bytes option"
  ms_method_span :: "(nat \<times> nat) option"
  ms_data_span :: "(nat \<times> nat) option"

definition no_properties :: property_state where
  "no_properties = \<lparr>ms_seen = [], ms_method = None, ms_data = None, ms_method_span = None, ms_data_span = None\<rparr>"

definition numeric_width :: "property_kind \<Rightarrow> nat" where
  "numeric_width kind = (case kind of KU16 \<Rightarrow> 2 | KU32 \<Rightarrow> 4 | _ \<Rightarrow> 1)"

definition numeric_property :: "bytes \<Rightarrow> nat \<Rightarrow> bool \<Rightarrow> nat \<Rightarrow> property_kind \<Rightarrow> nat \<Rightarrow> nat result" where
  "numeric_property data stop will identifier kind cursor =
     (let width = numeric_width kind in
      if cursor + width > stop then malformed ''truncated numeric property''
      else
        let value = from_be (py_slice data cursor (cursor + width)) in
        if kind = KBool \<and> value \<notin> {0, 1} then malformed ''invalid boolean property''
        else if \<not> will \<and> identifier \<in> {0x21, 0x27} \<and> value = 0 then malformed ''zero not allowed for this property''
        else Inr (cursor + width))"

text \<open>One round of the property loop: the position behind the property and the state after it.\<close>

definition property_step ::
  "bytes \<Rightarrow> nat \<Rightarrow> bool \<Rightarrow> nat \<Rightarrow> property_state \<Rightarrow> (nat \<times> property_state) result" where
  "property_step data stop will cursor st =
     bindE (py_at data cursor) (\<lambda>b.
     let property_start = cursor; identifier = unat b; cursor = cursor + 1 in
     case map_of (if will then WILL_PROPERTIES else CONNECT_PROPERTIES) identifier of
       None \<Rightarrow> malformed ''unknown or repeated property''
     | Some kind \<Rightarrow>
         if identifier \<in> set (ms_seen st) \<and> identifier \<noteq> 0x26 then malformed ''unknown or repeated property''
         else
           let st1 = st\<lparr>ms_seen := identifier # ms_seen st\<rparr> in
           if kind \<in> {KU16, KU32, KBool} then
             bindE (numeric_property data stop will identifier kind cursor) (\<lambda>cursor'. Inr (cursor', st1))
           else if kind \<in> {KString, KBinary} then
             bindE (mqtt_field data cursor stop (kind = KString)) (\<lambda>(raw, decoded, _, cursor').
               if will \<and> identifier = 0x08 \<and> (decoded = None \<or> decoded = Some []) then malformed ''empty response topic''
               else if \<not> will \<and> identifier = 0x15
                 then Inr (cursor', st1\<lparr>ms_method := decoded, ms_method_span := Some (property_start, cursor')\<rparr>)
               else if \<not> will \<and> identifier = 0x16
                 then Inr (cursor', st1\<lparr>ms_data := Some raw, ms_data_span := Some (property_start, cursor')\<rparr>)
               else Inr (cursor', st1))
           else
             bindE (mqtt_field data cursor stop True) (\<lambda>(_, _, _, cursor').
             bindE (mqtt_field data cursor' stop True) (\<lambda>(_, _, _, cursor'').
               Inr (cursor'', st1))))"

lemma numeric_property_after: "numeric_property data stop will i kind pos = Inr pos' \<Longrightarrow> pos \<le> pos' \<and> pos' \<le> stop"
  by (auto simp: numeric_property_def malformed_def Let_def split: if_splits)

lemma property_step_after:
  "property_step data stop will pos st = Inr (pos', st') \<Longrightarrow> pos < stop \<Longrightarrow> pos < pos' \<and> pos' \<le> stop"
  unfolding property_step_def
  by (auto simp: malformed_def Let_def split: option.splits if_splits
      dest!: numeric_property_after mqtt_field_after)

function property_loop ::
  "bytes \<Rightarrow> nat \<Rightarrow> bool \<Rightarrow> nat \<Rightarrow> property_state \<Rightarrow> property_state result" where
  "property_loop data stop will cursor st =
     (if cursor < stop
      then (case property_step data stop will cursor st of
              Inl e \<Rightarrow> Inl e
            | Inr (cursor', st') \<Rightarrow> property_loop data stop will cursor' st')
      else Inr st)"
  by pat_completeness auto
termination
  by (relation "measure (\<lambda>(data, stop, will, cursor, st). stop - cursor)")
    (auto dest!: property_step_after)

declare property_loop.simps [simp del]

definition properties :: "bytes \<Rightarrow> nat \<Rightarrow> nat \<Rightarrow> bool \<Rightarrow> Properties result" where
  "properties data pos frame_end will =
     bindE (varint data pos frame_end) (\<lambda>parsed.
     case parsed of
       None \<Rightarrow> malformed ''missing property length''
     | Some (section_size, cursor) \<Rightarrow>
         let stop = cursor + section_size in
         if stop > frame_end then malformed ''properties exceed CONNECT frame''
         else
           bindE (property_loop data stop will cursor no_properties) (\<lambda>st.
           if \<not> will \<and> 0x16 \<in> set (ms_seen st) \<and> 0x15 \<notin> set (ms_seen st)
           then malformed ''authentication data without method''
           else Inr \<lparr>mp_end = stop, mp_authentication_method = ms_method st, mp_authentication_data = ms_data st,
                     mp_authentication_method_span = ms_method_span st, mp_authentication_data_span = ms_data_span st\<rparr>))"

section \<open>The CONNECT packet\<close>

definition optional_properties :: "bytes \<Rightarrow> nat \<Rightarrow> nat \<Rightarrow> nat \<Rightarrow> bool \<Rightarrow> Properties result" where
  "optional_properties data version cursor frame_end will =
     (if version = 5 then properties data cursor frame_end will
      else Inr \<lparr>mp_end = cursor, mp_authentication_method = None, mp_authentication_data = None,
                mp_authentication_method_span = None, mp_authentication_data_span = None\<rparr>)"

definition will_fields :: "bytes \<Rightarrow> nat \<Rightarrow> nat \<Rightarrow> nat \<Rightarrow> nat result" where
  "will_fields data version cursor frame_end =
     bindE (optional_properties data version cursor frame_end True) (\<lambda>p.
     bindE (mqtt_field data (mp_end p) frame_end True) (\<lambda>(_, topic, _, cursor1).
     if topic = None \<or> topic = Some [] then malformed ''empty Will topic''
     else bindE (mqtt_field data cursor1 frame_end False) (\<lambda>(_, _, _, cursor2). Inr cursor2)))"

text \<open>User name and password: the two values, the credential span and the position behind them.\<close>

definition credential_fields ::
  "bytes \<Rightarrow> nat \<Rightarrow> nat \<Rightarrow> bool \<Rightarrow> bool
     \<Rightarrow> (code_points option \<times> bytes option \<times> nat option \<times> nat option \<times> nat) result" where
  "credential_fields data cursor frame_end username_flag password_flag =
     bindE (if username_flag
            then bindE (mqtt_field data cursor frame_end True) (\<lambda>(_, username, _, after).
                   Inr (username, Some cursor, Some after, after))
            else Inr (None, None, None, cursor)) (\<lambda>(username, start, stop, cursor1).
     if password_flag
     then bindE (mqtt_field data cursor1 frame_end False) (\<lambda>(password, _, _, after).
            Inr (username, Some password, Some (case start of None \<Rightarrow> cursor1 | Some s \<Rightarrow> s), Some after, after))
     else Inr (username, None, start, stop, cursor1))"

text \<open>Everything behind the fixed header, once the whole frame is there.\<close>

definition connect_body :: "bytes \<Rightarrow> nat \<Rightarrow> nat \<Rightarrow> MQTTConnect result" where
  "connect_body data cursor frame_end =
     (if cursor + 10 > frame_end \<or> py_slice data cursor (cursor + 6) \<noteq> [0, 4, 0x4D, 0x51, 0x54, 0x54]
      then malformed ''invalid MQTT protocol name or variable header''
      else
        bindE (py_at data (cursor + 6)) (\<lambda>vb.
        let version = unat vb in
        if version \<notin> {4, 5} then malformed ''unsupported MQTT protocol level''
        else
          bindE (py_at data (cursor + 7)) (\<lambda>fb.
          let flags = unat fb; will = (flags AND 0x04 \<noteq> 0); will_qos = drop_bit 3 flags AND 3;
              username_flag = (flags AND 0x80 \<noteq> 0); password_flag = (flags AND 0x40 \<noteq> 0) in
          if odd flags then malformed ''reserved CONNECT flag set''
          else if (\<not> will \<and> flags AND 0x38 \<noteq> 0) \<or> (will \<and> will_qos = 3) then malformed ''invalid Will flags''
          else if version = 4 \<and> password_flag \<and> \<not> username_flag
            then malformed ''MQTT 3.1.1 requires username with password''
          else
            bindE (optional_properties data version (cursor + 10) frame_end False) (\<lambda>p.
            bindE (mqtt_field data (mp_end p) frame_end True) (\<lambda>(_, client_id, _, cursor1).
            case client_id of
              None \<Rightarrow> Inl AssertionError
            | Some client \<Rightarrow>
                bindE (if will then will_fields data version cursor1 frame_end else Inr cursor1) (\<lambda>cursor2.
                bindE (credential_fields data cursor2 frame_end username_flag password_flag)
                  (\<lambda>(username, password, start, stop, cursor3).
                if cursor3 \<noteq> frame_end then malformed ''CONNECT contains unclaimed payload bytes''
                else Inr \<lparr>mc_version = version, mc_frame_end = frame_end, mc_client_id = client,
                          mc_username = username, mc_password = password,
                          mc_credential_start = start, mc_credential_end = stop,
                          mc_authentication_method = mp_authentication_method p,
                          mc_authentication_data = mp_authentication_data p,
                          mc_authentication_method_span = mp_authentication_method_span p,
                          mc_authentication_data_span = mp_authentication_data_span p\<rparr>)))))))"

definition parse_mqtt_connect :: "bytes \<Rightarrow> MQTTConnect option result" where
  "parse_mqtt_connect data =
     (case data of
        [] \<Rightarrow> Inr None
      | b # _ \<Rightarrow>
          if b \<noteq> 0x10 then malformed ''not a CONNECT fixed header''
          else
            bindE (varint data 1 (length data)) (\<lambda>parsed.
            case parsed of
              None \<Rightarrow> Inr None
            | Some (remaining, cursor) \<Rightarrow>
                let frame_end = cursor + remaining in
                if frame_end > MAX_CONNECT_BYTES then Inl (MQTTConnectLimit ''CONNECT exceeds supported frame bound'')
                else if length data < frame_end then Inr None
                else bindE (connect_body data cursor frame_end) (\<lambda>c. Inr (Some c))))"

text \<open>\<open>display_binary\<close>: text where the bytes are valid UTF-8, else the bytes.\<close>

definition display_binary :: "bytes \<Rightarrow> code_points + bytes" where
  "display_binary raw = (case utf8_decode raw of Some s \<Rightarrow> Inl s | None \<Rightarrow> Inr raw)"

section \<open>Variable byte integers\<close>

text \<open>The reference: the shortest little-endian sequence of seven-bit groups.\<close>

function varint_encode :: "nat \<Rightarrow> bytes" where
  "varint_encode v = (if v < 128 then [of_nat v] else of_nat (v mod 128 + 128) # varint_encode (v div 128))"
  by pat_completeness auto
termination by (relation "measure id") auto

declare varint_encode.simps [simp del]

lemma and_7F: "(n::nat) AND 127 = n mod 128"
  using take_bit_eq_mask [of 7 n] by (simp add: mask_eq_exp_minus_1 take_bit_eq_mod)

lemma py_slice_Cons: "pos < stop \<Longrightarrow> pos < length data \<Longrightarrow> py_slice data pos stop = data ! pos # py_slice data (Suc pos) stop"
  by (simp add: py_slice_def take_Cons' Cons_nth_drop_Suc [symmetric])

lemma py_slice_eq_Cons:
  "py_slice data pos stop = b # bs \<longleftrightarrow> pos < stop \<and> pos < length data \<and> data ! pos = b \<and> py_slice data (Suc pos) stop = bs"
proof (cases "pos < stop \<and> pos < length data")
  case True
  then show ?thesis using py_slice_Cons [of pos stop data] by auto
next
  case False
  then have "py_slice data pos stop = []" by (auto simp: py_slice_def)
  with False show ?thesis by auto
qed

lemma varint_encode_small: "v < 128 \<Longrightarrow> varint_encode v = [of_nat v]"
  by (simp add: varint_encode.simps)

lemma varint_encode_big: "\<not> v < 128 \<Longrightarrow> varint_encode v = of_nat (v mod 128 + 128) # varint_encode (v div 128)"
  by (simp add: varint_encode.simps)

lemma varint_encode_nonempty [simp]: "varint_encode v \<noteq> []"
  by (simp add: varint_encode.simps)

lemma varint_split: "v mod 128 * 128 ^ w + v div 128 * (128 * 128 ^ w) = v * 128 ^ w" for v :: nat
proof -
  have "v mod 128 * c + v div 128 * (128 * c) = (v mod 128 + v div 128 * 128) * c" for c :: nat
    by (simp only: distrib_right mult.assoc)
  then show ?thesis by (simp only: mod_mult_div_eq mult.commute [of "v div 128" 128])
qed

text \<open>The loop reads what the encoder wrote, wherever it stands.\<close>

lemma varint_loop_encode:
  assumes "w + k = 4" "v < 128 ^ k" "w = 0 \<or> 0 < v"
    and "py_slice data pos pos' = varint_encode v" "pos' \<le> stop" "pos' = pos + length (varint_encode v)"
  shows "varint_loop data stop [Suc w..<5] pos acc (128 ^ w) = Inr (Some (acc + v * 128 ^ w, pos'))"
  using assms
proof (induction k arbitrary: w v pos acc)
  case (Suc k)
  have ws: "[Suc w..<5] = Suc w # [Suc (Suc w)..<5]" using Suc.prems(1) by (simp add: upt_rec)
  show ?case
  proof (cases "v < 128")
    case True
    then have d: "pos < stop" "pos < length data" "data ! pos = of_nat v" "pos' = Suc pos"
      using Suc.prems(4-6) by (auto simp: varint_encode_small py_slice_eq_Cons)
    have "unat (data ! pos) = v" using True d(3) by simp
    moreover have "\<not> (0 < w \<and> acc + v * 128 ^ w < 128 ^ w)"
      using Suc.prems(3) by (cases v) auto
    ultimately show ?thesis using d True by (auto simp: ws and_7F Let_def)
  next
    case False
    note e = varint_encode_big [OF False]
    have k: "k \<noteq> 0" using Suc.prems(2) False by (cases k) auto
    have d: "pos < stop" "pos < length data" "data ! pos = of_nat (v mod 128 + 128)"
      "py_slice data (Suc pos) pos' = varint_encode (v div 128)"
      using Suc.prems(4-6) by (auto simp: e py_slice_eq_Cons)
    have "v mod 128 + 128 < 256" by simp
    then have o: "unat (data ! pos) = v mod 128 + 128" unfolding d(3) by (rule unat_of_nat_byte)
    have "Suc w + k = 4" "v div 128 < 128 ^ k" "Suc w = 0 \<or> 0 < v div 128" "pos' = Suc pos + length (varint_encode (v div 128))"
      using Suc.prems(1,2,6) False e by (auto simp: div_greater_zero_iff less_mult_imp_div_less)
    from Suc.IH [OF this(1-3) d(4) Suc.prems(5) this(4), of "acc + v mod 128 * 128 ^ w"]
    have "varint_loop data stop [Suc (Suc w)..<5] (Suc pos) (acc + v mod 128 * 128 ^ w) (128 * 128 ^ w)
        = Inr (Some (acc + v * 128 ^ w, pos'))"
      using varint_split [of v w] by (simp add: add.assoc)
    then show ?thesis using d(1,2) o by (simp add: ws and_7F mult.commute Let_def)
  qed
qed auto

lemma varint_loop_decode:
  assumes "w + k = 4" "acc < 128 ^ w"
    and "varint_loop data stop [Suc w..<5] pos acc (128 ^ w) = Inr (Some (decoded, pos'))"
  shows "\<exists>v. v < 128 ^ k \<and> (w = 0 \<or> 0 < v) \<and> decoded = acc + v * 128 ^ w \<and> py_slice data pos pos' = varint_encode v
     \<and> pos' \<le> stop \<and> pos' = pos + length (varint_encode v)"
  using assms
proof (induction k arbitrary: w pos acc)
  case 0
  then show ?case by (simp add: malformed_def)
next
  case (Suc k)
  have ws: "[Suc w..<5] = Suc w # [Suc (Suc w)..<5]" using Suc.prems(1) by (simp add: upt_rec)
  define b where "b = unat (data ! pos)"
  have b256: "b < 256" by (simp add: b_def)
  have pos: "pos < stop" "pos < length data"
    using Suc.prems(3) by (auto simp: ws py_at_Inr_iff split: if_splits)
  show ?case
  proof (cases "b < 128")
    case True
    then have r: "decoded = acc + b * 128 ^ w" "pos' = Suc pos" "\<not> (0 < w \<and> decoded < 128 ^ w)"
      using Suc.prems(3) pos by (auto simp: ws and_7F malformed_def b_def [symmetric] Let_def split: if_splits)
    have "data ! pos = of_nat b" by (simp add: b_def)
    then have "py_slice data pos pos' = varint_encode b"
      using True r(2) pos by (simp add: varint_encode_small py_slice_Cons) (simp add: py_slice_def)
    moreover have "w = 0 \<or> 0 < b" using r(1,3) Suc.prems(2) by (cases b) auto
    moreover have "b < 128 ^ Suc k"
    proof -
      have "(1::nat) \<le> 128 ^ k" by simp
      then have "b < 128 * 128 ^ k" using True by linarith
      then show ?thesis by simp
    qed
    ultimately show ?thesis using True r pos by (intro exI [of _ b]) (auto simp: varint_encode_small)
  next
    case False
    have m: "b mod 128 = b - 128" using False b256 by (simp add: mod_if)
    have "varint_loop data stop [Suc (Suc w)..<5] (Suc pos) (acc + b mod 128 * 128 ^ w) (128 ^ Suc w) = Inr (Some (decoded, pos'))"
      using Suc.prems(3) pos False by (simp add: ws and_7F b_def [symmetric] Let_def mult.commute)
    moreover have "acc + b mod 128 * 128 ^ w < 128 ^ Suc w"
    proof -
      have "acc + b mod 128 * 128 ^ w < 128 ^ w + 127 * 128 ^ w"
        using Suc.prems(2) m b256 by (intro add_less_le_mono mult_right_mono) auto
      then show ?thesis by simp
    qed
    ultimately obtain v where v: "v < 128 ^ k" "0 < v" "decoded = acc + b mod 128 * 128 ^ w + v * 128 ^ Suc w"
      "py_slice data (Suc pos) pos' = varint_encode v" "pos' \<le> stop" "pos' = Suc pos + length (varint_encode v)"
      using Suc.IH [of "Suc w" "acc + b mod 128 * 128 ^ w" "Suc pos"] Suc.prems(1) by auto
    let ?u = "b mod 128 + v * 128"
    have u: "\<not> ?u < 128" "?u mod 128 = b mod 128" "?u div 128 = v" using v(2) by auto
    then have e: "varint_encode ?u = of_nat (b mod 128 + 128) # varint_encode v" by (simp add: varint_encode_big)
    have "data ! pos = of_nat (b mod 128 + 128)" using False m by (simp add: b_def)
    then have "py_slice data pos pos' = varint_encode ?u" using v(4,6) pos e by (simp add: py_slice_Cons)
    moreover have "?u < 128 ^ Suc k"
    proof -
      have "?u < 128 + v * 128" by simp
      also have "\<dots> = Suc v * 128" by simp
      also have "\<dots> \<le> 128 ^ k * 128" using v(1) by (intro mult_right_mono) auto
      finally show ?thesis by simp
    qed
    moreover have "decoded = acc + ?u * 128 ^ w" using v(3) by (simp add: algebra_simps)
    ultimately show ?thesis using u(1) v(5,6) e by (intro exI [of _ ?u]) auto
  qed
qed

lemma upto4: "[Suc 0..<5] = [1, 2, 3, 4]"
  by (simp add: upt_rec)

lemma varint_iff:
  "varint data pos stop = Inr (Some (v, pos')) \<longleftrightarrow>
     v < 128 ^ 4 \<and> pos' = pos + length (varint_encode v) \<and> pos' \<le> stop \<and> py_slice data pos pos' = varint_encode v"
proof
  assume "varint data pos stop = Inr (Some (v, pos'))"
  then have "varint_loop data stop [Suc 0..<5] pos 0 (128 ^ 0) = Inr (Some (v, pos'))" by (simp add: varint_def upto4)
  from varint_loop_decode [OF _ _ this, of 4]
  show "v < 128 ^ 4 \<and> pos' = pos + length (varint_encode v) \<and> pos' \<le> stop \<and> py_slice data pos pos' = varint_encode v" by auto
next
  assume "v < 128 ^ 4 \<and> pos' = pos + length (varint_encode v) \<and> pos' \<le> stop \<and> py_slice data pos pos' = varint_encode v"
  then show "varint data pos stop = Inr (Some (v, pos'))"
    using varint_loop_encode [of 0 4 v data pos pos' stop 0] by (simp only: varint_def upto4 power_0 mult_1_right add_0) auto
qed

section \<open>Reading only inside the frame\<close>

text \<open>Every reader with a bound depends only on the bytes below it.\<close>

lemma py_at_append: "i < length data \<Longrightarrow> py_at (data @ rest) i = py_at data i"
  by (simp add: py_at_def nth_append)

lemma varint_loop_append:
  assumes "stop \<le> length data" "stop \<le> stop'"
  shows "varint_loop data stop widths pos acc m \<noteq> Inr None \<Longrightarrow>
     varint_loop (data @ rest) stop' widths pos acc m = varint_loop data stop widths pos acc m"
  using assms
  by (induction widths arbitrary: pos acc m) (auto simp: nth_append Let_def split: if_splits)

lemma varint_append: "stop \<le> length data \<Longrightarrow> varint data pos stop \<noteq> Inr None \<Longrightarrow> stop \<le> stop' \<Longrightarrow>
    varint (data @ rest) pos stop' = varint data pos stop"
  unfolding varint_def by (rule varint_loop_append)

lemma varint_loop_append_eq:
  "stop \<le> length data \<Longrightarrow> varint_loop (data @ rest) stop widths pos acc m = varint_loop data stop widths pos acc m"
  by (induction widths arbitrary: pos acc m) (auto simp: nth_append Let_def)

lemma mqtt_field_append: "stop \<le> length data \<Longrightarrow> mqtt_field (data @ rest) pos stop utf8 = mqtt_field data pos stop utf8"
  by (auto simp: mqtt_field_def py_slice_append_left Let_def)

lemma numeric_property_append:
  "stop \<le> length data \<Longrightarrow> numeric_property (data @ rest) stop will i kind pos = numeric_property data stop will i kind pos"
  by (auto simp: numeric_property_def py_slice_append_left Let_def)

lemma property_step_append:
  "stop \<le> length data \<Longrightarrow> pos < stop \<Longrightarrow> property_step (data @ rest) stop will pos st = property_step data stop will pos st"
proof -
  assume le: "stop \<le> length data" and pos: "pos < stop"
  have at: "py_at (data @ rest) pos = py_at data pos" using le pos by (intro py_at_append) simp
  show ?thesis unfolding property_step_def at mqtt_field_append [OF le] numeric_property_append [OF le] ..
qed

lemma property_loop_append:
  "stop \<le> length data \<Longrightarrow> property_loop (data @ rest) stop will pos st = property_loop data stop will pos st"
proof (induction data stop will pos st rule: property_loop.induct)
  case (1 data stop will pos st)
  then show ?case
    unfolding property_loop.simps [of "data @ rest" stop will pos st] property_loop.simps [of data stop will pos st]
    by (auto simp: property_step_append split: sum.split prod.split)
qed

lemma properties_append:
  "stop \<le> length data \<Longrightarrow> properties (data @ rest) pos stop will = properties data pos stop will"
proof -
  assume le: "stop \<le> length data"
  have v: "varint (data @ rest) pos stop = varint data pos stop" using le by (simp only: varint_def varint_loop_append_eq)
  have "bindE (property_loop (data @ rest) s will c no_properties) f = bindE (property_loop data s will c no_properties) f"
    if "\<not> s > stop" for s c and f :: "property_state \<Rightarrow> Properties result"
    using le that property_loop_append [of s data] by simp
  then show ?thesis unfolding properties_def v
    by (intro arg_cong [where f = "bindE (varint data pos stop)"] ext) (simp add: Let_def split: option.split prod.split)
qed

lemma connect_body_append:
  assumes "frame_end \<le> length data"
  shows "connect_body (data @ rest) pos frame_end = connect_body data pos frame_end"
proof -
  have o: "optional_properties (data @ rest) version c frame_end will = optional_properties data version c frame_end will"
    for version c will using assms by (simp add: optional_properties_def properties_append)
  have f: "mqtt_field (data @ rest) p frame_end u = mqtt_field data p frame_end u" for p u
    using assms by (rule mqtt_field_append)
  have w: "will_fields (data @ rest) version c frame_end = will_fields data version c frame_end" for version c
    unfolding will_fields_def o f ..
  have cr: "credential_fields (data @ rest) c frame_end u p = credential_fields data c frame_end u p" for c u p
    unfolding credential_fields_def f ..
  show ?thesis
  proof (cases "pos + 10 > frame_end")
    case False
    then have s: "py_slice (data @ rest) pos (pos + 6) = py_slice data pos (pos + 6)"
      "py_at (data @ rest) (pos + 6) = py_at data (pos + 6)" "py_at (data @ rest) (pos + 7) = py_at data (pos + 7)"
      using assms by (auto simp: py_slice_append_left nth_append)
    show ?thesis unfolding connect_body_def s o f w cr ..
  qed (simp add: connect_body_def)
qed

section \<open>Only the parser's own errors\<close>

definition is_mqtt_error :: "py_error \<Rightarrow> bool" where
  "is_mqtt_error e \<longleftrightarrow> (\<exists>msg. e = MalformedMQTT msg \<or> e = MQTTConnectLimit msg)"

lemma is_mqtt_error_simps [simp]: "is_mqtt_error (MalformedMQTT m)" "is_mqtt_error (MQTTConnectLimit m)"
  by (simp_all add: is_mqtt_error_def)

lemma raises_malformed [simp]: "raises_only is_mqtt_error (malformed msg)"
  by (simp add: malformed_def)

lemma raises_varint_loop: "stop \<le> length data \<Longrightarrow> raises_only is_mqtt_error (varint_loop data stop widths pos acc m)"
  by (induction widths arbitrary: pos acc m) (auto simp: Let_def)

lemma raises_varint: "stop \<le> length data \<Longrightarrow> raises_only is_mqtt_error (varint data pos stop)"
  unfolding varint_def by (rule raises_varint_loop)

lemma raises_field: "raises_only is_mqtt_error (mqtt_field data pos stop utf8)"
  by (auto simp: mqtt_field_def Let_def split: option.split)

lemma raises_numeric: "raises_only is_mqtt_error (numeric_property data stop will i kind pos)"
  by (auto simp: numeric_property_def Let_def)

lemma raises_property_step:
  assumes "pos < stop" "stop \<le> length data"
  shows "raises_only is_mqtt_error (property_step data stop will pos st)"
proof -
  have at: "py_at data pos = Inr (data ! pos)" using assms by simp
  show ?thesis unfolding property_step_def at bindE_simps Let_def
    by (auto intro!: raises_only_bindE raises_numeric raises_field split: option.split)
qed

lemma raises_property_loop: "stop \<le> length data \<Longrightarrow> raises_only is_mqtt_error (property_loop data stop will pos st)"
proof (induction data stop will pos st rule: property_loop.induct)
  case (1 data stop will pos st)
  show ?case
  proof (cases "pos < stop")
    case True
    from raises_property_step [OF True "1.prems", of will st] "1.IH" [OF True] "1.prems" True show ?thesis
      unfolding property_loop.simps [of data stop will pos st]
      by (cases "property_step data stop will pos st") (auto split: prod.split)
  qed (simp add: property_loop.simps)
qed

lemma raises_properties:
  assumes "stop \<le> length data" shows "raises_only is_mqtt_error (properties data pos stop will)"
  unfolding properties_def
proof (rule raises_only_bindE [OF raises_varint [OF assms]])
  fix parsed
  show "raises_only is_mqtt_error
     (case parsed of None \<Rightarrow> malformed ''missing property length''
      | Some (section_size, cursor) \<Rightarrow>
         let stop' = cursor + section_size in
         if stop' > stop then malformed ''properties exceed CONNECT frame''
         else bindE (property_loop data stop' will cursor no_properties) (\<lambda>st.
           if \<not> will \<and> 0x16 \<in> set (ms_seen st) \<and> 0x15 \<notin> set (ms_seen st)
           then malformed ''authentication data without method''
           else Inr \<lparr>mp_end = stop', mp_authentication_method = ms_method st, mp_authentication_data = ms_data st,
                     mp_authentication_method_span = ms_method_span st, mp_authentication_data_span = ms_data_span st\<rparr>))"
    using assms by (auto simp: Let_def intro!: raises_only_bindE raises_property_loop split: option.split prod.split)
qed

lemma raises_optional_properties:
  "stop \<le> length data \<Longrightarrow> raises_only is_mqtt_error (optional_properties data version pos stop will)"
  by (simp add: optional_properties_def raises_properties)

lemma raises_will_fields: "stop \<le> length data \<Longrightarrow> raises_only is_mqtt_error (will_fields data version pos stop)"
  unfolding will_fields_def by (auto intro!: raises_only_bindE raises_optional_properties raises_field split: prod.split)

lemma raises_credential_fields: "raises_only is_mqtt_error (credential_fields data pos stop u p)"
  unfolding credential_fields_def by (auto intro!: raises_only_bindE raises_field split: prod.split)

lemma mqtt_field_text: "mqtt_field data pos stop True = Inr (raw, decoded, start, after) \<Longrightarrow> decoded \<noteq> None"
  by (auto simp: mqtt_field_def malformed_def Let_def split: if_splits option.splits) metis

lemma raises_connect_body:
  assumes "stop \<le> length data"
  shows "raises_only is_mqtt_error (connect_body data pos stop)"
proof (cases "pos + 10 > stop")
  case False
  then have at: "py_at data (pos + 6) = Inr (data ! (pos + 6))" "py_at data (pos + 7) = Inr (data ! (pos + 7))"
    using assms by simp_all
  show ?thesis unfolding connect_body_def at bindE_simps Let_def
    using assms
    by (auto intro!: raises_only_bindE raises_optional_properties raises_field raises_will_fields raises_credential_fields
        dest!: mqtt_field_text split: option.split prod.split)
qed (simp add: connect_body_def)

section \<open>Spans\<close>

definition span_in :: "nat \<Rightarrow> nat \<Rightarrow> (nat \<times> nat) option \<Rightarrow> bool" where
  "span_in lo hi span \<longleftrightarrow> (case span of None \<Rightarrow> True | Some (a, b) \<Rightarrow> lo \<le> a \<and> a < b \<and> b \<le> hi)"

lemma property_step_spans:
  assumes "property_step data stop will pos st = Inr (pos', st')" "pos < stop"
    and "span_in lo pos (ms_method_span st)" "span_in lo pos (ms_data_span st)" "lo \<le> pos"
  shows "span_in lo pos' (ms_method_span st') \<and> span_in lo pos' (ms_data_span st')"
proof -
  have mono: "span_in lo pos s \<Longrightarrow> span_in lo pos' s" for s
    using property_step_after [OF assms(1,2)] by (auto simp: span_in_def split: option.splits prod.splits)
  have new: "span_in lo pos' (Some (pos, pos'))"
    using property_step_after [OF assms(1,2)] assms(5) by (auto simp: span_in_def)
  have "(ms_method_span st' = ms_method_span st \<or> ms_method_span st' = Some (pos, pos'))
      \<and> (ms_data_span st' = ms_data_span st \<or> ms_data_span st' = Some (pos, pos'))"
    using assms(1) unfolding property_step_def Let_def
    by (auto simp: malformed_def split: option.splits if_splits)
  with mono new assms(3,4) show ?thesis by metis
qed

lemma property_loop_spans:
  "property_loop data stop will pos st = Inr st' \<Longrightarrow> lo \<le> pos \<Longrightarrow> pos \<le> stop \<Longrightarrow>
     span_in lo pos (ms_method_span st) \<Longrightarrow> span_in lo pos (ms_data_span st) \<Longrightarrow>
     span_in lo stop (ms_method_span st') \<and> span_in lo stop (ms_data_span st')"
proof (induction data stop will pos st rule: property_loop.induct)
  case (1 data stop will pos st)
  show ?case
  proof (cases "pos < stop")
    case True
    then obtain pos' st1 where s: "property_step data stop will pos st = Inr (pos', st1)"
        "property_loop data stop will pos' st1 = Inr st'"
      using "1.prems"(1) by (auto simp: property_loop.simps [of data stop will pos st] split: sum.splits)
    from property_step_after [OF s(1) True] have "lo \<le> pos'" "pos' \<le> stop" using "1.prems"(2) by simp_all
    moreover from property_step_spans [OF s(1) True "1.prems"(4,5,2)]
    have "span_in lo pos' (ms_method_span st1)" "span_in lo pos' (ms_data_span st1)" by auto
    ultimately show ?thesis using "1.IH" [OF True s(1) refl s(2)] by blast
  next
    case False
    with "1.prems" show ?thesis by (auto simp: property_loop.simps [of data stop will pos st])
  qed
qed

lemma properties_spans:
  assumes "properties data pos stop will = Inr p"
  shows "pos < mp_end p \<and> mp_end p \<le> stop \<and> span_in pos stop (mp_authentication_method_span p)
     \<and> span_in pos stop (mp_authentication_data_span p)"
proof -
  obtain n c st where v: "varint data pos stop = Inr (Some (n, c))" and le: "c + n \<le> stop"
    and l: "property_loop data (c + n) will c no_properties = Inr st"
    and p: "mp_end p = c + n" "mp_authentication_method_span p = ms_method_span st"
      "mp_authentication_data_span p = ms_data_span st"
    using assms by (auto simp: properties_def malformed_def Let_def split: option.splits if_splits)
  have "pos < c" using v by (auto simp: varint_iff)
  moreover have "span_in c (c + n) (ms_method_span st) \<and> span_in c (c + n) (ms_data_span st)"
    by (rule property_loop_spans [OF l]) (simp_all add: no_properties_def span_in_def)
  ultimately show ?thesis using le p by (auto simp: span_in_def split: option.splits prod.splits)
qed

lemma optional_properties_spans:
  "optional_properties data version pos stop will = Inr p \<Longrightarrow> pos \<le> stop \<Longrightarrow>
     pos \<le> mp_end p \<and> mp_end p \<le> stop \<and> span_in pos stop (mp_authentication_method_span p)
     \<and> span_in pos stop (mp_authentication_data_span p)"
  by (auto simp: optional_properties_def span_in_def dest!: properties_spans split: if_splits)

lemma will_fields_after: "will_fields data version pos stop = Inr pos' \<Longrightarrow> pos \<le> stop \<Longrightarrow> pos \<le> pos' \<and> pos' \<le> stop"
  by (auto simp: will_fields_def malformed_def dest!: mqtt_field_after optional_properties_spans split: if_splits)

lemma mqtt_field_raw:
  "mqtt_field data pos stop utf8 = Inr (raw, decoded, start, after) \<Longrightarrow> raw = py_slice data start after
     \<and> decoded = (if utf8 then utf8_decode raw else None)"
  by (auto simp: mqtt_field_def malformed_def Let_def split: if_splits option.splits)

lemma credential_fields_spans:
  assumes "credential_fields data pos stop u pw = Inr (username, password, start, fin, after)" "pos \<le> stop"
  shows "(start = None) = (\<not> u \<and> \<not> pw) \<and> (fin = None) = (\<not> u \<and> \<not> pw) \<and> (u \<or> pw \<longrightarrow> fin = Some after)
     \<and> (password = None) = (\<not> pw) \<and> (username = None) = (\<not> u)
     \<and> (\<forall>s. start = Some s \<longrightarrow> pos \<le> s \<and> s < after) \<and> pos \<le> after \<and> after \<le> stop
     \<and> (\<forall>v. password = Some v \<longrightarrow> (\<exists>q. q \<le> after \<and> v = py_slice data q after))
     \<and> (\<forall>v. username = Some v \<longrightarrow> (\<exists>q r. q \<le> r \<and> r \<le> after \<and> utf8_decode (py_slice data q r) = Some v))"
proof (cases u)
  case True
  obtain raw a1 dec s1 where f: "mqtt_field data pos stop True = Inr (raw, dec, s1, a1)"
    using assms(1) True by (auto simp: credential_fields_def)
  then have rest: "(if pw then bindE (mqtt_field data a1 stop False) (\<lambda>(password, _, _, after).
            Inr (dec, Some password, Some (case Some pos of None \<Rightarrow> a1 | Some s \<Rightarrow> s), Some after, after))
       else Inr (dec, None, Some pos, Some a1, a1)) = Inr (username, password, start, fin, after)"
    using assms(1) True by (simp add: credential_fields_def)
  note fa = mqtt_field_after [OF f] and ft = mqtt_field_text [OF f] and fr = mqtt_field_raw [OF f]
  show ?thesis
  proof (cases pw)
    case pw: True
    then obtain raw2 d2 s2 a2 where g: "mqtt_field data a1 stop False = Inr (raw2, d2, s2, a2)"
      and o: "username = dec" "password = Some raw2" "start = Some pos" "fin = Some a2" "after = a2"
      using rest by (auto split: prod.splits)
    note ga = mqtt_field_after [OF g] and gr = mqtt_field_raw [OF g]
    have "\<exists>q. q \<le> a2 \<and> raw2 = py_slice data q a2" using ga gr by (intro exI [of _ s2]) auto
    moreover have "\<exists>q r. q \<le> r \<and> r \<le> a2 \<and> utf8_decode (py_slice data q r) = dec"
      using fa fr ga by (intro exI [of _ s1] exI [of _ a1]) auto
    ultimately show ?thesis using True pw o fa ft ga by auto
  next
    case False
    then have o: "username = dec" "password = None" "start = Some pos" "fin = Some a1" "after = a1" using rest by auto
    have "\<exists>q r. q \<le> r \<and> r \<le> a1 \<and> utf8_decode (py_slice data q r) = dec"
      using fa fr by (intro exI [of _ s1] exI [of _ a1]) auto
    with True False o fa ft show ?thesis by auto
  qed
next
  case u: False
  show ?thesis
  proof (cases pw)
    case True
    then obtain raw2 d2 s2 a2 where g: "mqtt_field data pos stop False = Inr (raw2, d2, s2, a2)"
      and o: "username = None" "password = Some raw2" "start = Some pos" "fin = Some a2" "after = a2"
      using assms(1) u by (auto simp: credential_fields_def)
    note ga = mqtt_field_after [OF g] and gr = mqtt_field_raw [OF g]
    have "\<exists>q. q \<le> a2 \<and> raw2 = py_slice data q a2" using ga gr by (intro exI [of _ s2]) auto
    with True u o ga show ?thesis by auto
  next
    case False
    with u assms show ?thesis by (auto simp: credential_fields_def)
  qed
qed

section \<open>Properties of the parser\<close>

text \<open>What follows the fixed header's length.\<close>

definition connect_frame :: "bytes \<Rightarrow> (nat \<times> nat) option \<Rightarrow> MQTTConnect option result" where
  "connect_frame data parsed =
     (case parsed of
        None \<Rightarrow> Inr None
      | Some (remaining, cursor) \<Rightarrow>
          if cursor + remaining > MAX_CONNECT_BYTES then Inl (MQTTConnectLimit ''CONNECT exceeds supported frame bound'')
          else if length data < cursor + remaining then Inr None
          else bindE (connect_body data cursor (cursor + remaining)) (\<lambda>c. Inr (Some c)))"

lemma parse_mqtt_connect_Cons:
  "parse_mqtt_connect (0x10 # xs) = bindE (varint (0x10 # xs) 1 (length (0x10 # xs))) (connect_frame (0x10 # xs))"
  unfolding parse_mqtt_connect_def connect_frame_def Let_def by simp

text \<open>C38: the verdict on a stream prefix is final: once the parser has returned a CONNECT or raised, more
  bytes of the stream never change the result, so a caller that keeps the first answer loses nothing.\<close>

theorem parse_mqtt_connect_final:
  assumes "parse_mqtt_connect data \<noteq> Inr None"
  shows "parse_mqtt_connect (data @ rest) = parse_mqtt_connect data"
proof (cases data)
  case Nil
  with assms show ?thesis by (simp add: parse_mqtt_connect_def)
next
  case (Cons b bs)
  show ?thesis
  proof (cases "b = 0x10")
    case False
    with Cons show ?thesis by (simp add: parse_mqtt_connect_def)
  next
    case True
    have d: "data = 0x10 # bs" using Cons True by simp
    have ne: "varint data 1 (length data) \<noteq> Inr None" using assms unfolding d parse_mqtt_connect_Cons by (auto simp: connect_frame_def)
    have v: "varint (data @ rest) 1 (length (data @ rest)) = varint data 1 (length data)"
      by (rule varint_append [OF _ ne]) simp_all
    show ?thesis
    proof (cases "varint data 1 (length data)")
      case (Inl e)
      then show ?thesis using v unfolding d append_Cons parse_mqtt_connect_Cons by simp
    next
      case (Inr parsed)
      then obtain n c where p: "varint data 1 (length data) = Inr (Some (n, c))" using ne by (cases parsed) auto
      then have "length data < c + n \<Longrightarrow> c + n > MAX_CONNECT_BYTES" using assms unfolding d parse_mqtt_connect_Cons by (auto simp: connect_frame_def split: if_splits)
      then show ?thesis using p v connect_body_append [of "c + n" data rest c] unfolding d append_Cons parse_mqtt_connect_Cons
        by (auto simp: connect_frame_def)
    qed
  qed
qed

lemma parse_mqtt_connectE:
  assumes "parse_mqtt_connect data = Inr (Some c)"
  obtains pos n where "pos + n \<le> 128 * 1024" "pos + n \<le> length data" "connect_body data pos (pos + n) = Inr c"
proof -
  obtain b bs where d: "data = b # bs" using assms by (cases data) (auto simp: parse_mqtt_connect_def)
  obtain n pos where v: "varint data 1 (length data) = Inr (Some (n, pos))" "pos + n \<le> MAX_CONNECT_BYTES"
      "pos + n \<le> length data" "connect_body data pos (pos + n) = Inr c"
    using assms unfolding parse_mqtt_connect_def d list.case Let_def
    by (auto simp: malformed_def not_less split: if_splits option.splits)
  then show thesis using that by (simp add: MAX_CONNECT_BYTES_def)
qed

definition connect_ok :: "bytes \<Rightarrow> nat \<Rightarrow> MQTTConnect \<Rightarrow> bool" where
  "connect_ok data stop c \<longleftrightarrow> mc_frame_end c = stop \<and> mc_version c \<in> {4, 5}
      \<and> ((mc_username c \<noteq> None \<or> mc_password c \<noteq> None) \<longleftrightarrow> mc_credential_start c \<noteq> None)
      \<and> (\<forall>s. mc_credential_start c = Some s \<longrightarrow> s < stop \<and> mc_credential_end c = Some stop)
      \<and> (\<forall>v. mc_password c = Some v \<longrightarrow> (\<exists>q \<le> stop. v = py_slice data q stop))
      \<and> (\<forall>v. mc_username c = Some v \<longrightarrow> (\<exists>q r. q \<le> r \<and> r \<le> stop \<and> utf8_decode (py_slice data q r) = Some v))
      \<and> span_in 0 stop (mc_authentication_method_span c) \<and> span_in 0 stop (mc_authentication_data_span c)"

lemma connect_body_spans:
  assumes "connect_body data pos stop = Inr c" "stop \<le> length data"
  shows "connect_ok data stop c"
proof -
  have ten: "pos + 10 \<le> stop" using assms(1) by (auto simp: connect_body_def malformed_def not_less split: if_splits)
  then have at: "py_at data (pos + 6) = Inr (data ! (pos + 6))" "py_at data (pos + 7) = Inr (data ! (pos + 7))"
    using assms(2) by simp_all
  define version flags where "version = unat (data ! (pos + 6))" and "flags = unat (data ! (pos + 7))"
  define will u pw where "will = (flags AND 0x04 \<noteq> 0)" and "u = (flags AND 0x80 \<noteq> 0)" and "pw = (flags AND 0x40 \<noteq> 0)"
  have v: "version \<in> {4, 5}"
    using assms(1) unfolding connect_body_def at bindE_simps Let_def version_def
    by (auto simp: malformed_def split: if_splits)
  have main: "bindE (optional_properties data version (pos + 10) stop False) (\<lambda>p.
            bindE (mqtt_field data (mp_end p) stop True) (\<lambda>(_, client_id, _, cursor1).
            case client_id of
              None \<Rightarrow> Inl AssertionError
            | Some client \<Rightarrow>
                bindE (if will then will_fields data version cursor1 stop else Inr cursor1) (\<lambda>cursor2.
                bindE (credential_fields data cursor2 stop u pw)
                  (\<lambda>(username, password, start, fin, cursor3).
                if cursor3 \<noteq> stop then malformed ''CONNECT contains unclaimed payload bytes''
                else Inr \<lparr>mc_version = version, mc_frame_end = stop, mc_client_id = client,
                          mc_username = username, mc_password = password,
                          mc_credential_start = start, mc_credential_end = fin,
                          mc_authentication_method = mp_authentication_method p,
                          mc_authentication_data = mp_authentication_data p,
                          mc_authentication_method_span = mp_authentication_method_span p,
                          mc_authentication_data_span = mp_authentication_data_span p\<rparr>)))) = Inr c"
    using assms(1) v unfolding connect_body_def at bindE_simps Let_def version_def [symmetric] flags_def [symmetric]
      will_def [symmetric] u_def [symmetric] pw_def [symmetric]
    by (simp add: malformed_def split: if_splits)
  then obtain p where p: "optional_properties data version (pos + 10) stop False = Inr p"
    by (auto simp: bindE_Inr_iff)
  with main obtain raw cid s c1 where f: "mqtt_field data (mp_end p) stop True = Inr (raw, Some cid, s, c1)"
    by (auto simp: bindE_Inr_iff split: option.splits)
  with main p obtain c2 where w: "(if will then will_fields data version c1 stop else Inr c1) = Inr c2"
    by (auto simp: bindE_Inr_iff)
  obtain username password start fin c3 where cr: "credential_fields data c2 stop u pw = Inr (username, password, start, fin, c3)"
    using main unfolding p bindE_simps f prod.case option.case w by (auto simp: bindE_Inr_iff)
  have c: "c3 = stop" "c = \<lparr>mc_version = version, mc_frame_end = stop, mc_client_id = cid,
                          mc_username = username, mc_password = password,
                          mc_credential_start = start, mc_credential_end = fin,
                          mc_authentication_method = mp_authentication_method p,
                          mc_authentication_data = mp_authentication_data p,
                          mc_authentication_method_span = mp_authentication_method_span p,
                          mc_authentication_data_span = mp_authentication_data_span p\<rparr>"
    using main unfolding p bindE_simps f prod.case option.case w cr by (auto simp: malformed_def split: if_splits)
  have ps: "mp_end p \<le> stop" "span_in 0 stop (mp_authentication_method_span p)" "span_in 0 stop (mp_authentication_data_span p)"
    using optional_properties_spans [OF p ten] by (auto simp: span_in_def split: option.splits prod.splits)
  have "c2 \<le> stop" using w will_fields_after [of data version c1 stop c2] mqtt_field_after [OF f] by (auto split: if_splits)
  from credential_fields_spans [OF cr this] c(1) ps(2,3) v show ?thesis unfolding connect_ok_def c(2) by auto
qed

text \<open>C39: whatever bytes arrive, the parser returns or raises \<open>MalformedMQTT\<close> or \<open>MQTTConnectLimit\<close>, never an
  index or assertion error; a CONNECT it returns lies wholly inside the data and within 128 KiB, its credential
  span is a non-empty range that ends the frame, the password is a slice of the frame, the user name is the
  decoding of a slice, and both authentication spans lie inside the frame.\<close>

theorem parse_mqtt_connect_safe:
  "raises_only is_mqtt_error (parse_mqtt_connect data)
   \<and> (\<forall>c. parse_mqtt_connect data = Inr (Some c) \<longrightarrow>
        mc_frame_end c \<le> length data \<and> mc_frame_end c \<le> 128 * 1024 \<and> mc_version c \<in> {4, 5}
      \<and> ((mc_username c \<noteq> None \<or> mc_password c \<noteq> None) \<longleftrightarrow> mc_credential_start c \<noteq> None)
      \<and> (\<forall>s. mc_credential_start c = Some s \<longrightarrow> s < mc_frame_end c \<and> mc_credential_end c = Some (mc_frame_end c))
      \<and> (\<forall>v. mc_password c = Some v \<longrightarrow> (\<exists>q \<le> mc_frame_end c. v = py_slice data q (mc_frame_end c)))
      \<and> (\<forall>v. mc_username c = Some v \<longrightarrow> (\<exists>q r. q \<le> r \<and> r \<le> mc_frame_end c \<and> utf8_decode (py_slice data q r) = Some v))
      \<and> span_in 0 (mc_frame_end c) (mc_authentication_method_span c)
      \<and> span_in 0 (mc_frame_end c) (mc_authentication_data_span c))"
proof (rule conjI, goal_cases)
  case 1
  show ?case
    unfolding parse_mqtt_connect_def Let_def
    by (auto intro!: raises_only_bindE raises_varint raises_connect_body split: list.split option.split prod.split)
next
  case 2
  have "connect_ok data (mc_frame_end c) c \<and> mc_frame_end c \<le> length data \<and> mc_frame_end c \<le> 128 * 1024"
    if a: "parse_mqtt_connect data = Inr (Some c)" for c
  proof -
    from a obtain pos n where b: "pos + n \<le> 128 * 1024" "pos + n \<le> length data" "connect_body data pos (pos + n) = Inr c"
      by (rule parse_mqtt_connectE)
    have k: "connect_ok data (pos + n) c" using b(3,2) by (rule connect_body_spans)
    then have "mc_frame_end c = pos + n" by (simp add: connect_ok_def)
    with k b(1,2) show ?thesis by simp
  qed
  then show ?case unfolding connect_ok_def by blast
qed

section \<open>Round trip with the MQTT 3.1.1 encoding\<close>

definition length_prefixed :: "bytes \<Rightarrow> bytes" where
  "length_prefixed raw = to_be 2 (length raw) @ raw"

definition connect_header :: "byte \<Rightarrow> byte \<Rightarrow> bytes" where
  "connect_header k1 k2 = [0, 4, 0x4D, 0x51, 0x54, 0x54, 4, 0xC2, k1, k2]"

text \<open>A CONNECT of protocol level 4 with a clean session, a user name and a password.\<close>

definition connect_encode :: "byte \<Rightarrow> byte \<Rightarrow> bytes \<Rightarrow> bytes \<Rightarrow> bytes \<Rightarrow> bytes" where
  "connect_encode k1 k2 client user password =
     (let body = connect_header k1 k2 @ length_prefixed client @ length_prefixed user @ length_prefixed password
      in 0x10 # varint_encode (length body) @ body)"

lemma length_length_prefixed [simp]: "length (length_prefixed raw) = 2 + length raw"
  by (simp add: length_prefixed_def)

lemma length_connect_header [simp]: "length (connect_header k1 k2) = 10"
  by (simp add: connect_header_def)

lemma mqtt_field_at:
  assumes "data = before @ length_prefixed raw @ behind" "length raw < 65536" "pos = length before" "pos + 2 + length raw \<le> stop"
  shows "mqtt_field data pos stop False = Inr (raw, None, pos + 2, pos + 2 + length raw)"
    and "utf8_decode raw = Some s \<Longrightarrow> 0 \<notin> set s \<Longrightarrow> mqtt_field data pos stop True = Inr (raw, Some s, pos + 2, pos + 2 + length raw)"
proof -
  have h: "from_be (py_slice data pos (pos + 2)) = length raw"
    using assms(1-3) from_be_to_be [of "length raw" 2] by (simp add: py_slice_def length_prefixed_def)
  have r: "py_slice data (pos + 2) (pos + 2 + length raw) = raw"
    using assms(1,3) by (simp add: py_slice_def length_prefixed_def)
  have ok: "\<not> pos + 2 > stop" "\<not> pos + 2 + length raw > stop" using assms(4) by auto
  show "mqtt_field data pos stop False = Inr (raw, None, pos + 2, pos + 2 + length raw)"
    unfolding mqtt_field_def Let_def h r if_not_P [OF ok(1)] if_not_P [OF ok(2)] by simp
  show "mqtt_field data pos stop True = Inr (raw, Some s, pos + 2, pos + 2 + length raw)"
    if "utf8_decode raw = Some s" "0 \<notin> set s"
    unfolding mqtt_field_def Let_def h r if_not_P [OF ok(1)] if_not_P [OF ok(2)] using that by simp
qed

lemma connect_body_encode:
  assumes "data = before @ connect_header k1 k2 @ length_prefixed client @ length_prefixed user @ length_prefixed password @ rest"
    and "length client < 65536" "length user < 65536" "length password < 65536"
    and "utf8_decode client = Some client_text" "0 \<notin> set client_text"
    and "utf8_decode user = Some user_text" "0 \<notin> set user_text"
    and "pos = length before" "stop = pos + 16 + length client + length user + length password"
  shows "connect_body data pos stop = Inr \<lparr>mc_version = 4, mc_frame_end = stop, mc_client_id = client_text,
     mc_username = Some user_text, mc_password = Some password,
     mc_credential_start = Some (pos + 12 + length client), mc_credential_end = Some stop,
     mc_authentication_method = None, mc_authentication_data = None,
     mc_authentication_method_span = None, mc_authentication_data_span = None\<rparr>"
proof -
  have name: "py_slice data pos (pos + 6) = [0, 4, 0x4D, 0x51, 0x54, 0x54]"
    using assms(1,9) by (simp add: py_slice_def connect_header_def)
  have at: "py_at data (pos + 6) = Inr 4" "py_at data (pos + 7) = Inr 0xC2"
    using assms(1,9) by (simp_all add: py_at_def nth_append connect_header_def)
  have c: "mqtt_field data (pos + 10) stop True = Inr (client, Some client_text, pos + 12, pos + 12 + length client)"
    using mqtt_field_at(2) [of data "before @ connect_header k1 k2" client
        "length_prefixed user @ length_prefixed password @ rest" "pos + 10" stop client_text] assms by simp
  have u: "mqtt_field data (pos + 12 + length client) stop True
      = Inr (user, Some user_text, pos + 14 + length client, pos + 14 + length client + length user)"
    using mqtt_field_at(2) [of data "before @ connect_header k1 k2 @ length_prefixed client" user
        "length_prefixed password @ rest" "pos + 12 + length client" stop user_text] assms by simp
  have p: "mqtt_field data (pos + 14 + length client + length user) stop False
      = Inr (password, None, pos + 16 + length client + length user, stop)"
    using mqtt_field_at(1) [of data "before @ connect_header k1 k2 @ length_prefixed client @ length_prefixed user" password
        rest "pos + 14 + length client + length user" stop] assms by simp
  have flags: "(0xC2 :: nat) AND 0x04 = 0" "(0xC2 :: nat) AND 0x38 = 0" "(0xC2 :: nat) AND 0x80 \<noteq> 0" "(0xC2 :: nat) AND 0x40 \<noteq> 0"
    by simp_all
  have ten: "pos + 10 \<le> stop" using assms(10) by simp
  show ?thesis
    unfolding connect_body_def name at bindE_simps Let_def
    using ten by (simp add: optional_properties_def c u p credential_fields_def flags)
qed

lemma connect_encode_parses:
  assumes "length client < 65536" "length user < 65536" "length password < 65536"
    and "utf8_decode client = Some client_text" "0 \<notin> set client_text"
    and "utf8_decode user = Some user_text" "0 \<notin> set user_text"
    and "length (connect_encode k1 k2 client user password) \<le> MAX_CONNECT_BYTES"
  shows "parse_mqtt_connect (connect_encode k1 k2 client user password @ rest) =
    (let stop = length (connect_encode k1 k2 client user password) in
     Inr (Some \<lparr>mc_version = 4, mc_frame_end = stop, mc_client_id = client_text,
       mc_username = Some user_text, mc_password = Some password,
       mc_credential_start = Some (stop - (4 + length user + length password)), mc_credential_end = Some stop,
       mc_authentication_method = None, mc_authentication_data = None,
       mc_authentication_method_span = None, mc_authentication_data_span = None\<rparr>))"
proof -
  define body where "body = connect_header k1 k2 @ length_prefixed client @ length_prefixed user @ length_prefixed password"
  define head where "head = 0x10 # varint_encode (length body)"
  define data where "data = head @ body @ rest"
  have frame: "connect_encode k1 k2 client user password = head @ body"
    by (simp add: connect_encode_def Let_def body_def head_def)
  have n: "length body = 16 + length client + length user + length password" by (simp add: body_def)
  have "length body < 128 ^ 4" using assms(1-3) n by simp
  moreover have "py_slice data 1 (length head) = varint_encode (length body)"
    by (simp add: data_def head_def py_slice_def)
  ultimately have v: "varint data 1 (length data) = Inr (Some (length body, length head))"
    unfolding varint_iff by (simp add: data_def head_def)
  have b: "connect_body data (length head) (length head + length body) = Inr \<lparr>mc_version = 4,
     mc_frame_end = length head + length body, mc_client_id = client_text,
     mc_username = Some user_text, mc_password = Some password,
     mc_credential_start = Some (length head + 12 + length client), mc_credential_end = Some (length head + length body),
     mc_authentication_method = None, mc_authentication_data = None,
     mc_authentication_method_span = None, mc_authentication_data_span = None\<rparr>"
    using assms(1-7) n by (intro connect_body_encode) (simp_all add: data_def body_def)
  have lim: "\<not> length head + length body > MAX_CONNECT_BYTES" using assms(8) by (simp add: frame)
  have "parse_mqtt_connect data = bindE (varint data 1 (length data)) (connect_frame data)"
    unfolding data_def head_def append_Cons by (rule parse_mqtt_connect_Cons)
  also have "\<dots> = bindE (connect_body data (length head) (length head + length body)) (\<lambda>c. Inr (Some c))"
    unfolding v using lim by (simp add: data_def connect_frame_def)
  finally show ?thesis unfolding b frame using n by (simp add: data_def Let_def)
qed


definition sample_connect :: bytes where
  "sample_connect = [0x10, 20, 0, 4, 0x4D, 0x51, 0x54, 0x54, 4, 0xC2, 0, 60, 0, 1, 0x63, 0, 1, 0x75, 0, 2, 0x70, 0x77]"

lemma sample_connect_encode: "connect_encode 0 60 [0x63] [0x75] [0x70, 0x77] = sample_connect"
  by (simp add: connect_encode_def sample_connect_def Let_def connect_header_def length_prefixed_def numeral_2_eq_2
      varint_encode_small)


lemma sample_connect_parses:
  "parse_mqtt_connect sample_connect =
     Inr (Some \<lparr>mc_version = 4, mc_frame_end = 22, mc_client_id = [0x63], mc_username = Some [0x75],
       mc_password = Some [0x70, 0x77], mc_credential_start = Some 15, mc_credential_end = Some 22,
       mc_authentication_method = None, mc_authentication_data = None,
       mc_authentication_method_span = None, mc_authentication_data_span = None\<rparr>)"
  using connect_encode_parses [of "[0x63]" "[0x75]" "[0x70, 0x77]" "[0x63]" "[0x75]" 0 60 "[]"]
  by (simp add: MAX_CONNECT_BYTES_def sample_connect_encode) (simp add: sample_connect_def)

theorem parse_mqtt_connect_final_witness:
  "parse_mqtt_connect sample_connect \<noteq> Inr None
   \<and> parse_mqtt_connect (sample_connect @ [0xC0, 0]) = parse_mqtt_connect sample_connect"
proof -
  have "parse_mqtt_connect sample_connect \<noteq> Inr None" unfolding sample_connect_parses by simp
  with parse_mqtt_connect_final [OF this, of "[0xC0, 0]"] show ?thesis by simp
qed

theorem parse_mqtt_connect_safe_witness:
  "\<exists>c q. parse_mqtt_connect sample_connect = Inr (Some c) \<and> mc_frame_end c \<le> length sample_connect
     \<and> mc_password c = Some (py_slice sample_connect q (mc_frame_end c)) \<and> q \<le> mc_frame_end c
     \<and> mc_credential_start c = Some 15 \<and> mc_credential_end c = Some (mc_frame_end c)"
  using parse_mqtt_connect_safe [of sample_connect] unfolding sample_connect_parses by fastforce

end
