(* ===== verification/Socks5.thy ===== *)
theory Socks5
  imports Utf8
begin

text \<open>
  The SOCKS5 user name/password recogniser (\<open>packet_audit/socks5.py\<close>) and its equivalence with the grammar of
  RFC 1928 and RFC 1929. Every index the code uses is a checked access, so an \<open>IndexError\<close> would be a result.
\<close>

record Socks5Auth =
  sk_start :: nat
  sk_stop :: nat
  sk_username :: bytes
  sk_password :: bytes

definition parse_socks5_auth :: "bytes \<Rightarrow> bytes \<Rightarrow> Socks5Auth option result" where
  "parse_socks5_auth client server =
     (if length client < 3 \<or> length server < 2 \<or> py_slice server 0 2 \<noteq> [5, 2] then Inr None
      else
        bindE (py_at client 1) (\<lambda>mc.
        let method_count = unat mc; greeting_end = 2 + method_count in
        bindE (py_at client 0) (\<lambda>ver.
        if ver \<noteq> 5 \<or> method_count = 0 \<or> length client < greeting_end + 3 then Inr None
        else if 2 \<notin> set (py_slice client 2 greeting_end) then Inr None
        else
          let auth_start = greeting_end in
          bindE (py_at client (auth_start + 1)) (\<lambda>ul.
          let username_len = unat ul; username_start = auth_start + 2;
              password_len_offset = username_start + username_len in
          bindE (py_at client auth_start) (\<lambda>sub.
          if sub \<noteq> 1 \<or> username_len = 0 \<or> length client \<le> password_len_offset then Inr None
          else
            bindE (py_at client password_len_offset) (\<lambda>pl.
            let password_len = unat pl; password_start = password_len_offset + 1;
                auth_end = password_start + password_len in
            if password_len = 0 \<or> length client < auth_end then Inr None
            else Inr (Some \<lparr>sk_start = username_start, sk_stop = auth_end,
                            sk_username = py_slice client username_start password_len_offset,
                            sk_password = py_slice client password_start auth_end\<rparr>)))))))"

definition display_value :: "bytes \<Rightarrow> code_points + bytes" where
  "display_value raw = (case utf8_decode raw of Some s \<Rightarrow> Inl s | None \<Rightarrow> Inr raw)"

section \<open>The grammar\<close>

text \<open>The client's greeting, its authentication request, and anything after them.\<close>

definition socks5_wire :: "bytes \<Rightarrow> bytes \<Rightarrow> bytes \<Rightarrow> bytes \<Rightarrow> bytes" where
  "socks5_wire methods user password rest =
     [5, of_nat (length methods)] @ methods @ [1, of_nat (length user)] @ user @ [of_nat (length password)] @ password @ rest"

definition octet_string :: "bytes \<Rightarrow> bool" where
  "octet_string bs \<longleftrightarrow> bs \<noteq> [] \<and> length bs < 256"

lemma parse_socks5_total: "\<exists>r. parse_socks5_auth client server = Inr r"
  by (auto simp: parse_socks5_auth_def py_at_def Let_def)

lemma parse_socks5_complete:
  assumes "octet_string methods" "2 \<in> set methods" "octet_string user" "octet_string password"
  shows "parse_socks5_auth (socks5_wire methods user password rest) (5 # 2 # server_rest) =
    Inr (Some \<lparr>sk_start = 4 + length methods, sk_stop = 5 + length methods + length user + length password,
               sk_username = user, sk_password = password\<rparr>)"
proof -
  let ?c = "socks5_wire methods user password rest"
  let ?m = "length methods" and ?u = "length user" and ?p = "length password"
  note ok = assms [unfolded octet_string_def]
  have len: "length ?c = 5 + ?m + ?u + ?p + length rest" by (simp add: socks5_wire_def)
  have at: "py_at ?c 0 = Inr 5" "py_at ?c 1 = Inr (of_nat ?m)" "py_at ?c (2 + ?m) = Inr 1"
      "py_at ?c (2 + ?m + 1) = Inr (of_nat ?u)" "py_at ?c (2 + ?m + 2 + ?u) = Inr (of_nat ?p)"
    by (simp_all add: py_at_def socks5_wire_def nth_append nth_Cons')
  have sl: "py_slice ?c 2 (2 + ?m) = methods" "py_slice ?c (2 + ?m + 2) (2 + ?m + 2 + ?u) = user"
      "py_slice ?c (2 + ?m + 2 + ?u + 1) (2 + ?m + 2 + ?u + 1 + ?p) = password"
    by (simp_all add: py_slice_def socks5_wire_def numeral_2_eq_2 numeral_3_eq_3)
  have un: "unat (of_nat ?m :: byte) = ?m" "unat (of_nat ?u :: byte) = ?u" "unat (of_nat ?p :: byte) = ?p"
    using ok by (simp_all add: unat_of_nat_byte)
  have srv: "py_slice (5 # 2 # server_rest) 0 2 = [5, 2]" by (simp add: py_slice_def)
  have g: "0 < ?m" "0 < ?u" "0 < ?p" using ok by auto
  show ?thesis
    unfolding parse_socks5_auth_def srv at bindE_simps Let_def un sl
    using assms(2) g len by simp
qed

lemma take_Suc_slice: "i < length xs \<Longrightarrow> i < j \<Longrightarrow> py_slice xs i j = xs ! i # py_slice xs (Suc i) j"
  by (simp add: py_slice_def Cons_nth_drop_Suc [symmetric] take_Cons')

lemma parse_socks5_sound:
  assumes "parse_socks5_auth client server = Inr (Some a)"
  shows "\<exists>methods user password rest server_rest. octet_string methods \<and> 2 \<in> set methods
     \<and> octet_string user \<and> octet_string password
     \<and> client = socks5_wire methods user password rest \<and> server = 5 # 2 # server_rest"
proof -
  define m where "m = unat (client ! 1)"
  define u where "u = unat (client ! (2 + m + 1))"
  define p where "p = unat (client ! (2 + m + 2 + u))"
  have c3: "3 \<le> length client" and srv: "py_slice server 0 2 = [5, 2]"
    using assms by (auto simp: parse_socks5_auth_def split: if_splits)
  have g: "client ! 0 = 5" "m \<noteq> 0" "2 + m + 3 \<le> length client" "2 \<in> set (py_slice client 2 (2 + m))"
    using assms c3 by (auto simp: parse_socks5_auth_def py_at_def Let_def m_def split: if_splits)
  have h: "client ! (2 + m) = 1" "u \<noteq> 0" "2 + m + 2 + u < length client"
    using assms c3 g by (auto simp: parse_socks5_auth_def py_at_def Let_def m_def u_def split: if_splits)
  have k: "p \<noteq> 0" "2 + m + 2 + u + 1 + p \<le> length client"
    using assms c3 g h by (auto simp: parse_socks5_auth_def py_at_def Let_def m_def u_def p_def split: if_splits)
  define methods user password rest where "methods = py_slice client 2 (2 + m)"
    and "user = py_slice client (2 + m + 2) (2 + m + 2 + u)"
    and "password = py_slice client (2 + m + 2 + u + 1) (2 + m + 2 + u + 1 + p)"
    and "rest = py_slice client (2 + m + 2 + u + 1 + p) (length client)"
  have b: "m < 256" "u < 256" "p < 256" by (simp_all add: m_def u_def p_def)
  have l: "length methods = m" "length user = u" "length password = p"
    using k by (simp_all add: methods_def user_def password_def)
  have "client = py_slice client 0 (length client)" by simp
  also have "\<dots> = py_slice client 0 2 @ methods @ py_slice client (2 + m) (2 + m + 2) @ user
      @ py_slice client (2 + m + 2 + u) (2 + m + 2 + u + 1) @ password @ rest"
    unfolding methods_def user_def password_def rest_def using k(2)
    by (simp add: py_slice_join del: py_slice_full)
  also have "py_slice client 0 2 = [5, of_nat m]"
    using take_Suc_slice [of 0 client 2] take_Suc_slice [of 1 client 2] c3 g(1)
    by (cases client; cases "tl client") (auto simp: m_def py_slice_def)
  also have "py_slice client (2 + m) (2 + m + 2) = [1, of_nat u]"
    using h k(2) by (simp add: take_Suc_slice u_def) (simp add: py_slice_def)
  also have "py_slice client (2 + m + 2 + u) (2 + m + 2 + u + 1) = [of_nat p]"
    using h k(2) by (simp add: take_Suc_slice p_def) (simp add: py_slice_def)
  finally have "client = socks5_wire methods user password rest"
    by (simp add: socks5_wire_def l)
  moreover have "server = 5 # 2 # drop 2 server"
    using srv append_take_drop_id [of 2 server] by (simp add: py_slice_def)
  moreover have "octet_string methods" "octet_string user" "octet_string password"
    using l b g(2) h(2) k(1) by (auto simp: octet_string_def)
  moreover have "2 \<in> set methods" using g(4) by (simp add: methods_def)
  ultimately show ?thesis by blast
qed

text \<open>C26: the recogniser never raises, and it reports a credential exactly when the server's first two bytes
  select method 2 and the client's stream is a greeting that offers method 2 followed by one complete request
  with a user name and a password of 1 to 255 bytes; it then reports exactly those two values and the span from
  the user name to the end of the request, whatever follows in either stream.\<close>

theorem parse_socks5_auth_iff:
  "(\<exists>r. parse_socks5_auth client server = Inr r)
   \<and> (parse_socks5_auth client server = Inr (Some a) \<longleftrightarrow>
       (\<exists>methods user password rest server_rest. octet_string methods \<and> 2 \<in> set methods
         \<and> octet_string user \<and> octet_string password
         \<and> client = socks5_wire methods user password rest \<and> server = 5 # 2 # server_rest
         \<and> a = \<lparr>sk_start = 4 + length methods, sk_stop = 5 + length methods + length user + length password,
                sk_username = user, sk_password = password\<rparr>))"
proof (intro conjI iffI)
  assume s: "parse_socks5_auth client server = Inr (Some a)"
  from parse_socks5_sound [OF s] s
  show "\<exists>methods user password rest server_rest. octet_string methods \<and> 2 \<in> set methods
         \<and> octet_string user \<and> octet_string password
         \<and> client = socks5_wire methods user password rest \<and> server = 5 # 2 # server_rest
         \<and> a = \<lparr>sk_start = 4 + length methods, sk_stop = 5 + length methods + length user + length password,
                sk_username = user, sk_password = password\<rparr>"
    using parse_socks5_complete by fastforce
qed (auto simp: parse_socks5_total parse_socks5_complete)

end
