(* ===== verification/Service_Watchdog.thy ===== *)
theory Service_Watchdog
  imports Prelude
begin

text \<open>
  The service-manager notifications of the main process (\<open>packet_audit/service_watchdog.py\<close>): construction
  from the environment variables, \<open>ready\<close>, \<open>progress\<close> and \<open>stopping\<close>, as a state machine that is shown to
  implement the abstract notification protocol. The process identifier, the monotonic clock in
  nanoseconds and the outcome of \<open>sendto\<close> are arguments; what was delivered is kept in a log.
  The interval is \<open>WATCHDOG_USEC\<close> / 3 microseconds and is compared exactly, by cross-multiplication.
\<close>

section \<open>Reading an integer\<close>

text \<open>\<open>int(text)\<close> on ASCII text: white space around it, a sign, digits with single underscores between
  them, at most 4300 digits. \<open>None\<close> is \<open>ValueError\<close>.\<close>

definition py_space :: "char \<Rightarrow> bool" where
  "py_space c \<longleftrightarrow> of_char c \<in> ({9, 10, 11, 12, 13, 28, 29, 30, 31, 32} :: nat set)"

definition py_strip :: "string \<Rightarrow> string" where
  "py_strip s = rev (dropWhile py_space (rev (dropWhile py_space s)))"

definition digit_of :: "char \<Rightarrow> nat option" where
  "digit_of c = (let n = of_char c in if 48 \<le> n \<and> n \<le> (57::nat) then Some (n - 48) else None)"

text \<open>The digits of a numeral; the flag says whether the last character was a digit.\<close>

fun py_digits :: "string \<Rightarrow> bool \<Rightarrow> nat list option" where
  "py_digits [] after_digit = (if after_digit then Some [] else None)"
| "py_digits (c # cs) after_digit =
     (case digit_of c of
        Some d \<Rightarrow> map_option (Cons d) (py_digits cs True)
      | None \<Rightarrow> if c = CHR ''_'' \<and> after_digit then py_digits cs False else None)"

definition py_int_digits :: "string \<Rightarrow> int option" where
  "py_int_digits s =
     (case py_digits s False of
        None \<Rightarrow> None
      | Some ds \<Rightarrow> if length ds > 4300 then None else Some (int (foldl (\<lambda>acc d. acc * 10 + d) 0 ds)))"

definition py_int :: "string \<Rightarrow> int option" where
  "py_int raw =
     (case py_strip raw of
        [] \<Rightarrow> None
      | c # cs \<Rightarrow>
          if c = CHR ''-'' then map_option uminus (py_int_digits cs)
          else if c = CHR ''+'' then py_int_digits cs
          else py_int_digits (c # cs))"

section \<open>State\<close>

datatype notification = READY | WATCHDOG | STOPPING

text \<open>The payload of each notification.\<close>

fun payload :: "notification \<Rightarrow> string" where
  "payload READY = ''READY=1'' @ [CHR 0x0A] @ ''STATUS=Capture initialized; monitoring capture-loop progress''"
| "payload WATCHDOG = ''WATCHDOG=1''"
| "payload STOPPING = ''STOPPING=1'' @ [CHR 0x0A] @ ''STATUS=Draining capture workers and evidence writer''"

record ServiceWatchdog =
  sw_address :: "string option"
  sw_usec :: int
  sw_owner_pid :: int
  sw_ready_sent :: bool
  sw_stopping_sent :: bool
  sw_last_notification :: int
  sw_log :: "(notification \<times> int) list"

definition watchdog_init :: "string option \<Rightarrow> int \<Rightarrow> int \<Rightarrow> ServiceWatchdog" where
  "watchdog_init address usec pid =
     \<lparr>sw_address = address, sw_usec = usec, sw_owner_pid = pid, sw_ready_sent = False, sw_stopping_sent = False,
      sw_last_notification = 0, sw_log = []\<rparr>"

text \<open>\<open>not self.address\<close>: no address, or an empty one.\<close>

definition falsy :: "string option \<Rightarrow> bool" where
  "falsy s \<longleftrightarrow> s = None \<or> s = Some []"

definition watchdog_interval :: "(string \<Rightarrow> string option) \<Rightarrow> int result" where
  "watchdog_interval env =
     (let usec = env ''WATCHDOG_USEC'' in
      if falsy usec then Inr 0
      else
        (case py_int (the usec) of
           None \<Rightarrow> Inl (ServiceWatchdogError ''invalid WATCHDOG_USEC'')
         | Some microseconds \<Rightarrow>
             if microseconds \<le> 0 \<or> microseconds > 2 ^ 63 - 1
             then Inl (ServiceWatchdogError ''invalid WATCHDOG_USEC'')
             else if falsy (env ''NOTIFY_SOCKET'')
             then Inl (ServiceWatchdogError ''WATCHDOG_USEC requires NOTIFY_SOCKET'')
             else Inr microseconds))"

definition socket_address_ok :: "string option \<Rightarrow> bool" where
  "socket_address_ok address \<longleftrightarrow>
     falsy address \<or> \<not> (length (the address) < 2 \<or> hd (the address) \<notin> {CHR ''/'', CHR ''@''})"

definition from_environment :: "int \<Rightarrow> (string \<Rightarrow> string option) \<Rightarrow> ServiceWatchdog result" where
  "from_environment pid env =
     (let address = env ''NOTIFY_SOCKET'';
          watchdog_pid = env ''WATCHDOG_PID'';
          configured = bindE (watchdog_interval env) (\<lambda>usec.
            if \<not> socket_address_ok address
            then Inl (ServiceWatchdogError ''NOTIFY_SOCKET must be an absolute or abstract socket'')
            else Inr (watchdog_init address usec pid)) in
      if falsy watchdog_pid then configured
      else
        (case py_int (the watchdog_pid) of
           None \<Rightarrow> Inl (ServiceWatchdogError ''invalid WATCHDOG_PID'')
         | Some intended_pid \<Rightarrow> if intended_pid \<noteq> pid then Inr (watchdog_init None 0 pid) else configured))"

section \<open>Operations\<close>

text \<open>The socket address \<open>_send\<close> uses: a leading \<open>@\<close> stands for the null byte of an abstract socket.\<close>

definition send_address :: "string \<Rightarrow> string" where
  "send_address address = (case address of CHR ''@'' # rest \<Rightarrow> CHR 0x00 # rest | _ \<Rightarrow> address)"

text \<open>What a call meets: the process it runs in, whether a datagram to an address is
  delivered whole, the clock.\<close>

record notify_env =
  ne_pid :: int
  ne_delivered :: "string \<Rightarrow> string \<Rightarrow> bool"
  ne_now :: int

definition send :: "notify_env \<Rightarrow> notification \<Rightarrow> ServiceWatchdog \<Rightarrow> ServiceWatchdog \<times> unit result" where
  "send env message w =
     (if falsy (sw_address w) \<or> ne_pid env \<noteq> sw_owner_pid w then (w, Inr ())
      else if ne_delivered env (send_address (the (sw_address w))) (payload message) then (w\<lparr>sw_log := sw_log w @ [(message, ne_now env)]\<rparr>, Inr ())
      else (w, Inl (ServiceWatchdogError ''service-manager notification failed'')))"

definition ready :: "notify_env \<Rightarrow> ServiceWatchdog \<Rightarrow> ServiceWatchdog \<times> unit result" where
  "ready env w =
     (if falsy (sw_address w) \<or> sw_ready_sent w then (w, Inr ())
      else
        (case send env READY w of
           (w1, Inl e) \<Rightarrow> (w1, Inl e)
         | (w1, Inr _) \<Rightarrow> (w1\<lparr>sw_ready_sent := True, sw_last_notification := ne_now env\<rparr>, Inr ())))"

definition progress :: "notify_env \<Rightarrow> ServiceWatchdog \<Rightarrow> ServiceWatchdog \<times> unit result" where
  "progress env w =
     (if falsy (sw_address w) \<or> sw_usec w = 0 \<or> sw_stopping_sent w then (w, Inr ())
      else if \<not> sw_ready_sent w
      then (w, Inl (ServiceWatchdogError ''watchdog progress before capture startup completed''))
      else if 3 * (ne_now env - sw_last_notification w) \<ge> 1000 * sw_usec w
      then
        (case send env WATCHDOG w of
           (w1, Inl e) \<Rightarrow> (w1, Inl e)
         | (w1, Inr _) \<Rightarrow> (w1\<lparr>sw_last_notification := ne_now env\<rparr>, Inr ()))
      else (w, Inr ()))"

definition stopping :: "notify_env \<Rightarrow> ServiceWatchdog \<Rightarrow> ServiceWatchdog \<times> unit result" where
  "stopping env w =
     (if falsy (sw_address w) \<or> \<not> sw_ready_sent w \<or> sw_stopping_sent w then (w, Inr ())
      else
        (case send env STOPPING w of
           (w1, Inl e) \<Rightarrow> (w1, Inl e)
         | (w1, Inr _) \<Rightarrow> (w1\<lparr>sw_stopping_sent := True\<rparr>, Inr ())))"

text \<open>A sequence of calls; a call that raises leaves the object as it is for the next one.\<close>

datatype watchdog_call = CallReady notify_env | CallProgress notify_env | CallStopping notify_env

fun call_env :: "watchdog_call \<Rightarrow> notify_env" where
  "call_env (CallReady env) = env" | "call_env (CallProgress env) = env" | "call_env (CallStopping env) = env"

fun watchdog_apply :: "watchdog_call \<Rightarrow> ServiceWatchdog \<Rightarrow> ServiceWatchdog \<times> unit result" where
  "watchdog_apply (CallReady env) w = ready env w"
| "watchdog_apply (CallProgress env) w = progress env w"
| "watchdog_apply (CallStopping env) w = stopping env w"

fun watchdog_run :: "watchdog_call list \<Rightarrow> ServiceWatchdog \<Rightarrow> ServiceWatchdog" where
  "watchdog_run [] w = w"
| "watchdog_run (c # cs) w = watchdog_run cs (fst (watchdog_apply c w))"

section \<open>The abstract protocol\<close>

text \<open>Silent until the announcement, then active with keep-alives at least a third of the manager's
  timeout apart, then stopped. \<open>notify_run\<close> relates a phase, the messages sent and the phase after them.\<close>

datatype phase = Silent | Active int | Stopped

inductive notify_step :: "int \<Rightarrow> phase \<Rightarrow> notification \<times> int \<Rightarrow> phase \<Rightarrow> bool" for usec where
  announce: "notify_step usec Silent (READY, t) (Active t)"
| beat: "0 < usec \<Longrightarrow> 3 * (t - last_beat) \<ge> 1000 * usec \<Longrightarrow> notify_step usec (Active last_beat) (WATCHDOG, t) (Active t)"
| halt: "notify_step usec (Active last_beat) (STOPPING, t) Stopped"

inductive notify_run :: "int \<Rightarrow> phase \<Rightarrow> (notification \<times> int) list \<Rightarrow> phase \<Rightarrow> bool" for usec where
  idle: "notify_run usec p [] p"
| next_message: "notify_run usec p ms q \<Longrightarrow> notify_step usec q m r \<Longrightarrow> notify_run usec p (ms @ [m]) r"

inductive_cases notify_step_to_SilentE: "notify_step usec p m Silent"

lemma notify_run_to_Silent: "notify_run usec p ms Silent \<Longrightarrow> ms = [] \<and> p = Silent"
  by (erule notify_run.cases) (auto elim: notify_step_to_SilentE)

definition watchdog_phase :: "ServiceWatchdog \<Rightarrow> phase" where
  "watchdog_phase w =
     (if sw_stopping_sent w then Stopped else if sw_ready_sent w then Active (sw_last_notification w) else Silent)"

section \<open>The implementation refines the protocol\<close>

lemma send_cases:
  assumes "\<not> falsy (sw_address w)" "ne_pid env = sw_owner_pid w"
  shows "send env m w = (if ne_delivered env (send_address (the (sw_address w))) (payload m) then (w\<lparr>sw_log := sw_log w @ [(m, ne_now env)]\<rparr>, Inr ())
     else (w, Inl (ServiceWatchdogError ''service-manager notification failed'')))"
  using assms by (simp add: send_def)

lemma send_silent: "falsy (sw_address w) \<or> ne_pid env \<noteq> sw_owner_pid w \<Longrightarrow> send env m w = (w, Inr ())"
  by (simp add: send_def)

lemma watchdog_call_frame:
  "sw_address (fst (watchdog_apply c w)) = sw_address w" "sw_usec (fst (watchdog_apply c w)) = sw_usec w"
  "sw_owner_pid (fst (watchdog_apply c w)) = sw_owner_pid w"
  by (cases c; auto simp: ready_def progress_def stopping_def send_def)+

text \<open>The simulation: in the owning process a call does nothing to the protocol or sends one message.\<close>

lemma watchdog_call_simulates:
  assumes "\<not> falsy (sw_address w)" "ne_pid (call_env c) = sw_owner_pid w" "0 \<le> sw_usec w" "sw_stopping_sent w \<longrightarrow> sw_ready_sent w"
  defines "w' \<equiv> fst (watchdog_apply c w)"
  shows "(sw_log w' = sw_log w \<and> watchdog_phase w' = watchdog_phase w
          \<or> (\<exists>m. sw_log w' = sw_log w @ [m] \<and> notify_step (sw_usec w) (watchdog_phase w) m (watchdog_phase w')))
     \<and> (sw_stopping_sent w' \<longrightarrow> sw_ready_sent w')"
  using assms(1-4) unfolding w'_def
  by (cases c) (auto simp: ready_def progress_def stopping_def send_cases watchdog_phase_def intro: notify_step.intros)

lemma watchdog_run_simulates:
  assumes "\<forall>c \<in> set calls. ne_pid (call_env c) = sw_owner_pid w" "\<not> falsy (sw_address w)" "0 \<le> sw_usec w"
    "sw_stopping_sent w \<longrightarrow> sw_ready_sent w" "notify_run (sw_usec w) Silent (sw_log w) (watchdog_phase w)"
  shows "notify_run (sw_usec w) Silent (sw_log (watchdog_run calls w)) (watchdog_phase (watchdog_run calls w))"
  using assms
proof (induction calls arbitrary: w)
  case (Cons c cs)
  let ?w' = "fst (watchdog_apply c w)"
  from watchdog_call_simulates [of w c] Cons.prems
  have sim: "(sw_log ?w' = sw_log w \<and> watchdog_phase ?w' = watchdog_phase w
          \<or> (\<exists>m. sw_log ?w' = sw_log w @ [m] \<and> notify_step (sw_usec w) (watchdog_phase w) m (watchdog_phase ?w')))"
    and inv: "sw_stopping_sent ?w' \<longrightarrow> sw_ready_sent ?w'" by simp_all
  have "notify_run (sw_usec w) Silent (sw_log ?w') (watchdog_phase ?w')"
    using sim Cons.prems(5) by (auto intro: notify_run.intros)
  with Cons.IH [of ?w'] Cons.prems inv show ?case by (simp add: watchdog_call_frame)
qed simp

lemma watchdog_run_silent:
  assumes "falsy (sw_address w) \<or> (\<forall>c \<in> set calls. ne_pid (call_env c) \<noteq> sw_owner_pid w)"
  shows "sw_log (watchdog_run calls w) = sw_log w"
  using assms
proof (induction calls arbitrary: w)
  case (Cons c cs)
  have "sw_log (fst (watchdog_apply c w)) = sw_log w"
    using Cons.prems by (cases c) (auto simp: ready_def progress_def stopping_def send_def)
  moreover have "sw_log (watchdog_run cs (fst (watchdog_apply c w))) = sw_log (fst (watchdog_apply c w))"
    using Cons.prems by (intro Cons.IH) (auto simp: watchdog_call_frame)
  ultimately show ?case by simp
qed simp

lemma watchdog_interval_nonneg: "watchdog_interval env = Inr usec \<Longrightarrow> 0 \<le> usec"
  by (auto simp: watchdog_interval_def Let_def split: if_splits option.splits)

lemma from_environment_init:
  assumes "from_environment pid env = Inr w"
  shows "\<exists>address usec. w = watchdog_init address usec pid \<and> 0 \<le> usec"
  using assms by (fastforce simp: from_environment_def Let_def split: if_splits option.splits dest: watchdog_interval_nonneg)

text \<open>C22: whatever calls the main process makes in whatever order, and whichever sends fail, the notifications a
  watchdog from the environment has delivered are a run of the protocol: at most one \<open>READY\<close>, first; keep-alives
  only after it and each at least a third of the manager's timeout after the notification before it; nothing after
  a \<open>STOPPING\<close>. In any other process, and without an address, nothing is sent.\<close>

theorem watchdog_refines_protocol:
  assumes "from_environment owner env = Inr w" "\<forall>c \<in> set calls. ne_pid (call_env c) = pid"
  shows "notify_run (sw_usec w) Silent (sw_log (watchdog_run calls w))
     (if pid = owner \<and> \<not> falsy (sw_address w) then watchdog_phase (watchdog_run calls w) else Silent)"
proof -
  obtain address usec where w: "w = watchdog_init address usec owner" "0 \<le> usec"
    using from_environment_init [OF assms(1)] by blast
  show ?thesis
  proof (cases "pid = owner \<and> \<not> falsy (sw_address w)")
    case True
    then have "notify_run (sw_usec w) Silent (sw_log (watchdog_run calls w)) (watchdog_phase (watchdog_run calls w))"
      using assms(2) w by (intro watchdog_run_simulates) (auto simp: watchdog_init_def watchdog_phase_def intro: notify_run.intros)
    with True show ?thesis by simp
  next
    case False
    then have "sw_log (watchdog_run calls w) = []"
      using assms(2) w watchdog_run_silent [of w calls] by (auto simp: watchdog_init_def)
    with False show ?thesis by (auto intro: notify_run.intros)
  qed
qed

definition sample_environment :: "string \<Rightarrow> string option" where
  "sample_environment = [''NOTIFY_SOCKET'' \<mapsto> ''@s'', ''WATCHDOG_USEC'' \<mapsto> ''30'']"

theorem watchdog_refines_protocol_witness:
  "from_environment 7 sample_environment = Inr (watchdog_init (Some ''@s'') 30 7)
   \<and> notify_run 30 Silent [(READY, 0), (WATCHDOG, 10000), (STOPPING, 10001)] Stopped"
proof -
  let ?e = "\<lambda>t. \<lparr>ne_pid = 7, ne_delivered = \<lambda>address message. True, ne_now = t\<rparr>"
  let ?w = "watchdog_init (Some ''@s'') 30 7"
  let ?calls = "[CallReady (?e 0), CallProgress (?e 9999), CallProgress (?e 10000), CallStopping (?e 10001), CallProgress (?e 30000)]"
  have "from_environment 7 sample_environment = Inr ?w" by code_simp
  moreover from watchdog_refines_protocol [OF this, of ?calls 7]
  have "notify_run 30 Silent [(READY, 0), (WATCHDOG, 10000), (STOPPING, 10001)] Stopped"
    by (simp add: watchdog_init_def falsy_def ready_def progress_def stopping_def send_def watchdog_phase_def)
  ultimately show ?thesis by simp
qed

end
