(* ===== verification/Supervision.thy ===== *)
theory Supervision
  imports Dispatch
begin

text \<open>
  Supervision of the child processes (\<open>packet_audit/supervisor.py\<close>): the control channel
  (\<open>_drain_control\<close>), the start-up handshakes, restarts, the restart budget and heartbeat freshness
  (\<open>_check_children\<close>), and the stop acknowledgements. What is observed of other processes and of the
  clock (in nanoseconds) is an argument of each call; a waiting loop takes the list of the polls it makes
  before its deadline.
\<close>

section \<open>State\<close>

text \<open>A report on the control channel: its \<open>state\<close>, its \<open>pid\<close>, its integer entries, its detector entries.\<close>

record Report =
  rp_state :: string
  rp_pid :: "int option"
  rp_counters :: "(string, int) odict"
  rp_detector :: "(string, int) odict option"
  rp_sha256 :: "string option"

text \<open>An item of the control queue: a writer report; a worker report with its key, if the key's entries
  are there and convert to integers; anything else.\<close>

datatype control_item = WriterReport Report | WorkerReport "(int \<times> int) option" Report | OtherItem

record Supervisor =
  sv_capture :: CaptureState
  sv_heartbeat_seconds :: int
  sv_raw_capture_enabled :: bool
  sv_stop_on_raw_capture_failure :: bool
  sv_workers :: "int option list"
  sv_writer :: "int option"
  sv_writer_last_seen :: "int option"
  sv_writer_report :: "Report option"
  sv_worker_last_seen :: "(int \<times> int, int) odict"
  sv_worker_reports :: "(int \<times> int, Report) odict"
  sv_worker_restart_history :: "int list list"
  sv_worker_restarts :: int
  sv_next_worker_epoch_namespace :: int
  sv_incomplete_reasons :: "string list"

text \<open>The fields as \<open>__init__\<close> sets them.\<close>

definition supervisor_init :: "CaptureState \<Rightarrow> int \<Rightarrow> bool \<Rightarrow> bool \<Rightarrow> nat \<Rightarrow> Supervisor" where
  "supervisor_init capture heartbeat_seconds raw_capture_enabled stop_on_raw_capture_failure workers =
     \<lparr>sv_capture = capture, sv_heartbeat_seconds = heartbeat_seconds, sv_raw_capture_enabled = raw_capture_enabled,
      sv_stop_on_raw_capture_failure = stop_on_raw_capture_failure, sv_workers = [], sv_writer = None,
      sv_writer_last_seen = None, sv_writer_report = None, sv_worker_last_seen = [], sv_worker_reports = [],
      sv_worker_restart_history = replicate workers [], sv_worker_restarts = 0, sv_next_worker_epoch_namespace = 1,
      sv_incomplete_reasons = []\<rparr>"

definition mark_incomplete :: "string \<Rightarrow> Supervisor \<Rightarrow> Supervisor" where
  "mark_incomplete reason s =
     (if reason \<in> set (sv_incomplete_reasons s) then s
      else s\<lparr>sv_incomplete_reasons := sv_incomplete_reasons s @ [reason]\<rparr>)"

definition sv_offline :: "Supervisor \<Rightarrow> bool" where
  "sv_offline s = dx_offline (cs_dispatcher (sv_capture s))"

text \<open>\<open>_operation\<close> for an event whose fields are not needed here.\<close>

definition sv_operation :: "bool \<Rightarrow> string \<Rightarrow> Supervisor \<Rightarrow> Supervisor" where
  "sv_operation full event s =
     s\<lparr>sv_capture := (sv_capture s)\<lparr>cs_dispatcher :=
         operation full (SupervisorEvent event) (cs_dispatcher (sv_capture s))\<rparr>\<rparr>"

definition second :: int where "second = 1000000000"

text \<open>\<open>process.pid or -1\<close>\<close>

definition pid_or :: "int option \<Rightarrow> int" where
  "pid_or pid = (case pid of None \<Rightarrow> -1 | Some p \<Rightarrow> if p = 0 then -1 else p)"

section \<open>The control channel\<close>

definition drain_item :: "control_item \<times> int \<Rightarrow> Supervisor \<Rightarrow> Supervisor" where
  "drain_item item s =
     (case item of
        (WriterReport report, received) \<Rightarrow> s\<lparr>sv_writer_last_seen := Some received, sv_writer_report := Some report\<rparr>
      | (WorkerReport (Some key) report, received) \<Rightarrow>
          s\<lparr>sv_worker_last_seen := od_put key received (sv_worker_last_seen s),
            sv_worker_reports := od_put key report (sv_worker_reports s)\<rparr>
      | _ \<Rightarrow> s)"

text \<open>The items that are on the queue, each with the clock at its receipt.\<close>

definition drain_control :: "(control_item \<times> int) list \<Rightarrow> Supervisor \<Rightarrow> Supervisor" where
  "drain_control items s = fold drain_item items s"

definition drain_control_wait :: "(control_item \<times> int) list list \<Rightarrow> Supervisor \<Rightarrow> Supervisor" where
  "drain_control_wait rounds s = fold drain_control rounds s"

text \<open>\<open>_put_until\<close>: the attempts before the deadline, each accepted or refused, and what is drained
  after a refusal.\<close>

fun put_until :: "(bool \<times> (control_item \<times> int) list) list \<Rightarrow> Supervisor \<Rightarrow> Supervisor \<times> bool" where
  "put_until [] s = (s, False)"
| "put_until ((accepted, items) # attempts) s =
     (if accepted then (s, True) else put_until attempts (drain_control items s))"

section \<open>Start-up\<close>

text \<open>One poll of a waiting loop: a stop request, the control items, and what the processes look like.\<close>

record poll =
  pl_stop :: bool
  pl_control :: "(control_item \<times> int) list"
  pl_writer_alive :: bool
  pl_writer_exitcode :: "int option"
  pl_worker_alive :: "nat \<Rightarrow> bool"
  pl_worker_exitcode :: "nat \<Rightarrow> int option"

definition writer_ready :: "poll \<Rightarrow> Supervisor \<Rightarrow> bool" where
  "writer_ready p s =
     (case (sv_writer s, sv_writer_report s) of
        (Some pid, Some report) \<Rightarrow> rp_state report = ''ready'' \<and> rp_pid report = Some pid \<and> pl_writer_alive p
      | _ \<Rightarrow> False)"

fun await_writer_ready :: "poll list \<Rightarrow> Supervisor \<Rightarrow> Supervisor \<times> unit result" where
  "await_writer_ready [] s = (s, Inl (AuditRuntimeError ''evidence writer did not acknowledge startup''))"
| "await_writer_ready (p # ps) s =
     (if pl_stop p then (s, Inl KeyboardInterrupt)
      else
        let s1 = drain_control (pl_control p) s in
        if writer_ready p s1 then (s1, Inr ())
        else
          (case (sv_writer s1, pl_writer_exitcode p) of
             (Some _, Some code) \<Rightarrow>
               (s1, Inl (AuditRuntimeError (''evidence writer failed during startup with exit code '' @ str_int code)))
           | _ \<Rightarrow> await_writer_ready ps s1))"

definition worker_ready :: "poll \<Rightarrow> Supervisor \<Rightarrow> nat \<Rightarrow> bool" where
  "worker_ready p s worker_id =
     (case od_get (sv_worker_reports s) (int worker_id, pid_or (sv_workers s ! worker_id)) of
        None \<Rightarrow> False
      | Some report \<Rightarrow> rp_state report = ''ready'' \<and> pl_worker_alive p worker_id)"

text \<open>The pass over the pending workers: those still pending, or the failure of the first that exited.\<close>

fun check_pending :: "poll \<Rightarrow> Supervisor \<Rightarrow> nat list \<Rightarrow> nat list result" where
  "check_pending p s [] = Inr []"
| "check_pending p s (w # pending) =
     (if worker_ready p s w then check_pending p s pending
      else
        (case pl_worker_exitcode p w of
           Some code \<Rightarrow> Inl (AuditRuntimeError
             (''worker '' @ str_nat w @ '' failed during startup with exit code '' @ str_int code))
         | None \<Rightarrow> bindE (check_pending p s pending) (\<lambda>rest. Inr (w # rest))))"

fun await_workers_loop :: "poll list \<Rightarrow> nat list \<Rightarrow> Supervisor \<Rightarrow> Supervisor \<times> nat list result" where
  "await_workers_loop [] pending s = (s, Inr pending)"
| "await_workers_loop (p # ps) pending s =
     (if pending = [] then (s, Inr [])
      else if pl_stop p then (s, Inl KeyboardInterrupt)
      else
        let s1 = drain_control (pl_control p) s in
        (case check_pending p s1 pending of
           Inl e \<Rightarrow> (s1, Inl e)
         | Inr rest \<Rightarrow> await_workers_loop ps rest s1))"

definition await_workers_ready :: "poll list \<Rightarrow> nat list \<Rightarrow> Supervisor \<Rightarrow> Supervisor \<times> unit result" where
  "await_workers_ready polls worker_ids s =
     (case await_workers_loop polls worker_ids s of
        (s1, Inl e) \<Rightarrow> (s1, Inl e)
      | (s1, Inr pending) \<Rightarrow>
          if pending = [] then (s1, Inr ())
          else (s1, Inl (AuditRuntimeError
            (''workers did not acknowledge startup: ['' @ str_join '', '' (map str_nat (sort pending)) @ '']''))))"

text \<open>\<open>_spawn_worker\<close>: the process identifier is chosen by the system; the epoch namespace is consumed.\<close>

definition spawn_worker :: "int option \<Rightarrow> Supervisor \<Rightarrow> Supervisor \<times> int option \<times> int" where
  "spawn_worker pid s =
     (s\<lparr>sv_next_worker_epoch_namespace := sv_next_worker_epoch_namespace s + 1\<rparr>, pid, sv_next_worker_epoch_namespace s)"

fun start_workers :: "int option list \<Rightarrow> Supervisor \<Rightarrow> Supervisor" where
  "start_workers [] s = s"
| "start_workers (pid # pids) s =
     (let (s1, p, _) = spawn_worker pid s in start_workers pids (s1\<lparr>sv_workers := sv_workers s1 @ [p]\<rparr>))"

section \<open>Watching the children\<close>

text \<open>What a check observes of one worker: alive or not, exit code, clock; and for a restart the new process
  identifier, the polls of its handshake and whether the telemetry queue is full.\<close>

record worker_obs =
  wo_alive :: bool
  wo_exitcode :: "int option"
  wo_now :: int
  wo_replacement :: "int option"
  wo_polls :: "poll list"
  wo_telemetry_full :: bool

record check_env =
  ck_control :: "(control_item \<times> int) list"
  ck_writer_alive :: bool
  ck_workers :: "worker_obs list"
  ck_now :: int
  ck_raw_running :: bool
  ck_raw_telemetry_full :: bool

definition restart_reason :: "nat \<Rightarrow> int option \<Rightarrow> string" where
  "restart_reason w exitcode =
     ''worker '' @ str_nat w @ '' restarted after exit code '' @ str_opt_int exitcode @ ''; flow state gap''"

definition restart_worker :: "nat \<Rightarrow> worker_obs \<Rightarrow> Supervisor \<Rightarrow> Supervisor \<times> unit result" where
  "restart_worker w ob s =
     (let now = wo_now ob;
          history = filter (\<lambda>seen. now - seen \<le> 60 * second) (sv_worker_restart_history s ! w) @ [now];
          s1 = mark_incomplete (restart_reason w (wo_exitcode ob))
                 (s\<lparr>sv_worker_restart_history := (sv_worker_restart_history s)[w := history],
                    sv_worker_restarts := sv_worker_restarts s + 1\<rparr>) in
      if length history \<ge> 3
      then (s1, Inl (AuditRuntimeError (''worker '' @ str_nat w @ '' failed '' @ str_nat (length history)
                                        @ '' times within 60 seconds'')))
      else
        let (s2, replacement, _) = spawn_worker (wo_replacement ob) s1;
            s3 = s2\<lparr>sv_workers := (sv_workers s2)[w := replacement]\<rparr> in
        (case await_workers_ready (wo_polls ob) [w] s3 of
           (s4, Inl e) \<Rightarrow> (s4, Inl e)
         | (s4, Inr _) \<Rightarrow> (sv_operation (wo_telemetry_full ob) ''worker_restarted'' s4, Inr ())))"

fun check_workers :: "nat \<Rightarrow> worker_obs list \<Rightarrow> Supervisor \<Rightarrow> Supervisor \<times> unit result" where
  "check_workers w [] s = (s, Inr ())"
| "check_workers w (ob # obs) s =
     (if wo_alive ob then check_workers (Suc w) obs s
      else
        (case restart_worker w ob s of
           (s1, Inl e) \<Rightarrow> (s1, Inl e)
         | (s1, Inr _) \<Rightarrow> check_workers (Suc w) obs s1))"

definition watchdog_seconds :: "Supervisor \<Rightarrow> int" where
  "watchdog_seconds s = max (10 * second) (sv_heartbeat_seconds s * 3 * second)"

definition fresh :: "Supervisor \<Rightarrow> int \<Rightarrow> int option \<Rightarrow> bool" where
  "fresh s now seen \<longleftrightarrow> (case seen of None \<Rightarrow> False | Some t \<Rightarrow> now - t \<le> watchdog_seconds s)"

fun check_heartbeats :: "Supervisor \<Rightarrow> int \<Rightarrow> nat \<Rightarrow> int option list \<Rightarrow> unit result" where
  "check_heartbeats s now w [] = Inr ()"
| "check_heartbeats s now w (pid # pids) =
     (if fresh s now (od_get (sv_worker_last_seen s) (int w, pid_or pid)) then check_heartbeats s now (Suc w) pids
      else Inl (AuditRuntimeError (''worker '' @ str_nat w @ '' is alive but its progress heartbeat is stale'')))"

definition check_raw_capture :: "check_env \<Rightarrow> Supervisor \<Rightarrow> Supervisor \<times> unit result" where
  "check_raw_capture env s =
     (if \<not> sv_offline s \<and> sv_raw_capture_enabled s \<and> \<not> ck_raw_running env
      then
        let s1 = sv_operation (ck_raw_telemetry_full env) ''raw_capture_failed'' s in
        if sv_stop_on_raw_capture_failure s1 then (s1, Inl (AuditRuntimeError ''raw dumpcap ring stopped''))
        else (mark_incomplete ''independent raw capture ring stopped during analysis'' s1, Inr ())
      else (s, Inr ()))"

definition check_children :: "check_env \<Rightarrow> Supervisor \<Rightarrow> Supervisor \<times> unit result" where
  "check_children env s =
     (let s1 = drain_control (ck_control env) s in
      if sv_writer s1 = None \<or> \<not> ck_writer_alive env
      then (s1, Inl (AuditRuntimeError ''evidence writer stopped; capture halted to prevent silent evidence loss''))
      else
        (case check_workers 0 (ck_workers env) s1 of
           (s2, Inl e) \<Rightarrow> (s2, Inl e)
         | (s2, Inr _) \<Rightarrow>
             if \<not> fresh s2 (ck_now env) (sv_writer_last_seen s2)
             then (s2, Inl (AuditRuntimeError ''evidence writer is alive but its progress heartbeat is stale''))
             else
               (case check_heartbeats s2 (ck_now env) 0 (sv_workers s2) of
                  Inl e \<Rightarrow> (s2, Inl e)
                | Inr _ \<Rightarrow> check_raw_capture env s2)))"

section \<open>Stop acknowledgements\<close>

text \<open>\<open>repr\<close> of a state word: the words the children send are plain ASCII without quotes.\<close>

definition repr_state :: "string option \<Rightarrow> string" where
  "repr_state state = (case state of None \<Rightarrow> ''None'' | Some w \<Rightarrow> [CHR 0x27] @ w @ [CHR 0x27])"

definition worker_state :: "Supervisor \<Rightarrow> nat \<Rightarrow> string option" where
  "worker_state s w = map_option rp_state (od_get (sv_worker_reports s) (int w, pid_or (sv_workers s ! w)))"

definition validate_stopped :: "nat \<Rightarrow> Supervisor \<Rightarrow> Supervisor" where
  "validate_stopped w s =
     (if worker_state s w = Some ''stopped'' then s
      else mark_incomplete
             (''worker did not acknowledge a clean stopped state: worker_id='' @ str_nat w @ '', pid=''
              @ str_int (pid_or (sv_workers s ! w)) @ '', observed_state='' @ repr_state (worker_state s w)) s)"

definition validate_worker_stopped_acknowledgements :: "Supervisor \<Rightarrow> Supervisor" where
  "validate_worker_stopped_acknowledgements s = fold validate_stopped [0..<length (sv_workers s)] s"

section \<open>What the operations leave alone\<close>

named_theorems frame \<open>fields an operation does not change\<close>

lemma drain_item_frame [frame]:
  "sv_workers (drain_item i s) = sv_workers s"
  "sv_writer (drain_item i s) = sv_writer s"
  "sv_worker_restart_history (drain_item i s) = sv_worker_restart_history s"
  "sv_worker_restarts (drain_item i s) = sv_worker_restarts s"
  "sv_incomplete_reasons (drain_item i s) = sv_incomplete_reasons s"
  "sv_capture (drain_item i s) = sv_capture s"
  "sv_heartbeat_seconds (drain_item i s) = sv_heartbeat_seconds s"
  by (auto simp: drain_item_def split: prod.split control_item.split option.split)

lemma fold_frame: "(\<And>x s. f (g x s) = f s) \<Longrightarrow> f (fold g xs s) = f s"
  by (induction xs arbitrary: s) auto

lemma drain_control_frame [frame]:
  "sv_workers (drain_control is s) = sv_workers s"
  "sv_writer (drain_control is s) = sv_writer s"
  "sv_worker_restart_history (drain_control is s) = sv_worker_restart_history s"
  "sv_worker_restarts (drain_control is s) = sv_worker_restarts s"
  "sv_incomplete_reasons (drain_control is s) = sv_incomplete_reasons s"
  "sv_capture (drain_control is s) = sv_capture s"
  "sv_heartbeat_seconds (drain_control is s) = sv_heartbeat_seconds s"
  by (simp_all add: drain_control_def fold_frame drain_item_frame)

lemma mark_incomplete_frame [frame]:
  "sv_workers (mark_incomplete r s) = sv_workers s"
  "sv_writer (mark_incomplete r s) = sv_writer s"
  "sv_worker_restart_history (mark_incomplete r s) = sv_worker_restart_history s"
  "sv_worker_restarts (mark_incomplete r s) = sv_worker_restarts s"
  "sv_writer_last_seen (mark_incomplete r s) = sv_writer_last_seen s"
  "sv_worker_last_seen (mark_incomplete r s) = sv_worker_last_seen s"
  "sv_worker_reports (mark_incomplete r s) = sv_worker_reports s"
  "sv_writer_report (mark_incomplete r s) = sv_writer_report s"
  "sv_capture (mark_incomplete r s) = sv_capture s"
  "sv_heartbeat_seconds (mark_incomplete r s) = sv_heartbeat_seconds s"
  "sv_raw_capture_enabled (mark_incomplete r s) = sv_raw_capture_enabled s"
  by (simp_all add: mark_incomplete_def)

lemma mark_incomplete_reasons [simp]:
  "set (sv_incomplete_reasons (mark_incomplete r s)) = insert r (set (sv_incomplete_reasons s))"
  by (auto simp: mark_incomplete_def)

lemma mark_incomplete_nonempty [simp]: "sv_incomplete_reasons (mark_incomplete r s) \<noteq> []"
  by (auto simp: mark_incomplete_def)

lemma sv_operation_frame [frame]:
  "sv_workers (sv_operation b e s) = sv_workers s"
  "sv_writer (sv_operation b e s) = sv_writer s"
  "sv_worker_restart_history (sv_operation b e s) = sv_worker_restart_history s"
  "sv_worker_restarts (sv_operation b e s) = sv_worker_restarts s"
  "sv_incomplete_reasons (sv_operation b e s) = sv_incomplete_reasons s"
  "sv_writer_last_seen (sv_operation b e s) = sv_writer_last_seen s"
  "sv_worker_last_seen (sv_operation b e s) = sv_worker_last_seen s"
  "sv_worker_reports (sv_operation b e s) = sv_worker_reports s"
  "sv_writer_report (sv_operation b e s) = sv_writer_report s"
  "sv_heartbeat_seconds (sv_operation b e s) = sv_heartbeat_seconds s"
  "sv_raw_capture_enabled (sv_operation b e s) = sv_raw_capture_enabled s"
  by (simp_all add: sv_operation_def)

lemma await_workers_loop_frame [frame]:
  "sv_workers (fst (await_workers_loop ps pending s)) = sv_workers s"
  "sv_writer (fst (await_workers_loop ps pending s)) = sv_writer s"
  "sv_worker_restart_history (fst (await_workers_loop ps pending s)) = sv_worker_restart_history s"
  "sv_worker_restarts (fst (await_workers_loop ps pending s)) = sv_worker_restarts s"
  "sv_incomplete_reasons (fst (await_workers_loop ps pending s)) = sv_incomplete_reasons s"
  "sv_heartbeat_seconds (fst (await_workers_loop ps pending s)) = sv_heartbeat_seconds s"
  "sv_capture (fst (await_workers_loop ps pending s)) = sv_capture s"
  by (induction ps pending s rule: await_workers_loop.induct) (auto simp: frame Let_def split: sum.split)

lemma await_workers_ready_fst: "fst (await_workers_ready ps ws s) = fst (await_workers_loop ps ws s)"
  by (simp add: await_workers_ready_def split: prod.split sum.split)

text \<open>The handshake looks at the latest report only: a \<open>ready\<close> report drained together with a later report of the
  same process is not seen, and the worker stays pending.\<close>

lemma ready_overwritten:
  assumes "key = (int w, pid_or (sv_workers s ! w))" "rp_state later \<noteq> ''ready''" "pl_worker_exitcode p w = None"
  shows "check_pending p (drain_control [(WorkerReport (Some key) first, t), (WorkerReport (Some key) later, t')] s) [w] = Inr [w]"
  using assms by (simp add: drain_control_def drain_item_def worker_ready_def od_get_put)

section \<open>Restarts\<close>

text \<open>The restart history of one worker after failures at the given times.\<close>

definition history_step :: "int \<Rightarrow> int list \<Rightarrow> int list" where
  "history_step now h = filter (\<lambda>seen. now - seen \<le> 60 * second) h @ [now]"

lemma restart_worker_ok:
  assumes "restart_worker w ob s = (s', Inr ())"
  shows "sv_worker_restart_history s' = (sv_worker_restart_history s)[w := history_step (wo_now ob) (sv_worker_restart_history s ! w)]"
    "length (history_step (wo_now ob) (sv_worker_restart_history s ! w)) < 3"
    "sv_workers s' = (sv_workers s)[w := wo_replacement ob]"
    "sv_worker_restarts s' = sv_worker_restarts s + 1"
    "set (sv_incomplete_reasons s') = insert (restart_reason w (wo_exitcode ob)) (set (sv_incomplete_reasons s))"
    "sv_writer s' = sv_writer s"
    "sv_heartbeat_seconds s' = sv_heartbeat_seconds s"
proof -
  define s3 where "s3 = (let s1 = mark_incomplete (restart_reason w (wo_exitcode ob))
                 (s\<lparr>sv_worker_restart_history := (sv_worker_restart_history s)[w := history_step (wo_now ob) (sv_worker_restart_history s ! w)],
                    sv_worker_restarts := sv_worker_restarts s + 1\<rparr>);
        s2 = fst (spawn_worker (wo_replacement ob) s1) in s2\<lparr>sv_workers := (sv_workers s2)[w := wo_replacement ob]\<rparr>)"
  show len: "length (history_step (wo_now ob) (sv_worker_restart_history s ! w)) < 3"
    using assms by (auto simp: restart_worker_def history_step_def Let_def split: if_splits)
  have s': "s' = sv_operation (wo_telemetry_full ob) ''worker_restarted'' (fst (await_workers_ready (wo_polls ob) [w] s3))"
    using assms len
    by (auto simp: restart_worker_def history_step_def [symmetric] s3_def Let_def spawn_worker_def split: prod.splits sum.splits)
  show "sv_worker_restart_history s' = (sv_worker_restart_history s)[w := history_step (wo_now ob) (sv_worker_restart_history s ! w)]"
    "sv_workers s' = (sv_workers s)[w := wo_replacement ob]"
    "sv_worker_restarts s' = sv_worker_restarts s + 1"
    "set (sv_incomplete_reasons s') = insert (restart_reason w (wo_exitcode ob)) (set (sv_incomplete_reasons s))"
    "sv_writer s' = sv_writer s" "sv_heartbeat_seconds s' = sv_heartbeat_seconds s"
    by (simp_all add: s' s3_def frame await_workers_ready_fst spawn_worker_def Let_def)
qed

text \<open>The outcome for one worker of a pass over the workers that does not raise.\<close>

definition worker_checked :: "nat \<Rightarrow> worker_obs \<Rightarrow> Supervisor \<Rightarrow> Supervisor \<Rightarrow> bool" where
  "worker_checked i ob s s' \<longleftrightarrow>
     (if wo_alive ob
      then sv_workers s' ! i = sv_workers s ! i \<and> sv_worker_restart_history s' ! i = sv_worker_restart_history s ! i
      else sv_workers s' ! i = wo_replacement ob
         \<and> restart_reason i (wo_exitcode ob) \<in> set (sv_incomplete_reasons s')
         \<and> sv_worker_restart_history s' ! i = history_step (wo_now ob) (sv_worker_restart_history s ! i)
         \<and> length (sv_worker_restart_history s' ! i) < 3)"

definition workers_kept :: "Supervisor \<Rightarrow> Supervisor \<Rightarrow> bool" where
  "workers_kept s s' \<longleftrightarrow> sv_writer s' = sv_writer s \<and> sv_heartbeat_seconds s' = sv_heartbeat_seconds s
     \<and> length (sv_workers s') = length (sv_workers s)
     \<and> length (sv_worker_restart_history s') = length (sv_worker_restart_history s)
     \<and> set (sv_incomplete_reasons s) \<subseteq> set (sv_incomplete_reasons s')"

lemma workers_kept_refl [simp]: "workers_kept s s"
  by (simp add: workers_kept_def)

lemma workers_kept_trans [trans]: "workers_kept s t \<Longrightarrow> workers_kept t u \<Longrightarrow> workers_kept s u"
  by (auto simp: workers_kept_def)

lemma workers_kept_restart: "restart_worker w ob s = (s', Inr ()) \<Longrightarrow> workers_kept s s'"
  by (frule restart_worker_ok) (auto simp: workers_kept_def restart_worker_ok)

definition same_worker :: "nat \<Rightarrow> Supervisor \<Rightarrow> Supervisor \<Rightarrow> bool" where
  "same_worker i s s' \<longleftrightarrow>
     sv_workers s' ! i = sv_workers s ! i \<and> sv_worker_restart_history s' ! i = sv_worker_restart_history s ! i"

lemma check_workers_ok:
  assumes "check_workers w obs s = (s', Inr ())" "w + length obs = length (sv_workers s)"
    "length (sv_worker_restart_history s) = length (sv_workers s)"
  shows "workers_kept s s'
    \<and> sv_worker_restarts s' = sv_worker_restarts s + int (length (filter (\<lambda>ob. \<not> wo_alive ob) obs))
    \<and> (\<forall>i < w. same_worker i s s') \<and> (\<forall>i < length obs. worker_checked (w + i) (obs ! i) s s')"
  using assms
proof (induction w obs s rule: check_workers.induct)
  case (1 w s)
  then show ?case by (simp add: same_worker_def)
next
  case (2 w ob obs s)
  have split: "\<forall>i < length (ob # obs). worker_checked (w + i) ((ob # obs) ! i) s s'"
    if "worker_checked w ob s s'" "\<forall>i < length obs. worker_checked (Suc w + i) (obs ! i) s s'"
    using that by (auto simp: less_Suc_eq_0_disj)
  show ?case
  proof (cases "wo_alive ob")
    case True
    then have IH: "workers_kept s s'" "\<forall>i < Suc w. same_worker i s s'"
      "sv_worker_restarts s' = sv_worker_restarts s + int (length (filter (\<lambda>ob. \<not> wo_alive ob) obs))"
      "\<forall>i < length obs. worker_checked (Suc w + i) (obs ! i) s s'"
      using 2 by simp_all
    moreover have "worker_checked w ob s s'" using IH(2) True by (simp add: worker_checked_def same_worker_def)
    ultimately show ?thesis using split True by simp
  next
    case False
    then obtain s1 where r: "restart_worker w ob s = (s1, Inr ())" and c: "check_workers (Suc w) obs s1 = (s', Inr ())"
      using 2(3) by (auto split: prod.splits sum.splits)
    note ok = restart_worker_ok [OF r]
    have lens: "Suc w + length obs = length (sv_workers s1)"
      "length (sv_worker_restart_history s1) = length (sv_workers s1)" using 2(4,5) ok(1,3) by simp_all
    have IH: "workers_kept s1 s'" "\<forall>i < Suc w. same_worker i s1 s'"
      "sv_worker_restarts s' = sv_worker_restarts s1 + int (length (filter (\<lambda>ob. \<not> wo_alive ob) obs))"
      "\<forall>i < length obs. worker_checked (Suc w + i) (obs ! i) s1 s'"
      using 2(2) [OF False r [symmetric] refl c lens] by simp_all
    have w: "w < length (sv_workers s)" "w < length (sv_worker_restart_history s)" using 2(4,5) by simp_all
    have "worker_checked w ob s s'"
      using IH(1,2) ok w False by (auto simp: worker_checked_def same_worker_def workers_kept_def)
    moreover have "\<forall>i < length obs. worker_checked (Suc w + i) (obs ! i) s s'"
    proof (intro allI impI)
      fix i assume "i < length obs"
      moreover have "sv_workers s1 ! (Suc w + i) = sv_workers s ! (Suc w + i)"
        "sv_worker_restart_history s1 ! (Suc w + i) = sv_worker_restart_history s ! (Suc w + i)" by (simp_all add: ok)
      ultimately show "worker_checked (Suc w + i) (obs ! i) s s'" using IH(4) unfolding worker_checked_def by metis
    qed
    moreover have "\<forall>i < w. same_worker i s s'" using IH(2) ok by (auto simp: same_worker_def)
    moreover have "workers_kept s s'" using workers_kept_restart [OF r] IH(1) by (rule workers_kept_trans)
    ultimately show ?thesis using split IH(3) ok(4) False by simp
  qed
qed

section \<open>A check that does not raise\<close>

lemma check_heartbeats_ok:
  "check_heartbeats s now w pids = Inr () \<Longrightarrow>
     \<forall>i < length pids. fresh s now (od_get (sv_worker_last_seen s) (int (w + i), pid_or (pids ! i)))"
proof (induction s now w pids rule: check_heartbeats.induct)
  case (2 s now w pid pids)
  then show ?case by (auto simp: less_Suc_eq_0_disj add.assoc add.left_commute split: if_splits)
qed simp

lemma check_raw_frame:
  assumes "check_raw_capture env s = (s', r)"
  shows "sv_workers s' = sv_workers s" "sv_writer s' = sv_writer s"
    "sv_worker_restart_history s' = sv_worker_restart_history s" "sv_worker_restarts s' = sv_worker_restarts s"
    "sv_writer_last_seen s' = sv_writer_last_seen s" "sv_worker_last_seen s' = sv_worker_last_seen s"
    "sv_heartbeat_seconds s' = sv_heartbeat_seconds s"
    "set (sv_incomplete_reasons s) \<subseteq> set (sv_incomplete_reasons s')"
  using assms by (auto simp: check_raw_capture_def Let_def frame split: if_splits)

lemma check_childrenE:
  assumes "check_children env s = (s', Inr ())"
  obtains s2 where "check_workers 0 (ck_workers env) (drain_control (ck_control env) s) = (s2, Inr ())"
    "fresh s2 (ck_now env) (sv_writer_last_seen s2)" "check_heartbeats s2 (ck_now env) 0 (sv_workers s2) = Inr ()"
    "check_raw_capture env s2 = (s', Inr ())" "sv_writer s \<noteq> None" "ck_writer_alive env"
  using assms unfolding check_children_def Let_def by (auto simp: frame split: if_splits prod.splits sum.splits)

lemma worker_checked_cong:
  assumes "sv_workers t = sv_workers s" "sv_worker_restart_history t = sv_worker_restart_history s"
    "sv_workers t' = sv_workers s'" "sv_worker_restart_history t' = sv_worker_restart_history s'"
    "set (sv_incomplete_reasons s') \<subseteq> set (sv_incomplete_reasons t')" "worker_checked i ob s s'"
  shows "worker_checked i ob t t'"
  using assms by (auto simp: worker_checked_def)

text \<open>The check's observations cover the workers, and every worker has a restart history.\<close>

definition observed :: "check_env \<Rightarrow> Supervisor \<Rightarrow> bool" where
  "observed env s \<longleftrightarrow> length (ck_workers env) = length (sv_workers s)
     \<and> length (sv_worker_restart_history s) = length (sv_workers s)"

lemma check_children_ok:
  assumes "check_children env s = (s', Inr ())" "observed env s"
  shows "workers_kept s s'" "sv_writer s' \<noteq> None" "ck_writer_alive env"
    "fresh s' (ck_now env) (sv_writer_last_seen s')"
    "\<forall>i < length (sv_workers s'). fresh s' (ck_now env) (od_get (sv_worker_last_seen s') (int i, pid_or (sv_workers s' ! i)))"
    "sv_worker_restarts s' = sv_worker_restarts s + int (length (filter (\<lambda>ob. \<not> wo_alive ob) (ck_workers env)))"
    "\<forall>i < length (sv_workers s). worker_checked i (ck_workers env ! i) s s'"
proof -
  obtain s2 where c: "check_workers 0 (ck_workers env) (drain_control (ck_control env) s) = (s2, Inr ())"
    and f: "fresh s2 (ck_now env) (sv_writer_last_seen s2)"
    and h: "check_heartbeats s2 (ck_now env) 0 (sv_workers s2) = Inr ()"
    and r: "check_raw_capture env s2 = (s', Inr ())" and w: "sv_writer s \<noteq> None" "ck_writer_alive env"
    using assms(1) by (rule check_childrenE)
  have ok: "workers_kept (drain_control (ck_control env) s) s2"
    "sv_worker_restarts s2 = sv_worker_restarts s + int (length (filter (\<lambda>ob. \<not> wo_alive ob) (ck_workers env)))"
    "\<forall>i < length (ck_workers env). worker_checked i (ck_workers env ! i) (drain_control (ck_control env) s) s2"
    using check_workers_ok [OF c] assms(2) by (simp_all add: observed_def frame)
  note rf = check_raw_frame [OF r]
  have fr: "fresh s' now seen = fresh s2 now seen" for now seen 
    unfolding fresh_def watchdog_seconds_def rf(7) ..
  show "workers_kept s s'" using ok(1) rf by (auto simp: workers_kept_def frame)
  then show "sv_writer s' \<noteq> None" using w by (simp add: workers_kept_def)
  show "ck_writer_alive env" by (rule w)
  show "fresh s' (ck_now env) (sv_writer_last_seen s')" using f by (simp add: fr rf)
  show "\<forall>i < length (sv_workers s'). fresh s' (ck_now env) (od_get (sv_worker_last_seen s') (int i, pid_or (sv_workers s' ! i)))"
    using check_heartbeats_ok [OF h] by (simp add: fr rf)
  show "sv_worker_restarts s' = sv_worker_restarts s + int (length (filter (\<lambda>ob. \<not> wo_alive ob) (ck_workers env)))"
    using ok(2) rf by simp
  show "\<forall>i < length (sv_workers s). worker_checked i (ck_workers env ! i) s s'"
  proof (intro allI impI)
    fix i assume "i < length (sv_workers s)"
    then have "worker_checked i (ck_workers env ! i) (drain_control (ck_control env) s) s2"
      using ok(3) assms(2) by (simp add: observed_def)
    then show "worker_checked i (ck_workers env ! i) s s'"
      by (rule worker_checked_cong [rotated -1]) (simp_all add: frame rf)
  qed
qed

text \<open>C27: when \<open>_check_children\<close> returns, the writer is alive and was heard within the watchdog interval, every
  worker's current process was heard within it too, each worker that was found dead has been replaced and its loss
  of flow state recorded as a reason for an incomplete verdict, and every other worker is untouched.\<close>

theorem check_children_vouches:
  assumes "check_children env s = (s', Inr ())" "observed env s"
  shows "ck_writer_alive env \<and> fresh s' (ck_now env) (sv_writer_last_seen s')
    \<and> length (sv_workers s') = length (sv_workers s)
    \<and> (\<forall>i < length (sv_workers s'). fresh s' (ck_now env) (od_get (sv_worker_last_seen s') (int i, pid_or (sv_workers s' ! i)))
         \<and> (if wo_alive (ck_workers env ! i) then sv_workers s' ! i = sv_workers s ! i
            else sv_workers s' ! i = wo_replacement (ck_workers env ! i)
               \<and> restart_reason i (wo_exitcode (ck_workers env ! i)) \<in> set (sv_incomplete_reasons s')))
    \<and> sv_worker_restarts s' = sv_worker_restarts s + int (length (filter (\<lambda>ob. \<not> wo_alive ob) (ck_workers env)))
    \<and> set (sv_incomplete_reasons s) \<subseteq> set (sv_incomplete_reasons s')"
proof -
  note ok = check_children_ok [OF assms]
  have "if wo_alive (ck_workers env ! i) then sv_workers s' ! i = sv_workers s ! i
        else sv_workers s' ! i = wo_replacement (ck_workers env ! i)
          \<and> restart_reason i (wo_exitcode (ck_workers env ! i)) \<in> set (sv_incomplete_reasons s')"
    if "i < length (sv_workers s')" for i
    using ok(1,7) that by (auto simp: worker_checked_def workers_kept_def split: if_splits)
  with ok show ?thesis by (simp add: workers_kept_def)
qed

section \<open>The restart budget\<close>

fun check_run :: "check_env list \<Rightarrow> Supervisor \<Rightarrow> Supervisor \<times> unit result" where
  "check_run [] s = (s, Inr ())"
| "check_run (env # envs) s =
     (case check_children env s of (s1, Inl e) \<Rightarrow> (s1, Inl e) | (s1, Inr _) \<Rightarrow> check_run envs s1)"

text \<open>When worker \<open>w\<close> was found dead.\<close>

definition restart_times :: "nat \<Rightarrow> check_env list \<Rightarrow> int list" where
  "restart_times w envs = map (\<lambda>env. wo_now (ck_workers env ! w)) (filter (\<lambda>env. \<not> wo_alive (ck_workers env ! w)) envs)"

lemma fold_history_sorted:
  "sorted ts \<Longrightarrow> ts \<noteq> [] \<Longrightarrow> fold history_step ts [] = filter (\<lambda>t. last ts - t \<le> 60 * second) ts"
proof (induction ts rule: rev_induct)
  case (snoc t ts)
  show ?case
  proof (cases "ts = []")
    case True
    then show ?thesis by (simp add: history_step_def second_def)
  next
    case False
    then have "last ts \<le> t" using snoc.prems(1) by (simp add: sorted_append)
    moreover have "fold history_step ts [] = filter (\<lambda>u. last ts - u \<le> 60 * second) ts"
      using snoc False by (simp add: sorted_append)
    moreover have "filter (\<lambda>seen. t - seen \<le> 60 * second) (filter (\<lambda>u. last ts - u \<le> 60 * second) ts)
        = filter (\<lambda>u. t - u \<le> 60 * second) ts"
      using \<open>last ts \<le> t\<close> unfolding filter_filter by (intro filter_cong) auto
    ultimately show ?thesis by (simp add: history_step_def [of t]) (simp add: second_def)
  qed
qed simp

text \<open>Along a run the history is what the restart times give, and it never reached three entries.\<close>

lemma check_run_history:
  assumes "check_run envs s = (s', Inr ())" "\<forall>env \<in> set envs. length (ck_workers env) = length (sv_workers s)"
    "length (sv_worker_restart_history s) = length (sv_workers s)" "w < length (sv_workers s)"
    "sv_worker_restart_history s ! w = fold history_step ts []"
    "\<forall>n. 0 < n \<and> n \<le> length ts \<longrightarrow> length (fold history_step (take n ts) []) < 3"
  shows "\<forall>n. 0 < n \<and> n \<le> length (ts @ restart_times w envs) \<longrightarrow>
     length (fold history_step (take n (ts @ restart_times w envs)) []) < 3"
  using assms
proof (induction envs arbitrary: s ts)
  case Nil
  then show ?case by (simp add: restart_times_def)
next
  case (Cons env envs)
  obtain s1 where c: "check_children env s = (s1, Inr ())" and r: "check_run envs s1 = (s', Inr ())"
    using Cons.prems(1) by (auto split: prod.splits sum.splits)
  have ob: "observed env s" using Cons.prems(2,3) by (simp add: observed_def)
  note ok = check_children_ok [OF c ob]
  have k: "length (sv_workers s1) = length (sv_workers s)" "length (sv_worker_restart_history s1) = length (sv_workers s1)"
    using ok(1) Cons.prems(3) by (simp_all add: workers_kept_def)
  have chk: "worker_checked w (ck_workers env ! w) s s1" using ok(7) Cons.prems(4) by simp
  show ?case
  proof (cases "wo_alive (ck_workers env ! w)")
    case True
    then have "sv_worker_restart_history s1 ! w = fold history_step ts []"
      using chk Cons.prems(5) by (simp add: worker_checked_def)
    from Cons.IH [OF r _ k(2) _ this Cons.prems(6)] Cons.prems(2,4) k(1) True
    show ?thesis by (simp add: restart_times_def)
  next
    case False
    let ?t = "wo_now (ck_workers env ! w)"
    have h: "sv_worker_restart_history s1 ! w = fold history_step (ts @ [?t]) []"
      "length (fold history_step (ts @ [?t]) []) < 3"
      using chk False Cons.prems(5) unfolding worker_checked_def by auto
    have "\<forall>n. 0 < n \<and> n \<le> length (ts @ [?t]) \<longrightarrow> length (fold history_step (take n (ts @ [?t])) []) < 3"
      using Cons.prems(6) h(2) by (auto simp: le_Suc_eq)
    from Cons.IH [OF r _ k(2) _ h(1) this] Cons.prems(2,4) k(1) False
    show ?thesis by (simp add: restart_times_def)
  qed
qed


section \<open>A small session\<close>

text \<open>One worker, whose process 41 is replaced by process 42.\<close>

definition small_supervisor :: Supervisor where
  "small_supervisor = start_workers [Some 41] ((supervisor_init
     (capture_init (router_init 1 4 30 300) (dispatcher_init 1 1000 4 False None)) 10 False False 1)\<lparr>sv_writer := Some 40\<rparr>)"

definition plain_report :: "string \<Rightarrow> int \<Rightarrow> Report" where
  "plain_report state pid = \<lparr>rp_state = state, rp_pid = Some pid, rp_counters = [], rp_detector = None, rp_sha256 = None\<rparr>"

definition restart_check :: "int \<Rightarrow> check_env" where
  "restart_check now = \<lparr>ck_control = [(WriterReport (plain_report ''heartbeat'' 40), now)], ck_writer_alive = True,
     ck_workers = [\<lparr>wo_alive = False, wo_exitcode = Some 1, wo_now = now, wo_replacement = Some 42,
       wo_polls = [\<lparr>pl_stop = False, pl_control = [(WorkerReport (Some (0, 42)) (plain_report ''ready'' 42), now)],
                    pl_writer_alive = True, pl_writer_exitcode = None, pl_worker_alive = (\<lambda>_. True),
                    pl_worker_exitcode = (\<lambda>_. None)\<rparr>], wo_telemetry_full = False\<rparr>],
     ck_now = now, ck_raw_running = False, ck_raw_telemetry_full = False\<rparr>"

lemmas small_session_defs = small_supervisor_def supervisor_init_def spawn_worker_def plain_report_def restart_check_def
  capture_init_def router_init_def dispatcher_init_def new_shard_def check_children_def drain_control_def drain_item_def
  restart_worker_def mark_incomplete_def await_workers_ready_def worker_ready_def pid_or_def od_get_def sv_operation_def
  operation_def fresh_def watchdog_seconds_def second_def check_raw_capture_def sv_offline_def Let_def

lemma small_restart: "\<exists>s'. check_children (restart_check 0) small_supervisor = (s', Inr ())
    \<and> sv_workers s' = [Some 42] \<and> sv_worker_restarts s' = 1"
  by (simp add: small_session_defs)

theorem check_children_vouches_witness:
  "\<exists>s'. check_children (restart_check 0) small_supervisor = (s', Inr ())
     \<and> restart_reason 0 (Some 1) \<in> set (sv_incomplete_reasons s')"
proof -
  obtain s' where c: "check_children (restart_check 0) small_supervisor = (s', Inr ())" and w: "sv_workers s' = [Some 42]"
    using small_restart by blast
  have "observed (restart_check 0) small_supervisor" by (simp add: observed_def small_session_defs)
  from check_children_vouches [OF c this] w c show ?thesis by (auto simp: restart_check_def)
qed

lemma small_run: "\<exists>s'. check_run [restart_check 0, restart_check 1, restart_check (61 * second)] small_supervisor = (s', Inr ())"
  by (simp add: small_session_defs)


end
