(* ===== verification/Capture.thy ===== *)
theory Capture
  imports Models
begin

text \<open>
  Capture sources (\<open>packet_audit/capture.py\<close>): the reader of classic capture files used when \<open>pcapy\<close> is not
  installed, the construction of records, the two ways to read a batch, iteration and statistics. The handle of the
  capture library is an argument: its state and its \<open>next\<close> or \<open>dispatch\<close> method.
\<close>

section \<open>Classic capture files\<close>

datatype endian = LittleEndian | BigEndian

datatype precision = Micro | Nano

record ClassicPcapHeader =
  ph_seconds :: int
  ph_fraction :: int
  ph_captured_length :: int
  ph_wire_length :: int
  ph_timestamp_precision :: precision

text \<open>The handle; \<open>ch_unread\<close> is what its file still returns.\<close>

record ClassicPcapHandle =
  ch_unread :: bytes
  ch_endian :: endian
  ch_precision :: precision
  ch_datalink :: int
  ch_snaplen :: int
  ch_received :: int
  ch_closed :: bool

definition pcap_magic :: "(bytes \<times> endian \<times> precision) list" where
  "pcap_magic =
     [([0xd4, 0xc3, 0xb2, 0xa1], LittleEndian, Micro), ([0xa1, 0xb2, 0xc3, 0xd4], BigEndian, Micro),
      ([0x4d, 0x3c, 0xb2, 0xa1], LittleEndian, Nano), ([0xa1, 0xb2, 0x3c, 0x4d], BigEndian, Nano)]"

text \<open>One unsigned field of \<open>struct.unpack\<close>.\<close>

definition unpack_uint :: "endian \<Rightarrow> bytes \<Rightarrow> int" where
  "unpack_uint endian bs = int (case endian of LittleEndian \<Rightarrow> from_le bs | BigEndian \<Rightarrow> from_be bs)"

text \<open>\<open>__init__\<close>; the file is its content, or the text of the error its opening raises.\<close>

definition classic_open :: "string \<Rightarrow> string + bytes \<Rightarrow> ClassicPcapHandle result" where
  "classic_open path file =
     (case file of
        Inl exc \<Rightarrow> Inl (CaptureError (''unable to open capture file '' @ path @ '': '' @ exc))
      | Inr content \<Rightarrow>
          (let header = take 24 content in
           if length header \<noteq> 24 then Inl (CaptureError (''capture file '' @ path @ '' has a short global header''))
           else if take 4 header = [0x0a, 0x0d, 0x0d, 0x0a]
           then Inl (PcapyUnavailable ''pcapng replay requires pcapy-ng (classic pcap is supported without it)'')
           else
             (case map_of pcap_magic (take 4 header) of
                None \<Rightarrow> Inl (CaptureError (''capture file '' @ path @ '' has an unknown pcap magic value''))
              | Some (endian, precision) \<Rightarrow>
                  (let major = unpack_uint endian (py_slice header 4 6); minor = unpack_uint endian (py_slice header 6 8);
                       snaplen = unpack_uint endian (py_slice header 16 20); network = unpack_uint endian (py_slice header 20 24) in
                   if major \<noteq> 2 \<or> minor \<noteq> 4
                   then Inl (CaptureError (''unsupported classic pcap version '' @ str_int major @ ''.'' @ str_int minor
                               @ '' in '' @ path))
                   else if snaplen < 1 \<or> snaplen > 16 * 1024 * 1024
                   then Inl (CaptureError (''capture file '' @ path @ '' declares an unsafe snaplen''))
                   else Inr \<lparr>ch_unread = drop 24 content, ch_endian = endian, ch_precision = precision,
                             ch_datalink = network, ch_snaplen = snaplen, ch_received = 0, ch_closed = False\<rparr>))))"

text \<open>\<open>next\<close>: the record read, \<open>None\<close> for the pair of \<open>None\<close>s at the end of the file.\<close>

definition classic_next ::
  "ClassicPcapHandle \<Rightarrow> ClassicPcapHandle \<times> (ClassicPcapHeader \<times> bytes) option result" where
  "classic_next h =
     (if ch_closed h then (h, Inr None)
      else
        let record_header = take 16 (ch_unread h); h1 = h\<lparr>ch_unread := drop 16 (ch_unread h)\<rparr>; e = ch_endian h in
        if record_header = [] then (h1, Inr None)
        else if length record_header \<noteq> 16 then (h1, Inl (CaptureError ''classic pcap ends inside a packet header''))
        else
          let seconds = unpack_uint e (py_slice record_header 0 4); fraction = unpack_uint e (py_slice record_header 4 8);
              captured_length = unpack_uint e (py_slice record_header 8 12);
              wire_length = unpack_uint e (py_slice record_header 12 16) in
          if fraction \<ge> (if ch_precision h = Nano then 1000000000 else 1000000)
          then (h1, Inl (CaptureError ''classic pcap packet has an invalid timestamp fraction''))
          else if captured_length > ch_snaplen h \<or> captured_length > 16 * 1024 * 1024
          then (h1, Inl (CaptureError ''classic pcap packet length exceeds its snapshot or safety limit''))
          else if wire_length < captured_length
          then (h1, Inl (CaptureError ''classic pcap wire length is shorter than captured length''))
          else
            let payload = take (nat captured_length) (ch_unread h1);
                h2 = h1\<lparr>ch_unread := drop (nat captured_length) (ch_unread h1)\<rparr> in
            if int (length payload) \<noteq> captured_length
            then (h2, Inl (CaptureError ''classic pcap ends inside packet data''))
            else (h2\<lparr>ch_received := ch_received h2 + 1\<rparr>,
                  Inr (Some (\<lparr>ph_seconds = seconds, ph_fraction = fraction, ph_captured_length = captured_length,
                              ph_wire_length = wire_length, ph_timestamp_precision = ch_precision h\<rparr>, payload))))"

definition classic_close :: "ClassicPcapHandle \<Rightarrow> ClassicPcapHandle" where
  "classic_close h = (if ch_closed h then h else h\<lparr>ch_closed := True\<rparr>)"

definition classic_stats :: "ClassicPcapHandle \<Rightarrow> int list" where
  "classic_stats h = [ch_received h, 0, 0]"

section \<open>Records\<close>

text \<open>A record header as the source sees it: the pair of \<open>getts\<close>, whether the precision marker says nanoseconds, the
  results of \<open>getcaplen\<close> and \<open>getlen\<close> where the header has these methods.\<close>

record capture_header =
  hd_seconds :: int
  hd_fraction :: int
  hd_nano :: bool
  hd_caplen :: "int option"
  hd_len :: "int option"

datatype raw_payload = NoPayload | BytesLike bytes | OtherPayload

definition timestamp_ns :: "capture_header \<Rightarrow> int" where
  "timestamp_ns header = hd_seconds header * 1000000000 + hd_fraction header * (if hd_nano header then 1 else 1000)"

record 'h Source =
  so_handle :: 'h
  so_interface :: string
  so_session_id :: string
  so_batch_size :: int
  so_offline :: bool
  so_datalink :: int
  so_packet_id :: int
  so_closed :: bool
  so_eof :: bool

text \<open>\<open>__init__\<close>; an absent or empty session id is replaced by a fresh one.\<close>

definition source_init :: "'h \<Rightarrow> int \<Rightarrow> string \<Rightarrow> string option \<Rightarrow> string \<Rightarrow> int \<Rightarrow> bool \<Rightarrow> 'h Source result" where
  "source_init handle datalink interface session_id new_id batch_size offline =
     (if batch_size < 1 then Inl (ValueError ''batch_size must be positive'')
      else Inr \<lparr>so_handle = handle, so_interface = interface,
                so_session_id = (case session_id of Some s \<Rightarrow> if s = [] then new_id else s | None \<Rightarrow> new_id),
                so_batch_size = batch_size, so_offline = offline, so_datalink = datalink, so_packet_id = 0,
                so_closed = False, so_eof = False\<rparr>)"

definition capture_record :: "capture_header \<Rightarrow> raw_payload \<Rightarrow> 'h Source \<Rightarrow> 'h Source \<times> CapturedPacket result" where
  "capture_record header data s =
     (case data of
        BytesLike raw \<Rightarrow>
          (let captured_length = (case hd_caplen header of Some n \<Rightarrow> n | None \<Rightarrow> int (length raw));
               wire_length = (case hd_len header of Some n \<Rightarrow> n | None \<Rightarrow> captured_length) in
           if captured_length \<noteq> int (length raw) \<or> wire_length < captured_length
           then (s, Inl (CaptureError ''capture record lengths do not match its payload''))
           else
             let s1 = s\<lparr>so_packet_id := so_packet_id s + 1\<rparr> in
             (s1, Inr \<lparr>cp_session_id = so_session_id s, cp_packet_id = so_packet_id s1, cp_timestamp_ns = timestamp_ns header,
                       cp_interface = so_interface s, cp_datalink = so_datalink s, cp_captured_length = captured_length,
                       cp_wire_length = wire_length, cp_raw = raw\<rparr>))
      | _ \<Rightarrow> (s, Inl (CaptureError ''capture record payload is not bytes-like'')))"

section \<open>Reading a batch\<close>

text \<open>What \<open>next\<close> returned: a pair, or an object that is none.\<close>

datatype next_item = MalformedItem | NextItem "capture_header option" raw_payload

text \<open>The \<open>except\<close> clauses: every \<open>Exception\<close> that is no \<open>CaptureError\<close> is wrapped.\<close>

definition wrap_error :: "string \<Rightarrow> py_error \<Rightarrow> py_error" where
  "wrap_error what e =
     (case e of CaptureError _ \<Rightarrow> e | PcapyUnavailable _ \<Rightarrow> e | KeyboardInterrupt \<Rightarrow> e
      | _ \<Rightarrow> CaptureError (what @ error_name e))"

fun next_loop ::
  "('h \<Rightarrow> 'h \<times> next_item result) \<Rightarrow> nat \<Rightarrow> 'h Source \<Rightarrow> CapturedPacket list \<Rightarrow> 'h Source \<times> CapturedPacket list result" where
  "next_loop next_packet 0 s batch = (s, Inr batch)"
| "next_loop next_packet (Suc n) s batch =
     (case next_packet (so_handle s) of
        (h, Inl e) \<Rightarrow> (s\<lparr>so_handle := h\<rparr>, Inl (wrap_error ''capture next() failed: '' e))
      | (h, Inr MalformedItem) \<Rightarrow> (s\<lparr>so_handle := h\<rparr>, Inl (CaptureError ''capture next() returned a malformed record''))
      | (h, Inr (NextItem None data)) \<Rightarrow>
          (if data = NoPayload \<or> data = BytesLike []
           then (s\<lparr>so_handle := h, so_eof := (so_offline s \<or> so_eof s)\<rparr>, Inr batch)
           else (s\<lparr>so_handle := h\<rparr>, Inl (CaptureError ''capture next() returned data without a header'')))
      | (h, Inr (NextItem (Some header) data)) \<Rightarrow>
          (if data = NoPayload
           then (s\<lparr>so_handle := h\<rparr>, Inl (CaptureError ''capture next() returned a header without data''))
           else
             (case capture_record header data (s\<lparr>so_handle := h\<rparr>) of
                (s1, Inl e) \<Rightarrow> (s1, Inl e)
              | (s1, Inr packet) \<Rightarrow> next_loop next_packet n s1 (batch @ [packet]))))"

text \<open>The callbacks one \<open>dispatch\<close> makes, what it returns (\<open>None\<close> is no integer) or raises, and the error text.\<close>

record dispatch_outcome =
  do_calls :: "(capture_header \<times> raw_payload) list"
  do_result :: "int option result"
  do_error :: string

fun collect ::
  "int \<Rightarrow> (capture_header \<times> raw_payload) list \<Rightarrow> 'h Source \<Rightarrow> CapturedPacket list \<Rightarrow> 'h Source \<times> CapturedPacket list result" where
  "collect limit [] s batch = (s, Inr batch)"
| "collect limit ((header, data) # calls) s batch =
     (if int (length batch) \<ge> limit then (s, Inl (CaptureError ''capture dispatch exceeded its bounded packet count''))
      else (case capture_record header data s of
              (s1, Inl e) \<Rightarrow> (s1, Inl e)
            | (s1, Inr packet) \<Rightarrow> collect limit calls s1 (batch @ [packet])))"

definition dispatch_batch_of ::
  "('h \<Rightarrow> 'h \<times> dispatch_outcome) \<Rightarrow> int \<Rightarrow> 'h Source \<Rightarrow> 'h Source \<times> CapturedPacket list result" where
  "dispatch_batch_of dispatch limit s =
     (let (h, outcome) = dispatch (so_handle s) in
      case collect limit (do_calls outcome) (s\<lparr>so_handle := h\<rparr>) [] of
        (s1, Inl e) \<Rightarrow> (s1, Inl e)
      | (s1, Inr batch) \<Rightarrow>
          (case do_result outcome of
             Inl e \<Rightarrow> (s1, Inl (wrap_error ''capture dispatch failed: '' e))
           | Inr result \<Rightarrow>
               (if result = Some (- 1) then (s1, Inl (CaptureError (do_error outcome)))
                else (case result of
                        None \<Rightarrow> (s1, Inl (CaptureError ''capture dispatch count does not match delivered records''))
                      | Some n \<Rightarrow>
                          if n < 0 \<or> n \<noteq> int (length batch)
                          then (s1, Inl (CaptureError ''capture dispatch count does not match delivered records''))
                          else (s1\<lparr>so_eof := (so_offline s1 \<and> n = 0 \<or> so_eof s1)\<rparr>, Inr batch)))))"

text \<open>The API the handle offers.\<close>

datatype 'h handle_api = NextApi "'h \<Rightarrow> 'h \<times> next_item result" | DispatchApi "int \<Rightarrow> 'h \<Rightarrow> 'h \<times> dispatch_outcome" | NoApi

definition read_batch :: "'h handle_api \<Rightarrow> int option \<Rightarrow> 'h Source \<Rightarrow> 'h Source \<times> CapturedPacket list result" where
  "read_batch api max_packets s =
     (if so_closed s \<or> so_eof s then (s, Inr [])
      else
        let limit = (case max_packets of None \<Rightarrow> so_batch_size s | Some n \<Rightarrow> n) in
        if limit < 1 then (s, Inl (ValueError ''max_packets must be positive''))
        else (case api of
                NextApi next_packet \<Rightarrow> next_loop next_packet (nat limit) s []
              | DispatchApi dispatch \<Rightarrow> dispatch_batch_of (dispatch limit) limit s
              | NoApi \<Rightarrow> (s, Inl (CaptureError ''pcapy handle exposes neither next nor dispatch''))))"

text \<open>\<open>packets\<close>: all packets yielded until the end of the input, with the answers of the stop event; \<open>None\<close> if they end
  before the iteration does.\<close>

fun packets_of :: "'h handle_api \<Rightarrow> bool list \<Rightarrow> 'h Source \<Rightarrow> CapturedPacket list \<Rightarrow> ('h Source \<times> CapturedPacket list result) option" where
  "packets_of api stops s yielded =
     (if so_closed s \<or> so_eof s then Some (s, Inr yielded)
      else (case stops of
              [] \<Rightarrow> None
            | True # _ \<Rightarrow> Some (s, Inr yielded)
            | False # stops1 \<Rightarrow>
                (case read_batch api None s of
                   (s1, Inl e) \<Rightarrow> Some (s1, Inl e)
                 | (s1, Inr batch) \<Rightarrow> packets_of api stops1 s1 (yielded @ batch))))"

declare packets_of.simps [simp del]

record CaptureStats =
  st_received :: "int option"
  st_dropped :: "int option"
  st_interface_dropped :: "int option"

text \<open>\<open>stats\<close>: what the handle's method returned, if it has one and did not raise.\<close>

definition source_stats :: "int list option result option \<Rightarrow> CaptureStats" where
  "source_stats getter =
     (let entry = (\<lambda>values i. if i < length values then Some (values ! i) else None) in
      case getter of
        Some (Inr (Some values)) \<Rightarrow>
          \<lparr>st_received = entry values 0, st_dropped = entry values 1, st_interface_dropped = entry values 2\<rparr>
      | _ \<Rightarrow> \<lparr>st_received = None, st_dropped = None, st_interface_dropped = None\<rparr>)"

definition source_close :: "('h \<Rightarrow> 'h) \<Rightarrow> 'h Source \<Rightarrow> 'h Source" where
  "source_close closer s = (if so_closed s then s else s\<lparr>so_closed := True, so_handle := closer (so_handle s)\<rparr>)"

section \<open>The classic handle as a source\<close>

definition classic_item :: "ClassicPcapHandle \<Rightarrow> ClassicPcapHandle \<times> next_item result" where
  "classic_item h =
     (case classic_next h of
        (h1, Inl e) \<Rightarrow> (h1, Inl e)
      | (h1, Inr None) \<Rightarrow> (h1, Inr (NextItem None NoPayload))
      | (h1, Inr (Some (header, data))) \<Rightarrow>
          (h1, Inr (NextItem (Some \<lparr>hd_seconds = ph_seconds header, hd_fraction = ph_fraction header,
                                   hd_nano = (ph_timestamp_precision header = Nano),
                                   hd_caplen = Some (ph_captured_length header), hd_len = Some (ph_wire_length header)\<rparr>)
                     (BytesLike data))))"

text \<open>\<open>PcapyOfflineSource.__init__\<close> without \<open>pcapy\<close>.\<close>

definition offline_source ::
  "string \<Rightarrow> string \<Rightarrow> string + bytes \<Rightarrow> string option \<Rightarrow> int \<Rightarrow> string option \<Rightarrow> string \<Rightarrow> string option \<Rightarrow> string option
     \<Rightarrow> ClassicPcapHandle Source result" where
  "offline_source path path_name file bpf batch_size session_id new_id interface interface_name =
     (if bpf \<noteq> None \<and> bpf \<noteq> Some [] then Inl (PcapyUnavailable ''offline BPF filtering requires pcapy-ng'')
      else
        let named = (\<lambda>x rest. case x of Some n \<Rightarrow> if n = [] then rest else n | None \<Rightarrow> rest) in
        bindE (classic_open path file) (\<lambda>h.
          source_init h (ch_datalink h) (named interface_name (named interface path_name)) session_id new_id batch_size True))"

section \<open>Batches\<close>

definition record_ok :: "'h Source \<Rightarrow> CapturedPacket \<Rightarrow> bool" where
  "record_ok s p \<longleftrightarrow> cp_session_id p = so_session_id s \<and> cp_interface p = so_interface s \<and> cp_datalink p = so_datalink s
     \<and> cp_captured_length p = int (length (cp_raw p)) \<and> cp_captured_length p \<le> cp_wire_length p"

text \<open>What no read changes, and how the packet counter and the end mark move.\<close>

definition reads :: "'h Source \<Rightarrow> CapturedPacket list \<Rightarrow> 'h Source \<Rightarrow> bool" where
  "reads s batch s' \<longleftrightarrow> so_session_id s' = so_session_id s \<and> so_interface s' = so_interface s \<and> so_datalink s' = so_datalink s
     \<and> so_batch_size s' = so_batch_size s \<and> so_offline s' = so_offline s \<and> so_closed s' = so_closed s
     \<and> so_packet_id s' = so_packet_id s + int (length batch)
     \<and> map cp_packet_id batch = map (\<lambda>i. so_packet_id s + 1 + int i) [0 ..< length batch]
     \<and> (\<forall>p \<in> set batch. record_ok s p) \<and> (\<not> so_offline s \<longrightarrow> so_eof s' = so_eof s)"

definition capture_failure :: "py_error \<Rightarrow> bool" where
  "capture_failure e \<longleftrightarrow> (\<exists>m. e = CaptureError m) \<or> (\<exists>m. e = PcapyUnavailable m) \<or> e = KeyboardInterrupt"

lemma wrap_error_failure: "capture_failure (wrap_error what e)"
  by (cases e) (auto simp: wrap_error_def capture_failure_def)

lemma capture_failure_simps [simp]: "capture_failure (CaptureError m)"
  by (simp add: capture_failure_def)

lemma reads_refl: "reads s [] s"
  by (simp add: reads_def)

lemma reads_handle: "reads s batch (s'\<lparr>so_handle := h\<rparr>) = reads s batch s'" "reads (s\<lparr>so_handle := h\<rparr>) batch s' = reads s batch s'"
  by (simp_all add: reads_def record_ok_def)

lemma reads_trans:
  assumes "reads s xs s1" "reads s1 ys s2"
  shows "reads s (xs @ ys) s2"
proof -
  have "map (\<lambda>i. so_packet_id s + 1 + int i) [0 ..< length xs + length ys]
      = map (\<lambda>i. so_packet_id s + 1 + int i) [0 ..< length xs]
        @ map (\<lambda>i. so_packet_id s + int (length xs) + 1 + int i) [0 ..< length ys]"
    by (rule nth_equalityI) (auto simp: nth_append)
  then show ?thesis using assms unfolding reads_def record_ok_def by auto
qed

lemma capture_record_reads:
  assumes "capture_record header data s = (s', r)"
  shows "r = Inr p \<Longrightarrow> reads s [p] s'" "r = Inl e \<Longrightarrow> capture_failure e"
  using assms by (auto simp: capture_record_def reads_def record_ok_def Let_def split: raw_payload.splits if_splits)

lemma next_loop_reads:
  "next_loop next_packet n s batch = (s', r) \<Longrightarrow>
   (\<forall>out. r = Inr out \<longrightarrow> (\<exists>new. out = batch @ new \<and> length new \<le> n \<and> reads s new s')) \<and> (\<forall>e. r = Inl e \<longrightarrow> capture_failure e)"
proof (induction next_packet n s batch rule: next_loop.induct)
  case (1 next_packet s batch)
  then show ?case using reads_refl by auto
next
  case (2 next_packet n s batch)
  obtain h x where x: "next_packet (so_handle s) = (h, x)" by (cases "next_packet (so_handle s)")
  show ?case
  proof (cases "\<exists>header data. x = Inr (NextItem (Some header) data) \<and> data \<noteq> NoPayload")
    case True
    then obtain header data where i: "x = Inr (NextItem (Some header) data)" "data \<noteq> NoPayload" by blast
    obtain s1 c where c: "capture_record header data (s\<lparr>so_handle := h\<rparr>) = (s1, c)"
      by (cases "capture_record header data (s\<lparr>so_handle := h\<rparr>)")
    show ?thesis
    proof (cases c)
      case (Inl e)
      then show ?thesis using 2(2) x i c capture_record_reads(2) [OF c Inl] by auto
    next
      case (Inr p)
      have r: "reads s [p] s1" using capture_record_reads(1) [OF c Inr] by (simp add: reads_handle)
      have "next_loop next_packet n s1 (batch @ [p]) = (s', r)" using 2(2) x i c Inr by simp
      from 2(1) [OF x [symmetric] i(1) refl refl i(2) c [symmetric] Inr this] show ?thesis
        using reads_trans [OF r] by fastforce
    qed
  next
    case False
    have "reads s [] (s\<lparr>so_handle := h, so_eof := so_offline s \<or> so_eof s\<rparr>)" by (simp add: reads_def)
    with False 2(2) x show ?thesis
      by (auto simp: wrap_error_failure split: sum.splits next_item.splits option.splits if_splits)
  qed
qed

lemma collect_reads:
  "collect limit calls s batch = (s', r) \<Longrightarrow>
   (\<forall>out. r = Inr out \<longrightarrow> (\<exists>new. out = batch @ new \<and> (new \<noteq> [] \<longrightarrow> int (length out) \<le> limit) \<and> reads s new s'))
   \<and> (\<forall>e. r = Inl e \<longrightarrow> capture_failure e)"
proof (induction limit calls s batch rule: collect.induct)
  case (1 limit s batch)
  then show ?case using reads_refl by auto
next
  case (2 limit header data calls s batch)
  show ?case
  proof (cases "int (length batch) \<ge> limit")
    case False
    obtain s1 c where c: "capture_record header data s = (s1, c)" by (cases "capture_record header data s")
    show ?thesis
    proof (cases c)
      case (Inl e)
      then show ?thesis using 2(2) False c capture_record_reads(2) [OF c Inl] by auto
    next
      case (Inr p)
      have r: "reads s [p] s1" by (rule capture_record_reads(1) [OF c Inr])
      have run: "collect limit calls s1 (batch @ [p]) = (s', r)" using 2(2) False c Inr by simp
      note ih = 2(1) [OF False c [symmetric] Inr run]
      show ?thesis
      proof (intro conjI allI impI)
        fix out assume "r = Inr out"
        with ih obtain new where n: "out = (batch @ [p]) @ new" "new \<noteq> [] \<longrightarrow> int (length out) \<le> limit" "reads s1 new s'" by blast
        then show "\<exists>new. out = batch @ new \<and> (new \<noteq> [] \<longrightarrow> int (length out) \<le> limit) \<and> reads s new s'"
          using reads_trans [OF r] False by (intro exI [of _ "p # new"]) (cases new; auto)
      qed (use ih in blast)
    qed
  qed (use 2(2) in auto)
qed

lemma read_batch_reads:
  assumes "read_batch api max_packets s = (s', r)"
  shows "r = Inr batch \<Longrightarrow> reads s batch s'
      \<and> int (length batch) \<le> max 0 (case max_packets of None \<Rightarrow> so_batch_size s | Some n \<Rightarrow> n)"
    and "r = Inl e \<Longrightarrow> capture_failure e \<or> e = ValueError ''max_packets must be positive''"
proof -
  define limit where "limit = (case max_packets of None \<Rightarrow> so_batch_size s | Some n \<Rightarrow> n)"
  have good: "(\<forall>batch. r = Inr batch \<longrightarrow> reads s batch s' \<and> int (length batch) \<le> max 0 limit)
    \<and> (\<forall>e. r = Inl e \<longrightarrow> capture_failure e \<or> e = ValueError ''max_packets must be positive'')"
  proof (cases "so_closed s \<or> so_eof s \<or> limit < 1")
    case True
    then show ?thesis using assms reads_refl [of s] by (auto simp: read_batch_def limit_def [symmetric] Let_def split: if_splits)
  next
    case False
    show ?thesis
    proof (cases api)
      case (NextApi next_packet)
      with assms False have "next_loop next_packet (nat limit) s [] = (s', r)"
        by (simp add: read_batch_def limit_def [symmetric] Let_def)
      from next_loop_reads [OF this] False show ?thesis by auto
    next
      case (DispatchApi dispatch)
      with assms False have d: "dispatch_batch_of (dispatch limit) limit s = (s', r)"
        by (simp add: read_batch_def limit_def [symmetric] Let_def)
      obtain h outcome where h: "dispatch limit (so_handle s) = (h, outcome)" by (cases "dispatch limit (so_handle s)")
      obtain s1 c where c: "collect limit (do_calls outcome) (s\<lparr>so_handle := h\<rparr>) [] = (s1, c)"
        by (cases "collect limit (do_calls outcome) (s\<lparr>so_handle := h\<rparr>) []")
      note cr = collect_reads [OF c, unfolded reads_handle]
      have eof: "reads s new (s1\<lparr>so_eof := so_offline s1 \<and> n \<or> so_eof s1\<rparr>)" if "reads s new s1" for new n
        using that by (auto simp: reads_def)
      show ?thesis
      proof (cases c)
        case (Inl e)
        then show ?thesis using d h c cr by (auto simp: dispatch_batch_of_def)
      next
        case (Inr batch)
        with cr have b: "reads s batch s1" "int (length batch) \<le> max 0 limit" by auto
        then show ?thesis using d h c Inr eof [OF b(1)]
          by (auto simp: dispatch_batch_of_def wrap_error_failure split: sum.splits option.splits if_splits)
      qed
    next
      case NoApi
      then show ?thesis using assms False by (auto simp: read_batch_def limit_def [symmetric] Let_def)
    qed
  qed
  then show "r = Inr batch \<Longrightarrow> reads s batch s'
      \<and> int (length batch) \<le> max 0 (case max_packets of None \<Rightarrow> so_batch_size s | Some n \<Rightarrow> n)"
    "r = Inl e \<Longrightarrow> capture_failure e \<or> e = ValueError ''max_packets must be positive''"
    unfolding limit_def by blast+
qed

section \<open>Capture files\<close>

text \<open>Reading from a file ends: every record that is returned shortens what is left.\<close>

lemma classic_item_cases:
  assumes "classic_item h = (h1, r)" "\<not> ch_closed h"
  shows "ch_closed h1 = ch_closed h"
    and "r = Inl e \<Longrightarrow> \<exists>m. e = CaptureError m"
    and "r = Inr i \<Longrightarrow> i = NextItem None NoPayload \<or> (\<exists>header raw. i = NextItem (Some header) (BytesLike raw)
           \<and> length (ch_unread h1) < length (ch_unread h) \<and> int (length raw) \<le> min (ch_snaplen h) (16 * 1024 * 1024))"
    and "ch_snaplen h1 = ch_snaplen h"
  using assms by (auto simp: classic_item_def classic_next_def Let_def split: if_splits)

lemma capture_record_handle: "capture_record header data s = (s', r) \<Longrightarrow> so_handle s' = so_handle s"
  by (auto simp: capture_record_def Let_def split: raw_payload.splits if_splits)

lemma capture_record_raw:
  "capture_record header (BytesLike raw) s = (s', Inr p) \<Longrightarrow> cp_raw p = raw \<and> so_eof s' = so_eof s \<and> so_offline s' = so_offline s"
  by (auto simp: capture_record_def Let_def split: if_splits)

definition file_bounded :: "ClassicPcapHandle \<Rightarrow> CapturedPacket \<Rightarrow> bool" where
  "file_bounded h p \<longleftrightarrow> cp_captured_length p \<le> min (ch_snaplen h) (16 * 1024 * 1024)"

lemma classic_loop:
  assumes "next_loop classic_item n s batch = (s', r)" "\<not> ch_closed (so_handle s)" "so_offline s" "\<not> so_eof s"
  shows "\<not> ch_closed (so_handle s') \<and> ch_snaplen (so_handle s') = ch_snaplen (so_handle s)
     \<and> (r = Inr out \<longrightarrow> so_eof s' \<or> length (ch_unread (so_handle s')) + n \<le> length (ch_unread (so_handle s)))
     \<and> (r = Inr out \<longrightarrow> (\<forall>p \<in> set batch. file_bounded (so_handle s) p) \<longrightarrow> (\<forall>p \<in> set out. file_bounded (so_handle s) p))
     \<and> (\<forall>e. r = Inl e \<longrightarrow> (\<exists>m. e = CaptureError m))"
  using assms
proof (induction n arbitrary: s batch)
  case (Suc n)
  obtain h x where x: "classic_item (so_handle s) = (h, x)" by (cases "classic_item (so_handle s)")
  note c = classic_item_cases [OF x Suc.prems(2)]
  show ?case
  proof (cases x)
    case (Inl e)
    then show ?thesis using Suc.prems x c by (auto simp: wrap_error_def)
  next
    case (Inr i)
    consider "i = NextItem None NoPayload" | header raw where "i = NextItem (Some header) (BytesLike raw)"
        "length (ch_unread h) < length (ch_unread (so_handle s))" "int (length raw) \<le> min (ch_snaplen (so_handle s)) (16 * 1024 * 1024)"
      using c(3) [OF Inr] by blast
    then show ?thesis
    proof cases
      case 1
      then show ?thesis using Suc.prems x c Inr by auto
    next
      case 2
      obtain s1 y where y: "capture_record header (BytesLike raw) (s\<lparr>so_handle := h\<rparr>) = (s1, y)"
        by (cases "capture_record header (BytesLike raw) (s\<lparr>so_handle := h\<rparr>)")
      have hs: "so_handle s1 = h" using capture_record_handle [OF y] by simp
      show ?thesis
      proof (cases y)
        case (Inl e)
        then show ?thesis using Suc.prems x c \<open>x = Inr i\<close> 2 y hs
          by (auto simp: capture_record_def Let_def split: if_splits)
      next
        case p: (Inr p)
        note raw = capture_record_raw [OF y [unfolded p]]
        have b: "file_bounded (so_handle s) p" using y p 2(3)
          by (auto simp: capture_record_def file_bounded_def Let_def split: if_splits option.splits)
        have "next_loop classic_item n s1 (batch @ [p]) = (s', r)" using Suc.prems(1) x \<open>x = Inr i\<close> 2 y p by simp
        from Suc.IH [OF this] raw hs c Suc.prems 2 b show ?thesis by (auto simp: file_bounded_def)
      qed
    qed
  qed
qed auto

lemma classic_packets:
  assumes "so_offline s" "\<not> ch_closed (so_handle s)" "so_batch_size s \<ge> 1" "so_closed s = False"
    and "\<not> so_eof s \<longrightarrow> length (ch_unread (so_handle s)) < length stops"
  shows "\<exists>s' r. packets_of (NextApi classic_item) stops s ys = Some (s', r) \<and> (\<forall>e. r = Inl e \<longrightarrow> (\<exists>m. e = CaptureError m))
     \<and> (\<forall>out. r = Inr out \<longrightarrow> (so_eof s' \<or> True \<in> set stops)
          \<and> (\<exists>new. out = ys @ new \<and> reads s new s' \<and> (\<forall>p \<in> set new. file_bounded (so_handle s) p)))"
  using assms
proof (induction stops arbitrary: s ys)
  case Nil
  then show ?case using reads_refl [of s] by (simp add: packets_of.simps)
next
  case (Cons stop stops)
  show ?case
  proof (cases "so_eof s \<or> stop")
    case True
    then show ?thesis using Cons.prems reads_refl [of s] by (auto simp: packets_of.simps)
  next
    case False
    obtain s1 r where b: "next_loop classic_item (nat (so_batch_size s)) s [] = (s1, r)"
      by (cases "next_loop classic_item (nat (so_batch_size s)) s []")
    then have rb: "read_batch (NextApi classic_item) None s = (s1, r)" using False Cons.prems by (simp add: read_batch_def)
    note cl = classic_loop [OF b Cons.prems(2,1)]
    show ?thesis
    proof (cases r)
      case (Inl e)
      then have "packets_of (NextApi classic_item) (stop # stops) s ys = Some (s1, Inl e)"
        using False Cons.prems rb by (subst packets_of.simps) simp
      then show ?thesis using cl Inl False by auto
    next
      case (Inr batch)
      have rd: "reads s batch s1" using read_batch_reads(1) [OF rb Inr] by blast
      have "so_eof s1 \<or> length (ch_unread (so_handle s1)) < length stops"
        using cl [of batch] Inr False Cons.prems(3,5) by auto
      moreover have "so_offline s1" "\<not> ch_closed (so_handle s1)" "so_batch_size s1 \<ge> 1" "so_closed s1 = False"
        using rd Cons.prems cl False by (auto simp: reads_def)
      ultimately obtain s2 r2 where p: "packets_of (NextApi classic_item) stops s1 (ys @ batch) = Some (s2, r2)"
        "\<forall>e. r2 = Inl e \<longrightarrow> (\<exists>m. e = CaptureError m)" "\<forall>out. r2 = Inr out \<longrightarrow> (so_eof s2 \<or> True \<in> set stops)
          \<and> (\<exists>new. out = (ys @ batch) @ new \<and> reads s1 new s2 \<and> (\<forall>p \<in> set new. file_bounded (so_handle s1) p))"
        using Cons.IH [of s1 "ys @ batch"] by blast
      have bounded: "\<forall>p \<in> set batch. file_bounded (so_handle s) p" "ch_snaplen (so_handle s1) = ch_snaplen (so_handle s)"
        using cl [of batch] Inr False by auto
      have run: "packets_of (NextApi classic_item) (stop # stops) s ys = Some (s2, r2)"
        using False Cons.prems rb Inr p(1) by (subst packets_of.simps) simp
      have "\<exists>new. out = ys @ new \<and> reads s new s2 \<and> (\<forall>p \<in> set new. file_bounded (so_handle s) p)" if out: "r2 = Inr out" for out
      proof -
        obtain new where "out = (ys @ batch) @ new" "reads s1 new s2" "\<forall>p \<in> set new. file_bounded (so_handle s1) p"
          using p(3) out by blast
        then show ?thesis using reads_trans [OF rd] bounded
          by (intro exI [of _ "batch @ new"]) (auto simp: file_bounded_def)
      qed
      then show ?thesis using run p(2,3) by auto
    qed
  qed
qed

section \<open>Writing a capture file\<close>

definition pack_uint :: "endian \<Rightarrow> nat \<Rightarrow> nat \<Rightarrow> bytes" where
  "pack_uint endian n v = (case endian of LittleEndian \<Rightarrow> rev (to_be n v) | BigEndian \<Rightarrow> to_be n v)"

lemma length_pack: "length (pack_uint e n v) = n"
  by (simp add: pack_uint_def split: endian.split)

lemma pack_uint_simps [simp]:
  "length (pack_uint e n v) = n" "v < 256 ^ n \<Longrightarrow> unpack_uint e (pack_uint e n v) = int v"
  by (cases e; simp add: pack_uint_def unpack_uint_def from_le_def from_be_to_be)+

text \<open>A record: seconds, fraction, wire length and captured bytes.\<close>

type_synonym file_record = "nat \<times> nat \<times> nat \<times> bytes"

fun encode_record :: "endian \<Rightarrow> file_record \<Rightarrow> bytes" where
  "encode_record e (seconds, fraction, wire, raw) =
     pack_uint e 4 seconds @ pack_uint e 4 fraction @ pack_uint e 4 (length raw) @ pack_uint e 4 wire @ raw"

definition encode_magic :: "endian \<Rightarrow> precision \<Rightarrow> bytes" where
  "encode_magic e p = pack_uint e 4 (case p of Micro \<Rightarrow> 0xa1b2c3d4 | Nano \<Rightarrow> 0xa1b23c4d)"

definition encode_capture :: "endian \<Rightarrow> precision \<Rightarrow> nat \<Rightarrow> nat \<Rightarrow> file_record list \<Rightarrow> bytes" where
  "encode_capture e p snaplen network records =
     encode_magic e p @ pack_uint e 2 2 @ pack_uint e 2 4 @ pack_uint e 4 0 @ pack_uint e 4 0 @ pack_uint e 4 snaplen
     @ pack_uint e 4 network @ concat (map (encode_record e) records)"

fun writable :: "precision \<Rightarrow> nat \<Rightarrow> file_record \<Rightarrow> bool" where
  "writable p snaplen (seconds, fraction, wire, raw) \<longleftrightarrow>
     seconds < 2 ^ 32 \<and> fraction < (if p = Nano then 1000000000 else 1000000) \<and> length raw \<le> snaplen \<and> length raw \<le> wire \<and> wire < 2 ^ 32"

lemma to_be_4: "to_be 4 v = [of_nat (v div 256 div 256 div 256 mod 256), of_nat (v div 256 div 256 mod 256),
    of_nat (v div 256 mod 256), of_nat (v mod 256)]"
proof -
  have n: "4 = Suc (Suc (Suc (Suc 0)))" by simp
  show ?thesis unfolding n to_be.simps by simp
qed

lemma magic_known: "map_of pcap_magic (encode_magic e p) = Some (e, p)" "encode_magic e p \<noteq> [0x0a, 0x0d, 0x0d, 0x0a]"
  by (cases e; cases p; simp add: encode_magic_def pack_uint_def to_be_4 pcap_magic_def)+

lemma classic_open_encoded:
  assumes "1 \<le> snaplen" "snaplen \<le> 16 * 1024 * 1024" "network < 2 ^ 32"
  shows "classic_open path (Inr (encode_capture e p snaplen network records)) =
     Inr \<lparr>ch_unread = concat (map (encode_record e) records), ch_endian = e, ch_precision = p, ch_datalink = int network,
          ch_snaplen = int snaplen, ch_received = 0, ch_closed = False\<rparr>"
proof -
  have m: "length (encode_magic e p) = 4" by (simp add: encode_magic_def)
  have "take 24 (encode_capture e p snaplen network records) = encode_magic e p @ pack_uint e 2 2 @ pack_uint e 2 4
      @ pack_uint e 4 0 @ pack_uint e 4 0 @ pack_uint e 4 snaplen @ pack_uint e 4 network" (is "_ = ?h")
    "drop 24 (encode_capture e p snaplen network records) = concat (map (encode_record e) records)"
    by (simp_all add: encode_capture_def m)
  moreover have "py_slice ?h 4 6 = pack_uint e 2 2" "py_slice ?h 6 8 = pack_uint e 2 4" "py_slice ?h 16 20 = pack_uint e 4 snaplen"
    "py_slice ?h 20 24 = pack_uint e 4 network" "take 4 ?h = encode_magic e p" "length ?h = 24"
    by (simp_all add: py_slice_def m)
  ultimately show ?thesis using assms magic_known [of e p] by (simp add: classic_open_def Let_def)
qed

lemma classic_next_encoded:
  assumes "writable p snaplen (seconds, fraction, wire, raw)" "snaplen \<le> 16 * 1024 * 1024"
    and h: "\<not> ch_closed h" "ch_endian h = e" "ch_precision h = p" "ch_snaplen h = int snaplen"
      "ch_unread h = encode_record e (seconds, fraction, wire, raw) @ rest"
  shows "classic_next h = (h\<lparr>ch_unread := rest, ch_received := ch_received h + 1\<rparr>,
     Inr (Some (\<lparr>ph_seconds = int seconds, ph_fraction = int fraction, ph_captured_length = int (length raw),
                 ph_wire_length = int wire, ph_timestamp_precision = p\<rparr>, raw)))"
proof -
  let ?h = "pack_uint e 4 seconds @ pack_uint e 4 fraction @ pack_uint e 4 (length raw) @ pack_uint e 4 wire"
  have u: "take 16 (ch_unread h) = ?h" "drop 16 (ch_unread h) = raw @ rest" using h(5) by simp_all
  moreover have "py_slice ?h 0 4 = pack_uint e 4 seconds" "py_slice ?h 4 8 = pack_uint e 4 fraction"
    "py_slice ?h 8 12 = pack_uint e 4 (length raw)" "py_slice ?h 12 16 = pack_uint e 4 wire" "length ?h = 16" "?h \<noteq> []"
    by (simp_all add: py_slice_def) (metis length_pack list.size(3) zero_neq_numeral)
  ultimately show ?thesis using assms by (auto simp: classic_next_def Let_def)
qed

text \<open>The packet a record stands for, and the state of a source after \<open>j\<close> records.\<close>

fun captured_record :: "'h Source \<Rightarrow> precision \<Rightarrow> nat \<Rightarrow> file_record \<Rightarrow> CapturedPacket" where
  "captured_record s p i (seconds, fraction, wire, raw) =
     \<lparr>cp_session_id = so_session_id s, cp_packet_id = int i,
      cp_timestamp_ns = int seconds * 1000000000 + int fraction * (if p = Nano then 1 else 1000),
      cp_interface = so_interface s, cp_datalink = so_datalink s, cp_captured_length = int (length raw),
      cp_wire_length = int wire, cp_raw = raw\<rparr>"

definition numbered :: "'h Source \<Rightarrow> precision \<Rightarrow> nat \<Rightarrow> file_record list \<Rightarrow> CapturedPacket list" where
  "numbered s p j records = map (\<lambda>(i, r). captured_record s p i r) (enumerate (Suc j) records)"

definition reading ::
  "ClassicPcapHandle Source \<Rightarrow> endian \<Rightarrow> nat \<Rightarrow> file_record list \<Rightarrow> bool \<Rightarrow> ClassicPcapHandle Source" where
  "reading s e j rest eof =
     s\<lparr>so_handle := (so_handle s)\<lparr>ch_unread := concat (map (encode_record e) rest), ch_received := int j\<rparr>,
       so_packet_id := int j, so_eof := eof\<rparr>"

definition replays :: "ClassicPcapHandle Source \<Rightarrow> endian \<Rightarrow> precision \<Rightarrow> nat \<Rightarrow> bool" where
  "replays s e p snaplen \<longleftrightarrow> \<not> ch_closed (so_handle s) \<and> ch_endian (so_handle s) = e \<and> ch_precision (so_handle s) = p
     \<and> ch_snaplen (so_handle s) = int snaplen \<and> snaplen \<le> 16 * 1024 * 1024 \<and> so_offline s \<and> \<not> so_closed s \<and> so_batch_size s \<ge> 1"

lemma next_loop_encoded:
  assumes "replays s e p snaplen" "\<forall>r \<in> set rest. writable p snaplen r"
  shows "next_loop classic_item n (reading s e j rest False) batch =
    (reading s e (j + min n (length rest)) (drop n rest) (length rest < n), Inr (batch @ numbered s p j (take n rest)))"
  using assms(2)
proof (induction n arbitrary: j rest batch)
  case (Suc n)
  show ?case
  proof (cases rest)
    case Nil
    have "classic_item (so_handle (reading s e j [] False))
        = ((so_handle (reading s e j [] False)), Inr (NextItem None NoPayload))"
      using assms(1) by (simp add: classic_item_def classic_next_def reading_def replays_def)
    then show ?thesis using Nil assms(1) by (simp add: numbered_def reading_def replays_def)
  next
    case (Cons r rs)
    obtain seconds fraction wire raw where r: "r = (seconds, fraction, wire, raw)" by (metis prod_cases4)
    let ?h = "so_handle (reading s e j rest False)"
    have w: "writable p snaplen (seconds, fraction, wire, raw)" using Suc.prems Cons r by simp
    have "classic_next ?h = (?h\<lparr>ch_unread := concat (map (encode_record e) rs), ch_received := ch_received ?h + 1\<rparr>,
       Inr (Some (\<lparr>ph_seconds = int seconds, ph_fraction = int fraction, ph_captured_length = int (length raw),
                   ph_wire_length = int wire, ph_timestamp_precision = p\<rparr>, raw)))"
      by (rule classic_next_encoded [OF w, of _ e]) (use assms(1) Cons r in \<open>auto simp: replays_def reading_def\<close>)
    moreover have upd: "s\<lparr>so_eof := False, so_handle := x, so_packet_id := y\<rparr> = s\<lparr>so_handle := x, so_packet_id := y, so_eof := False\<rparr>"
      for x y by simp
    ultimately have "next_loop classic_item (Suc n) (reading s e j rest False) batch
        = next_loop classic_item n (reading s e (Suc j) rs False) (batch @ [captured_record s p (Suc j) r])"
      using w by (simp add: classic_item_def capture_record_def timestamp_ns_def reading_def r Let_def add.commute upd)
    then show ?thesis using Suc.IH [of rs "Suc j" "batch @ [captured_record s p (Suc j) r]"] Suc.prems Cons
      by (simp add: numbered_def)
  qed
qed (simp add: numbered_def reading_def)

lemma packets_encoded:
  assumes "replays s e p snaplen" "\<forall>r \<in> set rest. writable p snaplen r" "length rest < n"
  shows "packets_of (NextApi classic_item) (replicate n False) (reading s e j rest False) ys
     = Some (reading s e (j + length rest) [] True, Inr (ys @ numbered s p j rest))"
  using assms(2,3)
proof (induction n arbitrary: j rest ys)
  case (Suc n)
  let ?b = "nat (so_batch_size s)"
  have b: "1 \<le> ?b" using assms(1) unfolding replays_def by linarith
  have "read_batch (NextApi classic_item) None (reading s e j rest False)
      = (reading s e (j + min ?b (length rest)) (drop ?b rest) (length rest < ?b), Inr (numbered s p j (take ?b rest)))"
    using assms(1) next_loop_encoded [OF assms(1) Suc.prems(1), of ?b j "[]"]
    by (simp add: read_batch_def replays_def) (simp add: reading_def Let_def)
  moreover have "\<not> (so_closed (reading s e j rest False) \<or> so_eof (reading s e j rest False))"
    using assms(1) by (simp add: reading_def replays_def)
  ultimately have step: "packets_of (NextApi classic_item) (replicate (Suc n) False) (reading s e j rest False) ys
      = packets_of (NextApi classic_item) (replicate n False)
          (reading s e (j + min ?b (length rest)) (drop ?b rest) (length rest < ?b)) (ys @ numbered s p j (take ?b rest))"
    by (subst packets_of.simps) simp
  show ?case
  proof (cases "length rest < ?b")
    case True
    then show ?thesis unfolding step by (subst packets_of.simps) (simp add: reading_def)
  next
    case False
    have "numbered s p j (take ?b rest) @ numbered s p (j + ?b) (drop ?b rest) = numbered s p j rest"
      using False enumerate_append_eq [of "Suc j" "take ?b rest" "drop ?b rest"]
      by (simp add: numbered_def map_append [symmetric] del: map_append)
    moreover have "\<forall>r \<in> set (drop ?b rest). writable p snaplen r" using Suc.prems(1) by (meson in_set_dropD)
    ultimately show ?thesis using False b Suc.prems(2) Suc.IH [of "drop ?b rest" "j + ?b" "ys @ numbered s p j (take ?b rest)"]
      unfolding step by (simp add: min_def)
  qed
qed simp

lemma offline_encoded:
  assumes "1 \<le> snaplen" "snaplen \<le> 16 * 1024 * 1024" "network < 2 ^ 32" "1 \<le> batch_size"
  shows "\<exists>s. offline_source path path_name (Inr (encode_capture e p snaplen network records)) None batch_size session_id
      new_id interface interface_name = Inr s \<and> replays s e p snaplen \<and> s = reading s e 0 records False
      \<and> so_datalink s = int network \<and> so_batch_size s = batch_size"
  using assms by (auto simp: offline_source_def classic_open_encoded source_init_def reading_def replays_def Let_def)

lemma classic_open_closed: "classic_open path file = Inr h \<Longrightarrow> \<not> ch_closed h"
  by (auto simp: classic_open_def Let_def split: sum.splits if_splits option.splits)

lemma offline_start:
  assumes "offline_source path path_name file None batch_size session_id new_id interface interface_name = Inr s"
  shows "so_offline s" "\<not> ch_closed (so_handle s)" "so_batch_size s \<ge> 1" "so_closed s = False"
  using assms classic_open_closed [of path "file"]
  by (auto simp: offline_source_def source_init_def bindE_Inr_iff Let_def split: if_splits)

section \<open>Properties\<close>

text \<open>C15: replay of a capture file returns exactly its records. A file in the classic format, of either byte order and
  either timestamp precision, whose records keep the format's limits, is opened, and iterating over it, with any batch
  size, yields its records in order, numbered from one, with their times in nanoseconds, lengths and bytes; then the
  source is at its end and its statistics count every record.\<close>

theorem replay_encoded_capture:
  assumes "1 \<le> snaplen" "snaplen \<le> 16 * 1024 * 1024" "network < 2 ^ 32" "1 \<le> batch_size"
    and "\<forall>r \<in> set records. writable p snaplen r" "length records < n"
  shows "\<exists>s s'. offline_source path path_name (Inr (encode_capture e p snaplen network records)) None batch_size session_id new_id
        interface interface_name = Inr s
    \<and> packets_of (NextApi classic_item) (replicate n False) s [] = Some (s', Inr (numbered s p 0 records))
    \<and> so_datalink s = int network \<and> so_eof s' \<and> classic_stats (so_handle s') = [int (length records), 0, 0]"
proof -
  obtain s where s: "offline_source path path_name (Inr (encode_capture e p snaplen network records)) None batch_size session_id
      new_id interface interface_name = Inr s" "replays s e p snaplen" "s = reading s e 0 records False" "so_datalink s = int network"
    using offline_encoded [OF assms(1-4), of path path_name e p records session_id new_id interface interface_name]
    by (elim exE conjE) (rule that; assumption)
  have "packets_of (NextApi classic_item) (replicate n False) s []
      = Some (reading s e (length records) [] True, Inr (numbered s p 0 records))"
    using packets_encoded [OF s(2) assms(5,6), of 0 "[]", folded s(3)] by (simp only: add_0 append_Nil)
  moreover have "so_eof (reading s e (length records) [] True)"
    "classic_stats (so_handle (reading s e (length records) [] True)) = [int (length records), 0, 0]"
    by (simp_all add: reading_def classic_stats_def)
  ultimately show ?thesis using s(1,4) by blast
qed

theorem replay_encoded_capture_witness:
  "\<exists>s s'. offline_source ''a.pcap'' ''a.pcap'' (Inr (encode_capture LittleEndian Nano 64 1 [(5, 7, 3, [1, 2, 3]), (6, 8, 9, [4])]))
        None 1 None ''s'' None None = Inr s
    \<and> packets_of (NextApi classic_item) (replicate 3 False) s [] = Some (s', Inr (numbered s Nano 0 [(5, 7, 3, [1, 2, 3]), (6, 8, 9, [4])]))"
  using replay_encoded_capture [of 64 1 1 "[(5, 7, 3, [1, 2, 3]), (6, 8, 9, [4])]" Nano 3 "''a.pcap''" "''a.pcap''" LittleEndian None "''s''" None None]
  by auto

text \<open>C33: a hostile capture file cannot hang or flood the reader. Whatever bytes a file that was opened holds, iterating over
  it ends after at most as many batches as it has bytes, at the end of the file or with a \<open>CaptureError\<close>, and no
  packet it yields is longer than the declared snapshot length or sixteen megabytes.\<close>

theorem classic_replay_returns:
  assumes "offline_source path path_name file None batch_size session_id new_id interface interface_name = Inr s"
    and "length (ch_unread (so_handle s)) < n"
  shows "\<exists>s' r. packets_of (NextApi classic_item) (replicate n False) s [] = Some (s', r)
    \<and> (\<forall>e. r = Inl e \<longrightarrow> (\<exists>m. e = CaptureError m))
    \<and> (\<forall>packets. r = Inr packets \<longrightarrow> so_eof s'
         \<and> (\<forall>p \<in> set packets. cp_captured_length p = int (length (cp_raw p)) \<and> cp_captured_length p \<le> cp_wire_length p
              \<and> cp_captured_length p \<le> min (ch_snaplen (so_handle s)) (16 * 1024 * 1024)))"
proof -
  have "so_offline s" "\<not> ch_closed (so_handle s)" "so_batch_size s \<ge> 1" "so_closed s = False"
    by (rule offline_start [OF assms(1)])+
  from classic_packets [OF this, of "replicate n False" "[]"] assms(2)
  obtain s' r where p: "packets_of (NextApi classic_item) (replicate n False) s [] = Some (s', r)"
    "\<forall>e. r = Inl e \<longrightarrow> (\<exists>m. e = CaptureError m)"
    "\<forall>out. r = Inr out \<longrightarrow> (so_eof s' \<or> True \<in> set (replicate n False))
        \<and> (\<exists>new. out = [] @ new \<and> reads s new s' \<and> (\<forall>p \<in> set new. file_bounded (so_handle s) p))" by auto
  have "\<forall>packets. r = Inr packets \<longrightarrow> so_eof s'
      \<and> (\<forall>p \<in> set packets. cp_captured_length p = int (length (cp_raw p)) \<and> cp_captured_length p \<le> cp_wire_length p
           \<and> cp_captured_length p \<le> min (ch_snaplen (so_handle s)) (16 * 1024 * 1024))"
    using p(3) unfolding reads_def record_ok_def file_bounded_def by fastforce
  with p(1,2) show ?thesis by blast
qed

theorem classic_replay_returns_witness:
  "\<exists>s s' r. offline_source ''a'' ''a'' (Inr (encode_capture BigEndian Micro 64 1 [(1, 2, 3, [9])])) None 1 None ''s'' None None = Inr s
    \<and> packets_of (NextApi classic_item) (replicate 20 False) s [] = Some (s', r)"
proof -
  obtain s where s: "offline_source ''a'' ''a'' (Inr (encode_capture BigEndian Micro 64 1 [(1, 2, 3, [9])])) None 1 None ''s'' None None
      = Inr s" "s = reading s BigEndian 0 [(1, 2, 3, [9])] False"
    using offline_encoded [of 64 1 1 "''a''" "''a''" BigEndian Micro "[(1, 2, 3, [9])]" None "''s''" None None] by auto
  have "length (ch_unread (so_handle s)) = 17" by (subst s(2)) (simp add: reading_def)
  then show ?thesis using s(1) classic_replay_returns [OF s(1), of 20] by auto
qed

text \<open>C32: reading a batch is loss-visible, through either API and whatever the capture library returns. A batch holds no more
  packets than asked for; they carry the next packet numbers without a gap and the source's session, interface and
  link type; their lengths match their bytes. Otherwise the call fails, with a \<open>CaptureError\<close> whatever the library
  raised (an interrupt passes); and a live source is never taken to be at its end.\<close>

theorem read_batch_sound:
  assumes "read_batch api max_packets s = (s', r)"
  shows "case r of
      Inl e \<Rightarrow> (\<exists>m. e = CaptureError m) \<or> (\<exists>m. e = PcapyUnavailable m) \<or> e = KeyboardInterrupt
                 \<or> e = ValueError ''max_packets must be positive''
    | Inr batch \<Rightarrow>
        int (length batch) \<le> max 0 (case max_packets of None \<Rightarrow> so_batch_size s | Some n \<Rightarrow> n)
        \<and> map cp_packet_id batch = map (\<lambda>i. so_packet_id s + 1 + int i) [0 ..< length batch]
        \<and> so_packet_id s' = so_packet_id s + int (length batch)
        \<and> (\<forall>p \<in> set batch. cp_session_id p = so_session_id s \<and> cp_interface p = so_interface s \<and> cp_datalink p = so_datalink s
             \<and> cp_captured_length p = int (length (cp_raw p)) \<and> cp_captured_length p \<le> cp_wire_length p)
        \<and> (\<not> so_offline s \<longrightarrow> so_eof s' = so_eof s)"
proof (cases r)
  case (Inl e)
  then show ?thesis using read_batch_reads(2) [OF assms Inl] by (auto simp: capture_failure_def)
next
  case (Inr batch)
  show ?thesis using read_batch_reads(1) [OF assms Inr] unfolding reads_def record_ok_def Inr sum.case by blast
qed

theorem read_batch_sound_witness:
  "\<exists>s s' batch. offline_source ''a'' ''a'' (Inr (encode_capture BigEndian Micro 64 1 [(1, 2, 3, [9])])) None 5 None ''s'' None None = Inr s
    \<and> read_batch (NextApi classic_item) None s = (s', Inr batch) \<and> map cp_packet_id batch = [1]"
proof -
  let ?rs = "[(1, 2, 3, [9])]"
  obtain s where s: "offline_source ''a'' ''a'' (Inr (encode_capture BigEndian Micro 64 1 ?rs)) None 5 None ''s'' None None = Inr s"
    "replays s BigEndian Micro 64" "s = reading s BigEndian 0 ?rs False" "so_batch_size s = 5"
    using offline_encoded [of 64 1 5 "''a''" "''a''" BigEndian Micro ?rs None "''s''" None None] by auto
  have "so_packet_id s = 0" "\<not> so_closed s" "\<not> so_eof s" using s(2) by (subst s(3), simp add: reading_def replays_def)+
  moreover obtain s' batch where b: "next_loop classic_item (nat 5) s [] = (s', Inr batch)" "length batch = 1"
    using next_loop_encoded [OF s(2), of ?rs "nat 5" 0 "[]", folded s(3)] by (auto simp: numbered_def)
  ultimately have "read_batch (NextApi classic_item) None s = (s', Inr batch)" using s(4) by (simp add: read_batch_def)
  with read_batch_sound [OF this] \<open>so_packet_id s = 0\<close> b(2) s(1) show ?thesis by auto
qed

end
