(* ===== verification/Verdict.thy ===== *)
theory Verdict
  imports Supervision Service_Watchdog Capture
begin

text \<open>
  The end of a session: the \<open>finally\<close> clause of \<open>AuditSupervisor.run\<close> (\<open>packet_audit/supervisor.py\<close>), which stops
  capture and children, adds up what the workers reported, reconciles the counters and decides the verdict.
  What the other processes and the capture source answer during the shutdown is an argument.
\<close>

section \<open>Queue health\<close>

record QueueHealth =
  qh_current_bytes_by_worker :: "int list"
  qh_peak_bytes_by_worker :: "int list"
  qh_max_bytes_per_worker :: int
  qh_current_bytes :: int
  qh_peak_bytes_sum :: int
  qh_max_bytes_total :: int
  qh_byte_budget_dropped_packets :: int
  qh_byte_budget_dropped_bytes :: int
  qh_outstanding_batches_by_worker :: "int list"
  qh_peak_outstanding_batches_by_worker :: "int list"
  qh_max_buffered_batch_slots_per_worker :: int
  qh_max_outstanding_batches_per_worker :: int
  qh_slot_dropped_packets :: int

definition worker_queue_byte_health :: "Dispatcher \<Rightarrow> QueueHealth" where
  "worker_queue_byte_health d =
     (let current = map sh_bytes (dx_shards d); peaks = map sh_bytes_peak (dx_shards d) in
      \<lparr>qh_current_bytes_by_worker = current, qh_peak_bytes_by_worker = peaks,
       qh_max_bytes_per_worker = dx_max_worker_queue_bytes d,
       qh_current_bytes = sum_list current, qh_peak_bytes_sum = sum_list peaks,
       qh_max_bytes_total = dx_max_worker_queue_bytes d * int (length (dx_shards d)),
       qh_byte_budget_dropped_packets = dx_byte_budget_dropped_packets d,
       qh_byte_budget_dropped_bytes = dx_byte_budget_dropped_bytes d,
       qh_outstanding_batches_by_worker = map sh_batches (dx_shards d),
       qh_peak_outstanding_batches_by_worker = map sh_batches_peak (dx_shards d),
       qh_max_buffered_batch_slots_per_worker = dx_queue_size d,
       qh_max_outstanding_batches_per_worker = dx_queue_size d + 2,
       qh_slot_dropped_packets = dx_slot_dropped_packets d\<rparr>)"

section \<open>Totals over the worker reports\<close>

definition counter_of :: "string \<Rightarrow> Report \<Rightarrow> int" where
  "counter_of key r = (case od_get (rp_counters r) key of None \<Rightarrow> 0 | Some v \<Rightarrow> v)"

definition detector_entries :: "Report \<Rightarrow> (string, int) odict" where
  "detector_entries r = (case rp_detector r of None \<Rightarrow> [] | Some d \<Rightarrow> d)"

definition detector_counter :: "string \<Rightarrow> Report \<Rightarrow> int" where
  "detector_counter key r = (case od_get (detector_entries r) key of None \<Rightarrow> 0 | Some v \<Rightarrow> v)"

definition sum_counter :: "string \<Rightarrow> Report list \<Rightarrow> int" where
  "sum_counter key rs = sum_list (map (counter_of key) rs)"

definition sum_detector :: "string \<Rightarrow> Report list \<Rightarrow> int" where
  "sum_detector key rs = sum_list (map (detector_counter key) rs)"

definition health_keys :: "string list" where
  "health_keys =
     [''operational_queue_drops'', ''tcp_gap_bytes'', ''tcp_overlap_conflicts'', ''tcp_evicted_flows'',
      ''tcp_budget_evicted_flows'', ''tcp_buffered_segments'', ''tcp_peak_buffered_segments'',
      ''tcp_max_buffered_segments'', ''fragment_evicted_datagrams'', ''fragment_expired_datagrams'',
      ''fragment_overlap_conflicts'', ''fragment_malformed'', ''fragment_active_datagrams'',
      ''fragment_buffered_bytes'', ''fragment_buffered_ranges'', ''fragment_peak_buffered_ranges'',
      ''fragment_max_buffered_ranges'', ''fragment_buffered_provenance_entries'',
      ''fragment_peak_buffered_provenance_entries'', ''fragment_max_buffered_provenance_entries'',
      ''truncated_packets'', ''truncated_missing_bytes'']"

text \<open>The detector counters with a total of their own name: \<open>total = ''detector_'' + name\<close>.\<close>

definition detector_keys :: "string list" where
  "detector_keys =
     [''metadata_entries'', ''peak_metadata_entries'', ''max_metadata_entries'', ''metadata_cap_evicted_flows'',
      ''metadata_cap_pressure_events'', ''metadata_cap_saturated'', ''provenance_spans'', ''peak_provenance_spans'',
      ''max_provenance_spans'', ''provenance_packet_id_refs'', ''peak_provenance_packet_id_refs'',
      ''max_provenance_packet_id_refs'', ''provenance_cap_pressure_events'', ''provenance_cap_evicted_flows'',
      ''provenance_cap_evicted_spans'', ''provenance_cap_evicted_packet_id_refs'', ''provenance_cap_trimmed_spans'',
      ''provenance_cap_trimmed_packet_id_refs'', ''provenance_packet_ids_truncated'',
      ''provenance_pending_ids_truncated'', ''provenance_incomplete_findings'', ''pending_auth_bytes'',
      ''peak_pending_auth_bytes'', ''pending_auth_objects'', ''peak_pending_auth_objects'',
      ''pending_auth_cap_pressure_events'', ''pending_auth_cap_evicted_flows'', ''pending_auth_cap_evicted_objects'',
      ''pending_auth_cap_evicted_bytes'', ''pending_auth_cap_dropped_objects'', ''pending_auth_cap_dropped_bytes'',
      ''ntlm_correlation_bytes'', ''peak_ntlm_correlation_bytes'', ''max_ntlm_correlation_bytes'',
      ''ntlm_correlation_objects'', ''peak_ntlm_correlation_objects'', ''max_ntlm_correlation_objects'',
      ''ntlm_correlation_cap_pressure_events'', ''ntlm_correlation_cap_evicted_objects'',
      ''ntlm_correlation_cap_evicted_bytes'', ''ntlm_correlation_cap_dropped_objects'']"

definition detector_summary_keys :: "string list" where
  "detector_summary_keys = [''evicted_flows'', ''byte_cap_evicted_flows'', ''tail_bytes_trimmed'', ''parser_errors'']"

definition starts_with :: "string \<Rightarrow> string \<Rightarrow> bool" where
  "starts_with s p \<longleftrightarrow> take (length p) s = p"

definition reported_detector_counters :: "Report list \<Rightarrow> string list" where
  "reported_detector_counters rs =
     sort (remdups (filter (\<lambda>n. starts_with n ''http_'' \<or> starts_with n ''coverage_'' \<or> starts_with n ''tls_opaque_'')
       (concat (map (\<lambda>r. od_keys (detector_entries r)) rs))))"

definition put_detector_total :: "Report list \<Rightarrow> string \<Rightarrow> (string, int) odict \<Rightarrow> (string, int) odict" where
  "put_detector_total rs name totals = od_put (''detector_'' @ name) (sum_detector name rs) totals"

text \<open>The dictionary \<open>worker_health_totals\<close> in the order in which the code fills it.\<close>

definition worker_health_totals :: "Report list \<Rightarrow> QueueHealth \<Rightarrow> (string, int) odict" where
  "worker_health_totals rs health =
     (let t0 = map (\<lambda>key. (key, sum_counter key rs)) health_keys;
          t1 = fold (put_detector_total rs) detector_summary_keys t0;
          t2 = fold (put_detector_total rs) (reported_detector_counters rs) t1;
          t3 = fold (put_detector_total rs) detector_keys t2;
          t4 = od_put ''worker_queue_current_bytes'' (qh_current_bytes health) t3;
          t5 = od_put ''worker_queue_peak_bytes_sum'' (qh_peak_bytes_sum health) t4;
          t6 = od_put ''worker_queue_max_bytes_total'' (qh_max_bytes_total health) t5;
          t7 = od_put ''worker_queue_byte_budget_dropped_packets'' (qh_byte_budget_dropped_packets health) t6 in
      od_put ''worker_queue_byte_budget_dropped_bytes'' (qh_byte_budget_dropped_bytes health) t7)"

text \<open>The totals that make a session incomplete when they are not zero.\<close>

definition loss_keys :: "string list" where
  "loss_keys =
     [''operational_queue_drops'', ''tcp_gap_bytes'', ''tcp_overlap_conflicts'', ''tcp_evicted_flows'',
      ''tcp_budget_evicted_flows'', ''fragment_evicted_datagrams'', ''fragment_expired_datagrams'',
      ''fragment_overlap_conflicts'', ''fragment_malformed'', ''fragment_active_datagrams'', ''truncated_packets'',
      ''detector_evicted_flows'', ''detector_byte_cap_evicted_flows'', ''detector_tail_bytes_trimmed'',
      ''detector_parser_errors'', ''detector_metadata_cap_evicted_flows'', ''detector_metadata_cap_saturated'',
      ''detector_provenance_cap_pressure_events'', ''detector_provenance_cap_evicted_flows'',
      ''detector_provenance_cap_evicted_spans'', ''detector_provenance_cap_evicted_packet_id_refs'',
      ''detector_provenance_cap_trimmed_spans'', ''detector_provenance_cap_trimmed_packet_id_refs'',
      ''detector_provenance_packet_ids_truncated'', ''detector_provenance_pending_ids_truncated'',
      ''detector_provenance_incomplete_findings'', ''detector_pending_auth_cap_pressure_events'',
      ''detector_pending_auth_cap_evicted_flows'', ''detector_pending_auth_cap_evicted_objects'',
      ''detector_pending_auth_cap_evicted_bytes'', ''detector_pending_auth_cap_dropped_objects'',
      ''detector_pending_auth_cap_dropped_bytes'', ''detector_ntlm_correlation_cap_pressure_events'',
      ''detector_ntlm_correlation_cap_evicted_objects'', ''detector_ntlm_correlation_cap_evicted_bytes'',
      ''detector_ntlm_correlation_cap_dropped_objects'']"

section \<open>What the shutdown meets\<close>

record FinalStats = CaptureStats +
  st_received_minus_captured :: "int option"

type_synonym items = "(control_item \<times> int) list"

text \<open>Notification, statistics and close of the source; the raw ring; the stop markers; the rounds of the wait for
  the workers (items drained, deadline reached, writer gone); each worker's end (alive, exit code, telemetry full);
  the control items of the two final waits; the three last puts and the writer's end.\<close>

record shutdown_env =
  se_notify :: notify_env
  se_notify_full :: bool
  se_stats :: "CaptureStats result"
  se_close :: "unit result"
  se_raw_running :: bool
  se_raw_full :: bool
  se_worker_puts :: "(bool \<times> items) list list"
  se_rounds :: "(items \<times> bool \<times> bool) list"
  se_ends :: "(bool \<times> int option \<times> bool) list"
  se_wait_workers :: "items list"
  se_record_puts :: "(bool \<times> items) list"
  se_finding_puts :: "(bool \<times> items) list"
  se_operational_puts :: "(bool \<times> items) list"
  se_writer_alive :: bool
  se_writer_exitcode :: "int option"
  se_wait_writer :: "items list"

definition mark_if :: "bool \<Rightarrow> string \<Rightarrow> Supervisor \<Rightarrow> Supervisor" where
  "mark_if b reason s = (if b then mark_incomplete reason s else s)"

section \<open>Stopping\<close>

definition stop_watchdog :: "shutdown_env \<Rightarrow> ServiceWatchdog \<Rightarrow> Supervisor \<Rightarrow> Supervisor" where
  "stop_watchdog env w s =
     (case snd (stopping (se_notify env) w) of
        Inl (ServiceWatchdogError m) \<Rightarrow>
          sv_operation (se_notify_full env) ''service_watchdog_error''
            (mark_incomplete (''service watchdog shutdown notification failed: '' @ m) s)
      | _ \<Rightarrow> s)"

definition no_stats :: FinalStats where
  "no_stats = \<lparr>st_received = None, st_dropped = None, st_interface_dropped = None, st_received_minus_captured = None\<rparr>"

definition final_capture_stats :: "shutdown_env \<Rightarrow> Supervisor \<Rightarrow> Supervisor \<times> FinalStats" where
  "final_capture_stats env s =
     (case se_stats env of
        Inr stats \<Rightarrow>
          (s, \<lparr>st_received = st_received stats, st_dropped = st_dropped stats,
               st_interface_dropped = st_interface_dropped stats,
               st_received_minus_captured =
                 (case st_received stats of
                    Some received \<Rightarrow> if sv_offline s then None else Some (received - cs_captured_packets (sv_capture s))
                  | None \<Rightarrow> None)\<rparr>)
      | Inl e \<Rightarrow> (mark_incomplete (''final capture statistics unavailable: '' @ error_name e) s, no_stats))"

definition stop_raw_ring :: "shutdown_env \<Rightarrow> Supervisor \<Rightarrow> Supervisor" where
  "stop_raw_ring env s =
     (if sv_raw_capture_enabled s
      then mark_if (\<not> sv_offline s \<and> \<not> se_raw_running env) ''independent raw capture ring was not running at shutdown''
             (sv_operation (se_raw_full env) ''raw_capture_stopped'' s)
      else s)"

text \<open>\<open>if not self._put_until(\<dots>): self._mark_incomplete(\<dots>)\<close>\<close>

definition put_or_mark :: "(bool \<times> items) list \<Rightarrow> string \<Rightarrow> Supervisor \<Rightarrow> Supervisor" where
  "put_or_mark attempts reason s = (let (s1, accepted) = put_until attempts s in mark_if (\<not> accepted) reason s1)"

fun stop_workers :: "nat \<Rightarrow> (bool \<times> items) list list \<Rightarrow> Supervisor \<Rightarrow> Supervisor" where
  "stop_workers w [] s = s"
| "stop_workers w (attempts # rest) s =
     stop_workers (Suc w) rest
       (put_or_mark attempts (''worker '' @ str_nat w @ '' queue did not accept the graceful-stop marker'') s)"

text \<open>The wait while a worker is alive; the list ends when none is.\<close>

fun drain_workers :: "(items \<times> bool \<times> bool) list \<Rightarrow> Supervisor \<Rightarrow> Supervisor" where
  "drain_workers [] s = s"
| "drain_workers ((items, deadline, writer_gone) # rounds) s =
     (let s1 = drain_control items s in
      if deadline then s1
      else if writer_gone then mark_incomplete ''evidence writer stopped while workers were draining'' s1
      else drain_workers rounds s1)"

definition process_name :: "nat \<Rightarrow> string" where
  "process_name w = ''packet-audit-worker-'' @ str_nat w"

fun reap_workers :: "nat \<Rightarrow> (bool \<times> int option \<times> bool) list \<Rightarrow> Supervisor \<Rightarrow> Supervisor" where
  "reap_workers w [] s = s"
| "reap_workers w ((alive, exitcode, full) # rest) s =
     reap_workers (Suc w) rest
       (if alive
        then sv_operation full ''worker_forced_termination''
               (mark_incomplete (process_name w @ '' required forced termination'') s)
        else mark_if (exitcode \<noteq> Some 0) (process_name w @ '' exited with code '' @ str_opt_int exitcode) s)"

section \<open>Reconciliation\<close>

definition coverage_limited :: "string \<Rightarrow> bool" where
  "coverage_limited name \<longleftrightarrow> name \<noteq> ''http_framed_requests'' \<and> \<not> starts_with name ''tls_opaque_''"

definition mark_coverage :: "Report list \<Rightarrow> string \<Rightarrow> Supervisor \<Rightarrow> Supervisor" where
  "mark_coverage rs name s =
     (let count = sum_detector name rs; family = (if starts_with name ''http_'' then ''HTTP'' else ''Protocol'') in
      mark_if (count \<noteq> 0 \<and> coverage_limited name) (family @ '' coverage limitation '' @ name @ ''='' @ str_int count) s)"

definition mark_loss :: "(string, int) odict \<Rightarrow> string \<Rightarrow> Supervisor \<Rightarrow> Supervisor" where
  "mark_loss totals key s =
     (let count = (case od_get totals key of None \<Rightarrow> 0 | Some v \<Rightarrow> v) in
      mark_if (count \<noteq> 0) (''worker health counter '' @ key @ ''='' @ str_int count) s)"

definition mark_live_delivery :: "FinalStats \<Rightarrow> Supervisor \<Rightarrow> Supervisor" where
  "mark_live_delivery st s =
     (let captured = cs_captured_packets (sv_capture s) in
      if sv_offline s then s
      else
        (case (st_received st, st_dropped st) of
           (Some received, Some dropped) \<Rightarrow>
             mark_if (received - dropped \<noteq> captured)
               (''final live capture accounting mismatch: libpcap_received='' @ str_int received
                @ '', libpcap_dropped='' @ str_int dropped @ '', captured='' @ str_int captured
                @ '', received_minus_captured='' @ str_opt_int (st_received_minus_captured st)
                @ ''; capture delivery at shutdown is unresolved'') s
         | _ \<Rightarrow> mark_incomplete
                ''final live libpcap receive/drop statistics unavailable; capture delivery cannot be reconciled'' s))"

definition mark_drop_counter :: "string \<Rightarrow> int option \<Rightarrow> Supervisor \<Rightarrow> Supervisor" where
  "mark_drop_counter name v s =
     mark_if (v \<noteq> None \<and> v \<noteq> Some 0) (name @ '' reported '' @ str_opt_int v @ '' dropped packets'') s"

definition accounted_packets :: "CaptureState \<Rightarrow> int" where
  "accounted_packets cs =
     (let d = cs_dispatcher cs in
      dx_dispatched_packets d + dx_suppressed_packets d + dx_userspace_queue_drops d + cs_capture_parse_errors cs
      + cs_capture_ignored_packets cs)"

text \<open>The tests from the worker acknowledgements to the libpcap counters, in order.\<close>

definition reconcile :: "Report list \<Rightarrow> QueueHealth \<Rightarrow> FinalStats \<Rightarrow> Supervisor \<Rightarrow> Supervisor" where
  "reconcile rs health st s =
     (let cs = sv_capture s; d = cs_dispatcher cs; ro = cs_router cs;
          processed = sum_counter ''packets'' rs; parser_errors = sum_counter ''parser_errors'' rs;
          totals = worker_health_totals rs health;
          s1 = fold (mark_coverage rs) (reported_detector_counters rs) s;
          s2 = mark_if (processed \<noteq> dx_dispatched_packets d)
                 (''worker acknowledgement mismatch: processed='' @ str_int processed @ '', dispatched=''
                  @ str_int (dx_dispatched_packets d)) s1;
          s3 = mark_if (parser_errors \<noteq> 0)
                 (''workers reported '' @ str_int parser_errors @ '' malformed-packet/parser errors'') s2;
          s4 = fold (mark_loss totals) loss_keys s3;
          s5 = mark_if (dx_userspace_queue_drops d \<noteq> 0)
                 (''userspace analysis queues dropped '' @ str_int (dx_userspace_queue_drops d) @ '' packets'') s4;
          s6 = mark_if (accounted_packets cs \<noteq> cs_captured_packets cs)
                 (''capture-to-analysis accounting mismatch: captured='' @ str_int (cs_captured_packets cs)
                  @ '', accounted='' @ str_int (accounted_packets cs)) s5;
          s7 = mark_if (dx_byte_budget_dropped_packets d \<noteq> 0)
                 (''worker queue byte budgets dropped '' @ str_int (dx_byte_budget_dropped_packets d) @ '' packets / ''
                  @ str_int (dx_byte_budget_dropped_bytes d) @ '' captured bytes'') s6;
          s8 = mark_if (qh_current_bytes health \<noteq> 0)
                 (''worker queue byte reservations remained at shutdown: '' @ str_int (qh_current_bytes health) @ '' bytes'') s7;
          s9 = mark_if (\<exists>n \<in> set (qh_outstanding_batches_by_worker health). n \<noteq> 0)
                 ''worker queue batch reservations remained at shutdown'' s8;
          s10 = mark_if (cs_capture_parse_errors cs \<noteq> 0)
                 (''capture parser rejected '' @ str_int (cs_capture_parse_errors cs) @ '' packets'') s9;
          s11 = mark_if (dx_operational_queue_drops d \<noteq> 0)
                 (''operational telemetry queue dropped '' @ str_int (dx_operational_queue_drops d) @ '' events'') s10;
          s12 = mark_if (ro_fragment_route_evictions ro \<noteq> 0)
                 (''fragment route table evicted '' @ str_int (ro_fragment_route_evictions ro) @ '' entries'') s11;
          s13 = mark_if (ro_flow_route_override_evictions ro \<noteq> 0)
                 (''fragment-derived flow route table evicted '' @ str_int (ro_flow_route_override_evictions ro) @ '' entries'') s12;
          s14 = mark_if (ro_fragment_route_fallbacks ro \<noteq> 0)
                 (''fragment routing lacked a first-fragment flow hint for '' @ str_int (ro_fragment_route_fallbacks ro)
                  @ '' datagrams'') s13;
          s15 = mark_live_delivery st s14;
          s16 = mark_drop_counter ''libpcap_dropped'' (st_dropped st) s15 in
      mark_drop_counter ''interface_dropped'' (st_interface_dropped st) s16)"

section \<open>The writer's end and the summary\<close>

definition join_writer :: "shutdown_env \<Rightarrow> Supervisor \<Rightarrow> Supervisor" where
  "join_writer env s =
     (if sv_writer s = None then s
      else if se_writer_alive env then mark_incomplete ''evidence writer required forced termination'' s
      else mark_if (se_writer_exitcode env \<noteq> Some 0)
             (''evidence writer exited with code '' @ str_opt_int (se_writer_exitcode env)) s)"

text \<open>The acknowledged count and digest; the count stays 0 without an acknowledgement.\<close>

definition writer_acknowledgement :: "Supervisor \<Rightarrow> Supervisor \<times> int \<times> string option" where
  "writer_acknowledgement s =
     (case sv_writer_report s of
        None \<Rightarrow> (mark_incomplete ''evidence writer did not acknowledge a durable close'' s, 0, None)
      | Some r \<Rightarrow>
          if rp_state r \<noteq> ''stopped''
          then (mark_incomplete ''evidence writer did not acknowledge a durable close'' s, 0, None)
          else (s, counter_of ''findings_written'' r, rp_sha256 r))"

definition finish_writer :: "shutdown_env \<Rightarrow> int \<Rightarrow> Supervisor \<Rightarrow> Supervisor \<times> int \<times> string option" where
  "finish_writer env emitted s =
     (let s1 = put_or_mark (se_record_puts env) ''session-stop record was not accepted by the writer queue'' s;
          s2 = put_or_mark (se_finding_puts env) ''finding writer did not accept its graceful-stop marker'' s1;
          s3 = put_or_mark (se_operational_puts env) ''operational writer did not accept its graceful-stop marker'' s2;
          s4 = drain_control_wait (se_wait_writer env) (join_writer env s3);
          (s5, written, digest) = writer_acknowledgement s4 in
      (mark_if (written \<noteq> emitted)
         (''finding acknowledgement mismatch: written='' @ str_int written @ '', emitted='' @ str_int emitted) s5,
       written, digest))"

text \<open>The entries of the returned dictionary that the shutdown computes.\<close>

record Summary =
  sm_worker_packets_processed :: int
  sm_worker_findings_emitted :: int
  sm_worker_parser_errors :: int
  sm_worker_health_totals :: "(string, int) odict"
  sm_worker_queue_byte_health :: QueueHealth
  sm_writer_findings_written :: int
  sm_session_findings_sha256 :: "string option"
  sm_stats :: FinalStats
  sm_verdict :: string
  sm_incomplete_reasons :: "string list"

definition worker_report_list :: "Supervisor \<Rightarrow> Report list" where
  "worker_report_list s = map snd (sv_worker_reports s)"

text \<open>The workers stop: everything before the reports are added up.\<close>

definition stop_children :: "shutdown_env \<Rightarrow> Supervisor \<Rightarrow> Supervisor" where
  "stop_children env s =
     (let s1 = stop_raw_ring env s;
          s2 = stop_workers 0 (se_worker_puts env) s1;
          s3 = drain_workers (se_rounds env) s2;
          s4 = reap_workers 0 (se_ends env) s3 in
      validate_worker_stopped_acknowledgements (drain_control_wait (se_wait_workers env) s4))"

text \<open>The whole clause: \<open>source.close()\<close> may raise, and then nothing after it happens.\<close>

definition shutdown :: "shutdown_env \<Rightarrow> ServiceWatchdog \<Rightarrow> Supervisor \<Rightarrow> Supervisor \<times> Summary result" where
  "shutdown env w s =
     (let s1 = stop_watchdog env w s;
          (s2, st) = final_capture_stats env s1 in
      case se_close env of
        Inl e \<Rightarrow> (s2, Inl e)
      | Inr _ \<Rightarrow>
          let s3 = stop_children env s2;
              health = worker_queue_byte_health (cs_dispatcher (sv_capture s3));
              rs = worker_report_list s3;
              s4 = reconcile rs health st s3;
              emitted = sum_counter ''findings'' rs;
              (s5, written, digest) = finish_writer env emitted s4 in
          (s5, Inr \<lparr>sm_worker_packets_processed = sum_counter ''packets'' rs, sm_worker_findings_emitted = emitted,
                    sm_worker_parser_errors = sum_counter ''parser_errors'' rs,
                    sm_worker_health_totals = worker_health_totals rs health, sm_worker_queue_byte_health = health,
                    sm_writer_findings_written = written, sm_session_findings_sha256 = digest, sm_stats = st,
                    sm_verdict = (if sv_incomplete_reasons s5 = [] then ''complete'' else ''incomplete''),
                    sm_incomplete_reasons = sv_incomplete_reasons s5\<rparr>))"

section \<open>Reasons and frames\<close>

text \<open>For each operation of the shutdown: when it leaves the list of reasons empty, and what it does not touch.\<close>

named_theorems clean \<open>when an operation adds no reason\<close>

lemma mark_incomplete_clean [clean]: "sv_incomplete_reasons (mark_incomplete r s) = [] \<longleftrightarrow> False"
  by simp

lemma mark_if_clean [clean]: "sv_incomplete_reasons (mark_if b r s) = [] \<longleftrightarrow> \<not> b \<and> sv_incomplete_reasons s = []"
  by (simp add: mark_if_def)

lemma mark_if_frame [frame]:
  "sv_workers (mark_if b r s) = sv_workers s"
  "sv_writer (mark_if b r s) = sv_writer s"
  "sv_worker_reports (mark_if b r s) = sv_worker_reports s"
  "sv_writer_report (mark_if b r s) = sv_writer_report s"
  "sv_capture (mark_if b r s) = sv_capture s"
  "sv_raw_capture_enabled (mark_if b r s) = sv_raw_capture_enabled s"
  "sv_worker_restarts (mark_if b r s) = sv_worker_restarts s"
  by (simp_all add: mark_if_def frame)

lemma sv_offline_frame [frame]:
  "sv_offline (mark_incomplete r s) = sv_offline s"
  "sv_offline (mark_if b r s) = sv_offline s"
  "sv_offline (sv_operation b e s) = sv_offline s"
  "sv_offline (drain_control is s) = sv_offline s"
  by (simp_all add: sv_offline_def sv_operation_def operation_def frame)

lemma drain_control_wait_frame [frame]:
  "sv_workers (drain_control_wait rounds s) = sv_workers s"
  "sv_writer (drain_control_wait rounds s) = sv_writer s"
  "sv_incomplete_reasons (drain_control_wait rounds s) = sv_incomplete_reasons s"
  "sv_capture (drain_control_wait rounds s) = sv_capture s"
  by (simp_all add: drain_control_wait_def fold_frame drain_control_frame)

lemma put_until_frame [frame]:
  "sv_workers (fst (put_until attempts s)) = sv_workers s"
  "sv_writer (fst (put_until attempts s)) = sv_writer s"
  "sv_incomplete_reasons (fst (put_until attempts s)) = sv_incomplete_reasons s"
  "sv_capture (fst (put_until attempts s)) = sv_capture s"
  by (induction attempts s rule: put_until.induct) (simp_all add: frame)

text \<open>A put succeeds when one of the attempts before its deadline does.\<close>

definition accepted :: "(bool \<times> items) list \<Rightarrow> bool" where
  "accepted attempts \<longleftrightarrow> (\<exists>attempt \<in> set attempts. fst attempt)"

lemma put_until_accepted [simp]: "snd (put_until attempts s) = accepted attempts"
  by (induction attempts s rule: put_until.induct) (simp_all add: accepted_def)

lemma put_or_mark_clean [clean]:
  "sv_incomplete_reasons (put_or_mark attempts r s) = [] \<longleftrightarrow> accepted attempts \<and> sv_incomplete_reasons s = []"
  by (auto simp: put_or_mark_def clean frame split_beta)

lemma put_or_mark_frame [frame]:
  "sv_workers (put_or_mark attempts r s) = sv_workers s" "sv_writer (put_or_mark attempts r s) = sv_writer s"
  "sv_capture (put_or_mark attempts r s) = sv_capture s"
  by (simp_all add: put_or_mark_def frame split_beta)

lemma stop_watchdog_clean [clean]:
  "sv_incomplete_reasons (stop_watchdog env w s) = [] \<longleftrightarrow>
     snd (stopping (se_notify env) w) = Inr () \<and> sv_incomplete_reasons s = []"
  by (auto simp: stop_watchdog_def stopping_def send_def clean frame split: sum.splits py_error.splits prod.splits)

lemma final_capture_stats_clean [clean]:
  "sv_incomplete_reasons (fst (final_capture_stats env s)) = [] \<longleftrightarrow>
     (\<exists>stats. se_stats env = Inr stats) \<and> sv_incomplete_reasons s = []"
  by (auto simp: final_capture_stats_def clean split: sum.splits)

lemma stop_watchdog_frame [frame]:
  "sv_workers (stop_watchdog env w s) = sv_workers s" "sv_writer (stop_watchdog env w s) = sv_writer s"
  "sv_raw_capture_enabled (stop_watchdog env w s) = sv_raw_capture_enabled s"
  "sv_offline (stop_watchdog env w s) = sv_offline s"
  by (auto simp: stop_watchdog_def frame split: sum.splits py_error.splits)

lemma final_capture_stats_frame [frame]:
  "sv_workers (fst (final_capture_stats env s)) = sv_workers s"
  "sv_writer (fst (final_capture_stats env s)) = sv_writer s"
  "sv_raw_capture_enabled (fst (final_capture_stats env s)) = sv_raw_capture_enabled s"
  "sv_offline (fst (final_capture_stats env s)) = sv_offline s"
  "sv_capture (fst (final_capture_stats env s)) = sv_capture s"
  by (auto simp: final_capture_stats_def frame split: sum.splits)

lemma stop_raw_ring_clean [clean]:
  "sv_incomplete_reasons (stop_raw_ring env s) = [] \<longleftrightarrow>
     (sv_raw_capture_enabled s \<longrightarrow> sv_offline s \<or> se_raw_running env) \<and> sv_incomplete_reasons s = []"
  by (auto simp: stop_raw_ring_def clean frame)

lemma stop_raw_ring_frame [frame]:
  "sv_workers (stop_raw_ring env s) = sv_workers s" "sv_writer (stop_raw_ring env s) = sv_writer s"
  "sv_offline (stop_raw_ring env s) = sv_offline s"
  by (simp_all add: stop_raw_ring_def frame)

lemma stop_workers_clean [clean]:
  "sv_incomplete_reasons (stop_workers w puts s) = [] \<longleftrightarrow> (\<forall>attempts \<in> set puts. accepted attempts) \<and> sv_incomplete_reasons s = []"
  by (induction w puts s rule: stop_workers.induct) (auto simp: clean)

lemma stop_workers_frame [frame]:
  "sv_workers (stop_workers w puts s) = sv_workers s" "sv_writer (stop_workers w puts s) = sv_writer s"
  "sv_offline (stop_workers w puts s) = sv_offline s"
  by (induction w puts s rule: stop_workers.induct) (simp_all add: frame sv_offline_def)

text \<open>The wait for the workers notices the writer's end before the deadline.\<close>

fun writer_lost :: "(items \<times> bool \<times> bool) list \<Rightarrow> bool" where
  "writer_lost [] \<longleftrightarrow> False"
| "writer_lost ((items, deadline, writer_gone) # rounds) \<longleftrightarrow> \<not> deadline \<and> (writer_gone \<or> writer_lost rounds)"

lemma drain_workers_clean [clean]:
  "sv_incomplete_reasons (drain_workers rounds s) = [] \<longleftrightarrow> \<not> writer_lost rounds \<and> sv_incomplete_reasons s = []"
  by (induction rounds s rule: drain_workers.induct) (auto simp: clean frame Let_def)

lemma drain_workers_frame [frame]:
  "sv_workers (drain_workers rounds s) = sv_workers s" "sv_writer (drain_workers rounds s) = sv_writer s"
  "sv_offline (drain_workers rounds s) = sv_offline s"
  by (induction rounds s rule: drain_workers.induct) (simp_all add: frame Let_def)

definition exited_cleanly :: "bool \<times> int option \<times> bool \<Rightarrow> bool" where
  "exited_cleanly ending \<longleftrightarrow> (case ending of (alive, exitcode, full) \<Rightarrow> \<not> alive \<and> exitcode = Some 0)"

lemma reap_workers_clean [clean]:
  "sv_incomplete_reasons (reap_workers w ends s) = [] \<longleftrightarrow> (\<forall>e \<in> set ends. exited_cleanly e) \<and> sv_incomplete_reasons s = []"
  by (induction w ends s rule: reap_workers.induct) (auto simp: clean frame exited_cleanly_def)

lemma reap_workers_frame [frame]:
  "sv_workers (reap_workers w ends s) = sv_workers s" "sv_writer (reap_workers w ends s) = sv_writer s"
  "sv_offline (reap_workers w ends s) = sv_offline s"
  by (induction w ends s rule: reap_workers.induct) (simp_all add: frame)

lemma validate_stopped_frame [frame]:
  "sv_workers (validate_stopped w s) = sv_workers s" "sv_writer (validate_stopped w s) = sv_writer s"
  "sv_worker_reports (validate_stopped w s) = sv_worker_reports s" "sv_capture (validate_stopped w s) = sv_capture s"
  "worker_state (validate_stopped w s) i = worker_state s i"
  by (simp_all add: validate_stopped_def frame worker_state_def)

lemma fold_validate_clean:
  "sv_incomplete_reasons (fold validate_stopped ws s) = [] \<longleftrightarrow>
     (\<forall>w \<in> set ws. worker_state s w = Some ''stopped'') \<and> sv_incomplete_reasons s = []"
proof (induction ws arbitrary: s)
  case (Cons w ws)
  have "sv_incomplete_reasons (validate_stopped w s) = [] \<longleftrightarrow>
      worker_state s w = Some ''stopped'' \<and> sv_incomplete_reasons s = []"
    by (simp add: validate_stopped_def clean)
  with Cons.IH [of "validate_stopped w s"] show ?case by (auto simp: frame)
qed simp

lemma validate_clean [clean]:
  "sv_incomplete_reasons (validate_worker_stopped_acknowledgements s) = [] \<longleftrightarrow>
     (\<forall>w < length (sv_workers s). worker_state s w = Some ''stopped'') \<and> sv_incomplete_reasons s = []"
  by (auto simp: validate_worker_stopped_acknowledgements_def fold_validate_clean)

lemma validate_frame [frame]:
  "sv_workers (validate_worker_stopped_acknowledgements s) = sv_workers s"
  "sv_writer (validate_worker_stopped_acknowledgements s) = sv_writer s"
  "sv_worker_reports (validate_worker_stopped_acknowledgements s) = sv_worker_reports s"
  "sv_capture (validate_worker_stopped_acknowledgements s) = sv_capture s"
  "worker_state (validate_worker_stopped_acknowledgements s) i = worker_state s i"
  by (simp_all add: validate_worker_stopped_acknowledgements_def fold_frame validate_stopped_frame
      fold_frame [of "\<lambda>s. worker_state s i"])

section \<open>Reconciliation\<close>

lemma fold_mark_clean:
  assumes "\<And>x s. sv_incomplete_reasons (f x s) = [] \<longleftrightarrow> P x \<and> sv_incomplete_reasons s = []"
  shows "sv_incomplete_reasons (fold f xs s) = [] \<longleftrightarrow> (\<forall>x \<in> set xs. P x) \<and> sv_incomplete_reasons s = []"
  by (induction xs arbitrary: s) (auto simp: assms)

lemma mark_coverage_clean [clean]:
  "sv_incomplete_reasons (fold (mark_coverage rs) names s) = [] \<longleftrightarrow>
     (\<forall>name \<in> set names. coverage_limited name \<longrightarrow> sum_detector name rs = 0) \<and> sv_incomplete_reasons s = []"
  by (rule fold_mark_clean) (auto simp: mark_coverage_def clean Let_def)

definition total_of :: "(string, int) odict \<Rightarrow> string \<Rightarrow> int" where
  "total_of totals key = (case od_get totals key of None \<Rightarrow> 0 | Some v \<Rightarrow> v)"

lemma mark_loss_clean [clean]:
  "sv_incomplete_reasons (fold (mark_loss totals) keys s) = [] \<longleftrightarrow>
     (\<forall>key \<in> set keys. total_of totals key = 0) \<and> sv_incomplete_reasons s = []"
  by (rule fold_mark_clean) (auto simp: mark_loss_def total_of_def clean Let_def)

lemma mark_fold_capture [frame]:
  "sv_capture (fold (mark_coverage rs) names s) = sv_capture s" "sv_capture (fold (mark_loss totals) names s) = sv_capture s"
  by (rule fold_frame, simp add: mark_coverage_def mark_loss_def frame Let_def)+

lemma mark_fold_writer [frame]:
  "sv_writer (fold (mark_coverage rs) names s) = sv_writer s" "sv_writer (fold (mark_loss totals) names s) = sv_writer s"
  by (rule fold_frame, simp add: mark_coverage_def mark_loss_def frame Let_def)+

text \<open>The capture library's own counters agree with what was captured, in a live session.\<close>

definition delivered :: "FinalStats \<Rightarrow> int \<Rightarrow> bool" where
  "delivered st captured \<longleftrightarrow>
     (case (st_received st, st_dropped st) of (Some received, Some dropped) \<Rightarrow> received - dropped = captured | _ \<Rightarrow> False)"

lemma mark_live_delivery_clean [clean]:
  "sv_incomplete_reasons (mark_live_delivery st s) = [] \<longleftrightarrow>
     (sv_offline s \<or> delivered st (cs_captured_packets (sv_capture s))) \<and> sv_incomplete_reasons s = []"
  by (auto simp: mark_live_delivery_def delivered_def clean Let_def split: option.split)

lemma mark_drop_counter_clean [clean]:
  "sv_incomplete_reasons (mark_drop_counter name v s) = [] \<longleftrightarrow> (v = None \<or> v = Some 0) \<and> sv_incomplete_reasons s = []"
  by (auto simp: mark_drop_counter_def clean)

lemma mark_live_frame [frame]:
  "sv_writer (mark_live_delivery st s) = sv_writer s" "sv_capture (mark_live_delivery st s) = sv_capture s"
  "sv_writer (mark_drop_counter name v s) = sv_writer s" "sv_capture (mark_drop_counter name v s) = sv_capture s"
  by (simp_all add: mark_live_delivery_def mark_drop_counter_def frame Let_def split: option.split)

text \<open>Every test of the reconciliation passes.\<close>

definition reconciled :: "Report list \<Rightarrow> QueueHealth \<Rightarrow> FinalStats \<Rightarrow> CaptureState \<Rightarrow> bool" where
  "reconciled rs health st cs \<longleftrightarrow>
     (let d = cs_dispatcher cs; ro = cs_router cs in
      sum_counter ''packets'' rs = dx_dispatched_packets d \<and> sum_counter ''parser_errors'' rs = 0
      \<and> (\<forall>key \<in> set loss_keys. total_of (worker_health_totals rs health) key = 0)
      \<and> (\<forall>name \<in> set (reported_detector_counters rs). coverage_limited name \<longrightarrow> sum_detector name rs = 0)
      \<and> dx_userspace_queue_drops d = 0 \<and> accounted_packets cs = cs_captured_packets cs
      \<and> dx_byte_budget_dropped_packets d = 0 \<and> qh_current_bytes health = 0
      \<and> (\<forall>n \<in> set (qh_outstanding_batches_by_worker health). n = 0)
      \<and> cs_capture_parse_errors cs = 0 \<and> dx_operational_queue_drops d = 0
      \<and> ro_fragment_route_evictions ro = 0 \<and> ro_flow_route_override_evictions ro = 0 \<and> ro_fragment_route_fallbacks ro = 0
      \<and> (dx_offline d \<or> delivered st (cs_captured_packets cs))
      \<and> (st_dropped st = None \<or> st_dropped st = Some 0) \<and> (st_interface_dropped st = None \<or> st_interface_dropped st = Some 0))"

lemma reconcile_clean [clean]:
  "sv_incomplete_reasons (reconcile rs health st s) = [] \<longleftrightarrow>
     reconciled rs health st (sv_capture s) \<and> sv_incomplete_reasons s = []"
  unfolding reconcile_def reconciled_def Let_def clean frame sv_offline_def by blast

lemma reconcile_frame [frame]:
  "sv_writer (reconcile rs health st s) = sv_writer s" "sv_capture (reconcile rs health st s) = sv_capture s"
  unfolding reconcile_def Let_def frame by simp_all

section \<open>The children and the writer\<close>

text \<open>The supervisor when the workers' reports are added up.\<close>

definition stopped_supervisor :: "shutdown_env \<Rightarrow> ServiceWatchdog \<Rightarrow> Supervisor \<Rightarrow> Supervisor" where
  "stopped_supervisor env w s = stop_children env (fst (final_capture_stats env (stop_watchdog env w s)))"

lemma stop_children_clean [clean]:
  "sv_incomplete_reasons (stop_children env s) = [] \<longleftrightarrow>
     (sv_raw_capture_enabled s \<longrightarrow> sv_offline s \<or> se_raw_running env)
     \<and> (\<forall>attempts \<in> set (se_worker_puts env). accepted attempts) \<and> \<not> writer_lost (se_rounds env)
     \<and> (\<forall>e \<in> set (se_ends env). exited_cleanly e)
     \<and> (\<forall>i < length (sv_workers s). worker_state (stop_children env s) i = Some ''stopped'')
     \<and> sv_incomplete_reasons s = []"
  unfolding stop_children_def Let_def clean frame by blast

lemma stop_children_frame [frame]:
  "sv_workers (stop_children env s) = sv_workers s" "sv_writer (stop_children env s) = sv_writer s"
  unfolding stop_children_def Let_def frame by simp_all

lemma join_writer_clean [clean]:
  "sv_incomplete_reasons (join_writer env s) = [] \<longleftrightarrow>
     (sv_writer s = None \<or> \<not> se_writer_alive env \<and> se_writer_exitcode env = Some 0) \<and> sv_incomplete_reasons s = []"
  by (auto simp: join_writer_def clean)

lemma join_writer_capture [frame]: "sv_capture (join_writer env s) = sv_capture s"
  by (simp add: join_writer_def frame)

text \<open>The writer's last report acknowledges the durable close and the number of findings.\<close>

definition acknowledged :: "Report option \<Rightarrow> int \<Rightarrow> bool" where
  "acknowledged report emitted \<longleftrightarrow>
     (\<exists>r. report = Some r \<and> rp_state r = ''stopped'' \<and> counter_of ''findings_written'' r = emitted)"

lemma finish_writer_report: "sv_writer_report (fst (finish_writer env emitted s)) =
    sv_writer_report (drain_control_wait (se_wait_writer env) (join_writer env
      (put_or_mark (se_operational_puts env) ''operational writer did not accept its graceful-stop marker''
        (put_or_mark (se_finding_puts env) ''finding writer did not accept its graceful-stop marker''
          (put_or_mark (se_record_puts env) ''session-stop record was not accepted by the writer queue'' s)))))"
  by (simp add: finish_writer_def writer_acknowledgement_def frame Let_def split: option.split)

lemma finish_writer_clean [clean]:
  "sv_incomplete_reasons (fst (finish_writer env emitted s)) = [] \<longleftrightarrow>
     accepted (se_record_puts env) \<and> accepted (se_finding_puts env) \<and> accepted (se_operational_puts env)
     \<and> (sv_writer s = None \<or> \<not> se_writer_alive env \<and> se_writer_exitcode env = Some 0)
     \<and> acknowledged (sv_writer_report (fst (finish_writer env emitted s))) emitted \<and> sv_incomplete_reasons s = []"
  unfolding finish_writer_report
  by (auto simp: finish_writer_def writer_acknowledgement_def acknowledged_def clean frame Let_def split: option.split)

lemma finish_writer_frame [frame]: "sv_capture (fst (finish_writer env emitted s)) = sv_capture s"
  by (simp add: finish_writer_def writer_acknowledgement_def frame Let_def split: option.split)

lemma finish_writer_written:
  "acknowledged (sv_writer_report (fst (finish_writer env emitted s))) emitted \<Longrightarrow>
     fst (snd (finish_writer env emitted s)) = emitted"
  unfolding finish_writer_report
  by (auto simp: finish_writer_def writer_acknowledgement_def acknowledged_def Let_def split: option.splits)

section \<open>The totals\<close>

text \<open>The loss counters, by where a report keeps them.\<close>

definition report_losses :: "string list" where
  "report_losses = filter (\<lambda>key. \<not> starts_with key ''detector_'') loss_keys"

definition detector_losses :: "string list" where
  "detector_losses = map (drop 9) (filter (\<lambda>key. starts_with key ''detector_'') loss_keys)"

lemma starts_with_detector [simp]: "starts_with (''detector_'' @ n) ''detector_''"
  by (simp add: starts_with_def)

lemma od_get_fold_detector:
  "od_get (fold (put_detector_total rs) names t) key =
     (if \<exists>n \<in> set names. key = ''detector_'' @ n then Some (sum_detector (drop 9 key) rs) else od_get t key)"
proof (induction names arbitrary: t)
  case (Cons n names)
  then show ?case by (auto simp: put_detector_total_def od_get_put simp del: append.simps) auto
qed simp

lemma health_keys_plain: "\<forall>key \<in> set health_keys. \<not> starts_with key ''detector_'' \<and> \<not> starts_with key ''worker_queue''"
  by (simp add: health_keys_def starts_with_def)

lemma totals_report:
  assumes "key \<in> set health_keys"
  shows "total_of (worker_health_totals rs health) key = sum_counter key rs"
proof -
  have "\<not> starts_with key ''detector_''" "\<not> starts_with key ''worker_queue''" using health_keys_plain assms by auto
  then have "\<forall>n. key \<noteq> ''detector_'' @ n" "key \<noteq> ''worker_queue_current_bytes''" "key \<noteq> ''worker_queue_peak_bytes_sum''"
    "key \<noteq> ''worker_queue_max_bytes_total''" "key \<noteq> ''worker_queue_byte_budget_dropped_packets''"
    "key \<noteq> ''worker_queue_byte_budget_dropped_bytes''"
    by (auto simp: starts_with_def)
  then show ?thesis
    using assms by (simp add: total_of_def worker_health_totals_def Let_def od_get_put od_get_fold_detector od_get_map_keys
        del: append.simps)
qed

lemma totals_detector:
  assumes "name \<in> set detector_summary_keys \<union> set detector_keys"
  shows "total_of (worker_health_totals rs health) (''detector_'' @ name) = sum_detector name rs"
  using assms by (auto simp: total_of_def worker_health_totals_def Let_def od_get_put od_get_fold_detector)

lemma report_losses_known: "set report_losses \<subseteq> set health_keys"
  by (simp add: report_losses_def loss_keys_def health_keys_def starts_with_def)

lemma detector_losses_known: "set detector_losses \<subseteq> set detector_summary_keys \<union> set detector_keys"
  by (simp add: detector_losses_def loss_keys_def detector_summary_keys_def detector_keys_def starts_with_def)

lemma starts_with_append: "starts_with key p \<Longrightarrow> p @ drop (length p) key = key"
  unfolding starts_with_def by (metis append_take_drop_id)

lemma detector_prefix: "starts_with key ''detector_'' \<Longrightarrow> ''detector_'' @ drop 9 key = key"
  by (drule starts_with_append) (simp add: eval_nat_numeral)

lemma loss_keys_split: "set loss_keys = set report_losses \<union> (\<lambda>n. ''detector_'' @ n) ` set detector_losses"
proof -
  have "(\<lambda>n. ''detector_'' @ n) ` set detector_losses = id ` {key \<in> set loss_keys. starts_with key ''detector_''}"
    unfolding detector_losses_def set_map set_filter image_image by (rule image_cong) (simp_all only: mem_Collect_eq detector_prefix id_apply)
  then show ?thesis unfolding report_losses_def by auto
qed

text \<open>No loss total is set exactly when the workers' and the detectors' counters add up to zero.\<close>

lemma losses_zero_iff:
  "(\<forall>key \<in> set loss_keys. total_of (worker_health_totals rs health) key = 0) \<longleftrightarrow>
     (\<forall>key \<in> set report_losses. sum_counter key rs = 0) \<and> (\<forall>name \<in> set detector_losses. sum_detector name rs = 0)"
proof -
  have "total_of (worker_health_totals rs health) key = sum_counter key rs" if "key \<in> set report_losses" for key
    using report_losses_known that by (intro totals_report) (rule subsetD)
  moreover have "total_of (worker_health_totals rs health) (''detector_'' @ name) = sum_detector name rs"
    if "name \<in> set detector_losses" for name
    using detector_losses_known that by (intro totals_detector) (rule subsetD)
  ultimately show ?thesis
    unfolding loss_keys_split ball_Un ball_simps by (simp only: cong: ball_cong)
qed

section \<open>The verdict\<close>

lemma shutdownE:
  assumes "shutdown env w s = (s', Inr sm)"
  obtains rs st where "rs = worker_report_list (stopped_supervisor env w s)"
    "st = snd (final_capture_stats env (stop_watchdog env w s))"
    "sm_worker_queue_byte_health sm = worker_queue_byte_health (cs_dispatcher (sv_capture (stopped_supervisor env w s)))"
    "s' = fst (finish_writer env (sum_counter ''findings'' rs)
            (reconcile rs (sm_worker_queue_byte_health sm) st (stopped_supervisor env w s)))"
    "sm_worker_packets_processed sm = sum_counter ''packets'' rs" "sm_worker_findings_emitted sm = sum_counter ''findings'' rs"
    "sm_worker_parser_errors sm = sum_counter ''parser_errors'' rs" "sm_stats sm = st"
    "sm_verdict sm = (if sv_incomplete_reasons s' = [] then ''complete'' else ''incomplete'')"
    "sm_incomplete_reasons sm = sv_incomplete_reasons s'"
    "sm_writer_findings_written sm = fst (snd (finish_writer env (sum_counter ''findings'' rs)
            (reconcile rs (sm_worker_queue_byte_health sm) st (stopped_supervisor env w s))))"
  using assms that unfolding shutdown_def stopped_supervisor_def Let_def
  by (auto split: sum.splits prod.splits)

lemma verdict_complete_core:
  assumes "shutdown env w s = (s', Inr sm)"
  shows "sm_verdict sm = ''complete'' \<longleftrightarrow>
     sv_incomplete_reasons s = [] \<and> snd (stopping (se_notify env) w) = Inr () \<and> (\<exists>stats. se_stats env = Inr stats)
   \<and> (sv_raw_capture_enabled s \<longrightarrow> sv_offline s \<or> se_raw_running env)
   \<and> (\<forall>attempts \<in> set (se_worker_puts env). accepted attempts) \<and> \<not> writer_lost (se_rounds env)
   \<and> (\<forall>e \<in> set (se_ends env). exited_cleanly e)
   \<and> (\<forall>i < length (sv_workers s). worker_state (stopped_supervisor env w s) i = Some ''stopped'')
   \<and> reconciled (worker_report_list (stopped_supervisor env w s)) (sm_worker_queue_byte_health sm) (sm_stats sm) (sv_capture s')
   \<and> accepted (se_record_puts env) \<and> accepted (se_finding_puts env) \<and> accepted (se_operational_puts env)
   \<and> (sv_writer s = None \<or> \<not> se_writer_alive env \<and> se_writer_exitcode env = Some 0)
   \<and> acknowledged (sv_writer_report s') (sm_worker_findings_emitted sm)"
  using assms
proof (rule shutdownE)
  fix rs st
  assume rs: "rs = worker_report_list (stopped_supervisor env w s)"
    and s': "s' = fst (finish_writer env (sum_counter ''findings'' rs)
            (reconcile rs (sm_worker_queue_byte_health sm) st (stopped_supervisor env w s)))"
    and sm: "sm_worker_findings_emitted sm = sum_counter ''findings'' rs" "sm_stats sm = st"
      "sm_verdict sm = (if sv_incomplete_reasons s' = [] then ''complete'' else ''incomplete'')"
  have cap: "sv_capture s' = sv_capture (stopped_supervisor env w s)" by (simp add: s' frame)
  have wr: "sv_writer (stopped_supervisor env w s) = sv_writer s" by (simp add: stopped_supervisor_def frame)
  have stop: "sv_incomplete_reasons (stopped_supervisor env w s) = [] \<longleftrightarrow>
     (sv_raw_capture_enabled s \<longrightarrow> sv_offline s \<or> se_raw_running env)
     \<and> (\<forall>attempts \<in> set (se_worker_puts env). accepted attempts) \<and> \<not> writer_lost (se_rounds env)
     \<and> (\<forall>e \<in> set (se_ends env). exited_cleanly e)
     \<and> (\<forall>i < length (sv_workers s). worker_state (stopped_supervisor env w s) i = Some ''stopped'')
     \<and> (\<exists>stats. se_stats env = Inr stats) \<and> snd (stopping (se_notify env) w) = Inr () \<and> sv_incomplete_reasons s = []"
    unfolding stopped_supervisor_def clean frame by blast
  have fin: "sv_incomplete_reasons s' = [] \<longleftrightarrow>
     accepted (se_record_puts env) \<and> accepted (se_finding_puts env) \<and> accepted (se_operational_puts env)
     \<and> (sv_writer s = None \<or> \<not> se_writer_alive env \<and> se_writer_exitcode env = Some 0)
     \<and> acknowledged (sv_writer_report s') (sum_counter ''findings'' rs)
     \<and> reconciled rs (sm_worker_queue_byte_health sm) st (sv_capture (stopped_supervisor env w s))
     \<and> sv_incomplete_reasons (stopped_supervisor env w s) = []"
    using finish_writer_clean [of env "sum_counter ''findings'' rs"
        "reconcile rs (sm_worker_queue_byte_health sm) st (stopped_supervisor env w s)"]
    unfolding s' [symmetric] frame clean wr by blast
  have v: "sm_verdict sm = ''complete'' \<longleftrightarrow> sv_incomplete_reasons s' = []" by (simp add: sm(3))
  show ?thesis unfolding v fin stop cap sm(1,2) rs by blast
qed


section \<open>A clean shutdown\<close>

lemma shutdown_returns: "se_close env = Inr () \<Longrightarrow> \<exists>s' sm. shutdown env w s = (s', Inr sm)"
  by (simp add: shutdown_def Let_def split_beta)

text \<open>One worker and the writer stop in order; libpcap received \<open>n\<close> packets and dropped none.\<close>

definition clean_end :: "int \<Rightarrow> shutdown_env" where
  "clean_end n = \<lparr>se_notify = \<lparr>ne_pid = 1, ne_delivered = (\<lambda>address message. True), ne_now = 0\<rparr>, se_notify_full = False,
     se_stats = Inr \<lparr>st_received = Some n, st_dropped = Some 0, st_interface_dropped = None\<rparr>, se_close = Inr (),
     se_raw_running = False, se_raw_full = False, se_worker_puts = [[(False, []), (True, [])]], se_rounds = [([], False, False)],
     se_ends = [(False, Some 0, False)],
     se_wait_workers = [[(WorkerReport (Some (0, 41)) (plain_report ''stopped'' 41), 5)]],
     se_record_puts = [(True, [])], se_finding_puts = [(True, [])], se_operational_puts = [(True, [])],
     se_writer_alive = False, se_writer_exitcode = Some 0,
     se_wait_writer = [[(WriterReport (plain_report ''stopped'' 40), 6)]]\<rparr>"

text \<open>A supervisor with worker 41 and writer 40 and nothing recorded against the session.\<close>

definition plain_supervisor :: "Supervisor \<Rightarrow> bool" where
  "plain_supervisor s \<longleftrightarrow> sv_workers s = [Some 41] \<and> sv_writer s = Some 40 \<and> sv_incomplete_reasons s = []
     \<and> \<not> sv_raw_capture_enabled s \<and> (sv_worker_reports s = [] \<or> (\<exists>r. sv_worker_reports s = [((0, 41), r)]))"

lemmas stop_defs = stopped_supervisor_def stop_children_def stop_watchdog_def stopping_def final_capture_stats_def
  stop_raw_ring_def put_or_mark_def mark_if_def drain_control_wait_def drain_control_def drain_item_def
  validate_worker_stopped_acknowledgements_def validate_stopped_def worker_state_def Let_def

lemma clean_end_stopped:
  assumes "plain_supervisor s"
  shows "sv_worker_reports (stopped_supervisor (clean_end n) (watchdog_init None 0 1) s) = [((0, 41), plain_report ''stopped'' 41)]"
    "sv_capture (stopped_supervisor (clean_end n) (watchdog_init None 0 1) s) = sv_capture s"
    "worker_state (stopped_supervisor (clean_end n) (watchdog_init None 0 1) s) 0 = Some ''stopped''"
  using assms by (auto simp: stop_defs clean_end_def watchdog_init_def falsy_def plain_supervisor_def
      plain_report_def pid_or_def od_get_def)

lemma no_counters: "sum_counter key [plain_report state pid] = 0" "sum_detector key [plain_report state pid] = 0"
  by (simp_all add: sum_counter_def sum_detector_def counter_of_def detector_counter_def detector_entries_def
      plain_report_def od_get_def)

lemma no_reported_counters: "reported_detector_counters [plain_report state pid] = []"
  by (simp add: reported_detector_counters_def plain_report_def detector_entries_def od_keys_def)

text \<open>Nothing captured was handed to a worker, and nothing was lost.\<close>

definition idle_capture :: "int \<Rightarrow> CaptureState \<Rightarrow> bool" where
  "idle_capture n cs \<longleftrightarrow> cs_captured_packets cs = n \<and> cs_capture_ignored_packets cs = n \<and> cs_capture_parse_errors cs = 0
     \<and> (let d = cs_dispatcher cs; ro = cs_router cs in
        dx_dispatched_packets d = 0 \<and> dx_suppressed_packets d = 0 \<and> dx_userspace_queue_drops d = 0
      \<and> dx_byte_budget_dropped_packets d = 0 \<and> dx_operational_queue_drops d = 0 \<and> dx_shards d = [new_shard]
      \<and> ro_fragment_route_evictions ro = 0 \<and> ro_flow_route_override_evictions ro = 0 \<and> ro_fragment_route_fallbacks ro = 0)"

lemma clean_end_complete:
  assumes "plain_supervisor s" "idle_capture n (sv_capture s)" "shutdown (clean_end n) (watchdog_init None 0 1) s = (s', Inr sm)"
  shows "sv_capture s' = sv_capture s" "worker_report_list (stopped_supervisor (clean_end n) (watchdog_init None 0 1) s) = [plain_report ''stopped'' 41]"
    "reconciled [plain_report ''stopped'' 41] (sm_worker_queue_byte_health sm) (sm_stats sm) (sv_capture s)"
    "sv_writer_report s' = Some (plain_report ''stopped'' 40)" "sm_worker_findings_emitted sm = 0"
proof -
  let ?w = "watchdog_init None 0 1"
  obtain rs st where d: "rs = worker_report_list (stopped_supervisor (clean_end n) ?w s)"
    "st = snd (final_capture_stats (clean_end n) (stop_watchdog (clean_end n) ?w s))"
    "sm_worker_queue_byte_health sm = worker_queue_byte_health (cs_dispatcher (sv_capture (stopped_supervisor (clean_end n) ?w s)))"
    "s' = fst (finish_writer (clean_end n) (sum_counter ''findings'' rs)
            (reconcile rs (sm_worker_queue_byte_health sm) st (stopped_supervisor (clean_end n) ?w s)))"
    "sm_worker_findings_emitted sm = sum_counter ''findings'' rs" "sm_stats sm = st"
    using assms(3) by (rule shutdownE)
  show rs: "worker_report_list (stopped_supervisor (clean_end n) ?w s) = [plain_report ''stopped'' 41]"
    by (simp add: worker_report_list_def clean_end_stopped [OF assms(1)])
  show "sv_capture s' = sv_capture s" by (simp add: d(4) frame clean_end_stopped [OF assms(1)])
  have "st_received st = Some n" "st_dropped st = Some 0" "st_interface_dropped st = None"
    by (simp_all add: d(2) final_capture_stats_def clean_end_def)
  then show "reconciled [plain_report ''stopped'' 41] (sm_worker_queue_byte_health sm) (sm_stats sm) (sv_capture s)"
    unfolding reconciled_def losses_zero_iff no_reported_counters Let_def d(3,6) clean_end_stopped [OF assms(1)]
    using assms(2) by (simp add: no_counters delivered_def worker_queue_byte_health_def idle_capture_def new_shard_def
        accounted_packets_def Let_def)
  show "sv_writer_report s' = Some (plain_report ''stopped'' 40)"
    unfolding d(4) finish_writer_report by (simp add: clean_end_def drain_control_wait_def drain_control_def drain_item_def)
  show "sm_worker_findings_emitted sm = 0" by (simp add: d(5) d(1) rs no_counters)
qed

lemma clean_end_verdict:
  assumes "plain_supervisor s" "idle_capture n (sv_capture s)" "shutdown (clean_end n) (watchdog_init None 0 1) s = (s', Inr sm)"
  shows "sm_verdict sm = ''complete''"
  unfolding verdict_complete_core [OF assms(3)] clean_end_complete [OF assms]
  using assms(1) clean_end_complete(3) [OF assms] clean_end_stopped(3) [OF assms(1)]
  by (simp add: plain_supervisor_def clean_end_def stopping_def watchdog_init_def falsy_def accepted_def exited_cleanly_def
      acknowledged_def plain_report_def counter_of_def od_get_def)

lemma small_supervisor_plain: "plain_supervisor small_supervisor" "idle_capture 0 (sv_capture small_supervisor)"
  by (simp_all add: plain_supervisor_def idle_capture_def small_supervisor_def supervisor_init_def spawn_worker_def
      capture_init_def dispatcher_init_def router_init_def)


end
