(* ===== verification/Session.thy ===== *)
theory Session
  imports Verdict
begin

text \<open>
  A whole session: the capture loop of \<open>AuditSupervisor.run\<close> (\<open>packet_audit/supervisor.py\<close>) with its child checks,
  heartbeats and watchdog notifications, followed by the shutdown. This theory composes \<open>Dispatch\<close>, \<open>Supervision\<close>,
  \<open>Service_Watchdog\<close> and \<open>Verdict\<close>. The list of iterations ends where the loop does, at the end of the capture file
  or after a stop request.
\<close>

section \<open>The loop\<close>

text \<open>What one iteration meets: the batch read, the dispatch of each shard, the child check, the heartbeat if it is due
  (telemetry queue full, clock of the route expiry), the watchdog notification.\<close>

record iteration =
  it_inputs :: "capture_input list"
  it_dispatch :: "nat \<Rightarrow> dispatch_env"
  it_check :: check_env
  it_heartbeat :: "(bool \<times> int) option"
  it_notify :: notify_env

definition heartbeat :: "(bool \<times> int) option \<Rightarrow> Supervisor \<Rightarrow> Supervisor" where
  "heartbeat due s =
     (case due of
        None \<Rightarrow> s
      | Some (full, now) \<Rightarrow>
          let s1 = sv_operation full ''capture_heartbeat'' s; cs = sv_capture s1 in
          s1\<lparr>sv_capture := cs\<lparr>cs_router := expire_fragment_routes now (cs_router cs)\<rparr>\<rparr>)"

definition session_step ::
  "(string \<Rightarrow> nat) \<Rightarrow> bytes \<Rightarrow> iteration \<Rightarrow> Supervisor \<times> ServiceWatchdog
     \<Rightarrow> ((Supervisor \<times> ServiceWatchdog) \<times> unit result) option" where
  "session_step digest local_mac it st =
     (let (s, w) = st in
      case capture_round digest local_mac (it_inputs it) (it_dispatch it) (sv_capture s) of
        None \<Rightarrow> None
      | Some (cs, Inl e) \<Rightarrow> Some ((s\<lparr>sv_capture := cs\<rparr>, w), Inl e)
      | Some (cs, Inr _) \<Rightarrow>
          (case check_children (it_check it) (s\<lparr>sv_capture := cs\<rparr>) of
             (s1, Inl e) \<Rightarrow> Some ((s1, w), Inl e)
           | (s1, Inr _) \<Rightarrow>
               (case progress (it_notify it) w of (w1, r) \<Rightarrow> Some ((heartbeat (it_heartbeat it) s1, w1), r))))"

fun session_loop ::
  "(string \<Rightarrow> nat) \<Rightarrow> bytes \<Rightarrow> iteration list \<Rightarrow> Supervisor \<times> ServiceWatchdog
     \<Rightarrow> ((Supervisor \<times> ServiceWatchdog) \<times> unit result) option" where
  "session_loop digest local_mac [] st = Some (st, Inr ())"
| "session_loop digest local_mac (it # its) st =
     (case session_step digest local_mac it st of
        None \<Rightarrow> None
      | Some (st1, Inl e) \<Rightarrow> Some (st1, Inl e)
      | Some (st1, Inr _) \<Rightarrow> session_loop digest local_mac its st1)"

text \<open>The \<open>try\<close> statement: an exception of the loop is recorded (an interrupt is not an \<open>Exception\<close>), the shutdown runs
  in any case, and the exception is raised again unless the shutdown raises its own.\<close>

definition run_session ::
  "(string \<Rightarrow> nat) \<Rightarrow> bytes \<Rightarrow> iteration list \<Rightarrow> bool \<Rightarrow> shutdown_env \<Rightarrow> Supervisor \<times> ServiceWatchdog
     \<Rightarrow> (Supervisor \<times> Summary result) option" where
  "run_session digest local_mac its error_full env st =
     (case session_loop digest local_mac its st of
        None \<Rightarrow> None
      | Some ((s, w), Inr _) \<Rightarrow> Some (shutdown env w s)
      | Some ((s, w), Inl e) \<Rightarrow>
          let s1 = (if e = KeyboardInterrupt then s else sv_operation error_full ''session_error'' s) in
          (case shutdown env w s1 of
             (s2, Inl e') \<Rightarrow> Some (s2, Inl e')
           | (s2, Inr _) \<Rightarrow> Some (s2, Inl e)))"

section \<open>Telemetry does not touch the accounting\<close>

text \<open>The capture state without its telemetry.\<close>

definition quiet :: "CaptureState \<Rightarrow> CaptureState" where
  "quiet cs = cs\<lparr>cs_dispatcher := (cs_dispatcher cs)\<lparr>dx_operational_queue_drops := 0, dx_operations := []\<rparr>\<rparr>"

lemma quiet_operation [frame]: "quiet (sv_capture (sv_operation full event s)) = quiet (sv_capture s)"
  by (simp add: quiet_def sv_operation_def operation_def)

lemma quiet_keeps [simp]:
  "capture_ok (quiet cs) = capture_ok cs" "unaccounted (quiet cs) = unaccounted cs"
  "dx_offline (cs_dispatcher (quiet cs)) = dx_offline (cs_dispatcher cs)"
  "cs_captured_packets (quiet cs) = cs_captured_packets cs"
  "cs_capture_parse_errors (quiet cs) = cs_capture_parse_errors cs"
  by (simp_all add: quiet_def capture_ok_def unaccounted_def accounted_def dispatcher_ok_def)

lemma quiet_restart: "quiet (sv_capture (fst (restart_worker w ob s))) = quiet (sv_capture s)"
proof -
  have "sv_capture (fst (await_workers_ready polls ws t)) = sv_capture t" for polls ws t
    by (simp add: await_workers_ready_fst frame)
  then have "sv_capture t' = sv_capture t" if "await_workers_ready polls ws t = (t', r)" for polls ws t t' r
    using that by (metis fst_conv)
  then show ?thesis
    by (auto simp: restart_worker_def spawn_worker_def frame Let_def split: prod.split sum.split)
qed

lemma quiet_check_workers: "quiet (sv_capture (fst (check_workers w obs s))) = quiet (sv_capture s)"
proof (induction w obs s rule: check_workers.induct)
  case (2 w ob obs s)
  then show ?case using quiet_restart [of w ob s] by (auto split: prod.split sum.split)
qed simp

lemma quiet_check_children [frame]: "quiet (sv_capture (fst (check_children env s))) = quiet (sv_capture s)"
proof -
  let ?s = "drain_control (ck_control env) s"
  obtain s2 r2 where c: "check_workers 0 (ck_workers env) ?s = (s2, r2)" by (cases "check_workers 0 (ck_workers env) ?s")
  have q: "quiet (sv_capture s2) = quiet (sv_capture s)"
    using quiet_check_workers [of 0 "ck_workers env" ?s] c by (simp add: frame)
  have r: "quiet (sv_capture (fst (check_raw_capture env s2))) = quiet (sv_capture s2)"
    by (simp add: check_raw_capture_def frame Let_def)
  have "fst (check_children env s) \<in> {?s, s2, fst (check_raw_capture env s2)}"
    unfolding check_children_def Let_def c prod.case by (simp split: sum.split)
  then show ?thesis using q r by (auto simp: frame)
qed

lemma quiet_stop [frame]:
  "quiet (sv_capture (stop_watchdog env w s)) = quiet (sv_capture s)"
  "quiet (sv_capture (stop_raw_ring env s)) = quiet (sv_capture s)"
  "quiet (sv_capture (stop_workers n puts s)) = quiet (sv_capture s)"
  "quiet (sv_capture (drain_workers rounds s)) = quiet (sv_capture s)"
  "quiet (sv_capture (reap_workers n ends s)) = quiet (sv_capture s)"
proof -
  show "quiet (sv_capture (stop_watchdog env w s)) = quiet (sv_capture s)"
    by (auto simp: stop_watchdog_def frame split: sum.split py_error.split)
  show "quiet (sv_capture (stop_raw_ring env s)) = quiet (sv_capture s)" by (simp add: stop_raw_ring_def frame)
  show "quiet (sv_capture (stop_workers n puts s)) = quiet (sv_capture s)"
    by (induction n puts s rule: stop_workers.induct) (simp_all add: frame)
  show "quiet (sv_capture (drain_workers rounds s)) = quiet (sv_capture s)"
    by (induction rounds s rule: drain_workers.induct) (simp_all add: frame Let_def)
  show "quiet (sv_capture (reap_workers n ends s)) = quiet (sv_capture s)"
    by (induction n ends s rule: reap_workers.induct) (simp_all add: frame)
qed

lemma quiet_stopped [frame]: "quiet (sv_capture (stopped_supervisor env w s)) = quiet (sv_capture s)"
  by (simp add: stopped_supervisor_def stop_children_def frame Let_def)

section \<open>Invariant of the loop\<close>

text \<open>The capture state is well formed and accounts for every packet, and a restart was recorded as a reason.\<close>

definition session_inv :: "Supervisor \<Rightarrow> bool" where
  "session_inv s \<longleftrightarrow> capture_ok (sv_capture s) \<and> \<not> sv_offline s \<and> unaccounted (sv_capture s) = 0
     \<and> length (sv_worker_restart_history s) = length (sv_workers s)
     \<and> (sv_incomplete_reasons s = [] \<longrightarrow> sv_worker_restarts s = 0)"

definition live_iteration :: "nat \<Rightarrow> iteration \<Rightarrow> bool" where
  "live_iteration workers it \<longleftrightarrow> distinct (map (\<lambda>(now, full, c). cp_packet_id c) (it_inputs it))
     \<and> (\<forall>i. de_puts (it_dispatch it i) \<noteq> []) \<and> length (ck_workers (it_check it)) = workers"

lemma session_inv_quiet:
  assumes "session_inv s" "quiet (sv_capture s') = quiet (sv_capture s)"
    "length (sv_worker_restart_history s') = length (sv_workers s')"
    "sv_incomplete_reasons s' = [] \<longrightarrow> sv_worker_restarts s' = 0"
  shows "session_inv s'"
  using assms quiet_keeps(1-3) [of "sv_capture s"] quiet_keeps(1-3) [of "sv_capture s'"]
  by (simp add: session_inv_def sv_offline_def)

lemma check_children_inv:
  assumes "check_children env s = (s', Inr ())" "session_inv s" "length (ck_workers env) = length (sv_workers s)"
  shows "session_inv s' \<and> length (sv_workers s') = length (sv_workers s)"
proof -
  have ob: "observed env s" using assms(2,3) by (simp add: observed_def session_inv_def)
  note ok = check_children_ok [OF assms(1) ob]
  have "sv_worker_restarts s' = 0" if r: "sv_incomplete_reasons s' = []"
  proof -
    have "wo_alive (ck_workers env ! i)" if "i < length (sv_workers s)" for i
      using ok(7) that r by (auto simp: worker_checked_def split: if_splits)
    then have "filter (\<lambda>ob. \<not> wo_alive ob) (ck_workers env) = []"
      using assms(3) by (auto simp: filter_empty_conv in_set_conv_nth)
    moreover have "sv_incomplete_reasons s = []" using ok(1) r by (auto simp: workers_kept_def)
    ultimately show ?thesis using ok(6) assms(2) by (simp add: session_inv_def)
  qed
  moreover have "quiet (sv_capture s') = quiet (sv_capture s)" using quiet_check_children [of env s] assms(1) by simp
  ultimately show ?thesis
    using ok(1) assms(2) session_inv_quiet [OF assms(2), of s'] by (simp add: workers_kept_def session_inv_def)
qed

lemma heartbeat_inv: "session_inv s \<Longrightarrow> session_inv (heartbeat due s) \<and> length (sv_workers (heartbeat due s)) = length (sv_workers s)"
proof (cases due)
  case (Some p)
  obtain full now where p: "p = (full, now)" by (cases p)
  assume inv: "session_inv s"
  let ?s = "sv_operation full ''capture_heartbeat'' s"
  have s: "session_inv ?s" using inv by (rule session_inv_quiet) (use inv in \<open>simp_all add: frame session_inv_def\<close>)
  have "ro_workers (expire_fragment_routes now r) = ro_workers r" for r by (simp add: expire_fragment_routes_def)
  then show ?thesis
    using s expire_keeps Some p
    by (auto simp: heartbeat_def session_inv_def sv_offline_def capture_ok_def unaccounted_def frame Let_def)
qed (simp add: heartbeat_def)

lemma session_step_live:
  assumes "session_inv s" "live_iteration (length (sv_workers s)) it"
  shows "\<exists>s' w' r. session_step digest mac it (s, w) = Some ((s', w'), r)
     \<and> (r = Inr () \<longrightarrow> session_inv s' \<and> length (sv_workers s') = length (sv_workers s))"
proof -
  have l: "distinct (map (\<lambda>(now, full, c). cp_packet_id c) (it_inputs it))" "\<forall>i. de_puts (it_dispatch it i) \<noteq> []"
    "length (ck_workers (it_check it)) = length (sv_workers s)" using assms(2) by (simp_all add: live_iteration_def)
  have c0: "capture_ok (sv_capture s)" "\<not> dx_offline (cs_dispatcher (sv_capture s))"
    using assms(1) by (simp_all add: session_inv_def sv_offline_def)
  from capture_round_live [OF c0 l(2,1), of digest mac] obtain cs where
    c: "capture_round digest mac (it_inputs it) (it_dispatch it) (sv_capture s) = Some (cs, Inr ())" "capture_ok cs"
      "\<not> dx_offline (cs_dispatcher cs)" "unaccounted cs = unaccounted (sv_capture s)" by blast
  let ?s = "s\<lparr>sv_capture := cs\<rparr>"
  have i: "session_inv ?s" using assms(1) c by (simp add: session_inv_def sv_offline_def)
  obtain s1 r1 where k: "check_children (it_check it) ?s = (s1, r1)" by (cases "check_children (it_check it) ?s")
  obtain w1 r2 where p: "progress (it_notify it) w = (w1, r2)" by (cases "progress (it_notify it) w")
  show ?thesis
  proof (cases r1)
    case (Inl e)
    then show ?thesis using c(1) k by (simp add: session_step_def)
  next
    case (Inr u)
    then have "session_inv s1 \<and> length (sv_workers s1) = length (sv_workers s)"
      using check_children_inv [of "it_check it" ?s s1] k i l(3) by simp
    with heartbeat_inv [of s1 "it_heartbeat it"] show ?thesis using c(1) k p Inr by (simp add: session_step_def)
  qed
qed

lemma session_loop_live:
  assumes "session_inv s" "\<forall>it \<in> set its. live_iteration (length (sv_workers s)) it"
  shows "\<exists>s' w' r. session_loop digest mac its (s, w) = Some ((s', w'), r) \<and> (r = Inr () \<longrightarrow> session_inv s')"
  using assms
proof (induction its arbitrary: s w)
  case (Cons it its)
  from session_step_live [of s it digest mac w] Cons.prems obtain s1 w1 r1 where
    st: "session_step digest mac it (s, w) = Some ((s1, w1), r1)"
      "r1 = Inr () \<longrightarrow> session_inv s1 \<and> length (sv_workers s1) = length (sv_workers s)" by auto
  show ?case
  proof (cases r1)
    case (Inr u)
    with st Cons.prems(2) Cons.IH [of s1 w1] show ?thesis by simp
  qed (simp add: st(1))
qed simp

section \<open>Sessions without loss\<close>

lemma restarts_kept [frame]:
  "sv_worker_restarts (drain_control_wait rounds s) = sv_worker_restarts s"
  "sv_worker_restarts (fst (put_until attempts s)) = sv_worker_restarts s"
  "sv_worker_restarts (stop_watchdog env w s) = sv_worker_restarts s"
  "sv_worker_restarts (fst (final_capture_stats env s)) = sv_worker_restarts s"
  "sv_worker_restarts (stop_raw_ring env s) = sv_worker_restarts s"
proof -
  show "sv_worker_restarts (drain_control_wait rounds s) = sv_worker_restarts s"
    by (simp add: drain_control_wait_def fold_frame drain_control_frame)
  show "sv_worker_restarts (fst (put_until attempts s)) = sv_worker_restarts s"
    by (induction attempts s rule: put_until.induct) (simp_all add: frame)
  show "sv_worker_restarts (stop_watchdog env w s) = sv_worker_restarts s"
    by (auto simp: stop_watchdog_def frame split: sum.split py_error.split)
  show "sv_worker_restarts (fst (final_capture_stats env s)) = sv_worker_restarts s"
    by (auto simp: final_capture_stats_def frame split: sum.split)
  show "sv_worker_restarts (stop_raw_ring env s) = sv_worker_restarts s" by (simp add: stop_raw_ring_def frame)
qed

lemma restarts_put_or_mark [frame]: "sv_worker_restarts (put_or_mark attempts r s) = sv_worker_restarts s"
  by (simp add: put_or_mark_def frame split_beta)

lemma restarts_kept_loops [frame]:
  "sv_worker_restarts (stop_workers n puts s) = sv_worker_restarts s"
  "sv_worker_restarts (drain_workers rounds s) = sv_worker_restarts s"
  "sv_worker_restarts (reap_workers n ends s) = sv_worker_restarts s"
  "sv_worker_restarts (validate_worker_stopped_acknowledgements s) = sv_worker_restarts s"
proof -
  show "sv_worker_restarts (stop_workers n puts s) = sv_worker_restarts s"
    by (induction n puts s rule: stop_workers.induct) (simp_all add: frame)
  show "sv_worker_restarts (drain_workers rounds s) = sv_worker_restarts s"
    by (induction rounds s rule: drain_workers.induct) (simp_all add: frame Let_def)
  show "sv_worker_restarts (reap_workers n ends s) = sv_worker_restarts s"
    by (induction n ends s rule: reap_workers.induct) (simp_all add: frame)
  show "sv_worker_restarts (validate_worker_stopped_acknowledgements s) = sv_worker_restarts s"
    unfolding validate_worker_stopped_acknowledgements_def by (rule fold_frame) (simp add: validate_stopped_def frame)
qed

lemma restarts_reconcile [frame]:
  "sv_worker_restarts (fold (mark_coverage rs) names s) = sv_worker_restarts s"
  "sv_worker_restarts (fold (mark_loss totals) names s) = sv_worker_restarts s"
  "sv_worker_restarts (mark_live_delivery st s) = sv_worker_restarts s"
  "sv_worker_restarts (mark_drop_counter name v s) = sv_worker_restarts s"
  by (simp_all add: fold_frame mark_coverage_def mark_loss_def mark_live_delivery_def mark_drop_counter_def frame Let_def
      split: option.split)

lemma restarts_finish [frame]:
  "sv_worker_restarts (fst (finish_writer env emitted s)) = sv_worker_restarts s"
  "sv_worker_restarts (reconcile rs health st s) = sv_worker_restarts s"
  "sv_worker_restarts (stopped_supervisor env w s) = sv_worker_restarts s"
proof -
  show "sv_worker_restarts (fst (finish_writer env emitted s)) = sv_worker_restarts s"
    by (simp add: finish_writer_def writer_acknowledgement_def join_writer_def frame Let_def split: option.split)
  show "sv_worker_restarts (reconcile rs health st s) = sv_worker_restarts s" unfolding reconcile_def Let_def frame ..
  show "sv_worker_restarts (stopped_supervisor env w s) = sv_worker_restarts s"
    unfolding stopped_supervisor_def stop_children_def Let_def frame ..
qed

lemma shutdown_totals:
  assumes "shutdown env w s = (s', Inr sm)"
  shows "sm_worker_health_totals sm = worker_health_totals (worker_report_list (stopped_supervisor env w s)) (sm_worker_queue_byte_health sm)"
    and "sm_worker_parser_errors sm = sum_counter ''parser_errors'' (worker_report_list (stopped_supervisor env w s))"
  using assms unfolding shutdown_def stopped_supervisor_def Let_def by (auto split: sum.splits prod.splits)

text \<open>What a complete verdict says of the counters it was computed from.\<close>

lemma complete_counters:
  assumes "shutdown env w s = (s', Inr sm)" "sm_verdict sm = ''complete''"
  defines "rs \<equiv> worker_report_list (stopped_supervisor env w s)"
  shows "sv_incomplete_reasons s = []" "sv_worker_restarts s' = sv_worker_restarts s"
    "quiet (sv_capture s') = quiet (sv_capture s)" "reconciled rs (sm_worker_queue_byte_health sm) (sm_stats sm) (sv_capture s')"
    "sm_worker_packets_processed sm = sum_counter ''packets'' rs"
    "sm_writer_findings_written sm = sm_worker_findings_emitted sm"
proof -
  obtain rs' st where x: "rs' = worker_report_list (stopped_supervisor env w s)"
    "s' = fst (finish_writer env (sum_counter ''findings'' rs')
            (reconcile rs' (sm_worker_queue_byte_health sm) st (stopped_supervisor env w s)))"
    "sm_worker_packets_processed sm = sum_counter ''packets'' rs'" "sm_worker_findings_emitted sm = sum_counter ''findings'' rs'"
    "sm_stats sm = st"
    "sm_verdict sm = (if sv_incomplete_reasons s' = [] then ''complete'' else ''incomplete'')"
    "sm_writer_findings_written sm = fst (snd (finish_writer env (sum_counter ''findings'' rs')
            (reconcile rs' (sm_worker_queue_byte_health sm) st (stopped_supervisor env w s))))"
    using assms(1) by (rule shutdownE)
  have r: "sv_incomplete_reasons s' = []" using assms(2) x(6) by (simp split: if_splits)
  then have f: "acknowledged (sv_writer_report s') (sum_counter ''findings'' rs')"
    "reconciled rs' (sm_worker_queue_byte_health sm) st (sv_capture (stopped_supervisor env w s))"
    "sv_incomplete_reasons (stopped_supervisor env w s) = []"
    unfolding x(2) finish_writer_clean clean by blast+
  show "sv_incomplete_reasons s = []" using f(3) unfolding stopped_supervisor_def clean by blast
  show "sv_worker_restarts s' = sv_worker_restarts s" by (simp add: x(2) frame)
  show "quiet (sv_capture s') = quiet (sv_capture s)" by (simp add: x(2) frame)
  show "reconciled rs (sm_worker_queue_byte_health sm) (sm_stats sm) (sv_capture s')"
    using f(2) x(1,5) by (simp add: rs_def x(2) frame)
  show "sm_worker_packets_processed sm = sum_counter ''packets'' rs" by (simp add: x(1,3) rs_def)
  show "sm_writer_findings_written sm = sm_worker_findings_emitted sm"
    using f(1) unfolding x(2) by (simp add: x(4,7) finish_writer_written)
qed


section \<open>A small complete session\<close>

text \<open>An ARP frame, which the decoder ignores, captured by a session whose worker and writer answer.\<close>

definition arp_frame :: CapturedPacket where
  "arp_frame = \<lparr>cp_session_id = ''s'', cp_packet_id = 1, cp_timestamp_ns = 1, cp_interface = ''eth0'', cp_datalink = 1,
     cp_captured_length = 14, cp_wire_length = 14, cp_raw = [1, 2, 3, 4, 5, 6, 7, 8, 9, 10, 11, 12, 8, 6]\<rparr>"

lemma arp_ignored: "parse_packet_strict arp_frame = Inr None"
proof -
  have "u16 (cp_raw arp_frame) 12 = Inr 2054" by (simp add: arp_frame_def u16_def py_slice_def from_be_def)
  moreover have "strip_vlan_tags raw 2054 14 [] = Inr (2054, drop 14 raw, [])" for raw
    by (subst strip_vlan_tags.simps) (simp add: VLAN_ETHERTYPES_def)
  ultimately show ?thesis
    by (simp add: parse_packet_strict_def link_payload_def ETHERTYPE_IPV4_def ETHERTYPE_IPV6_def DLT_EN10MB_def)
      (simp add: arp_frame_def)
qed

definition quiet_check :: check_env where
  "quiet_check = \<lparr>ck_control = [(WriterReport (plain_report ''heartbeat'' 40), 1),
       (WorkerReport (Some (0, 41)) (plain_report ''heartbeat'' 41), 1)], ck_writer_alive = True,
     ck_workers = [\<lparr>wo_alive = True, wo_exitcode = None, wo_now = 1, wo_replacement = None, wo_polls = [],
       wo_telemetry_full = False\<rparr>], ck_now = 2, ck_raw_running = False, ck_raw_telemetry_full = False\<rparr>"

definition arp_iteration :: iteration where
  "arp_iteration = \<lparr>it_inputs = [(1, False, arp_frame)],
     it_dispatch = (\<lambda>_. \<lparr>de_finished = 0, de_waits = [], de_puts = [PutAccepted], de_telemetry_full = False\<rparr>),
     it_check = quiet_check, it_heartbeat = Some (False, 3),
     it_notify = \<lparr>ne_pid = 1, ne_delivered = (\<lambda>address message. True), ne_now = 0\<rparr>\<rparr>"

lemma arp_round:
  "ro_workers (cs_router cs) = 1 \<Longrightarrow> capture_round length [] [(now, full, arp_frame)] env cs =
     Some (cs\<lparr>cs_captured_packets := cs_captured_packets cs + 1,
              cs_capture_ignored_packets := cs_capture_ignored_packets cs + 1\<rparr>, Inr ())"
  by (simp add: capture_round_def capture_packet_def arp_ignored dispatch_batch_def Let_def)

lemma arp_session: "\<exists>s w. session_loop length [] [arp_iteration] (small_supervisor, watchdog_init None 0 1) = Some ((s, w), Inr ())
    \<and> w = watchdog_init None 0 1 \<and> plain_supervisor s \<and> idle_capture 1 (sv_capture s)"
  by (simp add: session_step_def arp_iteration_def quiet_check_def heartbeat_def progress_def watchdog_init_def falsy_def
      arp_round small_session_defs plain_supervisor_def idle_capture_def expire_fragment_routes_def)


end
