(* ===== verification/Worker_Process.thy ===== *)
theory Worker_Process
  imports Config Fragments Tcp_Reassembly Supervision
begin

text \<open>
  The worker process (\<open>packet_audit/worker.py\<close>): construction of the reassemblers from the configuration, the
  packet loop with its two classes of errors, the release of queue reservations, the heartbeat with its expiries
  and circuit breaker, the final flush and the reports on the control channel. It composes \<open>Fragments\<close>, the
  transport decoder of \<open>Packets\<close> and \<open>Tcp_Reassembly\<close>. The detector is an argument: its state and its four
  operations. So are what the process takes from its queue, the clock (in nanoseconds) and whether the telemetry
  queue is full. A telemetry record is represented by its event name.
\<close>

section \<open>The detector's interface\<close>

record ('d, 'f) detector_ops =
  dt_stream :: "StreamChunk \<Rightarrow> 'd \<Rightarrow> 'd \<times> 'f list result"
  dt_datagram :: "ParsedPacket \<Rightarrow> 'd \<Rightarrow> 'd \<times> 'f list result"
  dt_expire :: "int \<Rightarrow> 'd \<Rightarrow> 'd \<times> int result"
  dt_stats :: "'d \<Rightarrow> (string, int) odict"

section \<open>State\<close>

text \<open>The local variables of \<open>worker_process\<close>, what it put on the finding, telemetry and control queues, and the two
  shared counters.\<close>

record ('d, 'f) Worker =
  wk_id :: int
  wk_pid :: int
  wk_fragments :: FragmentReassembler
  wk_tcp :: TCPReassembler
  wk_detector :: 'd
  wk_packets :: int
  wk_bytes_seen :: int
  wk_findings :: int
  wk_parser_errors :: int
  wk_truncated_packets :: int
  wk_truncated_missing_bytes :: int
  wk_operational_drops :: int
  wk_last_heartbeat :: int
  wk_finding_queue :: "'f list"
  wk_telemetry :: "string list"
  wk_control :: "control_item list"
  wk_byte_counter :: int
  wk_batch_counter :: int

text \<open>The calls of the two constructors, with the defaults of their other parameters.\<close>

definition worker_fragments :: "AuditConfig \<Rightarrow> FragmentReassembler result" where
  "worker_fragments cfg =
     fragment_init None None (Some (num cfg ''fragment_idle_seconds''))
       (max 1024 (num cfg ''max_flows_per_worker'' div 4)) (2 * 1024 * 1024) (64 * 1024 * 1024) 4096 65536 65536
       (Some (max 1048576 (min (num cfg ''max_reassembly_bytes_per_worker'' div 4) (64 * 1024 * 1024))))"

definition worker_tcp :: "AuditConfig \<Rightarrow> int \<Rightarrow> TCPReassembler result" where
  "worker_tcp cfg epoch_namespace =
     tcp_init (num cfg ''flow_idle_seconds'') (num cfg ''max_flows_per_worker'')
       (num cfg ''max_out_of_order_bytes_per_direction'') (num cfg ''max_stream_bytes_per_direction'')
       (num cfg ''max_reassembly_bytes_per_worker'') 65536 (128 * 1024) 4096 epoch_namespace"

definition worker_init ::
  "AuditConfig \<Rightarrow> int \<Rightarrow> int \<Rightarrow> int \<Rightarrow> int \<Rightarrow> int \<Rightarrow> int \<Rightarrow> 'd \<Rightarrow> ('d, 'f) Worker result" where
  "worker_init cfg worker_id pid epoch_namespace now byte_counter batch_counter detector =
     bindE (worker_fragments cfg) (\<lambda>fragments.
     bindE (worker_tcp cfg epoch_namespace) (\<lambda>tcp.
       Inr \<lparr>wk_id = worker_id, wk_pid = pid, wk_fragments = fragments, wk_tcp = tcp, wk_detector = detector,
            wk_packets = 0, wk_bytes_seen = 0, wk_findings = 0, wk_parser_errors = 0, wk_truncated_packets = 0,
            wk_truncated_missing_bytes = 0, wk_operational_drops = 0, wk_last_heartbeat = now, wk_finding_queue = [], wk_telemetry = [],
            wk_control = [], wk_byte_counter = byte_counter, wk_batch_counter = batch_counter\<rparr>))"

section \<open>Telemetry and reports\<close>

text \<open>\<open>_emit_operation\<close>, whose result tells whether the queue took the record.\<close>

definition emit_operation :: "bool \<Rightarrow> string \<Rightarrow> ('d, 'f) Worker \<Rightarrow> ('d, 'f) Worker \<times> bool" where
  "emit_operation full event w = (if full then (w, False) else (w\<lparr>wk_telemetry := wk_telemetry w @ [event]\<rparr>, True))"

text \<open>The sites that count a record that was not taken.\<close>

definition emit_counted :: "bool \<Rightarrow> string \<Rightarrow> ('d, 'f) Worker \<Rightarrow> ('d, 'f) Worker" where
  "emit_counted full event w =
     (case emit_operation full event w of
        (w1, True) \<Rightarrow> w1
      | (w1, False) \<Rightarrow> w1\<lparr>wk_operational_drops := wk_operational_drops w1 + 1\<rparr>)"

definition base_counters :: "('d, 'f) Worker \<Rightarrow> (string, int) odict" where
  "base_counters w =
     [(''packets'', wk_packets w), (''findings'', wk_findings w), (''parser_errors'', wk_parser_errors w),
      (''truncated_packets'', wk_truncated_packets w), (''truncated_missing_bytes'', wk_truncated_missing_bytes w)]"

definition worker_report ::
  "string \<Rightarrow> (string, int) odict \<Rightarrow> (string, int) odict option \<Rightarrow> ('d, 'f) Worker \<Rightarrow> Report" where
  "worker_report state entries detector w =
     \<lparr>rp_state = state, rp_pid = Some (wk_pid w), rp_counters = fold (\<lambda>(k, v). od_put k v) entries (base_counters w),
      rp_detector = detector, rp_sha256 = None\<rparr>"

definition control ::
  "string \<Rightarrow> (string, int) odict \<Rightarrow> (string, int) odict option \<Rightarrow> ('d, 'f) Worker \<Rightarrow> ('d, 'f) Worker" where
  "control state entries detector w =
     w\<lparr>wk_control := wk_control w @ [WorkerReport (Some (wk_id w, wk_pid w)) (worker_report state entries detector w)]\<rparr>"

text \<open>The entries the heartbeat and the final report share.\<close>

definition health_fields :: "('d, 'f) Worker \<Rightarrow> (string, int) odict" where
  "health_fields w =
     [(''operational_queue_drops'', wk_operational_drops w), (''tcp_gap_bytes'', tr_gap_bytes (wk_tcp w)),
      (''tcp_overlap_conflicts'', tr_overlap_conflicts (wk_tcp w)), (''tcp_evicted_flows'', tr_evicted_flows (wk_tcp w)),
      (''tcp_budget_evicted_flows'', tr_budget_evicted_flows (wk_tcp w)),
      (''tcp_buffered_segments'', tr_buffered_segments (wk_tcp w)),
      (''tcp_peak_buffered_segments'', tr_peak_buffered_segments (wk_tcp w)),
      (''tcp_max_buffered_segments'', tr_max_buffered_segments (wk_tcp w)),
      (''fragment_evicted_datagrams'', fr_evicted_datagrams (wk_fragments w)),
      (''fragment_expired_datagrams'', fr_expired_datagrams (wk_fragments w)),
      (''fragment_overlap_conflicts'', fr_overlap_conflicts (wk_fragments w)),
      (''fragment_malformed'', fr_malformed_fragments (wk_fragments w))]"

definition buffer_fields :: "('d, 'f) Worker \<Rightarrow> (string, int) odict" where
  "buffer_fields w =
     [(''fragment_buffered_ranges'', fr_buffered_ranges (wk_fragments w)),
      (''fragment_peak_buffered_ranges'', fr_peak_buffered_ranges (wk_fragments w)),
      (''fragment_max_buffered_ranges'', fr_max_buffered_ranges (wk_fragments w)),
      (''fragment_buffered_provenance_entries'', fr_buffered_provenance_entries (wk_fragments w)),
      (''fragment_peak_buffered_provenance_entries'', fr_peak_buffered_provenance_entries (wk_fragments w)),
      (''fragment_max_buffered_provenance_entries'', fr_max_buffered_provenance_entries (wk_fragments w)),
      (''truncated_packets'', wk_truncated_packets w), (''truncated_missing_bytes'', wk_truncated_missing_bytes w)]"

definition heartbeat_fields :: "('d, 'f) Worker \<Rightarrow> (string, int) odict" where
  "heartbeat_fields w =
     [(''active_flows'', int (length (tr_flows (wk_tcp w)))), (''reassembly_bytes'', tr_buffered_bytes (wk_tcp w))]
     @ health_fields w @ buffer_fields w"

definition stopped_fields :: "('d, 'f) Worker \<Rightarrow> (string, int) odict" where
  "stopped_fields w =
     health_fields w
     @ [(''fragment_active_datagrams'', int (length (fr_states (wk_fragments w)))),
        (''fragment_buffered_bytes'', fr_buffered_bytes (wk_fragments w))]
     @ buffer_fields w"

section \<open>One packet\<close>

text \<open>The monotonic clock as the two reassemblers read it, and whether an error's telemetry finds the queue full.\<close>

record packet_env =
  pe_fragment_now :: int
  pe_tcp_now :: int
  pe_full :: bool

fun detect_chunks ::
  "('d, 'f) detector_ops \<Rightarrow> StreamChunk list \<Rightarrow> 'd \<Rightarrow> 'f list \<Rightarrow> 'd \<times> 'f list result" where
  "detect_chunks ops [] d emitted = (d, Inr emitted)"
| "detect_chunks ops (chunk # chunks) d emitted =
     (case dt_stream ops chunk d of
        (d1, Inl e) \<Rightarrow> (d1, Inl e)
      | (d1, Inr found) \<Rightarrow> detect_chunks ops chunks d1 (emitted @ found))"

definition count_truncated :: "ParsedPacket \<Rightarrow> ('d, 'f) Worker \<Rightarrow> ('d, 'f) Worker" where
  "count_truncated p w =
     w\<lparr>wk_truncated_packets := wk_truncated_packets w + 1,
       wk_truncated_missing_bytes := wk_truncated_missing_bytes w + max 0 (pp_wire_length p - pp_captured_length p)\<rparr>"

definition put_findings :: "'f list \<Rightarrow> ('d, 'f) Worker \<Rightarrow> ('d, 'f) Worker" where
  "put_findings found w =
     w\<lparr>wk_finding_queue := wk_finding_queue w @ found, wk_findings := wk_findings w + int (length found)\<rparr>"

text \<open>Reassembly and detection of a packet that has left the fragment stage.\<close>

definition scan_packet ::
  "('d, 'f) detector_ops \<Rightarrow> int \<Rightarrow> ParsedPacket \<Rightarrow> ('d, 'f) Worker \<Rightarrow> (('d, 'f) Worker \<times> 'f list result) option" where
  "scan_packet ops now q w =
     (if \<not> pp_transport_parsed q then Some (w, Inr [])
      else if pp_protocol q = 6 then
        (case tcp_process (wk_tcp w) now q of
           None \<Rightarrow> None
         | Some (t, chunks) \<Rightarrow>
             (let (d, r) = detect_chunks ops chunks (wk_detector w) [] in Some (w\<lparr>wk_tcp := t, wk_detector := d\<rparr>, r)))
      else if pp_protocol q = 17 then
        (let (d, r) = dt_datagram ops q (wk_detector w) in Some (w\<lparr>wk_detector := d\<rparr>, r))
      else Some (w, Inr []))"

text \<open>The body of the \<open>try\<close> statement.\<close>

definition packet_body ::
  "('d, 'f) detector_ops \<Rightarrow> packet_env \<Rightarrow> ParsedPacket \<Rightarrow> ('d, 'f) Worker \<Rightarrow> (('d, 'f) Worker \<times> unit result) option" where
  "packet_body ops env p w =
     (let w1 = w\<lparr>wk_packets := wk_packets w + 1, wk_bytes_seen := wk_bytes_seen w + pp_captured_length p\<rparr>;
          w2 = (if pp_truncated p then count_truncated p w1 else w1) in
      case (if pp_fragment_id p = None then Inr (wk_fragments w2, Some p)
            else fragment_process (wk_fragments w2) (pe_fragment_now env) p) of
        Inl e \<Rightarrow> Some (w2, Inl e)
      | Inr (fragments, None) \<Rightarrow> Some (w2\<lparr>wk_fragments := fragments\<rparr>, Inr ())
      | Inr (fragments, Some q) \<Rightarrow>
          let w3 = w2\<lparr>wk_fragments := fragments\<rparr> in
          (case (if pp_transport_parsed q then Inr q else parse_transport q) of
             Inl e \<Rightarrow> Some (w3, Inl e)
           | Inr q1 \<Rightarrow>
               let w4 = (if pp_truncated q1 \<and> \<not> pp_truncated p then count_truncated q1 w3 else w3) in
               (case scan_packet ops (pe_tcp_now env) q1 w4 of
                  None \<Rightarrow> None
                | Some (w5, Inl e) \<Rightarrow> Some (w5, Inl e)
                | Some (w5, Inr emitted) \<Rightarrow> Some (put_findings emitted w5, Inr ()))))"

text \<open>A fatal error is announced on the control channel; an interrupt is not an \<open>Exception\<close> and passes.\<close>

definition fatal ::
  "bool \<Rightarrow> string \<Rightarrow> (string, int) odict \<Rightarrow> py_error \<Rightarrow> ('d, 'f) Worker \<Rightarrow> ('d, 'f) Worker" where
  "fatal full event entries e w =
     (if e = KeyboardInterrupt then w else control ''fatal'' entries None (fst (emit_operation full event w)))"

definition worker_packet ::
  "('d, 'f) detector_ops \<Rightarrow> packet_env \<Rightarrow> ParsedPacket \<Rightarrow> ('d, 'f) Worker \<Rightarrow> (('d, 'f) Worker \<times> unit result) option" where
  "worker_packet ops env p w =
     (case packet_body ops env p w of
        None \<Rightarrow> None
      | Some (w1, Inr _) \<Rightarrow> Some (w1, Inr ())
      | Some (w1, Inl (PacketDecodeError m)) \<Rightarrow>
          Some (emit_counted (pe_full env) ''worker_packet_error'' (w1\<lparr>wk_parser_errors := wk_parser_errors w1 + 1\<rparr>), Inr ())
      | Some (w1, Inl e) \<Rightarrow> Some (fatal (pe_full env) ''worker_fatal_error'' [(''packet_id'', pp_packet_id p)] e w1, Inl e))"

section \<open>One queue item\<close>

text \<open>The items of a batch: packets, or objects that are not packets and are skipped.\<close>

type_synonym batch = "(packet_env \<times> ParsedPacket option) list"

datatype work_item = StopItem | Reserved batch int | Unreserved batch

fun worker_batch ::
  "('d, 'f) detector_ops \<Rightarrow> batch \<Rightarrow> ('d, 'f) Worker \<Rightarrow> (('d, 'f) Worker \<times> unit result) option" where
  "worker_batch ops [] w = Some (w, Inr ())"
| "worker_batch ops ((env, None) # batch) w = worker_batch ops batch w"
| "worker_batch ops ((env, Some p) # batch) w =
     (case worker_packet ops env p w of
        None \<Rightarrow> None
      | Some (w1, Inl e) \<Rightarrow> Some (w1, Inl e)
      | Some (w1, Inr _) \<Rightarrow> worker_batch ops batch w1)"

definition release_units :: "int \<Rightarrow> int \<Rightarrow> ('d, 'f) Worker \<Rightarrow> ('d, 'f) Worker" where
  "release_units reserved_bytes reserved_batches w =
     w\<lparr>wk_byte_counter := release_reserved_queue_units (wk_byte_counter w) reserved_bytes,
       wk_batch_counter := release_reserved_queue_units (wk_batch_counter w) reserved_batches\<rparr>"

text \<open>The \<open>try\<close>/\<open>finally\<close> around a batch: the reservation is released also when a packet raises.\<close>

definition worker_item ::
  "('d, 'f) detector_ops \<Rightarrow> work_item \<Rightarrow> ('d, 'f) Worker \<Rightarrow> (('d, 'f) Worker \<times> unit result) option" where
  "worker_item ops item w =
     (case item of
        StopItem \<Rightarrow> Some (w, Inr ())
      | Reserved batch reserved \<Rightarrow>
          map_option (\<lambda>(w1, r). (release_units (max 0 reserved) 1 w1, r)) (worker_batch ops batch w)
      | Unreserved batch \<Rightarrow> map_option (\<lambda>(w1, r). (release_units 0 0 w1, r)) (worker_batch ops batch w))"

section \<open>Heartbeat\<close>

record heartbeat_env =
  hb_now :: int
  hb_fragment_now :: int
  hb_tcp_now :: int
  hb_detector_now :: int
  hb_full :: "string \<Rightarrow> bool"

text \<open>Scan of expired or flushed chunks, each chunk's findings put before the next is scanned.\<close>

fun scan_chunks ::
  "('d, 'f) detector_ops \<Rightarrow> StreamChunk list \<Rightarrow> ('d, 'f) Worker \<Rightarrow> ('d, 'f) Worker \<times> unit result" where
  "scan_chunks ops [] w = (w, Inr ())"
| "scan_chunks ops (chunk # chunks) w =
     (case dt_stream ops chunk (wk_detector w) of
        (d, Inl e) \<Rightarrow> (w\<lparr>wk_detector := d\<rparr>, Inl e)
      | (d, Inr found) \<Rightarrow> scan_chunks ops chunks (put_findings found (w\<lparr>wk_detector := d\<rparr>)))"

definition stat :: "(string, int) odict \<Rightarrow> string \<Rightarrow> int" where
  "stat stats key = (case od_get stats key of None \<Rightarrow> 0 | Some v \<Rightarrow> v)"

definition breaker :: "(string, int) odict \<Rightarrow> bool" where
  "breaker stats \<longleftrightarrow> stat stats ''parser_errors'' \<ge> 100 \<and> stat stats ''parser_errors'' * 10 \<ge> max 1 (stat stats ''attempts'')"

definition worker_beat ::
  "('d, 'f) detector_ops \<Rightarrow> heartbeat_env \<Rightarrow> nat \<Rightarrow> StreamChunk list \<Rightarrow> int \<Rightarrow> ('d, 'f) Worker
     \<Rightarrow> ('d, 'f) Worker \<times> unit result" where
  "worker_beat ops env fragment_expired expired_chunks detector_expired w =
     (let stats = dt_stats ops (wk_detector w) in
      if breaker stats
      then (control ''fatal'' [] (Some stats) (fst (emit_operation (hb_full env ''detector_error_circuit_breaker'')
              ''detector_error_circuit_breaker'' w)),
            Inl (RuntimeError ''detector parser errors exceeded 100 and 10% of scan attempts''))
      else
        let w1 = (if fragment_expired \<noteq> 0 \<or> expired_chunks \<noteq> [] \<or> detector_expired \<noteq> 0
                  then emit_counted (hb_full env ''state_expired'') ''state_expired'' w else w);
            w2 = emit_counted (hb_full env ''worker_heartbeat'') ''worker_heartbeat'' w1 in
        ((control ''heartbeat'' (heartbeat_fields w2) (Some stats) w2)\<lparr>wk_last_heartbeat := hb_now env\<rparr>, Inr ()))"

definition worker_expire ::
  "('d, 'f) detector_ops \<Rightarrow> AuditConfig \<Rightarrow> heartbeat_env \<Rightarrow> ('d, 'f) Worker \<Rightarrow> (('d, 'f) Worker \<times> unit result) option" where
  "worker_expire ops cfg env w =
     (let (fragments, fragment_expired) = fragment_expire (wk_fragments w) (hb_fragment_now env) False;
          w1 = w\<lparr>wk_fragments := fragments\<rparr> in
      case tcp_expire (wk_tcp w1) (hb_tcp_now env) False of
        Inl e \<Rightarrow> Some (w1, Inl e)
      | Inr None \<Rightarrow> None
      | Inr (Some (t, chunks)) \<Rightarrow>
          (case dt_expire ops (hb_detector_now env - num cfg ''flow_idle_seconds'' * 1000000000) (wk_detector w1) of
             (d, Inl e) \<Rightarrow> Some (w1\<lparr>wk_tcp := t, wk_detector := d\<rparr>, Inl e)
           | (d, Inr detector_expired) \<Rightarrow>
               (case scan_chunks ops chunks (w1\<lparr>wk_tcp := t, wk_detector := d\<rparr>) of
                  (w2, Inl e) \<Rightarrow>
                    Some (fatal (hb_full env ''expired_flow_detection_fatal'') ''expired_flow_detection_fatal'' [] e w2, Inl e)
                | (w2, Inr _) \<Rightarrow> Some (worker_beat ops env fragment_expired chunks detector_expired w2))))"

definition worker_heartbeat ::
  "('d, 'f) detector_ops \<Rightarrow> AuditConfig \<Rightarrow> heartbeat_env \<Rightarrow> ('d, 'f) Worker \<Rightarrow> (('d, 'f) Worker \<times> unit result) option" where
  "worker_heartbeat ops cfg env w =
     (if hb_now env - wk_last_heartbeat w \<ge> num cfg ''heartbeat_seconds'' * 1000000000 then worker_expire ops cfg env w
      else Some (w, Inr ()))"

section \<open>The process\<close>

text \<open>A round of the loop: the item taken (a timeout is a batch of one object that is no packet) and the clock after it.\<close>

type_synonym round = "work_item \<times> heartbeat_env"

definition worker_round ::
  "('d, 'f) detector_ops \<Rightarrow> AuditConfig \<Rightarrow> round \<Rightarrow> ('d, 'f) Worker \<Rightarrow> (('d, 'f) Worker \<times> unit result) option" where
  "worker_round ops cfg round w =
     (case worker_item ops (fst round) w of
        None \<Rightarrow> None
      | Some (w1, Inl e) \<Rightarrow> Some (w1, Inl e)
      | Some (w1, Inr _) \<Rightarrow> worker_heartbeat ops cfg (snd round) w1)"

fun worker_loop ::
  "('d, 'f) detector_ops \<Rightarrow> AuditConfig \<Rightarrow> round list \<Rightarrow> ('d, 'f) Worker \<Rightarrow> (('d, 'f) Worker \<times> unit result) option" where
  "worker_loop ops cfg [] w = None"
| "worker_loop ops cfg (round # rounds) w =
     (case worker_round ops cfg round w of
        None \<Rightarrow> None
      | Some (w1, Inl e) \<Rightarrow> Some (w1, Inl e)
      | Some (w1, Inr _) \<Rightarrow> if fst round = StopItem then Some (w1, Inr ()) else worker_loop ops cfg rounds w1)"

definition worker_stop ::
  "('d, 'f) detector_ops \<Rightarrow> (string \<Rightarrow> bool) \<Rightarrow> ('d, 'f) Worker \<Rightarrow> (('d, 'f) Worker \<times> unit result) option" where
  "worker_stop ops full w =
     (case tcp_flush_all (wk_tcp w) (Some Gapped) of
        Inl e \<Rightarrow> Some (control ''fatal'' [] None (emit_counted (full ''worker_flush_fatal'') ''worker_flush_fatal'' w), Inl e)
      | Inr None \<Rightarrow> None
      | Inr (Some (t, chunks)) \<Rightarrow>
          (case scan_chunks ops chunks (w\<lparr>wk_tcp := t\<rparr>) of
             (w1, Inl e) \<Rightarrow>
               Some (if e = KeyboardInterrupt then w1
                     else control ''fatal'' [] None (emit_counted (full ''worker_flush_fatal'') ''worker_flush_fatal'' w1), Inl e)
           | (w1, Inr _) \<Rightarrow>
               (let w2 = emit_counted (full ''worker_stopped'') ''worker_stopped'' w1 in
                Some (control ''stopped'' (stopped_fields w2) (Some (dt_stats ops (wk_detector w2))) w2, Inr ()))))"

definition worker_process ::
  "('d, 'f) detector_ops \<Rightarrow> AuditConfig \<Rightarrow> (string \<Rightarrow> bool) \<Rightarrow> round list \<Rightarrow> ('d, 'f) Worker \<Rightarrow> (('d, 'f) Worker \<times> unit result) option" where
  "worker_process ops cfg full rounds w =
     (let w1 = emit_counted (full ''worker_started'') ''worker_started'' (control ''ready'' [] None w) in
      case worker_loop ops cfg rounds w1 of
        None \<Rightarrow> None
      | Some (w2, Inl e) \<Rightarrow> Some (w2, Inl e)
      | Some (w2, Inr _) \<Rightarrow> worker_stop ops full w2)"

section \<open>What the detector is given\<close>

text \<open>The calls made on the detector, in order, and their effect: its state and the findings it returned.\<close>

datatype detector_call = ScanStream StreamChunk | ScanDatagram ParsedPacket | ExpireFlows int

fun feed :: "('d, 'f) detector_ops \<Rightarrow> detector_call \<Rightarrow> 'd \<Rightarrow> 'd \<times> 'f list result" where
  "feed ops (ScanStream chunk) d = dt_stream ops chunk d"
| "feed ops (ScanDatagram p) d = dt_datagram ops p d"
| "feed ops (ExpireFlows cutoff) d = (fst (dt_expire ops cutoff d), Inr [])"

fun feed_all :: "('d, 'f) detector_ops \<Rightarrow> detector_call list \<Rightarrow> 'd \<Rightarrow> 'd \<times> 'f list" where
  "feed_all ops [] d = (d, [])"
| "feed_all ops (call # calls) d =
     (let (d1, r) = feed ops call d; (d2, found) = feed_all ops calls d1 in
      (d2, (case r of Inl _ \<Rightarrow> [] | Inr f \<Rightarrow> f) @ found))"

fun stream_calls :: "detector_call list \<Rightarrow> StreamChunk list" where
  "stream_calls [] = []"
| "stream_calls (ScanStream chunk # calls) = chunk # stream_calls calls"
| "stream_calls (_ # calls) = stream_calls calls"

fun datagram_calls :: "detector_call list \<Rightarrow> ParsedPacket list" where
  "datagram_calls [] = []"
| "datagram_calls (ScanDatagram p # calls) = p # datagram_calls calls"
| "datagram_calls (_ # calls) = datagram_calls calls"

lemma feed_all_append:
  "feed_all ops (xs @ ys) d =
     (let (d1, f1) = feed_all ops xs d; (d2, f2) = feed_all ops ys d1 in (d2, f1 @ f2))"
  by (induction xs arbitrary: d) (simp_all add: Let_def case_prod_unfold)

lemma calls_append [simp]:
  "stream_calls (xs @ ys) = stream_calls xs @ stream_calls ys"
  "datagram_calls (xs @ ys) = datagram_calls xs @ datagram_calls ys"
proof -
  show "stream_calls (xs @ ys) = stream_calls xs @ stream_calls ys" by (induction xs rule: stream_calls.induct) simp_all
  show "datagram_calls (xs @ ys) = datagram_calls xs @ datagram_calls ys" by (induction xs rule: datagram_calls.induct) simp_all
qed

lemma calls_of_chunks [simp]:
  "stream_calls (map ScanStream cs) = cs" "datagram_calls (map ScanStream cs) = []"
  by (induction cs) simp_all

text \<open>The packets that leave the fragment stage, given what each fragment's \<open>process\<close> returned: transport decoded
  where it was not.\<close>

definition decoded :: "ParsedPacket \<Rightarrow> ParsedPacket" where
  "decoded q = (if pp_transport_parsed q then q else case parse_transport q of Inl _ \<Rightarrow> q | Inr q1 \<Rightarrow> q1)"

fun arrivals :: "ParsedPacket list \<Rightarrow> ParsedPacket option list \<Rightarrow> ParsedPacket list" where
  "arrivals [] outs = []"
| "arrivals (p # ps) outs =
     (if pp_fragment_id p = None then decoded p # arrivals ps outs
      else case outs of
             [] \<Rightarrow> []
           | None # rest \<Rightarrow> arrivals ps rest
           | Some q # rest \<Rightarrow> decoded q # arrivals ps rest)"

definition fragmented :: "ParsedPacket \<Rightarrow> bool" where
  "fragmented p \<longleftrightarrow> pp_fragment_id p \<noteq> None"

definition scanned_tcp :: "ParsedPacket \<Rightarrow> bool" where
  "scanned_tcp q \<longleftrightarrow> pp_transport_parsed q \<and> pp_protocol q = 6"

definition scanned_udp :: "ParsedPacket \<Rightarrow> bool" where
  "scanned_udp q \<longleftrightarrow> pp_transport_parsed q \<and> pp_protocol q = 17"

lemma arrivals_append:
  "length outs = length (filter fragmented ps) \<Longrightarrow>
   arrivals (ps @ qs) (outs @ outs') = arrivals ps outs @ arrivals qs outs'"
proof (induction ps arbitrary: outs)
  case (Cons p ps)
  show ?case
  proof (cases "fragmented p")
    case True
    with Cons.prems obtain o' rest where "outs = o' # rest" by (cases outs) auto
    with True Cons.prems Cons.IH [of rest] show ?thesis by (auto simp: fragmented_def split: option.splits)
  qed (use Cons.prems Cons.IH [of outs] in \<open>auto simp: fragmented_def\<close>)
qed simp

lemma frag_exec_length: "frag_exec r ops = Inr (r', outs) \<Longrightarrow> length outs = length (fragments_of ops)"
  by (induction r ops arbitrary: outs rule: frag_exec.induct) (auto split: sum.splits prod.splits simp: bindE_def)

lemma frag_exec_append:
  "frag_exec r ops = Inr (r1, outs) \<Longrightarrow> frag_exec r1 ops' = Inr (r2, outs') \<Longrightarrow>
   frag_exec r (ops @ ops') = Inr (r2, outs @ outs')"
  by (induction r ops arbitrary: outs rule: frag_exec.induct) (auto split: sum.splits prod.splits simp: bindE_def)

lemma fragments_of_append: "fragments_of (xs @ ys) = fragments_of xs @ fragments_of ys"
  by (induction xs rule: fragments_of.induct) simp_all

lemma tcp_packets_append: "tcp_packets (xs @ ys) = tcp_packets xs @ tcp_packets ys"
  by (induction xs rule: tcp_packets.induct) simp_all

lemma tcp_exec_append:
  "tcp_exec t ops = Inr (Some (t1, cs)) \<Longrightarrow> tcp_exec t1 ops' = Inr (Some (t2, cs')) \<Longrightarrow>
   tcp_exec t (ops @ ops') = Inr (Some (t2, cs @ cs'))"
  by (induction t ops arbitrary: cs rule: tcp_exec.induct)
    (auto split: sum.splits prod.splits option.splits simp: bindE_def)

text \<open>Errors the detector raised.\<close>

definition detector_raises :: "('d, 'f) detector_ops \<Rightarrow> py_error \<Rightarrow> bool" where
  "detector_raises ops e \<longleftrightarrow>
     (\<exists>chunk d. snd (dt_stream ops chunk d) = Inl e) \<or> (\<exists>p d. snd (dt_datagram ops p d) = Inl e)
     \<or> (\<exists>cutoff d. snd (dt_expire ops cutoff d) = Inl e)"

lemma detect_chunks_Inr:
  "detect_chunks ops cs d emitted = (d', Inr found) \<Longrightarrow>
   fst (feed_all ops (map ScanStream cs) d) = d' \<and> found = emitted @ snd (feed_all ops (map ScanStream cs) d)"
  by (induction ops cs d emitted rule: detect_chunks.induct)
    (auto split: prod.splits sum.splits simp: Let_def)

lemma detect_chunks_Inl:
  "detect_chunks ops cs d emitted = (d', Inl e) \<Longrightarrow>
   detector_raises ops e \<and> (\<exists>cs'. prefix cs' cs \<and> fst (feed_all ops (map ScanStream cs') d) = d')"
proof (induction ops cs d emitted rule: detect_chunks.induct)
  case (2 ops chunk chunks d emitted)
  obtain d1 r where r: "dt_stream ops chunk d = (d1, r)" by (cases "dt_stream ops chunk d")
  show ?case
  proof (cases r)
    case (Inl e1)
    with 2(2) r have "e1 = e" "d1 = d'" by simp_all
    with r Inl show ?thesis
      by (auto simp: detector_raises_def Let_def intro!: exI [of _ "[chunk]"] exI [of _ chunk] exI [of _ d])
  next
    case (Inr found)
    with 2(2) r have "detect_chunks ops chunks d1 (emitted @ found) = (d', Inl e)" by simp
    with 2(1) [of d1 r found] r Inr obtain cs' where "detector_raises ops e" "prefix cs' chunks"
      "fst (feed_all ops (map ScanStream cs') d1) = d'" by auto
    with r show ?thesis by (auto simp: Let_def case_prod_unfold intro!: exI [of _ "chunk # cs'"])
  qed
qed simp

section \<open>Invariant and trace\<close>

definition worker_ok :: "('d, 'f) Worker \<Rightarrow> ('d, 'f) Worker \<Rightarrow> bool" where
  "worker_ok w0 w \<longleftrightarrow>
     frag_inv (wk_fragments w) \<and> frag_limits_of (wk_fragments w) = frag_limits_of (wk_fragments w0)
     \<and> (\<exists>C H B. tcp_inv C H B (wk_tcp w)) \<and> tcp_limits_of (wk_tcp w) = tcp_limits_of (wk_tcp w0)
     \<and> wk_findings w = int (length (wk_finding_queue w)) \<and> 0 \<le> wk_parser_errors w"

text \<open>After the packets \<open>ps\<close> the two reassemblers have gone through runs of their own operations, and the calls made
  on the detector are the datagrams that arrived and chunks the TCP run emitted: all of them and with all findings
  queued, if the run was exact.\<close>

definition traced ::
  "('d, 'f) detector_ops \<Rightarrow> ('d, 'f) Worker \<Rightarrow> bool \<Rightarrow> ParsedPacket list \<Rightarrow> detector_call list \<Rightarrow> ('d, 'f) Worker \<Rightarrow> bool" where
  "traced ops w0 exact ps calls w \<longleftrightarrow>
     (\<exists>fops outs tops C. frag_exec (wk_fragments w0) fops = Inr (wk_fragments w, outs)
        \<and> fragments_of fops = filter fragmented ps
        \<and> tcp_exec (wk_tcp w0) tops = Inr (Some (wk_tcp w, C))
        \<and> tcp_packets tops = filter scanned_tcp (arrivals ps outs)
        \<and> datagram_calls calls = filter scanned_udp (arrivals ps outs)
        \<and> subseq (stream_calls calls) C \<and> (exact \<longrightarrow> stream_calls calls = C))
     \<and> wk_detector w = fst (feed_all ops calls (wk_detector w0))
     \<and> (exact \<longrightarrow> wk_finding_queue w = wk_finding_queue w0 @ snd (feed_all ops calls (wk_detector w0)))
     \<and> wk_packets w = wk_packets w0 + int (length ps)"

lemma traced_start: "traced ops w True [] [] w"
  unfolding traced_def by (intro conjI exI [of _ "[]"]) simp_all

lemma traced_extend:
  assumes tr: "traced ops w0 x ps calls w"
    and f: "frag_exec (wk_fragments w) fops' = Inr (wk_fragments w', outs')" "fragments_of fops' = filter fragmented qs"
    and t: "tcp_exec (wk_tcp w) tops' = Inr (Some (wk_tcp w', C'))"
      "tcp_packets tops' = filter scanned_tcp (arrivals qs outs')"
    and c: "datagram_calls calls' = filter scanned_udp (arrivals qs outs')" "subseq (stream_calls calls') C'"
      "wk_detector w' = fst (feed_all ops calls' (wk_detector w))"
    and n: "wk_packets w' = wk_packets w + int (length qs)"
    and e: "x' \<Longrightarrow> x" "x' \<Longrightarrow> stream_calls calls' = C'"
      "x' \<Longrightarrow> wk_finding_queue w' = wk_finding_queue w @ snd (feed_all ops calls' (wk_detector w))"
  shows "traced ops w0 x' (ps @ qs) (calls @ calls') w'"
proof -
  obtain fops outs tops C where h: "frag_exec (wk_fragments w0) fops = Inr (wk_fragments w, outs)"
    "fragments_of fops = filter fragmented ps" "tcp_exec (wk_tcp w0) tops = Inr (Some (wk_tcp w, C))"
    "tcp_packets tops = filter scanned_tcp (arrivals ps outs)" "datagram_calls calls = filter scanned_udp (arrivals ps outs)"
    "subseq (stream_calls calls) C" "x \<longrightarrow> stream_calls calls = C"
    using tr unfolding traced_def by blast
  have g: "wk_detector w = fst (feed_all ops calls (wk_detector w0))"
    "x \<longrightarrow> wk_finding_queue w = wk_finding_queue w0 @ snd (feed_all ops calls (wk_detector w0))"
    "wk_packets w = wk_packets w0 + int (length ps)"
    using tr unfolding traced_def by blast+
  have ar: "arrivals (ps @ qs) (outs @ outs') = arrivals ps outs @ arrivals qs outs'"
    by (rule arrivals_append) (simp add: frag_exec_length [OF h(1)] h(2))
  show ?thesis unfolding traced_def
  proof (intro conjI exI)
    show "frag_exec (wk_fragments w0) (fops @ fops') = Inr (wk_fragments w', outs @ outs')"
      by (rule frag_exec_append [OF h(1) f(1)])
    show "tcp_exec (wk_tcp w0) (tops @ tops') = Inr (Some (wk_tcp w', C @ C'))" by (rule tcp_exec_append [OF h(3) t(1)])
    show "subseq (stream_calls (calls @ calls')) (C @ C')" using h(6) c(2) by (simp add: list_emb_append_mono)
  qed (use h(2,4,5,7) f(2) t(2) c(1,3) n e g in
    \<open>auto simp: ar fragments_of_append tcp_packets_append feed_all_append Let_def case_prod_unfold\<close>)
qed

text \<open>Telemetry, reports and released reservations touch neither.\<close>

definition core_of where
  "core_of w = (wk_fragments w, wk_tcp w, wk_detector w, wk_packets w, wk_findings w, wk_parser_errors w, wk_finding_queue w)"

lemma core_simps [simp]:
  "core_of (fst (emit_operation full event w)) = core_of w" "core_of (emit_counted full event w) = core_of w"
  "core_of (control state entries det w) = core_of w" "core_of (count_truncated p w) = core_of w"
  "core_of (release_units m n w) = core_of w" "core_of (fatal full event entries e w) = core_of w"
  "core_of (w\<lparr>wk_last_heartbeat := now\<rparr>) = core_of w" "core_of (w\<lparr>wk_bytes_seen := n\<rparr>) = core_of w"
  by (simp_all add: core_of_def emit_operation_def emit_counted_def control_def count_truncated_def release_units_def fatal_def)

lemma ok_core: "core_of w = core_of w' \<Longrightarrow> worker_ok w0 w = worker_ok w0 w'"
  by (simp add: core_of_def worker_ok_def)

lemma traced_core: "core_of w = core_of w' \<Longrightarrow> traced ops w0 x ps calls w = traced ops w0 x ps calls w'"
  by (simp add: core_of_def traced_def)

section \<open>One packet\<close>

lemma scan_step:
  assumes ok: "worker_ok w0 w"
  obtains w' r tops cs calls where "scan_packet ops now q w = Some (w', r)" "worker_ok w0 w'"
    "wk_fragments w' = wk_fragments w" "wk_packets w' = wk_packets w" "wk_finding_queue w' = wk_finding_queue w"
    "wk_findings w' = wk_findings w" "wk_parser_errors w' = wk_parser_errors w"
    "tcp_exec (wk_tcp w) tops = Inr (Some (wk_tcp w', cs))" "tcp_packets tops = filter scanned_tcp [q]"
    "datagram_calls calls = filter scanned_udp [q]" "wk_detector w' = fst (feed_all ops calls (wk_detector w))"
    "prefix (stream_calls calls) cs" "\<forall>e. r = Inl e \<longrightarrow> detector_raises ops e"
    "\<forall>f. r = Inr f \<longrightarrow> stream_calls calls = cs \<and> f = snd (feed_all ops calls (wk_detector w))"
proof (cases "scanned_tcp q")
  case True
  obtain C H B where inv: "tcp_inv C H B (wk_tcp w)" using ok unfolding worker_ok_def by blast
  obtain t cs B' where t: "tcp_process (wk_tcp w) now q = Some (t, cs)" "tcp_inv (C @ cs) (H @ [q]) B' t"
    "tcp_limits_of t = tcp_limits_of (wk_tcp w)" using tcp_process_inv [OF inv, of now q] by blast
  obtain d r where d: "detect_chunks ops cs (wk_detector w) [] = (d, r)" by (cases "detect_chunks ops cs (wk_detector w) []")
  obtain cs' where cs': "prefix cs' cs" "fst (feed_all ops (map ScanStream cs') (wk_detector w)) = d"
    "\<And>e. r = Inl e \<Longrightarrow> detector_raises ops e"
    "\<And>f. r = Inr f \<Longrightarrow> cs' = cs \<and> f = snd (feed_all ops (map ScanStream cs') (wk_detector w))"
  proof (cases r)
    case (Inl e)
    then show ?thesis using detect_chunks_Inl [of ops cs "wk_detector w" "[]" d e] d that by auto
  next
    case (Inr f)
    then show ?thesis using detect_chunks_Inr [of ops cs "wk_detector w" "[]" d f] d that by auto
  qed
  show thesis
  proof (rule that)
    show "scan_packet ops now q w = Some (w\<lparr>wk_tcp := t, wk_detector := d\<rparr>, r)"
      using True t(1) d by (simp add: scan_packet_def scanned_tcp_def)
    show "worker_ok w0 (w\<lparr>wk_tcp := t, wk_detector := d\<rparr>)" using ok t(2,3) by (auto simp: worker_ok_def)
    show "tcp_exec (wk_tcp w) [TcpProcess now q] = Inr (Some (wk_tcp (w\<lparr>wk_tcp := t, wk_detector := d\<rparr>), cs))"
      using t(1) by simp
  qed (use True cs' in \<open>auto simp: scanned_tcp_def scanned_udp_def\<close>)
next
  case tcp: False
  show thesis
  proof (cases "scanned_udp q")
    case True
    obtain d r where d: "dt_datagram ops q (wk_detector w) = (d, r)" by (cases "dt_datagram ops q (wk_detector w)")
    show thesis
    proof (rule that [of "w\<lparr>wk_detector := d\<rparr>" r "[]" "[]" "[ScanDatagram q]"])
      show "scan_packet ops now q w = Some (w\<lparr>wk_detector := d\<rparr>, r)"
        using True d by (simp add: scan_packet_def scanned_udp_def)
      show "worker_ok w0 (w\<lparr>wk_detector := d\<rparr>)" using ok by (auto simp: worker_ok_def)
      show "\<forall>e. r = Inl e \<longrightarrow> detector_raises ops e" using d unfolding detector_raises_def by (metis snd_conv)
    qed (use True d tcp in \<open>auto simp: Let_def\<close>)
  next
    case False
    show thesis
    proof (rule that [of w "Inr []" "[]" "[]" "[]"])
      show "scan_packet ops now q w = Some (w, Inr [])"
        using False tcp by (auto simp: scan_packet_def scanned_tcp_def scanned_udp_def)
    qed (use ok False tcp in auto)
  qed
qed

lemma fragment_stage:
  assumes "frag_inv r"
  obtains r' out fops outs where
    "(if pp_fragment_id p = None then Inr (r, Some p) else fragment_process r now p) = Inr (r', out)"
    "frag_inv r'" "frag_limits_of r' = frag_limits_of r" "frag_exec r fops = Inr (r', outs)"
    "fragments_of fops = filter fragmented [p]" "arrivals [p] outs = (case out of None \<Rightarrow> [] | Some q \<Rightarrow> [decoded q])"
proof (cases "pp_fragment_id p = None")
  case True
  show thesis by (rule that [of r "Some p" "[]" "[]"]) (use True assms in \<open>auto simp: fragmented_def\<close>)
next
  case False
  obtain r' out where r: "fragment_process r now p = Inr (r', out)" "frag_inv r'" "frag_limits_of r' = frag_limits_of r"
    using fragment_process_total [OF assms, of now p] by blast
  show thesis
    by (rule that [of r' out "[FragProcess now p]" "[out]"])
      (use r False in \<open>auto simp: fragmented_def bindE_def split: option.splits\<close>)
qed

lemma decode_stage: "(if pp_transport_parsed q then Inr q else parse_transport q) = Inr (decoded q)"
  using parse_transport_total [of q] by (auto simp: decoded_def)

lemma worker_core_frame:
  assumes "core_of w' = core_of w"
  shows "wk_fragments w' = wk_fragments w" "wk_tcp w' = wk_tcp w" "wk_detector w' = wk_detector w"
    "wk_packets w' = wk_packets w" "wk_findings w' = wk_findings w" "wk_parser_errors w' = wk_parser_errors w"
    "wk_finding_queue w' = wk_finding_queue w"
  using assms by (simp_all add: core_of_def)

lemma ok_put_findings: "worker_ok w0 w \<Longrightarrow> worker_ok w0 (put_findings found w)"
  by (simp add: worker_ok_def put_findings_def)

text \<open>What the step of one packet guarantees of its result.\<close>

definition packet_done ::
  "('d, 'f) detector_ops \<Rightarrow> ('d, 'f) Worker \<Rightarrow> ParsedPacket \<Rightarrow> ('d, 'f) Worker \<Rightarrow> ('d, 'f) Worker \<times> unit result \<Rightarrow> bool" where
  "packet_done ops w0 p w wr \<longleftrightarrow> (case wr of (w', r) \<Rightarrow>
     worker_ok w0 w' \<and> wk_parser_errors w' = wk_parser_errors w \<and> (\<forall>e. r = Inl e \<longrightarrow> detector_raises ops e)
     \<and> (\<forall>x ps calls. traced ops w0 x ps calls w \<longrightarrow> (\<exists>calls'. traced ops w0 (x \<and> r = Inr ()) (ps @ [p]) calls' w')))"

lemma packet_scanned:
  assumes ok: "worker_ok w0 w4"
    and run: "frag_exec (wk_fragments w) fops = Inr (wk_fragments w4, outs)" "fragments_of fops = filter fragmented [p]"
      "arrivals [p] outs = [q]"
    and same: "wk_tcp w4 = wk_tcp w" "wk_detector w4 = wk_detector w" "wk_packets w4 = wk_packets w + 1"
      "wk_finding_queue w4 = wk_finding_queue w" "wk_parser_errors w4 = wk_parser_errors w"
  shows "\<exists>w5 r. scan_packet ops now q w4 = Some (w5, r)
    \<and> packet_done ops w0 p w (case r of Inl e \<Rightarrow> w5 | Inr emitted \<Rightarrow> put_findings emitted w5, map_sum id (\<lambda>_. ()) r)"
proof -
  obtain w5 r tops cs calls' where sc: "scan_packet ops now q w4 = Some (w5, r)" "worker_ok w0 w5"
    "wk_fragments w5 = wk_fragments w4" "wk_packets w5 = wk_packets w4" "wk_finding_queue w5 = wk_finding_queue w4"
    "wk_findings w5 = wk_findings w4" "wk_parser_errors w5 = wk_parser_errors w4"
    "tcp_exec (wk_tcp w4) tops = Inr (Some (wk_tcp w5, cs))" "tcp_packets tops = filter scanned_tcp [q]"
    "datagram_calls calls' = filter scanned_udp [q]" "wk_detector w5 = fst (feed_all ops calls' (wk_detector w4))"
    "prefix (stream_calls calls') cs" "\<forall>e. r = Inl e \<longrightarrow> detector_raises ops e"
    "\<forall>f. r = Inr f \<longrightarrow> stream_calls calls' = cs \<and> f = snd (feed_all ops calls' (wk_detector w4))"
    by (rule scan_step [OF ok, where now = now and q = q and ops = ops]) (rule that; assumption)
  define w6 where "w6 = (case r of Inl e \<Rightarrow> w5 | Inr emitted \<Rightarrow> put_findings emitted w5)"
  have ok6: "worker_ok w0 w6" using sc(2) by (simp add: w6_def ok_put_findings split: sum.split)
  have p6: "wk_fragments w6 = wk_fragments w5" "wk_tcp w6 = wk_tcp w5" "wk_detector w6 = wk_detector w5"
    "wk_packets w6 = wk_packets w5" "wk_parser_errors w6 = wk_parser_errors w5"
    by (simp_all add: w6_def put_findings_def split: sum.split)
  have q6: "wk_finding_queue w6 = wk_finding_queue w5 @ f" if "r = Inr f" for f using that by (simp add: w6_def put_findings_def)
  have tr: "traced ops w0 (x \<and> map_sum id (\<lambda>_. ()) r = Inr ()) (ps @ [p]) (calls @ calls') w6"
    if "traced ops w0 x ps calls w" for x ps calls
  proof (rule traced_extend [OF that, of fops _ outs "[p]" tops cs])
    show "subseq (stream_calls calls') cs" using sc(12) by (rule prefix_imp_subseq)
    assume e: "x \<and> map_sum id (\<lambda>_. ()) r = Inr ()"
    then obtain f where f: "r = Inr f" by (cases r) auto
    show "wk_finding_queue w6 = wk_finding_queue w @ snd (feed_all ops calls' (wk_detector w))"
      using sc(14) f q6 [OF f] sc(5) same by simp
    show "stream_calls calls' = cs" using sc(14) f by blast
  qed (use run sc p6 same in simp_all)
  have "packet_done ops w0 p w (w6, map_sum id (\<lambda>_. ()) r)"
    unfolding packet_done_def prod.case using ok6 tr sc(7,13) p6 same by (cases r) auto
  with sc(1) show ?thesis unfolding w6_def by blast
qed

lemma packet_body_step:
  assumes ok: "worker_ok w0 w"
  shows "\<exists>wr. packet_body ops env p w = Some wr \<and> packet_done ops w0 p w wr"
proof -
  let ?w1 = "w\<lparr>wk_packets := wk_packets w + 1, wk_bytes_seen := wk_bytes_seen w + pp_captured_length p\<rparr>"
  define w2 where "w2 = (if pp_truncated p then count_truncated p ?w1 else ?w1)"
  have c2: "core_of w2 = core_of ?w1" by (simp add: w2_def)
  note f2 = worker_core_frame [OF c2, simplified]
  have "frag_inv (wk_fragments w2)" using ok f2 by (simp add: worker_ok_def)
  from fragment_stage [OF this, where now = "pe_fragment_now env" and p = p]
  obtain r' out fops outs where st:
    "(if pp_fragment_id p = None then Inr (wk_fragments w2, Some p)
      else fragment_process (wk_fragments w2) (pe_fragment_now env) p) = Inr (r', out)"
    "frag_inv r'" "frag_limits_of r' = frag_limits_of (wk_fragments w2)" "frag_exec (wk_fragments w2) fops = Inr (r', outs)"
    "fragments_of fops = filter fragmented [p]" "arrivals [p] outs = (case out of None \<Rightarrow> [] | Some q \<Rightarrow> [decoded q])"
    by blast
  define w3 where "w3 = w2\<lparr>wk_fragments := r'\<rparr>"
  have ok3: "worker_ok w0 w3" using ok st(2,3) f2 by (simp add: worker_ok_def w3_def)
  show ?thesis
  proof (cases out)
    case None
    have "packet_body ops env p w = Some (w3, Inr ())"
      unfolding packet_body_def w2_def [symmetric] Let_def by (simp add: st(1) None w3_def split del: if_split)
    moreover have "traced ops w0 x (ps @ [p]) (calls @ []) w3" if "traced ops w0 x ps calls w" for x ps calls
      by (rule traced_extend [OF that, of fops _ outs "[p]" "[]" "[]"])
        (use st None f2 in \<open>auto simp: w3_def fragmented_def\<close>)
    ultimately show ?thesis using ok3 f2 unfolding packet_done_def by (auto simp: w3_def)
  next
    case (Some q)
    define w4 where "w4 = (if pp_truncated (decoded q) \<and> \<not> pp_truncated p then count_truncated (decoded q) w3 else w3)"
    have c4: "core_of w4 = core_of w3" by (simp add: w4_def)
    note f4 = worker_core_frame [OF c4, unfolded w3_def, simplified, folded w3_def]
    have "worker_ok w0 w4" using ok3 ok_core [OF c4] by blast
    then obtain w5 r where sc: "scan_packet ops (pe_tcp_now env) (decoded q) w4 = Some (w5, r)"
      "packet_done ops w0 p w (case r of Inl e \<Rightarrow> w5 | Inr emitted \<Rightarrow> put_findings emitted w5, map_sum id (\<lambda>_. ()) r)"
      using packet_scanned [of w0 w4 w fops outs p "decoded q" ops "pe_tcp_now env"] st(4-6) Some f2 f4 by (auto simp: w3_def)
    have "packet_body ops env p w
        = Some (case r of Inl e \<Rightarrow> w5 | Inr emitted \<Rightarrow> put_findings emitted w5, map_sum id (\<lambda>_. ()) r)"
      unfolding packet_body_def w2_def [symmetric] Let_def st(1) Some
      by (simp add: decode_stage w4_def [unfolded w3_def, symmetric] sc(1) split: sum.split split del: if_split)
    then show ?thesis using sc(2) by blast
  qed
qed

section \<open>Items, heartbeats, rounds\<close>

definition breaker_error :: py_error where
  "breaker_error = RuntimeError ''detector parser errors exceeded 100 and 10% of scan attempts''"

text \<open>What a step that takes the packets \<open>qs\<close> guarantees of its result.\<close>

definition step_done ::
  "('d, 'f) detector_ops \<Rightarrow> ('d, 'f) Worker \<Rightarrow> ParsedPacket list \<Rightarrow> ('d, 'f) Worker \<Rightarrow> ('d, 'f) Worker \<times> unit result \<Rightarrow> bool" where
  "step_done ops w0 qs w wr \<longleftrightarrow> (case wr of (w', r) \<Rightarrow>
     worker_ok w0 w' \<and> (\<forall>e. r = Inl e \<longrightarrow> detector_raises ops e \<or> e = breaker_error)
     \<and> (r = Inr () \<longrightarrow> (\<forall>ps calls. traced ops w0 (wk_parser_errors w = 0) ps calls w
          \<longrightarrow> (\<exists>calls'. traced ops w0 (wk_parser_errors w' = 0) (ps @ qs) calls' w'))))"

lemma step_done_ok: "step_done ops w0 qs w (w', r) \<Longrightarrow> worker_ok w0 w'"
  by (simp add: step_done_def)

lemma step_done_refl: "worker_ok w0 w \<Longrightarrow> step_done ops w0 [] w (w, Inr ())"
  by (auto simp: step_done_def)

lemma step_done_trans:
  assumes "step_done ops w0 qs w (w1, Inr u)" "step_done ops w0 qs' w1 wr"
  shows "step_done ops w0 (qs @ qs') w wr"
proof -
  obtain w2 r where wr: "wr = (w2, r)" by (cases wr)
  have "\<exists>calls2. traced ops w0 (wk_parser_errors w2 = 0) (ps @ qs @ qs') calls2 w2"
    if r: "r = Inr ()" and tr: "traced ops w0 (wk_parser_errors w = 0) ps calls w" for ps calls
  proof -
    obtain calls1 where "traced ops w0 (wk_parser_errors w1 = 0) (ps @ qs) calls1 w1"
      using assms(1) tr unfolding step_done_def by fastforce
    then show ?thesis using assms(2) r unfolding step_done_def wr by fastforce
  qed
  then show ?thesis using assms(2) unfolding step_done_def wr by auto
qed

lemma step_done_core:
  assumes "step_done ops w0 qs w (w1, r)" "core_of w2 = core_of w1"
  shows "step_done ops w0 qs w (w2, r)"
  using assms(1) ok_core [OF assms(2)] traced_core [OF assms(2)] worker_core_frame(6) [OF assms(2)] by (simp add: step_done_def)

lemma step_done_error: "step_done ops w0 qs w (w', Inl e) \<Longrightarrow> step_done ops w0 qs' w (w', Inl e)"
  by (simp add: step_done_def)

lemma worker_packet_step:
  assumes "worker_ok w0 w"
  shows "\<exists>wr. worker_packet ops env p w = Some wr \<and> step_done ops w0 [p] w wr"
proof -
  obtain w1 r where b: "packet_body ops env p w = Some (w1, r)" "packet_done ops w0 p w (w1, r)"
    using packet_body_step [OF assms, of ops env p] by (metis surj_pair)
  have d: "worker_ok w0 w1" "wk_parser_errors w1 = wk_parser_errors w" "\<forall>e. r = Inl e \<longrightarrow> detector_raises ops e"
    "\<And>x ps calls. traced ops w0 x ps calls w \<Longrightarrow> \<exists>calls'. traced ops w0 (x \<and> r = Inr ()) (ps @ [p]) calls' w1"
    using b(2) unfolding packet_done_def prod.case by blast+
  show ?thesis
  proof (cases r)
    case (Inr u)
    then show ?thesis using b(1) d by (auto simp: worker_packet_def step_done_def)
  next
    case (Inl e)
    have fatal: "step_done ops w0 [p] w (w1, Inl e)" using d(1,3) Inl by (simp add: step_done_def)
    show ?thesis
    proof (cases "\<exists>m. e = PacketDecodeError m")
      case True
      let ?w2 = "w1\<lparr>wk_parser_errors := wk_parser_errors w1 + 1\<rparr>"
      have ok2: "worker_ok w0 ?w2" using d(1) by (simp add: worker_ok_def)
      have "\<exists>calls'. traced ops w0 False (ps @ [p]) calls' ?w2" if "traced ops w0 x ps calls w" for x ps calls
        using d(4) [OF that] Inl by (auto simp: traced_def)
      moreover have "wk_parser_errors ?w2 \<noteq> 0" using d(1) by (simp add: worker_ok_def)
      ultimately have "step_done ops w0 [p] w (?w2, Inr ())" using ok2 unfolding step_done_def by auto
      then have "step_done ops w0 [p] w (emit_counted (pe_full env) ''worker_packet_error'' ?w2, Inr ())"
        by (rule step_done_core) simp
      then show ?thesis using True b(1) Inl by (auto simp: worker_packet_def)
    next
      case False
      then have "worker_packet ops env p w
          = Some (fatal (pe_full env) ''worker_fatal_error'' [(''packet_id'', pp_packet_id p)] e w1, Inl e)"
        using b(1) Inl by (cases e) (auto simp: worker_packet_def)
      then show ?thesis using step_done_core [OF fatal, of "fatal (pe_full env) ''worker_fatal_error'' [(''packet_id'', pp_packet_id p)] e w1"]
        by simp
    qed
  qed
qed

definition batch_packets :: "batch \<Rightarrow> ParsedPacket list" where
  "batch_packets batch = List.map_filter snd batch"

lemma worker_batch_step:
  "worker_ok w0 w \<Longrightarrow> \<exists>wr. worker_batch ops batch w = Some wr \<and> step_done ops w0 (batch_packets batch) w wr"
proof (induction ops batch w rule: worker_batch.induct)
  case (1 ops w)
  then show ?case by (simp add: batch_packets_def step_done_refl)
next
  case (2 ops env batch w)
  then show ?case by (simp add: batch_packets_def map_filter_simps)
next
  case (3 ops env p batch w)
  obtain w1 r where b: "worker_packet ops env p w = Some (w1, r)" "step_done ops w0 [p] w (w1, r)"
    using worker_packet_step [OF 3(2), of ops env p] by (metis surj_pair)
  have ps: "batch_packets ((env, Some p) # batch) = [p] @ batch_packets batch"
    by (simp add: batch_packets_def map_filter_simps)
  show ?case
  proof (cases r)
    case (Inl e)
    then show ?thesis using b step_done_error by auto
  next
    case (Inr u)
    then obtain wr where "worker_batch ops batch w1 = Some wr" "step_done ops w0 (batch_packets batch) w1 wr"
      using 3(1) [OF b(1) refl Inr] step_done_ok [OF b(2)] by blast
    then show ?thesis using b Inr step_done_trans [of ops w0 "[p]" w w1 u] unfolding ps by auto
  qed
qed

fun item_packets :: "work_item \<Rightarrow> ParsedPacket list" where
  "item_packets StopItem = []"
| "item_packets (Reserved batch reserved) = batch_packets batch"
| "item_packets (Unreserved batch) = batch_packets batch"

lemma worker_item_step:
  assumes "worker_ok w0 w"
  shows "\<exists>wr. worker_item ops item w = Some wr \<and> step_done ops w0 (item_packets item) w wr"
proof (cases item)
  case StopItem
  then show ?thesis using step_done_refl [OF assms] by (simp add: worker_item_def)
next
  case (Reserved batch reserved)
  obtain w1 r where "worker_batch ops batch w = Some (w1, r)" "step_done ops w0 (batch_packets batch) w (w1, r)"
    using worker_batch_step [OF assms, of ops batch] by (metis surj_pair)
  then show ?thesis using Reserved step_done_core [of ops w0 _ w w1 r] by (simp add: worker_item_def)
next
  case (Unreserved batch)
  obtain w1 r where "worker_batch ops batch w = Some (w1, r)" "step_done ops w0 (batch_packets batch) w (w1, r)"
    using worker_batch_step [OF assms, of ops batch] by (metis surj_pair)
  then show ?thesis using Unreserved step_done_core [of ops w0 _ w w1 r] by (simp add: worker_item_def)
qed

lemma worker_ok_detector [simp]: "worker_ok w0 (w\<lparr>wk_detector := d\<rparr>) = worker_ok w0 w"
  by (simp add: worker_ok_def)

lemma scan_chunks_core:
  assumes "scan_chunks ops cs w = (w', r)"
  shows "wk_fragments w' = wk_fragments w \<and> wk_tcp w' = wk_tcp w \<and> wk_packets w' = wk_packets w
      \<and> wk_parser_errors w' = wk_parser_errors w \<and> (worker_ok w0 w \<longrightarrow> worker_ok w0 w')
      \<and> (\<forall>e. r = Inl e \<longrightarrow> detector_raises ops e)
      \<and> (r = Inr () \<longrightarrow> wk_detector w' = fst (feed_all ops (map ScanStream cs) (wk_detector w))
           \<and> wk_finding_queue w' = wk_finding_queue w @ snd (feed_all ops (map ScanStream cs) (wk_detector w)))"
  using assms
proof (induction ops cs w rule: scan_chunks.induct)
  case (2 ops chunk chunks w)
  obtain d s where s: "dt_stream ops chunk (wk_detector w) = (d, s)" by (cases "dt_stream ops chunk (wk_detector w)")
  show ?case
  proof (cases s)
    case (Inl e)
    have "detector_raises ops e" using s Inl unfolding detector_raises_def by (metis snd_conv)
    with 2(2) s Inl show ?thesis by auto
  next
    case (Inr found)
    let ?w = "put_findings found (w\<lparr>wk_detector := d\<rparr>)"
    have "scan_chunks ops chunks ?w = (w', r)" using 2(2) s Inr by simp
    note ih = 2(1) [OF s [symmetric] Inr this]
    have "worker_ok w0 w \<Longrightarrow> worker_ok w0 ?w" by (simp add: ok_put_findings)
    then show ?thesis using ih s Inr by (auto simp: put_findings_def Let_def case_prod_unfold)
  qed
qed auto

lemma worker_beat_core:
  assumes "worker_beat ops env n cs m w = (w', r)"
  shows "core_of w' = core_of w" "r = Inr () \<or> r = Inl breaker_error"
  using assms by (auto simp: worker_beat_def Let_def breaker_error_def split: if_splits)

lemma worker_expire_step:
  assumes ok: "worker_ok w0 w"
  shows "\<exists>wr. worker_expire ops cfg env w = Some wr \<and> step_done ops w0 [] w wr"
proof -
  define cutoff where "cutoff = hb_detector_now env - num cfg ''flow_idle_seconds'' * 1000000000"
  obtain C H B where "frag_inv (wk_fragments w)" "tcp_inv C H B (wk_tcp w)" using ok unfolding worker_ok_def by blast
  note fr = fragment_expire_facts(1,2) [OF this(1), of "hb_fragment_now env" False] and inv = this(2)
  obtain f n where f: "fragment_expire (wk_fragments w) (hb_fragment_now env) False = (f, n)"
    by (cases "fragment_expire (wk_fragments w) (hb_fragment_now env) False")
  obtain t cs where t: "tcp_expire (wk_tcp w) (hb_tcp_now env) False = Inr (Some (t, cs))" "tcp_inv (C @ cs) H B t"
    "tcp_limits_of t = tcp_limits_of (wk_tcp w)" using tcp_expire_inv [OF inv] by blast
  obtain d s where d: "dt_expire ops cutoff (wk_detector w) = (d, s)" by (cases "dt_expire ops cutoff (wk_detector w)")
  define w1 where "w1 = w\<lparr>wk_fragments := f, wk_tcp := t, wk_detector := d\<rparr>"
  have ok1: "worker_ok w0 w1" using ok fr f t(2,3) unfolding worker_ok_def w1_def by auto
  obtain w2 r where sc: "scan_chunks ops cs w1 = (w2, r)" by (cases "scan_chunks ops cs w1")
  note fin = scan_chunks_core [OF sc, of w0]
  have e: "worker_expire ops cfg env w =
      (case s of Inl e \<Rightarrow> Some (w1, Inl e)
       | Inr m \<Rightarrow> (case r of Inl e \<Rightarrow>
             Some (fatal (hb_full env ''expired_flow_detection_fatal'') ''expired_flow_detection_fatal'' [] e w2, Inl e)
           | Inr _ \<Rightarrow> Some (worker_beat ops env n cs m w2)))"
    by (auto simp: worker_expire_def f t(1) cutoff_def [symmetric] d sc w1_def [symmetric] split: sum.split)
  show ?thesis
  proof (cases s)
    case (Inl x)
    then have "detector_raises ops x" using d unfolding detector_raises_def by (metis snd_conv)
    then show ?thesis using e Inl ok1 by (auto simp: step_done_def)
  next
    case s: (Inr m)
    show ?thesis
    proof (cases r)
      case (Inl x)
      then have "step_done ops w0 [] w (w2, Inl x)" using fin ok1 by (auto simp: step_done_def)
      then show ?thesis using e s Inl step_done_core [of ops w0 "[]" w w2 "Inl x"] by simp
    next
      case (Inr u)
      have "traced ops w0 (wk_parser_errors w2 = 0) (ps @ []) (calls @ ExpireFlows cutoff # map ScanStream cs) w2"
        if "traced ops w0 (wk_parser_errors w = 0) ps calls w" for ps calls
      proof (rule traced_extend [OF that, of "[FragExpire (hb_fragment_now env) False]" _ "[]" "[]"
            "[TcpExpire (hb_tcp_now env) False]" cs])
        show "frag_exec (wk_fragments w) [FragExpire (hb_fragment_now env) False] = Inr (wk_fragments w2, [])"
          using f fin by (simp add: w1_def)
        show "tcp_exec (wk_tcp w) [TcpExpire (hb_tcp_now env) False] = Inr (Some (wk_tcp w2, cs))"
          using t(1) fin by (simp add: w1_def)
      qed (use fin Inr d in \<open>auto simp: w1_def Let_def case_prod_unfold\<close>)
      then have done2: "step_done ops w0 [] w (w2, Inr ())" using fin ok1 unfolding step_done_def by auto
      obtain w3 r3 where b: "worker_beat ops env n cs m w2 = (w3, r3)" by (cases "worker_beat ops env n cs m w2")
      have "step_done ops w0 [] w (w3, r3)"
        using step_done_core [OF done2 worker_beat_core(1) [OF b]] worker_beat_core(2) [OF b]
        by (auto simp: step_done_def)
      then show ?thesis using e s Inr b by simp
    qed
  qed
qed

lemma worker_round_step:
  assumes "worker_ok w0 w"
  shows "\<exists>wr. worker_round ops cfg round w = Some wr \<and> step_done ops w0 (item_packets (fst round)) w wr"
proof -
  obtain w1 r where i: "worker_item ops (fst round) w = Some (w1, r)" "step_done ops w0 (item_packets (fst round)) w (w1, r)"
    using worker_item_step [OF assms, of ops "fst round"] by (metis surj_pair)
  show ?thesis
  proof (cases r)
    case (Inr u)
    have ok1: "worker_ok w0 w1" by (rule step_done_ok [OF i(2)])
    have "\<exists>wr. worker_heartbeat ops cfg (snd round) w1 = Some wr \<and> step_done ops w0 [] w1 wr"
      using worker_expire_step [OF ok1] step_done_refl [OF ok1] by (auto simp: worker_heartbeat_def)
    then show ?thesis using i Inr step_done_trans [of ops w0 "item_packets (fst round)" w w1 u "[]"]
      by (auto simp: worker_round_def)
  qed (use i in \<open>auto simp: worker_round_def\<close>)
qed

text \<open>The packets taken up to the stop item.\<close>

fun worker_packets :: "round list \<Rightarrow> ParsedPacket list" where
  "worker_packets [] = []"
| "worker_packets ((item, env) # rounds) = (if item = StopItem then [] else item_packets item @ worker_packets rounds)"

lemma worker_loop_step:
  "worker_ok w0 w \<Longrightarrow> StopItem \<in> fst ` set rounds \<Longrightarrow>
   \<exists>wr. worker_loop ops cfg rounds w = Some wr \<and> step_done ops w0 (worker_packets rounds) w wr"
proof (induction rounds arbitrary: w)
  case (Cons round rounds)
  obtain item env where rd: "round = (item, env)" by (cases round)
  obtain w1 r where b: "worker_round ops cfg round w = Some (w1, r)" "step_done ops w0 (item_packets item) w (w1, r)"
    using worker_round_step [OF Cons.prems(1), of ops cfg round] rd by (metis fst_conv surj_pair)
  show ?case
  proof (cases r)
    case (Inl e)
    then show ?thesis using b step_done_error by auto
  next
    case (Inr u)
    show ?thesis
    proof (cases "item = StopItem")
      case True
      then show ?thesis using b Inr rd by auto
    next
      case False
      then have "StopItem \<in> fst ` set rounds" using Cons.prems(2) rd by auto
      from Cons.IH [OF step_done_ok [OF b(2)] this] obtain wr where "worker_loop ops cfg rounds w1 = Some wr"
        "step_done ops w0 (worker_packets rounds) w1 wr" by blast
      then show ?thesis using b Inr False rd step_done_trans [of ops w0 "item_packets item" w w1 u] by auto
    qed
  qed
qed simp

section \<open>Shutdown\<close>

text \<open>The last report of a worker that stops: state, counts.\<close>

definition final_report :: "('d, 'f) Worker \<Rightarrow> Report \<Rightarrow> bool" where
  "final_report w report \<longleftrightarrow>
     wk_control w \<noteq> [] \<and> last (wk_control w) = WorkerReport (Some (wk_id w, wk_pid w)) report
     \<and> rp_state report = ''stopped'' \<and> od_get (rp_counters report) ''packets'' = Some (wk_packets w)
     \<and> od_get (rp_counters report) ''findings'' = Some (wk_findings w)
     \<and> od_get (rp_counters report) ''parser_errors'' = Some (wk_parser_errors w)"

lemma od_get_fold_put:
  "key \<notin> fst ` set entries \<Longrightarrow> od_get (fold (\<lambda>(k, v). od_put k v) entries d) key = od_get d key"
  by (induction entries arbitrary: d) (auto simp: od_get_put)

lemma stopped_report:
  "final_report (control ''stopped'' (stopped_fields w) det w) (worker_report ''stopped'' (stopped_fields w) det w)"
proof -
  have "''packets'' \<notin> fst ` set (stopped_fields w)" "''findings'' \<notin> fst ` set (stopped_fields w)"
    "''parser_errors'' \<notin> fst ` set (stopped_fields w)"
    by (simp_all add: stopped_fields_def health_fields_def buffer_fields_def)
  then show ?thesis
    by (simp add: final_report_def control_def worker_report_def od_get_fold_put) (simp add: base_counters_def od_get_def)
qed

text \<open>What the end of the process guarantees: the flush continues the TCP run.\<close>

definition process_done ::
  "('d, 'f) detector_ops \<Rightarrow> ('d, 'f) Worker \<Rightarrow> ParsedPacket list \<Rightarrow> ('d, 'f) Worker \<Rightarrow> bool" where
  "process_done ops w0 ps w \<longleftrightarrow>
     (\<exists>fops outs tops t C F calls. frag_exec (wk_fragments w0) fops = Inr (wk_fragments w, outs)
        \<and> fragments_of fops = filter fragmented ps
        \<and> tcp_exec (wk_tcp w0) tops = Inr (Some (t, C)) \<and> tcp_flush_all t (Some Gapped) = Inr (Some (wk_tcp w, F))
        \<and> tcp_packets tops = filter scanned_tcp (arrivals ps outs)
        \<and> datagram_calls calls = filter scanned_udp (arrivals ps outs)
        \<and> wk_detector w = fst (feed_all ops calls (wk_detector w0)) \<and> subseq (stream_calls calls) (C @ F)
        \<and> (wk_parser_errors w = 0 \<longrightarrow> stream_calls calls = C @ F
             \<and> wk_finding_queue w = wk_finding_queue w0 @ snd (feed_all ops calls (wk_detector w0))))"

lemma worker_stop_step:
  assumes ok: "worker_ok w0 w"
  shows "\<exists>w' r. worker_stop ops full w = Some (w', r) \<and> worker_ok w0 w' \<and> (\<forall>e. r = Inl e \<longrightarrow> detector_raises ops e)
    \<and> (r = Inr () \<longrightarrow> tr_flows (wk_tcp w') = [] \<and> wk_packets w' = wk_packets w \<and> (\<exists>report. final_report w' report)
        \<and> (\<forall>ps calls. traced ops w0 (wk_parser_errors w = 0) ps calls w \<longrightarrow> process_done ops w0 ps w'))"
proof -
  obtain C H B where "tcp_inv C H B (wk_tcp w)" using ok unfolding worker_ok_def by blast
  then obtain t cs where t: "tcp_flush_all (wk_tcp w) (Some Gapped) = Inr (Some (t, cs))" "tr_flows t = []"
    "\<exists>C'. tcp_inv C' H B t" "tcp_limits_of t = tcp_limits_of (wk_tcp w)" using flush_all_inv by blast
  let ?w = "w\<lparr>wk_tcp := t\<rparr>"
  have ok1: "worker_ok w0 ?w" using ok t(3,4) by (auto simp: worker_ok_def)
  obtain w1 r where sc: "scan_chunks ops cs ?w = (w1, r)" by (cases "scan_chunks ops cs ?w")
  note fin = scan_chunks_core [OF sc, of w0]
  have ok2: "worker_ok w0 w1" using fin ok1 by blast
  show ?thesis
  proof (cases r)
    case (Inl e)
    define w2 where "w2 = (if e = KeyboardInterrupt then w1
      else control ''fatal'' [] None (emit_counted (full ''worker_flush_fatal'') ''worker_flush_fatal'' w1))"
    have "core_of w2 = core_of w1" by (simp add: w2_def)
    then have "worker_ok w0 w2" using ok2 ok_core by blast
    moreover have "worker_stop ops full w = Some (w2, Inl e)" using t(1) sc Inl by (simp add: worker_stop_def w2_def)
    ultimately show ?thesis using fin Inl by auto
  next
    case (Inr u)
    define w2 where "w2 = emit_counted (full ''worker_stopped'') ''worker_stopped'' w1"
    define w3 where "w3 = control ''stopped'' (stopped_fields w2) (Some (dt_stats ops (wk_detector w2))) w2"
    have core: "core_of w3 = core_of w1" by (simp add: w2_def w3_def)
    note c = worker_core_frame [OF core]
    have run: "worker_stop ops full w = Some (w3, Inr ())" using t(1) sc Inr by (simp add: worker_stop_def w2_def w3_def Let_def)
    have report: "\<exists>report. final_report w3 report" unfolding w3_def by (intro exI) (rule stopped_report)
    have "process_done ops w0 ps w3" if tr: "traced ops w0 (wk_parser_errors w = 0) ps calls w" for ps calls
    proof -
      obtain fops outs tops C where h: "frag_exec (wk_fragments w0) fops = Inr (wk_fragments w, outs)"
        "fragments_of fops = filter fragmented ps" "tcp_exec (wk_tcp w0) tops = Inr (Some (wk_tcp w, C))"
        "tcp_packets tops = filter scanned_tcp (arrivals ps outs)" "datagram_calls calls = filter scanned_udp (arrivals ps outs)"
        "subseq (stream_calls calls) C" "wk_parser_errors w = 0 \<longrightarrow> stream_calls calls = C"
        using tr unfolding traced_def by blast
      have g: "wk_detector w = fst (feed_all ops calls (wk_detector w0))" "wk_parser_errors w = 0 \<longrightarrow>
        wk_finding_queue w = wk_finding_queue w0 @ snd (feed_all ops calls (wk_detector w0))"
        using tr unfolding traced_def by blast+
      show ?thesis unfolding process_done_def
      proof (intro exI conjI)
        show "subseq (stream_calls (calls @ map ScanStream cs)) (C @ cs)" using h(6) by (simp add: list_emb_append_mono)
      qed (use h(1-5,7) t(1) fin Inr g c in \<open>auto simp: feed_all_append Let_def case_prod_unfold\<close>)
    qed
    then show ?thesis using run report ok2 ok_core [OF core] t(2) fin c by auto
  qed
qed

lemma worker_init_start:
  assumes "worker_init cfg worker_id pid epoch_namespace now bytes batches detector = Inr w0"
  shows "worker_ok w0 w0" "wk_packets w0 = 0" "wk_finding_queue w0 = []" "wk_parser_errors w0 = 0" "wk_detector w0 = detector"
    "wk_id w0 = worker_id" "wk_pid w0 = pid"
proof -
  obtain f t where i: "worker_fragments cfg = Inr f" "worker_tcp cfg epoch_namespace = Inr t"
    "wk_fragments w0 = f" "wk_tcp w0 = t" "wk_findings w0 = 0"
    and rest: "wk_packets w0 = 0" "wk_finding_queue w0 = []" "wk_parser_errors w0 = 0" "wk_detector w0 = detector"
    "wk_id w0 = worker_id" "wk_pid w0 = pid"
    using assms by (auto simp: worker_init_def bindE_def split: sum.splits)
  have "frag_inv f" using i(1) fragment_init_facts(1) unfolding worker_fragments_def by blast
  moreover have "tcp_inv [] [] undefined t" using i(2) tcp_init_inv unfolding worker_tcp_def by blast
  ultimately show "worker_ok w0 w0" using i rest unfolding worker_ok_def by auto
qed (use assms in \<open>auto simp: worker_init_def bindE_def split: sum.splits\<close>)

lemma worker_process_step:
  assumes init: "worker_init cfg worker_id pid epoch_namespace now bytes batches detector = Inr w0"
    and stop: "StopItem \<in> fst ` set rounds"
  shows "\<exists>w r. worker_process ops cfg full rounds w0 = Some (w, r) \<and> worker_ok w0 w
    \<and> (\<forall>e. r = Inl e \<longrightarrow> detector_raises ops e \<or> e = breaker_error)
    \<and> (r = Inr () \<longrightarrow> tr_flows (wk_tcp w) = [] \<and> wk_packets w = int (length (worker_packets rounds))
        \<and> (\<exists>report. final_report w report) \<and> process_done ops w0 (worker_packets rounds) w)"
proof -
  let ?w1 = "emit_counted (full ''worker_started'') ''worker_started'' (control ''ready'' [] None w0)"
  have core: "core_of ?w1 = core_of w0" by simp
  have ok1: "worker_ok w0 ?w1" using worker_init_start(1) [OF init] ok_core [OF core] by blast
  have tr1: "traced ops w0 (wk_parser_errors ?w1 = 0) [] [] ?w1"
    using traced_start [of ops w0] traced_core [OF core] worker_init_start(4) [OF init] worker_core_frame(6) [OF core] by simp
  obtain w2 r where l: "worker_loop ops cfg rounds ?w1 = Some (w2, r)" "step_done ops w0 (worker_packets rounds) ?w1 (w2, r)"
    using worker_loop_step [OF ok1 stop] by (metis surj_pair)
  have ok2: "worker_ok w0 w2" by (rule step_done_ok [OF l(2)])
  show ?thesis
  proof (cases r)
    case (Inl e)
    then have "worker_process ops cfg full rounds w0 = Some (w2, Inl e)" using l(1) by (simp add: worker_process_def)
    then show ?thesis using l(2) ok2 Inl by (auto simp: step_done_def)
  next
    case (Inr u)
    then have run: "worker_process ops cfg full rounds w0 = worker_stop ops full w2" using l(1) by (simp add: worker_process_def)
    obtain calls where tr2: "traced ops w0 (wk_parser_errors w2 = 0) (worker_packets rounds) calls w2"
      using l(2) tr1 Inr unfolding step_done_def by fastforce
    then have "wk_packets w2 = int (length (worker_packets rounds))"
      using worker_init_start(2) [OF init] unfolding traced_def by simp
    then show ?thesis using worker_stop_step [OF ok2, of ops full] tr2 unfolding run by fastforce
  qed
qed

lemma worker_init_valid:
  assumes "validate resolve cfg = Inr u" "0 \<le> epoch_namespace"
  shows "\<exists>w0. worker_init cfg worker_id pid epoch_namespace now bytes batches detector = Inr w0
    \<and> fr_max_buffered_bytes (wk_fragments w0)
        = max 1048576 (min (num cfg ''max_reassembly_bytes_per_worker'' div 4) (64 * 1024 * 1024))
    \<and> tr_max_buffered_bytes (wk_tcp w0) = num cfg ''max_reassembly_bytes_per_worker''
    \<and> tr_max_flows (wk_tcp w0) = num cfg ''max_flows_per_worker''"
proof -
  have a: "\<forall>c \<in> set (analysis_checks cfg). \<not> fst c" using assms(1) unfolding validate_Inr_iff by blast
  have "num cfg ''flow_idle_seconds'' > 0" "num cfg ''max_flows_per_worker'' \<ge> 1" "num cfg ''max_stream_bytes_per_direction'' \<ge> 1"
    "num cfg ''max_out_of_order_bytes_per_direction'' \<ge> 1"
    "num cfg ''max_reassembly_bytes_per_worker'' \<ge> num cfg ''max_out_of_order_bytes_per_direction''"
    using a by (simp_all add: analysis_checks_def not_le not_less)
  then show ?thesis using assms(2)
    by (auto simp: worker_init_def worker_fragments_def worker_tcp_def fragment_init_def tcp_init_def Let_def)
qed

lemma worker_ok_bounds:
  assumes "worker_ok w0 w"
  shows "fr_buffered_bytes (wk_fragments w) \<le> fr_max_buffered_bytes (wk_fragments w0)"
    and "tr_buffered_bytes (wk_tcp w) \<le> tr_max_buffered_bytes (wk_tcp w0)"
    and "int (length (tr_flows (wk_tcp w))) \<le> tr_max_flows (wk_tcp w0)"
    and "wk_findings w = int (length (wk_finding_queue w))"
  using assms
  by (auto simp: worker_ok_def frag_inv_def fragment_over_limits_def frag_limits_of_def tcp_inv_def tcp_over_budget_def tcp_limits_of_def)

section \<open>Reservations\<close>

definition counters_of :: "('d, 'f) Worker \<Rightarrow> int \<times> int" where
  "counters_of w = (wk_byte_counter w, wk_batch_counter w)"

lemma counters_simps [simp]:
  "counters_of (fst (emit_operation full event w)) = counters_of w" "counters_of (emit_counted full event w) = counters_of w"
  "counters_of (control state entries det w) = counters_of w" "counters_of (count_truncated p w) = counters_of w"
  "counters_of (fatal full event entries e w) = counters_of w" "counters_of (put_findings found w) = counters_of w"
  "counters_of (w\<lparr>wk_fragments := f\<rparr>) = counters_of w" "counters_of (w\<lparr>wk_tcp := t\<rparr>) = counters_of w"
  "counters_of (w\<lparr>wk_detector := d\<rparr>) = counters_of w" "counters_of (w\<lparr>wk_parser_errors := n\<rparr>) = counters_of w"
  "counters_of (w\<lparr>wk_packets := n, wk_bytes_seen := m\<rparr>) = counters_of w"
  by (simp_all add: counters_of_def emit_operation_def emit_counted_def control_def count_truncated_def fatal_def put_findings_def)

lemma scan_packet_counters: "scan_packet ops now q w = Some (w', r) \<Longrightarrow> counters_of w' = counters_of w"
  by (auto simp: scan_packet_def case_prod_unfold Let_def split: if_splits option.splits)

lemma packet_body_counters:
  assumes "packet_body ops env p w = Some (w', r)"
  shows "counters_of w' = counters_of w"
proof -
  define w2 where "w2 = (let w1 = w\<lparr>wk_packets := wk_packets w + 1, wk_bytes_seen := wk_bytes_seen w + pp_captured_length p\<rparr>
    in if pp_truncated p then count_truncated p w1 else w1)"
  have c2: "counters_of w2 = counters_of w" by (simp add: w2_def Let_def)
  show ?thesis using assms c2 unfolding packet_body_def Let_def w2_def [unfolded Let_def, symmetric]
    by (auto split: sum.splits option.splits prod.splits if_split_asm dest!: scan_packet_counters split del: if_split)
qed

lemma worker_packet_counters: "worker_packet ops env p w = Some (w', r) \<Longrightarrow> counters_of w' = counters_of w"
  by (auto simp: worker_packet_def split: option.splits prod.splits sum.splits py_error.splits dest!: packet_body_counters)

lemma worker_batch_counters: "worker_batch ops batch w = Some (w', r) \<Longrightarrow> counters_of w' = counters_of w"
  by (induction ops batch w rule: worker_batch.induct)
    (auto split: option.splits prod.splits sum.splits dest!: worker_packet_counters)

lemma worker_loop_stops: "worker_loop ops cfg rounds w = Some (w', Inr ()) \<Longrightarrow> StopItem \<in> fst ` set rounds"
  by (induction rounds arbitrary: w) (auto split: option.splits prod.splits sum.splits if_splits)

section \<open>Properties\<close>

text \<open>C8: under every accepted configuration the worker can be built, and whatever arrives on its queue before the stop
  item, whatever the clock and the detector do, \<open>worker_process\<close> returns: no loop of it runs forever. The only errors
  that leave it were raised by the detector or by the circuit breaker. The buffers stay within the configured
  budgets and the count of findings is the number queued. Without error, every packet up to the stop was counted,
  no flow is left, and the last report says \<open>stopped\<close> with these counts.\<close>

theorem worker_process_returns:
  fixes ops :: "('d, 'f) detector_ops"
  assumes "validate resolve cfg = Inr u" "0 \<le> epoch_namespace" "StopItem \<in> fst ` set rounds"
  shows "\<exists>w0 w r. worker_init cfg worker_id pid epoch_namespace now bytes batches detector = Inr w0
    \<and> worker_process ops cfg full rounds w0 = Some (w, r)
    \<and> fr_buffered_bytes (wk_fragments w)
        \<le> max 1048576 (min (num cfg ''max_reassembly_bytes_per_worker'' div 4) (64 * 1024 * 1024))
    \<and> tr_buffered_bytes (wk_tcp w) \<le> num cfg ''max_reassembly_bytes_per_worker''
    \<and> int (length (tr_flows (wk_tcp w))) \<le> num cfg ''max_flows_per_worker''
    \<and> wk_findings w = int (length (wk_finding_queue w))
    \<and> (\<forall>e. r = Inl e \<longrightarrow> detector_raises ops e \<or> e = breaker_error)
    \<and> (r = Inr () \<longrightarrow> tr_flows (wk_tcp w) = [] \<and> wk_packets w = int (length (worker_packets rounds))
        \<and> (\<exists>report. final_report w report))"
proof -
  obtain w0 :: "('d, 'f) Worker" where w0: "worker_init cfg worker_id pid epoch_namespace now bytes batches detector = Inr w0"
    "fr_max_buffered_bytes (wk_fragments w0)
        = max 1048576 (min (num cfg ''max_reassembly_bytes_per_worker'' div 4) (64 * 1024 * 1024))"
    "tr_max_buffered_bytes (wk_tcp w0) = num cfg ''max_reassembly_bytes_per_worker''"
    "tr_max_flows (wk_tcp w0) = num cfg ''max_flows_per_worker''"
    using worker_init_valid [OF assms(1,2), of worker_id pid now bytes batches detector] by blast
  obtain w r where p: "worker_process ops cfg full rounds w0 = Some (w, r)" "worker_ok w0 w"
    "\<forall>e. r = Inl e \<longrightarrow> detector_raises ops e \<or> e = breaker_error"
    "r = Inr () \<longrightarrow> tr_flows (wk_tcp w) = [] \<and> wk_packets w = int (length (worker_packets rounds))
        \<and> (\<exists>report. final_report w report) \<and> process_done ops w0 (worker_packets rounds) w"
    using worker_process_step [OF w0(1) assms(3), of ops full] by (elim exE conjE) (rule that; assumption)
  note b = worker_ok_bounds [OF p(2), unfolded w0(2-4)]
  have last: "r = Inr () \<longrightarrow> tr_flows (wk_tcp w) = [] \<and> wk_packets w = int (length (worker_packets rounds))
      \<and> (\<exists>report. final_report w report)" using p(4) by argo
  show ?thesis
    by (intro exI conjI, rule w0(1), rule p(1), rule b(1), rule b(2), rule b(3), rule b(4), rule p(3), rule last)
qed

text \<open>A detector that remembers what it was given and reports each datagram.\<close>

definition recorder :: "(detector_call list, ParsedPacket) detector_ops" where
  "recorder = \<lparr>dt_stream = (\<lambda>chunk d. (d @ [ScanStream chunk], Inr [])), dt_datagram = (\<lambda>p d. (d @ [ScanDatagram p], Inr [p])),
     dt_expire = (\<lambda>cutoff d. (d @ [ExpireFlows cutoff], Inr 0)), dt_stats = (\<lambda>d. [])\<rparr>"

definition quiet_env :: heartbeat_env where
  "quiet_env = \<lparr>hb_now = 0, hb_fragment_now = 0, hb_tcp_now = 0, hb_detector_now = 0, hb_full = (\<lambda>_. False)\<rparr>"

definition sample_udp :: ParsedPacket where
  "sample_udp = (sample_segment 7 0 0 [65])\<lparr>pp_protocol := 17\<rparr>"

definition sample_rounds :: "round list" where
  "sample_rounds =
     [(Reserved [(\<lparr>pe_fragment_now = 0, pe_tcp_now = 0, pe_full = False\<rparr>, Some sample_udp)] 60, quiet_env), (StopItem, quiet_env)]"

lemma sample_rounds_facts: "StopItem \<in> fst ` set sample_rounds" "worker_packets sample_rounds = [sample_udp]"
  by (simp_all add: sample_rounds_def batch_packets_def map_filter_simps)

lemma default_resolves: "validate id (default_config (Some 4)) = Inr ()"
  by (rule default_validates) simp

lemma sample_run:
  assumes "worker_init (default_config (Some 4)) 0 99 1 0 60 1 [] = Inr w0"
  shows "\<exists>w. worker_process recorder (default_config (Some 4)) (\<lambda>_. False) sample_rounds w0 = Some (w, Inr ())"
proof -
  have now: "wk_last_heartbeat w0 = 0" using assms by (auto simp: worker_init_def bindE_def split: sum.splits)
  have "wk_tcp w0 = t" if "worker_tcp (default_config (Some 4)) 1 = Inr t" for t
    using assms that by (auto simp: worker_init_def bindE_def split: sum.splits)
  then have flows: "tr_flows (wk_tcp w0) = []" using worker_init_valid
    by (auto simp: worker_tcp_def tcp_init_def num_def attr_def)
  show ?thesis
    by (simp add: worker_process_def sample_rounds_def worker_round_def worker_item_def worker_packet_def packet_body_def
        scan_packet_def sample_udp_def sample_segment_def recorder_def Let_def worker_heartbeat_def worker_stop_def
        tcp_flush_all_def flows now emit_counted_def emit_operation_def control_def put_findings_def release_units_def
        quiet_env_def num_def attr_def)
qed

theorem worker_process_returns_witness:
  "\<exists>w0 w r. worker_init (default_config (Some 4)) 0 99 1 0 60 1 [] = Inr w0
     \<and> worker_process recorder (default_config (Some 4)) (\<lambda>_. False) sample_rounds w0 = Some (w, r)
     \<and> wk_findings w = int (length (wk_finding_queue w))"
  using worker_process_returns [OF default_resolves _ sample_rounds_facts(1), of 1 0 99 0 60 1 "[]" recorder "\<lambda>_. False"] by auto

text \<open>C2: a worker that stops without error is the composition of its two reassemblers with the detector, and nothing else
  happens in between. The fragmented packets, in order, went through one run of the fragment reassembler; what
  left that stage, transport decoded, went in order through one run of the TCP reassembler, ended by its flush, or
  was handed to the detector as a datagram. The chunks given to the detector are those of the TCP run and of the
  flush, in that order; when no packet was counted as malformed none is missing, and the findings queued are exactly
  the detector's answers to these calls.\<close>

theorem worker_refines_pipeline:
  assumes "worker_init cfg worker_id pid epoch_namespace now bytes batches detector = Inr w0"
    and "worker_process ops cfg full rounds w0 = Some (w, Inr ())"
  shows "\<exists>fops outs tops t C F calls.
      frag_exec (wk_fragments w0) fops = Inr (wk_fragments w, outs)
      \<and> fragments_of fops = filter fragmented (worker_packets rounds)
      \<and> tcp_exec (wk_tcp w0) tops = Inr (Some (t, C)) \<and> tcp_flush_all t (Some Gapped) = Inr (Some (wk_tcp w, F))
      \<and> tcp_packets tops = filter scanned_tcp (arrivals (worker_packets rounds) outs)
      \<and> datagram_calls calls = filter scanned_udp (arrivals (worker_packets rounds) outs)
      \<and> wk_detector w = fst (feed_all ops calls detector) \<and> subseq (stream_calls calls) (C @ F)
      \<and> (wk_parser_errors w = 0 \<longrightarrow> stream_calls calls = C @ F \<and> wk_finding_queue w = snd (feed_all ops calls detector))"
proof -
  have "StopItem \<in> fst ` set rounds"
    using assms(2) worker_loop_stops by (fastforce simp: worker_process_def Let_def split: option.splits prod.splits sum.splits)
  from worker_process_step [OF assms(1) this, of ops full] assms(2)
  have "process_done ops w0 (worker_packets rounds) w" by auto
  then show ?thesis unfolding process_done_def worker_init_start(3,5) [OF assms(1)] append_Nil .
qed

theorem worker_refines_pipeline_witness:
  "\<exists>w0 w calls. worker_init (default_config (Some 4)) 0 99 1 0 60 1 [] = Inr w0
     \<and> worker_process recorder (default_config (Some 4)) (\<lambda>_. False) sample_rounds w0 = Some (w, Inr ())
     \<and> datagram_calls calls = [sample_udp] \<and> wk_detector w = fst (feed_all recorder calls [])"
proof -
  let ?cfg = "default_config (Some 4)"
  obtain w0 :: "(detector_call list, ParsedPacket) Worker" where w0: "worker_init ?cfg 0 99 1 0 60 1 [] = Inr w0"
    using worker_init_valid [OF default_resolves, of 1] by fastforce
  obtain w where w: "worker_process recorder ?cfg (\<lambda>_. False) sample_rounds w0 = Some (w, Inr ())"
    using sample_run [OF w0] by blast
  from worker_refines_pipeline [OF w0 w] obtain outs calls where
    "datagram_calls calls = filter scanned_udp (arrivals [sample_udp] outs)" "wk_detector w = fst (feed_all recorder calls [])"
    unfolding sample_rounds_facts(2) by blast
  moreover have "filter scanned_udp (arrivals [sample_udp] outs) = [sample_udp]"
    by (simp add: sample_udp_def sample_segment_def decoded_def scanned_udp_def)
  ultimately show ?thesis using w0 w by auto
qed

text \<open>The worker keeps the promise the dispatcher's accounting rests on. Taking the oldest batch of its queue changes the
  two shared counters exactly as \<open>finish_batch\<close> says, whatever the packets are and also when one of them ends the
  process with an error.\<close>

theorem worker_item_finishes_batch:
  assumes "sh_queue c = (packets, reserved) # rest" "batch_packets batch = packets"
    and "wk_byte_counter w = sh_bytes c" "wk_batch_counter w = sh_batches c"
    and "worker_item ops (Reserved batch reserved) w = Some (w', r)"
  shows "wk_byte_counter w' = sh_bytes (finish_batch c) \<and> wk_batch_counter w' = sh_batches (finish_batch c)"
proof -
  obtain w1 where b: "worker_batch ops batch w = Some (w1, r)" "w' = release_units (max 0 reserved) 1 w1"
    using assms(5) by (auto simp: worker_item_def)
  show ?thesis using worker_batch_counters [OF b(1)] assms(1,3,4) b(2)
    by (simp add: counters_of_def release_units_def finish_batch_def)
qed

theorem worker_item_finishes_batch_witness:
  "\<exists>w0 w r. worker_init (default_config (Some 4)) 0 99 1 0 60 1 [] = Inr w0
     \<and> worker_item recorder (fst (hd sample_rounds)) w0 = Some (w, r) \<and> wk_byte_counter w = 0 \<and> wk_batch_counter w = 0"
proof -
  let ?batch = "[(\<lparr>pe_fragment_now = 0, pe_tcp_now = 0, pe_full = False\<rparr>, Some sample_udp)]"
  let ?c = "\<lparr>sh_bytes = 60, sh_bytes_peak = 60, sh_batches = 1, sh_batches_peak = 1, sh_queue = [([sample_udp], 60)]\<rparr>"
  obtain w0 :: "(detector_call list, ParsedPacket) Worker"
    where w0: "worker_init (default_config (Some 4)) 0 99 1 0 60 1 [] = Inr w0"
    using worker_init_valid [OF default_resolves, of 1] by fastforce
  then have "wk_byte_counter w0 = sh_bytes ?c" "wk_batch_counter w0 = sh_batches ?c"
    by (auto simp: worker_init_def bindE_def split: sum.splits)
  moreover obtain w r where w: "worker_item recorder (Reserved ?batch 60) w0 = Some (w, r)"
    using worker_item_step [OF worker_init_start(1) [OF w0], of recorder "Reserved ?batch 60"] by fastforce
  moreover have "sh_queue ?c = ([sample_udp], 60) # []" "batch_packets ?batch = [sample_udp]"
    by (simp_all add: batch_packets_def map_filter_simps)
  ultimately have "wk_byte_counter w = sh_bytes (finish_batch ?c) \<and> wk_batch_counter w = sh_batches (finish_batch ?c)"
    using worker_item_finishes_batch [of ?c "[sample_udp]" 60 "[]" ?batch w0 recorder w r] by blast
  then show ?thesis using w0 w by (simp add: sample_rounds_def finish_batch_def release_reserved_queue_units_def)
qed

end
