(* ===== verification/Byte_Text.thy ===== *)
theory Byte_Text
  imports Prelude
begin

text \<open>
  Text in byte strings: ASCII literals, decimal numbers and their printed form, and searching for a line end. The
  recognizers of the text protocols share these definitions and the laws of searching in a string that has been extended
  or moved.
\<close>

section \<open>Literals and numbers\<close>

text \<open>\<open>bs.isdigit()\<close> for one byte, \<open>int(bs)\<close>, and a literal.\<close>

definition digit :: "byte \<Rightarrow> bool" where
  "digit b \<longleftrightarrow> 48 \<le> unat b \<and> unat b \<le> 57"

definition decimal :: "bytes \<Rightarrow> nat" where
  "decimal bs = foldl (\<lambda>n b. n * 10 + (unat b - 48)) 0 bs"

definition ascii :: "string \<Rightarrow> bytes" where
  "ascii s = map of_char s"

definition CRLF :: bytes where "CRLF = [13, 10]"

lemma ascii_simps [simp]: "ascii [] = []" "ascii (xs @ ys) = ascii xs @ ascii ys" "length (ascii s) = length s" "ascii s = [] \<longleftrightarrow> s = []"
  by (simp_all add: ascii_def)

lemma digit_char_byte: "n < 10 \<Longrightarrow> \<exists>b. ascii [digit_char n] = [b] \<and> unat b = 48 + n"
proof -
  assume "n < 10"
  then have "n \<in> {0, 1, 2, 3, 4, 5, 6, 7, 8, 9}" by auto
  then show ?thesis by (elim insertE) (simp_all add: ascii_def digit_char_def)
qed

lemma py_slice_mid: "i = length xs \<Longrightarrow> j = i + length ys \<Longrightarrow> py_slice (xs @ ys @ zs) i j = ys"
  by (simp add: py_slice_def)

lemma decimal_snoc: "decimal (bs @ [b]) = decimal bs * 10 + (unat b - 48)"
  by (simp add: decimal_def)

lemma str_nat_decimal: "decimal (ascii (str_nat n)) = n \<and> list_all digit (ascii (str_nat n)) \<and> str_nat n \<noteq> []"
proof (induction n rule: str_nat.induct)
  case (1 n)
  obtain b where b: "ascii [digit_char (n mod 10)] = [b]" "unat b = 48 + n mod 10" using digit_char_byte [of "n mod 10"] by auto
  then have d: "decimal (ascii [digit_char (n mod 10)]) = n mod 10" "list_all digit (ascii [digit_char (n mod 10)])"
    by (simp_all add: decimal_def digit_def)
  have snoc: "decimal (ascii (s @ [digit_char (n mod 10)])) = decimal (ascii s) * 10 + n mod 10" for s
    using b by (simp add: decimal_snoc)
  show ?case
  proof (cases "n < 10")
    case True
    then show ?thesis using d by (simp add: str_nat.simps [of n])
  next
    case False
    then have s: "str_nat n = str_nat (n div 10) @ [digit_char (n mod 10)]" by (simp add: str_nat.simps [of n])
    show ?thesis unfolding s snoc using 1 [OF False] d(2) by simp
  qed
qed

lemma length_str_nat: "n < 10 ^ k \<Longrightarrow> 1 \<le> k \<Longrightarrow> length (str_nat n) \<le> k"
proof (induction k arbitrary: n)
  case (Suc k)
  show ?case
  proof (cases "n < 10")
    case False
    then have "k \<ge> 1" using Suc.prems(1) by (cases k) auto
    then have "length (str_nat (n div 10)) \<le> k" using Suc.prems(1) by (intro Suc.IH) auto
    then show ?thesis using False by (simp add: str_nat.simps [of n])
  qed (simp add: str_nat.simps [of n])
qed simp

section \<open>Searching\<close>

lemma find_from_eqI:
  "i \<le> j \<Longrightarrow> j + length needle \<le> length d \<Longrightarrow> py_slice d j (j + length needle) = needle \<Longrightarrow>
   (\<And>k. i \<le> k \<Longrightarrow> k < j \<Longrightarrow> py_slice d k (k + length needle) \<noteq> needle) \<Longrightarrow> find_from d needle i = Some j"
proof (induction "j - i" arbitrary: i)
  case 0
  then show ?case by (subst find_from.simps) simp
next
  case (Suc n)
  then have "find_from d needle (Suc i) = Some j" by (intro Suc.hyps(1)) auto
  with Suc show ?case by (subst find_from.simps) auto
qed

lemma find_from_append: "find_from d needle i = Some j \<Longrightarrow> find_from (d @ e) needle i = Some j"
  using find_from_Some [of d needle i j] find_from_least [of d needle i j]
  by (intro find_from_eqI) (auto simp: py_slice_append_left)

lemma find_from_None:
  "find_from d needle i = None \<Longrightarrow> i \<le> k \<Longrightarrow> k + length needle \<le> length d \<Longrightarrow> py_slice d k (k + length needle) \<noteq> needle"
proof (induction d needle i rule: find_from.induct)
  case (1 d needle i)
  then show ?case
    by (cases "k = i") (auto simp: find_from.simps [of d needle i] split: if_splits)
qed

lemma find_within_append: "find_within d needle i stop = Some j \<Longrightarrow> find_within (d @ e) needle i stop = Some j"
  unfolding find_within_def take_append by (rule find_from_append)

lemma py_slice_shift [simp]: "py_slice (pre @ d) (length pre + a) (length pre + b) = py_slice d a b"
  by (simp add: py_slice_append_right)

lemma find_from_shift: "find_from (pre @ d) needle (length pre + i) = map_option (\<lambda>j. length pre + j) (find_from d needle i)"
proof (induction d needle i rule: find_from.induct)
  case (1 d needle i)
  have "py_slice (pre @ d) (length pre + i) (length pre + i + length needle) = py_slice d i (i + length needle)"
    unfolding add.assoc by (rule py_slice_shift)
  then show ?case using 1 by (simp add: find_from.simps [of "pre @ d"] find_from.simps [of d])
qed

lemma find_within_shift:
  "find_within (pre @ d) needle (length pre + i) (length pre + stop) = map_option (\<lambda>j. length pre + j) (find_within d needle i stop)"
  by (simp add: find_within_def find_from_shift)

end
