(* ===== verification/Cleartext.thy ===== *)
theory Cleartext
  imports Utf8 Byte_Text
begin

text \<open>
  The Redis and PostgreSQL recognizers (\<open>packet_audit/cleartext.py\<close>): walks over the frames of one direction of a
  connection that return what they recognised and the end of the last frame they consumed, so that a caller can go
  on from there when more bytes have arrived.
\<close>

section \<open>Data\<close>

definition MAX_FIELD_BYTES :: nat where "MAX_FIELD_BYTES = 8192"
definition MAX_AUTH_MESSAGE_BYTES :: nat where "MAX_AUTH_MESSAGE_BYTES = 32768"
definition MAX_RESP_ARGUMENTS :: nat where "MAX_RESP_ARGUMENTS = 128"
definition MAX_PG_FRAME_BYTES :: nat where "MAX_PG_FRAME_BYTES = 16 * 1024 * 1024"

definition UNKNOWN_POSTGRES_METHOD :: string where
  "UNKNOWN_POSTGRES_METHOD = ''method not established without server auth request''"

lemmas cleartext_limits = MAX_FIELD_BYTES_def MAX_AUTH_MESSAGE_BYTES_def MAX_RESP_ARGUMENTS_def MAX_PG_FRAME_BYTES_def

text \<open>A value is text, or bytes that are no UTF-8.\<close>

datatype field_value = TextValue code_points | RawValue bytes

text \<open>The \<open>material\<close> dictionaries, by their \<open>kind\<close>.\<close>

datatype material =
    CleartextCoverage string string
  | RedisAuth string field_value field_value
  | PostgresCleartextPassword field_value
  | PostgresPasswordMessage field_value
  | PostgresAuthenticationRequest "nat option" string

record CleartextRecord =
  cr_start :: nat
  cr_end :: nat
  cr_material :: material
  cr_limitations :: "string list"

definition value_of :: "bytes \<Rightarrow> field_value" where
  "value_of raw = (case utf8_decode raw of Some t \<Rightarrow> TextValue t | None \<Rightarrow> RawValue raw)"

text \<open>\<open>s.replace("_", " ")\<close> and \<open>bs.upper()\<close>.\<close>

definition spaced :: "string \<Rightarrow> string" where
  "spaced s = map (\<lambda>c. if c = CHR ''_'' then CHR '' '' else c) s"

definition byte_upper :: "byte \<Rightarrow> byte" where
  "byte_upper b = (if 97 \<le> unat b \<and> unat b \<le> 122 then b - 32 else b)"

definition bytes_upper :: "bytes \<Rightarrow> bytes" where
  "bytes_upper bs = map byte_upper bs"

definition coverage :: "nat \<Rightarrow> nat \<Rightarrow> string \<Rightarrow> string \<Rightarrow> CleartextRecord" where
  "coverage start stop protocol reason =
     \<lparr>cr_start = start, cr_end = stop, cr_material = CleartextCoverage protocol reason, cr_limitations = [spaced reason]\<rparr>"

section \<open>Redis\<close>

definition decimal_line :: "bytes \<Rightarrow> nat \<Rightarrow> (nat \<times> nat) option" where
  "decimal_line d start =
     (case find_within d CRLF start (start + 13) of
        None \<Rightarrow> None
      | Some stop \<Rightarrow>
          (let raw = py_slice d start stop in
           if raw = [] \<or> length raw > 10 \<or> \<not> list_all digit raw then None else Some (decimal raw, stop + 2)))"

text \<open>One round of the \<open>for\<close> loop of \<open>_resp_command\<close>: the new \<open>cursor\<close>, \<open>arguments\<close> and \<open>known_auth_command\<close>.\<close>

definition resp_argument ::
  "bytes \<Rightarrow> nat \<Rightarrow> bool \<Rightarrow> nat \<Rightarrow> bytes list option \<Rightarrow> bool \<Rightarrow> (nat \<times> bytes list option \<times> bool) option" where
  "resp_argument d start first cursor arguments known =
     (if cursor \<ge> length d \<or> d ! cursor \<noteq> 36 then None
      else
        (case decimal_line d (cursor + 1) of
           None \<Rightarrow> None
         | Some (len, begin) \<Rightarrow>
             (let stop = begin + len in
              if stop + 2 > length d \<or> py_slice d stop (stop + 2) \<noteq> CRLF then None
              else Some (stop + 2,
                (if len > MAX_FIELD_BYTES \<or> stop + 2 - start > MAX_AUTH_MESSAGE_BYTES then None
                 else map_option (\<lambda>as. as @ [py_slice d begin stop]) arguments),
                (if first \<and> len \<le> 5 then bytes_upper (py_slice d begin stop) \<in> {ascii ''AUTH'', ascii ''HELLO''} else known)))))"

fun resp_arguments ::
  "bytes \<Rightarrow> nat \<Rightarrow> nat \<Rightarrow> bool \<Rightarrow> nat \<Rightarrow> bytes list option \<Rightarrow> bool \<Rightarrow> (nat \<times> bytes list option \<times> bool) option" where
  "resp_arguments d start 0 first cursor arguments known = Some (cursor, arguments, known \<and> arguments = None)"
| "resp_arguments d start (Suc n) first cursor arguments known =
     (case resp_argument d start first cursor arguments known of
        None \<Rightarrow> None
      | Some (cursor', arguments', known') \<Rightarrow> resp_arguments d start n False cursor' arguments' known')"

definition resp_command :: "bytes \<Rightarrow> nat \<Rightarrow> (nat \<times> bytes list option \<times> bool) option" where
  "resp_command d start =
     (case decimal_line d (start + 1) of
        None \<Rightarrow> None
      | Some (n, cursor) \<Rightarrow>
          if \<not> (1 \<le> n \<and> n \<le> MAX_RESP_ARGUMENTS) then None else resp_arguments d start n True cursor (Some []) False)"

definition blank :: "byte \<Rightarrow> bool" where
  "blank b \<longleftrightarrow> b = 32 \<or> b = 9"

text \<open>The outer loop of \<open>_inline_arguments\<close>, on what is left of the line.\<close>

function inline_loop :: "bytes \<Rightarrow> bytes list \<Rightarrow> bytes list option" where
  "inline_loop rest arguments =
     (case dropWhile blank rest of
        [] \<Rightarrow> Some arguments
      | c # tail \<Rightarrow>
          (if c = 34 \<or> c = 39 then
             (let argument = takeWhile (\<lambda>b. b \<noteq> c) tail; after = tl (dropWhile (\<lambda>b. b \<noteq> c) tail) in
              if c \<notin> set tail \<or> 92 \<in> set argument then None
              else if after \<noteq> [] \<and> \<not> blank (hd after) then None
              else if length argument > MAX_FIELD_BYTES \<or> length arguments \<ge> MAX_RESP_ARGUMENTS then None
              else inline_loop after (arguments @ [argument]))
           else
             (let argument = takeWhile (\<lambda>b. \<not> blank b) (c # tail); after = dropWhile (\<lambda>b. \<not> blank b) (c # tail) in
              if 39 \<in> set argument \<or> 34 \<in> set argument \<or> 92 \<in> set argument then None
              else if length argument > MAX_FIELD_BYTES \<or> length arguments \<ge> MAX_RESP_ARGUMENTS then None
              else inline_loop after (arguments @ [argument]))))"
  by pat_completeness auto

lemma dropWhile_first: "dropWhile P xs = c # tail \<Longrightarrow> \<not> P c \<and> length tail < length xs"
  by (induction xs) (auto split: if_splits)

termination inline_loop
proof (relation "measure (\<lambda>(rest, arguments). length rest)")
  fix rest c tail assume d: "dropWhile blank rest = c # tail"
  have "length (tl (dropWhile (\<lambda>b. b \<noteq> c) tail)) \<le> length tail"
    using length_dropWhile_le [of "\<lambda>b. b \<noteq> c" tail] by simp
  moreover have "length (dropWhile (\<lambda>b. \<not> blank b) (c # tail)) \<le> length tail"
    using dropWhile_first [OF d] length_dropWhile_le [of "\<lambda>b. \<not> blank b" tail] by simp
  moreover note dropWhile_first [OF d]
  ultimately show "((after, arguments @ [argument]), rest, arguments) \<in> measure (\<lambda>(rest, arguments). length rest)"
    if "after = tl (dropWhile (\<lambda>b. b \<noteq> c) tail)" for after argument and arguments :: "bytes list" using that by simp
  show "((after, arguments @ [argument]), rest, arguments) \<in> measure (\<lambda>(rest, arguments). length rest)"
    if "after = dropWhile (\<lambda>b. \<not> blank b) (c # tail)" for after argument and arguments :: "bytes list"
    using that \<open>length (dropWhile (\<lambda>b. \<not> blank b) (c # tail)) \<le> length tail\<close> dropWhile_first [OF d] by simp
qed auto

declare inline_loop.simps [simp del]

definition inline_arguments :: "bytes \<Rightarrow> bytes list option" where
  "inline_arguments line =
     (if length line > MAX_AUTH_MESSAGE_BYTES \<or> list_ex (\<lambda>b. unat b < 32 \<and> b \<noteq> 9) line then None else inline_loop line [])"

text \<open>The options of \<open>HELLO\<close>: the credentials found and whether \<open>SETNAME\<close> was seen; \<open>None\<close> for an unknown option.\<close>

function hello_options :: "bytes list \<Rightarrow> (bytes \<times> bytes) option \<Rightarrow> bool \<Rightarrow> (bytes \<times> bytes) option option" where
  "hello_options [] credentials seen = Some credentials"
| "hello_options (opt # rest) credentials seen =
     (if bytes_upper opt = ascii ''AUTH'' \<and> length rest \<ge> 2 \<and> credentials = None
      then hello_options (drop 2 rest) (Some (rest ! 0, rest ! 1)) seen
      else if bytes_upper opt = ascii ''SETNAME'' \<and> length rest \<ge> 1 \<and> \<not> seen
      then hello_options (drop 1 rest) credentials True
      else None)"
  by pat_completeness auto

termination hello_options
  by (relation "measure (\<lambda>(args, _, _). length args)") auto

definition redis_credentials :: "bytes list \<Rightarrow> (bytes \<times> bytes) option" where
  "redis_credentials arguments =
     (case arguments of
        [] \<Rightarrow> None
      | first # rest \<Rightarrow>
          if bytes_upper first = ascii ''AUTH'' \<and> (length arguments = 2 \<or> length arguments = 3)
          then Some (if length arguments = 3 then arguments ! 1 else ascii ''default'', last arguments)
          else if bytes_upper first = ascii ''HELLO'' \<and> length arguments \<ge> 5 \<and> (arguments ! 1 = ascii ''2'' \<or> arguments ! 1 = ascii ''3'')
          then (case hello_options (drop 2 arguments) None False of None \<Rightarrow> None | Some credentials \<Rightarrow> credentials)
          else None)"

definition redis_material :: "bytes list \<Rightarrow> material option" where
  "redis_material arguments =
     map_option (\<lambda>(username, password).
         RedisAuth (if bytes_upper (hd arguments) = ascii ''AUTH'' then ''AUTH'' else ''HELLO AUTH'')
           (value_of username) (value_of password))
       (redis_credentials arguments)"

text \<open>\<open>bytes.lstrip()\<close>.\<close>

definition lstrip :: "bytes \<Rightarrow> bytes" where
  "lstrip bs = dropWhile (\<lambda>b. b \<in> {32, 9, 10, 11, 12, 13}) bs"

definition auth_prefixes :: "bytes list" where
  "auth_prefixes = [ascii ''AUTH '', ascii ''AUTH'' @ [9], ascii ''HELLO '', ascii ''HELLO'' @ [9]]"

definition bytes_startswith :: "bytes \<Rightarrow> bytes \<Rightarrow> bool" where
  "bytes_startswith prefix bs \<longleftrightarrow> take (length prefix) bs = prefix"

text \<open>The records for the arguments of one complete command.\<close>

definition redis_records :: "nat \<Rightarrow> nat \<Rightarrow> bytes list option \<Rightarrow> CleartextRecord list" where
  "redis_records start cursor arguments =
     (case arguments of
        None \<Rightarrow> []
      | Some as \<Rightarrow>
          (case redis_material as of
             Some m \<Rightarrow> [\<lparr>cr_start = start, cr_end = cursor, cr_material = m, cr_limitations = []\<rparr>]
           | None \<Rightarrow>
               if as \<noteq> [] \<and> bytes_upper (hd as) = ascii ''AUTH''
               then [coverage start cursor ''redis'' ''redis_auth_invalid_arguments''] else []))"

text \<open>The three branches of a round of \<open>scan_redis\<close>: an array, a bulk string that is skipped, an inline command.\<close>

definition redis_array :: "bytes \<Rightarrow> nat \<Rightarrow> (nat \<times> CleartextRecord list) option" where
  "redis_array d start =
     map_option (\<lambda>(cursor, arguments, auth_limit).
         (cursor, (if auth_limit then [coverage start cursor ''redis'' ''redis_auth_field_or_message_limit''] else [])
                    @ redis_records start cursor arguments))
       (resp_command d start)"

definition redis_bulk :: "bytes \<Rightarrow> nat \<Rightarrow> (nat \<times> CleartextRecord list) option" where
  "redis_bulk d start =
     (case decimal_line d (start + 1) of
        None \<Rightarrow> None
      | Some (len, begin) \<Rightarrow>
          (let stop = begin + len in
           if stop + 2 > length d \<or> py_slice d stop (stop + 2) \<noteq> CRLF then None else Some (stop + 2, [])))"

definition inline_records :: "nat \<Rightarrow> nat \<Rightarrow> bytes \<Rightarrow> CleartextRecord list option" where
  "inline_records start cursor line =
     (case inline_arguments line of
        None \<Rightarrow>
          if list_ex (\<lambda>prefix. bytes_startswith prefix (bytes_upper (lstrip line))) auth_prefixes
          then Some [coverage start cursor ''redis'' ''redis_auth_unsupported_inline''] else None
      | Some arguments \<Rightarrow> Some (redis_records start cursor (Some arguments)))"

definition redis_inline :: "bytes \<Rightarrow> nat \<Rightarrow> (nat \<times> CleartextRecord list) option" where
  "redis_inline d start =
     (case find_from d CRLF start of
        None \<Rightarrow> None
      | Some stop \<Rightarrow> map_option (\<lambda>rs. (stop + 2, rs)) (inline_records start (stop + 2) (py_slice d start stop)))"

text \<open>One round; \<open>None\<close> where the loop breaks.\<close>

definition redis_step :: "bytes \<Rightarrow> nat \<Rightarrow> (nat \<times> CleartextRecord list) option" where
  "redis_step d start =
     (if d ! start = 42 then redis_array d start
      else if d ! start = 36 \<or> d ! start = 33 \<or> d ! start = 61 then redis_bulk d start
      else redis_inline d start)"

section \<open>PostgreSQL\<close>

definition FRONTEND_TAGS :: bytes where "FRONTEND_TAGS = ascii ''BCDEFHPSXQdcfp''"
definition BACKEND_TAGS :: bytes where "BACKEND_TAGS = ascii ''RKEANSTDCIZ123nsGtHVWcdv''"

text \<open>Start-up packets and negotiation requests, which have no tag: their end.\<close>

definition pg_startup :: "bytes \<Rightarrow> nat \<Rightarrow> nat option" where
  "pg_startup d cursor =
     (let remaining = length d - cursor; len = from_be (py_slice d cursor (cursor + 4));
          code = from_be (py_slice d (cursor + 4) (cursor + 8)); startup = code div 65536 = 3 \<and> len \<ge> 9;
          special = (code = 80877103 \<or> code = 80877104) \<and> len = 8 \<or> code = 80877102 \<and> len = 16 in
      if remaining < 8 then None
      else if \<not> (startup \<or> special) \<or> len > MAX_PG_FRAME_BYTES \<or> len > remaining then None
      else if startup \<and> d ! (cursor + len - 1) \<noteq> 0 then None
      else Some (cursor + len))"

text \<open>A tagged frame: its end, tag and payload, which is copied for authentication messages only.\<close>

definition pg_tagged :: "bytes \<Rightarrow> nat \<Rightarrow> bool \<Rightarrow> (nat \<times> byte \<times> bytes) option" where
  "pg_tagged d cursor backend =
     (let tag = d ! cursor; len = from_be (py_slice d (cursor + 1) (cursor + 5)); stop = cursor + 1 + len in
      if tag \<notin> set (if backend then BACKEND_TAGS else FRONTEND_TAGS) then None
      else if len < 4 \<or> len > MAX_PG_FRAME_BYTES \<or> stop > length d then None
      else Some (stop, tag, if tag = (if backend then 82 else 112) \<and> len \<le> MAX_AUTH_MESSAGE_BYTES
                            then py_slice d (cursor + 5) stop else []))"

definition refused_upgrade :: "bytes \<Rightarrow> bool" where
  "refused_upgrade d \<longleftrightarrow>
     length d \<ge> 10 \<and> take 2 d = ascii ''NR'' \<and> 8 \<le> from_be (py_slice d 2 6)
     \<and> from_be (py_slice d 2 6) \<le> MAX_AUTH_MESSAGE_BYTES \<and> 2 + from_be (py_slice d 2 6) \<le> length d"

definition pg_frame :: "bytes \<Rightarrow> nat \<Rightarrow> bool \<Rightarrow> (nat \<times> byte \<times> bytes) option" where
  "pg_frame d cursor backend =
     (if length d - cursor < 5 then None
      else if backend \<and> cursor = 0 \<and> refused_upgrade d then Some (1, 0, [])
      else if \<not> backend \<and> d ! cursor = 0 then map_option (\<lambda>stop. (stop, 0, [])) (pg_startup d cursor)
      else pg_tagged d cursor backend)"

definition hex_digit :: "byte \<Rightarrow> bool" where
  "hex_digit b \<longleftrightarrow> digit b \<or> (97 \<le> unat b \<and> unat b \<le> 102) \<or> (65 \<le> unat b \<and> unat b \<le> 70)"

text \<open>\<open>re.fullmatch(rb"md5[0-9a-fA-F]{32}", value)\<close>.\<close>

definition md5_response :: "bytes \<Rightarrow> bool" where
  "md5_response raw \<longleftrightarrow> length raw = 35 \<and> take 3 raw = ascii ''md5'' \<and> list_all hex_digit (drop 3 raw)"

text \<open>The records of one client frame.\<close>

definition password_records :: "nat option \<Rightarrow> nat \<Rightarrow> nat \<Rightarrow> byte \<Rightarrow> bytes \<Rightarrow> CleartextRecord list" where
  "password_records authentication_method start cursor tag payload =
     (if tag \<noteq> 112 \<or> \<not> (authentication_method = None \<or> authentication_method = Some 3) then []
      else if cursor - start - 1 > MAX_FIELD_BYTES + 5
      then [coverage start cursor ''postgresql'' ''postgres_password_field_limit'']
      else if payload = [] \<or> last payload \<noteq> 0 \<or> 0 \<in> set (butlast payload)
      then (if authentication_method = Some 3
            then [coverage start cursor ''postgresql'' ''postgres_cleartext_password_malformed''] else [])
      else if authentication_method = None \<and> md5_response (butlast payload) then []
      else if authentication_method = Some 3
      then [\<lparr>cr_start = start, cr_end = cursor, cr_material = PostgresCleartextPassword (value_of (butlast payload)),
             cr_limitations = []\<rparr>]
      else [\<lparr>cr_start = start, cr_end = cursor, cr_material = PostgresPasswordMessage (value_of (butlast payload)),
             cr_limitations = [UNKNOWN_POSTGRES_METHOD]\<rparr>])"

definition postgres_step :: "nat option \<Rightarrow> bytes \<Rightarrow> nat \<Rightarrow> (nat \<times> CleartextRecord list) option" where
  "postgres_step authentication_method d start =
     map_option (\<lambda>(cursor, tag, payload). (cursor, password_records authentication_method start cursor tag payload))
       (pg_frame d start False)"

definition method_names :: "(nat \<times> string) list" where
  "method_names =
     [(0, ''ok''), (2, ''kerberos_v5''), (3, ''cleartext''), (5, ''md5''), (6, ''scm''), (7, ''gss''), (8, ''gss_continue''),
      (9, ''sspi''), (10, ''sasl''), (11, ''sasl_continue''), (12, ''sasl_final'')]"

text \<open>\<open>bs.split(b"\0")\<close>.\<close>

fun split_zero :: "bytes \<Rightarrow> bytes list" where
  "split_zero [] = [[]]"
| "split_zero (b # bs) = (if b = 0 then [] # split_zero bs else (case split_zero bs of x # xs \<Rightarrow> (b # x) # xs | [] \<Rightarrow> [[b]]))"

definition sasl_mechanisms_ok :: "bytes \<Rightarrow> bool" where
  "sasl_mechanisms_ok mechanisms \<longleftrightarrow>
     length mechanisms \<ge> 2 \<and> drop (length mechanisms - 2) mechanisms = [0, 0]
     \<and> list_all (\<lambda>item. item \<noteq> [] \<and> length item \<le> 128 \<and> list_all (\<lambda>c. 33 \<le> unat c \<and> unat c \<le> 126) item)
         (split_zero (take (length mechanisms - 2) mechanisms))"

definition request_valid :: "bytes \<Rightarrow> bool" where
  "request_valid payload \<longleftrightarrow>
     (let method = from_be (take 4 payload) in
      length payload \<ge> 4 \<and> method \<in> fst ` set method_names
      \<and> (method \<in> {0, 2, 3, 6, 7, 9} \<longrightarrow> length payload = 4) \<and> (method = 5 \<longrightarrow> length payload = 8)
      \<and> (method \<in> {8, 11, 12} \<longrightarrow> length payload > 4) \<and> (method = 10 \<longrightarrow> sasl_mechanisms_ok (drop 4 payload)))"

definition request_record :: "nat \<Rightarrow> nat \<Rightarrow> bytes \<Rightarrow> CleartextRecord" where
  "request_record start cursor payload =
     (if request_valid payload
      then \<lparr>cr_start = start, cr_end = cursor,
            cr_material = PostgresAuthenticationRequest (Some (from_be (take 4 payload)))
              (case map_of method_names (from_be (take 4 payload)) of Some name \<Rightarrow> name | None \<Rightarrow> []), cr_limitations = []\<rparr>
      else \<lparr>cr_start = start, cr_end = cursor, cr_material = PostgresAuthenticationRequest None ''invalid'',
            cr_limitations = [''invalid or unsupported server authentication request; previous method invalidated'']\<rparr>)"

definition authentication_step :: "bytes \<Rightarrow> nat \<Rightarrow> (nat \<times> CleartextRecord list) option" where
  "authentication_step d start =
     map_option (\<lambda>(cursor, tag, payload). (cursor, if tag = 82 then [request_record start cursor payload] else []))
       (pg_frame d start True)"

section \<open>Redis frames\<close>

lemma decimal_line_bounds:
  assumes "decimal_line d start = Some (n, next)"
  shows "start + 2 < next" "next \<le> length d"
proof -
  obtain stop where s: "find_within d CRLF start (start + 13) = Some stop" "py_slice d start stop \<noteq> []" "next = stop + 2"
    using assms by (auto simp: decimal_line_def Let_def split: option.splits if_splits)
  have "stop + 2 \<le> length d" using find_from_Some [OF s(1) [unfolded find_within_def]] by (simp add: CRLF_def)
  moreover have "start < stop" using s(2) by (cases "start < stop") (auto simp: py_slice_def)
  ultimately show "start + 2 < next" "next \<le> length d" using s(3) by simp_all
qed

lemma decimal_line_append: "decimal_line d start = Some x \<Longrightarrow> decimal_line (d @ e) start = Some x"
proof -
  assume a: "decimal_line d start = Some x"
  then obtain stop where s: "find_within d CRLF start (start + 13) = Some stop"
    by (auto simp: decimal_line_def split: option.splits)
  have "stop + 2 \<le> length d" using find_from_Some [OF s [unfolded find_within_def]] by (simp add: CRLF_def)
  then show ?thesis using a s find_within_append [OF s, of e]
    by (simp add: decimal_line_def py_slice_append_left)
qed

lemma decimal_line_shift:
  "decimal_line (pre @ d) (length pre + start) = map_option (\<lambda>(n, next). (n, length pre + next)) (decimal_line d start)"
  using find_within_shift [of pre d CRLF start "start + 13"]
  by (auto simp: decimal_line_def Let_def add.assoc split: option.split)

lemma resp_argument_bounds:
  "resp_argument d start first cursor as known = Some (next, r) \<Longrightarrow> cursor < next \<and> next \<le> length d"
  using decimal_line_bounds(1) [of d "cursor + 1"]
  by (auto simp: resp_argument_def Let_def not_less split: if_split_asm option.splits)

lemma resp_argument_append:
  assumes "resp_argument d start first cursor as known = Some x"
  shows "resp_argument (d @ e) start first cursor as known = Some x"
proof -
  obtain len first_byte where l: "decimal_line d (cursor + 1) = Some (len, first_byte)" "cursor < length d"
    "first_byte + len + 2 \<le> length d" using assms by (auto simp: resp_argument_def Let_def not_less split: if_split_asm option.splits)
  have "resp_argument (d @ e) start first cursor as known = resp_argument d start first cursor as known"
    unfolding resp_argument_def l(1) decimal_line_append [OF l(1)] option.case prod.case Let_def using l(2,3)
    by (simp add: nth_append py_slice_append_left split del: if_split cong del: if_weak_cong)
  then show ?thesis using assms by simp
qed

lemma resp_argument_shift:
  "resp_argument (pre @ d) (length pre + start) first (length pre + cursor) as known
     = map_option (\<lambda>(next, r). (length pre + next, r)) (resp_argument d start first cursor as known)"
proof (cases "decimal_line d (cursor + 1)")
  case None
  then show ?thesis using decimal_line_shift [of pre d "cursor + 1"] by (simp add: resp_argument_def)
next
  case (Some lb)
  obtain len first_byte where lb: "lb = (len, first_byte)" by (cases lb)
  have sh: "py_slice (pre @ d) (length pre + first_byte) (length pre + first_byte + len) = py_slice d first_byte (first_byte + len)"
    "py_slice (pre @ d) (length pre + first_byte + len) (length pre + first_byte + len + 2)
       = py_slice d (first_byte + len) (first_byte + len + 2)"
    unfolding add.assoc by (rule py_slice_shift)+
  have a: "length pre + first_byte + len + 2 - (length pre + start) = first_byte + len + 2 - start" by simp
  have l: "decimal_line (pre @ d) (length pre + cursor + 1) = Some (len, length pre + first_byte)"
    using decimal_line_shift [of pre d "cursor + 1"] Some lb by (simp add: add.assoc)
  show ?thesis unfolding resp_argument_def l Some lb option.case prod.case Let_def sh a
    by (auto simp: nth_append)
qed

lemma resp_arguments_bounds:
  "resp_arguments d start n first cursor as known = Some (next, r) \<Longrightarrow> cursor \<le> length d \<Longrightarrow> cursor \<le> next \<and> next \<le> length d"
proof (induction n arbitrary: first cursor as known)
  case (Suc n)
  then obtain c as' known' where c: "resp_argument d start first cursor as known = Some (c, as', known')"
    "resp_arguments d start n False c as' known' = Some (next, r)" by (auto split: option.splits)
  from Suc.IH [OF c(2)] resp_argument_bounds [OF c(1)] show ?case by simp
qed simp

lemma resp_arguments_append:
  "resp_arguments d start n first cursor as known = Some x \<Longrightarrow> resp_arguments (d @ e) start n first cursor as known = Some x"
  by (induction n arbitrary: first cursor as known) (auto split: option.splits dest: resp_argument_append [of _ _ _ _ _ _ _ e])

lemma resp_arguments_shift:
  "resp_arguments (pre @ d) (length pre + start) n first (length pre + cursor) as known
     = map_option (\<lambda>(next, r). (length pre + next, r)) (resp_arguments d start n first cursor as known)"
  by (induction n arbitrary: first cursor as known) (auto simp: resp_argument_shift split: option.splits)

lemma resp_command_bounds:
  assumes "resp_command d start = Some (next, r)"
  shows "start < next \<and> next \<le> length d"
proof -
  obtain n c where c: "decimal_line d (start + 1) = Some (n, c)" "resp_arguments d start n True c (Some []) False = Some (next, r)"
    using assms by (auto simp: resp_command_def split: option.splits if_split_asm)
  from decimal_line_bounds [OF c(1)] resp_arguments_bounds [OF c(2)] show ?thesis by simp
qed

lemma resp_command_append: "resp_command d start = Some x \<Longrightarrow> resp_command (d @ e) start = Some x"
  using decimal_line_append [of d "start + 1" _ e] resp_arguments_append [of d start _ _ _ _ _ x e]
  by (auto simp: resp_command_def split: option.splits if_split_asm)

lemma resp_command_shift:
  "resp_command (pre @ d) (length pre + start) = map_option (\<lambda>(next, r). (length pre + next, r)) (resp_command d start)"
  using decimal_line_shift [of pre d "start + 1"]
  by (cases "decimal_line d (start + 1)") (auto simp: resp_command_def resp_arguments_shift)

text \<open>A record moved by the number of bytes before it.\<close>

definition moved :: "nat \<Rightarrow> CleartextRecord \<Rightarrow> CleartextRecord" where
  "moved n r = r\<lparr>cr_start := n + cr_start r, cr_end := n + cr_end r\<rparr>"

lemma coverage_moved: "coverage (n + a) (n + b) x y = moved n (coverage a b x y)"
  by (simp add: coverage_def moved_def)

lemma redis_records_moved: "redis_records (n + a) (n + b) as = map (moved n) (redis_records a b as)"
  by (simp add: redis_records_def coverage_moved split: option.split) (simp add: moved_def)

lemma inline_records_moved: "inline_records (n + a) (n + b) line = map_option (map (moved n)) (inline_records a b line)"
  by (auto simp: inline_records_def coverage_moved redis_records_moved split: option.split)

lemma redis_bulk_SomeE:
  assumes "redis_bulk d start = Some x"
  obtains len first_byte where "decimal_line d (start + 1) = Some (len, first_byte)" "first_byte + len + 2 \<le> length d"
    "py_slice d (first_byte + len) (first_byte + len + 2) = CRLF" "x = (first_byte + len + 2, [])"
  using assms by (auto simp: redis_bulk_def Let_def not_less split: option.splits if_split_asm)

lemma redis_inline_SomeE:
  assumes "redis_inline d start = Some x"
  obtains stop rs where "find_from d CRLF start = Some stop" "inline_records start (stop + 2) (py_slice d start stop) = Some rs"
    "x = (stop + 2, rs)" "start \<le> stop" "stop + 2 \<le> length d"
  using assms find_from_Some [of d CRLF start] by (auto simp: redis_inline_def CRLF_def split: option.splits)

lemma redis_step_bounds:
  assumes "redis_step d start = Some (next, r)"
  shows "start < next \<and> next \<le> length d"
proof -
  have "redis_array d start = Some (next, r) \<Longrightarrow> ?thesis"
    using resp_command_bounds [of d start] by (auto simp: redis_array_def)
  moreover have "redis_bulk d start = Some (next, r) \<Longrightarrow> ?thesis"
    by (elim redis_bulk_SomeE) (auto dest: decimal_line_bounds(1))
  moreover have "redis_inline d start = Some (next, r) \<Longrightarrow> ?thesis" by (elim redis_inline_SomeE) auto
  ultimately show ?thesis using assms by (auto simp: redis_step_def split: if_split_asm)
qed

lemma redis_step_append:
  assumes "redis_step d start = Some x" "start < length d"
  shows "redis_step (d @ e) start = Some x"
proof -
  have "redis_array d start = Some x \<Longrightarrow> redis_array (d @ e) start = Some x"
    using resp_command_append [of d start _ e] by (cases "resp_command d start") (simp_all add: redis_array_def)
  moreover have "redis_bulk d start = Some x \<Longrightarrow> redis_bulk (d @ e) start = Some x"
    using decimal_line_append [of d "start + 1" _ e]
    by (elim redis_bulk_SomeE) (simp add: redis_bulk_def py_slice_append_left)
  moreover have "redis_inline d start = Some x \<Longrightarrow> redis_inline (d @ e) start = Some x"
    using find_from_append [of d CRLF start _ e]
    by (elim redis_inline_SomeE) (simp add: redis_inline_def py_slice_append_left)
  moreover have "(d @ e) ! start = d ! start" using assms(2) by (simp add: nth_append)
  ultimately show ?thesis using assms(1) by (auto simp: redis_step_def split: if_split_asm)
qed

lemma redis_step_shift:
  "redis_step (pre @ d) (length pre + start)
    = map_option (\<lambda>(next, rs). (length pre + next, map (moved (length pre)) rs)) (redis_step d start)"
proof -
  let ?p = "length pre" and ?m = "map_option (\<lambda>(next, rs). (length pre + next, map (moved (length pre)) rs))"
  have "redis_array (pre @ d) (?p + start) = ?m (redis_array d start)"
    by (cases "resp_command d start") (auto simp: redis_array_def resp_command_shift coverage_moved redis_records_moved)
  moreover have "redis_bulk (pre @ d) (?p + start) = ?m (redis_bulk d start)"
  proof -
    have sh: "py_slice (pre @ d) (?p + a + l) (?p + a + l + 2) = py_slice d (a + l) (a + l + 2)" for a l
      unfolding add.assoc by (rule py_slice_shift)
    show ?thesis using decimal_line_shift [of pre d "start + 1"]
      by (cases "decimal_line d (start + 1)") (auto simp: redis_bulk_def Let_def sh [simplified])
  qed
  moreover have "redis_inline (pre @ d) (?p + start) = ?m (redis_inline d start)"
  proof (cases "find_from d CRLF start")
    case (Some stop)
    have "inline_records (?p + start) (?p + stop + 2) (py_slice (pre @ d) (?p + start) (?p + stop))
        = map_option (map (moved ?p)) (inline_records start (stop + 2) (py_slice d start stop))"
      using inline_records_moved [of ?p start "stop + 2"] by (simp add: add.assoc)
    then show ?thesis using Some find_from_shift [of pre d CRLF start]
      by (simp add: redis_inline_def map_option.compositionality comp_def)
  qed (use find_from_shift [of pre d CRLF start] in \<open>simp add: redis_inline_def\<close>)
  ultimately show ?thesis by (simp add: redis_step_def nth_append)
qed

section \<open>PostgreSQL frames\<close>

lemma pg_startup_bounds: "pg_startup d c = Some n \<Longrightarrow> c < n \<and> n \<le> length d"
  by (auto simp: pg_startup_def Let_def split: if_split_asm)

lemma pg_frame_bounds: "pg_frame d c backend = Some (n, r) \<Longrightarrow> c < n \<and> n \<le> length d"
  using pg_startup_bounds [of d c n]
  by (auto simp: pg_frame_def pg_tagged_def Let_def not_less split: if_split_asm)

lemma pg_frame_append:
  assumes "pg_frame d c False = Some x"
  shows "pg_frame (d @ e) c False = Some x"
proof -
  have len: "c + 5 \<le> length d" using assms by (auto simp: pg_frame_def split: if_split_asm)
  have s: "pg_startup (d @ e) c = Some n" if "pg_startup d c = Some n" for n
  proof -
    have "c + 8 \<le> length d" "n \<le> length d" "c < n" "n = c + from_be (py_slice d c (c + 4))"
      using that by (auto simp: pg_startup_def Let_def not_less split: if_split_asm)
    then show ?thesis using that
      by (auto simp: pg_startup_def Let_def py_slice_append_left nth_append split: if_split_asm)
  qed
  have t: "pg_tagged (d @ e) c False = Some y" if "pg_tagged d c False = Some y" for y
    using that len by (auto simp: pg_tagged_def Let_def py_slice_append_left nth_append split: if_split_asm)
  show ?thesis using assms s t len by (auto simp: pg_frame_def nth_append split: if_split_asm)
qed

lemma pg_frame_shift:
  assumes "c < length d"
  shows "pg_frame (pre @ d) (length pre + c) False = map_option (\<lambda>(n, r). (length pre + n, r)) (pg_frame d c False)"
proof -
  let ?p = "length pre"
  have sh: "py_slice (pre @ d) (?p + c + a) (?p + c + b) = py_slice d (c + a) (c + b)"
    "py_slice (pre @ d) (?p + c) (?p + c + b) = py_slice d c (c + b)" for a b
    unfolding add.assoc by (rule py_slice_shift)+
  have at: "(pre @ d) ! (?p + i) = d ! i" for i by (simp add: nth_append)
  have "pg_startup (pre @ d) (?p + c) = map_option (\<lambda>n. ?p + n) (pg_startup d c)"
  proof -
    define len where "len = from_be (py_slice d c (c + 4))"
    have "(pre @ d) ! (?p + c + len - 1) = d ! (c + len - 1)" if "0 < len" using at [of "c + len - 1"] that by (simp add: add.assoc)
    then show ?thesis unfolding pg_startup_def sh len_def [symmetric] Let_def by auto
  qed
  moreover have "pg_tagged (pre @ d) (?p + c) False = map_option (\<lambda>(n, r). (?p + n, r)) (pg_tagged d c False)"
  proof -
    define len where "len = from_be (py_slice d (c + 1) (c + 5))"
    have "py_slice (pre @ d) (?p + c + 5) (?p + c + 1 + len) = py_slice d (c + 5) (c + 1 + len)"
      using sh(1) [of 5 "1 + len"] by (simp add: add.assoc)
    then show ?thesis unfolding pg_tagged_def sh at len_def [symmetric] Let_def by auto
  qed
  ultimately show ?thesis by (auto simp: pg_frame_def at map_option.compositionality comp_def)
qed

lemma password_records_moved:
  "n < b \<Longrightarrow> password_records m (k + a) (k + b) tag payload = map (moved k) (password_records m a b tag payload)"
  by (simp add: password_records_def coverage_moved) (simp add: moved_def)

lemma postgres_step_append: "postgres_step m d c = Some x \<Longrightarrow> postgres_step m (d @ e) c = Some x"
  using pg_frame_append [of d c _ e] by (auto simp: postgres_step_def)

lemma postgres_step_shift:
  assumes "c < length d"
  shows "postgres_step m (pre @ d) (length pre + c)
    = map_option (\<lambda>(next, rs). (length pre + next, map (moved (length pre)) rs)) (postgres_step m d c)"
  using pg_frame_shift [OF assms, of pre] pg_frame_bounds [of d c False]
  by (cases "pg_frame d c False") (auto simp: postgres_step_def password_records_moved)

section \<open>Walks\<close>

text \<open>The loops; a frame always advances.\<close>

lemma step_advances:
  shows redis_advances: "redis_step d c = Some (n, rs) \<Longrightarrow> c < n \<and> n \<le> length d"
    and postgres_advances: "postgres_step m d c = Some (n, rs) \<Longrightarrow> c < n \<and> n \<le> length d"
    and authentication_advances: "authentication_step d c = Some (n, rs) \<Longrightarrow> c < n \<and> n \<le> length d"
  using redis_step_bounds [of d c n rs] pg_frame_bounds [of d c _ n]
  by (auto simp: postgres_step_def authentication_step_def)

function redis_loop :: "bytes \<Rightarrow> nat \<Rightarrow> CleartextRecord list \<Rightarrow> CleartextRecord list \<times> nat" where
  "redis_loop d cursor records =
     (if cursor < length d
      then (case redis_step d cursor of None \<Rightarrow> (records, cursor) | Some (cursor', new) \<Rightarrow> redis_loop d cursor' (records @ new))
      else (records, cursor))"
  by pat_completeness auto

termination redis_loop
  by (relation "measure (\<lambda>(d, cursor, _). length d - cursor)") (auto dest!: redis_advances)

definition scan_redis :: "bytes \<Rightarrow> CleartextRecord list \<times> nat" where
  "scan_redis d = redis_loop d 0 []"

function postgres_loop :: "nat option \<Rightarrow> bytes \<Rightarrow> nat \<Rightarrow> CleartextRecord list \<Rightarrow> CleartextRecord list \<times> nat" where
  "postgres_loop m d cursor records =
     (if cursor < length d
      then (case postgres_step m d cursor of
              None \<Rightarrow> (records, cursor) | Some (cursor', new) \<Rightarrow> postgres_loop m d cursor' (records @ new))
      else (records, cursor))"
  by pat_completeness auto

termination postgres_loop
  by (relation "measure (\<lambda>(_, d, cursor, _). length d - cursor)") (auto dest!: postgres_advances)

definition scan_postgres :: "bytes \<Rightarrow> nat option \<Rightarrow> CleartextRecord list \<times> nat" where
  "scan_postgres d authentication_method = postgres_loop authentication_method d 0 []"

function authentication_loop :: "bytes \<Rightarrow> nat \<Rightarrow> CleartextRecord list \<Rightarrow> CleartextRecord list \<times> nat" where
  "authentication_loop d cursor records =
     (if cursor < length d
      then (case authentication_step d cursor of
              None \<Rightarrow> (records, cursor) | Some (cursor', new) \<Rightarrow> authentication_loop d cursor' (records @ new))
      else (records, cursor))"
  by pat_completeness auto

termination authentication_loop
  by (relation "measure (\<lambda>(d, cursor, _). length d - cursor)") (auto dest!: authentication_advances)

definition scan_postgres_authentication :: "bytes \<Rightarrow> CleartextRecord list \<times> nat" where
  "scan_postgres_authentication d = authentication_loop d 0 []"

declare redis_loop.simps [simp del] postgres_loop.simps [simp del] authentication_loop.simps [simp del]

definition redis_auth :: "bytes \<Rightarrow> CleartextRecord list" where
  "redis_auth d = filter (\<lambda>r. case cr_material r of RedisAuth _ _ _ \<Rightarrow> True | _ \<Rightarrow> False) (fst (scan_redis d))"

definition postgres_passwords :: "bytes \<Rightarrow> nat option \<Rightarrow> CleartextRecord list" where
  "postgres_passwords d authentication_method =
     filter (\<lambda>r. case cr_material r of CleartextCoverage _ _ \<Rightarrow> False | _ \<Rightarrow> True) (fst (scan_postgres d authentication_method))"

text \<open>A walk over frames: what its loop does with one frame, that frames advance, and where their records lie.\<close>

locale frame_walk =
  fixes frame :: "bytes \<Rightarrow> nat \<Rightarrow> (nat \<times> CleartextRecord list) option"
    and walk :: "bytes \<Rightarrow> nat \<Rightarrow> CleartextRecord list \<Rightarrow> CleartextRecord list \<times> nat"
  assumes walk_unfold: "walk d c rs = (if c < length d then (case frame d c of None \<Rightarrow> (rs, c) | Some (n, new) \<Rightarrow> walk d n (rs @ new))
      else (rs, c))"
    and advances: "frame d c = Some (n, new) \<Longrightarrow> c < n \<and> n \<le> length d"
    and one_record: "frame d c = Some (n, new) \<Longrightarrow> new = [] \<or> (\<exists>r. new = [r] \<and> cr_start r = c \<and> cr_end r = n)"
begin

lemma walk_induct [consumes 1, case_names walk]:
  assumes "c \<le> length d" "\<And>c. c \<le> length d \<Longrightarrow> (\<And>n new. c < length d \<Longrightarrow> frame d c = Some (n, new) \<Longrightarrow> n \<le> length d \<Longrightarrow> P n) \<Longrightarrow> P c"
  shows "P c"
  using assms(1)
proof (induction "length d - c" arbitrary: c rule: less_induct)
  case less
  show ?case by (rule assms(2) [OF less.prems]) (use less advances in \<open>force intro!: less.hyps\<close>)
qed

lemma walk_acc: "c \<le> length d \<Longrightarrow> walk d c rs = (rs @ fst (walk d c []), snd (walk d c []))"
proof (induction c arbitrary: rs rule: walk_induct)
  case (walk c)
  show ?case
  proof (cases "c < length d")
    case True
    show ?thesis
    proof (cases "frame d c")
      case (Some x)
      obtain n new where x: "x = (n, new)" by (cases x)
      have "n \<le> length d" using advances Some x by blast
      from walk(2) [OF True Some [unfolded x] this, of "rs @ new"] walk(2) [OF True Some [unfolded x] this, of new] show ?thesis
        using True Some x by (simp add: walk_unfold [of d c])
    qed (use True in \<open>simp add: walk_unfold [of d c]\<close>)
  qed (simp add: walk_unfold [of d c])
qed

lemma walk_step:
  assumes "c < length d" "frame d c = Some (n, new)"
  shows "walk d c [] = (new @ fst (walk d n []), snd (walk d n []))"
  using walk_acc [of n d new] advances [OF assms(2)] assms by (simp add: walk_unfold [of d c])

lemma walk_stop: "c \<ge> length d \<or> frame d c = None \<Longrightarrow> walk d c [] = ([], c)"
  by (auto simp: walk_unfold [of d c])

text \<open>The records are in order, do not overlap and lie in the consumed part.\<close>

lemma walk_spans:
  "c \<le> length d \<Longrightarrow> c \<le> snd (walk d c []) \<and> snd (walk d c []) \<le> length d
     \<and> (\<forall>r \<in> set (fst (walk d c [])). c \<le> cr_start r \<and> cr_start r < cr_end r \<and> cr_end r \<le> snd (walk d c []))
     \<and> sorted_wrt (\<lambda>r r'. cr_end r \<le> cr_start r') (fst (walk d c []))"
proof (induction c rule: walk_induct)
  case (walk c)
  show ?case
  proof (cases "c < length d \<and> frame d c \<noteq> None")
    case True
    then obtain n new where f: "frame d c = Some (n, new)" by auto
    have "c < n" "n \<le> length d" using advances [OF f] by simp_all
    with walk(2) [OF _ f] True one_record [OF f] walk_step [OF _ f] show ?thesis by fastforce
  next
    case False
    then have "walk d c [] = ([], c)" by (intro walk_stop) (auto simp: not_less)
    then show ?thesis using walk(1) by simp
  qed
qed

end

text \<open>A walk whose frames do not depend on what follows or precedes them can be resumed.\<close>

locale resumable_walk = frame_walk +
  assumes later_bytes: "c < length d \<Longrightarrow> frame d c = Some x \<Longrightarrow> frame (d @ e) c = Some x"
    and earlier_bytes: "c < length d \<Longrightarrow> frame (pre @ d) (length pre + c)
      = map_option (\<lambda>(n, new). (length pre + n, map (moved (length pre)) new)) (frame d c)"
begin

lemma walk_shift:
  "c \<le> length d \<Longrightarrow> walk (pre @ d) (length pre + c) [] = (map (moved (length pre)) (fst (walk d c [])), length pre + snd (walk d c []))"
proof (induction c rule: walk_induct)
  case (walk c)
  show ?case
  proof (cases "c < length d \<and> frame d c \<noteq> None")
    case True
    then obtain n new where f: "frame d c = Some (n, new)" by auto
    have "frame (pre @ d) (length pre + c) = Some (length pre + n, map (moved (length pre)) new)"
      using earlier_bytes [of c d pre] True f by simp
    from walk_step [OF _ this] walk(2) [OF _ f] walk_step [OF _ f] True advances [OF f] show ?thesis by simp
  next
    case False
    then have stop: "c \<ge> length d \<or> c < length d \<and> frame d c = None" by linarith
    then have "walk (pre @ d) (length pre + c) [] = ([], length pre + c)"
      using earlier_bytes [of c d pre] by (intro walk_stop) auto
    moreover have "walk d c [] = ([], c)" using stop by (intro walk_stop) auto
    ultimately show ?thesis by simp
  qed
qed

lemma walk_resume:
  "c \<le> length d \<Longrightarrow> walk (d @ e) c [] =
     (let (rs, c') = walk d c []; (rs', c'') = walk (drop c' (d @ e)) 0 [] in (rs @ map (moved c') rs', c' + c''))"
proof (induction c rule: walk_induct)
  case (walk c)
  show ?case
  proof (cases "c < length d \<and> frame d c \<noteq> None")
    case True
    then obtain n new where f: "frame d c = Some (n, new)" by auto
    have "frame (d @ e) c = Some (n, new)" using later_bytes f True by blast
    from walk_step [OF _ this] walk(2) [OF _ f] walk_step [OF _ f] True advances [OF f] show ?thesis
      by (simp add: Let_def case_prod_unfold)
  next
    case False
    then have "walk d c [] = ([], c)" by (intro walk_stop) (auto simp: not_less)
    moreover have "walk (d @ e) c [] = (map (moved c) (fst (walk (drop c (d @ e)) 0 [])), c + snd (walk (drop c (d @ e)) 0 []))"
      using walk_shift [of 0 "drop c (d @ e)" "take c (d @ e)"] walk(1) unfolding append_take_drop_id by simp
    ultimately show ?thesis by (simp add: Let_def case_prod_unfold)
  qed
qed

end

lemma redis_one_record:
  assumes "redis_step d c = Some (n, new)"
  shows "new = [] \<or> (\<exists>r. new = [r] \<and> cr_start r = c \<and> cr_end r = n)"
proof -
  have cov: "cr_start (coverage a b x y) = a" "cr_end (coverage a b x y) = b" for a b x y by (simp_all add: coverage_def)
  have rec: "redis_records c n as = [] \<or> (\<exists>r. redis_records c n as = [r] \<and> cr_start r = c \<and> cr_end r = n)" for as
    by (auto simp: redis_records_def cov split: option.split)
  have lim: "as = None" if "resp_arguments d s k first i as0 known = Some (m, as, True)" for s k first i as0 known m as
    using that by (induction k arbitrary: first i as0 known) (auto split: option.splits)
  have "redis_array d c = Some (n, new) \<Longrightarrow> ?thesis"
  proof -
    assume "redis_array d c = Some (n, new)"
    then obtain as l where r: "resp_command d c = Some (n, as, l)"
      "new = (if l then [coverage c n ''redis'' ''redis_auth_field_or_message_limit''] else []) @ redis_records c n as"
      by (auto simp: redis_array_def)
    have "l \<Longrightarrow> as = None" using r(1) lim by (auto simp: resp_command_def split: option.splits if_split_asm)
    then show ?thesis using r(2) rec cov by (auto simp: redis_records_def)
  qed
  moreover have "redis_bulk d c = Some (n, new) \<Longrightarrow> ?thesis" by (elim redis_bulk_SomeE) simp
  moreover have "redis_inline d c = Some (n, new) \<Longrightarrow> ?thesis"
    using rec cov by (elim redis_inline_SomeE) (auto simp: inline_records_def split: option.splits if_split_asm)
  ultimately show ?thesis using assms by (auto simp: redis_step_def split: if_split_asm)
qed

lemma postgres_one_record:
  assumes "postgres_step m d c = Some (n, new)"
  shows "new = [] \<or> (\<exists>r. new = [r] \<and> cr_start r = c \<and> cr_end r = n)"
proof -
  have "password_records m c n tag p = [] \<or> (\<exists>r. password_records m c n tag p = [r] \<and> cr_start r = c \<and> cr_end r = n)" for tag p
    by (simp add: password_records_def coverage_def)
  then show ?thesis using assms unfolding postgres_step_def by auto
qed

lemma authentication_one_record:
  assumes "authentication_step d c = Some (n, new)"
  shows "new = [] \<or> (\<exists>r. new = [r] \<and> cr_start r = c \<and> cr_end r = n)"
proof -
  have "cr_start (request_record c n p) = c" "cr_end (request_record c n p) = n" for p by (simp_all add: request_record_def)
  then show ?thesis using assms by (auto simp: authentication_step_def split: if_split_asm)
qed

interpretation rw: resumable_walk redis_step redis_loop
  by unfold_locales
    (use redis_advances redis_one_record redis_step_append redis_step_shift in \<open>auto simp: redis_loop.simps split: option.split\<close>)

interpretation pw: resumable_walk "postgres_step m" "postgres_loop m" for m
  by unfold_locales
    (use postgres_advances postgres_one_record postgres_step_append postgres_step_shift in
      \<open>auto simp: postgres_loop.simps split: option.split\<close>)

interpretation aw: frame_walk authentication_step authentication_loop
  by unfold_locales
    (use authentication_advances authentication_one_record in \<open>auto simp: authentication_loop.simps split: option.split\<close>)

section \<open>Encoding a command\<close>

lemma decimal_line_encoded:
  assumes "n < 10 ^ 10"
  shows "decimal_line (pre @ ascii (str_nat n) @ CRLF @ rest) (length pre) = Some (n, length pre + length (str_nat n) + 2)"
proof -
  let ?s = "ascii (str_nat n)" and ?d = "ascii (str_nat n) @ CRLF @ rest"
  note f = str_nat_decimal [of n]
  have l: "length ?s \<le> 10" using length_str_nat [OF assms] by simp
  have t: "take 13 ?d = ?s @ CRLF @ take (11 - length ?s) rest" using l by (simp add: CRLF_def numeral_eq_Suc Suc_diff_le)
  have "find_from (?s @ CRLF @ take (11 - length ?s) rest) CRLF 0 = Some (length ?s)"
  proof (rule find_from_eqI)
    fix k assume k: "k < length ?s"
    then have "digit (?s ! k)" using f by (simp add: list_all_length)
    moreover have "py_slice (?s @ CRLF @ take (11 - length ?s) rest) k (k + length CRLF) ! 0 = ?s ! k"
      using k by (subst nth_py_slice) (simp_all add: CRLF_def nth_append)
    ultimately show "py_slice (?s @ CRLF @ take (11 - length ?s) rest) k (k + length CRLF) \<noteq> CRLF"
      by (auto simp: CRLF_def digit_def)
  qed (simp_all add: py_slice_def CRLF_def)
  then have "find_within ?d CRLF 0 (0 + 13) = Some (length ?s)" unfolding find_within_def add_0 t .
  moreover have "py_slice ?d 0 (length ?s) = ?s" by (simp add: py_slice_def)
  ultimately have "decimal_line ?d 0 = Some (n, length ?s + 2)" using f l by (auto simp: decimal_line_def Let_def)
  then show ?thesis using decimal_line_shift [of pre ?d 0] by simp
qed

definition bulk :: "bytes \<Rightarrow> bytes" where
  "bulk a = [36] @ ascii (str_nat (length a)) @ CRLF @ a @ CRLF"

definition resp_encode :: "bytes list \<Rightarrow> bytes" where
  "resp_encode as = [42] @ ascii (str_nat (length as)) @ CRLF @ concat (map bulk as)"

definition command_ok :: "bytes list \<Rightarrow> bool" where
  "command_ok as \<longleftrightarrow> as \<noteq> [] \<and> length as \<le> MAX_RESP_ARGUMENTS \<and> (\<forall>a \<in> set as. length a \<le> MAX_FIELD_BYTES)
     \<and> length (resp_encode as) \<le> MAX_AUTH_MESSAGE_BYTES"

lemma resp_argument_bulk:
  assumes "length a \<le> MAX_FIELD_BYTES" "length pre + length (bulk a) \<le> MAX_AUTH_MESSAGE_BYTES"
  shows "\<exists>known'. resp_argument (pre @ bulk a @ rest) 0 first (length pre) (Some as) known
    = Some (length pre + length (bulk a), Some (as @ [a]), known')"
proof -
  let ?d = "pre @ bulk a @ rest" and ?n = "length (str_nat (length a))"
  have "length a < 10 ^ 10" using assms(1) by (simp add: MAX_FIELD_BYTES_def)
  from decimal_line_encoded [OF this, of "pre @ [36]" "a @ CRLF @ rest"]
  have l: "decimal_line ?d (length pre + 1) = Some (length a, length pre + ?n + 3)" by (simp add: bulk_def)
  have d: "?d = (pre @ [36] @ ascii (str_nat (length a)) @ CRLF) @ a @ CRLF @ rest"
    "?d = (pre @ [36] @ ascii (str_nat (length a)) @ CRLF @ a) @ CRLF @ rest" by (simp_all add: bulk_def)
  have s: "py_slice ?d (length pre + ?n + 3) (length pre + ?n + 3 + length a) = a"
    unfolding d(1) by (rule py_slice_mid) (simp_all add: CRLF_def)
  have s2: "py_slice ?d (length pre + ?n + 3 + length a) (length pre + ?n + 3 + length a + 2) = CRLF"
    unfolding d(2) by (rule py_slice_mid) (simp_all add: CRLF_def)
  have b: "length (bulk a) = ?n + 5 + length a" by (simp add: bulk_def CRLF_def)
  then show ?thesis unfolding resp_argument_def l option.case prod.case Let_def s s2 using assms
    by (simp add: bulk_def CRLF_def nth_append)
qed

lemma resp_arguments_bulks:
  assumes "\<forall>a \<in> set args. length a \<le> MAX_FIELD_BYTES" "length pre + length (concat (map bulk args)) \<le> MAX_AUTH_MESSAGE_BYTES"
  shows "resp_arguments (pre @ concat (map bulk args) @ rest) 0 (length args) first (length pre) (Some as) known
    = Some (length pre + length (concat (map bulk args)), Some (as @ args), False)"
  using assms
proof (induction args arbitrary: pre first as known)
  case (Cons a args)
  obtain known' where "resp_argument (pre @ bulk a @ concat (map bulk args) @ rest) 0 first (length pre) (Some as) known
      = Some (length pre + length (bulk a), Some (as @ [a]), known')"
    using resp_argument_bulk [of a pre "concat (map bulk args) @ rest" first as known] Cons.prems by auto
  moreover have "resp_arguments ((pre @ bulk a) @ concat (map bulk args) @ rest) 0 (length args) False (length (pre @ bulk a)) (Some (as @ [a])) known'
      = Some (length (pre @ bulk a) + length (concat (map bulk args)), Some ((as @ [a]) @ args), False)"
    by (rule Cons.IH) (use Cons.prems in auto)
  ultimately show ?case by simp
qed simp

lemma redis_step_encoded:
  assumes "command_ok as"
  shows "redis_step (resp_encode as @ rest) 0 = Some (length (resp_encode as), redis_records 0 (length (resp_encode as)) (Some as))"
proof -
  let ?pre = "[42] @ ascii (str_nat (length as)) @ CRLF"
  have "length as < 10 ^ 10" using assms by (simp add: command_ok_def MAX_RESP_ARGUMENTS_def)
  from decimal_line_encoded [OF this, of "[42]" "concat (map bulk as) @ rest"]
  have l: "decimal_line (resp_encode as @ rest) (0 + 1) = Some (length as, length ?pre)" by (simp add: resp_encode_def CRLF_def)
  have "resp_arguments (?pre @ concat (map bulk as) @ rest) 0 (length as) True (length ?pre) (Some []) False
      = Some (length ?pre + length (concat (map bulk as)), Some ([] @ as), False)"
    by (rule resp_arguments_bulks) (use assms in \<open>auto simp: command_ok_def resp_encode_def\<close>)
  then have "resp_command (resp_encode as @ rest) 0 = Some (length (resp_encode as), Some as, False)"
    using l assms by (simp add: resp_command_def resp_encode_def command_ok_def Suc_le_eq)
  then show ?thesis by (simp add: redis_step_def redis_array_def) (simp add: resp_encode_def)
qed

text \<open>The records of a list of commands that begins at an offset.\<close>

fun pipeline_records :: "nat \<Rightarrow> bytes list list \<Rightarrow> CleartextRecord list" where
  "pipeline_records offset [] = []"
| "pipeline_records offset (as # commands) =
     redis_records offset (offset + length (resp_encode as)) (Some as) @ pipeline_records (offset + length (resp_encode as)) commands"

lemma pipeline_moved: "pipeline_records (n + k) commands = map (moved n) (pipeline_records k commands)"
  by (induction commands arbitrary: k) (simp_all add: redis_records_moved add.assoc)

lemma redis_loop_encoded:
  "\<forall>as \<in> set commands. command_ok as \<Longrightarrow>
   redis_loop (concat (map resp_encode commands)) 0 [] = (pipeline_records 0 commands, length (concat (map resp_encode commands)))"
proof (induction commands)
  case Nil
  then show ?case by (simp add: rw.walk_stop)
next
  case (Cons as commands)
  let ?e = "resp_encode as" and ?rest = "concat (map resp_encode commands)"
  have "redis_step (?e @ ?rest) 0 = Some (length ?e, redis_records 0 (length ?e) (Some as))"
    by (rule redis_step_encoded) (use Cons.prems in simp)
  moreover have "0 < length (?e @ ?rest)" by (simp add: resp_encode_def)
  ultimately have "redis_loop (?e @ ?rest) 0 [] = (redis_records 0 (length ?e) (Some as) @ fst (redis_loop (?e @ ?rest) (length ?e) []),
      snd (redis_loop (?e @ ?rest) (length ?e) []))" by (rule rw.walk_step [rotated])
  moreover have "redis_loop (?e @ ?rest) (length ?e) [] = (map (moved (length ?e)) (pipeline_records 0 commands), length ?e + length ?rest)"
    using rw.walk_shift [of 0 ?rest ?e] Cons by simp
  ultimately show ?case using pipeline_moved [of "length ?e" 0 commands] by simp
qed

section \<open>Properties\<close>


definition sample_pipeline :: "bytes list list" where
  "sample_pipeline =
     [[ascii ''GET'', resp_encode [ascii ''AUTH'', ascii ''x'']], [ascii ''auth'', ascii ''u'', ascii ''pw'']]"

lemmas encode_simps = resp_encode_def bulk_def CRLF_def ascii_def str_nat.simps digit_char_def


text \<open>C16: the promise of the module's header, that callers can keep a stream cursor. Scanning what has arrived and later
  scanning from the returned cursor, when more has arrived, gives exactly what one scan of everything gives, for the
  Redis recognizer and for the PostgreSQL client recognizer with any authentication method, wherever the stream is cut.\<close>

theorem cleartext_scans_resume:
  "scan_redis (d @ e) = (let (rs, c) = scan_redis d; (rs', c') = scan_redis (drop c (d @ e)) in (rs @ map (moved c) rs', c + c'))
   \<and> scan_postgres (d @ e) m =
       (let (rs, c) = scan_postgres d m; (rs', c') = scan_postgres (drop c (d @ e)) m in (rs @ map (moved c) rs', c + c'))"
  unfolding scan_redis_def scan_postgres_def using rw.walk_resume [of 0 d e] pw.walk_resume [of 0 d m e] by simp

text \<open>The three recognizers consume no more than they were given, and their records are in stream order, do not
  overlap and lie inside the consumed part.\<close>

lemma cleartext_records_ordered:
  "\<forall>(rs, c) \<in> {scan_redis d, scan_postgres d m, scan_postgres_authentication d}.
     c \<le> length d \<and> (\<forall>r \<in> set rs. cr_start r < cr_end r \<and> cr_end r \<le> c) \<and> sorted_wrt (\<lambda>r r'. cr_end r \<le> cr_start r') rs"
  unfolding scan_redis_def scan_postgres_def scan_postgres_authentication_def
  using rw.walk_spans [of 0 d] pw.walk_spans [of 0 d m] aw.walk_spans [of 0 d] by auto

end
