(* ===== verification/Http_Framing.thy ===== *)
theory Http_Framing
  imports Ordered_Dict Byte_Text
begin

text \<open>
  HTTP/1 request framing (\<open>packet_audit/http_forms.py\<close>): the request line, headers, \<open>Content-Length\<close> and chunked bodies, and
  the framer that walks over the requests of one direction of a connection. The regular expressions of the request line
  are deterministic and are written out as functions. A counter of the detector is represented by the list of the names
  that were incremented.
\<close>

section \<open>Request lines and headers\<close>

definition MAX_HEADER :: nat where "MAX_HEADER = 32768"

definition METHODS :: "bytes list" where
  "METHODS = map ascii [''GET'', ''POST'', ''PUT'', ''PATCH'', ''DELETE'', ''HEAD'', ''OPTIONS'', ''CONNECT'', ''TRACE'']"

definition begins :: "bytes \<Rightarrow> bytes \<Rightarrow> bool" where
  "begins prefix bs \<longleftrightarrow> take (length prefix) bs = prefix"

record request_line =
  rl_method :: bytes
  rl_target :: bytes
  rl_target_start :: nat
  rl_end :: nat

definition target_byte :: "byte \<Rightarrow> bool" where
  "target_byte b \<longleftrightarrow> b \<noteq> 13 \<and> b \<noteq> 10 \<and> b \<noteq> 32"

text \<open>\<open>_REQUEST_AT.match(data, i)\<close>.\<close>

definition request_at :: "bytes \<Rightarrow> nat \<Rightarrow> request_line option" where
  "request_at d i =
     (case find (\<lambda>m. begins (m @ [32]) (drop i d)) METHODS of
        None \<Rightarrow> None
      | Some m \<Rightarrow>
          (let t = i + length m + 1; target = takeWhile target_byte (drop t d); e = t + length target in
           if 1 \<le> length target \<and> length target \<le> 8192
              \<and> (begins (ascii '' HTTP/1.0'' @ CRLF) (drop e d) \<or> begins (ascii '' HTTP/1.1'' @ CRLF) (drop e d))
           then Some \<lparr>rl_method = m, rl_target = target, rl_target_start = t, rl_end = e + 11\<rparr> else None))"

text \<open>\<open>_REQUEST.search(data, start)\<close>: a request line at the start of the data or after a line feed.\<close>

definition search_request :: "bytes \<Rightarrow> nat \<Rightarrow> nat option" where
  "search_request d start = find (\<lambda>i. (i = 0 \<or> d ! (i - 1) = 10) \<and> request_at d i \<noteq> None) [start ..< length d]"

text \<open>\<open>bs.split(b"\r\n")\<close>, \<open>bs.strip()\<close> and \<open>bs.lower()\<close>.\<close>

function split_crlf :: "bytes \<Rightarrow> bytes list" where
  "split_crlf [] = [[]]"
| "split_crlf (a # bs) =
     (if a = 13 \<and> bs \<noteq> [] \<and> hd bs = 10 then [] # split_crlf (tl bs)
      else (case split_crlf bs of x # xs \<Rightarrow> (a # x) # xs | [] \<Rightarrow> [[a]]))"
  by pat_completeness auto
termination by (relation "measure length") auto

definition http_space :: "byte \<Rightarrow> bool" where
  "http_space b \<longleftrightarrow> b = 32 \<or> b = 9 \<or> b = 10 \<or> b = 11 \<or> b = 12 \<or> b = 13"

definition strip :: "bytes \<Rightarrow> bytes" where
  "strip bs = rev (dropWhile http_space (rev (dropWhile http_space bs)))"

definition byte_lower :: "byte \<Rightarrow> byte" where
  "byte_lower b = (if 65 \<le> unat b \<and> unat b \<le> 90 then b + 32 else b)"

definition bytes_lower :: "bytes \<Rightarrow> bytes" where
  "bytes_lower bs = map byte_lower bs"

text \<open>The bytes a header name may have.\<close>

definition token_byte :: "byte \<Rightarrow> bool" where
  "token_byte b \<longleftrightarrow> digit b \<or> (65 \<le> unat b \<and> unat b \<le> 90) \<or> (97 \<le> unat b \<and> unat b \<le> 122)
     \<or> b \<in> set (ascii ''!#$%&*+.^_`|~-'') \<or> b = 39"

definition header_line :: "bytes \<Rightarrow> (bytes \<times> bytes) option" where
  "header_line line =
     (let key = takeWhile (\<lambda>b. b \<noteq> 58) line in
      if hd line = 32 \<or> hd line = 9 \<or> 58 \<notin> set line \<or> key = [] \<or> \<not> list_all token_byte key then None
      else Some (bytes_lower key, strip (drop (length key + 1) line)))"

text \<open>The loop over the header lines; \<open>None\<close> where \<open>valid\<close> becomes false.\<close>

fun header_lines :: "bytes list \<Rightarrow> (bytes, bytes list) odict \<Rightarrow> (bytes, bytes list) odict option" where
  "header_lines [] headers = Some headers"
| "header_lines (line # rest) headers =
     (if line = [] then header_lines rest headers
      else (case header_line line of
              None \<Rightarrow> None
            | Some (key, v) \<Rightarrow>
                header_lines rest (od_put key ((case od_get headers key of None \<Rightarrow> [] | Some vs \<Rightarrow> vs) @ [v]) headers)))"

definition header_values :: "(bytes, bytes list) odict \<Rightarrow> string \<Rightarrow> bytes list" where
  "header_values headers name = (case od_get headers (ascii name) of None \<Rightarrow> [] | Some vs \<Rightarrow> vs)"

text \<open>\<open>raw.decode("latin-1").lower()\<close>, as bytes.\<close>

definition latin1_lower :: "bytes \<Rightarrow> bytes" where
  "latin1_lower bs = map (\<lambda>b. if 192 \<le> unat b \<and> unat b \<le> 222 \<and> b \<noteq> 215 then b + 32 else byte_lower b) bs"

definition content_type_of :: "(bytes, bytes list) odict \<Rightarrow> bytes" where
  "content_type_of headers =
     (case header_values headers ''content-type'' of
        [] \<Rightarrow> []
      | v # _ \<Rightarrow> latin1_lower (strip (takeWhile (\<lambda>b. b \<noteq> 59) v)))"

definition content_encoded :: "(bytes, bytes list) odict \<Rightarrow> bool" where
  "content_encoded headers =
     (case header_values headers ''content-encoding'' of
        [] \<Rightarrow> False
      | v # _ \<Rightarrow> bytes_lower v \<notin> {[], ascii ''identity''})"

section \<open>Chunked bodies\<close>

type_synonym body_span = "nat \<times> nat \<times> nat"

datatype chunk_result = ChunkIncomplete | ChunkError string | ChunkBody bytes "body_span list" nat

definition hex_value :: "byte \<Rightarrow> nat option" where
  "hex_value b =
     (let n = unat b in
      if 48 \<le> n \<and> n \<le> 57 then Some (n - 48) else if 65 \<le> n \<and> n \<le> 70 then Some (n - 55)
      else if 97 \<le> n \<and> n \<le> 102 then Some (n - 87) else None)"

definition hex_number :: "bytes \<Rightarrow> nat option" where
  "hex_number bs =
     (if bs = [] \<or> length bs > 8 \<or> list_ex (\<lambda>b. hex_value b = None) bs then None
      else Some (foldl (\<lambda>n b. n * 16 + the (hex_value b)) 0 bs))"

definition BLANK_LINE :: bytes where "BLANK_LINE = CRLF @ CRLF"

function chunked :: "bytes \<Rightarrow> nat \<Rightarrow> nat \<Rightarrow> nat \<Rightarrow> bytes \<Rightarrow> body_span list \<Rightarrow> chunk_result" where
  "chunked d pos start limit body spans =
     (case find_from d CRLF pos of
        None \<Rightarrow> ChunkIncomplete
      | Some line_end \<Rightarrow>
          (if line_end - pos > 1024 \<or> length spans \<ge> 4096 then ChunkError ''chunk_limit''
           else
             (case hex_number (takeWhile (\<lambda>b. b \<noteq> 59) (py_slice d pos line_end)) of
                None \<Rightarrow> ChunkError ''invalid_chunk''
              | Some len \<Rightarrow>
                  (let p = line_end + 2 in
                   if len = 0 then
                     (if py_slice d p (p + 2) = CRLF then ChunkBody body spans (p + 2)
                      else (case find_from d BLANK_LINE p of
                              None \<Rightarrow> ChunkIncomplete
                            | Some trailers_end \<Rightarrow>
                                if trailers_end + 4 - start > limit then ChunkError ''body_limit''
                                else ChunkBody body spans (trailers_end + 4)))
                   else if p + len + 2 - start > limit then ChunkError ''body_limit''
                   else if p + len + 2 > length d then ChunkIncomplete
                   else if py_slice d (p + len) (p + len + 2) \<noteq> CRLF then ChunkError ''invalid_chunk''
                   else chunked d (p + len + 2) start limit (body @ py_slice d p (p + len))
                          (spans @ [(length body, length body + len, p - start)])))))"
  by pat_completeness auto
termination
  by (relation "measure (\<lambda>(d, pos, _). length d - pos)") (auto dest!: find_from_Some)

declare chunked.simps [simp del]

section \<open>The framer\<close>

record Message =
  ms_start :: nat
  ms_header_end :: nat
  ms_end :: nat
  ms_target :: bytes
  ms_target_start :: nat
  ms_content_type :: bytes
  ms_body :: bytes
  ms_body_spans :: "body_span list"
  ms_complete :: bool
  ms_encoded_content :: bool

definition wire_span :: "Message \<Rightarrow> nat \<Rightarrow> nat \<Rightarrow> nat \<times> nat" where
  "wire_span m start stop =
     (let first = (case find (\<lambda>(left, right, wire). left \<le> start \<and> start < right) (ms_body_spans m) of
                     None \<Rightarrow> ms_header_end m | Some (left, right, wire) \<Rightarrow> wire + start - left) in
      (first, case find (\<lambda>(left, right, wire). left < stop \<and> stop \<le> right) (ms_body_spans m) of
                None \<Rightarrow> first | Some (left, right, wire) \<Rightarrow> wire + stop - left))"

record HTTPFramer =
  hf_cursor :: "nat option"
  hf_recognized :: bool
  hf_blocked :: bool
  hf_unframed_start :: "nat option"
  hf_last_unframed_end :: int
  hf_search_end :: nat

definition new_framer :: HTTPFramer where
  "new_framer = \<lparr>hf_cursor = None, hf_recognized = False, hf_blocked = False, hf_unframed_start = None,
     hf_last_unframed_end = - 1, hf_search_end = 0\<rparr>"

text \<open>What a round of the loop leaves: the framer, the messages, the counters, and whether the loop goes on.\<close>

type_synonym framing = "HTTPFramer \<times> Message list \<times> string list \<times> bool"

definition block :: "string \<Rightarrow> HTTPFramer \<Rightarrow> framing" where
  "block counter f = (f\<lparr>hf_blocked := True\<rparr>, [], [counter], False)"

definition wait_more :: "HTTPFramer \<Rightarrow> framing" where
  "wait_more f = (f, [], [], False)"

definition message_of ::
  "bytes \<Rightarrow> nat \<Rightarrow> request_line \<Rightarrow> nat \<Rightarrow> nat \<Rightarrow> (bytes, bytes list) odict \<Rightarrow> bytes \<Rightarrow> body_span list \<Rightarrow> bool \<Rightarrow> Message" where
  "message_of d start rl header_end stop headers body spans complete =
     \<lparr>ms_start = start, ms_header_end = header_end - start, ms_end = stop - start, ms_target = rl_target rl,
      ms_target_start = rl_target_start rl - start, ms_content_type = content_type_of headers, ms_body = body,
      ms_body_spans = spans, ms_complete = complete, ms_encoded_content = content_encoded headers\<rparr>"

text \<open>A complete request, and the move of the cursor behind it.\<close>

definition framed ::
  "bytes \<Rightarrow> nat \<Rightarrow> nat \<Rightarrow> request_line \<Rightarrow> nat \<Rightarrow> nat \<Rightarrow> (bytes, bytes list) odict \<Rightarrow> bytes \<Rightarrow> body_span list \<Rightarrow> HTTPFramer \<Rightarrow> framing" where
  "framed d base start rl header_end stop headers body spans f =
     (f\<lparr>hf_cursor := Some (base + stop)\<rparr>, [message_of d start rl header_end stop headers body spans True],
      [''http_framed_requests''], True)"

text \<open>A request that announces a body without its length: evidence up to the next request line, never complete.\<close>

definition unframed ::
  "bytes \<Rightarrow> nat \<Rightarrow> nat \<Rightarrow> request_line \<Rightarrow> nat \<Rightarrow> (bytes, bytes list) odict \<Rightarrow> HTTPFramer \<Rightarrow> framing" where
  "unframed d base start rl header_end headers f =
     (let seen = hf_unframed_start f = hf_cursor f;
          f1 = f\<lparr>hf_unframed_start := hf_cursor f\<rparr>;
          following = search_request d header_end;
          stop = (case following of Some i \<Rightarrow> i | None \<Rightarrow> length d);
          grown = int (base + stop) > hf_last_unframed_end f1;
          f2 = (if grown then f1\<lparr>hf_last_unframed_end := int (base + stop)\<rparr> else f1);
          messages = (if grown then [message_of d start rl header_end stop headers (py_slice d header_end stop)
                                       [(0, stop - header_end, header_end - start)] False] else []);
          counters = (if seen then [] else [''http_framing_missing_body_length'']) in
      (case following of
         Some _ \<Rightarrow> (f2\<lparr>hf_cursor := Some (base + stop)\<rparr>, messages, counters, True)
       | None \<Rightarrow> (f2, messages, counters, False)))"

definition frame_chunked ::
  "bytes \<Rightarrow> nat \<Rightarrow> nat \<Rightarrow> nat \<Rightarrow> request_line \<Rightarrow> nat \<Rightarrow> (bytes, bytes list) odict \<Rightarrow> HTTPFramer \<Rightarrow> framing" where
  "frame_chunked d base limit start rl header_end headers f =
     (case chunked d header_end start limit [] [] of
        ChunkIncomplete \<Rightarrow> if length d - start > limit then block ''http_framing_body_limit'' f else wait_more f
      | ChunkError reason \<Rightarrow> block (''http_framing_'' @ reason) f
      | ChunkBody body spans stop \<Rightarrow> framed d base start rl header_end stop headers body spans f)"

definition frame_length ::
  "bytes \<Rightarrow> nat \<Rightarrow> nat \<Rightarrow> nat \<Rightarrow> request_line \<Rightarrow> nat \<Rightarrow> (bytes, bytes list) odict \<Rightarrow> bytes \<Rightarrow> HTTPFramer \<Rightarrow> framing" where
  "frame_length d base limit start rl header_end headers raw_length f =
     (if raw_length = [] \<or> \<not> list_all digit raw_length \<or> length raw_length > 10 then block ''http_framing_invalid_length'' f
      else
        let stop = header_end + decimal raw_length in
        if stop - start > limit then (f\<lparr>hf_cursor := Some (base + stop)\<rparr>, [], [''http_framing_body_limit''], True)
        else if stop > length d then wait_more f
        else framed d base start rl header_end stop headers (py_slice d header_end stop) [(0, stop - header_end, header_end - start)] f)"

text \<open>The request whose head is complete.\<close>

definition frame_body ::
  "bytes \<Rightarrow> nat \<Rightarrow> nat \<Rightarrow> nat \<Rightarrow> request_line \<Rightarrow> nat \<Rightarrow> HTTPFramer \<Rightarrow> framing" where
  "frame_body d base limit start rl header_end f =
     (case header_lines (split_crlf (py_slice d (rl_end rl) (header_end - 2))) [] of
        None \<Rightarrow> block ''http_framing_ambiguous'' f
      | Some headers \<Rightarrow>
          (let lengths = header_values headers ''content-length''; transfer = header_values headers ''transfer-encoding'' in
           if lengths \<noteq> [] \<and> transfer \<noteq> [] \<or> length lengths > 1 \<or> length transfer > 1 then block ''http_framing_ambiguous'' f
           else if transfer \<noteq> [] then
             (if bytes_lower (hd transfer) \<noteq> ascii ''chunked'' then block ''http_framing_unsupported_transfer_encoding'' f
              else frame_chunked d base limit start rl header_end headers f)
           else if lengths \<noteq> [] then frame_length d base limit start rl header_end headers (hd lengths) f
           else if rl_method rl \<in> set (map ascii [''POST'', ''PUT'', ''PATCH'']) \<and> content_type_of headers \<noteq> []
           then unframed d base start rl header_end headers f
           else framed d base start rl header_end header_end headers [] [] f))"

text \<open>One round of the loop, at a cursor inside the window.\<close>

definition framer_round :: "bytes \<Rightarrow> nat \<Rightarrow> nat \<Rightarrow> nat \<Rightarrow> HTTPFramer \<Rightarrow> framing" where
  "framer_round d base limit start f =
     (case request_at d start of
        None \<Rightarrow>
          if find_from d [10] start \<noteq> None \<or> length d - start > MAX_HEADER then block ''http_framing_invalid_request'' f else wait_more f
      | Some rl \<Rightarrow>
          (case find_from d BLANK_LINE (rl_end rl - 2) of
             None \<Rightarrow> if length d - start > MAX_HEADER then block ''http_framing_header_limit'' f else wait_more f
           | Some blank \<Rightarrow>
               if blank + 4 - start > MAX_HEADER then block ''http_framing_header_limit'' f
               else frame_body d base limit start rl (blank + 4) f))"

section \<open>The loop\<close>

lemma begins_length: "begins p bs \<Longrightarrow> length p \<le> length bs"
  by (auto simp: begins_def) (metis length_take min.cobounded1 min.commute)

lemma request_at_bounds:
  "request_at d i = Some rl \<Longrightarrow>
   i < rl_target_start rl \<and> rl_target_start rl + length (rl_target rl) + 11 = rl_end rl \<and> rl_end rl \<le> length d
   \<and> py_slice d (rl_target_start rl) (rl_target_start rl + length (rl_target rl)) = rl_target rl"
  by (auto simp: request_at_def Let_def CRLF_def py_slice_def takeWhile_eq_take [symmetric] split: option.splits if_splits
      dest!: begins_length)

lemma search_request_bounds: "search_request d i = Some j \<Longrightarrow> i \<le> j \<and> j < length d \<and> request_at d j \<noteq> None"
  by (auto simp: search_request_def find_Some_iff)

lemma chunked_step:
  assumes "chunked d pos start limit body spans = ChunkBody b s stop"
  shows "b = body \<and> s = spans \<and> pos < stop \<and> stop \<le> length d
    \<or> (\<exists>p len. pos < p \<and> 0 < len \<and> p + len + 2 \<le> length d
         \<and> chunked d (p + len + 2) start limit (body @ py_slice d p (p + len))
             (spans @ [(length body, length body + len, p - start)]) = ChunkBody b s stop)"
proof -
  obtain l where l: "find_from d CRLF pos = Some l" "pos < l + 2"
    using assms by (subst (asm) chunked.simps) (auto split: option.splits dest: find_from_Some)
  have two: "py_slice d (l + 2) (l + 2 + 2) = CRLF \<Longrightarrow> l + 2 + 2 \<le> length d"
    by (drule arg_cong [where f = length]) (simp add: CRLF_def)
  have trail: "find_from d BLANK_LINE (l + 2) = Some t \<Longrightarrow> l + 2 \<le> t \<and> t + 4 \<le> length d" for t
    using find_from_Some [of d BLANK_LINE "l + 2" t] by (simp add: BLANK_LINE_def CRLF_def)
  obtain len where len: "hex_number (takeWhile (\<lambda>b. b \<noteq> 59) (py_slice d pos l)) = Some len"
    using assms l by (subst (asm) chunked.simps) (auto split: if_splits option.splits)
  show ?thesis
  proof (cases "len = 0")
    case True
    then have "b = body \<and> s = spans \<and> pos < stop \<and> stop \<le> length d"
      using assms l len two trail by (subst (asm) chunked.simps) (force simp: Let_def split: if_splits option.splits)
    then show ?thesis ..
  next
    case False
    then have "chunked d (l + 2 + len + 2) start limit (body @ py_slice d (l + 2) (l + 2 + len))
             (spans @ [(length body, length body + len, l + 2 - start)]) = ChunkBody b s stop \<and> l + 2 + len + 2 \<le> length d"
      using assms len l by (subst (asm) chunked.simps) (simp add: Let_def split: if_splits)
    with False l show ?thesis by blast
  qed
qed

lemma chunked_induct [consumes 1, case_names last chunk]:
  assumes "chunked d pos start limit body spans = ChunkBody b s stop"
    and "\<And>pos. pos < stop \<Longrightarrow> stop \<le> length d \<Longrightarrow> P pos b s"
    and "\<And>pos p len body spans. pos < p \<Longrightarrow> 0 < len \<Longrightarrow> p + len + 2 \<le> length d \<Longrightarrow>
      P (p + len + 2) (body @ py_slice d p (p + len)) (spans @ [(length body, length body + len, p - start)]) \<Longrightarrow> P pos body spans"
  shows "P pos body spans"
  using assms(1)
proof (induction "length d - pos" arbitrary: pos body spans rule: less_induct)
  case less
  from chunked_step [OF less.prems] show ?case
    by (elim disjE conjE exE) (use assms(2) in simp, rule assms(3), assumption+, rule less.hyps, auto)
qed

lemma chunked_bounds: "chunked d pos start limit body spans = ChunkBody b s stop \<Longrightarrow> pos < stop \<and> stop \<le> length d"
  by (induction rule: chunked_induct) simp_all

lemma frame_body_advances:
  assumes "frame_body d base limit start rl h f = (f', ms, cs, True)" "start < h"
  shows "\<exists>c. hf_cursor f' = Some c \<and> base + start < c"
  using assms
  by (auto simp: frame_body_def block_def framed_def frame_chunked_def wait_more_def frame_length_def unframed_def Let_def
      split: option.splits if_splits chunk_result.splits dest!: chunked_bounds search_request_bounds)

lemma framer_round_advances:
  assumes "framer_round d base limit start f = (f', ms, cs, True)"
  shows "\<exists>c. hf_cursor f' = Some c \<and> base + start < c"
  using assms
  by (auto simp: framer_round_def block_def wait_more_def split: option.splits if_splits
      intro!: frame_body_advances dest!: request_at_bounds find_from_Some)

text \<open>The \<open>while\<close> loop, at a cursor that is not before the window.\<close>

function framer_loop :: "bytes \<Rightarrow> nat \<Rightarrow> nat \<Rightarrow> HTTPFramer \<Rightarrow> HTTPFramer \<times> Message list \<times> string list" where
  "framer_loop d base limit f =
     (case hf_cursor f of
        None \<Rightarrow> (f, [], [])
      | Some cursor \<Rightarrow>
          if cursor \<ge> base + length d then (f, [], [])
          else
            (case framer_round d base limit (cursor - base) f of
               (f1, ms, cs, again) \<Rightarrow>
                 if again then (case framer_loop d base limit f1 of (f2, ms2, cs2) \<Rightarrow> (f2, ms @ ms2, cs @ cs2)) else (f1, ms, cs)))"
  by pat_completeness auto
termination
  by (relation "measure (\<lambda>(d, base, limit, f). base + length d - the (hf_cursor f))")
    (auto dest!: framer_round_advances [OF sym])

declare framer_loop.simps [simp del]

text \<open>\<open>HTTPFramer.scan(data, base, limit, stats)\<close>.\<close>

definition framer_scan :: "HTTPFramer \<Rightarrow> bytes \<Rightarrow> nat \<Rightarrow> nat \<Rightarrow> HTTPFramer \<times> Message list \<times> string list" where
  "framer_scan f d base limit =
     (if hf_blocked f then (f, [], [])
      else
        (case hf_cursor f of
           Some cursor \<Rightarrow>
             if cursor < base then (f\<lparr>hf_blocked := True\<rparr>, [], [''http_framing_tail_lost'']) else framer_loop d base limit f
         | None \<Rightarrow>
             (let f1 = f\<lparr>hf_search_end := base + length d\<rparr> in
              case search_request d (hf_search_end f - base - 8192) of
                None \<Rightarrow> (f1, [], [])
              | Some i \<Rightarrow> framer_loop d base limit (f1\<lparr>hf_cursor := Some (base + i), hf_recognized := True\<rparr>))))"

section \<open>Where the bytes of a body are on the wire\<close>

text \<open>
  The spans of a body, between two positions of the data: they cover the body, in its order and in the order of the wire,
  and each copies the bytes it names.
\<close>

definition span_ok :: "bytes \<Rightarrow> nat \<Rightarrow> nat \<Rightarrow> nat \<Rightarrow> bytes \<Rightarrow> body_span \<Rightarrow> bool" where
  "span_ok d start lo hi body = (\<lambda>(left, right, wire). left < right \<and> right \<le> length body
     \<and> lo \<le> start + wire \<and> start + wire + (right - left) \<le> hi \<and> hi \<le> length d
     \<and> py_slice d (start + wire) (start + wire + (right - left)) = py_slice body left right)"

definition spans_ok :: "bytes \<Rightarrow> nat \<Rightarrow> nat \<Rightarrow> nat \<Rightarrow> bytes \<Rightarrow> body_span list \<Rightarrow> bool" where
  "spans_ok d start lo hi body spans \<longleftrightarrow>
     list_all (span_ok d start lo hi body) spans
     \<and> sorted_wrt (\<lambda>(l1, r1, w1) (l2, r2, w2). r1 \<le> l2 \<and> w1 + (r1 - l1) \<le> w2) spans
     \<and> (\<forall>k < length body. \<exists>(left, right, wire) \<in> set spans. left \<le> k \<and> k < right)"

lemma span_ok_mono:
  "span_ok d start lo hi body x \<Longrightarrow> hi \<le> hi' \<Longrightarrow> hi' \<le> length d \<Longrightarrow> span_ok d start lo hi' (body @ extra) x"
  by (auto simp: span_ok_def py_slice_append_left)

lemma spans_ok_mono:
  "spans_ok d start lo hi body spans \<Longrightarrow> hi \<le> hi' \<Longrightarrow> hi' \<le> length d \<Longrightarrow> spans_ok d start lo hi' body spans"
  using span_ok_mono [of d start lo hi body _ hi' "[]"] by (simp add: spans_ok_def list_all_iff)

lemma spans_ok_snoc:
  assumes "spans_ok d start lo pos body spans" "start \<le> lo" "lo \<le> pos" "pos \<le> p" "0 < len" "p + len \<le> hi" "hi \<le> length d"
  shows "spans_ok d start lo hi (body @ py_slice d p (p + len)) (spans @ [(length body, length body + len, p - start)])"
proof -
  have l: "length (py_slice d p (p + len)) = len" using assms by simp
  have "list_all (span_ok d start lo hi (body @ py_slice d p (p + len))) spans"
    using assms by (auto simp: spans_ok_def list_all_iff intro!: span_ok_mono)
  moreover have "span_ok d start lo hi (body @ py_slice d p (p + len)) (length body, length body + len, p - start)"
    using assms l by (simp add: span_ok_def py_slice_append_right py_slice_slice)
  moreover have "\<forall>(left, right, wire) \<in> set spans. right \<le> length body \<and> wire + (right - left) \<le> p - start"
    using assms by (auto simp: spans_ok_def list_all_iff span_ok_def)
  moreover have "\<exists>(left, right, wire) \<in> set (spans @ [(length body, length body + len, p - start)]). left \<le> k \<and> k < right"
    if "k < length (body @ py_slice d p (p + len))" for k
    using that assms(1) l by (cases "k < length body") (auto simp: spans_ok_def)
  ultimately show ?thesis using assms(1) by (auto simp: spans_ok_def sorted_wrt_append)
qed

lemma chunked_spans:
  assumes "chunked d pos start limit body spans = ChunkBody b s stop" "start \<le> lo"
  shows "lo \<le> pos \<Longrightarrow> spans_ok d start lo pos body spans \<Longrightarrow> spans_ok d start lo stop b s"
  using assms(1)
proof (induction rule: chunked_induct)
  case (last pos)
  then show ?case by (simp add: spans_ok_mono [of _ _ _ pos])
next
  case (chunk pos p len body spans)
  then show ?case using assms(2) by (auto intro!: chunk.IH spans_ok_snoc [of _ _ _ pos])
qed

lemma spans_ok_Nil: "spans_ok d start lo hi [] []"
  by (simp add: spans_ok_def)

lemma spans_ok_single:
  assumes "start \<le> lo" "lo \<le> stop" "stop \<le> length d"
  shows "spans_ok d start lo stop (py_slice d lo stop) [(0, stop - lo, lo - start)] \<or> lo = stop"
  using assms by (auto simp: spans_ok_def span_ok_def py_slice_slice)

definition message_ok :: "bytes \<Rightarrow> Message \<Rightarrow> bool" where
  "message_ok d m \<longleftrightarrow>
     0 < ms_header_end m \<and> ms_header_end m \<le> ms_end m \<and> ms_start m + ms_end m \<le> length d
     \<and> py_slice d (ms_start m + ms_target_start m) (ms_start m + ms_target_start m + length (ms_target m)) = ms_target m
     \<and> (ms_body m = [] \<or> spans_ok d (ms_start m) (ms_start m + ms_header_end m) (ms_start m + ms_end m) (ms_body m) (ms_body_spans m))"

lemma message_of_ok:
  assumes "request_at d start = Some rl" "rl_end rl \<le> h" "h \<le> stop" "stop \<le> length d"
    and "body = [] \<or> spans_ok d start h stop body spans"
  shows "message_ok d (message_of d start rl h stop headers body spans complete)"
  using assms request_at_bounds [OF assms(1)] by (auto simp: message_ok_def message_of_def)

text \<open>A message that stands between two positions of the data.\<close>

definition message_in :: "bytes \<Rightarrow> nat \<Rightarrow> nat \<Rightarrow> Message \<Rightarrow> bool" where
  "message_in d lo hi m \<longleftrightarrow> message_ok d m \<and> ms_start m = lo \<and> ms_start m + ms_end m \<le> hi"

lemma message_in_framed:
  assumes "request_at d start = Some rl" "rl_end rl \<le> h" "h \<le> stop" "stop \<le> length d" "stop \<le> hi"
    and "body = [] \<or> spans_ok d start h stop body spans"
  shows "message_in d start hi (message_of d start rl h stop headers body spans complete)"
  using assms message_of_ok [OF assms(1-4) assms(6)] request_at_bounds [OF assms(1)]
  by (simp add: message_in_def) (simp add: message_of_def)

lemma round_messages:
  assumes "framer_round d base limit start f = (f', ms, cs, again)" "m \<in> set ms" "start \<le> length d"
  shows "message_in d start (if again then the (hf_cursor f') - base else length d) m"
proof -
  obtain rl blank where rl: "request_at d start = Some rl" "rl_end rl \<le> blank + 4" "blank + 4 \<le> length d" "start \<le> blank + 4"
    and fb: "frame_body d base limit start rl (blank + 4) f = (f', ms, cs, again)"
    using assms request_at_bounds [of d start]
    by (force simp: framer_round_def block_def wait_more_def BLANK_LINE_def CRLF_def split: option.splits if_splits dest!: find_from_Some)
  have part: "py_slice d (blank + 4) stop = [] \<or>
      spans_ok d start (blank + 4) stop (py_slice d (blank + 4) stop) [(0, stop - (blank + 4), blank + 4 - start)]"
    if "blank + 4 \<le> stop" "stop \<le> length d" for stop
    using spans_ok_single [OF rl(4) that] by (auto simp: py_slice_def)
  note whole = message_in_framed [OF rl(1,2)]
  have slices: "message_in d start hi (message_of d start rl (blank + 4) stop headers (py_slice d (blank + 4) stop)
      [(0, stop - (blank + 4), blank + 4 - start)] complete)"
    if "blank + 4 \<le> stop" "stop \<le> length d" "stop \<le> hi" for stop hi headers complete
    using that part by (intro whole)
  have chunks: "blank + 4 \<le> stop" "stop \<le> length d" "spans_ok d start (blank + 4) stop body spans"
    if "chunked d (blank + 4) start limit [] [] = ChunkBody body spans stop" for body spans stop
    using chunked_bounds [OF that] chunked_spans [OF that rl(4)] by (simp_all add: spans_ok_Nil)
  have "message_in d start (if again then the (hf_cursor f') - base else length d) m"
    if "frame_chunked d base limit start rl (blank + 4) headers f = (f', ms, cs, again)" for headers
    using that assms(2) chunks by (auto simp: frame_chunked_def block_def wait_more_def framed_def split: chunk_result.splits if_splits intro!: whole)
  moreover have "message_in d start (if again then the (hf_cursor f') - base else length d) m"
    if "frame_length d base limit start rl (blank + 4) headers raw f = (f', ms, cs, again)" for headers raw
    using that assms(2) part [of "blank + 4 + decimal raw"] by (auto simp: frame_length_def block_def wait_more_def framed_def Let_def split: if_splits intro!: whole)
  moreover have "message_in d start (if again then the (hf_cursor f') - base else length d) m"
    if "unframed d base start rl (blank + 4) headers f = (f', ms, cs, again)" for headers
    using that assms(2) rl(3) search_request_bounds [of d "blank + 4"]
    by (auto simp: unframed_def Let_def split: option.splits if_splits intro!: slices)
  ultimately show ?thesis using fb assms(2) rl(3)
    by (auto simp: frame_body_def block_def framed_def Let_def split: option.splits if_splits intro!: whole)
qed

definition messages_ok :: "bytes \<Rightarrow> nat \<Rightarrow> Message list \<Rightarrow> bool" where
  "messages_ok d lo ms \<longleftrightarrow> list_all (\<lambda>m. message_ok d m \<and> lo \<le> ms_start m) ms
     \<and> sorted_wrt (\<lambda>a b. ms_start a + ms_end a \<le> ms_start b) ms"

lemma messages_ok_append:
  "messages_ok d lo ms \<Longrightarrow> (\<And>m. m \<in> set ms \<Longrightarrow> ms_start m + ms_end m \<le> hi) \<Longrightarrow> messages_ok d hi ns \<Longrightarrow> lo \<le> hi \<Longrightarrow> messages_ok d lo (ms @ ns)"
  by (force simp: messages_ok_def list_all_iff sorted_wrt_append)

lemma round_at_most_one: "framer_round d base limit start f = (f', ms, cs, again) \<Longrightarrow> length ms \<le> 1"
  by (auto simp: framer_round_def frame_body_def frame_chunked_def frame_length_def unframed_def framed_def block_def wait_more_def
      Let_def split: option.splits if_splits chunk_result.splits)

lemma round_messages_ok:
  assumes "framer_round d base limit start f = (f', ms, cs, again)" "start \<le> length d"
  shows "messages_ok d start ms"
    and "again \<Longrightarrow> m \<in> set ms \<Longrightarrow> ms_start m + ms_end m \<le> the (hf_cursor f') - base"
  using round_messages [OF assms(1) _ assms(2)] round_at_most_one [OF assms(1)]
  by (cases ms; auto simp: messages_ok_def list_all_iff message_in_def)+

lemma loop_messages:
  "hf_cursor f = Some c \<Longrightarrow> base \<le> c \<Longrightarrow> framer_loop d base limit f = (f', ms, cs) \<Longrightarrow> messages_ok d (c - base) ms"
proof (induction d base limit f arbitrary: c f' ms cs rule: framer_loop.induct)
  case (1 d base limit f)
  show ?case
  proof (cases "c < base + length d")
    case False
    with 1 show ?thesis by (auto simp: framer_loop.simps [of d base limit f] messages_ok_def)
  next
    case True
    obtain f1 ms1 cs1 again where r: "framer_round d base limit (c - base) f = (f1, ms1, cs1, again)" by (rule prod_cases4)
    have le: "c - base \<le> length d" using True by simp
    note ok = round_messages_ok [OF r le]
    show ?thesis
    proof (cases again)
      case False
      with 1 r True ok show ?thesis by (simp add: framer_loop.simps [of d base limit f])
    next
      case again: True
      obtain c1 where c1: "hf_cursor f1 = Some c1" "base + (c - base) < c1" using framer_round_advances [of d base limit "c - base" f f1 ms1 cs1] r again by auto
      obtain f2 ms2 cs2 where l: "framer_loop d base limit f1 = (f2, ms2, cs2)" by (rule prod_cases3)
      have "messages_ok d (c1 - base) ms2"
        using True c1 by (intro "1.IH" [OF "1.prems"(1) _ r [symmetric] refl refl again c1(1) _ l]) auto
      moreover have "ms = ms1 @ ms2" using 1 r True again l by (simp add: framer_loop.simps [of d base limit f])
      ultimately show ?thesis using ok c1 again by (auto intro!: messages_ok_append [of d _ ms1 "c1 - base"])
    qed
  qed
qed

lemma scan_messages:
  assumes "framer_scan f d base limit = (f', ms, cs)"
  shows "messages_ok d 0 ms"
proof -
  have weaken: "messages_ok d lo ms \<Longrightarrow> messages_ok d 0 ms" for lo by (auto simp: messages_ok_def list_all_iff)
  have "messages_ok d 0 []" by (simp add: messages_ok_def)
  with assms show ?thesis
    by (auto simp: framer_scan_def Let_def split: if_splits option.splits intro!: weaken dest!: loop_messages [rotated 2])
qed

lemma span_found:
  assumes "spans_ok d start lo hi body spans" "k < length body"
  obtains l r w where "find (\<lambda>(left, right, wire). left \<le> k \<and> k < right) spans = Some (l, r, w)"
    "(l, r, w) \<in> set spans" "l \<le> k" "k < r"
proof -
  have "\<exists>x \<in> set spans. case x of (left, right, wire) \<Rightarrow> left \<le> k \<and> k < right"
    using assms unfolding spans_ok_def by blast
  then have "find (\<lambda>(left, right, wire). left \<le> k \<and> k < right) spans \<noteq> None" unfolding find_None_iff by blast
  then obtain l r w where f: "find (\<lambda>(left, right, wire). left \<le> k \<and> k < right) spans = Some (l, r, w)" by auto
  show thesis using find_Some_iff [THEN iffD1, OF f] by (intro that [OF f]) (auto simp: in_set_conv_nth)
qed

lemma spans_in_order:
  assumes "spans_ok d start lo hi body spans" "(l1, r1, w1) \<in> set spans" "(l2, r2, w2) \<in> set spans"
    and "l1 \<le> j" "j < r1" "l2 \<le> k" "k < r2" "j \<le> k"
  shows "w1 + j - l1 \<le> w2 + k - l2"
proof -
  have "(l1, r1, w1) = (l2, r2, w2) \<or> r1 \<le> l2 \<and> w1 + (r1 - l1) \<le> w2 \<or> r2 \<le> l1 \<and> w2 + (r2 - l2) \<le> w1"
    using assms(1-3) unfolding spans_ok_def sorted_wrt_iff_nth_less in_set_conv_nth
    by (elim conjE exE) (metis (mono_tags, lifting) case_prod_conv nat_neq_iff)
  then show ?thesis using assms(4-8) by auto
qed

lemma wire_span_exact:
  assumes ok: "spans_ok d (ms_start m) lo hi (ms_body m) (ms_body_spans m)" and ab: "a < b" "b \<le> length (ms_body m)"
    and w: "wire_span m a b = (first, final)"
  shows "lo \<le> ms_start m + first \<and> first < final \<and> ms_start m + final \<le> hi"
    and "a \<le> k \<Longrightarrow> k < b \<Longrightarrow> \<exists>p. wire_span m k (Suc k) = (p, Suc p) \<and> first \<le> p \<and> p < final \<and> d ! (ms_start m + p) = ms_body m ! k"
proof -
  let ?s = "ms_body_spans m"
  have last_eq: "(\<lambda>(left, right, wire). left < Suc k \<and> Suc k \<le> right) = (\<lambda>(left, right, wire). left \<le> k \<and> k < right)" for k :: nat
    by auto
  obtain b' where b': "b = Suc b'" using ab by (cases b) auto
  obtain l1 r1 w1 where s1: "find (\<lambda>(left, right, wire). left \<le> a \<and> a < right) ?s = Some (l1, r1, w1)" "(l1, r1, w1) \<in> set ?s" "l1 \<le> a" "a < r1"
    using ab by (elim span_found [OF ok, of a, rotated]) auto
  obtain l2 r2 w2 where s2: "find (\<lambda>(left, right, wire). left \<le> b' \<and> b' < right) ?s = Some (l2, r2, w2)" "(l2, r2, w2) \<in> set ?s" "l2 \<le> b'" "b' < r2"
    using ab b' by (elim span_found [OF ok, of b', rotated]) auto
  have fl: "first = w1 + a - l1" "final = Suc (w2 + b' - l2)"
    using w s1 s2 unfolding b' wire_span_def last_eq by (auto simp: Let_def)
  have sp: "span_ok d (ms_start m) lo hi (ms_body m) x" if "x \<in> set ?s" for x using ok that by (simp add: spans_ok_def list_all_iff)
  show "lo \<le> ms_start m + first \<and> first < final \<and> ms_start m + final \<le> hi"
    using spans_in_order [OF ok s1(2) s2(2) s1(3,4) s2(3,4)] ab sp [OF s1(2)] sp [OF s2(2)] s1 s2 unfolding fl b' span_ok_def by auto
  assume k: "a \<le> k" "k < b"
  obtain l r v where s: "find (\<lambda>(left, right, wire). left \<le> k \<and> k < right) ?s = Some (l, r, v)" "(l, r, v) \<in> set ?s" "l \<le> k" "k < r"
    using k ab by (elim span_found [OF ok, of k, rotated]) auto
  have "d ! (ms_start m + (v + k - l)) = ms_body m ! k"
  proof -
    have "py_slice d (ms_start m + v) (ms_start m + v + (r - l)) = py_slice (ms_body m) l r"
      using sp [OF s(2)] unfolding span_ok_def prod.case by blast
    then have "py_slice d (ms_start m + v) (ms_start m + v + (r - l)) ! (k - l) = py_slice (ms_body m) l r ! (k - l)" by (rule arg_cong)
    also have "py_slice (ms_body m) l r ! (k - l) = ms_body m ! (l + (k - l))"
      using sp [OF s(2)] s(3,4) by (intro nth_py_slice) (auto simp: span_ok_def)
    also have "py_slice d (ms_start m + v) (ms_start m + v + (r - l)) ! (k - l) = d ! (ms_start m + v + (k - l))"
      using sp [OF s(2)] s(3,4) by (intro nth_py_slice) (auto simp: span_ok_def)
    finally show ?thesis using s(3) by (simp add: add.assoc)
  qed
  moreover have "wire_span m k (Suc k) = (v + k - l, Suc (v + k - l))" using s unfolding wire_span_def last_eq by (simp add: Let_def)
  moreover have "first \<le> v + k - l" "v + k - l < final"
    using spans_in_order [OF ok s1(2) s(2) s1(3,4) s(3,4)] spans_in_order [OF ok s(2) s2(2) s(3,4) s2(3,4)] k unfolding fl b' by auto
  ultimately show "\<exists>p. wire_span m k (Suc k) = (p, Suc p) \<and> first \<le> p \<and> p < final \<and> d ! (ms_start m + p) = ms_body m ! k" by blast
qed

end
