(* ===== verification/Http_Requests.thy ===== *)
theory Http_Requests
  imports Http_Framing
begin

text \<open>
  What the HTTP framer promises: requests as a client sends them are recovered from the stream, in one segment or in several,
  and the wire ranges of their decoded bodies are exact.
\<close>

section \<open>Requests as they are sent\<close>

text \<open>A well-formed request and its text: with no body, with a body of known length, or with a chunked body.\<close>

datatype http_body = NoBody | LengthBody bytes | ChunkedBody "bytes list"

record http_request =
  rq_method :: bytes
  rq_target :: bytes
  rq_headers :: "(bytes \<times> bytes) list"
  rq_body :: http_body

definition hex_byte :: "nat \<Rightarrow> byte" where
  "hex_byte n = of_nat (if n < 10 then 48 + n else 87 + n)"

fun hex_text :: "nat \<Rightarrow> bytes" where
  "hex_text n = (if n < 16 then [hex_byte n] else hex_text (n div 16) @ [hex_byte (n mod 16)])"

declare hex_text.simps [simp del]

fun body_bytes :: "http_body \<Rightarrow> bytes" where
  "body_bytes NoBody = []"
| "body_bytes (LengthBody b) = b"
| "body_bytes (ChunkedBody cs) = concat cs"

definition chunk_text :: "bytes \<Rightarrow> bytes" where
  "chunk_text c = hex_text (length c) @ CRLF @ c @ CRLF"

fun body_text :: "http_body \<Rightarrow> bytes" where
  "body_text NoBody = []"
| "body_text (LengthBody b) = b"
| "body_text (ChunkedBody cs) = concat (map chunk_text cs) @ [48] @ CRLF @ CRLF"

fun framing_headers :: "http_body \<Rightarrow> (bytes \<times> bytes) list" where
  "framing_headers NoBody = []"
| "framing_headers (LengthBody b) = [(ascii ''Content-Length'', ascii (str_nat (length b)))]"
| "framing_headers (ChunkedBody cs) = [(ascii ''Transfer-Encoding'', ascii ''chunked'')]"

definition header_text :: "bytes \<times> bytes \<Rightarrow> bytes" where
  "header_text = (\<lambda>(k, v). k @ [58, 32] @ v)"

definition lines_text :: "bytes list \<Rightarrow> bytes" where
  "lines_text ls = concat (map (\<lambda>l. l @ CRLF) ls)"

definition request_text :: "http_request \<Rightarrow> bytes" where
  "request_text r = rq_method r @ [32] @ rq_target r @ ascii '' HTTP/1.1'' @ CRLF"

definition head_text :: "http_request \<Rightarrow> bytes" where
  "head_text r = request_text r @ lines_text (map header_text (rq_headers r @ framing_headers (rq_body r))) @ CRLF"

definition http_encode :: "http_request \<Rightarrow> bytes" where
  "http_encode r = head_text r @ body_text (rq_body r)"

definition header_ok :: "bytes \<times> bytes \<Rightarrow> bool" where
  "header_ok = (\<lambda>(k, v). k \<noteq> [] \<and> list_all token_byte k \<and> 13 \<notin> set v \<and> 10 \<notin> set v)"

definition body_ok :: "bytes \<Rightarrow> http_body \<Rightarrow> bool" where
  "body_ok m b = (case b of
      NoBody \<Rightarrow> m \<notin> set (map ascii [''POST'', ''PUT'', ''PATCH''])
    | LengthBody b \<Rightarrow> length b < 10 ^ 10
    | ChunkedBody cs \<Rightarrow> length cs < 4096 \<and> list_all (\<lambda>c. c \<noteq> [] \<and> length c < 16 ^ 8) cs)"

definition request_ok :: "nat \<Rightarrow> http_request \<Rightarrow> bool" where
  "request_ok limit r \<longleftrightarrow>
     rq_method r \<in> set METHODS
     \<and> rq_target r \<noteq> [] \<and> length (rq_target r) \<le> 8192 \<and> list_all target_byte (rq_target r)
     \<and> list_all header_ok (rq_headers r)
     \<and> list_all (\<lambda>(k, v). bytes_lower k \<notin> {ascii ''content-length'', ascii ''transfer-encoding''}) (rq_headers r)
     \<and> body_ok (rq_method r) (rq_body r)
     \<and> length (head_text r) \<le> MAX_HEADER \<and> length (http_encode r) \<le> limit"

lemma begins_Cons [simp]: "begins (a # p) (b # bs) \<longleftrightarrow> a = b \<and> begins p bs" "begins [] bs" "\<not> begins (a # p) []"
  by (auto simp: begins_def)

lemma begins_word: "32 \<notin> set p \<Longrightarrow> 32 \<notin> set m \<Longrightarrow> begins (p @ [32]) (m @ 32 # xs) \<longleftrightarrow> p = m"
proof (induction m arbitrary: p)
  case Nil
  then show ?case by (cases p) auto
next
  case (Cons a m)
  then show ?case by (cases p) auto
qed

lemma METHODS_words: "list_all (\<lambda>m. 32 \<notin> set m) METHODS"
  by (simp add: METHODS_def ascii_def)

lemma find_member: "m \<in> set ms \<Longrightarrow> (\<And>x. x \<in> set ms \<Longrightarrow> P x \<longleftrightarrow> x = m) \<Longrightarrow> find P ms = Some m"
  by (induction ms) auto

definition request_words :: "bytes \<Rightarrow> bytes \<Rightarrow> string \<Rightarrow> bytes" where
  "request_words m t version = m @ [32] @ t @ ascii version @ CRLF"

definition words_ok :: "bytes \<Rightarrow> bytes \<Rightarrow> string \<Rightarrow> bool" where
  "words_ok m t version \<longleftrightarrow> m \<in> set METHODS \<and> t \<noteq> [] \<and> length t \<le> 8192 \<and> list_all target_byte t \<and> version \<in> {'' HTTP/1.0'', '' HTTP/1.1''}"

definition line_at :: "nat \<Rightarrow> bytes \<Rightarrow> bytes \<Rightarrow> request_line" where
  "line_at i m t = \<lparr>rl_method = m, rl_target = t, rl_target_start = i + length m + 1, rl_end = i + length m + 1 + length t + 11\<rparr>"

lemma request_at_words:
  assumes "words_ok m t version"
  shows "request_at (pre @ request_words m t version @ rest) (length pre) = Some (line_at (length pre) m t)"
proof -
  let ?d = "pre @ request_words m t version @ rest"
  have m: "find (\<lambda>m'. begins (m' @ [32]) (m @ [32] @ xs)) METHODS = Some m" for xs
    using assms METHODS_words unfolding words_ok_def by (intro find_member) (auto simp: list_all_iff begins_word)
  have t: "takeWhile target_byte (t @ ascii version @ xs) = t" for xs
    using assms unfolding words_ok_def by (subst takeWhile_append2) (auto simp: list_all_iff ascii_def target_byte_def)
  have d: "drop (length pre + length m + 1) ?d = t @ ascii version @ CRLF @ rest" by (simp add: request_words_def)
  have e: "drop (length pre + length m + 1 + length t) ?d = ascii version @ CRLF @ rest" by (simp add: request_words_def)
  have b: "begins (ascii '' HTTP/1.0'' @ CRLF) (ascii version @ CRLF @ rest) \<or> begins (ascii '' HTTP/1.1'' @ CRLF) (ascii version @ CRLF @ rest)"
    using assms by (auto simp: words_ok_def begins_def)
  have f: "find (\<lambda>m'. begins (m' @ [32]) (drop (length pre) ?d)) METHODS = Some m" using m by (simp add: request_words_def)
  show ?thesis
    unfolding request_at_def f option.case Let_def d t e using b assms by (simp add: Suc_leI words_ok_def line_at_def)
qed

lemma begins_split: "begins p xs \<Longrightarrow> \<exists>ys. xs = p @ ys"
  by (metis append_take_drop_id begins_def)

text \<open>A match is the text of a request line, and nothing else is.\<close>

lemma request_at_text:
  assumes "request_at d i = Some rl"
  obtains m t version rest where "words_ok m t version" "rl = line_at i m t" "i \<le> length d" "drop i d = request_words m t version @ rest"
proof -
  obtain m where m: "find (\<lambda>m. begins (m @ [32]) (drop i d)) METHODS = Some m"
    using assms by (auto simp: request_at_def Let_def split: option.splits)
  let ?t = "takeWhile target_byte (drop (i + length m + 1) d)"
  let ?e = "i + length m + 1 + length ?t"
  have rl: "?t \<noteq> []" "length ?t \<le> 8192" "rl = line_at i m ?t"
    "begins (ascii '' HTTP/1.0'' @ CRLF) (drop ?e d) \<or> begins (ascii '' HTTP/1.1'' @ CRLF) (drop ?e d)"
    using assms m by (auto simp: request_at_def Let_def line_at_def split: if_splits)
  then obtain version where v: "version \<in> {'' HTTP/1.0'', '' HTTP/1.1''}" "begins (ascii version @ CRLF) (drop ?e d)" by blast
  then obtain rest where rest: "drop ?e d = (ascii version @ CRLF) @ rest" using begins_split by blast
  have "begins (m @ [32]) (drop i d)" "m \<in> set METHODS" using m by (auto simp: find_Some_iff)
  moreover from this obtain ys where ys: "drop i d = (m @ [32]) @ ys" using begins_split by blast
  moreover have "ys = drop (i + length m + 1) d" using arg_cong [OF ys, of "drop (length m + 1)"] by (simp add: add.commute)
  moreover have "drop (i + length m + 1) d = ?t @ drop ?e d"
    using takeWhile_dropWhile_id [of target_byte "drop (i + length m + 1) d"]
    unfolding dropWhile_eq_drop drop_drop by (simp only: add.commute)
  ultimately have "drop i d = request_words m ?t version @ rest" using rest by (simp add: request_words_def)
  moreover have "words_ok m ?t version"
    using rl v(1) \<open>m \<in> set METHODS\<close> by (auto simp: words_ok_def list_all_iff dest: set_takeWhileD)
  moreover have "i \<le> length d" using ys by (cases "i \<le> length d") auto
  ultimately show thesis using rl(3) that by blast
qed

lemma find_from_skip:
  assumes "\<And>k. k < length pre \<Longrightarrow> py_slice (pre @ d) k (k + length needle) \<noteq> needle"
  shows "find_from (pre @ d) needle 0 = map_option (\<lambda>j. length pre + j) (find_from d needle 0)"
proof -
  have "k \<le> length pre \<Longrightarrow> find_from (pre @ d) needle k = find_from (pre @ d) needle (length pre)" for k
  proof (induction "length pre - k" arbitrary: k)
    case (Suc n)
    then have "find_from (pre @ d) needle (Suc k) = find_from (pre @ d) needle (length pre)" by (intro Suc.hyps) auto
    then show ?case using assms [of k] Suc by (auto simp: find_from.simps [of "pre @ d" needle k] find_from.simps [of "pre @ d" needle "length pre"])
  qed simp
  from this [of 0] show ?thesis using find_from_shift [of pre d needle 0] by simp
qed

definition line_ok :: "bytes \<Rightarrow> bool" where
  "line_ok l \<longleftrightarrow> l \<noteq> [] \<and> 13 \<notin> set l \<and> 10 \<notin> set l"

lemma lines_text_simps [simp]: "lines_text [] = []" "lines_text (l # ls) = l @ CRLF @ lines_text ls"
  by (simp_all add: lines_text_def)

lemma find_blank_line:
  "list_all line_ok ls \<Longrightarrow> find_from (CRLF @ lines_text ls @ CRLF @ rest) BLANK_LINE 0 = Some (length (lines_text ls))"
proof (induction ls)
  case Nil
  show ?case by (rule find_from_eqI) (simp_all add: BLANK_LINE_def CRLF_def py_slice_def)
next
  case (Cons l ls)
  let ?d = "CRLF @ lines_text ls @ CRLF @ rest"
  have "find_from ((CRLF @ l) @ ?d) BLANK_LINE 0 = map_option (\<lambda>j. length (CRLF @ l) + j) (find_from ?d BLANK_LINE 0)"
  proof (rule find_from_skip, rule notI)
    fix k assume k: "k < length (CRLF @ l)" and e: "py_slice ((CRLF @ l) @ ?d) k (k + length BLANK_LINE) = BLANK_LINE"
    have n: "((CRLF @ l) @ ?d) ! (k + i) = BLANK_LINE ! i" if "i < 4" for i
      using k that nth_py_slice [of k i "k + length BLANK_LINE" "(CRLF @ l) @ ?d"] unfolding e by (simp add: BLANK_LINE_def CRLF_def)
    have l: "l \<noteq> []" "\<And>i. i < length l \<Longrightarrow> l ! i \<noteq> 13" using Cons.prems by (auto simp: line_ok_def) (metis nth_mem)
    show False
    proof (cases "k < 2")
      case True
      then have "k = 0 \<or> k = 1" by auto
      then show False using n [of 0] n [of 2] l(1) l(2) [of 0] by (auto simp: CRLF_def BLANK_LINE_def nth_append)
    next
      case False
      then have "k - 2 < length l" using k by (auto simp: CRLF_def)
      then show False using False n [of 0] l(2) [of "k - 2"] by (simp add: CRLF_def BLANK_LINE_def nth_append numeral_2_eq_2)
    qed
  qed
  then show ?case using Cons by simp
qed

lemma split_crlf_lines: "list_all line_ok ls \<Longrightarrow> split_crlf (lines_text ls) = ls @ [[]]"
proof (induction ls)
  case (Cons l ls)
  have "13 \<notin> set m \<Longrightarrow> split_crlf (m @ CRLF @ xs) = m # split_crlf xs" for m xs
    by (induction m) (auto simp: CRLF_def)
  with Cons show ?case by (simp add: line_ok_def)
qed simp

lemma token_byte_plain: "token_byte b \<Longrightarrow> b \<noteq> 58 \<and> b \<noteq> 13 \<and> b \<noteq> 10 \<and> b \<noteq> 32 \<and> b \<noteq> 9"
  by (auto simp: token_byte_def digit_def ascii_def)

lemma header_text_line_ok: "header_ok h \<Longrightarrow> line_ok (header_text h)"
  using token_byte_plain by (cases h) (auto simp: header_ok_def header_text_def line_ok_def list_all_iff)

lemma header_line_text:
  assumes "header_ok (k, v)"
  shows "header_line (header_text (k, v)) = Some (bytes_lower k, strip (32 # v))"
proof -
  have k: "k \<noteq> []" "list_all token_byte k" "58 \<notin> set k" using assms token_byte_plain by (auto simp: header_ok_def list_all_iff)
  have "takeWhile (\<lambda>b. b \<noteq> 58) (k @ [58, 32] @ v) = k" using k(3) by (subst takeWhile_append2) auto
  moreover have "hd (k @ [58, 32] @ v) \<noteq> 32" "hd (k @ [58, 32] @ v) \<noteq> 9" using k token_byte_plain [of "hd k"] by (cases k; simp)+
  ultimately show ?thesis using k by (simp add: header_line_def header_text_def Let_def)
qed

lemma header_lines_text:
  "list_all header_ok hs \<Longrightarrow>
   \<exists>headers. header_lines (map header_text hs @ [[]]) acc = Some headers
     \<and> (\<forall>name. header_values headers name = header_values acc name @ map (\<lambda>(k, v). strip (32 # v)) (filter (\<lambda>(k, v). bytes_lower k = ascii name) hs))"
proof (induction hs arbitrary: acc)
  case (Cons h hs)
  obtain k v where h: "h = (k, v)" by (cases h)
  define acc1 where "acc1 = od_put (bytes_lower k) ((case od_get acc (bytes_lower k) of None \<Rightarrow> [] | Some vs \<Rightarrow> vs) @ [strip (32 # v)]) acc"
  have "header_text h \<noteq> []" using Cons.prems header_text_line_ok [of h] by (simp add: line_ok_def)
  then have "header_lines (map header_text (h # hs) @ [[]]) acc = header_lines (map header_text hs @ [[]]) acc1"
    using Cons.prems header_line_text [of k v] by (simp add: h acc1_def)
  moreover have "header_values acc1 name = header_values acc name @ (if bytes_lower k = ascii name then [strip (32 # v)] else [])" for name
    by (auto simp: acc1_def header_values_def)
  ultimately show ?case using Cons.IH [of acc1] Cons.prems by (auto simp: h)
qed simp

lemma strip_plain: "bs \<noteq> [] \<Longrightarrow> list_all (\<lambda>b. \<not> http_space b) bs \<Longrightarrow> strip (32 # bs) = bs"
proof -
  assume bs: "bs \<noteq> []" "list_all (\<lambda>b. \<not> http_space b) bs"
  have keep: "xs \<noteq> [] \<Longrightarrow> \<not> http_space (hd xs) \<Longrightarrow> dropWhile http_space xs = xs" for xs by (cases xs) auto
  have "dropWhile http_space bs = bs" "dropWhile http_space (rev bs) = rev bs"
    using bs by (intro keep; auto simp: list_all_iff hd_rev)+
  moreover have "http_space 32" by (simp add: http_space_def)
  ultimately show ?thesis by (simp add: strip_def)
qed

lemma hex_byte_value: "n < 16 \<Longrightarrow> hex_value (hex_byte n) = Some n \<and> hex_byte n \<noteq> 13 \<and> hex_byte n \<noteq> 59"
proof -
  assume "n < 16"
  then have "n \<in> {0, 1, 2, 3, 4, 5, 6, 7, 8, 9, 10, 11, 12, 13, 14, 15}" by (simp only: insert_iff empty_iff) arith
  then show ?thesis by (elim insertE) (simp_all add: hex_byte_def hex_value_def)
qed

definition hex_fold :: "bytes \<Rightarrow> nat" where
  "hex_fold bs = foldl (\<lambda>n b. n * 16 + the (hex_value b)) 0 bs"

lemma hex_text_fold: "hex_fold (hex_text n) = n \<and> list_all (\<lambda>b. hex_value b \<noteq> None \<and> b \<noteq> 13 \<and> b \<noteq> 59) (hex_text n) \<and> hex_text n \<noteq> []"
proof (induction n rule: hex_text.induct)
  case (1 n)
  note b = hex_byte_value [of "n mod 16", simplified]
  show ?case
  proof (cases "n < 16")
    case True
    then show ?thesis using b by (simp add: hex_text.simps [of n] hex_fold_def)
  next
    case False
    then have s: "hex_text n = hex_text (n div 16) @ [hex_byte (n mod 16)]" by (simp add: hex_text.simps [of n])
    have "hex_fold (hex_text n) = hex_fold (hex_text (n div 16)) * 16 + n mod 16" using b by (simp add: s hex_fold_def)
    then show ?thesis using 1 [OF False] b by (simp add: s)
  qed
qed

lemma length_hex_text: "n < 16 ^ k \<Longrightarrow> 1 \<le> k \<Longrightarrow> length (hex_text n) \<le> k"
proof (induction k arbitrary: n)
  case (Suc k)
  show ?case
  proof (cases "n < 16")
    case False
    then have "k \<ge> 1" using Suc.prems(1) by (cases k) auto
    then have "length (hex_text (n div 16)) \<le> k" using Suc.prems(1) by (intro Suc.IH) auto
    then show ?thesis using False by (simp add: hex_text.simps [of n])
  qed (simp add: hex_text.simps [of n])
qed simp

lemma hex_number_text: "n < 16 ^ 8 \<Longrightarrow> hex_number (hex_text n) = Some n"
  using hex_text_fold [of n] length_hex_text [of n 8] by (auto simp: hex_number_def hex_fold_def list_all_iff list_ex_iff)

lemma find_crlf: "13 \<notin> set l \<Longrightarrow> find_from (pre @ l @ CRLF @ rest) CRLF (length pre) = Some (length pre + length l)"
proof -
  assume l: "13 \<notin> set l"
  have "find_from (l @ CRLF @ rest) CRLF 0 = map_option (\<lambda>j. length l + j) (find_from (CRLF @ rest) CRLF 0)"
  proof (rule find_from_skip, rule notI)
    fix k assume k: "k < length l" and e: "py_slice (l @ CRLF @ rest) k (k + length CRLF) = CRLF"
    have "l ! k = CRLF ! 0"
      using k nth_py_slice [of k 0 "k + length CRLF" "l @ CRLF @ rest"] unfolding e by (simp add: CRLF_def nth_append)
    then show False using k l nth_mem [of k l] by (simp add: CRLF_def)
  qed
  moreover have "find_from (CRLF @ rest) CRLF 0 = Some 0" by (subst find_from.simps) (simp add: CRLF_def py_slice_def)
  ultimately show ?thesis using find_from_shift [of pre "l @ CRLF @ rest" CRLF 0] by simp
qed

lemma chunked_chunk:
  assumes "c \<noteq> []" "length c < 16 ^ 8" "length spans < 4096" "length (pre @ chunk_text c) - start \<le> limit"
  shows "chunked (pre @ chunk_text c @ rest) (length pre) start limit body spans =
    chunked (pre @ chunk_text c @ rest) (length (pre @ chunk_text c)) start limit (body @ c)
      (spans @ [(length body, length body + length c, length pre + length (hex_text (length c)) + 2 - start)])"
proof -
  let ?h = "hex_text (length c)" and ?d = "pre @ chunk_text c @ rest"
  let ?p = "length pre + length ?h + 2"
  note h = hex_text_fold [of "length c"]
  have d: "?d = pre @ ?h @ CRLF @ c @ CRLF @ rest" by (simp add: chunk_text_def)
  have f: "find_from ?d CRLF (length pre) = Some (length pre + length ?h)" unfolding d using h by (intro find_crlf) (auto simp: list_all_iff)
  have l: "py_slice ?d (length pre) (length pre + length ?h) = ?h" unfolding d by (simp add: py_slice_def)
  have n: "hex_number (takeWhile (\<lambda>b. b \<noteq> 59) ?h) = Some (length c)"
    using h hex_number_text [OF assms(2)] by (subst takeWhile_eq_all_conv [THEN iffD2]) (auto simp: list_all_iff)
  have b: "py_slice ?d ?p (?p + length c) = c" unfolding d by (simp add: py_slice_def CRLF_def)
  have e: "py_slice ?d (?p + length c) (?p + length c + 2) = CRLF" unfolding d by (simp add: py_slice_def CRLF_def)
  have len: "?p + length c + 2 = length (pre @ chunk_text c)" by (simp add: chunk_text_def CRLF_def)
  have small: "length ?h \<le> 8" using length_hex_text [OF assms(2)] by simp
  have room: "\<not> length ?d < length (pre @ chunk_text c)" by simp
  show ?thesis
    using assms small b e len room
    by (subst chunked.simps) (simp add: f l n Let_def del: length_append)
qed

lemma chunked_last:
  assumes "length spans < 4096"
  shows "chunked (pre @ [48] @ CRLF @ CRLF @ rest) (length pre) start limit body spans = ChunkBody body spans (length pre + 5)"
proof -
  let ?d = "pre @ [48] @ CRLF @ CRLF @ rest"
  have f: "find_from ?d CRLF (length pre) = Some (length pre + 1)" using find_crlf [of "[48]" pre "CRLF @ rest"] by simp
  have l: "py_slice ?d (length pre) (length pre + 1) = [48]" by (simp add: py_slice_def)
  have n: "hex_number (takeWhile (\<lambda>b. b \<noteq> 59) [48]) = Some 0" by (simp add: hex_number_def hex_value_def)
  have e: "py_slice ?d (length pre + 1 + 2) (length pre + 1 + 2 + 2) = CRLF" by (simp add: py_slice_def CRLF_def)
  show ?thesis by (subst chunked.simps) (use assms in \<open>simp only: f l n e option.case Let_def\<close>, simp)
qed

lemma chunked_encoded:
  "list_all (\<lambda>c. c \<noteq> [] \<and> length c < 16 ^ 8) cs \<Longrightarrow> length spans + length cs < 4096 \<Longrightarrow>
   length (pre @ concat (map chunk_text cs)) - start \<le> limit \<Longrightarrow>
   \<exists>s. chunked (pre @ body_text (ChunkedBody cs) @ rest) (length pre) start limit body spans =
     ChunkBody (body @ concat cs) s (length pre + length (body_text (ChunkedBody cs)))"
proof (induction cs arbitrary: pre body spans)
  case Nil
  then show ?case using chunked_last [of spans pre rest start limit body] by (simp add: CRLF_def)
next
  case (Cons c cs)
  let ?rest = "body_text (ChunkedBody cs) @ rest"
  have "length (pre @ chunk_text c) - start \<le> limit" using Cons.prems(3) by simp
  then have "chunked (pre @ chunk_text c @ ?rest) (length pre) start limit body spans =
    chunked ((pre @ chunk_text c) @ ?rest) (length (pre @ chunk_text c)) start limit (body @ c)
      (spans @ [(length body, length body + length c, length pre + length (hex_text (length c)) + 2 - start)])"
    using Cons.prems by (subst chunked_chunk) auto
  also obtain s where "\<dots> = ChunkBody ((body @ c) @ concat cs) s (length (pre @ chunk_text c) + length (body_text (ChunkedBody cs)))"
    using Cons.IH [of "spans @ [(length body, length body + length c, length pre + length (hex_text (length c)) + 2 - start)]" "pre @ chunk_text c" "body @ c"] Cons.prems by auto
  finally show ?case by simp
qed

section \<open>Recovering requests\<close>

lemma framing_headers_ok: "list_all header_ok (framing_headers b)"
proof (cases b)
  case (LengthBody bs)
  have "13 \<notin> set (ascii (str_nat n))" "10 \<notin> set (ascii (str_nat n))" for n
    using str_nat_decimal [of n] by (auto simp: list_all_iff digit_def)
  then show ?thesis using LengthBody by (simp add: header_ok_def token_byte_def ascii_def digit_def)
qed (simp_all add: header_ok_def token_byte_def ascii_def digit_def)

text \<open>What the framer reads from the headers of a well-formed request.\<close>

lemma framing_values:
  assumes "list_all (\<lambda>(k, v). bytes_lower k \<notin> {ascii ''content-length'', ascii ''transfer-encoding''}) hs"
    and "\<forall>name. header_values headers name = map (\<lambda>(k, v). strip (32 # v)) (filter (\<lambda>(k, v). bytes_lower k = ascii name) (hs @ framing_headers b))"
  shows "header_values headers ''content-length'' = (case b of LengthBody bs \<Rightarrow> [ascii (str_nat (length bs))] | _ \<Rightarrow> [])"
    and "header_values headers ''transfer-encoding'' = (case b of ChunkedBody cs \<Rightarrow> [ascii ''chunked''] | _ \<Rightarrow> [])"
proof -
  have none: "filter (\<lambda>(k, v). bytes_lower k = ascii ''content-length'') hs = []" "filter (\<lambda>(k, v). bytes_lower k = ascii ''transfer-encoding'') hs = []"
    using assms(1) by (auto simp: list_all_iff filter_empty_conv)
  have num: "strip (32 # ascii (str_nat n)) = ascii (str_nat n)" for n
    using str_nat_decimal [of n] by (intro strip_plain) (auto simp: list_all_iff digit_def http_space_def)
  have chunked: "strip (32 # ascii ''chunked'') = ascii ''chunked''"
    by (rule strip_plain) (simp_all add: ascii_def http_space_def)
  have lower: "bytes_lower (ascii ''Content-Length'') = ascii ''content-length''" "bytes_lower (ascii ''Transfer-Encoding'') = ascii ''transfer-encoding''"
    "ascii ''content-length'' \<noteq> ascii ''transfer-encoding''"
    by (simp_all add: bytes_lower_def ascii_def byte_lower_def)
  show "header_values headers ''content-length'' = (case b of LengthBody bs \<Rightarrow> [ascii (str_nat (length bs))] | _ \<Rightarrow> [])"
    using assms(2) none num lower by (cases b) auto
  show "header_values headers ''transfer-encoding'' = (case b of ChunkedBody cs \<Rightarrow> [ascii ''chunked''] | _ \<Rightarrow> [])"
    using assms(2) none chunked lower by (cases b) auto
qed

definition recovered :: "nat \<Rightarrow> http_request \<Rightarrow> Message \<Rightarrow> bool" where
  "recovered pos r m \<longleftrightarrow> ms_start m = pos \<and> ms_header_end m = length (head_text r) \<and> ms_end m = length (http_encode r)
     \<and> ms_target m = rq_target r \<and> ms_body m = body_bytes (rq_body r) \<and> ms_complete m"

lemma frame_body_encoded:
  assumes ok: "request_ok limit r" and rl: "rl_method rl = rq_method r" "rl_target rl = rq_target r"
    and headers: "header_lines (split_crlf (py_slice d (rl_end rl) (h - 2))) [] = Some headers"
    and spec: "\<forall>name. header_values headers name =
        map (\<lambda>(k, v). strip (32 # v)) (filter (\<lambda>(k, v). bytes_lower k = ascii name) (rq_headers r @ framing_headers (rq_body r)))"
    and d: "d = pre @ http_encode r @ rest" and h: "h = length (pre @ head_text r)"
  shows "\<exists>m. frame_body d base limit (length pre) rl h f =
      (f\<lparr>hf_cursor := Some (base + length (pre @ http_encode r))\<rparr>, [m], [''http_framed_requests''], True) \<and> recovered (length pre) r m"
proof -
  have lim: "length (http_encode r) \<le> limit" using ok by (simp add: request_ok_def)
  have bok: "body_ok (rq_method r) (rq_body r)" using ok by (simp add: request_ok_def)
  have stop: "length (pre @ http_encode r) = h + length (body_text (rq_body r))" by (simp add: h http_encode_def)
  have d': "d = (pre @ head_text r) @ body_text (rq_body r) @ rest" by (simp add: d http_encode_def)
  have "list_all (\<lambda>(k, v). bytes_lower k \<notin> {ascii ''content-length'', ascii ''transfer-encoding''}) (rq_headers r)"
    using ok unfolding request_ok_def by blast
  note vals = framing_values [OF this spec]
  have msg: "recovered (length pre) r (message_of d (length pre) rl h (h + length (body_text (rq_body r))) headers (body_bytes (rq_body r)) spans True)" for spans
    using rl by (simp add: recovered_def message_of_def h http_encode_def)
  show ?thesis
  proof (cases "rq_body r")
    case NoBody
    then show ?thesis using bok rl headers vals msg [of "[]"] stop
      by (auto simp: frame_body_def body_ok_def framed_def add.assoc)
  next
    case (LengthBody bs)
    have n: "ascii (str_nat (length bs)) \<noteq> []" "list_all digit (ascii (str_nat (length bs)))" "\<not> 10 < length (ascii (str_nat (length bs)))"
        "decimal (ascii (str_nat (length bs))) = length bs"
      using str_nat_decimal [of "length bs"] length_str_nat [of "length bs" 10] bok LengthBody by (simp_all add: body_ok_def)
    have s: "py_slice d h (h + length bs) = bs" unfolding d' h using LengthBody by (simp add: py_slice_def)
    have l: "\<not> limit < h + length bs - length pre" "\<not> length d < h + length bs"
      using lim stop LengthBody unfolding d' h by (simp_all add: http_encode_def)
    show ?thesis
      using headers vals LengthBody n s l msg [of "[(0, length bs, h - length pre)]"] stop
      by (simp add: frame_body_def frame_length_def framed_def Let_def)
  next
    case (ChunkedBody cs)
    have lower: "bytes_lower (ascii ''chunked'') = ascii ''chunked''" by (simp add: bytes_lower_def ascii_def byte_lower_def)
    obtain s where s: "chunked d h (length pre) limit [] [] = ChunkBody (concat cs) s (h + length (body_text (rq_body r)))"
      using chunked_encoded [of cs "[]" "pre @ head_text r" "length pre" limit rest "[]"] bok lim ChunkedBody
      unfolding d' h by (auto simp: body_ok_def http_encode_def)
    show ?thesis
      using headers vals ChunkedBody s lower msg [of s] stop
      by (simp add: frame_body_def frame_chunked_def framed_def Let_def del: body_text.simps)
  qed
qed

lemma round_encoded:
  assumes ok: "request_ok limit r"
  shows "\<exists>m. framer_round (pre @ http_encode r @ rest) base limit (length pre) f =
      (f\<lparr>hf_cursor := Some (base + length (pre @ http_encode r))\<rparr>, [m], [''http_framed_requests''], True) \<and> recovered (length pre) r m"
proof -
  let ?d = "pre @ http_encode r @ rest" and ?hs = "rq_headers r @ framing_headers (rq_body r)"
  let ?req = "rq_method r @ [32] @ rq_target r @ ascii '' HTTP/1.1''" and ?ls = "map header_text ?hs" and ?h = "length (pre @ head_text r)"
  define rl where "rl = line_at (length pre) (rq_method r) (rq_target r)"
  have hs: "list_all header_ok ?hs" using ok framing_headers_ok by (simp add: request_ok_def)
  then have ls: "list_all line_ok ?ls" using header_text_line_ok by (auto simp: list_all_iff)
  have d1: "?d = pre @ request_words (rq_method r) (rq_target r) '' HTTP/1.1'' @ lines_text ?ls @ CRLF @ body_text (rq_body r) @ rest"
    by (simp add: http_encode_def head_text_def request_text_def request_words_def)
  have d2: "?d = (pre @ ?req) @ CRLF @ lines_text ?ls @ CRLF @ body_text (rq_body r) @ rest" unfolding d1 by (simp add: request_words_def)
  have d3: "?d = (pre @ ?req @ CRLF) @ lines_text ?ls @ CRLF @ body_text (rq_body r) @ rest" unfolding d1 by (simp add: request_words_def)
  have at: "request_at ?d (length pre) = Some rl"
    unfolding d1 rl_def using ok by (intro request_at_words) (simp add: request_ok_def words_ok_def)
  have e: "rl_end rl - 2 = length (pre @ ?req)" "rl_end rl = length (pre @ ?req @ CRLF)" by (simp_all add: rl_def line_at_def CRLF_def)
  have blank: "find_from ?d BLANK_LINE (rl_end rl - 2) = Some (length (pre @ ?req) + length (lines_text ?ls))"
    unfolding e(1) d2 using find_from_shift [of "pre @ ?req" _ BLANK_LINE 0]
    by (simp only: add_0_right find_blank_line [OF ls] option.map)
  have h: "length (pre @ ?req) + length (lines_text ?ls) + 4 = ?h" by (simp add: head_text_def request_text_def CRLF_def)
  have "py_slice ?d (rl_end rl) (?h - 2) = lines_text ?ls"
    unfolding d3 e(2) by (rule py_slice_mid) (simp_all add: head_text_def request_text_def CRLF_def)
  then obtain headers where "header_lines (split_crlf (py_slice ?d (rl_end rl) (?h - 2))) [] = Some headers"
      "\<forall>name. header_values headers name = map (\<lambda>(k, v). strip (32 # v)) (filter (\<lambda>(k, v). bytes_lower k = ascii name) ?hs)"
    using header_lines_text [OF hs, of "[]"] split_crlf_lines [OF ls] by (auto simp: header_values_def)
  from frame_body_encoded [OF ok _ _ this refl refl]
  have "\<exists>m. frame_body ?d base limit (length pre) rl ?h f =
      (f\<lparr>hf_cursor := Some (base + length (pre @ http_encode r))\<rparr>, [m], [''http_framed_requests''], True) \<and> recovered (length pre) r m"
    by (simp add: rl_def line_at_def)
  moreover have "\<not> ?h - length pre > MAX_HEADER" using ok by (simp add: request_ok_def)
  ultimately show ?thesis unfolding framer_round_def at blank option.case h by simp
qed

fun recovered_all :: "nat \<Rightarrow> http_request list \<Rightarrow> Message list \<Rightarrow> bool" where
  "recovered_all pos [] ms \<longleftrightarrow> ms = []"
| "recovered_all pos (r # rs) ms \<longleftrightarrow>
     (case ms of [] \<Rightarrow> False | m # ms' \<Rightarrow> recovered pos r m \<and> recovered_all (pos + length (http_encode r)) rs ms')"

lemma encoded_not_empty: "http_encode r \<noteq> []"
  by (simp add: http_encode_def head_text_def CRLF_def)

lemma loop_encoded:
  "list_all (request_ok limit) rs \<Longrightarrow> hf_cursor f = Some (base + length pre) \<Longrightarrow>
   \<exists>ms. recovered_all (length pre) rs ms \<and>
     framer_loop (pre @ concat (map http_encode rs) @ rest) base limit f =
       (case framer_loop (pre @ concat (map http_encode rs) @ rest) base limit
              (f\<lparr>hf_cursor := Some (base + length pre + length (concat (map http_encode rs)))\<rparr>) of
          (f', ms', cs') \<Rightarrow> (f', ms @ ms', replicate (length rs) ''http_framed_requests'' @ cs'))"
proof (induction rs arbitrary: pre f)
  case Nil
  then have "f\<lparr>hf_cursor := Some (base + length pre)\<rparr> = f" by simp
  then show ?case by (simp split: prod.splits)
next
  case (Cons r rs)
  let ?d = "pre @ concat (map http_encode (r # rs)) @ rest" and ?pre = "pre @ http_encode r"
  define f1 where "f1 = f\<lparr>hf_cursor := Some (base + length ?pre)\<rparr>"
  obtain m where m: "framer_round ?d base limit (length pre) f = (f1, [m], [''http_framed_requests''], True)" "recovered (length pre) r m"
    using round_encoded [of limit r pre "concat (map http_encode rs) @ rest" base f] Cons.prems(1) by (auto simp: f1_def)
  obtain ms where ms: "recovered_all (length ?pre) rs ms"
    and l: "framer_loop ?d base limit f1 =
       (case framer_loop ?d base limit (f1\<lparr>hf_cursor := Some (base + length ?pre + length (concat (map http_encode rs)))\<rparr>) of
          (f', ms', cs') \<Rightarrow> (f', ms @ ms', replicate (length rs) ''http_framed_requests'' @ cs'))"
    using Cons.IH [of f1 ?pre] Cons.prems(1) by (auto simp: f1_def)
  have c: "f1\<lparr>hf_cursor := Some (base + length ?pre + length (concat (map http_encode rs)))\<rparr>
      = f\<lparr>hf_cursor := Some (base + length pre + length (concat (map http_encode (r # rs))))\<rparr>" by (simp add: f1_def)
  have "framer_loop ?d base limit f = (case framer_loop ?d base limit f1 of (f2, ms2, cs2) \<Rightarrow> (f2, [m] @ ms2, [''http_framed_requests''] @ cs2))"
    using Cons.prems(2) m(1) encoded_not_empty [of r] by (subst framer_loop.simps) simp
  also have "\<dots> = (case framer_loop ?d base limit (f\<lparr>hf_cursor := Some (base + length pre + length (concat (map http_encode (r # rs))))\<rparr>) of
          (f', ms', cs') \<Rightarrow> (f', (m # ms) @ ms', replicate (length (r # rs)) ''http_framed_requests'' @ cs'))"
    unfolding l c by (simp split: prod.splits)
  finally show ?case using m(2) ms by (intro exI [of _ "m # ms"]) simp
qed

lemma pipeline_recovered:
  assumes "rs \<noteq> []" "list_all (request_ok limit) rs"
  shows "\<exists>f ms. recovered_all 0 rs ms \<and> \<not> hf_blocked f \<and> hf_cursor f = Some (length (concat (map http_encode rs)))
    \<and> framer_scan new_framer (concat (map http_encode rs) @ rest) 0 limit =
        (case framer_scan f (concat (map http_encode rs) @ rest) 0 limit of
           (f', ms', cs') \<Rightarrow> (f', ms @ ms', replicate (length rs) ''http_framed_requests'' @ cs'))"
proof -
  let ?d = "concat (map http_encode rs) @ rest"
  define f1 where "f1 = new_framer\<lparr>hf_search_end := length ?d, hf_cursor := Some 0, hf_recognized := True\<rparr>"
  define f where "f = f1\<lparr>hf_cursor := Some (length (concat (map http_encode rs)))\<rparr>"
  obtain r rs' where rs: "rs = r # rs'" using assms(1) by (cases rs) auto
  have ok: "words_ok (rq_method r) (rq_target r) '' HTTP/1.1''" using assms(2) by (simp add: rs request_ok_def words_ok_def)
  have d: "?d = [] @ request_words (rq_method r) (rq_target r) '' HTTP/1.1''
      @ lines_text (map header_text (rq_headers r @ framing_headers (rq_body r))) @ CRLF @ body_text (rq_body r)
      @ concat (map http_encode rs') @ rest"
    by (simp add: rs http_encode_def head_text_def request_text_def request_words_def)
  have "request_at ?d 0 \<noteq> None"
    using request_at_words [OF ok, of "[]"] by (subst d) simp
  moreover have "[0 ..< length ?d] = 0 # [1 ..< length ?d]" using encoded_not_empty [of r] by (simp add: rs upt_conv_Cons)
  ultimately have "search_request ?d 0 = Some 0" by (simp add: search_request_def)
  then have "framer_scan new_framer ?d 0 limit = framer_loop ?d 0 limit f1"
    by (simp add: framer_scan_def new_framer_def f1_def Let_def)
  moreover obtain ms where "recovered_all 0 rs ms" "framer_loop ?d 0 limit f1 = (case framer_loop ?d 0 limit f of
          (f', ms', cs') \<Rightarrow> (f', ms @ ms', replicate (length rs) ''http_framed_requests'' @ cs'))"
    using loop_encoded [OF assms(2), of f1 0 "[]" rest] by (auto simp: f_def f1_def)
  moreover have "framer_scan f ?d 0 limit = framer_loop ?d 0 limit f" "\<not> hf_blocked f" "hf_cursor f = Some (length (concat (map http_encode rs)))"
    by (simp_all add: framer_scan_def f_def f1_def new_framer_def)
  ultimately show ?thesis by (intro exI [of _ f] exI [of _ ms]) simp
qed

lemma request_recovered:
  assumes "request_ok limit r"
  shows "\<exists>f m. framer_scan new_framer (http_encode r) 0 limit = (f, [m], [''http_framed_requests'']) \<and> recovered 0 r m
    \<and> \<not> hf_blocked f \<and> hf_cursor f = Some (length (http_encode r))"
proof -
  obtain f ms where f: "recovered_all 0 [r] ms" "\<not> hf_blocked f" "hf_cursor f = Some (length (http_encode r))"
    "framer_scan new_framer (http_encode r) 0 limit =
       (case framer_scan f (http_encode r) 0 limit of (f', ms', cs') \<Rightarrow> (f', ms @ ms', [''http_framed_requests''] @ cs'))"
    using pipeline_recovered [of "[r]" limit "[]"] assms by auto
  have "framer_scan f (http_encode r) 0 limit = (f, [], [])"
    using f(2,3) by (simp add: framer_scan_def framer_loop.simps [of _ _ _ f])
  then show ?thesis using f by (cases ms) auto
qed

text \<open>C17: the framer recovers any pipeline of well-formed requests, with no body, with a body of known length or with a chunked
  body, whatever the bytes of the bodies are (they may look like requests) and whatever follows the pipeline: it returns one
  complete message per request, in order, at its place, with its target and its decoded body, counts each once,
  and goes on behind the last one.\<close>

theorem http_pipeline_recovered:
  assumes "rs \<noteq> []" "list_all (request_ok limit) rs"
  shows "\<exists>f ms. recovered_all 0 rs ms \<and> \<not> hf_blocked f \<and> hf_cursor f = Some (length (concat (map http_encode rs)))
    \<and> framer_scan new_framer (concat (map http_encode rs) @ rest) 0 limit =
        (case framer_scan f (concat (map http_encode rs) @ rest) 0 limit of
           (f', ms', cs') \<Rightarrow> (f', ms @ ms', replicate (length rs) ''http_framed_requests'' @ cs'))"
  by (rule pipeline_recovered [OF assms])

definition sample_upload :: http_request where
  "sample_upload = \<lparr>rq_method = ascii ''PUT'', rq_target = ascii ''/u'', rq_headers = [(ascii ''Host'', ascii ''h'')],
     rq_body = ChunkedBody [ascii ''ab'', ascii ''c'']\<rparr>"

definition sample_login :: http_request where
  "sample_login = \<lparr>rq_method = ascii ''POST'', rq_target = ascii ''/in'', rq_headers = [],
     rq_body = LengthBody (ascii ''GET / HTTP/1.1'' @ CRLF)\<rparr>"

lemmas http_text_simps = head_text_def request_text_def http_encode_def header_text_def chunk_text_def hex_text.simps
  hex_byte_def ascii_def CRLF_def str_nat.simps digit_char_def

lemma sample_upload_ok: "request_ok 200 sample_upload"
  by (simp add: request_ok_def sample_upload_def METHODS_def header_ok_def body_ok_def token_byte_def target_byte_def digit_def
      bytes_lower_def byte_lower_def MAX_HEADER_def http_text_simps)

lemma sample_login_ok: "request_ok 200 sample_login"
  by (simp add: request_ok_def sample_login_def METHODS_def header_ok_def body_ok_def token_byte_def target_byte_def digit_def
      bytes_lower_def byte_lower_def MAX_HEADER_def http_text_simps)

theorem http_pipeline_recovered_witness:
  "\<exists>f ms. recovered_all 0 [sample_login, sample_upload] ms \<and> \<not> hf_blocked f
    \<and> hf_cursor f = Some (length (concat (map http_encode [sample_login, sample_upload])))
    \<and> framer_scan new_framer (concat (map http_encode [sample_login, sample_upload]) @ ascii ''GE'') 0 200 =
        (case framer_scan f (concat (map http_encode [sample_login, sample_upload]) @ ascii ''GE'') 0 200 of
           (f', ms', cs') \<Rightarrow> (f', ms @ ms', replicate (length [sample_login, sample_upload]) ''http_framed_requests'' @ cs'))"
  by (rule http_pipeline_recovered) (simp_all add: sample_login_ok sample_upload_ok)

text \<open>C19: the messages of a scan stand in the data one behind the other, and \<open>wire_span\<close> is exact for every part of a body,
  whether it was framed by its length, by chunks or not at all: the range lies behind the header and inside the message, and
  every byte of that part of the decoded body is in the range, at the place the span of this single byte names.\<close>

theorem http_wire_span_exact:
  assumes "framer_scan f d base limit = (f', ms, cs)" "m \<in> set ms" "a < b" "b \<le> length (ms_body m)"
    and "wire_span m a b = (first, final)"
  shows "sorted_wrt (\<lambda>m n. ms_start m + ms_end m \<le> ms_start n) ms \<and> ms_start m + ms_end m \<le> length d
    \<and> ms_header_end m \<le> first \<and> first < final \<and> final \<le> ms_end m
    \<and> (\<forall>k. a \<le> k \<and> k < b \<longrightarrow>
         (\<exists>p. wire_span m k (Suc k) = (p, Suc p) \<and> first \<le> p \<and> p < final \<and> d ! (ms_start m + p) = ms_body m ! k))"
proof -
  have ok: "messages_ok d 0 ms" by (rule scan_messages [OF assms(1)])
  then have m: "message_ok d m" using assms(2) by (simp add: messages_ok_def list_all_iff)
  then have s: "spans_ok d (ms_start m) (ms_start m + ms_header_end m) (ms_start m + ms_end m) (ms_body m) (ms_body_spans m)"
    using assms(3,4) by (auto simp: message_ok_def)
  show ?thesis
    using ok m wire_span_exact(1) [OF s assms(3-5)] wire_span_exact(2) [OF s assms(3-5)]
    by (simp add: messages_ok_def message_ok_def)
qed

theorem http_wire_span_exact_witness:
  "\<exists>f' ms cs m. framer_scan new_framer (http_encode sample_upload) 0 200 = (f', ms, cs) \<and> m \<in> set ms
    \<and> ms_body m = ascii ''abc'' \<and> fst (wire_span m 0 3) < snd (wire_span m 0 3) \<and> snd (wire_span m 0 3) \<le> ms_end m
    \<and> (\<forall>k. 0 \<le> k \<and> k < 3 \<longrightarrow> (\<exists>p. wire_span m k (Suc k) = (p, Suc p) \<and> fst (wire_span m 0 3) \<le> p \<and> p < snd (wire_span m 0 3)
          \<and> http_encode sample_upload ! (ms_start m + p) = ms_body m ! k))"
proof -
  obtain f' m where s: "framer_scan new_framer (http_encode sample_upload) 0 200 = (f', [m], [''http_framed_requests''])"
    and "recovered 0 sample_upload m" using request_recovered [OF sample_upload_ok] by blast
  then have m: "ms_body m = ascii ''abc''" by (simp add: recovered_def sample_upload_def ascii_def)
  show ?thesis
    using http_wire_span_exact [OF s, of m 0 3 "fst (wire_span m 0 3)" "snd (wire_span m 0 3)"] s m
    by (intro exI [of _ f'] exI [of _ "[m]"] exI [of _ "[''http_framed_requests'']"] exI [of _ m]) (simp add: ascii_def)
qed

section \<open>A request line in two segments\<close>

lemma request_at_line_feed:
  assumes "request_at d i = Some rl"
  shows "10 \<in> set d"
proof -
  obtain m t v rest where "drop i d = request_words m t v @ rest" using assms by (rule request_at_text)
  then have "10 \<in> set (drop i d)" by (simp add: request_words_def CRLF_def)
  then show ?thesis by (rule in_set_dropD)
qed

lemma search_request_None:
  "(\<And>i. start \<le> i \<Longrightarrow> i < length d \<Longrightarrow> i = 0 \<or> d ! (i - 1) = 10 \<Longrightarrow> request_at d i = None) \<Longrightarrow> search_request d start = None"
  unfolding search_request_def find_None_iff by fastforce

text \<open>The search for the first request goes back 8192 bytes from where it stopped, and a request line may be longer than
  that. A request whose line has a target of 8179 bytes or more is framed when it arrives at once, and is never
  recognised when the last byte of its line arrives in a later segment.\<close>

theorem http_split_line_missed:
  assumes "list_all target_byte t" "8178 < length t" "length t \<le> 8192" "length t + 17 \<le> limit"
  shows "\<exists>f f'. framer_scan new_framer (ascii ''GET '' @ t @ ascii '' HTTP/1.1'' @ [13]) 0 limit = (f, [], [])
    \<and> framer_scan f (ascii ''GET '' @ t @ ascii '' HTTP/1.1'' @ CRLF @ CRLF) 0 limit = (f', [], []) \<and> \<not> hf_recognized f'
    \<and> (\<exists>f2 m. framer_scan new_framer (ascii ''GET '' @ t @ ascii '' HTTP/1.1'' @ CRLF @ CRLF) 0 limit = (f2, [m], [''http_framed_requests''])
         \<and> ms_target m = t \<and> ms_complete m)"
proof -
  let ?d1 = "ascii ''GET '' @ t @ ascii '' HTTP/1.1'' @ [13]" and ?d2 = "ascii ''GET '' @ t @ ascii '' HTTP/1.1'' @ CRLF @ CRLF"
  define f where "f = new_framer\<lparr>hf_search_end := length ?d1\<rparr>"
  have no_lf: "10 \<notin> set ?d1" using assms(1) by (auto simp: list_all_iff target_byte_def ascii_def)
  have "request_at ?d1 i = None" for i
  proof (rule ccontr)
    assume "request_at ?d1 i \<noteq> None"
    then obtain rl where rl: "request_at ?d1 i = Some rl" by blast
    show False using request_at_line_feed [OF rl] no_lf by contradiction
  qed
  then have "search_request ?d1 0 = None" by (rule search_request_None)
  then have one: "framer_scan new_framer ?d1 0 limit = (f, [], [])"
    by (simp add: framer_scan_def new_framer_def f_def Let_def)
  have "search_request ?d2 (length ?d1 - 8192) = None"
  proof (rule search_request_None, rule ccontr)
    fix i assume i: "length ?d1 - 8192 \<le> i" "i = 0 \<or> ?d2 ! (i - 1) = 10" "request_at ?d2 i \<noteq> None"
    then obtain rl where rl: "request_at ?d2 i = Some rl" by blast
    have "i - 1 \<ge> length ?d1"
    proof (rule ccontr)
      assume "\<not> i - 1 \<ge> length ?d1"
      then have lt: "i - 1 < length ?d1" by linarith
      have "?d2 ! (i - 1) = ?d1 ! (i - 1)" using lt nth_append [of ?d1 "[10] @ CRLF" "i - 1"] by (simp add: CRLF_def)
      with nth_mem [OF lt] show False using i(1,2) assms(2) no_lf by (auto simp: ascii_def)
    qed
    moreover have "length ?d2 = length ?d1 + 3" by (simp add: CRLF_def)
    ultimately show False using request_at_bounds [OF rl] by linarith
  qed
  then have two: "framer_scan f ?d2 0 limit = (f\<lparr>hf_search_end := length ?d2\<rparr>, [], [])"
    by (simp add: framer_scan_def new_framer_def f_def Let_def)
  define r where "r = \<lparr>rq_method = ascii ''GET'', rq_target = t, rq_headers = [], rq_body = NoBody\<rparr>"
  have d2: "http_encode r = ?d2" by (simp add: r_def http_encode_def head_text_def request_text_def ascii_def)
  have "request_ok limit r"
    using assms unfolding request_ok_def d2 by (auto simp: r_def METHODS_def body_ok_def head_text_def request_text_def MAX_HEADER_def CRLF_def) (simp_all add: ascii_def)
  then have "\<exists>f2 m. framer_scan new_framer ?d2 0 limit = (f2, [m], [''http_framed_requests'']) \<and> ms_target m = t \<and> ms_complete m"
    using request_recovered [of limit r] unfolding d2 by (auto simp: recovered_def r_def)
  with one two show ?thesis by (intro exI [of _ f] exI [of _ "f\<lparr>hf_search_end := length ?d2\<rparr>"]) (simp add: f_def new_framer_def)
qed

theorem http_split_line_missed_witness:
  "\<exists>f f'. framer_scan new_framer (ascii ''GET '' @ replicate 8190 97 @ ascii '' HTTP/1.1'' @ [13]) 0 262144 = (f, [], [])
    \<and> framer_scan f (ascii ''GET '' @ replicate 8190 97 @ ascii '' HTTP/1.1'' @ CRLF @ CRLF) 0 262144 = (f', [], []) \<and> \<not> hf_recognized f'
    \<and> (\<exists>f2 m. framer_scan new_framer (ascii ''GET '' @ replicate 8190 97 @ ascii '' HTTP/1.1'' @ CRLF @ CRLF) 0 262144
          = (f2, [m], [''http_framed_requests'']) \<and> ms_target m = replicate 8190 97 \<and> ms_complete m)"
  by (rule http_split_line_missed) (simp_all add: list_all_iff target_byte_def)

section \<open>More bytes\<close>

lemma request_at_append: "request_at d i = Some rl \<Longrightarrow> request_at (d @ e) i = Some rl"
proof -
  assume "request_at d i = Some rl"
  then obtain m t v rest where w: "words_ok m t v" "rl = line_at i m t" "i \<le> length d" "drop i d = request_words m t v @ rest"
    by (rule request_at_text)
  then have d: "d @ e = take i d @ request_words m t v @ rest @ e" by (metis append_assoc append_take_drop_id)
  show ?thesis unfolding d using request_at_words [OF w(1), of "take i d" "rest @ e"] w(2,3) by simp
qed

lemma length_request_words: "words_ok m t v \<Longrightarrow> i + length (request_words m t v) = rl_end (line_at i m t)"
  by (auto simp: request_words_def line_at_def words_ok_def CRLF_def)

lemma request_at_prefix: "request_at (d @ e) i = Some rl \<Longrightarrow> rl_end rl \<le> length d \<Longrightarrow> request_at d i = Some rl"
proof -
  assume r: "request_at (d @ e) i = Some rl" "rl_end rl \<le> length d"
  then obtain m t v rest where w: "words_ok m t v" "rl = line_at i m t" "drop i (d @ e) = request_words m t v @ rest"
    by (auto elim: request_at_text)
  have n: "i + length (request_words m t v) \<le> length d" using length_request_words [OF w(1)] w(2) r(2) by simp
  have "take (length (request_words m t v)) (drop i d) = request_words m t v"
    using arg_cong [OF w(3), of "take (length (request_words m t v))"] n by simp
  then have "d = take i d @ request_words m t v @ drop (length (request_words m t v)) (drop i d)"
    by (metis append_take_drop_id)
  then show ?thesis using request_at_words [OF w(1), of "take i d"] w(2) n by (metis add_leD1 length_take min.absorb2)
qed

lemma METHODS_line_feed: "list_all (\<lambda>m. 10 \<notin> set m) METHODS"
  by (simp add: METHODS_def ascii_def)

lemma find_upt_Some:
  "find P [i ..< n] = Some j \<longleftrightarrow> i \<le> j \<and> j < n \<and> P j \<and> (\<forall>k. i \<le> k \<and> k < j \<longrightarrow> \<not> P k)"
proof (cases "i \<le> n")
  case True
  show ?thesis
  proof
    assume "find P [i ..< n] = Some j"
    then obtain q where q: "q < n - i" "P (i + q)" "j = i + q" "\<forall>k < q. \<not> P (i + k)" by (auto simp: find_Some_iff)
    then have "\<not> P k" if "i \<le> k" "k < j" for k using that by (auto dest!: spec [of _ "k - i"])
    with q show "i \<le> j \<and> j < n \<and> P j \<and> (\<forall>k. i \<le> k \<and> k < j \<longrightarrow> \<not> P k)" by auto
  next
    assume h: "i \<le> j \<and> j < n \<and> P j \<and> (\<forall>k. i \<le> k \<and> k < j \<longrightarrow> \<not> P k)"
    then show "find P [i ..< n] = Some j" by (auto simp: find_Some_iff intro!: exI [of _ "j - i"])
  qed
qed (auto simp: find_Some_iff)

lemma request_at_line:
  assumes "request_at d i = Some rl" "i \<le> p" "p + 1 < rl_end rl"
  shows "d ! p \<noteq> 10"
proof -
  obtain m t v rest where w: "words_ok m t v" "rl = line_at i m t" "i \<le> length d" "drop i d = request_words m t v @ rest"
    using assms(1) by (rule request_at_text)
  have no: "10 \<notin> set (butlast (request_words m t v))"
    using w(1) METHODS_line_feed
    by (auto simp: words_ok_def request_words_def butlast_append CRLF_def list_all_iff target_byte_def ascii_def)
  have lt: "p - i < length (butlast (request_words m t v))" using assms length_request_words [OF w(1), of i] w(2) by simp
  then have lt2: "p - i < length (request_words m t v)" by (simp add: less_diff_conv)
  have "d ! p = drop i d ! (p - i)" using w(3) assms(2) by simp
  also have "\<dots> = butlast (request_words m t v) ! (p - i)" using lt lt2 unfolding w(4) by (simp add: nth_append nth_butlast)
  finally show ?thesis using no nth_mem [OF lt] by metis
qed

lemma search_request_append:
  assumes "search_request d i = Some j"
  shows "search_request (d @ e) i = Some j"
proof -
  let ?P = "\<lambda>d i. (i = 0 \<or> d ! (i - 1) = 10) \<and> request_at d i \<noteq> None"
  have j: "i \<le> j" "j < length d" "?P d j" and least: "\<And>k. i \<le> k \<Longrightarrow> k < j \<Longrightarrow> \<not> ?P d k"
    using assms unfolding search_request_def find_upt_Some by blast+
  have "\<not> ?P (d @ e) k" if k: "i \<le> k" "k < j" for k
  proof
    assume p: "?P (d @ e) k"
    then obtain rl where rl: "request_at (d @ e) k = Some rl" by blast
    have "k = 0 \<or> d ! (k - 1) = 10" using p k j(2) by (auto simp: nth_append split: if_splits)
    then have "rl_end rl > length d" using least [OF k] request_at_prefix [OF rl] by force
    moreover have "k \<le> j - 1" "j - 1 < length d" "d ! (j - 1) = 10" using j k by auto
    ultimately show False using request_at_line [OF rl, of "j - 1"] j by (simp add: nth_append)
  qed
  moreover have "?P (d @ e) j" using j request_at_append [of d j] by (auto simp: nth_append)
  ultimately show ?thesis using j unfolding search_request_def find_upt_Some by auto
qed

lemma chunked_append:
  "chunked d pos start limit body spans = ChunkBody b s stop \<Longrightarrow> chunked (d @ e) pos start limit body spans = ChunkBody b s stop"
proof (induction d pos start limit body spans rule: chunked.induct)
  case (1 d pos start limit body spans)
  obtain l where l: "find_from d CRLF pos = Some l"
    using "1.prems" by (subst (asm) chunked.simps) (auto split: option.splits)
  obtain len where len: "hex_number (takeWhile (\<lambda>b. b \<noteq> 59) (py_slice d pos l)) = Some len"
    using "1.prems" l by (subst (asm) chunked.simps) (auto split: if_splits option.splits)
  have lim: "\<not> (l - pos > 1024 \<or> length spans \<ge> 4096)" using "1.prems" l by (subst (asm) chunked.simps) (auto split: if_splits)
  have s1: "py_slice (d @ e) pos l = py_slice d pos l" using find_from_Some [OF l] by (intro py_slice_append_left) simp
  note l2 = find_from_append [OF l, of e]
  show ?case
  proof (cases "len = 0")
    case True
    show ?thesis
    proof (cases "py_slice d (l + 2) (l + 2 + 2) = CRLF")
      case two: True
      then have "l + 2 + 2 \<le> length d" by (auto dest: arg_cong [where f = length] simp: CRLF_def)
      then have "py_slice (d @ e) (l + 2) (l + 2 + 2) = CRLF" using two by (simp add: py_slice_append_left)
      then show ?thesis using "1.prems" True l len two lim l2 s1 by (simp add: chunked.simps [of d] chunked.simps [of "d @ e"] Let_def)
    next
      case False
      have "find_from d BLANK_LINE (l + 2) \<noteq> None"
        using "1.prems" True l len lim False by (auto simp: chunked.simps [of d] Let_def split: option.splits)
      then obtain q where q: "find_from d BLANK_LINE (l + 2) = Some q" by blast
      have "l + 2 + 2 \<le> length d" using find_from_Some [OF q] by (simp add: BLANK_LINE_def CRLF_def)
      then have "py_slice (d @ e) (l + 2) (l + 2 + 2) \<noteq> CRLF" using False by (simp add: py_slice_append_left)
      then show ?thesis
        using "1.prems" True l len lim False l2 s1 q find_from_append [OF q, of e]
        by (simp add: chunked.simps [of d] chunked.simps [of "d @ e"] Let_def)
    qed
  next
    case False
    let ?p = "l + 2"
    have c: "\<not> ?p + len + 2 - start > limit" "\<not> ?p + len + 2 > length d" "py_slice d (?p + len) (?p + len + 2) = CRLF"
      "chunked d (?p + len + 2) start limit (body @ py_slice d ?p (?p + len)) (spans @ [(length body, length body + len, ?p - start)]) = ChunkBody b s stop"
      using "1.prems" False l len lim by (simp_all add: chunked.simps [of d pos] Let_def split: if_splits)
    note ih = "1.IH" [OF l lim len refl False c(1,2) _ c(4)]
    have "py_slice (d @ e) (?p + len) (?p + len + 2) = CRLF" "py_slice (d @ e) ?p (?p + len) = py_slice d ?p (?p + len)"
      using c(2,3) by (simp_all add: py_slice_append_left)
    then show ?thesis using ih c False l2 s1 len lim
      by (subst chunked.simps) (simp add: Let_def)
  qed
qed

lemma frame_body_append:
  assumes "frame_body d base limit start rl h f = (f1, ms, cs, True)" "h \<le> length d"
  shows "frame_body (d @ e) base limit start rl h f = (f1, ms, cs, True)"
proof -
  have s: "py_slice (d @ e) (rl_end rl) (h - 2) = py_slice d (rl_end rl) (h - 2)" using assms(2) by (simp add: py_slice_append_left)
  have m: "message_of (d @ e) = message_of d" by (simp add: message_of_def fun_eq_iff)
  have "frame_chunked (d @ e) base limit start rl h headers f = (f1, ms, cs, True)"
    if "frame_chunked d base limit start rl h headers f = (f1, ms, cs, True)" for headers
    using that m chunked_append [of d h start limit "[]" "[]" _ _ _ e]
    by (cases "chunked d h start limit [] []") (auto simp: frame_chunked_def block_def wait_more_def framed_def split: if_splits)
  moreover have "frame_length (d @ e) base limit start rl h headers raw f = (f1, ms, cs, True)"
    if "frame_length d base limit start rl h headers raw f = (f1, ms, cs, True)" for headers raw
    using that m by (auto simp: frame_length_def block_def wait_more_def framed_def Let_def py_slice_append_left split: if_splits)
  moreover have "unframed (d @ e) base start rl h headers f = (f1, ms, cs, True)"
    if u: "unframed d base start rl h headers f = (f1, ms, cs, True)" for headers
  proof -
    obtain j where j: "search_request d h = Some j" using u by (auto simp: unframed_def Let_def split: option.splits)
    have "py_slice (d @ e) h j = py_slice d h j" using search_request_bounds [OF j] by (simp add: py_slice_append_left)
    then show ?thesis using u unfolding unframed_def j search_request_append [OF j, of e] Let_def option.case m by auto
  qed
  moreover have "framed (d @ e) = framed d" using m by (simp add: framed_def fun_eq_iff)
  moreover obtain headers where "header_lines (split_crlf (py_slice d (rl_end rl) (h - 2))) [] = Some headers"
    using assms(1) by (auto simp: frame_body_def block_def split: option.splits)
  ultimately show ?thesis using assms(1) unfolding frame_body_def s Let_def
    by (auto simp: block_def split: if_splits)
qed

lemma round_append:
  assumes "framer_round d base limit start f = (f1, ms, cs, True)"
  shows "framer_round (d @ e) base limit start f = (f1, ms, cs, True)"
proof -
  obtain rl blank where rl: "request_at d start = Some rl" "find_from d BLANK_LINE (rl_end rl - 2) = Some blank"
      "\<not> blank + 4 - start > MAX_HEADER" "frame_body d base limit start rl (blank + 4) f = (f1, ms, cs, True)"
    using assms by (auto simp: framer_round_def block_def wait_more_def split: option.splits if_splits)
  have "blank + 4 \<le> length d" using find_from_Some [OF rl(2)] by (simp add: BLANK_LINE_def CRLF_def)
  with rl show ?thesis
    using request_at_append [OF rl(1), of e] find_from_append [OF rl(2), of e] frame_body_append [OF rl(4), of e]
    by (simp add: framer_round_def)
qed

text \<open>Complete messages depend on the position of the framer only.\<close>

definition framer_like :: "HTTPFramer \<Rightarrow> HTTPFramer \<Rightarrow> bool" where
  "framer_like f g \<longleftrightarrow> hf_cursor f = hf_cursor g \<and> hf_blocked f = hf_blocked g"

fun round_like :: "framing \<Rightarrow> framing \<Rightarrow> bool" where
  "round_like (f1, ms, cs, again) (g1, ns, ds, again2) \<longleftrightarrow>
     again = again2 \<and> framer_like f1 g1 \<and> filter ms_complete ms = filter ms_complete ns"

lemma unframed_like:
  assumes "framer_like f g"
  shows "round_like (unframed d base start rl h headers f) (unframed d base start rl h headers g)"
  using assms unfolding unframed_def Let_def
  by (cases "search_request d h") (simp_all add: framer_like_def message_of_def)

lemma round_like_round:
  assumes "framer_like f g"
  shows "round_like (framer_round d base limit start f) (framer_round d base limit start g)"
proof -
  have bl: "round_like (block c f) (block c g)" "round_like (wait_more f) (wait_more g)"
    "round_like (framed d base start rl h stop headers body spans f) (framed d base start rl h stop headers body spans g)" for c rl h stop headers body spans
    using assms by (simp_all add: block_def wait_more_def framed_def framer_like_def)
  have "round_like (frame_length d base limit start rl h headers raw f) (frame_length d base limit start rl h headers raw g)" for rl h headers raw
    using assms bl by (simp add: frame_length_def Let_def) (simp add: framer_like_def)
  moreover have "round_like (frame_chunked d base limit start rl h headers f) (frame_chunked d base limit start rl h headers g)" for rl h headers
    using bl by (simp add: frame_chunked_def split: chunk_result.split)
  ultimately have "round_like (frame_body d base limit start rl h f) (frame_body d base limit start rl h g)" for rl h
    using bl unframed_like [OF assms] by (simp add: frame_body_def Let_def split: option.split)
  then show ?thesis using bl by (auto simp: framer_round_def split: option.split)
qed

lemma loop_like:
  assumes "framer_like f g"
  shows "framer_like (fst (framer_loop d base limit f)) (fst (framer_loop d base limit g))
    \<and> filter ms_complete (fst (snd (framer_loop d base limit f))) = filter ms_complete (fst (snd (framer_loop d base limit g)))"
  using assms
proof (induction d base limit f arbitrary: g rule: framer_loop.induct)
  case (1 d base limit f)
  show ?case
  proof (cases "\<exists>c. hf_cursor f = Some c \<and> c < base + length d")
    case False
    then show ?thesis using "1.prems"
      by (auto simp: framer_loop.simps [of d base limit f] framer_loop.simps [of d base limit g] framer_like_def split: option.splits)
  next
    case True
    then obtain c where c: "hf_cursor f = Some c" "\<not> c \<ge> base + length d" by auto
    have cg: "hf_cursor g = Some c" using "1.prems" c by (simp add: framer_like_def)
    obtain f1 ms cs again where r: "framer_round d base limit (c - base) f = (f1, ms, cs, again)" by (rule prod_cases4)
    obtain g1 ns ds again2 where r2: "framer_round d base limit (c - base) g = (g1, ns, ds, again2)" by (rule prod_cases4)
    have like: "again2 = again" "framer_like f1 g1" "filter ms_complete ms = filter ms_complete ns"
      using round_like_round [OF "1.prems", of d base limit "c - base"] r r2 by auto
    show ?thesis
    proof (cases again)
      case False
      then show ?thesis using like r r2 c cg by (simp add: framer_loop.simps [of d base limit f] framer_loop.simps [of d base limit g])
    next
      case True
      note ih = "1.IH" [OF c r [symmetric] refl refl True like(2)]
      then show ?thesis using True like r r2 c cg
        by (auto simp: framer_loop.simps [of d base limit f] framer_loop.simps [of d base limit g] split: prod.splits)
    qed
  qed
qed

text \<open>Where a round stops and the framer is not blocked, it has not moved.\<close>

lemma round_waits:
  assumes "framer_round d base limit start f = (f1, ms, cs, False)" "\<not> hf_blocked f1"
  shows "hf_cursor f1 = hf_cursor f \<and> \<not> hf_blocked f \<and> filter ms_complete ms = []"
  using assms
  by (auto simp: framer_round_def frame_body_def frame_chunked_def frame_length_def unframed_def framed_def block_def wait_more_def
      message_of_def Let_def split: option.splits if_splits chunk_result.splits)

lemma round_keeps_blocked: "framer_round d base limit start f = (f1, ms, cs, True) \<Longrightarrow> hf_blocked f1 = hf_blocked f"
  by (auto simp: framer_round_def frame_body_def frame_chunked_def frame_length_def unframed_def framed_def block_def wait_more_def
      Let_def split: option.splits if_splits chunk_result.splits)

lemma loop_append:
  assumes "framer_loop d base limit f = (f1, ms, cs)" "\<not> hf_blocked f1"
  shows "framer_like (fst (framer_loop (d @ e) base limit f)) (fst (framer_loop (d @ e) base limit f1))
    \<and> filter ms_complete (fst (snd (framer_loop (d @ e) base limit f)))
        = filter ms_complete ms @ filter ms_complete (fst (snd (framer_loop (d @ e) base limit f1)))"
  using assms
proof (induction d base limit f arbitrary: f1 ms cs rule: framer_loop.induct)
  case (1 d base limit f)
  show ?case
  proof (cases "\<exists>c. hf_cursor f = Some c \<and> c < base + length d")
    case False
    then have "f1 = f" "ms = []" using "1.prems"(1) by (auto simp: framer_loop.simps [of d base limit f] split: option.splits)
    then show ?thesis by (simp add: framer_like_def)
  next
    case True
    then obtain c where c: "hf_cursor f = Some c" "\<not> c \<ge> base + length d" by auto
    obtain g ns ds again where r: "framer_round d base limit (c - base) f = (g, ns, ds, again)" by (rule prod_cases4)
    show ?thesis
    proof (cases again)
      case False
      then have e: "f1 = g" "ms = ns" using "1.prems"(1) c r by (simp_all add: framer_loop.simps [of d base limit f])
      have "framer_like f f1" "filter ms_complete ms = []"
        using round_waits [of d base limit "c - base" f g ns ds] r False "1.prems"(2) e by (simp_all add: framer_like_def)
      then show ?thesis using loop_like [of f f1 "d @ e" base limit] by simp
    next
      case True
      obtain f2 ms2 cs2 where l: "framer_loop d base limit g = (f2, ms2, cs2)" by (rule prod_cases3)
      have e: "f1 = f2" "ms = ns @ ms2" using "1.prems"(1) c r True l by (simp_all add: framer_loop.simps [of d base limit f])
      note ih = "1.IH" [OF c r [symmetric] refl refl True l "1.prems"(2) [unfolded e]]
      have "framer_round (d @ e) base limit (c - base) f = (g, ns, ds, True)" using round_append r True by simp
      then have "framer_loop (d @ e) base limit f
          = (case framer_loop (d @ e) base limit g of (h, ks, es) \<Rightarrow> (h, ns @ ks, ds @ es))"
        using c by (subst framer_loop.simps) simp
      then show ?thesis using ih e by (auto split: prod.splits)
    qed
  qed
qed

lemma loop_cursor_after:
  assumes "framer_loop d base limit f = (f1, ms, cs)" "hf_cursor f = Some c" "\<not> hf_blocked f1"
  shows "\<exists>c1. hf_cursor f1 = Some c1 \<and> c \<le> c1"
  using assms
proof (induction d base limit f arbitrary: c f1 ms cs rule: framer_loop.induct)
  case (1 d base limit f)
  obtain g ns ds again where r: "framer_round d base limit (c - base) f = (g, ns, ds, again)" by (rule prod_cases4)
  consider "c \<ge> base + length d" | "\<not> c \<ge> base + length d" "\<not> again" | "\<not> c \<ge> base + length d" "again" by blast
  then show ?case
  proof cases
    case 1
    then show ?thesis using "1.prems" by (simp add: framer_loop.simps [of d base limit f])
  next
    case 2
    then have "f1 = g" using "1.prems" r by (simp add: framer_loop.simps [of d base limit f])
    then show ?thesis using round_waits [of d base limit "c - base" f g ns ds] "1.prems" r 2 by simp
  next
    case 3
    obtain f2 ms2 cs2 where l: "framer_loop d base limit g = (f2, ms2, cs2)" by (rule prod_cases3)
    have e: "f1 = f2" using "1.prems" r 3 l by (simp add: framer_loop.simps [of d base limit f])
    obtain c2 where c2: "hf_cursor g = Some c2" "base + (c - base) < c2"
      using framer_round_advances [of d base limit "c - base" f g ns ds] r 3 by auto
    have "\<exists>c1. hf_cursor f2 = Some c1 \<and> c2 \<le> c1"
      using "1.IH" [OF "1.prems"(2) 3(1) r [symmetric] refl refl 3(2) l c2(1)] "1.prems"(3) e by simp
    then show ?thesis using e c2(2) by auto
  qed
qed



end
