(* ===== verification/Ntlm_Wrappers.thy ===== *)
theory Ntlm_Wrappers
  imports Byte_Text
begin

text \<open>
  NTLM transport wrappers (\<open>packet_audit/ntlm_wrappers.py\<close>): the SPNEGO envelope of an NTLM token, recognition of SMB2 headers,
  and the session an NTLM token inside an SMB2 \<open>SESSION_SETUP\<close> belongs to. The functions work on the retained window of a
  stream and return an option where the code returns \<open>None\<close>.
\<close>

section \<open>ASN.1 elements\<close>

text \<open>\<open>_tlv(data, start, limit)\<close>: the tag, the start of the content and its end. Every caller passes a limit within the data.\<close>

definition tlv :: "bytes \<Rightarrow> nat \<Rightarrow> nat \<Rightarrow> (byte \<times> nat \<times> nat) option" where
  "tlv d start limit =
     (if start + 2 > limit then None
      else
        (let tag = d ! start; first = unat (d ! (start + 1)) in
         if first < 128 then (if start + 2 + first \<le> limit then Some (tag, start + 2, start + 2 + first) else None)
         else
           (let n = first - 128 in
            if \<not> (1 \<le> n \<and> n \<le> 3) \<or> start + 2 + n > limit then None
            else
              (let v = start + 2 + n; stop = v + from_be (py_slice d (start + 2) v) in
               if stop \<le> limit then Some (tag, v, stop) else None))))"

definition NTLM_SIGNATURE :: bytes where "NTLM_SIGNATURE = ascii ''NTLMSSP'' @ [0]"

definition SPNEGO_OID :: bytes where "SPNEGO_OID = [0x2b, 6, 1, 5, 5, 2]"

definition has_prefix :: "bytes \<Rightarrow> bytes \<Rightarrow> bool" where
  "has_prefix d prefix \<longleftrightarrow> take (length prefix) d = prefix"

text \<open>The loop over the elements of the sequence: where it stopped, and the token it found. \<open>None\<close> where the code returns at once.\<close>

fun neg_children :: "bytes \<Rightarrow> nat \<Rightarrow> nat \<Rightarrow> nat \<Rightarrow> bytes option \<Rightarrow> (nat \<times> bytes option) option" where
  "neg_children d stop 0 cursor found = Some (cursor, found)"
| "neg_children d stop (Suc n) cursor found =
     (if cursor \<ge> stop then Some (cursor, found)
      else
        (case tlv d cursor stop of
           None \<Rightarrow> None
         | Some (tag, v, e) \<Rightarrow>
             if tag = 0xA2 then
               (case tlv d v e of
                  None \<Rightarrow> None
                | Some (itag, iv, ie) \<Rightarrow>
                    if itag \<noteq> 4 \<or> ie \<noteq> e \<or> found \<noteq> None then None else neg_children d stop n e (Some (py_slice d iv ie)))
             else neg_children d stop n e found))"

text \<open>The \<open>NegTokenInit\<close> or \<open>NegTokenResp\<close> of an envelope, from the element that holds it.\<close>

definition neg_token :: "bytes \<Rightarrow> byte \<times> nat \<times> nat \<Rightarrow> bytes option" where
  "neg_token d = (\<lambda>(tag, v, stop).
     if tag \<noteq> 0xA0 \<and> tag \<noteq> 0xA1 then None
     else
       (case tlv d v stop of
          None \<Rightarrow> None
        | Some (stag, sv, se) \<Rightarrow>
            if stag \<noteq> 0x30 \<or> se \<noteq> stop then None
            else
              (case neg_children d stop 8 sv None of
                 None \<Rightarrow> None
               | Some (cursor, found) \<Rightarrow>
                   (case found of
                      None \<Rightarrow> None
                    | Some t \<Rightarrow> if cursor \<noteq> stop \<or> \<not> has_prefix t NTLM_SIGNATURE then None else Some t))))"

definition unwrap_ntlm :: "bytes \<Rightarrow> bytes option" where
  "unwrap_ntlm token =
     (if length token > 65536 then None
      else if has_prefix token NTLM_SIGNATURE then Some token
      else
        (case tlv token 0 (length token) of
           None \<Rightarrow> None
         | Some (tag, v, stop) \<Rightarrow>
             if stop \<noteq> length token then None
             else if tag = 0x60 then
               (case tlv token v stop of
                  None \<Rightarrow> None
                | Some (otag, ov, oe) \<Rightarrow>
                    if otag \<noteq> 6 \<or> py_slice token ov oe \<noteq> SPNEGO_OID then None
                    else
                      (case tlv token oe stop of
                         None \<Rightarrow> None
                       | Some (ntag, nv, ne) \<Rightarrow> if ne \<noteq> stop then None else neg_token token (ntag, nv, ne)))
             else neg_token token (tag, v, stop)))"

section \<open>SMB2 headers\<close>

definition SMB2_ID :: bytes where "SMB2_ID = 0xfe # ascii ''SMB''"

definition smb2_header_at :: "bytes \<Rightarrow> nat \<Rightarrow> bool" where
  "smb2_header_at d h \<longleftrightarrow>
     h + 64 \<le> length d \<and> py_slice d (h + 4) (h + 6) = [0x40, 0] \<and> from_le (py_slice d (h + 12) (h + 14)) \<le> 18"

function smb2_seen_loop :: "bytes \<Rightarrow> nat option \<Rightarrow> bool" where
  "smb2_seen_loop d None = False"
| "smb2_seen_loop d (Some h) = (if smb2_header_at d h then True else smb2_seen_loop d (find_from d SMB2_ID (h + 4)))"
  by pat_completeness auto
termination
  by (relation "measure (\<lambda>(d, c). case c of None \<Rightarrow> 0 | Some h \<Rightarrow> Suc (length d - h))")
    (auto split: option.split dest!: find_from_Some simp: SMB2_ID_def)

definition smb2_header_seen :: "bytes \<Rightarrow> bool" where
  "smb2_header_seen d = smb2_seen_loop d (find_from d SMB2_ID 0)"

section \<open>The session of a token\<close>

text \<open>\<open>data.rfind(needle, lo, hi)\<close>.\<close>

definition rfind_within :: "bytes \<Rightarrow> bytes \<Rightarrow> nat \<Rightarrow> nat \<Rightarrow> nat option" where
  "rfind_within d needle lo hi =
     find (\<lambda>i. py_slice d i (i + length needle) = needle) (rev [lo ..< Suc (min hi (length d)) - length needle])"

text \<open>The conditions of one round of the loop, on the header at \<open>h\<close>.\<close>

definition session_setup_at :: "bytes \<Rightarrow> nat \<Rightarrow> nat \<Rightarrow> nat \<Rightarrow> bool" where
  "session_setup_at d token_start token_length h \<longleftrightarrow>
     h + 72 \<le> length d \<and> py_slice d (h + 4) (h + 6) = [0x40, 0] \<and> py_slice d (h + 12) (h + 14) = [1, 0]
     \<and> (let response = odd (from_le (py_slice d (h + 16) (h + 20)));
            fixed_size = (if response then 9 else 25); offset_pos = (if response then 68 else 76); minimum = (if response then 72 else 88);
            offset = from_le (py_slice d (h + offset_pos) (h + offset_pos + 2));
            len = from_le (py_slice d (h + offset_pos + 2) (h + offset_pos + 4)) in
        h + minimum \<le> length d \<and> from_le (py_slice d (h + 64) (h + 66)) = fixed_size
        \<and> 12 \<le> token_length \<and> minimum \<le> offset \<and> h + offset \<le> token_start \<and> token_start + token_length \<le> h + offset + len
        \<and> 4 \<le> h \<and> d ! (h - 4) = 0
        \<and> offset + len \<le> from_be (py_slice d (h - 3) h) \<and> py_slice d (h + 20) (h + 24) = [0, 0, 0, 0])"

fun smb2_session_loop :: "bytes \<Rightarrow> nat \<Rightarrow> nat \<Rightarrow> nat \<Rightarrow> nat \<Rightarrow> nat option" where
  "smb2_session_loop d token_start token_length 0 cursor = None"
| "smb2_session_loop d token_start token_length (Suc n) cursor =
     (case rfind_within d SMB2_ID (token_start - 65535) cursor of
        None \<Rightarrow> None
      | Some h \<Rightarrow>
          if session_setup_at d token_start token_length h then Some (from_le (py_slice d (h + 40) (h + 48)))
          else smb2_session_loop d token_start token_length n h)"

definition smb2_session_for_token :: "bytes \<Rightarrow> nat \<Rightarrow> nat \<Rightarrow> nat option" where
  "smb2_session_for_token d token_start token_length = smb2_session_loop d token_start token_length 64 token_start"

section \<open>Envelopes\<close>

text \<open>The DER encoding of an element and the two SPNEGO envelopes, with elements before and after the token.\<close>

definition der_length :: "nat \<Rightarrow> bytes" where
  "der_length n =
     (if n < 128 then [of_nat n] else if n < 256 then 0x81 # to_be 1 n else if n < 65536 then 0x82 # to_be 2 n else 0x83 # to_be 3 n)"

definition der :: "byte \<Rightarrow> bytes \<Rightarrow> bytes" where
  "der tag content = tag # der_length (length content) @ content"

type_synonym elements = "(byte \<times> bytes) list"

definition elements_text :: "elements \<Rightarrow> bytes" where
  "elements_text es = concat (map (\<lambda>(tag, content). der tag content) es)"

definition neg_sequence :: "elements \<Rightarrow> bytes \<Rightarrow> elements \<Rightarrow> bytes" where
  "neg_sequence before token after = der 0x30 (elements_text (before @ (0xA2, der 4 token) # after))"

definition neg_token_init :: "elements \<Rightarrow> bytes \<Rightarrow> elements \<Rightarrow> bytes" where
  "neg_token_init before token after = der 0x60 (der 6 SPNEGO_OID @ der 0xA0 (neg_sequence before token after))"

definition neg_token_resp :: "elements \<Rightarrow> bytes \<Rightarrow> elements \<Rightarrow> bytes" where
  "neg_token_resp before token after = der 0xA1 (neg_sequence before token after)"

lemma length_der_ge: "length content < length (der tag content)"
  by (simp add: der_def)

lemma tlv_der:
  assumes "length content < 256 ^ 3" "length (pre @ der tag content) \<le> limit"
  shows "tlv (pre @ der tag content @ rest) (length pre) limit =
    Some (tag, length pre + 1 + length (der_length (length content)), length (pre @ der tag content))"
proof -
  let ?n = "length content" and ?d = "pre @ der tag content @ rest"
  have two: "length pre + 2 \<le> limit" using assms(2) by (auto simp: der_def der_length_def split: if_splits)
  have tag: "?d ! length pre = tag" by (simp add: der_def nth_append)
  have first: "?d ! (length pre + 1) = hd (der_length ?n)" by (simp add: der_def der_length_def nth_append)
  show ?thesis
  proof (cases "?n < 128")
    case True
    then have "unat (?d ! (length pre + 1)) = ?n" unfolding first by (simp add: der_length_def)
    then show ?thesis using True two tag assms(2) by (simp add: tlv_def der_def der_length_def)
  next
    case False
    define k where "k = (if ?n < 256 then 1 else if ?n < 65536 then 2 else 3 :: nat)"
    have dl: "der_length ?n = of_nat (128 + k) # to_be k ?n" using False by (simp add: der_length_def k_def)
    have k: "1 \<le> k" "k \<le> 3" "?n < 256 ^ k" using assms(1) by (auto simp: k_def)
    have f: "unat (?d ! (length pre + 1)) = 128 + k" unfolding first dl list.sel using k by (intro unat_of_nat_byte) simp
    have d: "?d = (pre @ [tag, of_nat (128 + k)]) @ to_be k ?n @ content @ rest" by (simp add: der_def dl)
    have s: "py_slice ?d (length pre + 2) (length pre + 2 + k) = to_be k ?n" unfolding d by (rule py_slice_mid) simp_all
    show ?thesis
      using two tag f k s assms(2) from_be_to_be [OF k(3)]
      by (simp add: tlv_def Let_def der_def dl)
  qed
qed

lemma tlv_inside: "tlv d start limit = Some (tag, v, stop) \<Longrightarrow> start + 2 \<le> v \<and> v \<le> stop \<and> stop \<le> limit"
  by (auto simp: tlv_def Let_def split: if_splits) (rule diff_le_mono, simp)

lemma elements_text_simps [simp]:
  "elements_text [] = []" "elements_text ((tag, content) # es) = der tag content @ elements_text es"
  "elements_text (es @ fs) = elements_text es @ elements_text fs"
  by (simp_all add: elements_text_def)

definition elements_ok :: "elements \<Rightarrow> bool" where
  "elements_ok es \<longleftrightarrow> list_all (\<lambda>(tag, content). tag \<noteq> 0xA2 \<and> length content < 256 ^ 3) es"

lemma neg_children_skip:
  "elements_ok es \<Longrightarrow> length (pre @ elements_text es) \<le> stop \<Longrightarrow>
   neg_children (pre @ elements_text es @ rest) stop (length es + n) (length pre) found =
   neg_children (pre @ elements_text es @ rest) stop n (length (pre @ elements_text es)) found"
proof (induction es arbitrary: pre)
  case (Cons e es)
  obtain tag content where e: "e = (tag, content)" by (cases e)
  let ?pre = "pre @ der tag content"
  have t: "tlv (pre @ der tag content @ elements_text es @ rest) (length pre) stop =
      Some (tag, length pre + 1 + length (der_length (length content)), length ?pre)"
    using Cons.prems by (intro tlv_der) (simp_all add: e elements_ok_def)
  have "length pre < stop" using Cons.prems(2) length_der_ge [of content tag] by (simp add: e)
  then have "neg_children (pre @ elements_text (e # es) @ rest) stop (length (e # es) + n) (length pre) found =
      neg_children (?pre @ elements_text es @ rest) stop (length es + n) (length ?pre) found"
    using t Cons.prems(1) by (simp add: e elements_ok_def)
  also have "\<dots> = neg_children (?pre @ elements_text es @ rest) stop n (length (?pre @ elements_text es)) found"
    using Cons.prems by (intro Cons.IH) (simp_all add: e elements_ok_def)
  finally show ?case by (simp add: e)
qed simp

lemma neg_children_token:
  assumes "length (der 4 token) < 256 ^ 3" "length (pre @ der 0xA2 (der 4 token)) \<le> stop"
  shows "neg_children (pre @ der 0xA2 (der 4 token) @ rest) stop (Suc n) (length pre) None =
    neg_children (pre @ der 0xA2 (der 4 token) @ rest) stop n (length (pre @ der 0xA2 (der 4 token))) (Some token)"
proof -
  define d e where "d = pre @ der 0xA2 (der 4 token) @ rest" and "e = length (pre @ der 0xA2 (der 4 token))"
  define q where "q = pre @ 0xA2 # der_length (length (der 4 token))"
  define r where "r = q @ 4 # der_length (length token)"
  have small: "length token < 256 ^ 3" using assms(1) length_der_ge [of token 4] by linarith
  have o: "tlv d (length pre) stop = Some (0xA2, length q, e)"
    unfolding d_def e_def using tlv_der [OF assms, of rest] by (simp add: q_def)
  have q: "d = q @ der 4 token @ rest" "e = length (q @ der 4 token)" unfolding d_def e_def q_def by (simp_all add: der_def [of "0xA2"])
  have i: "tlv d (length q) e = Some (4, length r, e)"
    unfolding q using tlv_der [OF small, of q 4 "length (q @ der 4 token)" rest] by (simp add: r_def)
  have r: "d = r @ token @ rest" "e = length (r @ token)" unfolding q r_def by (simp_all add: der_def)
  have s: "py_slice d (length r) e = token" unfolding r by (rule py_slice_mid) simp_all
  have lt: "\<not> stop \<le> length pre" using assms(2) by (simp add: der_def)
  show ?thesis unfolding d_def [symmetric] e_def [symmetric] using o i s lt by simp
qed

lemma neg_token_sequence:
  assumes "elements_ok before" "elements_ok after" "length before + length after < 8" "has_prefix token NTLM_SIGNATURE"
    and "length (neg_sequence before token after) < 256 ^ 3" "tag = 0xA0 \<or> tag = 0xA1"
    and d: "d = pre @ neg_sequence before token after @ rest" and stop: "stop = length (pre @ neg_sequence before token after)"
  shows "neg_token d (tag, length pre, stop) = Some token"
proof -
  let ?es = "before @ (0xA2, der 4 token) # after" and ?a2 = "der 0xA2 (der 4 token)"
  let ?h = "pre @ 0x30 # der_length (length (elements_text ?es))"
  have small: "length (elements_text ?es) < 256 ^ 3" "length (der 4 token) < 256 ^ 3" "length token < 256 ^ 3"
    using assms(5) length_der_ge [of "elements_text ?es" "0x30"] length_der_ge [of token 4] length_der_ge [of "der 4 token" "0xA2"]
    unfolding neg_sequence_def by simp_all
  have seq: "tlv d (length pre) stop = Some (0x30, length ?h, stop)"
    using tlv_der [OF small(1), of pre "0x30" stop rest] unfolding d stop neg_sequence_def by simp
  have d1: "d = ?h @ elements_text before @ ?a2 @ elements_text after @ rest" unfolding d neg_sequence_def der_def [of "0x30"] by simp
  have len: "stop = length (?h @ elements_text before @ ?a2 @ elements_text after)" unfolding stop neg_sequence_def der_def [of "0x30"] by simp
  let ?p = "?h @ elements_text before"
  have "neg_children d stop 8 (length ?h) None = neg_children d stop (length before + (8 - length before)) (length ?h) None"
    using assms(3) by simp
  also have "\<dots> = neg_children d stop (8 - length before) (length ?p) None"
    unfolding d1 by (rule neg_children_skip) (simp_all add: assms(1) len)
  also have "\<dots> = neg_children d stop (Suc (length after + (7 - length before - length after))) (length ?p) None"
    using assms(3) by (intro arg_cong [of _ _ "\<lambda>n. neg_children d stop n (length ?p) None"]) simp
  also have "\<dots> = neg_children d stop (length after + (7 - length before - length after)) (length (?p @ ?a2)) (Some token)"
  proof -
    have d2: "d = ?p @ ?a2 @ elements_text after @ rest" unfolding d1 by simp
    show ?thesis unfolding d2 using small(2) len by (intro neg_children_token) simp_all
  qed
  also have "\<dots> = neg_children d stop (7 - length before - length after) (length ((?p @ ?a2) @ elements_text after)) (Some token)"
  proof -
    have d4: "d = (?p @ ?a2) @ elements_text after @ rest" unfolding d1 by simp
    show ?thesis unfolding d4 by (rule neg_children_skip) (simp_all add: assms(2) len)
  qed
  also have "\<dots> = Some (stop, Some token)"
    using len by (cases "7 - length before - length after") simp_all
  finally show ?thesis using assms(4,6) seq by (auto simp: neg_token_def)
qed

definition envelope_ok :: "elements \<Rightarrow> bytes \<Rightarrow> elements \<Rightarrow> bool" where
  "envelope_ok before token after \<longleftrightarrow>
     elements_ok before \<and> elements_ok after \<and> length before + length after < 8 \<and> has_prefix token NTLM_SIGNATURE"

lemma token_prefix_hd: "d ! 0 \<noteq> p ! 0 \<Longrightarrow> p \<noteq> [] \<Longrightarrow> \<not> has_prefix d p"
  by (cases p; cases d) (auto simp: has_prefix_def)

text \<open>C23: a token in a SPNEGO envelope is unwrapped exactly. From the DER encoding of a \<open>NegTokenInit\<close> (inside its GSS frame) or of a
  \<open>NegTokenResp\<close> of at most 65536 bytes, with any other elements around the token, at most eight in all, the token that
  was put in is returned; and a token without an envelope is returned as it is.\<close>

theorem unwrap_ntlm_envelopes:
  assumes "envelope_ok before token after"
  shows "(length (neg_token_init before token after) \<le> 65536 \<longrightarrow> unwrap_ntlm (neg_token_init before token after) = Some token)
    \<and> (length (neg_token_resp before token after) \<le> 65536 \<longrightarrow> unwrap_ntlm (neg_token_resp before token after) = Some token)
    \<and> (length token \<le> 65536 \<longrightarrow> unwrap_ntlm token = Some token)"
proof (intro conjI)
  let ?s = "neg_sequence before token after"
  have ok: "elements_ok before" "elements_ok after" "length before + length after < 8" "has_prefix token NTLM_SIGNATURE"
    using assms by (simp_all add: envelope_ok_def)
  have sig: "\<not> has_prefix (der tag c) NTLM_SIGNATURE" if "tag \<noteq> 78" for tag c
    using that by (intro token_prefix_hd) (simp_all add: der_def NTLM_SIGNATURE_def ascii_def)
  show "length (neg_token_init before token after) \<le> 65536 \<longrightarrow> unwrap_ntlm (neg_token_init before token after) = Some token"
  proof
    let ?neg = "der 0xA0 ?s" and ?c = "der 6 SPNEGO_OID @ der 0xA0 ?s" and ?t = "neg_token_init before token after"
    assume l: "length ?t \<le> 65536"
    define h where "h = [0x60] @ der_length (length ?c)"
    have small: "length ?c < 256 ^ 3" "length ?s < 256 ^ 3" "length SPNEGO_OID < 256 ^ 3"
      using l length_der_ge [of ?c "0x60"] length_der_ge [of ?s "0xA0"] by (simp_all add: neg_token_init_def SPNEGO_OID_def)
    have t: "?t = h @ ?c" by (simp add: neg_token_init_def der_def [of "0x60"] h_def)
    have outer: "tlv ?t 0 (length ?t) = Some (0x60, length h, length ?t)"
      using tlv_der [OF small(1), of "[]" "0x60" "length ?t" "[]"] by (simp add: neg_token_init_def h_def)
    have oid: "tlv ?t (length h) (length ?t) = Some (6, length h + 2, length h + 8)"
      unfolding t using tlv_der [OF small(3), of h 6 "length (h @ ?c)" ?neg] by (simp add: der_def [of 6] der_length_def SPNEGO_OID_def)
    have content: "py_slice ?t (length h + 2) (length h + 8) = SPNEGO_OID"
      unfolding t by (simp add: py_slice_def der_def [of 6] der_length_def SPNEGO_OID_def)
    define g where "g = h @ der 6 SPNEGO_OID"
    have g: "length g = length h + 8" by (simp add: g_def der_def der_length_def SPNEGO_OID_def)
    define k where "k = g @ 0xA0 # der_length (length ?s)"
    have tg: "?t = g @ ?neg" and tk: "?t = k @ ?s" by (simp_all add: t g_def k_def der_def [of "0xA0"])
    have inner: "tlv ?t (length h + 8) (length ?t) = Some (0xA0, length k, length ?t)"
      using tlv_der [OF small(2), of g "0xA0" "length ?t" "[]"] unfolding tg by (simp add: k_def g)
    have "neg_token ?t (0xA0, length k, length ?t) = Some token"
      using neg_token_sequence [OF ok small(2), of "0xA0" ?t k "[]" "length ?t"] unfolding tk by simp
    then show "unwrap_ntlm ?t = Some token"
      using l outer oid content inner sig [of "0x60" ?c] by (simp add: unwrap_ntlm_def) (simp add: neg_token_init_def)
  qed
  show "length (neg_token_resp before token after) \<le> 65536 \<longrightarrow> unwrap_ntlm (neg_token_resp before token after) = Some token"
  proof
    let ?t = "neg_token_resp before token after"
    assume l: "length ?t \<le> 65536"
    have small: "length ?s < 256 ^ 3" using l length_der_ge [of ?s "0xA1"] by (simp add: neg_token_resp_def)
    define k where "k = [0xA1] @ der_length (length ?s)"
    have tk: "?t = k @ ?s" by (simp add: k_def neg_token_resp_def der_def [of "0xA1"])
    have outer: "tlv ?t 0 (length ?t) = Some (0xA1, length k, length ?t)"
      using tlv_der [OF small, of "[]" "0xA1" "length ?t" "[]"] by (simp add: neg_token_resp_def k_def)
    have "neg_token ?t (0xA1, length k, length ?t) = Some token"
      using neg_token_sequence [OF ok small, of "0xA1" ?t k "[]" "length ?t"] unfolding tk by simp
    then show "unwrap_ntlm ?t = Some token"
      using l outer sig [of "0xA1" ?s] by (simp add: unwrap_ntlm_def) (simp add: neg_token_resp_def)
  qed
  show "length token \<le> 65536 \<longrightarrow> unwrap_ntlm token = Some token" using ok(4) by (simp add: unwrap_ntlm_def)
qed

lemma neg_children_part:
  "neg_children d stop n cursor found = Some (c, Some t) \<Longrightarrow> stop \<le> length d \<Longrightarrow>
   found = Some t \<or> (\<exists>i. i + length t \<le> length d \<and> py_slice d i (i + length t) = t)"
proof (induction n arbitrary: cursor found)
  case (Suc n)
  show ?case
  proof (cases "cursor < stop")
    case False
    then show ?thesis using Suc.prems by simp
  next
    case True
    obtain tag v e where o: "tlv d cursor stop = Some (tag, v, e)" using Suc.prems True by (auto split: option.splits)
    have e: "e \<le> length d" using tlv_inside [OF o] Suc.prems(2) by simp
    show ?thesis
    proof (cases "tag = 0xA2")
      case False
      then show ?thesis using Suc True o by simp
    next
      case a2: True
      obtain iv where i: "tlv d v e = Some (4, iv, e)" "found = None" "neg_children d stop n e (Some (py_slice d iv e)) = Some (c, Some t)"
        using Suc.prems True o a2 by (auto split: option.splits if_splits)
      have "iv \<le> e" using tlv_inside [OF i(1)] by simp
      then have "py_slice d iv e = t \<Longrightarrow> \<exists>i. i + length t \<le> length d \<and> py_slice d i (i + length t) = t"
        using e by (intro exI [of _ iv]) auto
      then show ?thesis using Suc.IH [OF i(3) Suc.prems(2)] by auto
    qed
  qed
qed simp

text \<open>What is unwrapped is a contiguous part of a bounded token and carries the NTLM signature.\<close>

lemma unwrap_ntlm_part:
  assumes "unwrap_ntlm token = Some t"
  shows "length token \<le> 65536 \<and> has_prefix t NTLM_SIGNATURE \<and> (\<exists>i. i + length t \<le> length token \<and> py_slice token i (i + length t) = t)"
proof (cases "has_prefix token NTLM_SIGNATURE")
  case True
  then show ?thesis using assms by (auto simp: unwrap_ntlm_def split: if_splits intro!: exI [of _ 0])
next
  case False
  then obtain x where x: "neg_token token x = Some t" "snd (snd x) \<le> length token"
    using assms by (auto simp: unwrap_ntlm_def split: if_splits option.splits)
  then obtain sv c where "neg_children token (snd (snd x)) 8 sv None = Some (c, Some t)" "has_prefix t NTLM_SIGNATURE"
    by (auto simp: neg_token_def split: prod.splits if_splits option.splits)
  then show ?thesis using neg_children_part x(2) assms by (fastforce simp: unwrap_ntlm_def split: if_splits)
qed

definition sample_token :: bytes where "sample_token = NTLM_SIGNATURE @ [1, 0, 0, 0]"

theorem unwrap_ntlm_envelopes_witness:
  "unwrap_ntlm (neg_token_init [(0xA0, [1, 2])] sample_token [(0xA3, [])]) = Some sample_token
   \<and> unwrap_ntlm (neg_token_resp [(0xA0, [1, 2])] sample_token [(0xA3, [])]) = Some sample_token
   \<and> unwrap_ntlm sample_token = Some sample_token"
proof -
  have ok: "envelope_ok [(0xA0, [1, 2])] sample_token [(0xA3, [])]"
    by (simp add: envelope_ok_def elements_ok_def has_prefix_def sample_token_def)
  have "length (neg_token_init [(0xA0, [1, 2])] sample_token [(0xA3, [])]) \<le> 65536"
    "length (neg_token_resp [(0xA0, [1, 2])] sample_token [(0xA3, [])]) \<le> 65536" "length sample_token \<le> 65536"
    by (simp_all add: neg_token_init_def neg_token_resp_def neg_sequence_def der_def der_length_def sample_token_def NTLM_SIGNATURE_def SPNEGO_OID_def)
  with unwrap_ntlm_envelopes [OF ok] show ?thesis by blast
qed

section \<open>SMB2 headers and sessions as a specification\<close>

text \<open>The places of the protocol identifier, and the session as the code's search means it: the nearest header before the token
  that is a session setup around it, among the last 64.\<close>

definition smb2_ids :: "bytes \<Rightarrow> nat \<Rightarrow> nat \<Rightarrow> nat list" where
  "smb2_ids d lo hi = filter (\<lambda>i. py_slice d i (i + 4) = SMB2_ID) [lo ..< hi]"

definition session_spec :: "bytes \<Rightarrow> nat \<Rightarrow> nat \<Rightarrow> nat option" where
  "session_spec d token_start token_length =
     map_option (\<lambda>h. from_le (py_slice d (h + 40) (h + 48)))
       (find (session_setup_at d token_start token_length)
         (take 64 (rev (smb2_ids d (token_start - 65535) (min token_start (length d) - 3)))))"

lemma SMB2_ID_length [simp]: "length SMB2_ID = 4"
  by (simp add: SMB2_ID_def)

lemma smb2_id_bytes:
  assumes "py_slice d i (i + 4) = SMB2_ID"
  shows "i + 4 \<le> length d" "j < 4 \<Longrightarrow> d ! (i + j) = SMB2_ID ! j"
proof -
  show l: "i + 4 \<le> length d" using arg_cong [OF assms, of length] by simp
  show "d ! (i + j) = SMB2_ID ! j" if "j < 4" using nth_py_slice [of i j "i + 4" d] that l unfolding assms by simp
qed

lemma smb2_ids_apart:
  assumes "py_slice d i (i + 4) = SMB2_ID" "py_slice d h (h + 4) = SMB2_ID" "i < h"
  shows "i + 4 \<le> h"
proof (rule ccontr)
  assume "\<not> i + 4 \<le> h"
  then obtain j where j: "h = i + j" "0 < j" "j < 4" using assms(3) by (metis add_diff_inverse_nat less_diff_conv2 less_imp_le linorder_not_less nat_add_left_cancel_less not_less_iff_gr_or_eq zero_less_diff)
  have "d ! h = SMB2_ID ! j" "d ! h = SMB2_ID ! 0"
    using smb2_id_bytes(2) [OF assms(1) j(3)] smb2_id_bytes(2) [OF assms(2), of 0] j(1) by auto
  moreover have "j \<in> {1, 2, 3}" using j by auto
  moreover have "SMB2_ID ! 1 \<noteq> SMB2_ID ! 0" "SMB2_ID ! 2 \<noteq> SMB2_ID ! 0" "SMB2_ID ! 3 \<noteq> SMB2_ID ! 0" by (simp_all add: SMB2_ID_def ascii_def)
  ultimately show False by auto
qed

lemma find_hd_filter: "find P xs = (case filter P xs of [] \<Rightarrow> None | x # _ \<Rightarrow> Some x)"
  by (induction xs) auto

lemma smb2_ids_before:
  assumes "py_slice d h (h + 4) = SMB2_ID"
  shows "smb2_ids d lo h = smb2_ids d lo (h - 3)"
proof (rule sorted_distinct_set_unique)
  have "i < h - 3" if "i < h" "py_slice d i (i + 4) = SMB2_ID" for i using smb2_ids_apart [OF that(2) assms that(1)] by simp
  then show "set (smb2_ids d lo h) = set (smb2_ids d lo (h - 3))" by (auto simp: smb2_ids_def)
qed (simp_all add: smb2_ids_def sorted_wrt_filter)

lemma smb2_ids_below:
  "rev (smb2_ids d lo hi) = h # rest \<Longrightarrow> py_slice d h (h + 4) = SMB2_ID \<and> rest = rev (smb2_ids d lo (h - 3))"
proof (induction hi)
  case (Suc hi)
  have "smb2_ids d lo (Suc hi) = smb2_ids d lo hi @ (if lo \<le> hi \<and> py_slice d hi (hi + 4) = SMB2_ID then [hi] else [])"
    by (simp add: smb2_ids_def)
  then show ?case using Suc smb2_ids_before [of d hi lo] by (auto split: if_splits)
qed (simp add: smb2_ids_def)

lemma rfind_smb2:
  "rfind_within d SMB2_ID lo cursor = (case rev (smb2_ids d lo (min cursor (length d) - 3)) of [] \<Rightarrow> None | h # _ \<Rightarrow> Some h)"
  by (simp add: rfind_within_def find_hd_filter smb2_ids_def rev_filter [symmetric])

lemma smb2_session_loop_spec:
  "smb2_session_loop d s n k cursor =
     map_option (\<lambda>h. from_le (py_slice d (h + 40) (h + 48)))
       (find (session_setup_at d s n) (take k (rev (smb2_ids d (s - 65535) (min cursor (length d) - 3)))))"
proof (induction k arbitrary: cursor)
  case (Suc k)
  show ?case
  proof (cases "rev (smb2_ids d (s - 65535) (min cursor (length d) - 3))")
    case Nil
    then show ?thesis by (simp add: rfind_smb2)
  next
    case (Cons h rest)
    have h: "py_slice d h (h + 4) = SMB2_ID" "rest = rev (smb2_ids d (s - 65535) (h - 3))" using smb2_ids_below [OF Cons] by blast+
    have "min h (length d) = h" using smb2_id_bytes(1) [OF h(1)] by simp
    then show ?thesis using Suc.IH [of h] Cons h(2) by (simp add: rfind_smb2)
  qed
qed simp

lemma seen_loop_spec:
  "smb2_seen_loop d (find_from d SMB2_ID i) \<longleftrightarrow> (\<exists>h \<ge> i. py_slice d h (h + 4) = SMB2_ID \<and> smb2_header_at d h)"
proof (induction "length d - i" arbitrary: i rule: less_induct)
  case less
  show ?case
  proof (cases "find_from d SMB2_ID i")
    case None
    have "py_slice d h (h + 4) \<noteq> SMB2_ID" if "i \<le> h" for h
      using find_from_None [OF None that] smb2_id_bytes(1) [of d h] by fastforce
    then show ?thesis using None by auto
  next
    case (Some j)
    have j: "i \<le> j" "j + 4 \<le> length d" "py_slice d j (j + 4) = SMB2_ID" using find_from_Some [OF Some] by simp_all
    have ih: "smb2_seen_loop d (find_from d SMB2_ID (j + 4)) \<longleftrightarrow> (\<exists>h \<ge> j + 4. py_slice d h (h + 4) = SMB2_ID \<and> smb2_header_at d h)"
      using j by (intro less) auto
    have "j \<le> h" if "i \<le> h" "py_slice d h (h + 4) = SMB2_ID" for h
      using find_from_least [OF Some that(1)] that(2) by (metis SMB2_ID_length linorder_not_less)
    then have "h = j \<or> j + 4 \<le> h" if "i \<le> h" "py_slice d h (h + 4) = SMB2_ID" for h
      using that smb2_ids_apart [OF j(3) that(2)] by (metis le_neq_implies_less)
    then show ?thesis unfolding Some smb2_seen_loop.simps ih using j(1,3) by (metis add_leD1 le_trans)
  qed
qed


end
