(* ===== verification/Provenance.thy ===== *)
theory Provenance
  imports Models
begin

text \<open>
  The provenance of retained stream bytes (\<open>packet_audit/detectors.py\<close>, the provenance methods of \<open>SensitiveDetector\<close>): which captured
  packets a range of a stream came from, kept as spans. The meaning of a list of spans is the relation between
  positions and tags, and every operation has an equation for it.
\<close>

section \<open>Spans\<close>

definition make_span :: "int \<Rightarrow> int \<Rightarrow> int list \<Rightarrow> bool \<Rightarrow> ProvenanceSpan" where
  "make_span start stop ids complete =
     \<lparr>ps_stream_start = start, ps_stream_end = stop, ps_packet_ids = ids, ps_packet_ids_complete = complete\<rparr>"

definition span_nonempty :: "ProvenanceSpan \<Rightarrow> bool" where
  "span_nonempty s \<longleftrightarrow> ps_stream_end s > ps_stream_start s"

definition normalized_span :: "ProvenanceSpan \<Rightarrow> ProvenanceSpan" where
  "normalized_span s = s\<lparr>ps_packet_ids := from_keys (ps_packet_ids s)\<rparr>"

text \<open>The step that both \<open>_coalesce_provenance\<close> and \<open>_append_direction_provenance\<close> repeat: whether a span continues the last one,
  and the list with it.\<close>

definition continues :: "ProvenanceSpan list \<Rightarrow> ProvenanceSpan \<Rightarrow> bool" where
  "continues result n \<longleftrightarrow>
     result \<noteq> [] \<and> ps_stream_end (last result) = ps_stream_start n \<and> ps_packet_ids (last result) = ps_packet_ids n
     \<and> ps_packet_ids_complete (last result) = ps_packet_ids_complete n"

definition join_span :: "ProvenanceSpan list \<Rightarrow> ProvenanceSpan \<Rightarrow> ProvenanceSpan list" where
  "join_span result s =
     (let n = normalized_span s in
      if continues result n
      then butlast result @ [make_span (ps_stream_start (last result)) (ps_stream_end n) (ps_packet_ids (last result)) (ps_packet_ids_complete (last result))]
      else result @ [n])"

definition coalesce_provenance :: "ProvenanceSpan list \<Rightarrow> ProvenanceSpan list" where
  "coalesce_provenance spans =
     foldl join_span [] (sort_key (\<lambda>s. (ps_stream_start s, ps_stream_end s)) (filter span_nonempty spans))"

fun clip_spans :: "ProvenanceSpan list \<Rightarrow> int \<Rightarrow> int \<Rightarrow> ProvenanceSpan list" where
  "clip_spans [] start stop = []"
| "clip_spans (s # spans) start stop =
     (if ps_stream_end s \<le> start then clip_spans spans start stop
      else if ps_stream_start s \<ge> stop then []
      else make_span (max start (ps_stream_start s)) (min stop (ps_stream_end s)) (ps_packet_ids s) (ps_packet_ids_complete s)
             # clip_spans spans start stop)"

definition clip_provenance :: "ProvenanceSpan list \<Rightarrow> int \<Rightarrow> int \<Rightarrow> ProvenanceSpan list" where
  "clip_provenance spans start stop = coalesce_provenance (clip_spans spans start stop)"

text \<open>What is left of an existing span outside the range that is replaced.\<close>

definition outside_parts :: "int \<Rightarrow> int \<Rightarrow> ProvenanceSpan \<Rightarrow> ProvenanceSpan list" where
  "outside_parts start stop s =
     (if ps_stream_end s \<le> start \<or> ps_stream_start s \<ge> stop then [s]
      else (if ps_stream_start s < start then [make_span (ps_stream_start s) start (ps_packet_ids s) (ps_packet_ids_complete s)] else [])
        @ (if ps_stream_end s > stop then [make_span stop (ps_stream_end s) (ps_packet_ids s) (ps_packet_ids_complete s)] else []))"

definition overlay_provenance :: "ProvenanceSpan list \<Rightarrow> ProvenanceSpan list \<Rightarrow> int \<Rightarrow> int \<Rightarrow> ProvenanceSpan list" where
  "overlay_provenance existing replacement start stop =
     coalesce_provenance (concat (map (outside_parts start stop) existing) @ replacement)"

text \<open>The loop of \<open>_chunk_provenance\<close>: gaps of the supplied spans are filled_gaps with the packets of the chunk, overlaps are cut.\<close>

fun fill_gaps :: "int list \<Rightarrow> int \<Rightarrow> ProvenanceSpan list \<Rightarrow> int \<Rightarrow> ProvenanceSpan list" where
  "fill_gaps fallback stop [] cursor = (if cursor < stop then [make_span cursor stop fallback False] else [])"
| "fill_gaps fallback stop (s # spans) cursor =
     (if ps_stream_start s > cursor then [make_span cursor (ps_stream_start s) fallback False] else [])
     @ (if ps_stream_end s \<le> cursor then fill_gaps fallback stop spans cursor
        else make_span (max cursor (ps_stream_start s)) (ps_stream_end s) (ps_packet_ids s) (ps_packet_ids_complete s)
               # fill_gaps fallback stop spans (ps_stream_end s))"

definition chunk_stop :: "StreamChunk \<Rightarrow> int" where
  "chunk_stop c = sc_stream_offset c + int (length (sc_data c))"

definition chunk_provenance :: "StreamChunk \<Rightarrow> ProvenanceSpan list" where
  "chunk_provenance c =
     (let start = sc_stream_offset c; stop = chunk_stop c; fallback = from_keys (sc_packet_ids c) in
      if sc_provenance_spans c = [] then (if stop > start then [make_span start stop fallback False] else [])
      else coalesce_provenance (fill_gaps fallback stop (clip_provenance (sc_provenance_spans c) start stop) start))"

section \<open>What spans mean\<close>

type_synonym span_tag = "int list \<times> bool"

definition span_tag_of :: "ProvenanceSpan \<Rightarrow> span_tag" where
  "span_tag_of s = (from_keys (ps_packet_ids s), ps_packet_ids_complete s)"

definition span_at :: "ProvenanceSpan \<Rightarrow> int \<Rightarrow> bool" where
  "span_at s p \<longleftrightarrow> ps_stream_start s \<le> p \<and> p < ps_stream_end s"

definition meaning :: "ProvenanceSpan list \<Rightarrow> (int \<times> span_tag) set" where
  "meaning spans = {(p, span_tag_of s) | p s. s \<in> set spans \<and> span_at s p}"

lemma in_meaning: "(p, t) \<in> meaning spans \<longleftrightarrow> (\<exists>s \<in> set spans. span_at s p \<and> t = span_tag_of s)"
  by (auto simp: meaning_def)

lemma meaning_simps [simp]:
  "meaning [] = {}" "meaning (xs @ ys) = meaning xs \<union> meaning ys"
  "meaning (s # ss) = {(p, span_tag_of s) | p. span_at s p} \<union> meaning ss"
  by (auto simp: meaning_def)

lemma make_span_simps [simp]:
  "ps_stream_start (make_span a b ids c) = a" "ps_stream_end (make_span a b ids c) = b"
  "ps_packet_ids (make_span a b ids c) = ids" "ps_packet_ids_complete (make_span a b ids c) = c"
  "span_tag_of (make_span a b ids c) = (from_keys ids, c)" "span_at (make_span a b ids c) p \<longleftrightarrow> a \<le> p \<and> p < b"
  "span_nonempty (make_span a b ids c) \<longleftrightarrow> a < b"
  by (simp_all add: make_span_def span_tag_of_def span_at_def span_nonempty_def)

lemma normalized_span_simps [simp]:
  "ps_stream_start (normalized_span s) = ps_stream_start s" "ps_stream_end (normalized_span s) = ps_stream_end s"
  "ps_packet_ids_complete (normalized_span s) = ps_packet_ids_complete s" "ps_packet_ids (normalized_span s) = from_keys (ps_packet_ids s)"
  "span_tag_of (normalized_span s) = span_tag_of s" "span_at (normalized_span s) p = span_at s p" "span_nonempty (normalized_span s) = span_nonempty s"
  by (simp_all add: normalized_span_def span_tag_of_def span_at_def span_nonempty_def)

definition starts_sorted :: "ProvenanceSpan list \<Rightarrow> bool" where
  "starts_sorted spans \<longleftrightarrow> sorted (map ps_stream_start spans)"

definition spans_wf :: "ProvenanceSpan list \<Rightarrow> bool" where
  "spans_wf spans \<longleftrightarrow> list_all span_nonempty spans \<and> starts_sorted spans"

lemma meaning_join:
  assumes "list_all span_nonempty result" "span_nonempty s"
  shows "meaning (join_span result s) = meaning (result @ [s])"
proof (cases "continues result (normalized_span s)")
  case False
  then show ?thesis by (simp add: join_span_def)
next
  case True
  then obtain front prev where r: "result = front @ [prev]" by (cases result rule: rev_cases) (auto simp: continues_def)
  have prev: "ps_stream_end prev = ps_stream_start s" "span_tag_of prev = span_tag_of s" "span_nonempty prev"
    using True assms(1) by (auto simp: continues_def r span_tag_of_def)
  have "(ps_stream_start prev \<le> p \<and> p < ps_stream_end s) \<longleftrightarrow> span_at prev p \<or> span_at s p" for p
    using prev(1,3) assms(2) by (auto simp: span_at_def span_nonempty_def)
  moreover have "(from_keys (ps_packet_ids prev), ps_packet_ids_complete prev) = span_tag_of s" using prev(2) by (simp add: span_tag_of_def)
  ultimately show ?thesis using True prev(2) by (auto simp: join_span_def r)
qed

lemma join_span_wf:
  assumes "spans_wf result" "span_nonempty s" "\<And>r. r \<in> set result \<Longrightarrow> ps_stream_start r \<le> ps_stream_start s"
  shows "spans_wf (join_span result s)" "r \<in> set (join_span result s) \<Longrightarrow> ps_stream_start r \<le> ps_stream_start s"
proof -
  have "spans_wf (join_span result s) \<and> (r \<in> set (join_span result s) \<longrightarrow> ps_stream_start r \<le> ps_stream_start s)"
  proof (cases "continues result (normalized_span s)")
    case False
    then show ?thesis using assms by (auto simp: join_span_def spans_wf_def starts_sorted_def sorted_append)
  next
    case True
    then obtain front prev where r: "result = front @ [prev]" by (cases result rule: rev_cases) (auto simp: continues_def)
    show ?thesis using True assms
      by (auto simp: join_span_def spans_wf_def starts_sorted_def sorted_append r continues_def span_nonempty_def)
  qed
  then show "spans_wf (join_span result s)" "r \<in> set (join_span result s) \<Longrightarrow> ps_stream_start r \<le> ps_stream_start s" by blast+
qed

lemma joined:
  "spans_wf result \<Longrightarrow> list_all span_nonempty spans \<Longrightarrow> starts_sorted (result @ spans) \<Longrightarrow>
   meaning (foldl join_span result spans) = meaning result \<union> meaning spans \<and> spans_wf (foldl join_span result spans)"
proof (induction spans arbitrary: result)
  case (Cons s spans)
  have le: "r \<in> set result \<Longrightarrow> ps_stream_start r \<le> ps_stream_start s" for r
    using Cons.prems(3) by (auto simp: starts_sorted_def sorted_append)
  have s: "span_nonempty s" "list_all span_nonempty result" using Cons.prems by (auto simp: spans_wf_def)
  note wf = join_span_wf [OF Cons.prems(1) s(1) le]
  have "starts_sorted (join_span result s @ spans)"
    using Cons.prems(3) wf by (fastforce simp: starts_sorted_def sorted_append spans_wf_def)
  then have "meaning (foldl join_span (join_span result s) spans) = meaning (join_span result s) \<union> meaning spans
      \<and> spans_wf (foldl join_span (join_span result s) spans)"
    using Cons.prems(2) wf(1) by (intro Cons.IH) auto
  then show ?case using meaning_join [OF s(2,1)] by auto
qed simp

lemma meaning_filter: "meaning (filter span_nonempty spans) = meaning spans"
  unfolding meaning_def span_at_def span_nonempty_def by fastforce

lemma meaning_set: "set xs = set ys \<Longrightarrow> meaning xs = meaning ys"
  by (simp add: meaning_def)

lemma sort_starts: "starts_sorted (sort_key (\<lambda>s. (ps_stream_start s, ps_stream_end s)) spans)"
proof -
  have "sorted (map (\<lambda>s. (ps_stream_start s, ps_stream_end s)) (sort_key (\<lambda>s. (ps_stream_start s, ps_stream_end s)) spans))" by simp
  then show ?thesis unfolding starts_sorted_def sorted_map
    by (rule sorted_wrt_mono_rel [rotated]) (auto simp: less_eq_prod_def)
qed

lemma coalesced: "meaning (coalesce_provenance spans) = meaning spans \<and> spans_wf (coalesce_provenance spans)"
proof -
  let ?xs = "sort_key (\<lambda>s. (ps_stream_start s, ps_stream_end s)) (filter span_nonempty spans)"
  have "meaning (foldl join_span [] ?xs) = meaning [] \<union> meaning ?xs \<and> spans_wf (foldl join_span [] ?xs)"
    by (rule joined) (simp_all add: spans_wf_def starts_sorted_def [of "[]"] list_all_iff sort_starts)
  moreover have "meaning ?xs = meaning spans" using meaning_set [of ?xs "filter span_nonempty spans"] by (simp add: meaning_filter)
  ultimately show ?thesis by (simp add: coalesce_provenance_def)
qed

lemma clip_spans_meaning:
  "starts_sorted spans \<Longrightarrow> meaning (clip_spans spans start stop) = {(p, t) \<in> meaning spans. start \<le> p \<and> p < stop}"
proof (induction spans)
  case (Cons s spans)
  have sorted: "starts_sorted spans" "\<And>r. r \<in> set spans \<Longrightarrow> ps_stream_start s \<le> ps_stream_start r"
    using Cons.prems by (auto simp: starts_sorted_def)
  show ?case
  proof (cases "ps_stream_start s \<ge> stop \<and> \<not> ps_stream_end s \<le> start")
    case True
    then have "\<not> span_at r p" if "r \<in> set (s # spans)" "p < stop" for r p
      using that sorted(2) by (force simp: span_at_def)
    then have "{(p, t) \<in> meaning (s # spans). start \<le> p \<and> p < stop} = {}" unfolding meaning_def by blast
    with True show ?thesis by simp
  next
    case False
    then show ?thesis using Cons.IH [OF sorted(1)] by (auto simp: span_at_def span_tag_of_def)
  qed
qed simp

lemma clip_spans_part: "meaning (clip_spans spans start stop) \<subseteq> {(p, t) \<in> meaning spans. start \<le> p \<and> p < stop}"
  by (induction spans) (auto simp: span_at_def span_tag_of_def)

lemma clipped_part: "meaning (clip_provenance spans start stop) \<subseteq> {(p, t) \<in> meaning spans. start \<le> p \<and> p < stop}"
  using coalesced [of "clip_spans spans start stop"] clip_spans_part by (auto simp: clip_provenance_def)

lemma clipped:
  "starts_sorted spans \<Longrightarrow>
   meaning (clip_provenance spans start stop) = {(p, t) \<in> meaning spans. start \<le> p \<and> p < stop} \<and> spans_wf (clip_provenance spans start stop)"
  using coalesced [of "clip_spans spans start stop"] by (simp add: clip_provenance_def clip_spans_meaning)

lemma meaning_concat: "meaning (concat xss) = (\<Union>xs \<in> set xss. meaning xs)"
  by (induction xss) auto

lemma overlaid:
  assumes "start \<le> stop"
  shows "meaning (overlay_provenance existing replacement start stop)
      = {(p, t) \<in> meaning existing. p < start \<or> stop \<le> p} \<union> meaning replacement"
    and "spans_wf (overlay_provenance existing replacement start stop)"
proof -
  have "meaning (outside_parts start stop s) = {(p, t) \<in> meaning [s]. p < start \<or> stop \<le> p}" for s
    using assms by (auto simp: outside_parts_def span_at_def span_tag_of_def)
  then have "meaning (concat (map (outside_parts start stop) existing)) = {(p, t) \<in> meaning existing. p < start \<or> stop \<le> p}"
    by (auto simp: meaning_concat in_meaning)
  then show "meaning (overlay_provenance existing replacement start stop)
      = {(p, t) \<in> meaning existing. p < start \<or> stop \<le> p} \<union> meaning replacement"
    "spans_wf (overlay_provenance existing replacement start stop)"
    using coalesced by (simp_all add: overlay_provenance_def)
qed

text \<open>Spans that give every position of a range one tag, and nothing else a tag.\<close>

definition spans_cover :: "ProvenanceSpan list \<Rightarrow> int \<Rightarrow> int \<Rightarrow> bool" where
  "spans_cover spans start stop \<longleftrightarrow>
     spans_wf spans \<and> single_valued (meaning spans) \<and> Domain (meaning spans) = {start ..< stop}"

definition tags_range :: "(int \<times> span_tag) set \<Rightarrow> int \<Rightarrow> int \<Rightarrow> bool" where
  "tags_range m start stop \<longleftrightarrow> single_valued m \<and> Domain m = {start ..< stop}"

lemma tags_range_join:
  assumes "tags_range m a b" "tags_range n b c" "a \<le> b" "b \<le> c"
  shows "tags_range (m \<union> n) a c"
proof -
  have "p < b" if "(p, t) \<in> m" for p t using that assms(1) by (auto simp: tags_range_def dest: DomainI)
  moreover have "b \<le> p" if "(p, t) \<in> n" for p t using that assms(2) by (auto simp: tags_range_def dest: DomainI)
  ultimately have "single_valued (m \<union> n)"
    using assms(1,2) unfolding tags_range_def single_valued_def by (metis Un_iff linorder_not_less)
  moreover have "{a ..< b} \<union> {b ..< c} = {a ..< c}" using assms(3,4) by auto
  ultimately show ?thesis using assms(1,2) by (simp add: tags_range_def Domain_Un_eq)
qed

lemma tags_range_span [simp]: "tags_range {(p, t) | p. a \<le> p \<and> p < b} a b"
  by (auto simp: tags_range_def single_valued_def)

lemma tags_range_empty: "tags_range {} a a"
  by (simp add: tags_range_def single_valued_def)

lemma filled_gaps:
  "list_all span_nonempty spans \<Longrightarrow> (\<forall>s \<in> set spans. ps_stream_end s \<le> stop) \<Longrightarrow> cursor \<le> stop \<Longrightarrow>
   tags_range (meaning (fill_gaps fallback stop spans cursor)) cursor stop"
proof (induction spans arbitrary: cursor)
  case Nil
  then show ?case using tags_range_span [of "(from_keys fallback, False)" cursor stop] tags_range_empty [of cursor] by auto
next
  case (Cons s spans)
  show ?case
  proof (cases "ps_stream_end s \<le> cursor")
    case True
    then have "\<not> ps_stream_start s > cursor" using Cons.prems(1) by (auto simp: span_nonempty_def)
    then show ?thesis using True Cons by simp
  next
    case False
    let ?m = "meaning (fill_gaps fallback stop spans (ps_stream_end s))" and ?start = "max cursor (ps_stream_start s)"
    have "tags_range ?m (ps_stream_end s) stop" using Cons.prems by (intro Cons.IH) auto
    then have "tags_range ({(p, (from_keys (ps_packet_ids s), ps_packet_ids_complete s)) | p. ?start \<le> p \<and> p < ps_stream_end s} \<union> ?m) ?start stop"
      using False Cons.prems by (intro tags_range_join [OF tags_range_span]) (auto simp: span_nonempty_def)
    then have rest: "tags_range (meaning (make_span ?start (ps_stream_end s) (ps_packet_ids s) (ps_packet_ids_complete s)
        # fill_gaps fallback stop spans (ps_stream_end s))) ?start stop" by simp
    show ?thesis
    proof (cases "ps_stream_start s > cursor")
      case True
      have "?start \<le> stop" using Cons.prems by (auto simp: span_nonempty_def)
      then have "tags_range ({(p, (from_keys fallback, False)) | p. cursor \<le> p \<and> p < ?start} \<union> meaning (make_span ?start (ps_stream_end s) (ps_packet_ids s)
          (ps_packet_ids_complete s) # fill_gaps fallback stop spans (ps_stream_end s))) cursor stop"
        using rest by (intro tags_range_join [OF tags_range_span]) auto
      then show ?thesis using True False by (simp add: max_def)
    next
      case no: False
      then show ?thesis using rest False by (simp add: max_def)
    qed
  qed
qed

lemma chunk_covered: "spans_cover (chunk_provenance c) (sc_stream_offset c) (chunk_stop c)"
proof -
  have cover: "spans_cover spans a b \<longleftrightarrow> spans_wf spans \<and> tags_range (meaning spans) a b" for spans a b
    by (simp add: spans_cover_def tags_range_def)
  show ?thesis
  proof (cases "sc_provenance_spans c = []")
    case True
    then show ?thesis
      using tags_range_span [of "(from_keys (sc_packet_ids c), False)"] tags_range_empty [of "sc_stream_offset c"]
      by (auto simp: chunk_provenance_def cover spans_wf_def starts_sorted_def chunk_stop_def Let_def)
  next
    case False
    let ?clip = "clip_provenance (sc_provenance_spans c) (sc_stream_offset c) (chunk_stop c)"
    have clip: "spans_wf ?clip" using coalesced by (simp add: clip_provenance_def)
    have "ps_stream_end s \<le> chunk_stop c" if "s \<in> set ?clip" for s
    proof -
      have "span_nonempty s" using clip that by (simp add: spans_wf_def list_all_iff)
      then have "(ps_stream_end s - 1, span_tag_of s) \<in> meaning ?clip"
        using that by (auto simp: in_meaning span_at_def span_nonempty_def)
      then show ?thesis using clipped_part [of "sc_provenance_spans c" "sc_stream_offset c" "chunk_stop c"] by auto
    qed
    then have "tags_range (meaning (fill_gaps (from_keys (sc_packet_ids c)) (chunk_stop c) ?clip (sc_stream_offset c))) (sc_stream_offset c) (chunk_stop c)"
      using clip by (intro filled_gaps) (auto simp: spans_wf_def chunk_stop_def)
    then show ?thesis using False coalesced by (simp add: chunk_provenance_def cover Let_def)
  qed
qed

end
