(* ===== verification/Detector_Window.thy ===== *)
theory Detector_Window
  imports Provenance
begin

text \<open>
  The window of recent bytes that the detector keeps for each direction of a stream (\<open>packet_audit/detectors.py\<close>, \<open>_merge_stream\<close>):
  how a chunk is merged into it, what is scanned, what is retained, and which packets a finding in it is attributed to.
\<close>

section \<open>Accounting\<close>

text \<open>The counters of the detector that the retained windows change.\<close>

record DetectorCounters =
  dc_provenance_spans :: int
  dc_provenance_packet_id_refs :: int
  dc_peak_provenance_spans :: int
  dc_peak_provenance_packet_id_refs :: int
  dc_retained_tail_bytes :: int
  dc_ntlm_correlation_bytes :: int
  dc_pending_auth_bytes :: int
  dc_peak_retained_tail_bytes :: int
  dc_peak_retained_bytes :: int

record WindowState =
  ds_base_offset :: int
  ds_data :: bytes
  ds_packet_ids :: "int list"
  ds_provenance_spans :: "ProvenanceSpan list"

definition new_window :: WindowState where
  "new_window = \<lparr>ds_base_offset = 0, ds_data = [], ds_packet_ids = [], ds_provenance_spans = []\<rparr>"

definition packet_id_refs :: "ProvenanceSpan list \<Rightarrow> int" where
  "packet_id_refs spans = (\<Sum>s\<leftarrow>spans. int (length (ps_packet_ids s)))"

definition provenance_counts :: "ProvenanceSpan list \<Rightarrow> int \<times> int" where
  "provenance_counts spans = (int (length spans), packet_id_refs spans)"

definition provenance_peaks :: "DetectorCounters \<Rightarrow> DetectorCounters" where
  "provenance_peaks k = k\<lparr>dc_peak_provenance_spans := max (dc_peak_provenance_spans k) (dc_provenance_spans k),
     dc_peak_provenance_packet_id_refs := max (dc_peak_provenance_packet_id_refs k) (dc_provenance_packet_id_refs k)\<rparr>"

definition replace_direction_provenance ::
  "DetectorCounters \<Rightarrow> WindowState \<Rightarrow> ProvenanceSpan list \<Rightarrow> DetectorCounters \<times> WindowState" where
  "replace_direction_provenance k d spans =
     (let (old_count, old_refs) = provenance_counts (ds_provenance_spans d); normalized = coalesce_provenance spans;
          (new_count, new_refs) = provenance_counts normalized in
      (provenance_peaks (k\<lparr>dc_provenance_spans := max 0 (dc_provenance_spans k + (new_count - old_count)),
         dc_provenance_packet_id_refs := max 0 (dc_provenance_packet_id_refs k + (new_refs - old_refs))\<rparr>),
       d\<lparr>ds_provenance_spans := normalized\<rparr>))"

text \<open>One round of the loop of \<open>_append_direction_provenance\<close>.\<close>

definition append_window_span :: "DetectorCounters \<times> WindowState \<Rightarrow> ProvenanceSpan \<Rightarrow> DetectorCounters \<times> WindowState" where
  "append_window_span = (\<lambda>(k, d) s.
     let n = normalized_span s in
     if \<not> span_nonempty n then (k, d)
     else if continues (ds_provenance_spans d) n then (k, d\<lparr>ds_provenance_spans := join_span (ds_provenance_spans d) s\<rparr>)
     else (k\<lparr>dc_provenance_spans := dc_provenance_spans k + 1,
             dc_provenance_packet_id_refs := dc_provenance_packet_id_refs k + int (length (ps_packet_ids n))\<rparr>,
           d\<lparr>ds_provenance_spans := join_span (ds_provenance_spans d) s\<rparr>))"

definition append_direction_provenance ::
  "DetectorCounters \<Rightarrow> WindowState \<Rightarrow> ProvenanceSpan list \<Rightarrow> DetectorCounters \<times> WindowState" where
  "append_direction_provenance k d spans = (case foldl append_window_span (k, d) spans of (k1, d1) \<Rightarrow> (provenance_peaks k1, d1))"

definition retained_bytes :: "DetectorCounters \<Rightarrow> int" where
  "retained_bytes k = dc_retained_tail_bytes k + dc_ntlm_correlation_bytes k + dc_pending_auth_bytes k"

definition record_retained_peaks :: "DetectorCounters \<Rightarrow> DetectorCounters" where
  "record_retained_peaks k = k\<lparr>dc_peak_retained_tail_bytes := max (dc_peak_retained_tail_bytes k) (dc_retained_tail_bytes k),
     dc_peak_retained_bytes := max (dc_peak_retained_bytes k) (retained_bytes k)\<rparr>"

section \<open>The window of a direction\<close>

record ScanWindow =
  sw_base_offset :: int
  sw_data :: bytes
  sw_provenance_spans :: "ProvenanceSpan list"

text \<open>\<open>bs[-n:]\<close>, and the assignment \<open>bs[i:i + len(xs)] = xs\<close>.\<close>

definition tail_slice :: "nat \<Rightarrow> 'a list \<Rightarrow> 'a list" where
  "tail_slice n xs = (if n = 0 then xs else drop (length xs - n) xs)"

definition put_slice :: "'a list \<Rightarrow> nat \<Rightarrow> 'a list \<Rightarrow> 'a list" where
  "put_slice xs i ys = take i xs @ ys @ drop (i + length ys) xs"

definition data_stop :: "WindowState \<Rightarrow> int" where
  "data_stop d = ds_base_offset d + int (length (ds_data d))"

text \<open>Keeping the end of a window: the data, its offset, and the provenance clipped to it.\<close>

definition retain ::
  "DetectorCounters \<Rightarrow> WindowState \<Rightarrow> int \<Rightarrow> bytes \<Rightarrow> ProvenanceSpan list \<Rightarrow> DetectorCounters \<times> WindowState" where
  "retain k d base kept spans =
     replace_direction_provenance k (d\<lparr>ds_base_offset := base, ds_data := kept\<rparr>) (clip_provenance spans base (base + int (length kept)))"

definition trim_slack :: "nat \<Rightarrow> nat" where
  "trim_slack overlap = min (64 * 1024) (max 4096 (overlap div 4))"

text \<open>The first window of a direction, and an island after a hole.\<close>

definition merge_fresh :: "nat \<Rightarrow> DetectorCounters \<Rightarrow> WindowState \<Rightarrow> StreamChunk \<Rightarrow> DetectorCounters \<times> WindowState \<times> ScanWindow" where
  "merge_fresh overlap k d c =
     (let spans = chunk_provenance c; w = \<lparr>sw_base_offset = sc_stream_offset c, sw_data = sc_data c, sw_provenance_spans = spans\<rparr> in
      if length (sc_data c) \<le> overlap then
        (case retain k (d\<lparr>ds_packet_ids := from_keys (sc_packet_ids c)\<rparr>) (sc_stream_offset c) (sc_data c) spans of (k1, d1) \<Rightarrow> (k1, d1, w))
      else
        (case retain k (d\<lparr>ds_packet_ids := from_keys (sc_packet_ids c)\<rparr>) (chunk_stop c - int overlap) (tail_slice overlap (sc_data c)) spans of
           (k1, d1) \<Rightarrow> (k1, d1, w)))"

definition merge_island :: "nat \<Rightarrow> DetectorCounters \<Rightarrow> WindowState \<Rightarrow> StreamChunk \<Rightarrow> DetectorCounters \<times> WindowState \<times> ScanWindow" where
  "merge_island overlap k d c =
     (let spans = chunk_provenance c; kept = tail_slice overlap (sc_data c) in
      case retain k (d\<lparr>ds_packet_ids := from_keys (sc_packet_ids c)\<rparr>) (chunk_stop c - int (length kept)) kept spans of
        (k1, d1) \<Rightarrow> (k1, d1, \<lparr>sw_base_offset = sc_stream_offset c, sw_data = sc_data c, sw_provenance_spans = spans\<rparr>))"

text \<open>The in-order path.\<close>

definition merge_in_order :: "nat \<Rightarrow> DetectorCounters \<Rightarrow> WindowState \<Rightarrow> StreamChunk \<Rightarrow> DetectorCounters \<times> WindowState \<times> ScanWindow" where
  "merge_in_order overlap k d c =
     (case append_direction_provenance k (d\<lparr>ds_data := ds_data d @ sc_data c\<rparr>) (chunk_provenance c) of
        (k1, d1) \<Rightarrow>
          (if length (sc_data c) > overlap then
             (let w = \<lparr>sw_base_offset = ds_base_offset d, sw_data = ds_data d1, sw_provenance_spans = ds_provenance_spans d1\<rparr>;
                  kept = tail_slice overlap (sc_data c) in
              case retain k1 d1 (chunk_stop c - int (length kept)) kept (ds_provenance_spans d1) of
                (k2, d2) \<Rightarrow> (k2, d2\<lparr>ds_packet_ids := from_keys (sc_packet_ids c)\<rparr>, w))
           else
             (case (if length (ds_data d1) > overlap + trim_slack overlap
                    then (let overflow = length (ds_data d1) - overlap in
                          retain k1 d1 (ds_base_offset d1 + int overflow) (drop overflow (ds_data d1)) (ds_provenance_spans d1))
                    else (k1, d1)) of
                (k2, d2) \<Rightarrow>
                  (k2, d2\<lparr>ds_packet_ids := from_keys (sc_packet_ids c)\<rparr>,
                   \<lparr>sw_base_offset = ds_base_offset d2, sw_data = ds_data d2, sw_provenance_spans = ds_provenance_spans d2\<rparr>))))"

text \<open>A chunk that overlaps or touches the window from before.\<close>

definition merge_overlap :: "nat \<Rightarrow> DetectorCounters \<Rightarrow> WindowState \<Rightarrow> StreamChunk \<Rightarrow> DetectorCounters \<times> WindowState \<times> ScanWindow" where
  "merge_overlap overlap k d c =
     (let start = sc_stream_offset c; stop = chunk_stop c; old_start = ds_base_offset d; old_stop = data_stop d;
          scan_start = min old_start start; scan_stop = max old_stop stop;
          merged = put_slice (put_slice (replicate (nat (scan_stop - scan_start)) 0) (nat (old_start - scan_start)) (ds_data d))
                     (nat (start - scan_start)) (sc_data c);
          spans = overlay_provenance (ds_provenance_spans d) (chunk_provenance c) start stop;
          w = \<lparr>sw_base_offset = scan_start, sw_data = merged, sw_provenance_spans = clip_provenance spans scan_start scan_stop\<rparr> in
      if stop \<ge> old_stop then
        (let kept = tail_slice overlap merged in
         case retain k (d\<lparr>ds_packet_ids := from_keys (sc_packet_ids c)\<rparr>) (scan_start + int (length merged) - int (length kept)) kept spans of
           (k1, d1) \<Rightarrow> (k1, d1, w))
      else (k, d, w))"

text \<open>\<open>_merge_stream\<close>, without the eviction of other flows at its end (\<open>_enforce_provenance_cap\<close>).\<close>

definition merge_stream :: "nat \<Rightarrow> DetectorCounters \<Rightarrow> WindowState \<Rightarrow> StreamChunk \<Rightarrow> DetectorCounters \<times> WindowState \<times> ScanWindow" where
  "merge_stream overlap k d c =
     (let start = sc_stream_offset c; stop = chunk_stop c; old_start = ds_base_offset d; old_stop = data_stop d in
      case (if ds_data d = [] then merge_fresh overlap k d c
            else if start \<ge> old_start \<and> stop \<le> old_stop
                    \<and> py_slice (ds_data d) (nat (start - old_start)) (nat (stop - old_start)) = sc_data c
            then (k, d, \<lparr>sw_base_offset = start, sw_data = [], sw_provenance_spans = []\<rparr>)
            else if start > old_stop \<or> stop < old_start then merge_island overlap k d c
            else if start = old_stop then merge_in_order overlap k d c
            else merge_overlap overlap k d c) of
        (k1, d1, w) \<Rightarrow>
          (record_retained_peaks (k1\<lparr>dc_retained_tail_bytes :=
             dc_retained_tail_bytes k1 + (int (length (ds_data d1)) - int (length (ds_data d)))\<rparr>), d1, w))"

section \<open>What a window holds\<close>

text \<open>The cells of a window: a position of the stream, its byte and the tag of its provenance.\<close>

type_synonym stream_cell = "int \<times> byte \<times> span_tag"

definition cells :: "int \<Rightarrow> bytes \<Rightarrow> ProvenanceSpan list \<Rightarrow> stream_cell set" where
  "cells base bs spans = {(p, b, t). base \<le> p \<and> p < base + int (length bs) \<and> b = bs ! nat (p - base) \<and> (p, t) \<in> meaning spans}"

definition window_cells :: "WindowState \<Rightarrow> stream_cell set" where
  "window_cells d = cells (ds_base_offset d) (ds_data d) (ds_provenance_spans d)"

definition scan_cells :: "ScanWindow \<Rightarrow> stream_cell set" where
  "scan_cells w = cells (sw_base_offset w) (sw_data w) (sw_provenance_spans w)"

definition chunk_cells :: "StreamChunk \<Rightarrow> stream_cell set" where
  "chunk_cells c = cells (sc_stream_offset c) (sc_data c) (chunk_provenance c)"

definition source_ok :: "int \<Rightarrow> bytes \<Rightarrow> ProvenanceSpan list \<Rightarrow> bool" where
  "source_ok base bs spans \<longleftrightarrow> spans_cover spans base (base + int (length bs))"

definition window_ok :: "WindowState \<Rightarrow> bool" where
  "window_ok d \<longleftrightarrow> source_ok (ds_base_offset d) (ds_data d) (ds_provenance_spans d)"

lemma spans_cover_iff: "spans_cover spans a b \<longleftrightarrow> spans_wf spans \<and> tags_range (meaning spans) a b"
  by (simp add: spans_cover_def tags_range_def)

lemma tags_range_cut:
  assumes "tags_range m a b" "a \<le> a'"
  shows "tags_range {(p, t) \<in> m. a' \<le> p \<and> p < b} a' b"
proof -
  have "Domain {(p, t) \<in> m. a' \<le> p \<and> p < b} = {a' ..< b}" using assms by (force simp: tags_range_def Domain_iff)
  moreover have "single_valued {(p, t) \<in> m. a' \<le> p \<and> p < b}"
    using assms(1) by (auto simp: tags_range_def elim: single_valued_subset [rotated])
  ultimately show ?thesis by (simp add: tags_range_def)
qed

lemma nat_shift: "b + int n \<le> p \<Longrightarrow> n + nat (p - (b + int n)) = nat (p - b)"
  by arith

lemma retained:
  assumes "source_ok base bs spans" "n \<le> length bs" "retain k d (base + int n) (drop n bs) spans = (k1, d1)"
  shows "window_ok d1" "window_cells d1 = {(p, b, t) \<in> cells base bs spans. base + int n \<le> p}"
    "ds_data d1 = drop n bs" "ds_base_offset d1 = base + int n" "ds_packet_ids d1 = ds_packet_ids d"
proof -
  let ?b = "base + int n" and ?e = "base + int (length bs)"
  have e: "?b + int (length (drop n bs)) = ?e" using assms(2) by simp
  have wf: "starts_sorted spans" using assms(1) by (simp add: source_ok_def spans_cover_def spans_wf_def)
  have d1: "d1 = d\<lparr>ds_base_offset := ?b, ds_data := drop n bs, ds_provenance_spans := coalesce_provenance (clip_provenance spans ?b ?e)\<rparr>"
    using assms(3) unfolding retain_def e by (auto simp: replace_direction_provenance_def Let_def split: prod.splits)
  have m: "meaning (ds_provenance_spans d1) = {(p, t) \<in> meaning spans. ?b \<le> p \<and> p < ?e}" "spans_wf (ds_provenance_spans d1)"
    using coalesced clipped [OF wf] by (simp_all add: d1)
  have "tags_range (meaning spans) base ?e" using assms(1) by (simp add: source_ok_def spans_cover_iff)
  then have "tags_range {(p, t) \<in> meaning spans. ?b \<le> p \<and> p < ?e} ?b ?e" by (rule tags_range_cut) simp
  then show "window_ok d1" using m e by (simp add: window_ok_def source_ok_def spans_cover_iff d1)
  show "window_cells d1 = {(p, b, t) \<in> cells base bs spans. base + int n \<le> p}"
    unfolding window_cells_def cells_def m(1) using assms(2) nat_shift [of base n] by (auto simp: d1)
  show "ds_data d1 = drop n bs" "ds_base_offset d1 = base + int n" "ds_packet_ids d1 = ds_packet_ids d" by (simp_all add: d1)
qed

lemma chunk_source: "source_ok (sc_stream_offset c) (sc_data c) (chunk_provenance c)"
  using chunk_covered [of c] by (simp add: source_ok_def chunk_stop_def)

lemma append_spans_join: "snd (foldl append_window_span (k, d) spans) = d\<lparr>ds_provenance_spans := foldl join_span (ds_provenance_spans d) (filter span_nonempty spans)\<rparr>"
proof (induction spans arbitrary: k d)
  case (Cons s spans)
  obtain k1 d1 where a: "append_window_span (k, d) s = (k1, d1)" by (rule prod.exhaust)
  then have "d1 = (if span_nonempty s then d\<lparr>ds_provenance_spans := join_span (ds_provenance_spans d) s\<rparr> else d)"
    by (auto simp: append_window_span_def Let_def split: if_splits)
  then show ?case by (simp add: Cons.IH a)
qed simp

lemma appended:
  assumes "source_ok base bs (ds_provenance_spans d)" "source_ok (base + int (length bs)) cs spans"
    and "append_direction_provenance k d spans = (k1, d1)"
  shows "source_ok base (bs @ cs) (ds_provenance_spans d1)"
    "meaning (ds_provenance_spans d1) = meaning (ds_provenance_spans d) \<union> meaning spans"
    "d1 = d\<lparr>ds_provenance_spans := ds_provenance_spans d1\<rparr>"
proof -
  have d1: "d1 = d\<lparr>ds_provenance_spans := foldl join_span (ds_provenance_spans d) (filter span_nonempty spans)\<rparr>"
    using assms(3) append_spans_join [of k d spans] by (auto simp: append_direction_provenance_def split: prod.splits)
  have ne: "filter span_nonempty spans = spans"
    using assms(2) by (simp add: source_ok_def spans_cover_def spans_wf_def list_all_iff filter_id_conv)
  have wf: "spans_wf (ds_provenance_spans d)" "spans_wf spans" using assms(1,2) by (simp_all add: source_ok_def spans_cover_def)
  have r: "tags_range (meaning (ds_provenance_spans d)) base (base + int (length bs))"
    "tags_range (meaning spans) (base + int (length bs)) (base + int (length bs) + int (length cs))"
    using assms(1,2) by (simp_all add: source_ok_def spans_cover_iff)
  have lt: "ps_stream_start s < base + int (length bs)" if "s \<in> set (ds_provenance_spans d)" for s
  proof -
    have "span_nonempty s" using wf(1) that by (simp add: spans_wf_def list_all_iff)
    then have "(ps_stream_start s, span_tag_of s) \<in> meaning (ds_provenance_spans d)"
      using that by (auto simp: in_meaning span_at_def span_nonempty_def)
    then show ?thesis using r(1) by (auto simp: tags_range_def dest: DomainI)
  qed
  have ge: "base + int (length bs) \<le> ps_stream_start s" if "s \<in> set spans" for s
  proof -
    have "span_nonempty s" using wf(2) that by (simp add: spans_wf_def list_all_iff)
    then have "(ps_stream_start s, span_tag_of s) \<in> meaning spans"
      using that by (auto simp: in_meaning span_at_def span_nonempty_def)
    then show ?thesis using r(2) by (auto simp: tags_range_def dest: DomainI)
  qed
  have "starts_sorted (ds_provenance_spans d @ spans)"
    using wf lt ge by (force simp: starts_sorted_def sorted_append spans_wf_def)
  then have j: "meaning (foldl join_span (ds_provenance_spans d) spans) = meaning (ds_provenance_spans d) \<union> meaning spans
      \<and> spans_wf (foldl join_span (ds_provenance_spans d) spans)"
    using wf by (intro joined) (simp_all add: spans_wf_def)
  then show "meaning (ds_provenance_spans d1) = meaning (ds_provenance_spans d) \<union> meaning spans" by (simp add: d1 ne)
  show "source_ok base (bs @ cs) (ds_provenance_spans d1)"
    using j tags_range_join [OF r] by (simp add: d1 ne source_ok_def spans_cover_iff add.assoc)
  show "d1 = d\<lparr>ds_provenance_spans := ds_provenance_spans d1\<rparr>" by (simp add: d1)
qed

lemma tail_slice_drop: "0 < n \<Longrightarrow> tail_slice n xs = drop (length xs - n) xs"
  by (simp add: tail_slice_def)

text \<open>What one step leaves: an exact window, an exact scan window, and only cells of the chunk and of the old window.\<close>

definition step_ok :: "nat \<Rightarrow> WindowState \<Rightarrow> StreamChunk \<Rightarrow> WindowState \<Rightarrow> ScanWindow \<Rightarrow> bool" where
  "step_ok overlap d c d1 w \<longleftrightarrow>
     window_ok d1 \<and> source_ok (sw_base_offset w) (sw_data w) (sw_provenance_spans w)
     \<and> scan_cells w \<subseteq> chunk_cells c \<union> window_cells d \<and> window_cells d1 \<subseteq> chunk_cells c \<union> window_cells d
     \<and> chunk_cells c \<subseteq> scan_cells w"

lemma merge_fresh_ok:
  assumes "0 < overlap" "merge_fresh overlap k d c = (k1, d1, w)"
  shows "step_ok overlap d c d1 w"
proof -
  let ?n = "if length (sc_data c) \<le> overlap then 0 else length (sc_data c) - overlap"
  have w: "w = \<lparr>sw_base_offset = sc_stream_offset c, sw_data = sc_data c, sw_provenance_spans = chunk_provenance c\<rparr>"
    using assms(2) by (auto simp: merge_fresh_def Let_def split: if_splits prod.splits)
  have "retain k (d\<lparr>ds_packet_ids := from_keys (sc_packet_ids c)\<rparr>) (sc_stream_offset c + int ?n) (drop ?n (sc_data c)) (chunk_provenance c) = (k1, d1)"
    using assms by (auto simp: merge_fresh_def Let_def tail_slice_drop chunk_stop_def of_nat_diff algebra_simps split: if_splits prod.splits)
  note r = retained [OF chunk_source _ this]
  have "window_ok d1" "window_cells d1 \<subseteq> chunk_cells c" using r(1,2) by (auto simp: chunk_cells_def split: if_splits)
  then show ?thesis using chunk_source by (auto simp: step_ok_def w scan_cells_def chunk_cells_def)
qed

lemma merge_island_ok:
  assumes "0 < overlap" "merge_island overlap k d c = (k1, d1, w)"
  shows "step_ok overlap d c d1 w"
proof -
  let ?n = "length (sc_data c) - overlap"
  have w: "w = \<lparr>sw_base_offset = sc_stream_offset c, sw_data = sc_data c, sw_provenance_spans = chunk_provenance c\<rparr>"
    using assms(2) by (auto simp: merge_island_def Let_def split: prod.splits)
  have e: "chunk_stop c - int (length (tail_slice overlap (sc_data c))) = sc_stream_offset c + int ?n"
    using assms(1) by (simp add: tail_slice_drop chunk_stop_def)
  have "retain k (d\<lparr>ds_packet_ids := from_keys (sc_packet_ids c)\<rparr>) (sc_stream_offset c + int ?n) (drop ?n (sc_data c)) (chunk_provenance c) = (k1, d1)"
    using assms(2) unfolding merge_island_def Let_def e unfolding tail_slice_drop [OF assms(1)] by (auto split: prod.splits)
  note r = retained [OF chunk_source _ this]
  have "window_ok d1" "window_cells d1 \<subseteq> chunk_cells c" using r(1,2) by (auto simp: chunk_cells_def)
  then show ?thesis using chunk_source by (auto simp: step_ok_def w scan_cells_def chunk_cells_def)
qed

lemma cells_append:
  assumes "source_ok base bs spans" "source_ok (base + int (length bs)) cs spans'" "meaning all = meaning spans \<union> meaning spans'"
  shows "cells base (bs @ cs) all = cells base bs spans \<union> cells (base + int (length bs)) cs spans'"
proof -
  have r: "tags_range (meaning spans) base (base + int (length bs))"
    "tags_range (meaning spans') (base + int (length bs)) (base + int (length bs) + int (length cs))"
    using assms(1,2) by (simp_all add: source_ok_def spans_cover_iff)
  have left: "base \<le> p \<and> p < base + int (length bs)" if "(p, t) \<in> meaning spans" for p t
    using that r(1) by (auto simp: tags_range_def dest: DomainI)
  have right: "base + int (length bs) \<le> p \<and> p < base + int (length bs) + int (length cs)" if "(p, t) \<in> meaning spans'" for p t
    using that r(2) by (auto simp: tags_range_def dest: DomainI)
  have "(p, b, t) \<in> cells base (bs @ cs) all \<longleftrightarrow> (p, b, t) \<in> cells base bs spans \<union> cells (base + int (length bs)) cs spans'" for p b t
  proof (cases "p < base + int (length bs)")
    case True
    then have "base \<le> p \<Longrightarrow> (bs @ cs) ! nat (p - base) = bs ! nat (p - base)" by (simp add: nth_append nat_less_iff)
    then show ?thesis using True right [of p t] by (auto simp: cells_def assms(3))
  next
    case False
    then have "(bs @ cs) ! nat (p - base) = cs ! nat (p - (base + int (length bs)))"
      using nat_shift [of base "length bs" p] by (metis linorder_not_less nth_append_length_plus)
    then show ?thesis using False left [of p t] by (auto simp: cells_def assms(3))
  qed
  then show ?thesis by auto
qed

lemma merge_in_order_ok:
  assumes "0 < overlap" "window_ok d" "sc_stream_offset c = data_stop d" "merge_in_order overlap k d c = (k1, d1, w)"
  shows "step_ok overlap d c d1 w"
proof -
  obtain k0 d0 where a: "append_direction_provenance k (d\<lparr>ds_data := ds_data d @ sc_data c\<rparr>) (chunk_provenance c) = (k0, d0)" by (rule prod.exhaust)
  have src: "source_ok (ds_base_offset d) (ds_data d) (ds_provenance_spans d)" using assms(2) by (simp add: window_ok_def)
  have chunk: "source_ok (ds_base_offset d + int (length (ds_data d))) (sc_data c) (chunk_provenance c)"
    using chunk_source [of c] assms(3) by (simp add: data_stop_def)
  note ap = appended [of "ds_base_offset d" "ds_data d" "d\<lparr>ds_data := ds_data d @ sc_data c\<rparr>", simplified, OF src chunk a]
  have d0: "ds_base_offset d0 = ds_base_offset d" "ds_data d0 = ds_data d @ sc_data c" using ap(3) by (metis WindowState.select_convs WindowState.surjective WindowState.update_convs)+
  have all: "cells (ds_base_offset d) (ds_data d @ sc_data c) (ds_provenance_spans d0) = window_cells d \<union> chunk_cells c"
    using cells_append [OF src chunk ap(2)] assms(3) by (simp add: window_cells_def chunk_cells_def data_stop_def)
  have ids: "window_cells (d'\<lparr>ds_packet_ids := ids\<rparr>) = window_cells d'" "window_ok (d'\<lparr>ds_packet_ids := ids\<rparr>) = window_ok d'" for d' ids
    by (simp_all add: window_cells_def window_ok_def)
  show ?thesis
  proof (cases "length (sc_data c) > overlap")
    case True
    let ?n = "length (ds_data d) + (length (sc_data c) - overlap)" and ?kept = "tail_slice overlap (sc_data c)"
    have kept: "?kept = drop ?n (ds_data d @ sc_data c)" "chunk_stop c - int (length ?kept) = ds_base_offset d + int ?n"
      using True assms(1,3) by (simp_all add: tail_slice_drop chunk_stop_def data_stop_def)
    obtain k2 d2 where r: "retain k0 d0 (ds_base_offset d + int ?n) (drop ?n (ds_data d @ sc_data c)) (ds_provenance_spans d0) = (k2, d2)"
      by (rule prod.exhaust)
    have res: "d1 = d2\<lparr>ds_packet_ids := from_keys (sc_packet_ids c)\<rparr>"
      "w = \<lparr>sw_base_offset = ds_base_offset d, sw_data = ds_data d @ sc_data c, sw_provenance_spans = ds_provenance_spans d0\<rparr>"
      using assms(4) True unfolding merge_in_order_def a prod.case d0 Let_def kept(2) unfolding kept(1) r by auto
    have "?n \<le> length (ds_data d @ sc_data c)" by simp
    note rt = retained [OF ap(1) this r]
    show ?thesis using rt(1,2) ap(1) all by (auto simp: step_ok_def res ids scan_cells_def)
  next
    case False
    define n where "n = (if length (ds_data d0) > overlap + trim_slack overlap then length (ds_data d0) - overlap else 0)"
    obtain k2 d2 where d2: "window_ok d2" "window_cells d2 = {(p, b, t) \<in> window_cells d \<union> chunk_cells c. ds_base_offset d + int n \<le> p}"
      and res: "d1 = d2\<lparr>ds_packet_ids := from_keys (sc_packet_ids c)\<rparr>"
      "w = \<lparr>sw_base_offset = ds_base_offset d2, sw_data = ds_data d2, sw_provenance_spans = ds_provenance_spans d2\<rparr>"
    proof (cases "length (ds_data d0) > overlap + trim_slack overlap")
      case trim: True
      obtain k2 d2 where r: "retain k0 d0 (ds_base_offset d + int n) (drop n (ds_data d @ sc_data c)) (ds_provenance_spans d0) = (k2, d2)"
        by (rule prod.exhaust)
      have "n \<le> length (ds_data d @ sc_data c)" using d0 by (simp add: n_def)
      note rt = retained [OF ap(1) this r]
      show thesis
        using rt(1,2) assms(4) a False trim r d0 all unfolding merge_in_order_def
        by (intro that [of d2]) (simp_all add: Let_def n_def)
    next
      case no: False
      have "window_ok d0" using ap(1) d0 by (simp add: window_ok_def)
      moreover have "window_cells d0 = {(p, b, t) \<in> window_cells d \<union> chunk_cells c. ds_base_offset d + int n \<le> p}"
        using all no by (auto simp: window_cells_def d0 n_def cells_def)
      ultimately show thesis
        using assms(4) a False no d0 unfolding merge_in_order_def
        by (intro that [of d0]) (simp_all add: Let_def)
    qed
    have "chunk_cells c \<subseteq> window_cells d2"
    proof -
      have "ds_base_offset d + int n \<le> p" if "(p, b, t) \<in> chunk_cells c" for p b t
        using that False assms(3) d0 by (auto simp: chunk_cells_def cells_def n_def data_stop_def)
      then show ?thesis using d2(2) by auto
    qed
    then show ?thesis using d2 by (auto simp: step_ok_def res ids scan_cells_def window_cells_def window_ok_def)
  qed
qed

lemma put_slice_props:
  assumes "i + length ys \<le> length xs"
  shows "length (put_slice xs i ys) = length xs" "j < length xs \<Longrightarrow> put_slice xs i ys ! j = (if i \<le> j \<and> j < i + length ys then ys ! (j - i) else xs ! j)"
  using assms by (auto simp: put_slice_def nth_append min_def)

text \<open>Two touching ranges, the second written over the first.\<close>

lemma merged_bytes:
  assumes "a \<le> a + int (length xs)" "b \<le> a + int (length xs)" "a \<le> b + int (length ys)"
    and lo: "lo = min a b" and hi: "hi = max (a + int (length xs)) (b + int (length ys))"
    and m: "m = put_slice (put_slice (replicate (nat (hi - lo)) 0) (nat (a - lo)) xs) (nat (b - lo)) ys"
  shows "int (length m) = hi - lo"
    and "lo \<le> p \<Longrightarrow> p < hi \<Longrightarrow> m ! nat (p - lo) = (if b \<le> p \<and> p < b + int (length ys) then ys ! nat (p - b) else xs ! nat (p - a))"
proof -
  have fit1: "nat (a - lo) + length xs \<le> nat (hi - lo)" and fit2: "nat (b - lo) + length ys \<le> nat (hi - lo)" unfolding lo hi by arith+
  let ?m1 = "put_slice (replicate (nat (hi - lo)) 0) (nat (a - lo)) xs"
  have m1: "length ?m1 = nat (hi - lo)" "j < nat (hi - lo) \<Longrightarrow> ?m1 ! j = (if nat (a - lo) \<le> j \<and> j < nat (a - lo) + length xs then xs ! (j - nat (a - lo)) else 0)" for j
    using put_slice_props [of "nat (a - lo)" xs "replicate (nat (hi - lo)) 0"] fit1 by auto
  have m2: "length m = nat (hi - lo)" "j < nat (hi - lo) \<Longrightarrow> m ! j = (if nat (b - lo) \<le> j \<and> j < nat (b - lo) + length ys then ys ! (j - nat (b - lo)) else ?m1 ! j)" for j
    using put_slice_props [of "nat (b - lo)" ys ?m1] fit2 m1(1) by (auto simp: m)
  show "int (length m) = hi - lo" using m2(1) unfolding lo hi by (simp add: max_def min_def)
  assume p: "lo \<le> p" "p < hi"
  have j: "nat (p - lo) < nat (hi - lo)" using p by simp
  show "m ! nat (p - lo) = (if b \<le> p \<and> p < b + int (length ys) then ys ! nat (p - b) else xs ! nat (p - a))"
  proof (cases "b \<le> p \<and> p < b + int (length ys)")
    case True
    then have "nat (b - lo) \<le> nat (p - lo)" "nat (p - lo) < nat (b - lo) + length ys" "nat (p - lo) - nat (b - lo) = nat (p - b)"
      using lo by arith+
    then show ?thesis using True m2(2) [OF j] by simp
  next
    case False
    have in_a: "a \<le> p \<and> p < a + int (length xs)" using False p assms(2,3) unfolding lo hi by arith
    then have "nat (a - lo) \<le> nat (p - lo)" "nat (p - lo) < nat (a - lo) + length xs" "nat (p - lo) - nat (a - lo) = nat (p - a)"
      using lo by arith+
    moreover have "\<not> (nat (b - lo) \<le> nat (p - lo) \<and> nat (p - lo) < nat (b - lo) + length ys)" using False p lo by arith
    ultimately show ?thesis using False m2(2) [OF j] m1(2) [OF j] by auto
  qed
qed

lemma single_valued_disjoint_Un: "single_valued A \<Longrightarrow> single_valued B \<Longrightarrow> Domain A \<inter> Domain B = {} \<Longrightarrow> single_valued (A \<union> B)"
  unfolding single_valued_def by blast

lemma tags_range_overlay:
  assumes "tags_range m a b" "tags_range n a' b'" "a \<le> b" "a' \<le> b'" "a' \<le> b" "a \<le> b'"
  shows "tags_range ({(p, t) \<in> m. p < a' \<or> b' \<le> p} \<union> n) (min a a') (max b b')"
proof -
  let ?o = "{(p, t) \<in> m. p < a' \<or> b' \<le> p}"
  have "Domain ?o = Domain m \<inter> {p. p < a' \<or> b' \<le> p}" by auto
  then have dom: "Domain ?o = {p \<in> {a ..< b}. p < a' \<or> b' \<le> p}" "Domain n = {a' ..< b'}"
    using assms(1,2) by (auto simp: tags_range_def)
  have "single_valued ?o" using assms(1) by (auto simp: tags_range_def elim: single_valued_subset [rotated])
  then have "single_valued (?o \<union> n)"
    using assms(2) dom by (intro single_valued_disjoint_Un) (auto simp: tags_range_def)
  moreover have "Domain (?o \<union> n) = {min a a' ..< max b b'}"
    unfolding Domain_Un_eq dom using assms(3-6) by (auto simp: min_def max_def split: if_splits)
  ultimately show ?thesis by (simp add: tags_range_def)
qed

lemma merge_overlap_ok:
  assumes "0 < overlap" "window_ok d" "sc_stream_offset c \<le> data_stop d" "ds_base_offset d \<le> chunk_stop c"
    and "merge_overlap overlap k d c = (k1, d1, w)"
  shows "step_ok overlap d c d1 w"
proof -
  let ?a = "ds_base_offset d" and ?xs = "ds_data d" and ?b = "sc_stream_offset c" and ?ys = "sc_data c"
  define lo hi where "lo = min ?a ?b" and "hi = max (data_stop d) (chunk_stop c)"
  define m where "m = put_slice (put_slice (replicate (nat (hi - lo)) 0) (nat (?a - lo)) ?xs) (nat (?b - lo)) ?ys"
  define spans where "spans = overlay_provenance (ds_provenance_spans d) (chunk_provenance c) ?b (chunk_stop c)"
  have b: "?b \<le> chunk_stop c" by (simp add: chunk_stop_def)
  have hi: "hi = max (?a + int (length ?xs)) (?b + int (length ?ys))" by (simp add: hi_def data_stop_def chunk_stop_def)
  note bytes = merged_bytes [of ?a ?xs ?b ?ys lo hi m, OF _ _ _ lo_def hi m_def]
  have touch: "?a \<le> ?a + int (length ?xs)" "?b \<le> ?a + int (length ?xs)" "?a \<le> ?b + int (length ?ys)"
    using assms(3,4) by (simp_all add: data_stop_def chunk_stop_def)
  note len = bytes(1) [OF touch] and nth = bytes(2) [OF touch]
  have ov: "meaning spans = {(p, t) \<in> meaning (ds_provenance_spans d). p < ?b \<or> chunk_stop c \<le> p} \<union> meaning (chunk_provenance c)" "spans_wf spans"
    using overlaid [OF b] by (simp_all add: spans_def)
  have rd: "tags_range (meaning (ds_provenance_spans d)) ?a (data_stop d)" and rc: "tags_range (meaning (chunk_provenance c)) ?b (chunk_stop c)"
    using assms(2) chunk_covered [of c] by (simp_all add: window_ok_def source_ok_def spans_cover_iff data_stop_def)
  have range: "tags_range (meaning spans) lo hi"
    unfolding ov(1) lo_def hi_def using touch b assms(3,4)
    by (intro tags_range_overlay [OF rd rc]) (simp_all add: data_stop_def)
  have hl: "lo + int (length m) = hi" using len by simp
  have src: "source_ok lo m spans" using range ov(2) hl by (simp add: source_ok_def spans_cover_iff)
  have ind: "?a \<le> p \<and> p < data_stop d" if "(p, t) \<in> meaning (ds_provenance_spans d)" for p t
    using that rd by (auto simp: tags_range_def dest: DomainI)
  have inc: "?b \<le> p \<and> p < chunk_stop c" if "(p, t) \<in> meaning (chunk_provenance c)" for p t
    using that rc by (auto simp: tags_range_def dest: DomainI)
  have "(p, x, t) \<in> cells lo m spans \<longleftrightarrow> (p, x, t) \<in> chunk_cells c \<union> {(p, x, t) \<in> window_cells d. p < ?b \<or> chunk_stop c \<le> p}" for p x t
  proof (cases "?b \<le> p \<and> p < chunk_stop c")
    case True
    then have "lo \<le> p" "p < hi" by (auto simp: lo_def hi_def)
    moreover have "(p, t) \<in> meaning spans \<longleftrightarrow> (p, t) \<in> meaning (chunk_provenance c)" using True by (auto simp: ov(1))
    ultimately show ?thesis using True nth [of p] hl by (auto simp: cells_def chunk_cells_def chunk_stop_def)
  next
    case False
    then have "(p, t) \<in> meaning spans \<longleftrightarrow> (p, t) \<in> meaning (ds_provenance_spans d)" using inc [of p t] by (auto simp: ov(1))
    moreover have "(p, t) \<in> meaning (ds_provenance_spans d) \<Longrightarrow> lo \<le> p \<and> p < hi" using ind [of p t] by (auto simp: lo_def hi_def)
    ultimately show ?thesis using False nth [of p] hl ind [of p t] inc [of p t]
      by (auto simp: cells_def chunk_cells_def window_cells_def chunk_stop_def data_stop_def)
  qed
  then have all: "cells lo m spans = chunk_cells c \<union> {(p, x, t) \<in> window_cells d. p < ?b \<or> chunk_stop c \<le> p}" by auto
  have clip: "meaning (clip_provenance spans lo hi) = meaning spans" "spans_wf (clip_provenance spans lo hi)"
  proof -
    have "{(p, t) \<in> meaning spans. lo \<le> p \<and> p < hi} = meaning spans" using range by (auto simp: tags_range_def dest: DomainI)
    then show "meaning (clip_provenance spans lo hi) = meaning spans" "spans_wf (clip_provenance spans lo hi)"
      using clipped [of spans lo hi] ov(2) by (simp_all add: spans_wf_def)
  qed
  have scan: "cells lo m (clip_provenance spans lo hi) = cells lo m spans" "source_ok lo m (clip_provenance spans lo hi)"
    using clip range hl by (simp_all add: cells_def source_ok_def spans_cover_iff)
  define n where "n = length m - overlap"
  have kept: "tail_slice overlap m = drop n m" "lo + int (length m) - int (length (drop n m)) = lo + int n"
    using assms(1) by (simp_all add: tail_slice_drop n_def)
  have step: "w = \<lparr>sw_base_offset = lo, sw_data = m, sw_provenance_spans = clip_provenance spans lo hi\<rparr>
      \<and> (if chunk_stop c \<ge> data_stop d then retain k (d\<lparr>ds_packet_ids := from_keys (sc_packet_ids c)\<rparr>) (lo + int n) (drop n m) spans = (k1, d1) else d1 = d)"
    using assms(5) unfolding merge_overlap_def Let_def lo_def [symmetric] hi_def [symmetric] m_def [symmetric] spans_def [symmetric] kept
    by (auto split: if_splits prod.splits)
  have "n \<le> length m" by (simp add: n_def)
  note r = retained [OF src this, of k "d\<lparr>ds_packet_ids := from_keys (sc_packet_ids c)\<rparr>" k1 d1]
  have "window_ok d1 \<and> window_cells d1 \<subseteq> chunk_cells c \<union> window_cells d"
    using step r(1,2) all assms(2) by (cases "chunk_stop c \<ge> data_stop d") auto
  then show ?thesis using step scan all by (auto simp: step_ok_def scan_cells_def)
qed

text \<open>A chunk the window already holds.\<close>

definition already_held :: "WindowState \<Rightarrow> StreamChunk \<Rightarrow> bool" where
  "already_held d c \<longleftrightarrow> ds_data d \<noteq> [] \<and> sc_stream_offset c \<ge> ds_base_offset d \<and> chunk_stop c \<le> data_stop d
     \<and> py_slice (ds_data d) (nat (sc_stream_offset c - ds_base_offset d)) (nat (chunk_stop c - ds_base_offset d)) = sc_data c"

lemma merge_stream_ok:
  assumes "0 < overlap" "window_ok d" "merge_stream overlap k d c = (k1, d1, w)"
  shows "if already_held d c then d1 = d \<and> sw_data w = [] \<and> sw_provenance_spans w = [] else step_ok overlap d c d1 w"
proof -
  consider "already_held d c" | "ds_data d = []"
    | "ds_data d \<noteq> []" "\<not> already_held d c" "sc_stream_offset c > data_stop d \<or> chunk_stop c < ds_base_offset d"
    | "ds_data d \<noteq> []" "\<not> already_held d c" "\<not> (sc_stream_offset c > data_stop d \<or> chunk_stop c < ds_base_offset d)" "sc_stream_offset c = data_stop d"
    | "ds_data d \<noteq> []" "\<not> already_held d c" "\<not> (sc_stream_offset c > data_stop d \<or> chunk_stop c < ds_base_offset d)" "sc_stream_offset c \<noteq> data_stop d"
    by blast
  then show ?thesis
  proof cases
    case 1
    then show ?thesis using assms(3) by (auto simp: merge_stream_def already_held_def Let_def)
  next
    case 2
    then obtain k2 where "merge_fresh overlap k d c = (k2, d1, w)" using assms(3) by (auto simp: merge_stream_def Let_def split: prod.splits)
    then show ?thesis using 2 merge_fresh_ok [OF assms(1)] by (simp add: already_held_def)
  next
    case 3
    then obtain k2 where "merge_island overlap k d c = (k2, d1, w)"
      using assms(3) unfolding merge_stream_def already_held_def Let_def by (auto split: prod.splits if_splits)
    then show ?thesis using 3 merge_island_ok [OF assms(1)] by simp
  next
    case 4
    then obtain k2 where "merge_in_order overlap k d c = (k2, d1, w)"
      using assms(3) unfolding merge_stream_def already_held_def Let_def by (auto split: prod.splits if_splits)
    then show ?thesis using 4 merge_in_order_ok [OF assms(1,2)] by simp
  next
    case 5
    then obtain k2 where "merge_overlap overlap k d c = (k2, d1, w)"
      using assms(3) unfolding merge_stream_def already_held_def Let_def by (auto split: prod.splits if_splits)
    then show ?thesis using 5 merge_overlap_ok [OF assms(1,2)] by simp
  qed
qed

section \<open>The provenance of a finding\<close>

record ScanContext =
  cx_flow :: FlowKey
  cx_flow_id :: string
  cx_connection_epoch :: "int option"
  cx_direction :: nat
  cx_base_offset :: "int option"
  cx_data :: bytes
  cx_packet_ids :: "int list"
  cx_provenance_spans :: "ProvenanceSpan list"
  cx_packet_ids_complete :: bool
  cx_observed_timestamp_ns :: int
  cx_completeness :: Completeness
  cx_is_datagram :: bool

text \<open>The context of a chunk, from the scan window of its merge, and that of a datagram.\<close>

definition stream_context :: "string \<Rightarrow> StreamChunk \<Rightarrow> ScanWindow \<Rightarrow> ScanContext" where
  "stream_context flow_id c w =
     \<lparr>cx_flow = sc_flow c, cx_flow_id = flow_id, cx_connection_epoch = Some (sc_connection_epoch c), cx_direction = sc_direction c,
      cx_base_offset = Some (sw_base_offset w), cx_data = sw_data w, cx_packet_ids = from_keys (sc_packet_ids c),
      cx_provenance_spans = sw_provenance_spans w, cx_packet_ids_complete = True,
      cx_observed_timestamp_ns = sc_last_timestamp_ns c, cx_completeness = sc_completeness c, cx_is_datagram = False\<rparr>"

definition datagram_context :: "ParsedPacket \<Rightarrow> ScanContext" where
  "datagram_context p =
     (case packet_flow p of (flow, direction) \<Rightarrow>
       \<lparr>cx_flow = flow, cx_flow_id = stable_text flow, cx_connection_epoch = None, cx_direction = direction,
        cx_base_offset = None, cx_data = pp_transport_payload p, cx_packet_ids = contributing_ids p,
        cx_provenance_spans = [make_span 0 (int (length (pp_transport_payload p))) (contributing_ids p) True], cx_packet_ids_complete = True,
        cx_observed_timestamp_ns = pp_timestamp_ns p, cx_completeness = (if pp_truncated p then Truncated else Complete),
        cx_is_datagram = True\<rparr>)"

text \<open>\<open>_limit_provenance_ids\<close>, with the names of the counters it increments.\<close>

definition limit_provenance_ids :: "nat \<Rightarrow> bool \<Rightarrow> int list \<Rightarrow> bool \<Rightarrow> int list \<times> bool \<times> string list" where
  "limit_provenance_ids limit pending ids complete =
     (let unique = from_keys ids; cut = length unique > limit; kept = (if cut then take limit unique else unique) in
      (kept, complete \<and> \<not> cut \<and> kept \<noteq> [],
       if cut then [if pending then ''provenance_pending_ids_truncated'' else ''provenance_packet_ids_truncated''] else []))"

fun provenance_loop :: "int \<Rightarrow> int \<Rightarrow> ProvenanceSpan list \<Rightarrow> int \<Rightarrow> int list \<Rightarrow> bool \<Rightarrow> int \<times> int list \<times> bool" where
  "provenance_loop start stop [] cursor ids complete = (cursor, ids, complete)"
| "provenance_loop start stop (s # spans) cursor ids complete =
     (if ps_stream_end s \<le> start then provenance_loop start stop spans cursor ids complete
      else if ps_stream_start s \<ge> stop then (cursor, ids, complete)
      else
        (let complete1 = complete \<and> \<not> ps_stream_start s > cursor; from_pos = max start (ps_stream_start s); to_pos = min stop (ps_stream_end s) in
         if to_pos \<le> from_pos then provenance_loop start stop spans cursor ids complete1
         else provenance_loop start stop spans (max cursor to_pos) (ids @ ps_packet_ids s) (complete1 \<and> ps_packet_ids_complete s)))"

definition provenance_for_span :: "nat \<Rightarrow> bool \<Rightarrow> ScanContext \<Rightarrow> int \<Rightarrow> int \<Rightarrow> int list \<times> bool \<times> string list" where
  "provenance_for_span limit pending cx start stop =
     (if stop \<le> start then limit_provenance_ids limit pending (cx_packet_ids cx) False
      else
        (let base = (case cx_base_offset cx of None \<Rightarrow> 0 | Some b \<Rightarrow> b) in
         case provenance_loop (base + start) (base + stop) (cx_provenance_spans cx) (base + start) [] (cx_packet_ids_complete cx) of
           (cursor, ids, complete) \<Rightarrow> limit_provenance_ids limit pending ids (complete \<and> \<not> cursor < base + stop)))"

definition combine_provenance :: "nat \<Rightarrow> bool \<Rightarrow> (int list \<times> bool) list \<Rightarrow> int list \<times> bool \<times> string list" where
  "combine_provenance limit pending values =
     limit_provenance_ids limit pending (concat (map fst values)) (list_all snd values)"

text \<open>The spans that meet a range, and the loop as a property of them.\<close>

definition meets :: "int \<Rightarrow> int \<Rightarrow> ProvenanceSpan \<Rightarrow> bool" where
  "meets start stop s \<longleftrightarrow> start < ps_stream_end s \<and> ps_stream_start s < stop"

definition covered :: "ProvenanceSpan list \<Rightarrow> int \<Rightarrow> int \<Rightarrow> bool" where
  "covered spans a b \<longleftrightarrow> (\<forall>p. a \<le> p \<and> p < b \<longrightarrow> (\<exists>s \<in> set spans. span_at s p))"

lemma loop_far:
  assumes "\<forall>s \<in> set spans. stop \<le> ps_stream_start s"
  shows "filter (meets start stop) spans = []" "covered spans cursor stop \<longleftrightarrow> stop \<le> cursor"
proof -
  show "filter (meets start stop) spans = []" using assms by (force simp: filter_empty_conv meets_def)
  have "\<not> span_at s p" if "s \<in> set spans" "p < stop" for s p using that assms by (force simp: span_at_def)
  then show "covered spans cursor stop \<longleftrightarrow> stop \<le> cursor" unfolding covered_def by (meson linorder_not_less order_refl order_less_le_trans)
qed

lemma provenance_loop_spec:
  assumes "spans_wf spans" "start < stop" "start \<le> cursor" "provenance_loop start stop spans cursor ids complete = (c, is, k)"
  shows "is = ids @ concat (map ps_packet_ids (filter (meets start stop) spans))
    \<and> (k \<and> stop \<le> c \<longleftrightarrow> complete \<and> covered spans cursor stop \<and> list_all ps_packet_ids_complete (filter (meets start stop) spans))"
  using assms(1,3,4)
proof (induction spans arbitrary: cursor ids complete)
  case Nil
  then show ?case using loop_far [of "[]" stop] by auto
next
  case (Cons s spans)
  have wf: "spans_wf spans" "span_nonempty s" and later: "r \<in> set spans \<Longrightarrow> ps_stream_start s \<le> ps_stream_start r" for r
    using Cons.prems(1) by (auto simp: spans_wf_def starts_sorted_def)
  consider "ps_stream_end s \<le> start" | "\<not> ps_stream_end s \<le> start" "ps_stream_start s \<ge> stop"
    | "meets start stop s" by (force simp: meets_def)
  then show ?case
  proof cases
    case 1
    then have "covered (s # spans) cursor stop \<longleftrightarrow> covered spans cursor stop" using Cons.prems(2) by (auto simp: covered_def span_at_def)
    then show ?thesis using Cons.IH [OF wf(1) Cons.prems(2)] Cons.prems(3) 1 by (simp add: meets_def)
  next
    case 2
    then have far: "\<forall>r \<in> set (s # spans). stop \<le> ps_stream_start r" using later by force
    show ?thesis using loop_far(1) [OF far, of start] loop_far(2) [OF far, of cursor] Cons.prems(3) 2 by auto
  next
    case 3
    let ?cursor = "max cursor (min stop (ps_stream_end s))"
    have pos: "\<not> min stop (ps_stream_end s) \<le> max start (ps_stream_start s)" using 3 wf(2) assms(2) by (auto simp: meets_def span_nonempty_def)
    have step: "provenance_loop start stop spans ?cursor (ids @ ps_packet_ids s)
        ((complete \<and> \<not> ps_stream_start s > cursor) \<and> ps_packet_ids_complete s) = (c, is, k)"
      using Cons.prems(3) 3 pos by (simp add: meets_def Let_def)
    have cov: "covered (s # spans) cursor stop \<longleftrightarrow> \<not> ps_stream_start s > cursor \<and> covered spans ?cursor stop"
    proof (cases "ps_stream_start s > cursor")
      case True
      then have "\<not> span_at r cursor" if "r \<in> set (s # spans)" for r using that later by (force simp: span_at_def)
      moreover have "cursor < stop" using True 3 by (simp add: meets_def)
      ultimately show ?thesis using True by (auto simp: covered_def)
    next
      case False
      then have "span_at s p \<longleftrightarrow> p < ps_stream_end s" if "cursor \<le> p" for p using that by (auto simp: span_at_def)
      then show ?thesis using False by (auto simp: covered_def)
    qed
    have "start \<le> ?cursor" using Cons.prems(2) by simp
    from Cons.IH [OF wf(1) this step] show ?thesis using 3 cov by auto
  qed
qed

section \<open>Accounting of windows\<close>

text \<open>What the counters hold beyond one window: the other directions and flows.\<close>

definition others_spans :: "DetectorCounters \<Rightarrow> WindowState \<Rightarrow> int" where
  "others_spans k d = dc_provenance_spans k - int (length (ds_provenance_spans d))"

definition others_refs :: "DetectorCounters \<Rightarrow> WindowState \<Rightarrow> int" where
  "others_refs k d = dc_provenance_packet_id_refs k - packet_id_refs (ds_provenance_spans d)"

definition counted :: "DetectorCounters \<Rightarrow> WindowState \<Rightarrow> int \<Rightarrow> int \<Rightarrow> int \<Rightarrow> bool" where
  "counted k d s r t \<longleftrightarrow> others_spans k d = s \<and> others_refs k d = r \<and> dc_retained_tail_bytes k = t \<and> 0 \<le> s \<and> 0 \<le> r"

lemma packet_id_refs_nonneg: "0 \<le> packet_id_refs spans"
  by (induction spans) (simp_all add: packet_id_refs_def)

lemma packet_id_refs_append [simp]: "packet_id_refs (xs @ ys) = packet_id_refs xs + packet_id_refs ys" "packet_id_refs [] = 0"
  "packet_id_refs (s # ss) = int (length (ps_packet_ids s)) + packet_id_refs ss"
  by (simp_all add: packet_id_refs_def)

lemma provenance_peaks_counts [simp]:
  "dc_provenance_spans (provenance_peaks k) = dc_provenance_spans k"
  "dc_provenance_packet_id_refs (provenance_peaks k) = dc_provenance_packet_id_refs k"
  "dc_retained_tail_bytes (provenance_peaks k) = dc_retained_tail_bytes k"
  by (simp_all add: provenance_peaks_def)

lemma replace_counted:
  assumes "counted k d s r t" "replace_direction_provenance k d spans = (k1, d1)"
  shows "counted k1 d1 s r t"
  using assms packet_id_refs_nonneg [of "coalesce_provenance spans"]
  by (auto simp: counted_def others_spans_def others_refs_def replace_direction_provenance_def provenance_counts_def Let_def)

lemma retain_counted: "counted k d s r t \<Longrightarrow> retain k d base kept spans = (k1, d1) \<Longrightarrow> counted k1 d1 s r t"
  unfolding retain_def by (rule replace_counted) (simp_all add: counted_def others_spans_def others_refs_def)

lemma join_span_counts:
  "int (length (join_span result s)) = int (length result) + (if continues result (normalized_span s) then 0 else 1)"
  "packet_id_refs (join_span result s) = packet_id_refs result
     + (if continues result (normalized_span s) then 0 else int (length (ps_packet_ids (normalized_span s))))"
proof -
  have "result = butlast result @ [last result]" if "result \<noteq> []" using that by simp
  then have "packet_id_refs result = packet_id_refs (butlast result) + int (length (ps_packet_ids (last result)))" if "result \<noteq> []"
    using that by (metis packet_id_refs_append add_0_right)
  then show "int (length (join_span result s)) = int (length result) + (if continues result (normalized_span s) then 0 else 1)"
    "packet_id_refs (join_span result s) = packet_id_refs result
     + (if continues result (normalized_span s) then 0 else int (length (ps_packet_ids (normalized_span s))))"
    by (auto simp: join_span_def Let_def continues_def)
qed

lemma append_span_counted:
  "counted k d s r t \<Longrightarrow> append_window_span (k, d) x = (k1, d1) \<Longrightarrow> counted k1 d1 s r t"
  using join_span_counts [of "ds_provenance_spans d" x]
  by (auto simp: append_window_span_def Let_def counted_def others_spans_def others_refs_def split: if_splits)

lemma append_counted:
  assumes "counted k d s r t" "append_direction_provenance k d spans = (k1, d1)"
  shows "counted k1 d1 s r t"
proof -
  have "counted k d s r t \<Longrightarrow> foldl append_window_span (k, d) spans = (k2, d2) \<Longrightarrow> counted k2 d2 s r t" for k2 d2
  proof (induction spans arbitrary: k d)
    case (Cons x spans)
    obtain k3 d3 where "append_window_span (k, d) x = (k3, d3)" by (rule prod.exhaust)
    then show ?case using Cons append_span_counted [of k d s r t x k3 d3] by auto
  qed simp
  moreover obtain k2 where "foldl append_window_span (k, d) spans = (k2, d1)" "k1 = provenance_peaks k2"
    using assms(2) by (auto simp: append_direction_provenance_def split: prod.splits)
  ultimately have "counted k2 d1 s r t" using assms(1) by blast
  then show ?thesis unfolding \<open>k1 = provenance_peaks k2\<close> by (simp add: counted_def others_spans_def others_refs_def)
qed

lemma counted_frame [simp]:
  "counted k (d\<lparr>ds_packet_ids := ids\<rparr>) s r t = counted k d s r t" "counted k (d\<lparr>ds_data := bs\<rparr>) s r t = counted k d s r t"
  by (simp_all add: counted_def others_spans_def others_refs_def)

lemma merge_cases_counted:
  assumes "counted k d s r t"
  shows "merge_fresh overlap k d c = (k1, d1, w) \<Longrightarrow> counted k1 d1 s r t"
    and "merge_island overlap k d c = (k1, d1, w) \<Longrightarrow> counted k1 d1 s r t"
    and "merge_in_order overlap k d c = (k1, d1, w) \<Longrightarrow> counted k1 d1 s r t"
    and "merge_overlap overlap k d c = (k1, d1, w) \<Longrightarrow> counted k1 d1 s r t"
proof -
  have c: "counted k (d\<lparr>ds_packet_ids := ids\<rparr>) s r t" for ids using assms by simp
  show "merge_fresh overlap k d c = (k1, d1, w) \<Longrightarrow> counted k1 d1 s r t"
    by (auto simp: merge_fresh_def Let_def split: if_splits prod.splits dest!: retain_counted [OF c])
  show "merge_island overlap k d c = (k1, d1, w) \<Longrightarrow> counted k1 d1 s r t"
    by (auto simp: merge_island_def Let_def split: prod.splits dest!: retain_counted [OF c])
  show "merge_overlap overlap k d c = (k1, d1, w) \<Longrightarrow> counted k1 d1 s r t"
    using assms by (auto simp: merge_overlap_def Let_def split: if_splits prod.splits dest!: retain_counted [OF c])
  obtain k0 d0 where a: "append_direction_provenance k (d\<lparr>ds_data := ds_data d @ sc_data c\<rparr>) (chunk_provenance c) = (k0, d0)" by (rule prod.exhaust)
  then have "counted k0 d0 s r t" using assms by (intro append_counted [OF _ a]) simp
  note rc = this retain_counted [OF this]
  show "merge_in_order overlap k d c = (k1, d1, w) \<Longrightarrow> counted k1 d1 s r t"
    using rc(1) unfolding merge_in_order_def a by (auto simp: Let_def split: if_splits prod.splits dest!: rc(2))
qed

lemma merge_stream_counted:
  assumes "counted k d s r (t + int (length (ds_data d)))" "merge_stream overlap k d c = (k1, d1, w)"
  shows "counted k1 d1 s r (t + int (length (ds_data d1)))"
proof -
  obtain k2 where m: "counted k2 d1 s r (t + int (length (ds_data d)))"
    and k1: "k1 = record_retained_peaks (k2\<lparr>dc_retained_tail_bytes := dc_retained_tail_bytes k2 + (int (length (ds_data d1)) - int (length (ds_data d)))\<rparr>)"
    using assms(2) merge_cases_counted [OF assms(1), of overlap c _ d1 w] assms(1)
    unfolding merge_stream_def Let_def by (auto split: if_splits prod.splits)
  then show ?thesis by (simp add: counted_def others_spans_def others_refs_def record_retained_peaks_def)
qed

lemma merge_stream_bounded:
  assumes "0 < overlap" "length (ds_data d) \<le> overlap + trim_slack overlap" "merge_stream overlap k d c = (k1, d1, w)"
  shows "length (ds_data d1) \<le> overlap + trim_slack overlap"
proof -
  have r: "retain k' d' base kept spans = (k2, d2) \<Longrightarrow> ds_data d2 = kept" for k' d' base kept spans k2 d2
    by (auto simp: retain_def replace_direction_provenance_def provenance_counts_def Let_def)
  have tail: "length (tail_slice overlap xs) \<le> overlap" for xs :: bytes using assms(1) by (simp add: tail_slice_drop)
  show ?thesis using assms(2,3) tail
    unfolding merge_stream_def Let_def merge_fresh_def merge_island_def merge_in_order_def merge_overlap_def
    by (auto split: if_splits prod.splits dest!: r intro: le_trans trans_le_add1)
qed

section \<open>Runs of chunks\<close>

fun window_run :: "nat \<Rightarrow> DetectorCounters \<Rightarrow> WindowState \<Rightarrow> StreamChunk list \<Rightarrow> DetectorCounters \<times> WindowState" where
  "window_run overlap k d [] = (k, d)"
| "window_run overlap k d (c # cs) = (case merge_stream overlap k d c of (k1, d1, w) \<Rightarrow> window_run overlap k1 d1 cs)"

lemma source_ok_empty: "source_ok base [] []"
  by (simp add: source_ok_def spans_cover_def spans_wf_def starts_sorted_def single_valued_def)

lemma merge_stream_step:
  assumes "0 < overlap" "window_ok d" "merge_stream overlap k d c = (k1, d1, w)"
  shows "window_ok d1" "source_ok (sw_base_offset w) (sw_data w) (sw_provenance_spans w)"
    "scan_cells w \<subseteq> chunk_cells c \<union> window_cells d" "window_cells d1 \<subseteq> chunk_cells c \<union> window_cells d"
    "already_held d c \<or> chunk_cells c \<subseteq> scan_cells w"
  using merge_stream_ok [OF assms] assms(2)
  by (auto simp: step_ok_def source_ok_empty scan_cells_def cells_def split: if_splits)

definition run_ok :: "nat \<Rightarrow> int \<Rightarrow> int \<Rightarrow> int \<Rightarrow> stream_cell set \<Rightarrow> DetectorCounters \<Rightarrow> WindowState \<Rightarrow> bool" where
  "run_ok overlap s r t seen k d \<longleftrightarrow> window_ok d \<and> window_cells d \<subseteq> seen \<and> length (ds_data d) \<le> overlap + trim_slack overlap
     \<and> counted k d s r (t + int (length (ds_data d)))"

lemma window_run_ok:
  "0 < overlap \<Longrightarrow> run_ok overlap s r t seen k d \<Longrightarrow> window_run overlap k d cs = (k1, d1) \<Longrightarrow>
   run_ok overlap s r t (seen \<union> (\<Union>c \<in> set cs. chunk_cells c)) k1 d1"
proof (induction cs arbitrary: k d seen)
  case (Cons c cs)
  obtain k2 d2 w where m: "merge_stream overlap k d c = (k2, d2, w)" by (rule prod_cases3)
  have d: "window_ok d" using Cons.prems(2) by (simp add: run_ok_def)
  have "run_ok overlap s r t (seen \<union> chunk_cells c) k2 d2"
    using Cons.prems(2) merge_stream_step [OF Cons.prems(1) d m] merge_stream_bounded [OF Cons.prems(1) _ m] merge_stream_counted [OF _ m]
    unfolding run_ok_def by blast
  from Cons.IH [OF Cons.prems(1) this] show ?case using Cons.prems(3) m by (simp add: Un_assoc)
qed simp

definition idle_counters :: "DetectorCounters \<Rightarrow> bool" where
  "idle_counters k \<longleftrightarrow> 0 \<le> dc_provenance_spans k \<and> 0 \<le> dc_provenance_packet_id_refs k"

lemma new_window_ok:
  "idle_counters k \<Longrightarrow> run_ok overlap (dc_provenance_spans k) (dc_provenance_packet_id_refs k) (dc_retained_tail_bytes k) {} k new_window"
  by (simp add: run_ok_def window_ok_def new_window_def source_ok_empty window_cells_def cells_def counted_def others_spans_def
      others_refs_def idle_counters_def)


definition sample_flow :: FlowKey where
  "sample_flow = fst (canonical 6 ''10.0.0.1'' 40000 ''10.0.0.2'' 80 ''eth0'' [])"

definition sample_chunk :: "int \<Rightarrow> bytes \<Rightarrow> int \<Rightarrow> StreamChunk" where
  "sample_chunk offset bs packet =
     \<lparr>sc_flow = sample_flow, sc_direction = 0, sc_stream_offset = offset, sc_data = bs, sc_packet_ids = [packet], sc_first_timestamp_ns = 0,
      sc_last_timestamp_ns = 1, sc_connection_epoch = 0, sc_completeness = Complete,
      sc_provenance_spans = [make_span offset (offset + int (length bs)) [packet] True]\<rparr>"

definition fresh_counters :: DetectorCounters where
  "fresh_counters = \<lparr>dc_provenance_spans = 0, dc_provenance_packet_id_refs = 0, dc_peak_provenance_spans = 0, dc_peak_provenance_packet_id_refs = 0,
     dc_retained_tail_bytes = 0, dc_ntlm_correlation_bytes = 0, dc_pending_auth_bytes = 0, dc_peak_retained_tail_bytes = 0, dc_peak_retained_bytes = 0\<rparr>"

lemmas provenance_simps = coalesce_provenance_def clip_provenance_def join_span_def continues_def normalized_span_def
  span_nonempty_def make_span_def from_keys_def chunk_stop_def Let_def

lemma sample_chunk_provenance:
  "bs \<noteq> [] \<Longrightarrow> chunk_provenance (sample_chunk offset bs packet) = [make_span offset (offset + int (length bs)) [packet] True]"
  by (simp add: chunk_provenance_def sample_chunk_def provenance_simps)

lemma sample_window_run:
  "\<exists>k1 d1. window_run 4096 fresh_counters new_window [sample_chunk 0 [97, 98] 1] = (k1, d1)
     \<and> ds_base_offset d1 = 0 \<and> ds_data d1 = [97, 98] \<and> ds_provenance_spans d1 = [make_span 0 2 [1] True]"
  by (simp add: merge_stream_def merge_fresh_def retain_def replace_direction_provenance_def new_window_def
      provenance_counts_def chunk_provenance_def sample_chunk_def provenance_simps)

lemma sample_merge:
  assumes "ds_base_offset d = 0" "ds_data d = [97, 98]" "ds_provenance_spans d = [make_span 0 2 [1] True]"
  shows "\<exists>k2 d2. merge_stream 4096 k d (sample_chunk 2 [99] 2) =
    (k2, d2, \<lparr>sw_base_offset = 0, sw_data = [97, 98, 99], sw_provenance_spans = [make_span 0 2 [1] True, make_span 2 3 [2] True]\<rparr>)"
  using assms
  by (simp add: merge_stream_def merge_in_order_def data_stop_def append_direction_provenance_def append_window_span_def
      chunk_provenance_def sample_chunk_def trim_slack_def provenance_simps)


section \<open>Evidence\<close>

lemma limited:
  assumes "limit_provenance_ids limit pending ids complete = (kept, k, counters)"
  shows "distinct kept \<and> length kept \<le> limit \<and> set kept \<subseteq> set ids \<and> (k \<longrightarrow> complete \<and> set kept = set ids)"
  using assms by (auto simp: limit_provenance_ids_def Let_def dest: in_set_takeD split: if_splits)



end
