(* ===== verification/Spec2Isabelle.thy ===== *)
theory Spec2Isabelle
  imports Prelude Ordered_Dict Byte_Ranges Models Packets Fragments Tcp_Reassembly Forwarded_Duplicates Config Routing Dispatch
    Utf8 Mqtt Socks5 Service_Watchdog Supervision Capture Verdict Session Worker_Process Byte_Text Cleartext
    Http_Framing Http_Requests Ntlm_Wrappers Provenance Detector_Window
begin

text \<open>
  \<open>packet_audit\<close> captures packets on an interface (or replays a capture file), routes them to worker processes,
  reassembles fragments and TCP streams there, scans the payloads for credentials sent in the clear and writes what
  it finds to an evidence file. At the end it says whether the session was \<open>complete\<close>: whether anything that could
  carry evidence was lost on the way. This development models the path of a packet from the capture library to the
  window the detector scans, the protocol parsers that are pure functions, and the supervision that decides the verdict.

  \<^bold>\<open>Parts of the program and theories.\<close>
  \<^item> \<open>Prelude\<close>: bytes, Python's exceptions and error results, slices, big-endian reads, decimal printing.
    \<open>Ordered_Dict\<close>: \<open>dict\<close> and \<open>OrderedDict\<close> as association lists, with the locale of a table whose counters are exact.
    \<open>Byte_Ranges\<close>: the locale of carving new bytes around stored ones, which fragments and TCP segments interpret.
    \<open>Utf8\<close>: the strict UTF-8 decoder. \<open>Byte_Text\<close>: literals, numbers and searching in byte strings.
  \<^item> \<open>Models\<close> (\<open>models.py\<close>): packets, flow keys, stream chunks. \<open>Packets\<close> (\<open>packets.py\<close>): decoding of link, IP and
    transport headers.
  \<^item> \<open>Fragments\<close> and \<open>Tcp_Reassembly\<close> (\<open>reassembly.py\<close>): \<open>FragmentReassembler\<close> and \<open>TCPReassembler\<close>, all methods.
  \<^item> \<open>Forwarded_Duplicates\<close> (\<open>forwarded_duplicates.py\<close>): recognition of the forwarded copy of a frame.
  \<^item> \<open>Config\<close> (\<open>config.py\<close>): reading and validating the configuration.
  \<^item> \<open>Routing\<close>, \<open>Dispatch\<close>, \<open>Supervision\<close>, \<open>Verdict\<close>, \<open>Session\<close> (\<open>supervisor.py\<close>): sharding and route tables; admission to
    the worker queues and the capture loop; control channel, handshakes, restarts and heartbeats; shutdown,
    reconciliation and verdict; the composition of all of them into a session.
  \<^item> \<open>Service_Watchdog\<close> (\<open>service_watchdog.py\<close>): the notifications to the service manager.
  \<^item> \<open>Mqtt\<close> (\<open>mqtt.py\<close>) and \<open>Socks5\<close> (\<open>socks5.py\<close>): the credential parsers.
  \<^item> \<open>Worker_Process\<close> (\<open>worker.py\<close>): the worker process, composing the reassemblers with a detector that is an argument.
  \<^item> \<open>Capture\<close> (\<open>capture.py\<close>): the classic capture file reader, record construction and the two ways to read a batch.
  \<^item> \<open>Cleartext\<close> (\<open>cleartext.py\<close>): the Redis and PostgreSQL recognizers, with the locale of a walk over frames that can be resumed.
  \<^item> \<open>Http_Framing\<close> (\<open>http_forms.py\<close>): the HTTP/1 request framer. \<open>Http_Requests\<close>: requests as they are sent, and what the framer promises for them.
  \<^item> \<open>Ntlm_Wrappers\<close> (\<open>ntlm_wrappers.py\<close>): SPNEGO envelopes, SMB2 headers and the session of an NTLM token.
  \<^item> \<open>Provenance\<close> (\<open>detectors.py\<close>): the spans that say which packets stream bytes came from, with their meaning as a relation. \<open>Detector_Window\<close>: the window of
    bytes kept for each direction, what of it is scanned, and the packets a finding is attributed to.

  \<^bold>\<open>How the code is translated.\<close> A class is a record with the fields of \<open>__init__\<close>; a method is a function from the record to
  the updated record and its result; an exception is the left value of a sum, so a \<open>try\<close> statement is a case
  distinction. Python integers are \<open>int\<close> (or \<open>nat\<close> for positions in a byte string); 32-bit sequence numbers are
  integers with the masks of the source written out. Clocks are nanoseconds. What other processes, the queues, the
  sockets and the clock answer is an argument of the call that asks, so a theorem holds for every such behaviour;
  a loop that waits for them takes the list of answers it gets. Code outside the repository is an argument too: the
  BLAKE2b digest, \<open>tomllib\<close>, \<open>Path.resolve\<close>, the capture library.

  \<^bold>\<open>Loops.\<close> Loops over data are structural recursions or have a termination proof by a measure. The flushing and
  evicting loops of TCP reassembly are partial functions into \<open>option\<close>; that they always return is proved with the
  table invariant (\<open>tcp_process_inv\<close>, \<open>tcp_expire_inv\<close>). No fuel is used.

  \<^bold>\<open>What the theorems show.\<close>
  \<^item> Decoding raises only \<open>PacketDecodeError\<close>, yields well-formed packets that are parts of the frame, and reads
    back what was encoded.
  \<^item> Reassembly of fragments and of TCP streams never invents a byte, emits each stream position at most once and
    in order, stays within its limits with exact counters, always returns, and delivers what arrives completely.
  \<^item> The worker process always returns, fails only through the detector or its circuit breaker, gives back every queue
    reservation, and is the composition of one fragment run, one TCP run and the detector's calls.
  \<^item> Replay of a capture file returns exactly its records, ends whatever the file holds, and a batch is numbered without
    gaps or fails visibly.
  \<^item> The suppressor pairs copies one to one and only with a justification; routing keeps fragments and the two
    directions of a flow on one worker within bounded tables.
  \<^item> Dispatch accounts for every packet; a child check that returns vouches for fresh heartbeats and a restart budget;
    the verdict is \<open>complete\<close> exactly when every acknowledgement and every counter agrees; and end to end a complete
    live session lost nothing.
  \<^item> The parsers never raise an index error, and their spans and values lie inside the frame they read; MQTT reads back
    the encoding, SOCKS5 recognises exactly its grammar; the Redis and PostgreSQL scans can be resumed at their cursor and
    recover exactly the credentials of a pipeline of commands; the HTTP framer recovers every pipeline of well-formed requests
    with their decoded bodies, never takes the end of a segment for the end of a body, and knows where each byte of a body is; NTLM tokens are
    unwrapped from their SPNEGO envelopes exactly, and the SMB2 searches find what their specification says.
  \<^item> The detector scans exactly the delivered bytes: every scanned position holds a byte that was delivered there, with the
    provenance it was delivered with, and a finding names only packets its bytes came from, all of them if it says so.
  \<^item> The watchdog refines the abstract protocol of the service manager.

  \<^bold>\<open>Not modelled.\<close> The scanners of \<open>detectors.py\<close> with their pending state and the eviction of flows, the field extraction of \<open>http_forms.py\<close> and the file
  signatures of \<open>http_transfers.py\<close> (regular expressions and protocol text); the evidence writer, whose work is file-system calls; the opening of live capture
  handles and the raw \<open>dumpcap\<close> ring, which wrap a foreign library and a subprocess; the dashboard and the command line.
  Telemetry records are kept by name, without their fields.
\<close>

end
